(* ===== verification/Prelude.thy ===== *)
theory Prelude
  imports Main "HOL-Library.Word" "HOL-Library.Signed_Division"
begin

section \<open>Prelude: the value types and library operations the components share\<close>

text \<open>
  Byte strings (\<^verbatim>\<open>std::string\<close>, \<^verbatim>\<open>QByteArray\<close>, \<^verbatim>\<open>QString\<close> restricted to Latin-1) are
  character lists, searched with the operations below; a C++ \<^verbatim>\<open>int\<close> or \<^verbatim>\<open>long long\<close> is an
  \<open>int\<close>, with the conversion to 32 bits and the overflow of 32-bit products written out. The
  collections named here gather the facts the component proofs share: \<open>frame\<close> (what an
  operation leaves alone), \<open>inv_intro\<close> (operations keep an invariant) and \<open>str_simps\<close>.
\<close>

named_theorems frame
named_theorems inv_intro
named_theorems str_simps

type_synonym bytes = string

subsection \<open>C++ integers\<close>

definition INT_MAX :: int where
  "INT_MAX = 2147483647"

definition int32_ok :: "int \<Rightarrow> bool" where
  "int32_ok x \<longleftrightarrow> - 2147483648 \<le> x \<and> x \<le> 2147483647"

text \<open>The conversion of a wider integer to \<^verbatim>\<open>int\<close>: the low 32 bits, read as two's complement.\<close>

definition to_int32 :: "int \<Rightarrow> int" where
  "to_int32 x = signed_take_bit 31 x"

lemma to_int32_id: "int32_ok x \<Longrightarrow> to_int32 x = x"
  by (simp add: int32_ok_def to_int32_def signed_take_bit_int_eq_self)

text \<open>A product of two \<^verbatim>\<open>int\<close>s: signed overflow has no defined value.\<close>

definition mul32 :: "int \<Rightarrow> int \<Rightarrow> int option" where
  "mul32 a b = (if int32_ok (a * b) then Some (a * b) else None)"

lemma mul32_Some [simp]: "int32_ok (a * b) \<Longrightarrow> mul32 a b = Some (a * b)"
  by (simp add: mul32_def)

lemma mul32_None_iff: "mul32 a b = None \<longleftrightarrow> \<not> int32_ok (a * b)"
  by (simp add: mul32_def)

text \<open>Truncating division of a non-negative number by a positive one is \<open>div\<close>.\<close>

lemma sdiv_nonneg:
  assumes "0 \<le> a" "0 < b"
  shows "(a::int) sdiv b = a div b"
proof (cases "a = 0")
  case False
  with assms have "sgn a = 1" "sgn b = 1" by simp_all
  with assms show ?thesis by (simp add: signed_divide_int_def)
qed simp

lemma smod_nonneg:
  assumes "0 \<le> a" "0 < b"
  shows "(a::int) smod b = a mod b"
proof (cases "a = 0")
  case False
  with assms have "sgn a = 1" "sgn b = 1" by simp_all
  with assms show ?thesis by (simp add: signed_modulo_int_def)
qed simp

subsection \<open>Substrings\<close>

definition starts_with :: "'a list \<Rightarrow> 'a list \<Rightarrow> bool" where
  "starts_with p s \<longleftrightarrow> take (length p) s = p"

definition ends_with :: "'a list \<Rightarrow> 'a list \<Rightarrow> bool" where
  "ends_with p s \<longleftrightarrow> length p \<le> length s \<and> drop (length s - length p) s = p"

lemma starts_with_append [simp, str_simps]: "starts_with p (p @ s)"
  by (simp add: starts_with_def)

lemma starts_with_Nil [simp]: "starts_with [] s"
  by (simp add: starts_with_def)

lemma starts_with_Cons [simp, str_simps]:
  "starts_with (x # p) s \<longleftrightarrow> (case s of [] \<Rightarrow> False | y # t \<Rightarrow> x = y \<and> starts_with p t)"
  by (cases s) (auto simp: starts_with_def)

lemma starts_with_iff: "starts_with p s \<longleftrightarrow> (\<exists>t. s = p @ t)"
  by (metis append_eq_conv_conj starts_with_def)

lemma starts_with_length: "starts_with p s \<Longrightarrow> length p \<le> length s"
  by (auto simp: starts_with_iff)

lemma ends_with_iff: "ends_with p s \<longleftrightarrow> (\<exists>t. s = t @ p)"
proof
  assume e: "ends_with p s"
  then have "s = take (length s - length p) s @ p"
    by (metis append_take_drop_id ends_with_def)
  then show "\<exists>t. s = t @ p" by blast
qed (auto simp: ends_with_def)

text \<open>
  The least position of a pattern: \<^verbatim>\<open>std::string::find\<close> and \<^verbatim>\<open>QByteArray::indexOf\<close>, with
  \<open>None\<close> for \<^verbatim>\<open>npos\<close> and \<^verbatim>\<open>-1\<close>.
\<close>

fun find_sub :: "'a list \<Rightarrow> 'a list \<Rightarrow> nat option" where
  "find_sub p [] = (if p = [] then Some 0 else None)"
| "find_sub p (x # s) =
     (if starts_with p (x # s) then Some 0 else map_option Suc (find_sub p s))"

definition find_from :: "'a list \<Rightarrow> 'a list \<Rightarrow> nat \<Rightarrow> nat option" where
  "find_from p s k =
     (if length s < k then None else map_option (\<lambda>i. i + k) (find_sub p (drop k s)))"

definition contains_sub :: "'a list \<Rightarrow> 'a list \<Rightarrow> bool" where
  "contains_sub p s \<longleftrightarrow> find_sub p s \<noteq> None"

lemma find_sub_Some:
  "find_sub p s = Some i \<Longrightarrow>
     starts_with p (drop i s) \<and> i + length p \<le> length s \<and> (\<forall>j<i. \<not> starts_with p (drop j s))"
proof (induction p s arbitrary: i rule: find_sub.induct)
  case (1 p)
  then show ?case by (simp split: if_splits)
next
  case (2 p x s)
  show ?case
  proof (cases "starts_with p (x # s)")
    case True
    with 2 show ?thesis by (auto dest: starts_with_length)
  next
    case False
    with 2 obtain k where "find_sub p s = Some k" "i = Suc k" by auto
    with 2(1) [OF False, of k] False show ?thesis
      by (auto simp: less_Suc_eq_0_disj)
  qed
qed

lemma find_sub_None: "find_sub p s = None \<longleftrightarrow> (\<forall>j\<le>length s. \<not> starts_with p (drop j s))"
proof (induction p s rule: find_sub.induct)
  case (1 p)
  then show ?case by (cases p) auto
next
  case (2 p x s)
  show ?case
  proof (cases "starts_with p (x # s)")
    case True
    then show ?thesis by (auto intro: exI [of _ 0])
  next
    case False
    have "(\<forall>j\<le>length (x # s). \<not> starts_with p (drop j (x # s)))
          \<longleftrightarrow> (\<forall>j\<le>length s. \<not> starts_with p (drop j s))" (is "?l = ?r")
    proof
      assume ?l
      then show ?r by (metis Suc_le_mono drop_Suc_Cons length_Cons)
    next
      assume r: ?r
      show ?l
      proof (intro allI impI)
        fix j assume "j \<le> length (x # s)"
        with r False show "\<not> starts_with p (drop j (x # s))" by (cases j) simp_all
      qed
    qed
    with False 2 show ?thesis by simp
  qed
qed

subsection \<open>Buffers\<close>

text \<open>\<^verbatim>\<open>memcpy(&buf[k], xs, n)\<close> for the whole of \<open>xs\<close>.\<close>

definition memcpy_at :: "'a list \<Rightarrow> nat \<Rightarrow> 'a list \<Rightarrow> 'a list" where
  "memcpy_at buf k xs = take k buf @ xs @ drop (k + length xs) buf"

lemma take_memcpy_at: "k \<le> length buf \<Longrightarrow> take (k + length xs) (memcpy_at buf k xs) = take k buf @ xs"
  by (simp add: memcpy_at_def)

lemma length_memcpy_at: "k + length xs \<le> length buf \<Longrightarrow> length (memcpy_at buf k xs) = length buf"
  by (simp add: memcpy_at_def)

subsection \<open>Decimal numbers\<close>

fun nat_str :: "nat \<Rightarrow> string" where
  "nat_str n =
     (if n < 10 then [char_of (48 + n)] else nat_str (n div 10) @ [char_of (48 + n mod 10)])"

declare nat_str.simps [simp del]

definition int_str :: "int \<Rightarrow> string" where
  "int_str i = (if i < 0 then CHR ''-'' # nat_str (nat (- i)) else nat_str (nat i))"

lemma nat_str_nonempty [simp]: "nat_str n \<noteq> []"
  by (subst nat_str.simps) simp

subsection \<open>Handlers\<close>

text \<open>
  A handler of a Qt object: it changes the object's state and calls out (signals it emits, calls of
  other objects), in order. \<open>acts\<close> runs handlers one after the other.
\<close>

type_synonym ('s, 'o) act = "'s \<Rightarrow> 's \<times> 'o list"

definition emit :: "'o \<Rightarrow> ('s, 'o) act" where
  "emit x = (\<lambda>s. (s, [x]))"

definition modify :: "('s \<Rightarrow> 's) \<Rightarrow> ('s, 'o) act" where
  "modify f = (\<lambda>s. (f s, []))"

definition skip_act :: "('s, 'o) act" where
  "skip_act = (\<lambda>s. (s, []))"

fun acts :: "('s, 'o) act list \<Rightarrow> ('s, 'o) act" where
  "acts [] = skip_act"
| "acts (f # fs) = (\<lambda>s. let (s1, o1) = f s; (s2, o2) = acts fs s1 in (s2, o1 @ o2))"

text \<open>A handler that depends on the state it finds.\<close>

definition with_state :: "('s \<Rightarrow> ('s, 'o) act) \<Rightarrow> ('s, 'o) act" where
  "with_state h = (\<lambda>s. h s s)"

definition when_act :: "bool \<Rightarrow> ('s, 'o) act \<Rightarrow> ('s, 'o) act" where
  "when_act b f = (if b then f else skip_act)"

definition keeps :: "('s \<Rightarrow> bool) \<Rightarrow> ('s, 'o) act \<Rightarrow> bool" where
  "keeps P f \<longleftrightarrow> (\<forall>s. P s \<longrightarrow> P (fst (f s)))"

lemma act_simps [simp]:
  "emit x s = (s, [x])" "modify f s = (f s, [])" "skip_act s = (s, [])"
  "with_state h s = h s s" "when_act True g = g" "when_act False g = skip_act"
  by (simp_all add: emit_def modify_def skip_act_def with_state_def when_act_def)

lemma keeps_basic [intro]:
  "keeps P (emit x)" "keeps P skip_act" "(\<And>s. P s \<Longrightarrow> P (f s)) \<Longrightarrow> keeps P (modify f)"
  by (simp_all add: keeps_def)

lemma keeps_acts [intro]: "list_all (keeps P) fs \<Longrightarrow> keeps P (acts fs)"
proof (induction fs)
  case (Cons f fs)
  then show ?case by (auto simp: keeps_def Let_def split: prod.split)
qed auto

lemma keeps_when [intro]: "(b \<Longrightarrow> keeps P f) \<Longrightarrow> keeps P (when_act b f)"
  by (cases b) auto

lemma keeps_reads [intro]: "(\<And>s. P s \<Longrightarrow> P (fst (h s s))) \<Longrightarrow> keeps P (with_state h)"
  by (simp add: keeps_def)

lemma keepsD: "keeps P f \<Longrightarrow> P s \<Longrightarrow> P (fst (f s))"
  by (simp add: keeps_def)

lemma keeps_if [intro]: "(b \<Longrightarrow> keeps P f) \<Longrightarrow> (\<not> b \<Longrightarrow> keeps P g) \<Longrightarrow> keeps P (if b then f else g)"
  by simp

lemma fst_acts: "fst (acts (f # fs) s) = fst (acts fs (fst (f s)))"
  by (simp add: Let_def split: prod.split)

lemma snd_acts: "snd (acts (f # fs) s) = snd (f s) @ snd (acts fs (fst (f s)))"
  by (simp add: Let_def split: prod.split)

lemma fst_acts_append: "fst (acts (fs @ gs) s) = fst (acts gs (fst (acts fs s)))"
  by (induction fs arbitrary: s) (simp_all add: fst_acts del: acts.simps(2))

lemma snd_acts_append: "snd (acts (fs @ gs) s) = snd (acts fs s) @ snd (acts gs (fst (acts fs s)))"
  by (induction fs arbitrary: s) (simp_all add: fst_acts snd_acts del: acts.simps(2))

lemma when_act_eq: "when_act b f s = (if b then f s else (s, []))"
  by simp

lemmas run_simps = fst_acts snd_acts when_act_eq

subsection \<open>Machines\<close>

text \<open>
  The contract of a component that handles one event after the other: each event that may come keeps
  a relation between its state and what an observer has made of its outputs. Then every run does.
\<close>

locale observed =
  fixes handle :: "'e \<Rightarrow> ('s, 'o) act"
    and allowed :: "'e \<Rightarrow> bool"
    and look :: "'v \<Rightarrow> 'o list \<Rightarrow> 'v"
    and inv :: "'v \<Rightarrow> 's \<Rightarrow> bool"
  assumes look_nil: "look v [] = v"
    and look_append: "look v (xs @ ys) = look (look v xs) ys"
    and step: "inv v s \<Longrightarrow> allowed e \<Longrightarrow> inv (look v (snd (handle e s))) (fst (handle e s))"
begin

lemma run:
  "inv v s \<Longrightarrow> list_all allowed es \<Longrightarrow>
     inv (look v (snd (acts (map handle es) s))) (fst (acts (map handle es) s))"
proof (induction es arbitrary: v s)
  case (Cons e es)
  then have "inv (look v (snd (handle e s))) (fst (handle e s))" by (simp add: step)
  from Cons.IH [OF this] Cons.prems show ?case
    by (simp add: fst_acts snd_acts look_append del: acts.simps(2))
qed (simp add: look_nil)

end

text \<open>Without an observer: an invariant of the state.\<close>

locale machine =
  fixes handle :: "'e \<Rightarrow> ('s, 'o) act"
    and allowed :: "'e \<Rightarrow> bool"
    and inv :: "'s \<Rightarrow> bool"
  assumes keep: "inv s \<Longrightarrow> allowed e \<Longrightarrow> inv (fst (handle e s))"
begin

lemma keeps_run: "inv s \<Longrightarrow> list_all allowed es \<Longrightarrow> inv (fst (acts (map handle es) s))"
  by (induction es arbitrary: s) (simp_all add: fst_acts keep del: acts.simps(2))

end

sublocale machine \<subseteq> blind: observed handle allowed "\<lambda>v xs. v" "\<lambda>v. inv"
  by unfold_locales (simp_all add: keep)

subsection \<open>Runs\<close>

text \<open>Several steps of a labelled step relation, with everything they put out.\<close>

inductive runs :: "('s \<Rightarrow> 'o list \<Rightarrow> 's \<Rightarrow> bool) \<Rightarrow> 's \<Rightarrow> 'o list \<Rightarrow> 's \<Rightarrow> bool"
  for step where
  runs_none: "runs step s [] s"
| runs_more: "step s xs t \<Longrightarrow> runs step t ys u \<Longrightarrow> runs step s (xs @ ys) u"

lemma runs_append: "runs step s xs t \<Longrightarrow> runs step t ys u \<Longrightarrow> runs step s (xs @ ys) u"
  by (induction rule: runs.induct) (auto intro: runs_more)

lemma runs_invariant:
  assumes "runs step s xs t" "P s" "\<And>s xs t. P s \<Longrightarrow> step s xs t \<Longrightarrow> P t \<and> list_all Q xs"
  shows "P t \<and> list_all Q xs"
  using assms(1,2) by (induction rule: runs.induct) (auto dest: assms(3))

lemma runs_one: "step s xs t \<Longrightarrow> runs step s xs t"
  using runs_more [OF _ runs_none] by fastforce

lemma runs_silent: "step s [] t \<Longrightarrow> runs step t ys u \<Longrightarrow> runs step s ys u"
  using runs_more [of step s "[]"] by simp

end
