(* ===== verification/CommonUtil.thy ===== *)
theory CommonUtil
  imports Prelude
begin

section \<open>Common/common.cpp and lib/urlencode.cpp: strings and the download directory\<close>

text \<open>
  \<open>replaceAll\<close> is the in-place replacement loop of \<^verbatim>\<open>replaceAll\<close>, with its reference
  \<open>subst_all\<close>; \<open>urlEncode\<close> is the percent encoding of \<^verbatim>\<open>urlEncode\<close>, with a decoder
  \<open>url_decode\<close> that is the specification's own. The download directory is the pair of globals
  \<^verbatim>\<open>TempDir\<close> and \<^verbatim>\<open>CleanOnExit\<close> over a file system view.
\<close>

subsection \<open>replaceAll\<close>

lemma find_from_bounds:
  assumes "find_from p s k = Some i"
  shows "k \<le> i" "i + length p \<le> length s" "starts_with p (drop i s)"
    "k \<le> length s" "\<And>j. k \<le> j \<Longrightarrow> j < i \<Longrightarrow> \<not> starts_with p (drop j s)"
proof -
  from assms obtain i0 where i0: "find_sub p (drop k s) = Some i0" "i = i0 + k" and k: "k \<le> length s"
    by (auto simp: find_from_def split: if_splits)
  note f = find_sub_Some [OF i0(1)]
  show "k \<le> i" "k \<le> length s" using i0 k by simp_all
  show "i + length p \<le> length s" "starts_with p (drop i s)"
    using f i0(2) k by (auto simp: add.commute)
  fix j assume "k \<le> j" "j < i"
  then show "\<not> starts_with p (drop j s)"
    using f i0(2) by (auto dest!: spec [of _ "j - k"])
qed

text \<open>
  The loop of \<^verbatim>\<open>replaceAll\<close>: find the pattern from \<^verbatim>\<open>start_pos\<close>, overwrite it, go on
  behind the replacement. It stops because the unread part of the string shrinks.
\<close>

function replaceAll_loop :: "'a list \<Rightarrow> 'a list \<Rightarrow> 'a list \<Rightarrow> nat \<Rightarrow> 'a list" where
  "replaceAll_loop from to str start_pos =
     (if from = [] then str
      else case find_from from str start_pos of
             None \<Rightarrow> str
           | Some p \<Rightarrow>
               replaceAll_loop from to (take p str @ to @ drop (p + length from) str) (p + length to))"
  by pat_completeness auto
termination
proof (relation "measure (\<lambda>(from, to, str, k). length str - k)", simp)
  fix "from" to str :: "'a list" and k p
  assume "from \<noteq> []" "find_from from str k = Some p"
  then have b: "0 < length from" "k \<le> p" "p + length from \<le> length str"
    by (auto dest: find_from_bounds)
  show "((from, to, take p str @ to @ drop (p + length from) str, p + length to),
      (from, to, str, k)) \<in> measure (\<lambda>(from, to, str, k). length str - k)"
    using b by (simp add: min_def del: length_greater_0_conv)
qed

declare replaceAll_loop.simps [simp del]

definition replaceAll :: "'a list \<Rightarrow> 'a list \<Rightarrow> 'a list \<Rightarrow> 'a list" where
  "replaceAll str from to = (if from = [] then str else replaceAll_loop from to str 0)"

text \<open>The reference: one pass over the string, left to right, without overlaps.\<close>

function subst_all :: "'a list \<Rightarrow> 'a list \<Rightarrow> 'a list \<Rightarrow> 'a list" where
  "subst_all p t s =
     (case s of [] \<Rightarrow> []
      | x # r \<Rightarrow> if p \<noteq> [] \<and> starts_with p s then t @ subst_all p t (drop (length p) s)
                else x # subst_all p t r)"
  by pat_completeness auto
termination
  by (relation "measure (\<lambda>(p, t, s). length s)") auto

declare subst_all.simps [simp del]

lemma subst_all_Nil [simp]: "subst_all p t [] = []"
  by (simp add: subst_all.simps)

lemma subst_all_skip:
  assumes "\<And>j. j < n \<Longrightarrow> \<not> starts_with p (drop j s)" "n \<le> length s"
  shows "subst_all p t s = take n s @ subst_all p t (drop n s)"
  using assms
proof (induction n arbitrary: s)
  case (Suc n)
  then obtain x r where s: "s = x # r" by (cases s) auto
  have "\<not> starts_with p s" using Suc.prems(1) [of 0] by simp
  moreover have "subst_all p t r = take n r @ subst_all p t (drop n r)"
  proof (rule Suc.IH)
    fix j assume "j < n"
    with Suc.prems(1) [of "Suc j"] show "\<not> starts_with p (drop j r)" by (simp add: s)
  next
    from Suc.prems(2) show "n \<le> length r" by (simp add: s)
  qed
  ultimately show ?case by (simp add: s subst_all.simps [of p t "x # r"])
qed simp

lemma subst_all_hit:
  "p \<noteq> [] \<Longrightarrow> starts_with p s \<Longrightarrow> subst_all p t s = t @ subst_all p t (drop (length p) s)"
  by (subst subst_all.simps) (auto simp: starts_with_def split: list.splits)

lemma replaceAll_loop_eq:
  "from \<noteq> [] \<Longrightarrow> k \<le> length str \<Longrightarrow>
     replaceAll_loop from to str k = take k str @ subst_all from to (drop k str)"
proof (induction "from" to str k rule: replaceAll_loop.induct)
  case (1 "from" to str k)
  show ?case
  proof (cases "find_from from str k")
    case None
    then have "find_sub from (drop k str) = None"
      using 1(3) by (simp add: find_from_def)
    then have "\<And>j. j \<le> length (drop k str) \<Longrightarrow> \<not> starts_with from (drop j (drop k str))"
      by (simp only: find_sub_None) simp
    then have "subst_all from to (drop k str) = drop k str"
      using subst_all_skip [of "length (drop k str)" "from" "drop k str" to] by simp
    with None 1 show ?thesis
      by (simp add: replaceAll_loop.simps [of "from" to str k])
  next
    case (Some p)
    note b = find_from_bounds [OF Some]
    let ?str = "take p str @ to @ drop (p + length from) str"
    have "replaceAll_loop from to ?str (p + length to)
          = take p str @ to @ subst_all from to (drop (p + length from) str)"
      using b by (subst 1(1) [OF _ Some]) (auto simp: 1)
    moreover have "subst_all from to (drop k str)
          = take (p - k) (drop k str) @ subst_all from to (drop p str)"
      using b subst_all_skip [of "p - k" "from" "drop k str" to] by (auto simp: add.commute)
    moreover have "subst_all from to (drop p str) = to @ subst_all from to (drop (p + length from) str)"
      using subst_all_hit [OF 1(2) b(3), of to] by (simp add: add.commute)
    moreover have "take k str @ take (p - k) (drop k str) = take p str"
      using b by (simp flip: take_add)
    ultimately show ?thesis
      using Some 1(2) by (simp add: replaceAll_loop.simps [of "from" to str k] flip: append_assoc)
  qed
qed

text \<open>With single characters the replacement is a map: the path normalisation of the callers.\<close>

lemma subst_all_char: "subst_all [a] [b] s = map (\<lambda>c. if c = a then b else c) s"
proof (induction s)
  case (Cons c s)
  then show ?case by (subst subst_all.simps) auto
qed simp

subsection \<open>urlEncode\<close>

definition hex_digit :: "nat \<Rightarrow> char" where
  "hex_digit n = (if n < 10 then char_of (48 + n) else char_of (87 + n))"

text \<open>\<^verbatim>\<open>isalnum\<close> in the C locale.\<close>

definition isalnum :: "char \<Rightarrow> bool" where
  "isalnum c =
     (let n = (of_char c :: nat)
      in (48 \<le> n \<and> n \<le> 57) \<or> (65 \<le> n \<and> n \<le> 90) \<or> (97 \<le> n \<and> n \<le> 122))"

definition url_plain :: "char \<Rightarrow> bool" where
  "url_plain c \<longleftrightarrow> isalnum c \<or> c = CHR ''-'' \<or> c = CHR ''_'' \<or> c = CHR ''.'' \<or> c = CHR ''~'' \<or> c = CHR ''/''"

definition urlEncode_char :: "char \<Rightarrow> string" where
  "urlEncode_char c =
     (if url_plain c then [c]
      else if c = CHR 0x5C then ''/''
      else CHR ''%'' # hex_digit (of_char c div 16) # hex_digit (of_char c mod 16) # [])"

fun urlEncode :: "string \<Rightarrow> string" where
  "urlEncode [] = []"
| "urlEncode (c # url) = urlEncode_char c @ urlEncode url"

text \<open>Percent decoding, the reader's side: lower-case hexadecimal only, as the encoder writes it.\<close>

definition hex_value :: "char \<Rightarrow> nat" where
  "hex_value c = (let n = of_char c in if n < 58 then n - 48 else n - 87)"

fun url_decode :: "string \<Rightarrow> string" where
  "url_decode (c # x # y # r) =
     (if c = CHR ''%'' then char_of (16 * hex_value x + hex_value y) # url_decode r
      else c # url_decode (x # y # r))"
| "url_decode s = s"

lemma hex_value_digit: "n < 16 \<Longrightarrow> hex_value (hex_digit n) = n"
  by (auto simp: hex_value_def hex_digit_def Let_def of_char_of)

lemma url_decode_plain: "c \<noteq> CHR ''%'' \<Longrightarrow> url_decode (c # s) = c # url_decode s"
proof (cases s)
  case (Cons x r)
  then show "c \<noteq> CHR ''%'' \<Longrightarrow> ?thesis" by (cases r) simp_all
qed simp

lemma subst_all_empty: "subst_all [] t s = s"
  by (induction s) (simp_all add: subst_all.simps)

text \<open>
  C38: the in-place loop of \<^verbatim>\<open>replaceAll\<close> computes the one-pass, left-to-right, non-overlapping
  substitution of the pattern, for every pattern (the empty one included) and replacement; text it
  inserted is never searched again.
\<close>

theorem replaceAll_correct: "replaceAll str from to = subst_all from to str"
  by (simp add: replaceAll_def replaceAll_loop_eq subst_all_empty)

lemma replaceAll_char: "replaceAll s [a] [b] = map (\<lambda>c. if c = a then b else c) s"
  by (simp add: replaceAll_def replaceAll_loop_eq subst_all_char)

lemma url_decode_encode_char:
  "url_decode (urlEncode_char c @ s) = (if c = CHR 0x5C then CHR ''/'' else c) # url_decode s"
proof -
  have n: "(of_char c :: nat) div 16 < 16" "(of_char c :: nat) mod 16 < 16"
    using nat_of_char_less_256 [of c] by (simp_all add: less_mult_imp_div_less)
  have "url_plain c \<Longrightarrow> c \<noteq> CHR ''%'' \<and> c \<noteq> CHR 0x5C"
    by (auto simp: url_plain_def isalnum_def Let_def)
  then show ?thesis
    by (auto simp: urlEncode_char_def url_decode_plain hex_value_digit n)
qed

lemma urlEncode_char_safe: "list_all (\<lambda>x. url_plain x \<or> x = CHR ''%'') (urlEncode_char c)"
proof -
  have "n < 16 \<Longrightarrow> isalnum (hex_digit n)" for n
    by (auto simp: hex_digit_def isalnum_def Let_def of_char_of)
  moreover have "(of_char c :: nat) div 16 < 16" "(of_char c :: nat) mod 16 < 16"
    using nat_of_char_less_256 [of c] by (simp_all add: less_mult_imp_div_less)
  ultimately show ?thesis by (auto simp: urlEncode_char_def url_plain_def)
qed

lemma url_decode_encode: "url_decode (urlEncode url) = map (\<lambda>c. if c = CHR 0x5C then CHR ''/'' else c) url"
  by (induction url) (simp_all add: url_decode_encode_char)

lemma urlEncode_safe: "list_all (\<lambda>x. url_plain x \<or> x = CHR ''%'') (urlEncode url)"
  by (induction url) (simp_all add: urlEncode_char_safe)

text \<open>
  What \<^verbatim>\<open>urlEncode\<close> writes holds unreserved characters, slashes and percent signs only, and
  percent decoding it gives back the path as \<^verbatim>\<open>replaceAll\<close> normalises it, with every backslash
  turned into a slash: nothing else of the path is lost.
\<close>

theorem urlEncode_roundtrip:
  "url_decode (urlEncode path) = replaceAll path [CHR 0x5C] ''/''
   \<and> list_all (\<lambda>x. url_plain x \<or> x = CHR ''%'') (urlEncode path)"
  by (simp add: url_decode_encode replaceAll_char urlEncode_safe)

subsection \<open>The download directory\<close>

text \<open>
  \<^verbatim>\<open>boost::filesystem\<close> is a parameter: the queries and updates the file makes of it, over an
  unspecified file system state \<open>'f\<close>. \<open>op_mkdir\<close> returns whether a directory was made and the
  state after the call; \<open>op_temp\<close> is the fresh name \<^verbatim>\<open>unique_path\<close> draws under the system's
  temporary directory.
\<close>

record 'f fs_ops =
  op_exists :: "'f \<Rightarrow> bytes \<Rightarrow> bool"
  op_is_dir :: "'f \<Rightarrow> bytes \<Rightarrow> bool"
  op_is_empty :: "'f \<Rightarrow> bytes \<Rightarrow> bool"
  op_mkdir :: "'f \<Rightarrow> bytes \<Rightarrow> bool \<times> 'f"
  op_temp :: "'f \<Rightarrow> bytes"
  op_remove_all :: "'f \<Rightarrow> bytes \<Rightarrow> 'f"

record tempdir =
  TempDir :: bytes
  CleanOnExit :: bool

definition isExistsAndNotEmpty :: "'f fs_ops \<Rightarrow> 'f \<Rightarrow> bytes \<Rightarrow> bool" where
  "isExistsAndNotEmpty ops f path \<longleftrightarrow> op_exists ops f path \<and> \<not> op_is_empty ops f path"

definition tempDirValid :: "'f fs_ops \<Rightarrow> 'f \<Rightarrow> tempdir \<Rightarrow> bool" where
  "tempDirValid ops f d \<longleftrightarrow>
     TempDir d \<noteq> [] \<and> op_exists ops f (TempDir d) \<and> op_is_dir ops f (TempDir d)"

definition getTempDir :: "tempdir \<Rightarrow> bytes" where
  "getTempDir d = TempDir d"

definition cleanTempDir :: "'f fs_ops \<Rightarrow> 'f \<Rightarrow> tempdir \<Rightarrow> 'f" where
  "cleanTempDir ops f d =
     (if tempDirValid ops f d \<and> CleanOnExit d then op_remove_all ops f (TempDir d) else f)"

definition checkTempDir :: "'f fs_ops \<Rightarrow> 'f \<Rightarrow> tempdir \<Rightarrow> 'f \<times> tempdir" where
  "checkTempDir ops f d =
     (if tempDirValid ops f d then (f, d)
      else let d' = d\<lparr>TempDir := op_temp ops f\<rparr> in (snd (op_mkdir ops f (TempDir d')), d'))"

definition setTempDir :: "'f fs_ops \<Rightarrow> 'f \<Rightarrow> tempdir \<Rightarrow> bytes \<Rightarrow> bool \<Rightarrow> 'f \<times> tempdir" where
  "setTempDir ops f d newDir cleanOnExit =
     (let d1 = d\<lparr>CleanOnExit := cleanOnExit\<rparr>;
          d2 = (if newDir \<noteq> [] \<and> TempDir d1 \<noteq> newDir then d1\<lparr>TempDir := newDir\<rparr> else d1)
      in (snd (op_mkdir ops f (TempDir d2)), d2))"

lemma setTempDir_dir:
  "TempDir (snd (setTempDir ops f d newDir c)) = (if newDir = [] then TempDir d else newDir)"
  "CleanOnExit (snd (setTempDir ops f d newDir c)) = c"
  by (auto simp: setTempDir_def Let_def)

lemma checkTempDir_clean [frame]: "CleanOnExit (snd (checkTempDir ops f d)) = CleanOnExit d"
  by (simp add: checkTempDir_def Let_def)

lemma checkTempDir_id [simp]: "tempDirValid ops f d \<Longrightarrow> checkTempDir ops f d = (f, d)"
  by (simp add: checkTempDir_def)

end
