(* ===== verification/Md5Transform.thy ===== *)
theory Md5Transform
  imports CommonUtil
begin

section \<open>Common/md5.cpp: the compression function\<close>

text \<open>
  The functions \<^verbatim>\<open>F\<close>, \<^verbatim>\<open>G\<close>, \<^verbatim>\<open>H\<close>, \<^verbatim>\<open>I\<close>, the four step macros, \<^verbatim>\<open>decode\<close>, \<^verbatim>\<open>encode\<close> and
  \<^verbatim>\<open>transform\<close> on 32-bit words, as the source unrolls them, and the loop of RFC 1321 with its
  three tables as the reference. A step assigns its first argument; here it is the value assigned.
\<close>

unbundle bit_operations_syntax

type_synonym u32 = "32 word"
type_synonym u8 = "8 word"
type_synonym md5_state = "u32 \<times> u32 \<times> u32 \<times> u32"

definition md5_F :: "u32 \<Rightarrow> u32 \<Rightarrow> u32 \<Rightarrow> u32" where
  "md5_F x y z = (x AND y) OR (NOT x AND z)"

definition md5_G :: "u32 \<Rightarrow> u32 \<Rightarrow> u32 \<Rightarrow> u32" where
  "md5_G x y z = (x AND z) OR (y AND NOT z)"

definition md5_H :: "u32 \<Rightarrow> u32 \<Rightarrow> u32 \<Rightarrow> u32" where
  "md5_H x y z = (x XOR y) XOR z"

definition md5_I :: "u32 \<Rightarrow> u32 \<Rightarrow> u32 \<Rightarrow> u32" where
  "md5_I x y z = y XOR (x OR NOT z)"

definition rotate_left :: "u32 \<Rightarrow> nat \<Rightarrow> u32" where
  "rotate_left x n = push_bit n x OR drop_bit (32 - n) x"

definition FF :: "u32 \<Rightarrow> u32 \<Rightarrow> u32 \<Rightarrow> u32 \<Rightarrow> u32 \<Rightarrow> nat \<Rightarrow> u32 \<Rightarrow> u32" where
  "FF a b c d x s ac = rotate_left (a + md5_F b c d + x + ac) s + b"

definition GG :: "u32 \<Rightarrow> u32 \<Rightarrow> u32 \<Rightarrow> u32 \<Rightarrow> u32 \<Rightarrow> nat \<Rightarrow> u32 \<Rightarrow> u32" where
  "GG a b c d x s ac = rotate_left (a + md5_G b c d + x + ac) s + b"

definition HH :: "u32 \<Rightarrow> u32 \<Rightarrow> u32 \<Rightarrow> u32 \<Rightarrow> u32 \<Rightarrow> nat \<Rightarrow> u32 \<Rightarrow> u32" where
  "HH a b c d x s ac = rotate_left (a + md5_H b c d + x + ac) s + b"

definition II :: "u32 \<Rightarrow> u32 \<Rightarrow> u32 \<Rightarrow> u32 \<Rightarrow> u32 \<Rightarrow> nat \<Rightarrow> u32 \<Rightarrow> u32" where
  "II a b c d x s ac = rotate_left (a + md5_I b c d + x + ac) s + b"

text \<open>Four bytes to a word and back, least significant byte first.\<close>

definition decode_word :: "u8 \<Rightarrow> u8 \<Rightarrow> u8 \<Rightarrow> u8 \<Rightarrow> u32" where
  "decode_word b0 b1 b2 b3 =
     ucast b0 OR push_bit 8 (ucast b1) OR push_bit 16 (ucast b2) OR push_bit 24 (ucast b3)"

fun decode_words :: "u8 list \<Rightarrow> u32 list" where
  "decode_words (b0 # b1 # b2 # b3 # bs) = decode_word b0 b1 b2 b3 # decode_words bs"
| "decode_words _ = []"

definition encode_word :: "u32 \<Rightarrow> u8 list" where
  "encode_word w =
     [ucast (w AND 0xff), ucast (drop_bit 8 w AND 0xff),
      ucast (drop_bit 16 w AND 0xff), ucast (drop_bit 24 w AND 0xff)]"

fun encode_words :: "u32 list \<Rightarrow> u8 list" where
  "encode_words [] = []"
| "encode_words (w # ws) = encode_word w @ encode_words ws"

subsection \<open>The four rounds as the source unrolls them\<close>

definition md5_round1 :: "u32 list \<Rightarrow> md5_state \<Rightarrow> md5_state" where
  "md5_round1 x = (\<lambda>(a, b, c, d).
     let a = FF a b c d (x ! 0) 7 0xd76aa478 in
     let d = FF d a b c (x ! 1) 12 0xe8c7b756 in
     let c = FF c d a b (x ! 2) 17 0x242070db in
     let b = FF b c d a (x ! 3) 22 0xc1bdceee in
     let a = FF a b c d (x ! 4) 7 0xf57c0faf in
     let d = FF d a b c (x ! 5) 12 0x4787c62a in
     let c = FF c d a b (x ! 6) 17 0xa8304613 in
     let b = FF b c d a (x ! 7) 22 0xfd469501 in
     let a = FF a b c d (x ! 8) 7 0x698098d8 in
     let d = FF d a b c (x ! 9) 12 0x8b44f7af in
     let c = FF c d a b (x ! 10) 17 0xffff5bb1 in
     let b = FF b c d a (x ! 11) 22 0x895cd7be in
     let a = FF a b c d (x ! 12) 7 0x6b901122 in
     let d = FF d a b c (x ! 13) 12 0xfd987193 in
     let c = FF c d a b (x ! 14) 17 0xa679438e in
     let b = FF b c d a (x ! 15) 22 0x49b40821 in
     (a, b, c, d))"

definition md5_round2 :: "u32 list \<Rightarrow> md5_state \<Rightarrow> md5_state" where
  "md5_round2 x = (\<lambda>(a, b, c, d).
     let a = GG a b c d (x ! 1) 5 0xf61e2562 in
     let d = GG d a b c (x ! 6) 9 0xc040b340 in
     let c = GG c d a b (x ! 11) 14 0x265e5a51 in
     let b = GG b c d a (x ! 0) 20 0xe9b6c7aa in
     let a = GG a b c d (x ! 5) 5 0xd62f105d in
     let d = GG d a b c (x ! 10) 9 0x2441453 in
     let c = GG c d a b (x ! 15) 14 0xd8a1e681 in
     let b = GG b c d a (x ! 4) 20 0xe7d3fbc8 in
     let a = GG a b c d (x ! 9) 5 0x21e1cde6 in
     let d = GG d a b c (x ! 14) 9 0xc33707d6 in
     let c = GG c d a b (x ! 3) 14 0xf4d50d87 in
     let b = GG b c d a (x ! 8) 20 0x455a14ed in
     let a = GG a b c d (x ! 13) 5 0xa9e3e905 in
     let d = GG d a b c (x ! 2) 9 0xfcefa3f8 in
     let c = GG c d a b (x ! 7) 14 0x676f02d9 in
     let b = GG b c d a (x ! 12) 20 0x8d2a4c8a in
     (a, b, c, d))"

definition md5_round3 :: "u32 list \<Rightarrow> md5_state \<Rightarrow> md5_state" where
  "md5_round3 x = (\<lambda>(a, b, c, d).
     let a = HH a b c d (x ! 5) 4 0xfffa3942 in
     let d = HH d a b c (x ! 8) 11 0x8771f681 in
     let c = HH c d a b (x ! 11) 16 0x6d9d6122 in
     let b = HH b c d a (x ! 14) 23 0xfde5380c in
     let a = HH a b c d (x ! 1) 4 0xa4beea44 in
     let d = HH d a b c (x ! 4) 11 0x4bdecfa9 in
     let c = HH c d a b (x ! 7) 16 0xf6bb4b60 in
     let b = HH b c d a (x ! 10) 23 0xbebfbc70 in
     let a = HH a b c d (x ! 13) 4 0x289b7ec6 in
     let d = HH d a b c (x ! 0) 11 0xeaa127fa in
     let c = HH c d a b (x ! 3) 16 0xd4ef3085 in
     let b = HH b c d a (x ! 6) 23 0x4881d05 in
     let a = HH a b c d (x ! 9) 4 0xd9d4d039 in
     let d = HH d a b c (x ! 12) 11 0xe6db99e5 in
     let c = HH c d a b (x ! 15) 16 0x1fa27cf8 in
     let b = HH b c d a (x ! 2) 23 0xc4ac5665 in
     (a, b, c, d))"

definition md5_round4 :: "u32 list \<Rightarrow> md5_state \<Rightarrow> md5_state" where
  "md5_round4 x = (\<lambda>(a, b, c, d).
     let a = II a b c d (x ! 0) 6 0xf4292244 in
     let d = II d a b c (x ! 7) 10 0x432aff97 in
     let c = II c d a b (x ! 14) 15 0xab9423a7 in
     let b = II b c d a (x ! 5) 21 0xfc93a039 in
     let a = II a b c d (x ! 12) 6 0x655b59c3 in
     let d = II d a b c (x ! 3) 10 0x8f0ccc92 in
     let c = II c d a b (x ! 10) 15 0xffeff47d in
     let b = II b c d a (x ! 1) 21 0x85845dd1 in
     let a = II a b c d (x ! 8) 6 0x6fa87e4f in
     let d = II d a b c (x ! 15) 10 0xfe2ce6e0 in
     let c = II c d a b (x ! 6) 15 0xa3014314 in
     let b = II b c d a (x ! 13) 21 0x4e0811a1 in
     let a = II a b c d (x ! 4) 6 0xf7537e82 in
     let d = II d a b c (x ! 11) 10 0xbd3af235 in
     let c = II c d a b (x ! 2) 15 0x2ad7d2bb in
     let b = II b c d a (x ! 9) 21 0xeb86d391 in
     (a, b, c, d))"

definition transform :: "md5_state \<Rightarrow> u8 list \<Rightarrow> md5_state" where
  "transform s block =
     (let x = decode_words block;
          (a, b, c, d) = md5_round4 x (md5_round3 x (md5_round2 x (md5_round1 x s)));
          (s0, s1, s2, s3) = s
      in (s0 + a, s1 + b, s2 + c, s3 + d))"

subsection \<open>The loop of RFC 1321\<close>

definition rfc_K :: "u32 list" where
  "rfc_K =
[0xd76aa478, 0xe8c7b756, 0x242070db, 0xc1bdceee, 0xf57c0faf, 0x4787c62a, 0xa8304613, 0xfd469501,
   0x698098d8, 0x8b44f7af, 0xffff5bb1, 0x895cd7be, 0x6b901122, 0xfd987193, 0xa679438e, 0x49b40821,
   0xf61e2562, 0xc040b340, 0x265e5a51, 0xe9b6c7aa, 0xd62f105d, 0x2441453, 0xd8a1e681, 0xe7d3fbc8,
   0x21e1cde6, 0xc33707d6, 0xf4d50d87, 0x455a14ed, 0xa9e3e905, 0xfcefa3f8, 0x676f02d9, 0x8d2a4c8a,
   0xfffa3942, 0x8771f681, 0x6d9d6122, 0xfde5380c, 0xa4beea44, 0x4bdecfa9, 0xf6bb4b60, 0xbebfbc70,
   0x289b7ec6, 0xeaa127fa, 0xd4ef3085, 0x4881d05, 0xd9d4d039, 0xe6db99e5, 0x1fa27cf8, 0xc4ac5665,
   0xf4292244, 0x432aff97, 0xab9423a7, 0xfc93a039, 0x655b59c3, 0x8f0ccc92, 0xffeff47d, 0x85845dd1,
   0x6fa87e4f, 0xfe2ce6e0, 0xa3014314, 0x4e0811a1, 0xf7537e82, 0xbd3af235, 0x2ad7d2bb, 0xeb86d391]"

definition rfc_S :: "nat list" where
  "rfc_S = concat (replicate 4 [7, 12, 17, 22]) @ concat (replicate 4 [5, 9, 14, 20]) @
           concat (replicate 4 [4, 11, 16, 23]) @ concat (replicate 4 [6, 10, 15, 21])"

definition rfc_mix :: "nat \<Rightarrow> u32 \<Rightarrow> u32 \<Rightarrow> u32 \<Rightarrow> u32" where
  "rfc_mix i x y z =
     (if i < 16 then (x AND y) OR (NOT x AND z)
      else if i < 32 then (x AND z) OR (y AND NOT z)
      else if i < 48 then x XOR y XOR z
      else y XOR (x OR NOT z))"

definition rfc_index :: "nat \<Rightarrow> nat" where
  "rfc_index i =
     (if i < 16 then i
      else if i < 32 then (5 * i + 1) mod 16
      else if i < 48 then (3 * i + 5) mod 16
      else (7 * i) mod 16)"

definition rfc_step :: "u32 list \<Rightarrow> nat \<Rightarrow> md5_state \<Rightarrow> md5_state" where
  "rfc_step x i = (\<lambda>(a, b, c, d).
     (d, b + word_rotl (rfc_S ! i) (a + rfc_mix i b c d + rfc_K ! i + x ! rfc_index i), b, c))"

definition rfc_compress :: "md5_state \<Rightarrow> u8 list \<Rightarrow> md5_state" where
  "rfc_compress s block =
     (let x = decode_words block;
          (a, b, c, d) = fold (rfc_step x) [0..<64] s;
          (s0, s1, s2, s3) = s
      in (s0 + a, s1 + b, s2 + c, s3 + d))"

subsection \<open>The unrolled rounds are the loop\<close>

lemma rotate_left_rotl:
  assumes "0 < n" "n < 32"
  shows "rotate_left x n = word_rotl n x"
proof (rule bit_word_eqI)
  fix i assume "i < LENGTH(32)"
  then have i: "i < 32" by simp
  have r: "bit (word_rotl n x) i \<longleftrightarrow> bit x ((i + (32 - n)) mod 32)"
    using i assms by (simp only: bit_word_rotl_iff) simp
  have l: "bit (rotate_left x n) i \<longleftrightarrow> (n \<le> i \<and> bit x (i - n)) \<or> bit x (32 - n + i)"
    using i by (simp add: rotate_left_def bit_simps)
  have o: "bit x (32 - n + i) \<Longrightarrow> 32 - n + i < 32"
    using bit_imp_le_length [of x "32 - n + i"] by simp
  show "bit (rotate_left x n) i = bit (word_rotl n x) i"
  proof (cases "n \<le> i")
    case True
    then have "i + (32 - n) = (i - n) + 32" using assms by simp
    then have "(i + (32 - n)) mod 32 = (i - n + 32) mod 32" by (simp only:)
    also have "\<dots> = i - n" using i by simp
    finally show ?thesis using True assms o unfolding r l by auto
  next
    case False
    then have "(i + (32 - n)) mod 32 = 32 - n + i" using assms by simp
    with False show ?thesis unfolding r l by simp
  qed
qed

lemma rfc_S_list:
  "rfc_S =
    [7, 12, 17, 22, 7, 12, 17, 22, 7, 12, 17, 22, 7, 12, 17, 22,
     5, 9, 14, 20, 5, 9, 14, 20, 5, 9, 14, 20, 5, 9, 14, 20,
     4, 11, 16, 23, 4, 11, 16, 23, 4, 11, 16, 23, 4, 11, 16, 23,
     6, 10, 15, 21, 6, 10, 15, 21, 6, 10, 15, 21, 6, 10, 15, 21]"
  by code_simp

lemma rfc_S_bounds: "i < 64 \<Longrightarrow> 0 < rfc_S ! i \<and> rfc_S ! i < 32"
proof -
  have "list_all (\<lambda>i. 0 < rfc_S ! i \<and> rfc_S ! i < 32) [0..<64]" by code_simp
  then show "i < 64 \<Longrightarrow> ?thesis" by (simp add: list_all_iff)
qed

text \<open>
  A step as a \<open>let\<close> of its own constant, so that rewriting keeps the sharing: with the lets
  expanded a round would grow exponentially.
\<close>

definition step_let :: "u32 \<Rightarrow> (u32 \<Rightarrow> md5_state) \<Rightarrow> md5_state" where
  "step_let v g = Let v g"

lemma rfc_step_let: "rfc_step x i (step_let v g) = step_let v (\<lambda>y. rfc_step x i (g y))"
  by (simp add: step_let_def Let_def)

lemma rfc_step_FF:
  "i < 16 \<Longrightarrow> rfc_step x i (a, b, c, d) =
     step_let (FF a b c d (x ! rfc_index i) (rfc_S ! i) (rfc_K ! i)) (\<lambda>t. (d, t, b, c))"
  using rfc_S_bounds [of i]
  by (simp add: rfc_step_def FF_def rfc_mix_def rotate_left_rotl md5_F_def step_let_def ac_simps)

lemma rfc_step_GG:
  "16 \<le> i \<Longrightarrow> i < 32 \<Longrightarrow> rfc_step x i (a, b, c, d) =
     step_let (GG a b c d (x ! rfc_index i) (rfc_S ! i) (rfc_K ! i)) (\<lambda>t. (d, t, b, c))"
  using rfc_S_bounds [of i]
  by (simp add: rfc_step_def GG_def rfc_mix_def rotate_left_rotl md5_G_def step_let_def ac_simps)

lemma rfc_step_HH:
  "32 \<le> i \<Longrightarrow> i < 48 \<Longrightarrow> rfc_step x i (a, b, c, d) =
     step_let (HH a b c d (x ! rfc_index i) (rfc_S ! i) (rfc_K ! i)) (\<lambda>t. (d, t, b, c))"
  using rfc_S_bounds [of i]
  by (simp add: rfc_step_def HH_def rfc_mix_def rotate_left_rotl md5_H_def step_let_def ac_simps)

lemma rfc_step_II:
  "48 \<le> i \<Longrightarrow> i < 64 \<Longrightarrow> rfc_step x i (a, b, c, d) =
     step_let (II a b c d (x ! rfc_index i) (rfc_S ! i) (rfc_K ! i)) (\<lambda>t. (d, t, b, c))"
  using rfc_S_bounds [of i]
  by (simp add: rfc_step_def II_def rfc_mix_def rotate_left_rotl md5_I_def step_let_def ac_simps)

lemmas rfc_steps = rfc_step_FF rfc_step_GG rfc_step_HH rfc_step_II rfc_step_let
lemmas rfc_tables = rfc_S_list rfc_K_def rfc_index_def nth_Cons_numeral

lemma md5_round1_rfc: "md5_round1 x s = fold (rfc_step x) [0..<16] s"
proof -
  have u: "[0..<16] = [0, 1, 2, 3, 4, 5, 6, 7, 8, 9, 10, 11, 12, 13, 14, 15]" by code_simp
  obtain a b c d where s: "s = (a, b, c, d)" by (cases s) auto
  show ?thesis
    unfolding u s md5_round1_def prod.case step_let_def [symmetric]
    by (simp add: rfc_steps rfc_tables)
qed

lemma md5_round2_rfc: "md5_round2 x s = fold (rfc_step x) [16..<32] s"
proof -
  have u: "[16..<32] = [16, 17, 18, 19, 20, 21, 22, 23, 24, 25, 26, 27, 28, 29, 30, 31]" by code_simp
  obtain a b c d where s: "s = (a, b, c, d)" by (cases s) auto
  show ?thesis
    unfolding u s md5_round2_def prod.case step_let_def [symmetric]
    by (simp add: rfc_steps rfc_tables)
qed

lemma md5_round3_rfc: "md5_round3 x s = fold (rfc_step x) [32..<48] s"
proof -
  have u: "[32..<48] = [32, 33, 34, 35, 36, 37, 38, 39, 40, 41, 42, 43, 44, 45, 46, 47]" by code_simp
  obtain a b c d where s: "s = (a, b, c, d)" by (cases s) auto
  show ?thesis
    unfolding u s md5_round3_def prod.case step_let_def [symmetric]
    by (simp add: rfc_steps rfc_tables)
qed

lemma md5_round4_rfc: "md5_round4 x s = fold (rfc_step x) [48..<64] s"
proof -
  have u: "[48..<64] = [48, 49, 50, 51, 52, 53, 54, 55, 56, 57, 58, 59, 60, 61, 62, 63]" by code_simp
  obtain a b c d where s: "s = (a, b, c, d)" by (cases s) auto
  show ?thesis
    unfolding u s md5_round4_def prod.case step_let_def [symmetric]
    by (simp add: rfc_steps rfc_tables)
qed

lemma md5_rounds_rfc:
  "md5_round4 x (md5_round3 x (md5_round2 x (md5_round1 x s))) = fold (rfc_step x) [0..<64] s"
proof -
  have "[0..<64] = [0..<16] @ [16..<32] @ [32..<48] @ [48..<64]" by code_simp
  then show ?thesis
    by (simp only: md5_round1_rfc md5_round2_rfc md5_round3_rfc md5_round4_rfc
        fold_append o_apply)
qed

lemma transform_compress: "transform = rfc_compress"
  by (intro ext) (simp only: transform_def rfc_compress_def md5_rounds_rfc)

text \<open>
  C16: the 64 unrolled steps of \<^verbatim>\<open>transform\<close>, with their literal indices, shifts and constants,
  are the compression function of RFC 1321 given as a loop over its tables.
\<close>

theorem transform_rfc: "transform s block = rfc_compress s block"
  by (simp only: transform_compress)

subsection \<open>Encoding\<close>

lemma length_encode_words [simp]: "length (encode_words ws) = 4 * length ws"
  by (induction ws) (simp_all add: encode_word_def)

lemma ff_mask: "(0xff :: u32) = mask 8"
  by (simp add: mask_eq_exp_minus_1)

lemma decode_encode_word:
  "decode_word (ucast (w AND 0xff)) (ucast (drop_bit 8 w AND 0xff))
     (ucast (drop_bit 16 w AND 0xff)) (ucast (drop_bit 24 w AND 0xff)) = w" (is "?d = w")
proof (rule bit_word_eqI)
  fix n assume "n < LENGTH(32)"
  then have n: "n < 32" by simp
  have l: "bit ?d n \<longleftrightarrow>
      (n < 8 \<and> bit w n) \<or> (8 \<le> n \<and> n - 8 < 8 \<and> bit w (8 + (n - 8))) \<or>
      (16 \<le> n \<and> n - 16 < 8 \<and> bit w (16 + (n - 16))) \<or>
      (24 \<le> n \<and> n - 24 < 8 \<and> bit w (24 + (n - 24)))"
    using n unfolding decode_word_def ff_mask by (simp add: bit_simps conj_ac) auto
  have [simp]: "bit w (k + (n - k)) \<longleftrightarrow> bit w n" if "k \<le> n" for k
    using that by simp
  consider "n < 8" | "8 \<le> n \<and> n < 16" | "16 \<le> n \<and> n < 24" | "24 \<le> n" by linarith
  then show "bit ?d n = bit w n" unfolding l using n by cases auto
qed

text \<open>\<^verbatim>\<open>decode\<close> undoes \<^verbatim>\<open>encode\<close> on every list of words.\<close>

theorem decode_encode_words: "decode_words (encode_words ws) = ws"
  by (induction ws) (simp_all add: encode_word_def decode_encode_word)

end
