(* ===== verification/Md5.thy ===== *)
theory Md5
  imports Md5Transform
begin

section \<open>Common/md5.cpp: the digest object\<close>

text \<open>
  The object of class \<^verbatim>\<open>MD5\<close> and its operations \<^verbatim>\<open>init\<close>, \<^verbatim>\<open>update\<close>, \<^verbatim>\<open>finalize\<close> and
  \<^verbatim>\<open>hexdigest\<close>, with the 64-bit bit counter as its two 32-bit words. The reference is the padding
  and the block iteration of RFC 1321 on the whole message. \<^verbatim>\<open>size_type\<close> is 32 bits wide: an
  \<open>update\<close> whose loop index \<^verbatim>\<open>i + blocksize\<close> would wrap around, after which the loop reads
  outside its input, has no result (\<open>None\<close>).
\<close>

record md5_obj =
  finalized :: bool
  buffer :: "u8 list"
  count0 :: u32
  count1 :: u32
  md5_st :: md5_state
  digest :: "u8 list"

definition md5_init :: "md5_obj \<Rightarrow> md5_obj" where
  "md5_init m = m\<lparr>finalized := False, count0 := 0, count1 := 0,
     md5_st := (0x67452301, 0xefcdab89, 0x98badcfe, 0x10325476)\<rparr>"

text \<open>The loop over whole blocks of the input, from offset \<open>i\<close>.\<close>

function transform_blocks :: "u8 list \<Rightarrow> nat \<Rightarrow> md5_state \<Rightarrow> (nat \<times> md5_state) option" where
  "transform_blocks input i s =
     (if 2 ^ 32 \<le> i + 64 then None
      else if i + 64 \<le> length input
      then transform_blocks input (i + 64) (transform s (take 64 (drop i input)))
      else Some (i, s))"
  by pat_completeness auto
termination
  by (relation "measure (\<lambda>(input, i, s). length input - i)") auto

declare transform_blocks.simps [simp del]

definition md5_index :: "md5_obj \<Rightarrow> nat" where
  "md5_index m = unat (count0 m div 8 mod 64)"

definition count_add :: "nat \<Rightarrow> md5_obj \<Rightarrow> md5_obj" where
  "count_add n m =
     (let l = (of_nat n :: u32);
          c0 = count0 m + push_bit 3 l;
          c1 = (if c0 < push_bit 3 l then count1 m + 1 else count1 m)
      in m\<lparr>count0 := c0, count1 := c1 + drop_bit 29 l\<rparr>)"

definition md5_update :: "u8 list \<Rightarrow> md5_obj \<Rightarrow> md5_obj option" where
  "md5_update input m =
     (let index = md5_index m;
          m = count_add (length input) m;
          firstpart = 64 - index
      in if firstpart \<le> length input then
           (let buf = memcpy_at (buffer m) index (take firstpart input);
                s = transform (md5_st m) buf
            in case transform_blocks input firstpart s of
                 None \<Rightarrow> None
               | Some (i, s') \<Rightarrow>
                   Some (m\<lparr>md5_st := s', buffer := memcpy_at buf 0 (drop i input)\<rparr>))
         else Some (m\<lparr>buffer := memcpy_at (buffer m) index input\<rparr>))"

definition md5_padding :: "u8 list" where
  "md5_padding = 0x80 # replicate 63 0"

fun state_words :: "md5_state \<Rightarrow> u32 list" where
  "state_words (a, b, c, d) = [a, b, c, d]"

definition md5_finalize :: "md5_obj \<Rightarrow> md5_obj option" where
  "md5_finalize m =
     (if finalized m then Some m
      else
        (let bits = encode_words [count0 m, count1 m];
             index = md5_index m;
             padLen = (if index < 56 then 56 - index else 120 - index)
         in case md5_update (take padLen md5_padding) m of
              None \<Rightarrow> None
            | Some m1 \<Rightarrow>
                (case md5_update bits m1 of
                   None \<Rightarrow> None
                 | Some m2 \<Rightarrow>
                     Some (m2\<lparr>digest := encode_words (state_words (md5_st m2)),
                              buffer := replicate 64 0, count0 := 0, count1 := 0,
                              finalized := True\<rparr>))))"

definition hex_byte :: "u8 \<Rightarrow> string" where
  "hex_byte b = [hex_digit (unat b div 16), hex_digit (unat b mod 16)]"

definition hexdigest :: "md5_obj \<Rightarrow> string" where
  "hexdigest m = (if finalized m then concat (map hex_byte (take 16 (digest m))) else [])"

text \<open>
  The constructor \<^verbatim>\<open>MD5(text)\<close>: \<open>raw\<close> is the object before it, whose \<^verbatim>\<open>buffer\<close> and \<^verbatim>\<open>digest\<close> are
  not initialised. The length is passed as a \<^verbatim>\<open>size_type\<close>, modulo \<open>2 ^ 32\<close>.
\<close>

definition md5_ctor :: "md5_obj \<Rightarrow> u8 list \<Rightarrow> md5_obj option" where
  "md5_ctor raw msg =
     Option.bind (md5_update (take (length msg mod 2 ^ 32) msg) (md5_init raw)) md5_finalize"

definition md5_hash :: "md5_obj \<Rightarrow> u8 list \<Rightarrow> string option" where
  "md5_hash raw str = map_option hexdigest (md5_ctor raw str)"

subsection \<open>The specification: RFC 1321 on the whole message\<close>

fun absorb :: "('s \<Rightarrow> 'b list \<Rightarrow> 's) \<Rightarrow> 's \<Rightarrow> 'b list \<Rightarrow> 's" where
  "absorb f s xs = (if length xs < 64 then s else absorb f (f s (take 64 xs)) (drop 64 xs))"

declare absorb.simps [simp del]

definition pend :: "'b list \<Rightarrow> 'b list" where
  "pend xs = drop (64 * (length xs div 64)) xs"

definition rfc_init :: md5_state where
  "rfc_init = (0x67452301, 0xefcdab89, 0x98badcfe, 0x10325476)"

definition rfc_pad :: "u8 list \<Rightarrow> u8 list" where
  "rfc_pad msg =
     msg @ 0x80 # replicate ((119 - length msg mod 64) mod 64) 0 @
     (let bits = word_of_nat (8 * length msg) :: 64 word
      in map (\<lambda>k. ucast (drop_bit (8 * k) bits)) [0..<8])"

definition rfc_md5 :: "u8 list \<Rightarrow> u8 list" where
  "rfc_md5 msg = encode_words (state_words (absorb rfc_compress rfc_init (rfc_pad msg)))"

lemma length_pend [simp]: "length (pend xs) = length xs mod 64"
  by (simp add: pend_def minus_mult_div_eq_mod [symmetric])

lemma pend_short: "length xs < 64 \<Longrightarrow> pend xs = xs"
  by (simp add: pend_def)

lemma pend_drop: "64 \<le> length xs \<Longrightarrow> pend (drop 64 xs) = pend xs"
  by (simp add: pend_def le_div_geq algebra_simps)

lemma pend_suffix: "pend xs = drop (length xs - length xs mod 64) xs"
  by (simp add: pend_def minus_mod_eq_mult_div)

lemma absorb_append: "absorb f s (xs @ ys) = absorb f (absorb f s xs) (pend xs @ ys)"
proof (induction f s xs rule: absorb.induct)
  case (1 f s xs)
  show ?case
  proof (cases "length xs < 64")
    case True
    then show ?thesis by (simp add: absorb.simps [of f s xs] pend_short)
  next
    case False
    then have "absorb f s (xs @ ys) = absorb f (f s (take 64 xs)) (drop 64 xs @ ys)"
      by (subst absorb.simps) simp
    then show ?thesis
      using 1 False by (simp add: absorb.simps [of f s xs] pend_drop)
  qed
qed

lemma absorb_cong: "(\<And>s b. f s b = g s b) \<Longrightarrow> absorb f = absorb g"
  by (rule arg_cong [where f = absorb]) (simp add: fun_eq_iff)

lemma transform_blocks_absorb:
  "i \<le> length input \<Longrightarrow> length input + 64 < 2 ^ 32 \<Longrightarrow>
     transform_blocks input i s =
       Some (length input - (length input - i) mod 64, absorb transform s (drop i input))"
proof (induction input i s rule: transform_blocks.induct)
  case (1 input i s)
  show ?case
  proof (cases "i + 64 \<le> length input")
    case True
    then have "(length input - i) mod 64 = (length input - (i + 64)) mod 64"
      by (simp add: le_mod_geq)
    with True 1 show ?thesis
      by (simp add: transform_blocks.simps [of input i] absorb.simps [of _ _ "drop i input"] add.commute less_diff_conv2)
  next
    case False
    moreover from False 1(2) have "length input - i < 64" by linarith
    ultimately show ?thesis using 1(2,3)
      by (simp add: transform_blocks.simps [of input i] absorb.simps [of _ _ "drop i input"])
  qed
qed

subsection \<open>The 64-bit bit counter\<close>

definition counts :: "md5_obj \<Rightarrow> nat \<Rightarrow> bool" where
  "counts m n \<longleftrightarrow> count0 m = word_of_nat (8 * n) \<and> count1 m = word_of_nat (8 * n div 2 ^ 32)"

lemma md5_index_counts: "counts m n \<Longrightarrow> md5_index m = n mod 64"
proof -
  have "8 * n mod (8 * 536870912) = 8 * (n mod 536870912)" by (rule mult_mod_right [symmetric])
  moreover have "n mod 536870912 mod 64 = n mod 64" by (rule mod_mod_cancel) simp
  ultimately have "8 * n mod 4294967296 div 8 mod 64 = n mod 64" by simp
  moreover assume "counts m n"
  then have "unat (count0 m) = 8 * n mod 4294967296"
    by (simp only: counts_def unat_of_nat) simp
  ultimately show ?thesis by (simp add: md5_index_def unat_div unat_mod)
qed

lemma mod_sum_carry:
  "(a::nat) < N \<Longrightarrow> b < N \<Longrightarrow> (a + b) mod N < b \<longleftrightarrow> N \<le> a + b"
  by (cases "a + b < N") (auto simp: mod_if)

lemma div_sum_carry:
  "(a + b) div N = a div N + b div N + (if N \<le> a mod N + b mod N then 1 else 0)" if "0 < (N::nat)"
proof -
  have "x < N \<Longrightarrow> y < N \<Longrightarrow> (x + y) div N = (if N \<le> x + y then 1 else 0)" for x y
    by (auto simp: div_nat_eqI)
  then show ?thesis using that by (simp add: div_add1_eq [of a b N])
qed

lemma count_add_counts:
  assumes "counts m n" "k < 2 ^ 32"
  shows "counts (count_add k m) (n + k)"
proof -
  let ?l = "push_bit 3 (word_of_nat k :: u32)"
  have l: "?l = word_of_nat (8 * k)" by (simp add: push_bit_eq_mult)
  have c0: "count0 m + ?l = word_of_nat (8 * n + 8 * k)"
    using assms by (simp add: counts_def l)
  have "8 * k div 2 ^ 32 = k div 2 ^ 29" 
    by (simp add: div_mult2_eq [of _ 8 536870912, simplified])
  then have d: "drop_bit 29 (word_of_nat k :: u32) = word_of_nat (8 * k div 2 ^ 32)"
    using assms(2) less_le_trans [of "k div 2 ^ 29" "2 ^ 32"] div_le_dividend [of k "2 ^ 29"]
    by (simp only: word_unat_eq_iff unat_drop_bit_eq unat_of_nat) (simp add: drop_bit_eq_div)
  have carry: "word_of_nat (8 * n + 8 * k) < ?l \<longleftrightarrow> 2 ^ 32 \<le> 8 * n mod 2 ^ 32 + 8 * k mod 2 ^ 32"
    unfolding l word_less_nat_alt unat_of_nat
    using mod_sum_carry [of "8 * n mod 2 ^ 32" "2 ^ 32" "8 * k mod 2 ^ 32"] by (simp add: mod_add_eq del: of_nat_add)
  have sum: "8 * (n + k) div 2 ^ 32 = 8 * n div 2 ^ 32 + 8 * k div 2 ^ 32 +
      (if 2 ^ 32 \<le> 8 * n mod 2 ^ 32 + 8 * k mod 2 ^ 32 then 1 else 0)"
    unfolding distrib_left by (rule div_sum_carry) simp
  have "count0 m = word_of_nat (8 * n)" "count1 m = word_of_nat (8 * n div 2 ^ 32)"
    using assms(1) by (simp_all only: counts_def)
  then show ?thesis
    unfolding counts_def sum unfolding count_add_def Let_def c0 carry d
    by (simp add: distrib_left)
qed

subsection \<open>Updating\<close>

text \<open>\<open>md5_absorbed m xs\<close>: the object \<open>m\<close> has been fed exactly \<open>xs\<close>.\<close>

definition md5_absorbed :: "md5_obj \<Rightarrow> u8 list \<Rightarrow> bool" where
  "md5_absorbed m xs \<longleftrightarrow>
     \<not> finalized m \<and> length (buffer m) = 64 \<and> counts m (length xs) \<and>
     md5_st m = absorb transform rfc_init xs \<and> take (length xs mod 64) (buffer m) = pend xs"

lemma md5_absorbed_init: "length (buffer m) = 64 \<Longrightarrow> md5_absorbed (md5_init m) []"
  by (simp add: md5_absorbed_def md5_init_def counts_def absorb.simps rfc_init_def pend_def)

lemma count_add_frame [frame]:
  "finalized (count_add n m) = finalized m" "buffer (count_add n m) = buffer m"
  "md5_st (count_add n m) = md5_st m" "digest (count_add n m) = digest m"
  by (simp_all add: count_add_def Let_def)

lemma md5_update_absorbed:
  assumes m: "md5_absorbed m xs" and fits: "length ys + 64 < 2 ^ 32"
  shows "\<exists>m'. md5_update ys m = Some m' \<and> md5_absorbed m' (xs @ ys)"
proof -
  let ?n = "length xs mod 64"
  let ?m = "count_add (length ys) m"
  have idx: "md5_index m = ?n"
    using m by (simp add: md5_absorbed_def md5_index_counts)
  have cnt: "counts ?m (length (xs @ ys))"
    using m fits by (simp add: md5_absorbed_def count_add_counts)
  have app: "absorb transform rfc_init (xs @ ys) = absorb transform (md5_st m) (pend xs @ ys)"
    using m absorb_append [of transform rfc_init xs ys] by (simp add: md5_absorbed_def)
  have n: "?n < 64" and lb: "length (buffer m) = 64" and tk: "take ?n (buffer m) = pend xs"
    using m by (simp_all add: md5_absorbed_def)
  show ?thesis
  proof (cases "64 - ?n \<le> length ys")
    case False
    then have len: "length (xs @ ys) mod 64 = ?n + length ys"
      using n by (metis length_append less_diff_conv2 linorder_not_le mod_add_left_eq mod_less
          nat_le_linear less_diff_conv add.commute)
    have "pend (xs @ ys) = pend xs @ ys"
    proof -
      have "length (xs @ ys) - (?n + length ys) = length xs - ?n" by simp
      then show ?thesis unfolding pend_suffix [of "xs @ ys"] len pend_suffix [of xs] by simp
    qed
    moreover have "absorb transform (md5_st m) (pend xs @ ys) = md5_st m"
    proof -
      have "length (pend xs @ ys) < 64" using False n by simp
      then show ?thesis by (subst absorb.simps) simp
    qed
    moreover have "md5_update ys m = Some (?m\<lparr>buffer := memcpy_at (buffer m) ?n ys\<rparr>)"
      using False by (simp add: md5_update_def idx Let_def frame)
    ultimately show ?thesis
      using m cnt False app len take_memcpy_at [of ?n "buffer m" ys] length_memcpy_at [of ?n ys "buffer m"]
      by (simp add: md5_absorbed_def frame counts_def tk)
  next
    case True
    define f where "f = 64 - ?n"
    define buf where "buf = memcpy_at (buffer m) ?n (take f ys)"
    define k where "k = (length ys - f) mod 64"
    define rest where "rest = drop (length ys - k) ys"
    have f: "?n + f = 64" "f \<le> length ys" using True n by (simp_all add: f_def)
    have buf: "buf = pend xs @ take f ys" "length buf = 64"
      using f lb tk by (simp_all add: memcpy_at_def buf_def)
    have "length xs + length ys = length ys - f + 64 * (length xs div 64 + 1)"
      using f by (simp add: minus_mod_eq_mult_div [symmetric] algebra_simps)
    then have len: "length (xs @ ys) mod 64 = k" by (metis k_def length_append mod_mult_self2)
    have k: "k < 64" "k \<le> length ys"
      unfolding k_def by (simp, meson diff_le_self le_trans mod_less_eq_dividend)
    have rest: "length rest = k" using k by (simp add: rest_def)
    have "\<not> length (pend xs @ ys) < 64" using f by simp
    then have abs: "absorb transform (md5_st m) (pend xs @ ys) =
        absorb transform (transform (md5_st m) buf) (drop f ys)"
      using f by (simp only: absorb.simps [of _ _ "pend xs @ ys"] if_False) (simp add: buf flip: f_def)
    have pend: "pend (xs @ ys) = rest"
      unfolding pend_suffix [of "xs @ ys"] len using k by (simp add: rest_def)
    have up: "md5_update ys m = Some (?m\<lparr>
        md5_st := absorb transform (transform (md5_st m) buf) (drop f ys),
        buffer := memcpy_at buf 0 rest\<rparr>)"
      using f fits
      by (simp add: md5_update_def idx Let_def frame transform_blocks_absorb rest_def k_def
          flip: f_def buf_def)
    have tk': "take k (memcpy_at buf 0 rest) = rest" and lb': "length (memcpy_at buf 0 rest) = 64"
      using take_memcpy_at [of 0 buf rest] length_memcpy_at [of 0 rest buf] k rest buf(2)
      by simp_all
    have cnt': "counts (?m\<lparr>md5_st := s, buffer := b\<rparr>) (length (xs @ ys))" for s b
      using cnt by (simp add: counts_def)
    show ?thesis
      unfolding up using m cnt' tk' lb' app abs
      by (simp add: md5_absorbed_def frame pend len del: length_append)
  qed
qed

subsection \<open>Feeding a message in pieces\<close>

fun feed :: "('b list \<Rightarrow> 's \<Rightarrow> 's option) \<Rightarrow> 'b list list \<Rightarrow> 's \<Rightarrow> 's option" where
  "feed upd [] s = Some s"
| "feed upd (ys # yss) s = (case upd ys s of None \<Rightarrow> None | Some s' \<Rightarrow> feed upd yss s')"

locale block_stream =
  fixes absorbed :: "'s \<Rightarrow> 'b list \<Rightarrow> bool"
    and upd :: "'b list \<Rightarrow> 's \<Rightarrow> 's option"
    and fits :: "'b list \<Rightarrow> bool"
  assumes upd_absorbed:
    "absorbed s xs \<Longrightarrow> fits ys \<Longrightarrow> \<exists>s'. upd ys s = Some s' \<and> absorbed s' (xs @ ys)"
begin

lemma feed_absorbed:
  "absorbed s xs \<Longrightarrow> list_all fits yss \<Longrightarrow>
     \<exists>s'. feed upd yss s = Some s' \<and> absorbed s' (xs @ concat yss)"
proof (induction yss arbitrary: s xs)
  case (Cons ys yss)
  then obtain s1 where "upd ys s = Some s1" "absorbed s1 (xs @ ys)"
    using upd_absorbed [of s xs ys] by auto
  with Cons.IH [of s1 "xs @ ys"] Cons.prems show ?case by simp
qed simp

end

definition md5_fits :: "u8 list \<Rightarrow> bool" where
  "md5_fits ys \<longleftrightarrow> length ys + 64 < 2 ^ 32"

interpretation md5s: block_stream md5_absorbed md5_update md5_fits
  by unfold_locales (simp add: md5_fits_def md5_update_absorbed)

subsection \<open>Finalisation\<close>

lemma bits_words:
  "encode_words [word_of_nat N, word_of_nat (N div 2 ^ 32)] =
     map (\<lambda>k. ucast (drop_bit (8 * k) (word_of_nat N :: 64 word))) [0..<8]"
proof -
  have lo: "ucast (drop_bit j (word_of_nat N :: u32) AND 0xff) =
      (ucast (drop_bit j (word_of_nat N :: 64 word)) :: u8)" if "j \<le> 24" for j
    by (rule bit_word_eqI) (use that in \<open>auto simp: ff_mask bit_simps\<close>)
  have hi: "ucast (drop_bit j (word_of_nat (N div 2 ^ 32) :: u32) AND 0xff) =
      (ucast (drop_bit (32 + j) (word_of_nat N :: 64 word)) :: u8)" if "j \<le> 24" for j
  proof -
    have "bit (N div 2 ^ 32) i \<longleftrightarrow> bit N (32 + i)" for i
      unfolding drop_bit_eq_div [symmetric] by (simp add: bit_drop_bit_eq)
    then show ?thesis
      by (intro bit_word_eqI) (use that in \<open>auto simp: ff_mask bit_simps ac_simps\<close>)
  qed
  have "[0..<8] = [0, 1, 2, 3, 4, 5, 6, 7]" by code_simp
  then show ?thesis
    using lo [of 0] lo [of 8] lo [of 16] lo [of 24] hi [of 0] hi [of 8] hi [of 16] hi [of 24]
    by (simp add: encode_word_def del: of_nat_numeral)
qed

lemma pad_len:
  "n < 64 \<Longrightarrow> (if n < 56 then 56 - n else 120 - n) = Suc ((119 - n) mod 64)"
proof (cases "n < 56")
  case True
  then have e: "119 - n = (55 - n) + 64" by simp
  have "(119 - n) mod 64 = 55 - n" unfolding e mod_add_self2 using True by simp
  with True show ?thesis by simp
qed simp

lemma md5_finalize_absorbed:
  assumes m: "md5_absorbed m xs"
  shows "\<exists>m'. md5_finalize m = Some m' \<and> finalized m' \<and> digest m' = rfc_md5 xs"
proof -
  let ?bits = "encode_words [count0 m, count1 m]"
  let ?n = "length xs mod 64"
  let ?p = "if ?n < 56 then 56 - ?n else 120 - ?n"
  have idx: "md5_index m = ?n" and fin: "\<not> finalized m"
    using m by (simp_all add: md5_absorbed_def md5_index_counts)
  have "?p = Suc ((119 - ?n) mod 64)" by (rule pad_len) simp
  then have pad: "take ?p md5_padding = 0x80 # replicate ((119 - ?n) mod 64) 0"
    by (simp add: md5_padding_def min_absorb1 order_less_imp_le less_Suc_eq_le [symmetric])
  have bits: "rfc_pad xs = xs @ take ?p md5_padding @ ?bits"
    using m bits_words [of "8 * length xs"]
    unfolding pad rfc_pad_def Let_def md5_absorbed_def counts_def by simp
  have "length (take k md5_padding) + 64 < 2 ^ 32" for k
    by (simp add: md5_padding_def min_less_iff_disj)
  then obtain m1 where m1: "md5_update (take ?p md5_padding) m = Some m1"
      "md5_absorbed m1 (xs @ take ?p md5_padding)"
    using md5_update_absorbed [OF m, of "take ?p md5_padding"] by blast
  have "length ?bits + 64 < 2 ^ 32" by (simp del: encode_words.simps)
  then obtain m2 where m2: "md5_update ?bits m1 = Some m2" "md5_absorbed m2 (rfc_pad xs)"
    using md5_update_absorbed [OF m1(2), of ?bits] unfolding bits append_assoc by blast
  show ?thesis
    using m1(1) m2 fin unfolding md5_finalize_def Let_def idx
    by (simp add: rfc_md5_def md5_absorbed_def transform_compress)
qed
text \<open>A second \<^verbatim>\<open>finalize\<close> changes nothing.\<close>

lemma md5_finalize_idem: "md5_finalize m = Some m' \<Longrightarrow> md5_finalize m' = Some m'"
  by (auto simp: md5_finalize_def Let_def split: if_splits option.splits)

lemma length_state_words [simp]: "length (state_words s) = 4"
  by (cases s) simp

lemma length_rfc_md5 [simp]: "length (rfc_md5 msg) = 16"
  by (simp add: rfc_md5_def)

lemma hexdigest_absorbed:
  assumes "md5_absorbed m xs"
  shows "map_option hexdigest (md5_finalize m) = Some (concat (map hex_byte (rfc_md5 xs)))"
proof -
  obtain m' where "md5_finalize m = Some m'" "finalized m'" "digest m' = rfc_md5 xs"
    using md5_finalize_absorbed [OF assms] by blast
  then show ?thesis by (simp add: hexdigest_def)
qed

text \<open>
  C17: \<^verbatim>\<open>md5(str)\<close> is the lower-case hexadecimal MD5 digest of RFC 1321, for every string whose
  length leaves the 32-bit block loop inside its range, whatever the object held before
  construction.
\<close>

theorem md5_hash_correct:
  assumes "length msg + 64 < 2 ^ 32" "length (buffer raw) = 64"
  shows "md5_hash raw msg = Some (concat (map hex_byte (rfc_md5 msg)))"
proof -
  have "length msg mod 2 ^ 32 = length msg" using assms(1) by simp
  moreover obtain m where "md5_update msg (md5_init raw) = Some m" "md5_absorbed m msg"
    using md5_update_absorbed [OF md5_absorbed_init [OF assms(2)] assms(1)] by auto
  ultimately show ?thesis by (simp add: md5_hash_def md5_ctor_def hexdigest_absorbed)
qed

definition md5_raw :: md5_obj where
  "md5_raw = \<lparr>finalized = True, buffer = replicate 64 0xcd, count0 = 7, count1 = 7,
     md5_st = (1, 2, 3, 4), digest = replicate 16 0xcd\<rparr>"

lemma md5_hash_witness: "md5_hash md5_raw [] = Some ''d41d8cd98f00b204e9800998ecf8427e''"
proof -
  have "concat (map hex_byte (rfc_md5 [])) = ''d41d8cd98f00b204e9800998ecf8427e''"
    by code_simp
  then show ?thesis using md5_hash_correct [of "[]" md5_raw] by (simp add: md5_raw_def)
qed

text \<open>
  C36: the digest does not depend on how the message is cut into \<^verbatim>\<open>update\<close> calls: any sequence of
  pieces ends in the digest of their concatenation.
\<close>

theorem md5_pieces:
  assumes "list_all md5_fits yss" "length (buffer raw) = 64"
  shows "Option.bind (feed md5_update yss (md5_init raw)) (\<lambda>m. map_option hexdigest (md5_finalize m)) =
     Some (concat (map hex_byte (rfc_md5 (concat yss))))"
  using md5s.feed_absorbed [OF md5_absorbed_init [OF assms(2)] assms(1)]
  by (auto simp: hexdigest_absorbed)

lemma md5_pieces_witness:
  "Option.bind (feed md5_update [[0x61], [], [0x62, 0x63]] (md5_init md5_raw))
     (\<lambda>m. map_option hexdigest (md5_finalize m)) = Some ''900150983cd24fb0d6963f7d28e17f72''"
proof -
  have "concat (map hex_byte (rfc_md5 [0x61, 0x62, 0x63])) = ''900150983cd24fb0d6963f7d28e17f72''"
    by code_simp
  then show ?thesis
    using md5_pieces [of "[[0x61], [], [0x62, 0x63]]" md5_raw]
    by (simp add: md5_raw_def md5_fits_def)
qed

end
