(* ===== verification/TorrentFiles.thy ===== *)
theory TorrentFiles
  imports CommonUtil
begin

section \<open>libtorrent: the file list of a torrent and the piece bitfield\<close>

text \<open>
  The parts of the torrent library that the streaming code computes with: \<^verbatim>\<open>file_storage\<close> (files
  laid end to end over pieces of one length, \<^verbatim>\<open>add_file\<close>, \<^verbatim>\<open>map_file\<close>, \<^verbatim>\<open>at\<close>, \<^verbatim>\<open>piece_size\<close>) and
  the bits of \<^verbatim>\<open>bitfield\<close>. Names, attributes and hashes that a \<^verbatim>\<open>file_entry\<close> also carries are
  left out. The locale \<open>byte_map\<close> is what the streaming code relies on: the map from the bytes of
  a file to pieces is monotone and skips no piece.
\<close>

subsection \<open>file\_storage\<close>

record file_entry =
  fe_path :: bytes
  fe_offset :: int
  fe_size :: int
  fe_pad :: bool

record file_storage =
  m_files :: "file_entry list"
  m_total_size :: int
  m_num_pieces :: int
  m_piece_length :: int

record peer_request =
  pr_piece :: int
  pr_start :: int
  pr_length :: int

definition num_files :: "file_storage \<Rightarrow> int" where
  "num_files fs = int (length (m_files fs))"

text \<open>\<^verbatim>\<open>at\<close>: outside its range the source indexes past the vector; here it is \<open>None\<close>.\<close>

definition file_at :: "file_storage \<Rightarrow> int \<Rightarrow> file_entry option" where
  "file_at fs i = (if 0 \<le> i \<and> i < num_files fs then Some (m_files fs ! nat i) else None)"

definition add_file :: "file_entry \<Rightarrow> file_storage \<Rightarrow> file_storage" where
  "add_file ent fs =
     fs\<lparr>m_files := m_files fs @ [ent\<lparr>fe_offset := m_total_size fs\<rparr>],
        m_total_size := m_total_size fs + fe_size ent\<rparr>"

definition map_file :: "file_storage \<Rightarrow> int \<Rightarrow> int \<Rightarrow> int \<Rightarrow> peer_request" where
  "map_file fs file_index file_off sz =
     (let end_req = \<lparr>pr_piece = m_num_pieces fs, pr_start = 0, pr_length = 0\<rparr>
      in case file_at fs file_index of
           None \<Rightarrow> end_req
         | Some e \<Rightarrow>
             (let off = file_off + fe_offset e
              in if m_total_size fs \<le> off then end_req
                 else \<lparr>pr_piece = to_int32 (off sdiv m_piece_length fs),
                       pr_start = to_int32 (off smod m_piece_length fs),
                       pr_length = (if m_total_size fs < off + sz
                                    then to_int32 (m_total_size fs - off) else sz)\<rparr>))"

definition piece_size :: "file_storage \<Rightarrow> int \<Rightarrow> int" where
  "piece_size fs index =
     (if index = m_num_pieces fs - 1
      then to_int32 (m_total_size fs - (m_num_pieces fs - 1) * m_piece_length fs)
      else m_piece_length fs)"

subsection \<open>Well-formed file lists\<close>

text \<open>The files from position \<open>o\<close> on lie end to end up to \<open>t\<close>.\<close>

fun files_wf :: "int \<Rightarrow> file_entry list \<Rightarrow> int \<Rightarrow> bool" where
  "files_wf p [] t \<longleftrightarrow> p = t"
| "files_wf p (e # es) t \<longleftrightarrow> fe_offset e = p \<and> 0 \<le> fe_size e \<and> files_wf (p + fe_size e) es t"

definition fs_wf :: "file_storage \<Rightarrow> bool" where
  "fs_wf fs \<longleftrightarrow>
     files_wf 0 (m_files fs) (m_total_size fs) \<and> 0 < m_piece_length fs \<and>
     m_piece_length fs \<le> INT_MAX \<and>
     m_num_pieces fs = (m_total_size fs + m_piece_length fs - 1) div m_piece_length fs \<and>
     m_num_pieces fs \<le> INT_MAX"

lemma files_wf_append:
  "files_wf p (es @ fs) t \<longleftrightarrow> (\<exists>q. files_wf p es q \<and> files_wf q fs t)"
  by (induction es arbitrary: p) auto

lemma files_wf_le: "files_wf p es t \<Longrightarrow> p \<le> t"
  by (induction es arbitrary: p) force+

lemma files_wf_nth:
  assumes "files_wf p es t" "i < length es"
  shows "p \<le> fe_offset (es ! i)" "0 \<le> fe_size (es ! i)"
    "fe_offset (es ! i) + fe_size (es ! i) \<le> t"
proof -
  have "es = take i es @ es ! i # drop (Suc i) es"
    using assms(2) by (rule id_take_nth_drop)
  then obtain q where "files_wf p (take i es) q" "files_wf q (es ! i # drop (Suc i) es) t"
    using assms(1) files_wf_append [of p "take i es"] by metis
  then show "p \<le> fe_offset (es ! i)" "0 \<le> fe_size (es ! i)"
      "fe_offset (es ! i) + fe_size (es ! i) \<le> t"
    using files_wf_le by auto
qed

text \<open>\<^verbatim>\<open>add_file\<close> keeps the files end to end.\<close>

lemma add_file_wf:
  "files_wf 0 (m_files fs) (m_total_size fs) \<Longrightarrow> 0 \<le> fe_size e \<Longrightarrow>
     files_wf 0 (m_files (add_file e fs)) (m_total_size (add_file e fs))"
  by (simp add: add_file_def files_wf_append)

lemma file_at_wf:
  assumes "fs_wf fs" "file_at fs i = Some e"
  shows "0 \<le> fe_offset e" "0 \<le> fe_size e" "fe_offset e + fe_size e \<le> m_total_size fs"
  using assms files_wf_nth [of 0 "m_files fs" "m_total_size fs" "nat i"]
  by (auto simp: fs_wf_def file_at_def num_files_def split: if_splits)

subsection \<open>The piece of a byte\<close>

definition byte_piece :: "file_storage \<Rightarrow> file_entry \<Rightarrow> int \<Rightarrow> int" where
  "byte_piece fs e b = (fe_offset e + b) div m_piece_length fs"

lemma div_lt_num_pieces:
  assumes "fs_wf fs" "0 \<le> x" "x < m_total_size fs"
  shows "0 \<le> x div m_piece_length fs" "x div m_piece_length fs < m_num_pieces fs"
proof -
  have pl: "0 < m_piece_length fs" using assms(1) by (simp add: fs_wf_def)
  show "0 \<le> x div m_piece_length fs"
    using assms(2) pl by (simp add: pos_imp_zdiv_nonneg_iff)
  have "(x + m_piece_length fs) div m_piece_length fs \<le>
      (m_total_size fs + m_piece_length fs - 1) div m_piece_length fs"
    by (rule zdiv_mono1) (use assms pl in auto)
  moreover have "(x + m_piece_length fs) div m_piece_length fs = x div m_piece_length fs + 1"
    using pl by (simp add: div_add_self2)
  ultimately show "x div m_piece_length fs < m_num_pieces fs"
    using assms(1) by (simp add: fs_wf_def)
qed

lemma map_file_piece:
  assumes "fs_wf fs" "file_at fs i = Some e" "0 \<le> b" "b < fe_size e"
  shows "pr_piece (map_file fs i b n) = byte_piece fs e b"
    "pr_start (map_file fs i b n) = (fe_offset e + b) mod m_piece_length fs"
proof -
  have off: "0 \<le> fe_offset e + b" "fe_offset e + b < m_total_size fs"
    using file_at_wf [OF assms(1,2)] assms(3,4) by linarith+
  have pl: "0 < m_piece_length fs" "m_piece_length fs \<le> INT_MAX" "m_num_pieces fs \<le> INT_MAX"
    using assms(1) by (simp_all add: fs_wf_def)
  have m: "(fe_offset e + b) mod m_piece_length fs < m_piece_length fs"
    "0 \<le> (fe_offset e + b) mod m_piece_length fs"
    using pl(1) by simp_all
  have "int32_ok ((fe_offset e + b) div m_piece_length fs)"
    "int32_ok ((fe_offset e + b) mod m_piece_length fs)"
    using div_lt_num_pieces [OF assms(1) off] pl(2,3) m
    unfolding int32_ok_def INT_MAX_def by linarith+
  then show "pr_piece (map_file fs i b n) = byte_piece fs e b"
      "pr_start (map_file fs i b n) = (fe_offset e + b) mod m_piece_length fs"
    using off pl(1) assms(2)
    by (simp_all add: map_file_def byte_piece_def Let_def to_int32_id add.commute
        sdiv_nonneg smod_nonneg)
qed

text \<open>
  What a client needs of the map from bytes to pieces: it is monotone and moves by at most one
  piece from a byte to the next. Then the bytes of a range lie on exactly the pieces between those
  of its ends.
\<close>

locale byte_map =
  fixes piece :: "int \<Rightarrow> int"
  assumes step_le: "piece b \<le> piece (b + 1)"
    and step_ge: "piece (b + 1) \<le> piece b + 1"
begin

lemma mono: "a \<le> b \<Longrightarrow> piece a \<le> piece b"
proof (induction b rule: int_ge_induct)
  case (step i)
  then show ?case using step_le [of i] by linarith
qed simp

lemma onto: "a \<le> b \<Longrightarrow> piece a \<le> p \<Longrightarrow> p \<le> piece b \<Longrightarrow> \<exists>c. a \<le> c \<and> c \<le> b \<and> piece c = p"
proof (induction b arbitrary: p rule: int_ge_induct)
  case (step i)
  show ?case
  proof (cases "p \<le> piece i")
    case True
    then show ?thesis using step by (meson add_increasing2 order.trans zero_le_one)
  next
    case False
    then have "p = piece (i + 1)" using step.prems step_ge [of i] by linarith
    then show ?thesis using step.hyps by (intro exI [of _ "i + 1"]) simp
  qed
qed auto

lemma range_pieces:
  assumes "a \<le> b"
  shows "piece ` {a..b} = {piece a..piece b}"
proof
  show "{piece a..piece b} \<subseteq> piece ` {a..b}" using onto [OF assms] by fastforce
qed (auto simp: mono)

end

lemma div_step:
  assumes "0 < (l::int)"
  shows "x div l \<le> (x + 1) div l" "(x + 1) div l \<le> x div l + 1"
proof -
  show "x div l \<le> (x + 1) div l" by (rule zdiv_mono1) (use assms in auto)
  have "(x + 1) div l \<le> (x + l) div l" by (rule zdiv_mono1) (use assms in auto)
  moreover have "(x + l) div l = x div l + 1" using assms by (simp add: div_add_self2)
  ultimately show "(x + 1) div l \<le> x div l + 1" by simp
qed

text \<open>The library's map, for the file lists that satisfy the invariant and for any other.\<close>

definition file_piece :: "file_storage \<Rightarrow> int \<Rightarrow> int \<Rightarrow> int" where
  "file_piece fs i b =
     (case file_at fs i of
        None \<Rightarrow> 0
      | Some e \<Rightarrow> if 0 < m_piece_length fs then byte_piece fs e b else 0)"

interpretation fp: byte_map "file_piece fs i" for fs i
  by unfold_locales
    (auto simp: file_piece_def byte_piece_def add.assoc [symmetric] div_step split: option.split)

text \<open>A torrent of two files over 19 pieces, the second one starting inside a piece.\<close>

definition demo_ti :: file_storage where
  "demo_ti = add_file \<lparr>fe_path = ''d/b.mkv'', fe_offset = 0, fe_size = 200000, fe_pad = False\<rparr>
     (add_file \<lparr>fe_path = ''d/a.txt'', fe_offset = 0, fe_size = 100000, fe_pad = False\<rparr>
       \<lparr>m_files = [], m_total_size = 0, m_num_pieces = 19, m_piece_length = 16384\<rparr>)"

definition demo_file :: file_entry where
  "demo_file = \<lparr>fe_path = ''d/b.mkv'', fe_offset = 100000, fe_size = 200000, fe_pad = False\<rparr>"

lemma demo_ti_wf: "fs_wf demo_ti" "file_at demo_ti 1 = Some demo_file"
  by (simp_all add: demo_ti_def demo_file_def add_file_def fs_wf_def file_at_def num_files_def
      INT_MAX_def)

subsection \<open>bitfield\<close>

record bitfield =
  m_bytes :: "8 word list"
  m_size :: int

text \<open>\<^verbatim>\<open>get_bit\<close>: the bits of a byte from the most significant one; outside the buffer, \<open>None\<close>.\<close>

definition get_bit :: "bitfield \<Rightarrow> int \<Rightarrow> bool option" where
  "get_bit bf index =
     (if 0 \<le> index \<and> nat (index div 8) < length (m_bytes bf)
      then Some (and (m_bytes bf ! nat (index div 8)) (drop_bit (nat (index mod 8)) 0x80) \<noteq> 0)
      else None)"

end
