(* ===== verification/StreamAux.thy ===== *)
theory StreamAux
  imports TorrentFiles
begin

section \<open>lib/streamerok.cpp: the state of one streamed file\<close>

text \<open>
  The class \<^verbatim>\<open>tAux\<close>: which pieces of the torrent hold the file, which of them have a download
  deadline, and the sliding window of deadlines in front of the playing position. The torrent
  handle is a view of what the code reads from it (\<open>hview\<close>) and a log of the calls that change it
  (\<open>hcall\<close>). \<^verbatim>\<open>std::string::at\<close> outside its range is the outcome \<open>Threw OutOfRange\<close>, with the
  state as the exception leaves it. The build defines \<^verbatim>\<open>USE_DEADLINES\<close> and not \<^verbatim>\<open>USE_PRIORITIES\<close>.
\<close>

datatype hcall =
    SetPieceDeadline int int
  | ClearPieceDeadlines
  | PiecePriority int int
  | FilePriority int int

record hview =
  hv_valid :: bool
  hv_have :: "int \<Rightarrow> bool"
  hv_pieces :: bitfield
  hv_prio :: "int \<Rightarrow> int"

datatype exn = OutOfRange

datatype 'a outcome = Returned 'a | Threw exn

record tAux =
  ta_handle :: nat
  fileIndex :: int
  fileSize :: int
  pieceLength :: int
  fileFirstPiece :: int
  fileLastPiece :: int
  startupPiecesCountAtStart :: int
  startupPiecesCountAtEnd :: int
  fileUri :: bytes
  filePath :: bytes
  fileFirstPieceForDeadlines :: int
  piecesCount :: int
  pieceForUpdateDeadline :: int
  fileVeryFirstPiece :: int
  prebufferingEnded :: bool
  piecesDeadlines :: string

definition PRIORITY_PIECES_COUNT_MIN :: nat where
  "PRIORITY_PIECES_COUNT_MIN = 5"

definition MIN_STARTUP_PIECES_START :: int where
  "MIN_STARTUP_PIECES_START = 5"

definition MIN_STARTUP_PIECES_END :: int where
  "MIN_STARTUP_PIECES_END = 4"

text \<open>Indexing with \<^verbatim>\<open>at\<close>.\<close>

definition at_get :: "'a list \<Rightarrow> int \<Rightarrow> 'a option" where
  "at_get s i = (if 0 \<le> i \<and> i < int (length s) then Some (s ! nat i) else None)"

definition at_set :: "'a list \<Rightarrow> int \<Rightarrow> 'a \<Rightarrow> 'a list option" where
  "at_set s i c = (if 0 \<le> i \<and> i < int (length s) then Some (s[nat i := c]) else None)"

subsection \<open>The constructor\<close>

text \<open>
  \<^verbatim>\<open>static_cast<int>(ceil(float(n) / d) + 0.5)\<close>: the quotient rounded up. In \<^verbatim>\<open>float\<close> the same
  value for the divisors 200 and 400 and any count below \<open>2 ^ 24\<close>; below, negative counts
  give a value that the minimum replaces, as they do in the source.
\<close>

definition ceil_div :: "int \<Rightarrow> int \<Rightarrow> int" where
  "ceil_div n d = - ((- n) div d)"

text \<open>The body of the two loops of the constructor, over the pieces they visit.\<close>

fun mark_startup :: "int list \<Rightarrow> tAux \<Rightarrow> tAux \<times> hcall list \<times> unit outcome" where
  "mark_startup [] a = (a, [], Returned ())"
| "mark_startup (i # is) a =
     (case at_set (piecesDeadlines a) i CHR ''t'' of
        None \<Rightarrow> (a, [], Threw OutOfRange)
      | Some pd \<Rightarrow>
          (let (a', calls, r) = mark_startup is
                 (a\<lparr>piecesDeadlines := pd,
                    pieceForUpdateDeadline := pieceForUpdateDeadline a + 1\<rparr>)
           in (a', SetPieceDeadline i (pieceForUpdateDeadline a * 10) # calls, r)))"

definition startup_first :: "tAux \<Rightarrow> int list" where
  "startup_first a =
     [fileFirstPiece a..min (fileFirstPiece a + startupPiecesCountAtStart a) (fileLastPiece a) - 1]"

definition startup_last :: "tAux \<Rightarrow> int list" where
  "startup_last a =
     rev [max (fileLastPiece a - startupPiecesCountAtEnd a) (fileFirstPiece a) + 1..fileLastPiece a]"

text \<open>The members before the loops that set deadlines.\<close>

definition tAux_members :: "nat \<Rightarrow> file_storage \<Rightarrow> int \<Rightarrow> int \<Rightarrow> tAux" where
  "tAux_members hndl ti index sz =
     (let first = pr_piece (map_file ti index 0 1);
          last = pr_piece (map_file ti index (sz - 1) 1);
          count = last - first + 1
      in \<lparr>ta_handle = hndl, fileIndex = index, fileSize = sz,
          pieceLength = m_piece_length ti, fileFirstPiece = first, fileLastPiece = last,
          startupPiecesCountAtStart = max (ceil_div count 200) MIN_STARTUP_PIECES_START,
          startupPiecesCountAtEnd = max (ceil_div count 400) MIN_STARTUP_PIECES_END,
          fileUri = [], filePath = [], fileFirstPieceForDeadlines = first,
          piecesCount = count, pieceForUpdateDeadline = 1, fileVeryFirstPiece = first,
          prebufferingEnded = False, piecesDeadlines = replicate (nat (last + 1)) CHR ''f''\<rparr>)"

definition tAux_ctor ::
    "nat \<Rightarrow> file_storage \<Rightarrow> int \<Rightarrow> int \<Rightarrow> tAux \<times> hcall list \<times> unit outcome" where
  "tAux_ctor hndl ti index sz =
     (let a = tAux_members hndl ti index sz;
          prio = map (\<lambda>i. PiecePriority i 1) [fileFirstPiece a..piecesCount a - 1]
      in case mark_startup (startup_first a) a of
           (a1, calls1, Threw e) \<Rightarrow> (a1, prio @ calls1, Threw e)
         | (a1, calls1, Returned u) \<Rightarrow>
             (case mark_startup (startup_last a1) a1 of
                (a2, calls2, Threw e) \<Rightarrow> (a2, prio @ calls1 @ calls2, Threw e)
              | (a2, calls2, Returned v) \<Rightarrow>
                  (a2\<lparr>pieceForUpdateDeadline :=
                        fileFirstPiece a2 + startupPiecesCountAtStart a2\<rparr>,
                   prio @ calls1 @ calls2, Returned ())))"

subsection \<open>updateDeadlines\<close>

definition waiting_first :: "hview \<Rightarrow> tAux \<Rightarrow> bool" where
  "waiting_first hv a \<longleftrightarrow> list_ex (\<lambda>i. \<not> hv_have hv i) (startup_first a)"

definition waiting_last :: "hview \<Rightarrow> tAux \<Rightarrow> bool" where
  "waiting_last hv a \<longleftrightarrow> list_ex (\<lambda>i. \<not> hv_have hv i) (startup_last a)"

function set_window ::
    "hview \<Rightarrow> int \<Rightarrow> nat \<Rightarrow> tAux \<Rightarrow> tAux \<times> hcall list \<times> unit outcome" where
  "set_window hv i piecesToSet a =
     (if i < fileLastPiece a \<and> piecesToSet \<noteq> 0 then
        if hv_have hv i then set_window hv (i + 1) piecesToSet a
        else case at_get (piecesDeadlines a) i of
               None \<Rightarrow> (a, [], Threw OutOfRange)
             | Some c \<Rightarrow>
                 if c = CHR ''f'' then
                   (let (a', calls, r) = set_window hv (i + 1) (piecesToSet - 1)
                          (a\<lparr>pieceForUpdateDeadline := pieceForUpdateDeadline a + 1,
                             piecesDeadlines := (piecesDeadlines a)[nat i := CHR ''t'']\<rparr>)
                    in (a', SetPieceDeadline i (pieceForUpdateDeadline a * 10) # calls, r))
                 else set_window hv (i + 1) (piecesToSet - 1) a
      else (a, [], Returned ()))"
  by pat_completeness auto
termination
  by (relation "measure (\<lambda>(hv, i, k, a). nat (fileLastPiece a - i))") auto

declare set_window.simps [simp del]

definition seek_deadlines :: "int \<Rightarrow> tAux \<Rightarrow> tAux" where
  "seek_deadlines p a =
     a\<lparr>fileFirstPieceForDeadlines := to_int32 p,
       piecesDeadlines := replicate (length (piecesDeadlines a)) CHR ''f''\<rparr>"

definition updateDeadlines ::
    "hview \<Rightarrow> int \<Rightarrow> int \<Rightarrow> tAux \<Rightarrow> tAux \<times> hcall list \<times> int outcome" where
  "updateDeadlines hv downloadedPieceIndex needSeekToThisPiece a =
     (if \<not> hv_valid hv then (a, [], Returned needSeekToThisPiece)
      else
        (let (a1, calls1) =
               (if needSeekToThisPiece \<noteq> - 1
                then (seek_deadlines needSeekToThisPiece a, [ClearPieceDeadlines])
                else (a, []));
             startupBegin = waiting_first hv a1;
             startupEnd = waiting_last hv a1
         in case at_set (piecesDeadlines a1) downloadedPieceIndex CHR ''f'' of
              None \<Rightarrow> (a1, calls1, Threw OutOfRange)
            | Some pd \<Rightarrow>
                (let a2 = a1\<lparr>piecesDeadlines := pd\<rparr>
                 in if \<not> startupEnd \<and> \<not> startupBegin
                    then case set_window hv (fileFirstPieceForDeadlines a2)
                                PRIORITY_PIECES_COUNT_MIN a2 of
                           (a3, calls3, Returned u) \<Rightarrow> (a3, calls1 @ calls3, Returned (- 1))
                         | (a3, calls3, Threw e) \<Rightarrow> (a3, calls1 @ calls3, Threw e)
                    else (a2, calls1, Returned (- 1)))))"

subsection \<open>prioritize, canGetUrl, isFinished\<close>

function prio_loop :: "hview \<Rightarrow> bool \<Rightarrow> int \<Rightarrow> int \<Rightarrow> nat \<Rightarrow> hcall list" where
  "prio_loop hv startup i lastp piecesToSet =
     (if i < lastp \<and> piecesToSet \<noteq> 0 then
        if hv_have hv i then prio_loop hv startup (i + 1) lastp piecesToSet
        else
          (let currPrio = hv_prio hv i;
               prioToSet = (if currPrio = 7 then 0
                            else if startup \<and> currPrio = 0 then 1
                            else if \<not> startup then 7 else 0)
           in (if prioToSet \<noteq> 0 then [PiecePriority i prioToSet] else []) @
              prio_loop hv startup (i + 1) lastp (piecesToSet - 1))
      else [])"
  by pat_completeness auto
termination
  by (relation "measure (\<lambda>(hv, s, i, l, k). nat (l - i))") auto

declare prio_loop.simps [simp del]

definition prioritize :: "hview \<Rightarrow> int \<Rightarrow> tAux \<Rightarrow> tAux \<times> hcall list \<times> int" where
  "prioritize hv needSeekToThisPiece a =
     (if \<not> hv_valid hv then (a, [], needSeekToThisPiece)
      else
        (let a1 = (if needSeekToThisPiece \<noteq> - 1
                   then a\<lparr>fileFirstPiece := to_int32 needSeekToThisPiece\<rparr> else a);
             startup = waiting_first hv a1 \<or> waiting_last hv a1
         in (a1, prio_loop hv startup (fileFirstPiece a1) (fileLastPiece a1)
                   PRIORITY_PIECES_COUNT_MIN, - 1)))"

fun all_bits :: "bitfield \<Rightarrow> int list \<Rightarrow> bool option" where
  "all_bits bf [] = Some True"
| "all_bits bf (i # is) =
     (case get_bit bf i of
        None \<Rightarrow> None
      | Some b \<Rightarrow> if b then all_bits bf is else Some False)"

definition canGetUrl :: "hview \<Rightarrow> tAux \<Rightarrow> bool option" where
  "canGetUrl hv a =
     (if \<not> hv_valid hv then Some False
      else case all_bits (hv_pieces hv)
                  [fileFirstPiece a..fileFirstPiece a + startupPiecesCountAtStart a - 1] of
             None \<Rightarrow> None
           | Some b \<Rightarrow>
               if b then all_bits (hv_pieces hv)
                 (rev [fileLastPiece a - startupPiecesCountAtEnd a + 1..fileLastPiece a])
               else Some False)"

definition isFinished :: "hview \<Rightarrow> tAux \<Rightarrow> bool" where
  "isFinished hv a \<longleftrightarrow>
     hv_valid hv \<and> list_all (hv_have hv) [fileFirstPiece a..fileLastPiece a - 1]"

subsection \<open>Marking pieces\<close>

fun deadline_calls :: "int \<Rightarrow> int list \<Rightarrow> hcall list" where
  "deadline_calls n [] = []"
| "deadline_calls n (i # is) = SetPieceDeadline i (n * 10) # deadline_calls (n + 1) is"

definition flag_all :: "int list \<Rightarrow> string \<Rightarrow> string" where
  "flag_all is s = fold (\<lambda>i s. s[nat i := CHR ''t'']) is s"

definition marked :: "int list \<Rightarrow> tAux \<Rightarrow> tAux" where
  "marked is a = a\<lparr>piecesDeadlines := flag_all is (piecesDeadlines a),
     pieceForUpdateDeadline := pieceForUpdateDeadline a + int (length is)\<rparr>"

definition in_flags :: "tAux \<Rightarrow> int \<Rightarrow> bool" where
  "in_flags a i \<longleftrightarrow> 0 \<le> i \<and> i < int (length (piecesDeadlines a))"

lemma length_flag_all [simp]: "length (flag_all is s) = length s"
  by (induction "is" arbitrary: s) (simp_all add: flag_all_def)

lemma flag_all_nth:
  "0 \<le> j \<Longrightarrow> j < int (length s) \<Longrightarrow> list_all (\<lambda>i. 0 \<le> i) is \<Longrightarrow>
     flag_all is s ! nat j = (if j \<in> set is then CHR ''t'' else s ! nat j)"
proof (induction "is" arbitrary: s)
  case (Cons i "is")
  have "nat j < length s" using Cons.prems by simp
  then show ?case
    using Cons.IH [of "s[nat i := CHR ''t'']"] Cons.prems
    by (auto simp: flag_all_def nth_list_update)
qed (simp add: flag_all_def)

lemma marked_Nil [simp]: "marked [] a = a"
  by (simp add: marked_def flag_all_def)

lemma marked_Cons:
  "marked (i # is) a = marked is (a\<lparr>piecesDeadlines := (piecesDeadlines a)[nat i := CHR ''t''],
     pieceForUpdateDeadline := pieceForUpdateDeadline a + 1\<rparr>)"
  by (simp add: marked_def flag_all_def)

lemma marked_frame [frame]:
  "fileFirstPiece (marked is a) = fileFirstPiece a" "fileLastPiece (marked is a) = fileLastPiece a"
  "startupPiecesCountAtStart (marked is a) = startupPiecesCountAtStart a"
  "startupPiecesCountAtEnd (marked is a) = startupPiecesCountAtEnd a"
  "fileFirstPieceForDeadlines (marked is a) = fileFirstPieceForDeadlines a"
  "fileVeryFirstPiece (marked is a) = fileVeryFirstPiece a"
  "pieceLength (marked is a) = pieceLength a" "fileSize (marked is a) = fileSize a"
  "length (piecesDeadlines (marked is a)) = length (piecesDeadlines a)"
  "piecesDeadlines (marked is a) = flag_all is (piecesDeadlines a)"
  "pieceForUpdateDeadline (marked is a) = pieceForUpdateDeadline a + int (length is)"
  by (simp_all add: marked_def)

lemma mark_startup_eq:
  "list_all (in_flags a) is \<Longrightarrow>
     mark_startup is a = (marked is a, deadline_calls (pieceForUpdateDeadline a) is, Returned ())"
proof (induction "is" arbitrary: a)
  case (Cons i "is")
  let ?a = "a\<lparr>piecesDeadlines := (piecesDeadlines a)[nat i := CHR ''t''],
     pieceForUpdateDeadline := pieceForUpdateDeadline a + 1\<rparr>"
  have "at_set (piecesDeadlines a) i CHR ''t'' = Some ((piecesDeadlines a)[nat i := CHR ''t''])"
    using Cons.prems by (simp add: at_set_def in_flags_def)
  moreover have "list_all (in_flags ?a) is"
    using Cons.prems by (simp add: in_flags_def list_all_iff)
  ultimately show ?case using Cons.IH [of ?a] by (simp add: marked_Cons)
qed simp

subsection \<open>The window is the marking of the first missing pieces\<close>

definition missing :: "hview \<Rightarrow> int \<Rightarrow> int \<Rightarrow> int list" where
  "missing hv i lastp = filter (\<lambda>j. \<not> hv_have hv j) [i..lastp - 1]"

definition window_todo :: "hview \<Rightarrow> int \<Rightarrow> nat \<Rightarrow> tAux \<Rightarrow> int list" where
  "window_todo hv i k a =
     filter (\<lambda>j. piecesDeadlines a ! nat j = CHR ''f'') (take k (missing hv i (fileLastPiece a)))"

lemma missing_step:
  "i < lastp \<Longrightarrow> missing hv i lastp =
     (if hv_have hv i then missing hv (i + 1) lastp else i # missing hv (i + 1) lastp)"
  by (simp add: missing_def upto_rec1)

lemma missing_end: "lastp \<le> i \<Longrightarrow> missing hv i lastp = []"
  by (simp add: missing_def)

lemma set_missing: "set (missing hv i lastp) = {j. i \<le> j \<and> j < lastp \<and> \<not> hv_have hv j}"
  by (auto simp: missing_def)

lemma set_window_eq:
  "0 \<le> i \<Longrightarrow> fileLastPiece a < int (length (piecesDeadlines a)) \<Longrightarrow>
     set_window hv i k a = mark_startup (window_todo hv i k a) a"
proof (induction hv i k a rule: set_window.induct)
  case (1 hv i k a)
  show ?case
  proof (cases "i < fileLastPiece a \<and> k \<noteq> 0")
    case False
    then have w: "window_todo hv i k a = []"
      by (auto simp: window_todo_def missing_end)
    show ?thesis
      by (subst set_window.simps) (simp only: w False if_False mark_startup.simps)
  next
    case True
    then have ran: "at_get (piecesDeadlines a) i = Some (piecesDeadlines a ! nat i)"
      using 1(4,5) by (simp add: at_get_def)
    show ?thesis
    proof (cases "hv_have hv i")
      case True': True
      then have "window_todo hv i k a = window_todo hv (i + 1) k a"
        using True by (simp add: window_todo_def missing_step)
      then show ?thesis
        using 1(1) [OF True True'] 1(4,5) True True' by (simp add: set_window.simps [of hv i])
    next
      case miss: False
      then obtain k' where k: "k = Suc k'" using True by (cases k) auto
      show ?thesis
      proof (cases "piecesDeadlines a ! nat i = CHR ''f''")
        case f: False
        then have "window_todo hv i k a = window_todo hv (i + 1) (k - 1) a"
          using True miss by (simp add: window_todo_def missing_step k)
        then show ?thesis
          using 1(3) [OF True miss ran f] 1(4,5) True miss ran f by (simp add: set_window.simps [of hv i])
      next
        case f: True
        let ?a = "a\<lparr>pieceForUpdateDeadline := pieceForUpdateDeadline a + 1,
                    piecesDeadlines := (piecesDeadlines a)[nat i := CHR ''t'']\<rparr>"
        have swap: "a\<lparr>piecesDeadlines := (piecesDeadlines a)[nat i := CHR ''t''],
            pieceForUpdateDeadline := pieceForUpdateDeadline a + 1\<rparr> = ?a" by simp
        have "window_todo hv (i + 1) (k - 1) ?a = window_todo hv (i + 1) (k - 1) a"
          unfolding window_todo_def using 1(4)
          by (auto intro!: filter_cong simp: set_missing dest!: in_set_takeD)
        then have "window_todo hv i k a = i # window_todo hv (i + 1) (k - 1) ?a"
          using True miss f by (simp add: window_todo_def missing_step k)
        moreover have "at_set (piecesDeadlines a) i CHR ''t'' = Some ((piecesDeadlines a)[nat i := CHR ''t''])"
          using 1(4,5) True by (simp add: at_set_def)
        ultimately show ?thesis
          using 1(2) [OF True miss ran f] 1(4,5) True miss ran f
          by (simp add: set_window.simps [of hv i] swap)
      qed
    qed
  qed
qed

subsection \<open>The invariant\<close>

definition aux_wf :: "tAux \<Rightarrow> bool" where
  "aux_wf a \<longleftrightarrow>
     0 \<le> fileFirstPiece a \<and> fileFirstPiece a \<le> fileLastPiece a \<and>
     fileLastPiece a < INT_MAX \<and>
     int (length (piecesDeadlines a)) = fileLastPiece a + 1 \<and>
     0 < pieceLength a \<and> 0 \<le> fileSize a \<and>
     fileSize a \<le> (fileLastPiece a - fileFirstPiece a + 1) * pieceLength a \<and>
     fileVeryFirstPiece a = fileFirstPiece a \<and> 0 \<le> fileFirstPieceForDeadlines a \<and>
     MIN_STARTUP_PIECES_START \<le> startupPiecesCountAtStart a \<and>
     MIN_STARTUP_PIECES_END \<le> startupPiecesCountAtEnd a"

lemma aux_wf_marked [inv_intro]: "aux_wf a \<Longrightarrow> aux_wf (marked is a)"
  by (simp add: aux_wf_def frame)

lemma aux_wf_seek [inv_intro]:
  "aux_wf a \<Longrightarrow> 0 \<le> p \<Longrightarrow> p \<le> INT_MAX \<Longrightarrow> aux_wf (seek_deadlines p a)"
  by (simp add: aux_wf_def seek_deadlines_def to_int32_id int32_ok_def INT_MAX_def)

lemma aux_wf_flag [inv_intro]:
  "aux_wf a \<Longrightarrow> aux_wf (a\<lparr>piecesDeadlines := (piecesDeadlines a)[k := c]\<rparr>)"
  by (simp add: aux_wf_def)

lemma startup_first_flags: "aux_wf a \<Longrightarrow> list_all (in_flags a) (startup_first a)"
  by (auto simp: aux_wf_def in_flags_def startup_first_def list_all_iff)

lemma startup_last_flags: "aux_wf a \<Longrightarrow> list_all (in_flags a) (startup_last a)"
  by (auto simp: aux_wf_def in_flags_def startup_last_def list_all_iff)

lemma startup_marked [frame]:
  "startup_first (marked is a) = startup_first a" "startup_last (marked is a) = startup_last a"
  by (simp_all add: startup_first_def startup_last_def frame)

lemma in_flags_marked [frame]: "in_flags (marked is a) = in_flags a"
  by (simp add: in_flags_def fun_eq_iff frame)

lemma deadline_calls_append:
  "deadline_calls n (is @ js) = deadline_calls n is @ deadline_calls (n + int (length is)) js"
  by (induction "is" arbitrary: n) (simp_all add: algebra_simps)

lemma marked_append: "marked (is @ js) a = marked js (marked is a)"
  by (simp add: marked_def flag_all_def)

text \<open>The pieces of a file are long enough to hold it.\<close>

lemma file_in_pieces:
  assumes "0 < m_piece_length ti" "0 < fe_size e"
  shows "fe_size e \<le>
    (byte_piece ti e (fe_size e - 1) - byte_piece ti e 0 + 1) * m_piece_length ti"
proof -
  let ?l = "m_piece_length ti" and ?o = "fe_offset e"
  have "?o + (fe_size e - 1) < ((?o + (fe_size e - 1)) div ?l + 1) * ?l"
    using assms(1) by (simp add: distrib_right) (metis add.commute div_mult_mod_eq
        pos_mod_bound add_less_cancel_left)
  moreover have "?o div ?l * ?l \<le> ?o"
    using assms(1) by (simp add: minus_mod_eq_div_mult [symmetric])
  ultimately show ?thesis by (simp add: byte_piece_def algebra_simps)
qed

lemma ctor_members_wf:
  assumes "fs_wf ti" "file_at ti index = Some e" "0 < fe_size e"
  shows "aux_wf (tAux_members h ti index (fe_size e))"
    "fileFirstPiece (tAux_members h ti index (fe_size e)) = byte_piece ti e 0"
    "fileLastPiece (tAux_members h ti index (fe_size e)) = byte_piece ti e (fe_size e - 1)"
proof -
  let ?f = "byte_piece ti e 0" and ?l = "byte_piece ti e (fe_size e - 1)"
  have first: "pr_piece (map_file ti index 0 1) = ?f"
    and last: "pr_piece (map_file ti index (fe_size e - 1) 1) = ?l"
    using map_file_piece(1) [OF assms(1,2)] assms(3) by simp_all
  then show "fileFirstPiece (tAux_members h ti index (fe_size e)) = ?f"
      "fileLastPiece (tAux_members h ti index (fe_size e)) = ?l"
    by (simp_all add: tAux_members_def Let_def)
  have pl: "0 < m_piece_length ti" using assms(1) by (simp add: fs_wf_def)
  have "?f \<le> ?l"
    using fp.mono [of 0 "fe_size e - 1" ti index] assms pl by (simp add: file_piece_def)
  moreover have "0 \<le> ?f" "?l < m_num_pieces ti"
    using file_at_wf [OF assms(1,2)] assms(3) div_lt_num_pieces [OF assms(1)]
    by (simp_all add: byte_piece_def)
  ultimately show "aux_wf (tAux_members h ti index (fe_size e))"
    using first last pl assms file_in_pieces [of ti e]
    by (simp add: aux_wf_def tAux_members_def Let_def fs_wf_def)
qed

definition ctor_result :: "tAux \<Rightarrow> tAux" where
  "ctor_result a = (marked (startup_first a @ startup_last a) a)
     \<lparr>pieceForUpdateDeadline := fileFirstPiece a + startupPiecesCountAtStart a\<rparr>"

lemma tAux_ctor_eq:
  assumes "aux_wf (tAux_members h ti index sz)" (is "aux_wf ?a")
  shows "tAux_ctor h ti index sz =
    (ctor_result ?a,
     map (\<lambda>i. PiecePriority i 1) [fileFirstPiece ?a..piecesCount ?a - 1] @
       deadline_calls 1 (startup_first ?a @ startup_last ?a),
     Returned ())"
proof -
  have "mark_startup (startup_first ?a) ?a =
      (marked (startup_first ?a) ?a, deadline_calls 1 (startup_first ?a), Returned ())"
    using mark_startup_eq [OF startup_first_flags [OF assms]]
    by (simp add: tAux_members_def Let_def)
  moreover have "mark_startup (startup_last ?a) (marked (startup_first ?a) ?a) =
      (marked (startup_last ?a) (marked (startup_first ?a) ?a),
       deadline_calls (1 + int (length (startup_first ?a))) (startup_last ?a), Returned ())"
    using mark_startup_eq [of "marked (startup_first ?a) ?a" "startup_last ?a"]
      startup_last_flags [OF assms]
    by (simp add: frame) (simp add: tAux_members_def Let_def)
  ultimately show ?thesis
    by (simp add: tAux_ctor_def Let_def frame ctor_result_def deadline_calls_append marked_append)
qed
lemma flags_ctor_members:
  "set (piecesDeadlines (tAux_members h ti index sz)) \<subseteq> {CHR ''f''}"
  by (auto simp: tAux_members_def Let_def)

lemma ctor_result_frame [frame]:
  "fileFirstPiece (ctor_result a) = fileFirstPiece a" "fileLastPiece (ctor_result a) = fileLastPiece a"
  "piecesDeadlines (ctor_result a) = flag_all (startup_first a @ startup_last a) (piecesDeadlines a)"
  "startup_first (ctor_result a) = startup_first a" "startup_last (ctor_result a) = startup_last a"
  "piecesCount (ctor_result a) = piecesCount a"
  by (simp_all add: ctor_result_def frame startup_first_def startup_last_def)
    (simp_all add: marked_def)

lemma aux_wf_ctor_result: "aux_wf a \<Longrightarrow> aux_wf (ctor_result a)"
  by (simp add: aux_wf_def ctor_result_def frame)

text \<open>
  For a non-empty file of a well-formed torrent the constructor never throws. It finds the
  pieces of the file's first and last byte, flags exactly the startup pieces (the first ones and the
  last ones), and asks for their deadlines in that order, 10 ms apart.
\<close>

theorem tAux_ctor_ok:
  assumes "fs_wf ti" "file_at ti index = Some e" "0 < fe_size e"
  shows "\<exists>a. tAux_ctor h ti index (fe_size e) =
      (a, map (\<lambda>i. PiecePriority i 1) [fileFirstPiece a..piecesCount a - 1] @
            deadline_calls 1 (startup_first a @ startup_last a), Returned ()) \<and>
    aux_wf a \<and> fileFirstPiece a = byte_piece ti e 0 \<and>
    fileLastPiece a = byte_piece ti e (fe_size e - 1) \<and>
    list_all (\<lambda>j. piecesDeadlines a ! nat j =
        (if j \<in> set (startup_first a) \<union> set (startup_last a) then CHR ''t'' else CHR ''f''))
      [0..fileLastPiece a]"
proof -
  let ?m = "tAux_members h ti index (fe_size e)"
  note wf = ctor_members_wf [OF assms, of h]
  have f: "piecesDeadlines ?m ! nat j = CHR ''f''" if "0 \<le> j" "j \<le> fileLastPiece ?m" for j
    using flags_ctor_members [of h ti index "fe_size e"] wf(1) that
    by (metis aux_wf_def insertE empty_iff nat_less_iff nth_mem subsetD zle_add1_eq_le)
  have nn: "list_all (\<lambda>i. 0 \<le> i) (startup_first ?m @ startup_last ?m)"
    using startup_first_flags [OF wf(1)] startup_last_flags [OF wf(1)]
    by (auto simp: list_all_iff in_flags_def)
  have "piecesDeadlines (ctor_result ?m) ! nat j =
        (if j \<in> set (startup_first ?m) \<union> set (startup_last ?m) then CHR ''t'' else CHR ''f'')"
    if "0 \<le> j" "j \<le> fileLastPiece ?m" for j
    using flag_all_nth [OF that(1) _ nn, of "piecesDeadlines ?m"] f [OF that] wf(1) that
    by (simp add: aux_wf_def frame)
  then have "list_all (\<lambda>j. piecesDeadlines (ctor_result ?m) ! nat j =
        (if j \<in> set (startup_first ?m) \<union> set (startup_last ?m) then CHR ''t'' else CHR ''f''))
      [0..fileLastPiece ?m]"
    by (simp add: list_all_iff)
  then show ?thesis
    unfolding tAux_ctor_eq [OF wf(1)]
    using wf aux_wf_ctor_result [OF wf(1)]
    by (intro exI [of _ "ctor_result ?m"] conjI) (simp_all only: frame)
qed

lemma tAux_ctor_ok_witness:
  "\<exists>a calls. tAux_ctor 0 demo_ti 1 200000 = (a, calls, Returned ()) \<and> aux_wf a \<and>
     fileFirstPiece a = 6 \<and> fileLastPiece a = 18"
  using tAux_ctor_ok [OF demo_ti_wf, of 0]
  by (auto simp: demo_file_def byte_piece_def demo_ti_def add_file_def)

text \<open>
  The loop that gives the file's pieces a priority runs from the file's first piece to the
  \<^emph>\<open>number\<close> of its pieces. For a file that starts late in the torrent it gives a priority to no
  piece at all.
\<close>

theorem ctor_priorities_late_file:
  assumes "fs_wf ti" "file_at ti index = Some e" "0 < fe_size e"
    and "byte_piece ti e (fe_size e - 1) - byte_piece ti e 0 + 1 \<le> byte_piece ti e 0"
  shows "filter (\<lambda>c. case c of PiecePriority i p \<Rightarrow> True | _ \<Rightarrow> False)
     (fst (snd (tAux_ctor h ti index (fe_size e)))) = []"
proof -
  let ?m = "tAux_members h ti index (fe_size e)"
  note wf = ctor_members_wf [OF assms(1-3), of h]
  have "piecesCount ?m = fileLastPiece ?m - fileFirstPiece ?m + 1"
    by (simp add: tAux_members_def Let_def)
  moreover have "filter (\<lambda>c. case c of PiecePriority i p \<Rightarrow> True | _ \<Rightarrow> False) (deadline_calls n is) = []"
    for n "is" by (induction "is" arbitrary: n) simp_all
  ultimately show ?thesis using wf(2,3) assms(4) by (simp add: tAux_ctor_eq [OF wf(1)])
qed

definition demo_late :: file_storage where
  "demo_late = add_file \<lparr>fe_path = ''d/b.mkv'', fe_offset = 0, fe_size = 32768, fe_pad = False\<rparr>
     (add_file \<lparr>fe_path = ''d/a.txt'', fe_offset = 0, fe_size = 65536, fe_pad = False\<rparr>
       \<lparr>m_files = [], m_total_size = 0, m_num_pieces = 6, m_piece_length = 16384\<rparr>)"

lemma ctor_priorities_late_file_witness:
  "filter (\<lambda>c. case c of PiecePriority i p \<Rightarrow> True | _ \<Rightarrow> False)
     (fst (snd (tAux_ctor 0 demo_late 1 32768))) = []"
proof -
  have "fs_wf demo_late" "file_at demo_late 1 =
      Some \<lparr>fe_path = ''d/b.mkv'', fe_offset = 65536, fe_size = 32768, fe_pad = False\<rparr>"
    by (simp_all add: demo_late_def add_file_def fs_wf_def file_at_def num_files_def INT_MAX_def)
  from ctor_priorities_late_file [OF this, of 0] show ?thesis
    by (simp add: byte_piece_def demo_late_def add_file_def)
qed

subsection \<open>updateDeadlines\<close>

text \<open>The second file of the example torrent, with four of its pieces missing.\<close>

definition demo_aux :: tAux where
  "demo_aux = ctor_result (tAux_members 0 demo_ti 1 200000)"

definition demo_hv :: hview where
  "demo_hv = \<lparr>hv_valid = True, hv_have = (\<lambda>i. i < 11 \<or> 14 < i),
     hv_pieces = \<lparr>m_bytes = [0xff, 0xe1, 0xe0], m_size = 19\<rparr>, hv_prio = (\<lambda>i. 1)\<rparr>"

lemma demo_aux_wf: "aux_wf demo_aux" "fileLastPiece demo_aux = 18" "fileFirstPiece demo_aux = 6"
proof -
  show "aux_wf demo_aux"
    using aux_wf_ctor_result ctor_members_wf(1) [OF demo_ti_wf, of 0]
    by (simp add: demo_aux_def demo_file_def)
qed code_simp+

text \<open>The state in which the window is set: after the seek and with the piece's flag cleared.\<close>

definition positioned :: "int \<Rightarrow> int \<Rightarrow> tAux \<Rightarrow> tAux" where
  "positioned seek d a =
     (let a1 = (if seek \<noteq> - 1 then seek_deadlines seek a else a)
      in a1\<lparr>piecesDeadlines := (piecesDeadlines a1)[nat d := CHR ''f'']\<rparr>)"

definition play_pos :: "int \<Rightarrow> tAux \<Rightarrow> int" where
  "play_pos seek a = (if seek \<noteq> - 1 then seek else fileFirstPieceForDeadlines a)"

definition startup_done :: "hview \<Rightarrow> tAux \<Rightarrow> bool" where
  "startup_done hv a \<longleftrightarrow> \<not> waiting_first hv a \<and> \<not> waiting_last hv a"

definition seek_ok :: "int \<Rightarrow> bool" where
  "seek_ok seek \<longleftrightarrow> seek = - 1 \<or> (0 \<le> seek \<and> seek \<le> INT_MAX)"

definition new_deadlines :: "hview \<Rightarrow> int \<Rightarrow> int \<Rightarrow> tAux \<Rightarrow> int list" where
  "new_deadlines hv d seek a =
     (if startup_done hv a
      then window_todo hv (play_pos seek a) PRIORITY_PIECES_COUNT_MIN (positioned seek d a)
      else [])"

lemma positioned_frame [frame]:
  "fileFirstPiece (positioned seek d a) = fileFirstPiece a"
  "fileLastPiece (positioned seek d a) = fileLastPiece a"
  "pieceForUpdateDeadline (positioned seek d a) = pieceForUpdateDeadline a"
  "length (piecesDeadlines (positioned seek d a)) = length (piecesDeadlines a)"
  "startup_first (positioned seek d a) = startup_first a"
  "startup_last (positioned seek d a) = startup_last a"
  by (simp_all add: positioned_def seek_deadlines_def startup_first_def startup_last_def Let_def)

lemma positioned_pos:
  "seek_ok seek \<Longrightarrow> fileFirstPieceForDeadlines (positioned seek d a) = play_pos seek a"
  by (auto simp: positioned_def seek_deadlines_def play_pos_def seek_ok_def Let_def to_int32_id
      int32_ok_def INT_MAX_def)

lemma aux_wf_positioned [inv_intro]: "aux_wf a \<Longrightarrow> seek_ok seek \<Longrightarrow> aux_wf (positioned seek d a)"
  by (auto simp: positioned_def Let_def seek_ok_def intro!: inv_intro)

lemma waiting_seek [frame]:
  "waiting_first hv (seek_deadlines p a) = waiting_first hv a"
  "waiting_last hv (seek_deadlines p a) = waiting_last hv a"
  by (simp_all add: waiting_first_def waiting_last_def startup_first_def startup_last_def
      seek_deadlines_def)

lemma window_todo_flags:
  "aux_wf a \<Longrightarrow> 0 \<le> i \<Longrightarrow> list_all (in_flags a) (window_todo hv i k a)"
  by (auto simp: list_all_iff in_flags_def window_todo_def set_missing aux_wf_def
      dest!: in_set_takeD)

lemma play_pos_nonneg: "aux_wf a \<Longrightarrow> seek_ok seek \<Longrightarrow> 0 \<le> play_pos seek a"
  by (auto simp: play_pos_def seek_ok_def aux_wf_def)

lemma updateDeadlines_eq:
  assumes wf: "aux_wf a" and v: "hv_valid hv" and seek: "seek_ok seek"
    and d: "0 \<le> d" "d \<le> fileLastPiece a"
  shows "updateDeadlines hv d seek a =
    (marked (new_deadlines hv d seek a) (positioned seek d a),
     (if seek \<noteq> - 1 then [ClearPieceDeadlines] else []) @
       deadline_calls (pieceForUpdateDeadline a) (new_deadlines hv d seek a),
     Returned (- 1))"
proof -
  let ?p = "positioned seek d a"
  let ?a1 = "if seek \<noteq> - 1 then seek_deadlines seek a else a"
  have p: "?a1\<lparr>piecesDeadlines := (piecesDeadlines ?a1)[nat d := CHR ''f'']\<rparr> = ?p"
    by (simp add: positioned_def Let_def)
  have pwf: "aux_wf ?p" using wf seek by (rule inv_intro)
  have pos: "0 \<le> fileFirstPieceForDeadlines ?p" using pwf by (simp add: aux_wf_def)
  have flag: "at_set (piecesDeadlines ?a1) d CHR ''f'' =
      Some ((piecesDeadlines ?a1)[nat d := CHR ''f''])"
    using wf d by (auto simp: at_set_def aux_wf_def seek_deadlines_def)
  have win: "set_window hv (fileFirstPieceForDeadlines ?p) PRIORITY_PIECES_COUNT_MIN ?p =
      (let todo = window_todo hv (play_pos seek a) PRIORITY_PIECES_COUNT_MIN ?p
       in (marked todo ?p, deadline_calls (pieceForUpdateDeadline a) todo, Returned ()))"
    using set_window_eq [OF pos] mark_startup_eq [OF window_todo_flags [OF pwf pos]] pwf
    by (simp add: aux_wf_def Let_def positioned_pos [OF seek] frame)
  have wt: "waiting_first hv ?a1 = waiting_first hv a" "waiting_last hv ?a1 = waiting_last hv a"
    by (simp_all add: frame)
  have pair: "(if seek \<noteq> - 1 then (seek_deadlines seek a, [ClearPieceDeadlines]) else (a, [])) =
      (?a1, if seek \<noteq> - 1 then [ClearPieceDeadlines] else [])" by simp
  show ?thesis
    unfolding updateDeadlines_def pair Let_def prod.case flag option.case p wt win
    using v by (simp add: new_deadlines_def startup_done_def Let_def)
qed

lemma flags_after:
  assumes "aux_wf a" "list_all (in_flags a) js" "0 \<le> j" "j \<le> fileLastPiece a"
  shows "piecesDeadlines (marked js a) ! nat j =
    (if j \<in> set js then CHR ''t'' else piecesDeadlines a ! nat j)"
  using flag_all_nth [of j "piecesDeadlines a" js] assms
  by (auto simp: frame aux_wf_def in_flags_def list_all_iff)

text \<open>The flags are only ever \<open>f\<close> and \<open>t\<close>.\<close>

definition flags_ok :: "tAux \<Rightarrow> bool" where
  "flags_ok a \<longleftrightarrow> set (piecesDeadlines a) \<subseteq> {CHR ''f'', CHR ''t''}"

lemma flags_ok_positioned [inv_intro]: "flags_ok a \<Longrightarrow> flags_ok (positioned seek d a)"
  using set_update_subset_insert [of "piecesDeadlines a" "nat d" "CHR ''f''"]
    set_update_subset_insert [of "replicate (length (piecesDeadlines a)) CHR ''f''" "nat d" "CHR ''f''"]
  by (auto simp: flags_ok_def positioned_def seek_deadlines_def Let_def split: if_splits)

lemma window_covers:
  assumes wf: "aux_wf a" and ok: "flags_ok a" and i: "0 \<le> i"
    and j: "j \<in> set (take k (missing hv i (fileLastPiece a)))"
  shows "piecesDeadlines (marked (window_todo hv i k a) a) ! nat j = CHR ''t''"
proof -
  have r: "0 \<le> j" "j \<le> fileLastPiece a"
    using in_set_takeD [OF j] i by (auto simp: set_missing)
  then have "nat j < length (piecesDeadlines a)" using wf by (auto simp: aux_wf_def)
  then have "piecesDeadlines a ! nat j \<in> {CHR ''f'', CHR ''t''}"
    using ok nth_mem by (auto simp: flags_ok_def)
  then show ?thesis
    unfolding flags_after [OF wf window_todo_flags [OF wf i] r] using j
    by (auto simp: window_todo_def)
qed

text \<open>
  C14: a call of \<^verbatim>\<open>updateDeadlines\<close> on a valid handle returns \<open>-1\<close>, keeps the invariant and leaves
  the window in front of the position: once the startup pieces are there, each of the first five
  missing pieces from the position (the target of the seek, if there was one) has its deadline.
\<close>

theorem updateDeadlines_window:
  assumes "aux_wf a" "flags_ok a" "hv_valid hv" "seek_ok seek" "0 \<le> d" "d \<le> fileLastPiece a"
  shows "\<exists>a' calls. updateDeadlines hv d seek a = (a', calls, Returned (- 1)) \<and> aux_wf a' \<and>
    fileFirstPieceForDeadlines a' = play_pos seek a \<and>
    (startup_done hv a \<longrightarrow>
      list_all (\<lambda>j. piecesDeadlines a' ! nat j = CHR ''t'')
        (take 5 (missing hv (play_pos seek a) (fileLastPiece a))))"
proof -
  let ?p = "positioned seek d a"
  have p: "aux_wf ?p" "flags_ok ?p" using assms by (auto intro: inv_intro)
  have pos: "0 \<le> play_pos seek a" using assms(1,4) by (rule play_pos_nonneg)
  show ?thesis
    unfolding updateDeadlines_eq [OF assms(1,3-6)]
    using p window_covers [OF p pos] aux_wf_marked [OF p(1)]
    by (auto simp: frame positioned_pos [OF assms(4)] new_deadlines_def list_all_iff
        PRIORITY_PIECES_COUNT_MIN_def)
qed

lemma updateDeadlines_window_witness:
  "\<exists>a' calls. updateDeadlines demo_hv 6 12 demo_aux = (a', calls, Returned (- 1)) \<and> aux_wf a' \<and>
     list_all (\<lambda>j. piecesDeadlines a' ! nat j = CHR ''t'') [12, 13, 14]"
proof -
  have "flags_ok demo_aux" "startup_done demo_hv demo_aux" "seek_ok 12" "hv_valid demo_hv"
    "take 5 (missing demo_hv (play_pos 12 demo_aux) (fileLastPiece demo_aux)) = [12, 13, 14]"
    by code_simp+
  then show ?thesis
    using updateDeadlines_window [of demo_aux demo_hv 12 6] demo_aux_wf by auto
qed

lemma positioned_flag:
  "piecesDeadlines (positioned seek d a) ! nat j = CHR ''f'' \<Longrightarrow> 0 \<le> j \<Longrightarrow> 0 \<le> d \<Longrightarrow>
     j \<noteq> d \<Longrightarrow> seek = - 1 \<Longrightarrow> piecesDeadlines a ! nat j = CHR ''f''"
  by (auto simp: positioned_def nth_list_update Let_def nat_eq_iff)

text \<open>
  C15: the deadlines a call asks for. They are numbered on from the counter, at most five, for
  distinct pieces of the file at or after the position that are still missing and had no deadline.
\<close>

theorem updateDeadlines_calls:
  assumes "aux_wf a" "hv_valid hv" "seek_ok seek" "0 \<le> d" "d \<le> fileLastPiece a"
  shows "\<exists>todo. fst (snd (updateDeadlines hv d seek a)) =
      (if seek \<noteq> - 1 then [ClearPieceDeadlines] else []) @
        deadline_calls (pieceForUpdateDeadline a) todo \<and>
    length todo \<le> 5 \<and> distinct todo \<and>
    list_all (\<lambda>j. play_pos seek a \<le> j \<and> j < fileLastPiece a \<and> \<not> hv_have hv j \<and>
      (j = d \<or> seek \<noteq> - 1 \<or> piecesDeadlines a ! nat j = CHR ''f'')) todo"
proof (intro exI conjI)
  let ?todo = "new_deadlines hv d seek a"
  have pos: "0 \<le> play_pos seek a" using assms(1,3) by (rule play_pos_nonneg)
  show "fst (snd (updateDeadlines hv d seek a)) =
      (if seek \<noteq> - 1 then [ClearPieceDeadlines] else []) @
        deadline_calls (pieceForUpdateDeadline a) ?todo"
    by (simp add: updateDeadlines_eq [OF assms])
  have "length (filter P (take k xs)) \<le> k" for P k and xs :: "int list"
    using length_filter_le [of P "take k xs"] by simp
  then show "length ?todo \<le> 5"
    by (simp add: new_deadlines_def window_todo_def PRIORITY_PIECES_COUNT_MIN_def)
  show "distinct ?todo"
    by (simp add: new_deadlines_def window_todo_def missing_def)
  show "list_all (\<lambda>j. play_pos seek a \<le> j \<and> j < fileLastPiece a \<and> \<not> hv_have hv j \<and>
      (j = d \<or> seek \<noteq> - 1 \<or> piecesDeadlines a ! nat j = CHR ''f'')) ?todo"
    unfolding list_all_iff
  proof
    fix j assume "j \<in> set ?todo"
    then have j: "play_pos seek a \<le> j" "j < fileLastPiece a" "\<not> hv_have hv j"
      "piecesDeadlines (positioned seek d a) ! nat j = CHR ''f''"
      by (auto simp: new_deadlines_def window_todo_def set_missing frame
          dest!: in_set_takeD split: if_splits)
    with pos have "0 \<le> j" by simp
    with j positioned_flag [OF j(4)] assms(4)
    show "play_pos seek a \<le> j \<and> j < fileLastPiece a \<and> \<not> hv_have hv j \<and>
        (j = d \<or> seek \<noteq> - 1 \<or> piecesDeadlines a ! nat j = CHR ''f'')" by blast
  qed
qed

lemma updateDeadlines_calls_witness:
  "\<exists>todo. fst (snd (updateDeadlines demo_hv 6 (- 1) demo_aux)) = deadline_calls 11 todo \<and>
     length todo \<le> 5 \<and> distinct todo"
proof -
  have "seek_ok (- 1)" "hv_valid demo_hv" "pieceForUpdateDeadline demo_aux = 11" by code_simp+
  then show ?thesis
    using updateDeadlines_calls [of demo_aux demo_hv "- 1" 6] demo_aux_wf by auto
qed

text \<open>
  A valid handle makes \<^verbatim>\<open>updateDeadlines\<close> throw exactly when the finished piece is not one of
  the pieces up to the file's last one (an alert for a piece behind the streamed file).
\<close>

theorem updateDeadlines_throws_iff:
  assumes "aux_wf a" "hv_valid hv" "seek_ok seek"
  shows "snd (snd (updateDeadlines hv d seek a)) =
    (if 0 \<le> d \<and> d \<le> fileLastPiece a then Returned (- 1) else Threw OutOfRange)"
proof (cases "0 \<le> d \<and> d \<le> fileLastPiece a")
  case True
  then show ?thesis using updateDeadlines_eq [OF assms, of d] by simp
next
  case False
  then have "at_set (piecesDeadlines a) d CHR ''f'' = None"
    "at_set (piecesDeadlines (seek_deadlines seek a)) d CHR ''f'' = None"
    using assms(1) by (auto simp: at_set_def aux_wf_def seek_deadlines_def)
  with False assms(2) show ?thesis by (auto simp: updateDeadlines_def Let_def)
qed

lemma updateDeadlines_throws_iff_witness:
  "snd (snd (updateDeadlines demo_hv 19 (- 1) demo_aux)) = Threw OutOfRange \<and>
   snd (snd (updateDeadlines demo_hv 18 (- 1) demo_aux)) = Returned (- 1)"
proof -
  have "seek_ok (- 1)" "hv_valid demo_hv" by code_simp+
  then show ?thesis
    using updateDeadlines_throws_iff [of demo_aux demo_hv "- 1"] demo_aux_wf by auto
qed

text \<open>
  A seek while startup pieces are still missing takes the deadline from every piece, those
  of the startup included, and sets none: the startup pieces wait without a deadline.
\<close>

theorem seek_during_startup:
  assumes "aux_wf a" "hv_valid hv" "seek_ok seek" "seek \<noteq> - 1" "0 \<le> d" "d \<le> fileLastPiece a"
    and "\<not> startup_done hv a"
  shows "\<exists>a'. updateDeadlines hv d seek a = (a', [ClearPieceDeadlines], Returned (- 1)) \<and>
    list_all (\<lambda>c. c = CHR ''f'') (piecesDeadlines a')"
proof -
  have "set ((replicate n CHR ''f'')[k := CHR ''f'']) \<subseteq> {CHR ''f''}" for n k
    using set_update_subset_insert [of "replicate n CHR ''f''" k "CHR ''f''"] by auto
  then show ?thesis
    unfolding updateDeadlines_eq [OF assms(1-3,5,6)] using assms(4,7)
    by (auto simp: new_deadlines_def positioned_def seek_deadlines_def list_all_iff)
qed

lemma seek_during_startup_witness:
  "\<exists>a'. updateDeadlines (demo_hv\<lparr>hv_have := \<lambda>i. i = 6\<rparr>) 6 9 demo_aux =
      (a', [ClearPieceDeadlines], Returned (- 1)) \<and>
    list_all (\<lambda>c. c = CHR ''f'') (piecesDeadlines a')"
proof -
  let ?hv = "demo_hv\<lparr>hv_have := \<lambda>i. i = 6\<rparr>"
  have "seek_ok 9" "hv_valid ?hv" "\<not> startup_done ?hv demo_aux" by code_simp+
  then show ?thesis
    using seek_during_startup [of demo_aux ?hv 9 6] demo_aux_wf by auto
qed

subsection \<open>canGetUrl and isFinished\<close>

lemma all_bits_True_iff:
  "all_bits bf is = Some True \<longleftrightarrow> list_all (\<lambda>i. get_bit bf i = Some True) is"
  by (induction "is") (auto split: option.splits)

lemma canGetUrl_bits:
  "canGetUrl hv a = Some True \<longleftrightarrow> hv_valid hv \<and>
     list_all (\<lambda>i. get_bit (hv_pieces hv) i = Some True)
       ([fileFirstPiece a..fileFirstPiece a + startupPiecesCountAtStart a - 1] @
        [fileLastPiece a - startupPiecesCountAtEnd a + 1..fileLastPiece a])"
proof -
  have "canGetUrl hv a = Some True \<longleftrightarrow> hv_valid hv \<and>
      all_bits (hv_pieces hv)
        [fileFirstPiece a..fileFirstPiece a + startupPiecesCountAtStart a - 1] = Some True \<and>
      all_bits (hv_pieces hv)
        (rev [fileLastPiece a - startupPiecesCountAtEnd a + 1..fileLastPiece a]) = Some True"
    by (auto simp: canGetUrl_def split: option.splits if_splits)
  then show ?thesis by (auto simp: all_bits_True_iff list_all_iff)
qed

text \<open>
  A file gets its URL only when each of the startup pieces, all the first ones and all the
  last ones, is set in the piece bitfield of a valid handle.
\<close>

theorem canGetUrl_iff:
  "canGetUrl hv a = Some True \<longleftrightarrow>
     hv_valid hv \<and>
     list_all (\<lambda>i. get_bit (hv_pieces hv) i = Some True)
       ([fileFirstPiece a..fileFirstPiece a + startupPiecesCountAtStart a - 1] @
        [fileLastPiece a - startupPiecesCountAtEnd a + 1..fileLastPiece a])"
  by (rule canGetUrl_bits)

text \<open>
  The padding bits of a bitfield are clear, as \<^verbatim>\<open>clear_trailing_bits\<close> leaves them.
\<close>

definition bits_clear_beyond :: "bitfield \<Rightarrow> bool" where
  "bits_clear_beyond bf \<longleftrightarrow>
     list_all (\<lambda>i. get_bit bf i \<noteq> Some True) [m_size bf..m_size bf + 7] \<and>
     int (length (m_bytes bf)) = (m_size bf + 7) div 8"

lemma get_bit_beyond:
  assumes "bits_clear_beyond bf" "m_size bf \<le> i"
  shows "get_bit bf i \<noteq> Some True"
proof (cases "i \<le> m_size bf + 7")
  case True
  then show ?thesis using assms by (simp add: bits_clear_beyond_def list_all_iff)
next
  case False
  then have "(m_size bf + 7) div 8 \<le> i div 8" by (intro zdiv_mono1) auto
  then have "int (length (m_bytes bf)) \<le> i div 8"
    using assms by (simp add: bits_clear_beyond_def)
  then show ?thesis by (auto simp: get_bit_def)
qed

text \<open>
  \<^verbatim>\<open>canGetUrl\<close> asks for at least five pieces from the file's first one whatever the length of
  the file. When the torrent ends before them, a file of fewer than five pieces at its end, the
  file never gets a URL, however much of it is downloaded.
\<close>

theorem short_file_never_playable:
  assumes "bits_clear_beyond (hv_pieces hv)" "aux_wf a"
    and "m_size (hv_pieces hv) < fileFirstPiece a + MIN_STARTUP_PIECES_START"
  shows "canGetUrl hv a \<noteq> Some True"
proof
  let ?i = "fileFirstPiece a + startupPiecesCountAtStart a - 1"
  assume "canGetUrl hv a = Some True"
  then have "get_bit (hv_pieces hv) ?i = Some True"
    using assms(2)
    by (auto simp: canGetUrl_bits list_all_iff aux_wf_def MIN_STARTUP_PIECES_START_def)
  moreover have "m_size (hv_pieces hv) \<le> ?i" using assms(2,3) by (simp add: aux_wf_def)
  ultimately show False using get_bit_beyond [OF assms(1)] by simp
qed

definition demo_short :: file_storage where
  "demo_short = add_file \<lparr>fe_path = ''clip.mp4'', fe_offset = 0, fe_size = 40000, fe_pad = False\<rparr>
     \<lparr>m_files = [], m_total_size = 0, m_num_pieces = 3, m_piece_length = 16384\<rparr>"

lemma short_file_never_playable_witness:
  "let hv = demo_hv\<lparr>hv_have := \<lambda>i. True, hv_pieces := \<lparr>m_bytes = [0xe0], m_size = 3\<rparr>\<rparr>
   in isFinished hv (tAux_members 0 demo_short 0 40000) \<and>
      canGetUrl hv (tAux_members 0 demo_short 0 40000) \<noteq> Some True"
proof -
  let ?hv = "demo_hv\<lparr>hv_have := \<lambda>i. True, hv_pieces := \<lparr>m_bytes = [0xe0], m_size = 3\<rparr>\<rparr>"
  let ?e = "\<lparr>fe_path = ''clip.mp4'', fe_offset = 0, fe_size = 40000, fe_pad = False\<rparr>"
  have "fs_wf demo_short" "file_at demo_short 0 = Some ?e"
    by (simp_all add: demo_short_def add_file_def fs_wf_def file_at_def num_files_def INT_MAX_def)
  then have "aux_wf (tAux_members 0 demo_short 0 40000)"
    using ctor_members_wf(1) [of demo_short 0 ?e 0] by simp
  moreover have "bits_clear_beyond (hv_pieces ?hv)"
    "m_size (hv_pieces ?hv) <
       fileFirstPiece (tAux_members 0 demo_short 0 40000) + MIN_STARTUP_PIECES_START"
    "isFinished ?hv (tAux_members 0 demo_short 0 40000)"
    by code_simp+
  ultimately show ?thesis
    using short_file_never_playable [of ?hv "tAux_members 0 demo_short 0 40000"] by simp
qed

text \<open>
  \<^verbatim>\<open>isFinished\<close> never looks at the last piece of the file: its answer is the same with and
  without it.
\<close>

theorem isFinished_ignores_last:
  "isFinished (hv\<lparr>hv_have := (hv_have hv)(fileLastPiece a := b)\<rparr>) a = isFinished hv a"
  by (auto simp: isFinished_def list_all_iff)

end
