(* ===== verification/Streamer.thy ===== *)
theory Streamer
  imports StreamAux
begin

section \<open>lib/streamerok.cpp: the torrents being streamed\<close>

text \<open>
  The class \<^verbatim>\<open>Streamerok\<close>: the map from torrent numbers to \<^verbatim>\<open>tAux\<close>, the number counter and the
  pending seek. What the session and the handles report is the record \<open>world\<close>; the calls that
  change them are logged. An operation that dereferences a null pointer or overflows an \<^verbatim>\<open>int\<close> has
  no result (\<open>None\<close>). The hash map is an association list in its iteration order.
\<close>

record tstatus =
  ts_has_metadata :: bool
  ts_total_wanted_done :: int
  ts_download_payload_rate :: int
  ts_num_seeds :: int
  ts_num_peers :: int
  ts_num_pieces :: int

record world =
  w_hv :: "nat \<Rightarrow> hview"
  w_ts :: "nat \<Rightarrow> tstatus"
  w_ti :: "nat \<Rightarrow> file_storage"
  w_ti_valid :: "nat \<Rightarrow> bool"

datatype scall =
    HandleCall nat hcall
  | AddTorrent nat
  | RemoveTorrent nat bool
  | SetProxy bytes int bool

record streamer =
  nextId :: int
  tMap :: "(int \<times> tAux) list"
  needSeek :: int

definition streamer_init :: streamer where
  "streamer_init = \<lparr>nextId = 0, tMap = [], needSeek = - 1\<rparr>"

definition hv_of :: "world \<Rightarrow> tAux \<Rightarrow> hview" where
  "hv_of w a = w_hv w (ta_handle a)"

definition put_aux :: "int \<Rightarrow> tAux \<Rightarrow> streamer \<Rightarrow> streamer" where
  "put_aux k a st = st\<lparr>tMap := map (\<lambda>(k', x). (k', if k' = k then a else x)) (tMap st)\<rparr>"

definition erase_aux :: "int \<Rightarrow> streamer \<Rightarrow> streamer" where
  "erase_aux k st = st\<lparr>tMap := filter (\<lambda>(k', x). k' \<noteq> k) (tMap st)\<rparr>"

definition getNextId :: "streamer \<Rightarrow> int \<times> streamer" where
  "getNextId st =
     (let n = (if nextId st + 1 = INT_MAX then 0 else nextId st)
      in (n + 1, st\<lparr>nextId := n + 1\<rparr>))"

definition getAux :: "world \<Rightarrow> int \<Rightarrow> streamer \<Rightarrow> tAux option \<times> streamer" where
  "getAux w torrentId st =
     (case map_of (tMap st) torrentId of
        None \<Rightarrow> (None, st)
      | Some a \<Rightarrow> if hv_valid (hv_of w a) then (Some a, st) else (None, erase_aux torrentId st))"

subsection \<open>Seeking and asking for ranges\<close>

text \<open>The piece that the code computes for a byte of the file.\<close>

definition seek_piece :: "tAux \<Rightarrow> int \<Rightarrow> int" where
  "seek_piece a off = to_int32 (off sdiv pieceLength a) + fileVeryFirstPiece a"

definition seekInFile ::
    "world \<Rightarrow> int \<Rightarrow> int \<Rightarrow> streamer \<Rightarrow> (streamer \<times> scall list \<times> int outcome) option" where
  "seekInFile w off torrentId st =
     (case getAux w torrentId st of
        (None, st1) \<Rightarrow> None
      | (Some a, st1) \<Rightarrow>
          Some
            (if fileSize a < off then (st1, [], Returned (- 1))
             else
               (case updateDeadlines (hv_of w a) 0 (seek_piece a off) a of
                  (a', calls, Returned r) \<Rightarrow>
                    ((put_aux torrentId a' st1)\<lparr>needSeek := r\<rparr>,
                     map (HandleCall (ta_handle a)) calls, Returned 0)
                | (a', calls, Threw e) \<Rightarrow>
                    (put_aux torrentId a' st1, map (HandleCall (ta_handle a)) calls, Threw e))))"

definition isRangeDownloaded :: "world \<Rightarrow> int \<Rightarrow> int \<Rightarrow> int \<Rightarrow> streamer \<Rightarrow> bool option" where
  "isRangeDownloaded w firstByte lastByte torrentId st =
     (case fst (getAux w torrentId st) of
        None \<Rightarrow> None
      | Some a \<Rightarrow>
          Some
            (if fileSize a < firstByte \<or> fileSize a < lastByte then False
             else list_all (hv_have (hv_of w a)) [seek_piece a firstByte..seek_piece a lastByte]))"

subsection \<open>Adding a torrent\<close>

text \<open>
  The wait for metadata: poll \<open>k\<close> sees the time \<open>clock k\<close>, a valid handle or not, and whether it
  has metadata. The loop sleeps 500 ms between polls.
\<close>

partial_function (option) wait_metadata ::
    "(nat \<Rightarrow> int) \<Rightarrow> (nat \<Rightarrow> bool) \<Rightarrow> (nat \<Rightarrow> bool) \<Rightarrow> int \<Rightarrow> nat \<Rightarrow> nat option" where
  "wait_metadata clock valid meta timeout k =
     (if clock k < timeout \<and> valid k \<and> \<not> meta k
      then wait_metadata clock valid meta timeout (Suc k) else Some k)"

definition METADATA_TIMEOUT_S :: int where
  "METADATA_TIMEOUT_S = 120"

definition INT64_MAX :: int where
  "INT64_MAX = 9223372036854775807"

text \<open>The loop of \<^verbatim>\<open>getFileIndex\<close> over the files, from the \<open>i\<close>-th on.\<close>

fun pick_file :: "bytes \<Rightarrow> int \<Rightarrow> file_entry list \<Rightarrow> int \<Rightarrow> int \<Rightarrow> int" where
  "pick_file fileName i [] longestSize longestIndex = longestIndex"
| "pick_file fileName i (file # files) longestSize longestIndex =
     (if fe_pad file \<or> longestSize = INT64_MAX
      then pick_file fileName (i + 1) files longestSize longestIndex
      else
        (let (longestSize, longestIndex) =
               (if longestSize < fe_size file then (fe_size file, i)
                else (longestSize, longestIndex));
             (longestSize, longestIndex) =
               (if fileName \<noteq> [] \<and> contains_sub fileName (fe_path file)
                then (INT64_MAX, i) else (longestSize, longestIndex))
         in pick_file fileName (i + 1) files longestSize longestIndex))"

definition getFileIndex :: "world \<Rightarrow> nat \<Rightarrow> bytes \<Rightarrow> int \<times> scall list" where
  "getFileIndex w h fileName =
     (if \<not> hv_valid (w_hv w h) \<or> \<not> ts_has_metadata (w_ts w h) \<or> \<not> w_ti_valid w h then (- 1, [])
      else (pick_file fileName 0 (m_files (w_ti w h)) 0 (- 1),
            map (\<lambda>i. HandleCall h (FilePriority i 0)) [0..num_files (w_ti w h) - 1]))"

text \<open>\<^verbatim>\<open>deleteTorrent\<close>.\<close>

definition deleteTorrent ::
    "world \<Rightarrow> int \<Rightarrow> bool \<Rightarrow> streamer \<Rightarrow> streamer \<times> scall list \<times> bool" where
  "deleteTorrent w torrentId deleteCompleted st =
     (case map_of (tMap st) torrentId of
        None \<Rightarrow> (st, [], False)
      | Some a \<Rightarrow>
          (let hadTorrent = hv_valid (hv_of w a)
           in (erase_aux torrentId st,
               (if hadTorrent
                then [RemoveTorrent (ta_handle a) (deleteCompleted \<or> \<not> isFinished (hv_of w a) a)]
                else []),
               hadTorrent)))"

text \<open>
  \<^verbatim>\<open>addTorrent\<close>: \<open>added\<close> is the session's answer, the new handle or an error, and \<open>w\<close> what the
  handle reports once the wait is over.
\<close>

definition addTorrent ::
    "nat option \<Rightarrow> (nat \<Rightarrow> int) \<Rightarrow> (nat \<Rightarrow> bool) \<Rightarrow> (nat \<Rightarrow> bool) \<Rightarrow> world \<Rightarrow> bytes \<Rightarrow> streamer \<Rightarrow>
     (streamer \<times> scall list \<times> int outcome) option" where
  "addTorrent added clock valid meta w fileName st0 =
     (let (index, st) = getNextId st0
      in case added of
           None \<Rightarrow> Some (st, [], Returned (- 10))
         | Some h \<Rightarrow>
             (case wait_metadata clock valid meta (clock 0 + METADATA_TIMEOUT_S) 0 of
                None \<Rightarrow> None
              | Some k \<Rightarrow>
                  Some
                    (if \<not> hv_valid (w_hv w h) then (st, [AddTorrent h], Returned (- 11))
                     else if \<not> ts_has_metadata (w_ts w h)
                     then (st, [AddTorrent h, RemoveTorrent h False], Returned (- 12))
                     else
                       (let (longestIndex, calls) = getFileIndex w h fileName
                        in if longestIndex < 0 then
                             (let (st', calls', b) = deleteTorrent w index True st
                              in (st', AddTorrent h # calls @ calls', Returned (- 9)))
                           else
                             (case file_at (w_ti w h) longestIndex of
                                None \<Rightarrow>
                                  (let (st', calls', b) = deleteTorrent w index True st
                                   in (st', AddTorrent h # calls @ calls', Returned (- 9)))
                              | Some file \<Rightarrow>
                                  (case tAux_ctor h (w_ti w h) longestIndex (fe_size file) of
                                     (a, hcalls, Threw e) \<Rightarrow>
                                       (st, AddTorrent h # calls @ map (HandleCall h) hcalls, Threw e)
                                   | (a, hcalls, Returned u) \<Rightarrow>
                                       (st\<lparr>tMap := (if map_of (tMap st) index = None
                                                    then (index, a) # tMap st else tMap st)\<rparr>,
                                        AddTorrent h # calls @ map (HandleCall h) hcalls,
                                        Returned index)))))))"

subsection \<open>Starting a download\<close>

datatype ('m, 'i) add_params = ByUrl bytes | ByMagnet 'm | ByInfo 'i

text \<open>
  \<^verbatim>\<open>downloadTorrent\<close> and \<^verbatim>\<open>importTorrent\<close> up to their call of \<^verbatim>\<open>addTorrent\<close>: an error number, or
  that call's arguments. The parsers of magnet links and torrent files are the library's.
\<close>

definition downloadTorrent ::
    "(bytes \<Rightarrow> 'm option) \<Rightarrow> bytes option \<Rightarrow> bytes option \<Rightarrow> int + (('m, 'i) add_params \<times> bytes)" where
  "downloadTorrent parse_magnet url fileName =
     (case url of
        None \<Rightarrow> Inl (- 8)
      | Some uri \<Rightarrow>
          (let name = (case fileName of None \<Rightarrow> [] | Some n \<Rightarrow> n)
           in if \<not> contains_sub ''magnet:'' uri then Inr (ByUrl uri, name)
              else case parse_magnet uri of
                     None \<Rightarrow> Inl (- 8)
                   | Some p \<Rightarrow> Inr (ByMagnet p, name)))"

definition importTorrent ::
    "(bytes \<Rightarrow> 'i option) \<Rightarrow> bytes option \<Rightarrow> int \<Rightarrow> bytes option \<Rightarrow> int + (('m, 'i) add_params \<times> bytes)" where
  "importTorrent parse_info torrentBody bodyLength fileName =
     (case torrentBody of
        None \<Rightarrow> Inl (- 1)
      | Some body \<Rightarrow>
          if bodyLength = 0 then Inl (- 1)
          else case parse_info (take (nat bodyLength) body) of
                 None \<Rightarrow> Inl (- 8)
               | Some t \<Rightarrow> Inr (ByInfo t, case fileName of None \<Rightarrow> [] | Some n \<Rightarrow> n))"

text \<open>
  \<^verbatim>\<open>setProxy\<close>: the session calls and the length of the host and port, 0 when the proxy is switched
  off. A user without a password dereferences a null pointer.
\<close>

definition null_or_empty :: "bytes option \<Rightarrow> bool" where
  "null_or_empty s \<longleftrightarrow> (case s of None \<Rightarrow> True | Some t \<Rightarrow> t = [])"

datatype proxy_type = ProxyNone | Socks5 | Socks5Pw

record proxy_settings =
  ps_type :: proxy_type
  ps_hostname :: bytes
  ps_port :: int
  ps_username :: bytes
  ps_password :: bytes

definition setProxy ::
    "bytes option \<Rightarrow> int \<Rightarrow> bytes option \<Rightarrow> bytes option \<Rightarrow> (proxy_settings \<times> bool \<times> int) option" where
  "setProxy host port user pass =
     (let off = \<lparr>ps_type = ProxyNone, ps_hostname = [], ps_port = 0, ps_username = [], ps_password = []\<rparr>
      in if null_or_empty host \<or> port < 1 then Some (off, False, 0)
         else
           (let on = off\<lparr>ps_hostname := the host, ps_port := port\<rparr>;
                n = int (length (the host @ '':'' @ int_str port))
            in if null_or_empty user then Some (on\<lparr>ps_type := Socks5\<rparr>, True, n)
               else case pass of
                      None \<Rightarrow> None
                    | Some pw \<Rightarrow>
                        Some (on\<lparr>ps_type := Socks5Pw, ps_username := the user, ps_password := pw\<rparr>,
                              True, n)))"

subsection \<open>Progress\<close>

text \<open>\<^verbatim>\<open>countPieces\<close> counts the set bits from \<open>first\<close> up to the first clear one.\<close>

function countPieces :: "bitfield \<Rightarrow> int \<Rightarrow> int \<Rightarrow> int option" where
  "countPieces pieces first lst =
     (if first \<le> lst then
        case get_bit pieces first of
          None \<Rightarrow> None
        | Some b \<Rightarrow> if b then map_option (\<lambda>n. n + 1) (countPieces pieces (first + 1) lst) else Some 0
      else Some 0)"
  by pat_completeness auto
termination
  by (relation "measure (\<lambda>(p, f, l). nat (l - f + 1))") auto

declare countPieces.simps [simp del]

record dlInfo =
  downloadRateBs :: int
  downloaded :: int
  total :: int
  piecesDone :: int
  piecesTotal :: int
  pieceSize :: int
  seeders :: int
  peers :: int
  piecesStartup :: int
  piecesStartupAtEnd :: int
  piecesStartupDone :: int

text \<open>The constructor of \<^verbatim>\<open>dlInfoExt\<close>: the three start-up members keep what the memory held.\<close>

definition dlInfoExt :: "dlInfo \<Rightarrow> dlInfo" where
  "dlInfoExt raw = raw\<lparr>downloadRateBs := 0, downloaded := 0, total := 0, piecesDone := 0,
     piecesTotal := 0, pieceSize := 0, seeders := 0, peers := 0\<rparr>"

definition file_progress :: "world \<Rightarrow> tAux \<Rightarrow> int \<Rightarrow> int option" where
  "file_progress w a pl =
     (if fileSize a = ts_total_wanted_done (w_ts w (ta_handle a)) then Some (fileSize a)
      else Option.bind (countPieces (hv_pieces (hv_of w a)) (fileFirstPiece a) (fileLastPiece a))
             (\<lambda>n. mul32 n pl))"

definition getTorrentInfo ::
    "world \<Rightarrow> dlInfo \<Rightarrow> int \<Rightarrow> streamer \<Rightarrow> (streamer \<times> dlInfo) option" where
  "getTorrentInfo w raw torrentId st =
     (case getAux w torrentId st of
        (None, st1) \<Rightarrow> Some (st1, dlInfoExt raw)
      | (Some a, st1) \<Rightarrow>
          (let ts = w_ts w (ta_handle a);
               pieces = hv_pieces (hv_of w a);
               pl = m_piece_length (w_ti w (ta_handle a))
           in case (file_progress w a pl,
                    countPieces pieces (fileFirstPiece a)
                      (fileFirstPiece a + startupPiecesCountAtStart a),
                    countPieces pieces (fileLastPiece a - startupPiecesCountAtEnd a)
                      (fileLastPiece a)) of
                (Some d, Some s, Some e) \<Rightarrow>
                  Some (st1, (dlInfoExt raw)\<lparr>total := fileSize a,
                     downloadRateBs := ts_download_payload_rate ts,
                     seeders := ts_num_seeds ts, peers := ts_num_peers ts,
                     piecesDone := ts_num_pieces ts,
                     piecesStartup := startupPiecesCountAtStart a + startupPiecesCountAtEnd a,
                     piecesTotal := fileLastPiece a - fileFirstPiece a + 1, pieceSize := pl,
                     downloaded := d, piecesStartupAtEnd := startupPiecesCountAtEnd a,
                     piecesStartupDone := s + e\<rparr>)
              | _ \<Rightarrow> None))"

definition getFileSize :: "world \<Rightarrow> int \<Rightarrow> streamer option \<Rightarrow> int" where
  "getFileSize w torrentId sPtr =
     (case sPtr of
        None \<Rightarrow> 0
      | Some st \<Rightarrow> (case fst (getAux w torrentId st) of None \<Rightarrow> 0 | Some a \<Rightarrow> fileSize a))"

definition getFileDownloaded :: "world \<Rightarrow> int \<Rightarrow> streamer option \<Rightarrow> int option" where
  "getFileDownloaded w torrentId sPtr =
     (case sPtr of
        None \<Rightarrow> Some 0
      | Some st \<Rightarrow>
          (case fst (getAux w torrentId st) of
             None \<Rightarrow> Some 0
           | Some a \<Rightarrow> file_progress w a (pieceLength a)))"

subsection \<open>The URL of a file\<close>

definition native_sep :: "bool \<Rightarrow> bytes" where
  "native_sep win = (if win then [CHR 0x5C] else ''/'')"

definition make_url :: "bool \<Rightarrow> bytes \<Rightarrow> bytes \<Rightarrow> tAux \<Rightarrow> tAux" where
  "make_url win dir path a =
     a\<lparr>filePath := (if win then replaceAll path (native_sep win) ''/'' else path),
       fileUri := CHR 0x22 # dir @ native_sep win @ path @ [CHR 0x22]\<rparr>"

definition getFileUrl ::
    "world \<Rightarrow> bool \<Rightarrow> (bytes \<Rightarrow> bool) \<Rightarrow> bytes \<Rightarrow> int \<Rightarrow> streamer \<Rightarrow> (streamer \<times> bytes) option" where
  "getFileUrl w win existsNotEmpty dir torrentId st =
     (case getAux w torrentId st of
        (None, st1) \<Rightarrow> Some (st1, [])
      | (Some a, st1) \<Rightarrow>
          if fileUri a \<noteq> [] then Some (st1, fileUri a)
          else
            (case canGetUrl (hv_of w a) a of
               None \<Rightarrow> None
             | Some False \<Rightarrow> Some (st1, [])
             | Some True \<Rightarrow>
                 (case file_at (w_ti w (ta_handle a)) (fileIndex a) of
                    None \<Rightarrow> None
                  | Some file \<Rightarrow>
                      Some
                        (if fe_path file = [] \<or> \<not> existsNotEmpty (dir @ native_sep win @ fe_path file)
                         then (st1, [])
                         else
                           (let a' = make_url win dir (fe_path file) a
                            in (put_aux torrentId a' st1, fileUri a'))))))"

text \<open>
  The overload that fills the caller's buffer: the buffer, when there is one, and the answer.
  \<open>path\<close> is what the other overload returned. A negative length is a huge one once unsigned.
\<close>

definition fill_url :: "bytes \<Rightarrow> bytes option \<Rightarrow> int \<Rightarrow> bytes option \<times> bool" where
  "fill_url path buffer len =
     (case buffer of
        None \<Rightarrow> (None, False)
      | Some buf \<Rightarrow>
          if len = 0 then (Some buf, False)
          else
            (let buf = memcpy_at buf 0 [CHR 0x00]
             in if path = [] \<or> len mod 2 ^ 32 \<le> int (length path) then (Some buf, False)
                else (Some (memcpy_at (memcpy_at buf (length path) [CHR 0x00]) 0 path), True)))"

definition strip_slash :: "bytes \<Rightarrow> bytes" where
  "strip_slash uri = (case uri of c # r \<Rightarrow> if c = CHR ''/'' then r else uri | [] \<Rightarrow> [])"

definition find_by_uri :: "bytes \<Rightarrow> streamer \<Rightarrow> (int \<times> tAux) option" where
  "find_by_uri uri st = find (\<lambda>(k, a). contains_sub (strip_slash uri) (filePath a)) (tMap st)"

definition getIndexByUriPath :: "bytes option \<Rightarrow> streamer \<Rightarrow> int" where
  "getIndexByUriPath uri st =
     (case uri of
        None \<Rightarrow> - 1
      | Some u \<Rightarrow>
          if u = [] then - 1
          else (case find_by_uri u st of None \<Rightarrow> - 2 | Some (k, a) \<Rightarrow> k))"

definition getAuxByUriPath :: "bytes option \<Rightarrow> streamer \<Rightarrow> tAux option" where
  "getAuxByUriPath uri st =
     (case uri of
        None \<Rightarrow> None
      | Some u \<Rightarrow> if u = [] then None else map_option snd (find_by_uri u st))"

definition getTorrentIndex :: "bytes option \<Rightarrow> streamer option \<Rightarrow> int" where
  "getTorrentIndex uri sPtr =
     (case sPtr of None \<Rightarrow> - 3 | Some st \<Rightarrow> getIndexByUriPath uri st)"

subsection \<open>Alerts\<close>

datatype alert =
    ReadPieceAlert nat int
  | PieceFinishedAlert
  | FileCompletedAlert
  | TorrentCheckedAlert
  | OtherAlert

definition handle_alert ::
    "world \<Rightarrow> alert \<Rightarrow> streamer \<Rightarrow> streamer \<times> scall list \<times> bool outcome" where
  "handle_alert w al st =
     (case al of
        ReadPieceAlert h piece \<Rightarrow>
          (case find (\<lambda>(k, a). ta_handle a = h) (tMap st) of
             None \<Rightarrow> (st, [], Returned True)
           | Some (k, a) \<Rightarrow>
               (case updateDeadlines (hv_of w a) piece (needSeek st) a of
                  (a', calls, Returned r) \<Rightarrow>
                    ((put_aux k a' st)\<lparr>needSeek := r\<rparr>, map (HandleCall h) calls, Returned True)
                | (a', calls, Threw e) \<Rightarrow>
                    (put_aux k a' st, map (HandleCall h) calls, Threw e)))
      | OtherAlert \<Rightarrow> (st, [], Returned False)
      | _ \<Rightarrow> (st, [], Returned True))"

text \<open>\<^verbatim>\<open>peridoicCallback\<close>: every alert is handled, an exception in one is dropped.\<close>

fun handle_alerts :: "world \<Rightarrow> alert list \<Rightarrow> streamer \<Rightarrow> streamer \<times> scall list" where
  "handle_alerts w [] st = (st, [])"
| "handle_alerts w (al # als) st =
     (let (st1, calls, r) = handle_alert w al st;
          (st2, calls2) = handle_alerts w als st1
      in (st2, calls @ calls2))"

definition peridoicCallback :: "world \<Rightarrow> alert list \<Rightarrow> streamer option \<Rightarrow> streamer option \<times> scall list" where
  "peridoicCallback w alerts sPtr =
     (case sPtr of
        None \<Rightarrow> (None, [])
      | Some st \<Rightarrow> (let (st', calls) = handle_alerts w alerts st in (Some st', calls)))"

subsection \<open>The invariant of the torrent table\<close>

lemma set_window_frame:
  "set_window hv i k a = (a', calls, r) \<Longrightarrow> aux_wf a \<Longrightarrow> flags_ok a \<Longrightarrow> aux_wf a' \<and> flags_ok a'"
proof (induction hv i k a arbitrary: a' calls r rule: set_window.induct)
  case (1 hv i k a)
  have upd: "aux_wf (a\<lparr>pieceForUpdateDeadline := n, piecesDeadlines := (piecesDeadlines a)[m := CHR ''t'']\<rparr>)"
    "flags_ok (a\<lparr>pieceForUpdateDeadline := n, piecesDeadlines := (piecesDeadlines a)[m := CHR ''t'']\<rparr>)" for n m
    using 1(5,6) set_update_subset_insert [of "piecesDeadlines a" m "CHR ''t''"]
    by (auto simp: aux_wf_def flags_ok_def)
  show ?case
    using 1(4) 1(1-3) 1(5,6) upd
    by (subst (asm) set_window.simps) (auto split: if_splits option.splits prod.splits)
qed

lemma seek_deadlines_flags: "flags_ok (seek_deadlines p a)"
  by (auto simp: flags_ok_def seek_deadlines_def)

lemma updateDeadlines_inv:
  assumes up: "updateDeadlines hv d seek a = (a', calls, r)"
    and wf: "aux_wf a" "flags_ok a" "seek_ok seek"
  shows "aux_wf a' \<and> flags_ok a'"
proof (cases "hv_valid hv")
  case False
  with assms show ?thesis by (simp add: updateDeadlines_def)
next
  case v: True
  show ?thesis
  proof (cases "0 \<le> d \<and> d \<le> fileLastPiece a")
    case True
    let ?p = "positioned seek d a"
    let ?a1 = "if seek \<noteq> - 1 then seek_deadlines seek a else a"
    have "aux_wf ?p" "flags_ok ?p" using wf by (auto intro: inv_intro)
    moreover have "flags_ok ?p \<Longrightarrow> flags_ok (marked js ?p)" for js
    proof -
      have "set (flag_all js s) \<subseteq> insert CHR ''t'' (set s)" for s
        by (induction js arbitrary: s)
          (auto simp: flag_all_def dest!: subsetD [OF set_update_subset_insert] subsetD)
      then show "flags_ok ?p \<Longrightarrow> flags_ok (marked js ?p)"
        by (fastforce simp: flags_ok_def frame)
    qed
    ultimately show ?thesis
      using up updateDeadlines_eq [OF wf(1) v wf(3)] True aux_wf_marked by auto
  next
    case False
    then have "at_set (piecesDeadlines a) d CHR ''f'' = None"
      "at_set (piecesDeadlines (seek_deadlines seek a)) d CHR ''f'' = None"
      using wf(1) by (auto simp: at_set_def aux_wf_def seek_deadlines_def)
    then have "a' = (if seek \<noteq> - 1 then seek_deadlines seek a else a)"
      using up v by (auto simp: updateDeadlines_def Let_def split: if_splits)
    then show ?thesis
      using wf by (auto simp: seek_ok_def seek_deadlines_flags intro: inv_intro)
  qed
qed

lemma updateDeadlines_ret:
  assumes "updateDeadlines hv d seek a = (a', calls, Returned r)" "seek_ok seek" "aux_wf a"
  shows "r = - 1 \<or> (\<not> hv_valid hv \<and> r = seek)"
proof (cases "hv_valid hv")
  case False
  with assms show ?thesis by (simp add: updateDeadlines_def)
next
  case v: True
  then show ?thesis
    using assms by (auto simp: updateDeadlines_def Let_def
      split: if_splits option.splits prod.splits outcome.splits)
qed

definition streamer_wf :: "streamer \<Rightarrow> bool" where
  "streamer_wf st \<longleftrightarrow>
     0 \<le> nextId st \<and> nextId st < INT_MAX \<and> needSeek st = - 1 \<and> distinct (map fst (tMap st)) \<and>
     list_all (\<lambda>(k, a). 1 \<le> k \<and> k < INT_MAX \<and> aux_wf a \<and> flags_ok a) (tMap st)"

lemma put_aux_keys: "map fst (tMap (put_aux k a st)) = map fst (tMap st)"
  by (auto simp: put_aux_def)

lemma streamer_wf_put [inv_intro]:
  "streamer_wf st \<Longrightarrow> aux_wf a \<Longrightarrow> flags_ok a \<Longrightarrow> streamer_wf (put_aux k a st)"
  unfolding streamer_wf_def put_aux_keys
  by (auto simp: put_aux_def list_all_iff)

lemma streamer_wf_erase [inv_intro]: "streamer_wf st \<Longrightarrow> streamer_wf (erase_aux k st)"
  by (auto simp: streamer_wf_def erase_aux_def list_all_iff distinct_map inj_on_def
      dest!: distinct_filter)

lemma map_of_wf:
  "streamer_wf st \<Longrightarrow> map_of (tMap st) k = Some a \<Longrightarrow> aux_wf a \<and> flags_ok a"
  by (auto simp: streamer_wf_def list_all_iff dest!: map_of_SomeD)

lemma getAux_inv:
  assumes "getAux w k st = (r, st')" "streamer_wf st"
  shows "streamer_wf st'" "r = Some a \<Longrightarrow> aux_wf a \<and> flags_ok a \<and> hv_valid (hv_of w a) \<and> st' = st"
  using assms map_of_wf [of st k]
  by (auto simp: getAux_def intro: inv_intro split: option.splits if_splits)

lemma getNextId_wf:
  "streamer_wf st \<Longrightarrow> getNextId st = (n, st') \<Longrightarrow> streamer_wf st' \<and> 1 \<le> n \<and> n < INT_MAX \<and> tMap st' = tMap st"
  by (auto simp: getNextId_def streamer_wf_def INT_MAX_def Let_def split: if_splits)

lemma seek_piece_ok:
  assumes "aux_wf a" "0 \<le> off" "off \<le> fileSize a"
  shows "seek_ok (seek_piece a off)" "seek_piece a off = off div pieceLength a + fileFirstPiece a"
    "0 \<le> seek_piece a off"
proof -
  have pl: "0 < pieceLength a" using assms(1) by (simp add: aux_wf_def)
  have "off div pieceLength a \<le> (fileLastPiece a - fileFirstPiece a + 1) * pieceLength a div pieceLength a"
    using assms pl by (intro zdiv_mono1) (auto simp: aux_wf_def)
  then have le: "off div pieceLength a \<le> fileLastPiece a - fileFirstPiece a + 1" using pl by simp
  have ge: "0 \<le> off div pieceLength a" using assms pl by (simp add: pos_imp_zdiv_nonneg_iff)
  have "int32_ok (off div pieceLength a)"
    using le ge assms(1) by (simp add: int32_ok_def aux_wf_def INT_MAX_def)
  then show eq: "seek_piece a off = off div pieceLength a + fileFirstPiece a"
    using assms pl by (simp add: seek_piece_def to_int32_id sdiv_nonneg aux_wf_def)
  show "seek_ok (seek_piece a off)" "0 \<le> seek_piece a off"
    using le ge assms(1) unfolding eq by (auto simp: seek_ok_def aux_wf_def)
qed

lemma seekInFile_wf:
  assumes "seekInFile w off k st = Some (st', calls, r)" "streamer_wf st" "0 \<le> off"
  shows "streamer_wf st'"
proof -
  obtain a where a: "getAux w k st = (Some a, st)" and wf: "aux_wf a" "flags_ok a" "hv_valid (hv_of w a)"
    using assms getAux_inv [of w k st] by (auto simp: seekInFile_def split: prod.splits option.splits)
  show ?thesis
  proof (cases "fileSize a < off")
    case True
    then show ?thesis using assms a by (simp add: seekInFile_def)
  next
    case False
    then have ok: "seek_ok (seek_piece a off)" using seek_piece_ok(1) [OF wf(1)] assms(3) by simp
    obtain a' c r' where up: "updateDeadlines (hv_of w a) 0 (seek_piece a off) a = (a', c, r')"
      by (metis prod.exhaust)
    note inv = updateDeadlines_inv [OF up wf(1,2) ok]
    show ?thesis
    proof (cases r')
      case (Returned x)
      then have "x = - 1" using updateDeadlines_ret [of _ _ _ _ a' c x] up ok wf by blast
      then show ?thesis
        using assms a up False inv Returned streamer_wf_put [of st a' k]
        by (auto simp: seekInFile_def streamer_wf_def)
    next
      case (Threw e)
      then show ?thesis
        using assms a up False inv streamer_wf_put [of st a' k] by (auto simp: seekInFile_def)
    qed
  qed
qed

lemma find_wf: "streamer_wf st \<Longrightarrow> find P (tMap st) = Some (k, a) \<Longrightarrow> aux_wf a \<and> flags_ok a"
proof -
  assume st: "streamer_wf st" and f: "find P (tMap st) = Some (k, a)"
  have "(k, a) \<in> set (tMap st)" using f by (metis find_Some_iff nth_mem)
  then show "aux_wf a \<and> flags_ok a" using st by (auto simp: streamer_wf_def list_all_iff)
qed

lemma handle_alert_wf:
  assumes "handle_alert w al st = (st', calls, r)" "streamer_wf st"
  shows "streamer_wf st'"
proof (cases "\<exists>h p k a. al = ReadPieceAlert h p \<and> find (\<lambda>(k, a). ta_handle a = h) (tMap st) = Some (k, a)")
  case False
  then show ?thesis using assms by (auto simp: handle_alert_def split: alert.splits option.splits)
next
  case True
  then obtain h p k a where al: "al = ReadPieceAlert h p"
    and f: "find (\<lambda>(k, a). ta_handle a = h) (tMap st) = Some (k, a)" by auto
  have wf: "aux_wf a" "flags_ok a" using find_wf [OF assms(2) f] by auto
  have ok: "seek_ok (needSeek st)" and ns: "needSeek st = - 1"
    using assms(2) by (simp_all add: streamer_wf_def seek_ok_def)
  obtain a' c r' where up: "updateDeadlines (hv_of w a) p (needSeek st) a = (a', c, r')"
    by (metis prod.exhaust)
  note inv = updateDeadlines_inv [OF up wf ok]
  show ?thesis
  proof (cases r')
    case (Returned x)
    then have "x = - 1" using updateDeadlines_ret [of _ _ _ _ a' c x] up ok wf ns by blast
    then show ?thesis
      using assms al f up Returned inv streamer_wf_put [of st a' k]
      by (auto simp: handle_alert_def streamer_wf_def)
  next
    case (Threw e)
    then show ?thesis
      using assms al f up inv streamer_wf_put [of st a' k] by (auto simp: handle_alert_def)
  qed
qed


lemma deleteTorrent_wf:
  "deleteTorrent w k b st = (st', calls, r) \<Longrightarrow> streamer_wf st \<Longrightarrow> streamer_wf st'"
  by (auto simp: deleteTorrent_def Let_def intro: inv_intro split: option.splits)

lemma getFileUrl_wf:
  assumes "getFileUrl w win ex dir k st = Some (st', url)" "streamer_wf st"
  shows "streamer_wf st'"
proof -
  have wf: "aux_wf (make_url win dir p a)" "flags_ok (make_url win dir p a)"
    if "aux_wf a" "flags_ok a" for p a
    using that by (simp_all add: make_url_def aux_wf_def flags_ok_def)
  obtain r st1 where g: "getAux w k st = (r, st1)" by (metis prod.exhaust)
  have st1: "streamer_wf st1" using getAux_inv(1) [OF g assms(2)] .
  show ?thesis
  proof (cases r)
    case None
    then show ?thesis using assms g st1 by (simp add: getFileUrl_def)
  next
    case (Some a)
    then have "aux_wf a" "flags_ok a" using getAux_inv(2) [OF g assms(2)] by auto
    then show ?thesis
      using assms g st1 Some wf
      by (auto simp: getFileUrl_def Let_def intro!: streamer_wf_put
          split: if_splits option.splits bool.splits)
  qed
qed

text \<open>A step of the loop, on the pair of the longest size and its index.\<close>

definition pick_step :: "bytes \<Rightarrow> int \<Rightarrow> file_entry \<Rightarrow> int \<times> int \<Rightarrow> int \<times> int" where
  "pick_step name i f = (\<lambda>(ls, li).
     if fe_pad f \<or> ls = INT64_MAX then (ls, li)
     else if name \<noteq> [] \<and> contains_sub name (fe_path f) then (INT64_MAX, i)
     else if ls < fe_size f then (fe_size f, i) else (ls, li))"

lemma pick_file_step:
  "pick_file name i (f # fs) ls li =
     (case pick_step name i f (ls, li) of (ls', li') \<Rightarrow> pick_file name (i + 1) fs ls' li')"
  by (simp add: pick_step_def Let_def)

lemma pick_step_index: "snd (pick_step name i f (ls, li)) \<in> {li, i}"
  by (auto simp: pick_step_def)

lemma pick_file_range:
  "pick_file name i fs ls li = li \<or> (i \<le> pick_file name i fs ls li \<and> pick_file name i fs ls li < i + int (length fs))"
proof (induction fs arbitrary: i ls li)
  case (Cons f fs)
  obtain ls' li' where p: "pick_step name i f (ls, li) = (ls', li')" by (metis prod.exhaust)
  then have "li' = li \<or> li' = i" using pick_step_index [of name i f ls li] by auto
  then show ?case unfolding pick_file_step p prod.case using Cons.IH [of "i + 1" ls' li'] by auto
qed simp

lemma getFileIndex_file:
  assumes "getFileIndex w h name = (i, calls)" "\<not> i < 0"
  obtains e where "file_at (w_ti w h) i = Some e" "e \<in> set (m_files (w_ti w h))"
proof -
  have "i < num_files (w_ti w h)"
    using assms pick_file_range [of name 0 "m_files (w_ti w h)" 0 "- 1"]
    by (auto simp: getFileIndex_def num_files_def split: if_splits)
  then show ?thesis using assms(2) that by (auto simp: file_at_def num_files_def)
qed

lemma flags_ok_ctor:
  assumes "fs_wf ti" "file_at ti index = Some e" "0 < fe_size e"
    "tAux_ctor h ti index (fe_size e) = (a, calls, r)"
  shows "aux_wf a \<and> flags_ok a \<and> r = Returned ()"
proof -
  let ?m = "tAux_members h ti index (fe_size e)"
  note wf = ctor_members_wf(1) [OF assms(1-3), of h]
  have "set (flag_all js s) \<subseteq> insert CHR ''t'' (set s)" for js s
    by (induction js arbitrary: s)
      (auto simp: flag_all_def dest!: subsetD [OF set_update_subset_insert] subsetD)
  then have "flags_ok (ctor_result ?m)"
    using flags_ctor_members [of h ti index "fe_size e"]
    unfolding flags_ok_def frame by fastforce
  then show ?thesis using assms(4) wf aux_wf_ctor_result [OF wf] by (simp add: tAux_ctor_eq [OF wf])
qed

definition torrents_ok :: "nat option \<Rightarrow> world \<Rightarrow> bool" where
  "torrents_ok added w \<longleftrightarrow>
     (case added of None \<Rightarrow> True
      | Some h \<Rightarrow> fs_wf (w_ti w h) \<and> list_all (\<lambda>f. 0 < fe_size f) (m_files (w_ti w h)))"

lemma addTorrent_wf:
  assumes add: "addTorrent added clock valid meta w name st0 = Some (st', calls, r)"
    and wf: "streamer_wf st0" and ok: "torrents_ok added w"
  shows "streamer_wf st'"
proof -
  obtain n st where n: "getNextId st0 = (n, st)" by (metis prod.exhaust)
  note st = getNextId_wf [OF wf n]
  show ?thesis
  proof (cases "\<exists>h i c e. added = Some h \<and> getFileIndex w h name = (i, c) \<and> \<not> i < 0 \<and>
      file_at (w_ti w h) i = Some e")
    case False
    have del: "deleteTorrent w n True st = (s', c', b') \<Longrightarrow> streamer_wf s'" for s' c' b'
      using deleteTorrent_wf st by blast
    show ?thesis
      using add st False n del
      by (auto simp: addTorrent_def split: option.splits if_splits prod.splits outcome.splits)
  next
    case True
    then obtain h i c e where h: "added = Some h" "getFileIndex w h name = (i, c)" "\<not> i < 0"
      "file_at (w_ti w h) i = Some e" by auto
    have "e \<in> set (m_files (w_ti w h))" using getFileIndex_file [OF h(2,3)] h(4) by auto
    then have e: "0 < fe_size e" "fs_wf (w_ti w h)"
      using ok h(1) by (auto simp: torrents_ok_def list_all_iff)
    obtain a cs rr where ct: "tAux_ctor h (w_ti w h) i (fe_size e) = (a, cs, rr)" by (metis prod.exhaust)
    note a = flags_ok_ctor [OF e(2) h(4) e(1) ct]
    have "streamer_wf (st\<lparr>tMap := if map_of (tMap st) n = None then (n, a) # tMap st else tMap st\<rparr>)"
      using st a by (auto simp: streamer_wf_def map_of_eq_None_iff)
    then show ?thesis
      using add st n h ct a
      by (auto simp: addTorrent_def split: option.splits if_splits prod.splits)
  qed
qed

inductive streamer_step :: "streamer \<Rightarrow> streamer \<Rightarrow> bool" where
  add: "addTorrent added clock valid meta w name st = Some (st', calls, r) \<Longrightarrow>
     torrents_ok added w \<Longrightarrow> streamer_step st st'"
| delete: "deleteTorrent w k b st = (st', calls, r) \<Longrightarrow> streamer_step st st'"
| seek: "seekInFile w off k st = Some (st', calls, r) \<Longrightarrow> 0 \<le> off \<Longrightarrow> streamer_step st st'"
| alert: "handle_alert w al st = (st', calls, r) \<Longrightarrow> streamer_step st st'"
| url: "getFileUrl w win ex dir k st = Some (st', u) \<Longrightarrow> streamer_step st st'"
| look: "getAux w k st = (r, st') \<Longrightarrow> streamer_step st st'"

lemma streamer_step_wf: "streamer_step st st' \<Longrightarrow> streamer_wf st \<Longrightarrow> streamer_wf st'"
  by (induction rule: streamer_step.induct)
    (auto intro: addTorrent_wf deleteTorrent_wf seekInFile_wf handle_alert_wf getFileUrl_wf getAux_inv)

lemma streamer_init_wf: "streamer_wf streamer_init"
  by (simp add: streamer_wf_def streamer_init_def INT_MAX_def)

text \<open>
  C1: for additions of torrents whose files are laid out one after the other and none of which is empty, seeks to offsets
  that are not negative, and any deletions, alerts and queries, in any order from a new \<^verbatim>\<open>Streamerok\<close>, the torrent
  numbers stay distinct and positive, each entry keeps its invariant, and the pending seek is always \<open>-1\<close>:
  \<^verbatim>\<open>updateDeadlines\<close> consumes it at once. (An empty file that is chosen by its name would begin after its last piece.)
\<close>

theorem streamer_reachable:
  assumes "streamer_step\<^sup>*\<^sup>* streamer_init st"
  shows "streamer_wf st"
  using assms by (induction rule: rtranclp_induct) (auto intro: streamer_init_wf streamer_step_wf)

text \<open>A session that serves the example torrent, and the table after adding it.\<close>

definition demo_world :: world where
  "demo_world = \<lparr>w_hv = (\<lambda>h. demo_hv),
     w_ts = (\<lambda>h. \<lparr>ts_has_metadata = True, ts_total_wanted_done = 5, ts_download_payload_rate = 9,
                   ts_num_seeds = 1, ts_num_peers = 2, ts_num_pieces = 15\<rparr>),
     w_ti = (\<lambda>h. demo_ti), w_ti_valid = (\<lambda>h. True)\<rparr>"

definition demo_st :: streamer where
  "demo_st = \<lparr>nextId = 1, tMap = [(1, demo_aux)], needSeek = - 1\<rparr>"

lemma demo_wait:
  "wait_metadata (\<lambda>k. int k div 2) (\<lambda>k. True) (\<lambda>k. 3 \<le> k) (int 0 div 2 + METADATA_TIMEOUT_S) 0 = Some 3"
  by (simp add: wait_metadata.simps METADATA_TIMEOUT_S_def)

lemma demo_add:
  "map_option (\<lambda>(st, calls, r). (st, r))
     (addTorrent (Some 0) (\<lambda>k. int k div 2) (\<lambda>k. True) (\<lambda>k. 3 \<le> k) demo_world ''b.mkv'' streamer_init) =
   Some (demo_st, Returned 1)"
  unfolding addTorrent_def option.case demo_wait by code_simp

lemma streamer_reachable_witness: "streamer_wf demo_st"
proof -
  have "torrents_ok (Some 0) demo_world"
    using demo_ti_wf(1) by (simp add: torrents_ok_def demo_world_def) (simp add: demo_ti_def add_file_def)
  then have "streamer_step streamer_init demo_st"
    using demo_add by (auto intro: streamer_step.add)
  then show ?thesis by (intro streamer_reachable r_into_rtranclp)
qed

end
