(* ===== verification/StreamerSpec.thy ===== *)
theory StreamerSpec
  imports Streamer
begin

section \<open>lib/streamerok.cpp: what the streaming operations promise\<close>

text \<open>
  The specifications of the operations of \<open>Streamer\<close>: which pieces a byte range needs, the end of
  the metadata wait, the choice of the file, the outcomes of adding a torrent, the progress
  arithmetic, and the buffer that receives a URL.
\<close>

subsection \<open>The pieces of a range\<close>

definition aux_for :: "file_storage \<Rightarrow> int \<Rightarrow> file_entry \<Rightarrow> tAux \<Rightarrow> bool" where
  "aux_for ti i e a \<longleftrightarrow>
     fs_wf ti \<and> file_at ti i = Some e \<and> 0 < fe_size e \<and> aux_wf a \<and> fileSize a = fe_size e \<and>
     pieceLength a = m_piece_length ti \<and> fileFirstPiece a = byte_piece ti e 0"

lemma file_piece_shift:
  assumes "aux_for ti i e a" "0 \<le> b" "b \<le> fe_size e"
  shows "file_piece ti i b = seek_piece a b +
    (if m_piece_length ti \<le> fe_offset e mod m_piece_length ti + b mod m_piece_length ti then 1 else 0)"
proof -
  let ?l = "m_piece_length ti"
  have l: "0 < ?l" using assms(1) by (simp add: aux_for_def fs_wf_def)
  have sm: "(x + y) div ?l = (if ?l \<le> x + y then 1 else 0)"
    if "0 \<le> x" "x < ?l" "0 \<le> y" "y < ?l" for x y
    using that by (auto simp: div_pos_pos_trivial intro!: int_div_pos_eq [of _ _ _ "x + y - ?l"])
  have "(fe_offset e + b) div ?l = fe_offset e div ?l + b div ?l +
      (fe_offset e mod ?l + b mod ?l) div ?l"
    by (rule div_add1_eq)
  also have "(fe_offset e mod ?l + b mod ?l) div ?l = (if ?l \<le> fe_offset e mod ?l + b mod ?l then 1 else 0)"
    using l by (intro sm) simp_all
  finally show ?thesis
    using assms l seek_piece_ok(2) [of a b]
    by (simp add: file_piece_def byte_piece_def aux_for_def)
qed

lemma list_all_upto_image:
  "f ` {a..b} = {c..d} \<Longrightarrow> list_all P [c..d] = list_all (\<lambda>x. P (f x)) [a..b]"
  for f :: "int \<Rightarrow> int"
  unfolding list_all_iff set_upto by (metis (no_types, lifting) ball_simps(9))

text \<open>
  C12: when the file starts at a piece boundary, \<^verbatim>\<open>isRangeDownloaded\<close> is true exactly when the
  piece of every byte of the (inclusive) range is there.
\<close>

theorem range_downloaded_aligned:
  assumes "fst (getAux w k st) = Some a" "aux_for ti i e a" "fe_offset e mod m_piece_length ti = 0"
    and "0 \<le> f" "f \<le> l" "l < fe_size e"
  shows "isRangeDownloaded w f l k st =
    Some (list_all (\<lambda>b. hv_have (hv_of w a) (file_piece ti i b)) [f..l])"
proof -
  have "\<not> m_piece_length ti \<le> b mod m_piece_length ti" for b
    using assms(2) by (simp add: aux_for_def fs_wf_def not_le)
  then have "seek_piece a f = file_piece ti i f" "seek_piece a l = file_piece ti i l"
    using file_piece_shift [OF assms(2)] assms(3-6) by auto
  moreover have "fileSize a = fe_size e" using assms(2) by (simp add: aux_for_def)
  ultimately show ?thesis
    using assms list_all_upto_image [OF fp.range_pieces [OF assms(5)]]
    by (simp add: isRangeDownloaded_def)
qed

text \<open>
  When the file starts inside a piece, a range whose last byte lies beyond the computed
  piece is reported as downloaded while the piece of that byte is the one that is missing.
\<close>

theorem range_downloaded_unaligned:
  assumes "fst (getAux w k st) = Some a" "aux_for ti i e a"
    and "m_piece_length ti \<le> fe_offset e mod m_piece_length ti + l mod m_piece_length ti"
    and "0 \<le> f" "f \<le> l" "l < fe_size e"
    and "hv_have (hv_of w a) = (\<lambda>p. p \<noteq> file_piece ti i l)"
  shows "isRangeDownloaded w f l k st = Some True \<and> \<not> hv_have (hv_of w a) (file_piece ti i l)"
proof -
  have "fileSize a = fe_size e" using assms(2) by (simp add: aux_for_def)
  then show ?thesis
    using assms file_piece_shift [OF assms(2), of l]
    by (simp add: isRangeDownloaded_def list_all_iff)
qed

lemma aux_for_ctor:
  assumes "fs_wf ti" "file_at ti i = Some e" "0 < fe_size e"
  shows "aux_for ti i e (ctor_result (tAux_members h ti i (fe_size e)))"
  using ctor_members_wf [OF assms, of h] aux_wf_ctor_result assms
  by (simp add: aux_for_def frame)
    (simp add: ctor_result_def marked_def tAux_members_def Let_def)

lemma demo_aux_for: "aux_for demo_ti 1 demo_file demo_aux"
  using aux_for_ctor [OF demo_ti_wf, of 0] by (simp add: demo_aux_def demo_file_def)

definition late_file :: file_entry where
  "late_file = \<lparr>fe_path = ''d/b.mkv'', fe_offset = 65536, fe_size = 32768, fe_pad = False\<rparr>"

lemma range_downloaded_aligned_witness:
  "isRangeDownloaded demo_world 0 32767 1
     (demo_st\<lparr>tMap := [(1, ctor_result (tAux_members 0 demo_late 1 32768))]\<rparr>) =
   Some (list_all (\<lambda>b. hv_have demo_hv (file_piece demo_late 1 b)) [0..32767])"
proof -
  let ?a = "ctor_result (tAux_members 0 demo_late 1 32768)"
  let ?st = "demo_st\<lparr>tMap := [(1, ?a)]\<rparr>"
  have late: "fs_wf demo_late" "file_at demo_late 1 = Some late_file"
    by (simp_all add: demo_late_def late_file_def add_file_def fs_wf_def file_at_def num_files_def
        INT_MAX_def)
  have "aux_for demo_late 1 late_file ?a"
    using aux_for_ctor [OF late, of 0] by (simp add: late_file_def)
  moreover have "hv_of demo_world a = demo_hv" for a by (simp add: hv_of_def demo_world_def)
  moreover from this have "fst (getAux demo_world 1 ?st) = Some ?a"
    by (simp add: getAux_def demo_hv_def)
  moreover have "fe_offset late_file mod m_piece_length demo_late = 0" "32767 < fe_size late_file"
    by code_simp+
  ultimately show ?thesis
    using range_downloaded_aligned [of demo_world 1 ?st ?a demo_late 1 late_file 0 32767] by simp
qed

lemma range_downloaded_unaligned_witness:
  "let w = demo_world\<lparr>w_hv := \<lambda>h. demo_hv\<lparr>hv_have := \<lambda>p. p \<noteq> 7\<rparr>\<rparr>
   in isRangeDownloaded w 0 16000 1 demo_st = Some True \<and> file_piece demo_ti 1 16000 = 7"
proof -
  let ?w = "demo_world\<lparr>w_hv := \<lambda>h. demo_hv\<lparr>hv_have := \<lambda>p. p \<noteq> 7\<rparr>\<rparr>"
  have "hv_of ?w a = demo_hv\<lparr>hv_have := \<lambda>p. p \<noteq> 7\<rparr>" for a by (simp add: hv_of_def)
  moreover from this have "fst (getAux ?w 1 demo_st) = Some demo_aux"
    by (simp add: getAux_def demo_hv_def demo_st_def)
  moreover have "m_piece_length demo_ti \<le>
      fe_offset demo_file mod m_piece_length demo_ti + 16000 mod m_piece_length demo_ti"
    "16000 < fe_size demo_file" "file_piece demo_ti 1 16000 = 7"
    by code_simp+
  ultimately show ?thesis
    using range_downloaded_unaligned [of ?w 1 demo_st demo_aux demo_ti 1 demo_file 16000 0]
      demo_aux_for by simp
qed

subsection \<open>Waiting for metadata\<close>

lemma clock_grows:
  assumes "\<And>k. (clock :: nat \<Rightarrow> int) k + 1 \<le> clock (k + 2)"
  shows "clock 0 + int j \<le> clock (2 * j)"
proof (induction j)
  case (Suc j)
  then show ?case using assms [of "2 * j"] by simp
qed simp

lemma wait_metadata_from:
  assumes "timeout \<le> clock (k + n)"
  shows "\<exists>j. k \<le> j \<and> j \<le> k + n \<and> wait_metadata clock valid meta timeout k = Some j \<and>
    (timeout \<le> clock j \<or> \<not> valid j \<or> meta j) \<and> list_all (\<lambda>i. valid i \<and> \<not> meta i) [k..<j]"
  using assms
proof (induction n arbitrary: k)
  case 0
  then show ?case by (intro exI [of _ k]) (simp add: wait_metadata.simps)
next
  case (Suc n)
  show ?case
  proof (cases "clock k < timeout \<and> valid k \<and> \<not> meta k")
    case False
    then show ?thesis by (intro exI [of _ k]) (auto simp: wait_metadata.simps)
  next
    case True
    from Suc.IH [of "Suc k"] Suc.prems obtain j where j: "Suc k \<le> j" "j \<le> Suc k + n"
      "wait_metadata clock valid meta timeout (Suc k) = Some j"
      "timeout \<le> clock j \<or> \<not> valid j \<or> meta j" "list_all (\<lambda>i. valid i \<and> \<not> meta i) [Suc k..<j]"
      by auto
    then have "[k..<j] = k # [Suc k..<j]" by (simp add: upt_conv_Cons)
    with j True show ?thesis
      by (intro exI [of _ j]) (simp add: wait_metadata.simps [of clock valid meta timeout k])
  qed
qed

text \<open>
  C37: the wait for metadata ends. Two sleeps of 500 ms move the clock by a second or more, so it
  stops after at most 240 polls, at the first poll that finds metadata, an invalid handle or the
  time-out.
\<close>

theorem wait_metadata_ends:
  assumes "\<And>k. (clock :: nat \<Rightarrow> int) k + 1 \<le> clock (k + 2)"
  shows "\<exists>j. j \<le> 240 \<and> wait_metadata clock valid meta (clock 0 + METADATA_TIMEOUT_S) 0 = Some j \<and>
    (clock 0 + METADATA_TIMEOUT_S \<le> clock j \<or> \<not> valid j \<or> meta j) \<and>
    list_all (\<lambda>i. valid i \<and> \<not> meta i) [0..<j]"
  using wait_metadata_from [of "clock 0 + METADATA_TIMEOUT_S" clock 0 240 valid meta]
    clock_grows [of clock 120, OF assms]
  by (auto simp: METADATA_TIMEOUT_S_def)

lemma wait_metadata_ends_witness:
  "\<exists>j. j \<le> 240 \<and> wait_metadata (\<lambda>k. int k div 2) (\<lambda>k. True) (\<lambda>k. False) METADATA_TIMEOUT_S 0 = Some j \<and>
     METADATA_TIMEOUT_S \<le> int j div 2"
proof -
  have "int k div 2 + 1 \<le> int (k + 2) div 2" for k by simp
  then show ?thesis
    using wait_metadata_ends [of "\<lambda>k. int k div 2" "\<lambda>k. True" "\<lambda>k. False"] by auto
qed

subsection \<open>Choosing the file\<close>

declare pick_file.simps(2) [simp del]

definition file_match :: "bytes \<Rightarrow> file_entry \<Rightarrow> bool" where
  "file_match name f \<longleftrightarrow> \<not> fe_pad f \<and> name \<noteq> [] \<and> contains_sub name (fe_path f)"

text \<open>\<open>li\<close> is the index of the first longest file of the prefix, \<open>-1\<close> when all are empty.\<close>

definition longest_in :: "file_entry list \<Rightarrow> int \<Rightarrow> int \<Rightarrow> bool" where
  "longest_in pre ls li \<longleftrightarrow>
     list_all (\<lambda>f. fe_pad f \<or> fe_size f \<le> ls) pre \<and>
     (if li = - 1 then ls = 0
      else 0 \<le> li \<and> li < int (length pre) \<and> 0 < ls \<and> \<not> fe_pad (pre ! nat li) \<and>
        fe_size (pre ! nat li) = ls \<and>
        list_all (\<lambda>f. fe_pad f \<or> fe_size f < ls) (take (nat li) pre))"

lemma longest_in_step:
  assumes "longest_in pre ls li" "\<not> file_match name f" "ls < INT64_MAX" "fe_size f < INT64_MAX"
    and "pick_step name (int (length pre)) f (ls, li) = (ls', li')"
  shows "longest_in (pre @ [f]) ls' li' \<and> ls' < INT64_MAX"
proof (cases "fe_pad f \<or> fe_size f \<le> ls")
  case True
  then have "ls' = ls" "li' = li"
    using assms(2,5) by (auto simp: pick_step_def file_match_def split: if_splits)
  then show ?thesis
    using assms True by (auto simp: longest_in_def nth_append split: if_splits)
next
  case False
  then have e: "ls' = fe_size f" "li' = int (length pre)"
    using assms by (auto simp: pick_step_def file_match_def split: if_splits)
  have "0 \<le> ls" using assms(1) by (auto simp: longest_in_def split: if_splits)
  then show ?thesis
    using assms(1,4) False unfolding e
    by (auto simp: longest_in_def list_all_iff split: if_splits)
qed

lemma pick_file_longest:
  "longest_in pre ls li \<Longrightarrow> ls < INT64_MAX \<Longrightarrow> list_all (\<lambda>f. fe_size f < INT64_MAX) fs \<Longrightarrow>
     list_all (\<lambda>f. \<not> file_match name f) fs \<Longrightarrow>
     \<exists>ls'. longest_in (pre @ fs) ls' (pick_file name (int (length pre)) fs ls li) \<and> ls' < INT64_MAX"
proof (induction fs arbitrary: pre ls li)
  case (Cons f fs)
  obtain ls' li' where p: "pick_step name (int (length pre)) f (ls, li) = (ls', li')"
    by (metis prod.exhaust)
  have "longest_in (pre @ [f]) ls' li' \<and> ls' < INT64_MAX"
    using longest_in_step [OF _ _ _ _ p] Cons.prems by simp
  then show ?case
    using Cons.IH [of "pre @ [f]" ls' li'] Cons.prems
    by (simp add: pick_file_step p add.commute)
qed auto

lemma pick_file_stop: "pick_file name i fs INT64_MAX li = li"
  by (induction fs arbitrary: i) (simp_all add: pick_file_step pick_step_def)

lemma pick_file_match:
  "ls < INT64_MAX \<Longrightarrow> list_all (\<lambda>f. fe_size f < INT64_MAX) (pre @ [f]) \<Longrightarrow>
     list_all (\<lambda>f. \<not> file_match name f) pre \<Longrightarrow> file_match name f \<Longrightarrow>
     pick_file name i (pre @ f # post) ls li = i + int (length pre)"
proof (induction pre arbitrary: i ls li)
  case Nil
  then have "pick_step name i f (ls, li) = (INT64_MAX, i)"
    by (simp add: pick_step_def file_match_def)
  then show ?case by (simp add: pick_file_step pick_file_stop)
next
  case (Cons g pre)
  obtain ls' li' where p: "pick_step name i g (ls, li) = (ls', li')" by (metis prod.exhaust)
  then have "ls' < INT64_MAX"
    using Cons.prems by (auto simp: pick_step_def file_match_def split: if_splits)
  then show ?case using Cons.IH [of ls' "i + 1" li'] Cons.prems by (simp add: pick_file_step p)
qed

text \<open>
  C34: the file that is streamed. With a file name, it is the first file (padding apart) whose path
  contains it; when there is none, the first one of the greatest size, and none at all when every
  file is empty. All the files are switched off first.
\<close>

theorem getFileIndex_spec:
  assumes "hv_valid (w_hv w h)" "ts_has_metadata (w_ts w h)" "w_ti_valid w h"
    and "list_all (\<lambda>f. fe_size f < INT64_MAX) (m_files (w_ti w h))"
  shows "snd (getFileIndex w h name) =
      map (\<lambda>i. HandleCall h (FilePriority i 0)) [0..num_files (w_ti w h) - 1] \<and>
    (list_all (\<lambda>f. \<not> file_match name f) (m_files (w_ti w h)) \<longrightarrow>
      (\<exists>ls. longest_in (m_files (w_ti w h)) ls (fst (getFileIndex w h name)))) \<and>
    (\<forall>pre f post. m_files (w_ti w h) = pre @ f # post \<and> file_match name f \<and>
        list_all (\<lambda>f. \<not> file_match name f) pre \<longrightarrow>
      fst (getFileIndex w h name) = int (length pre))"
proof -
  have "longest_in [] 0 (- 1)" "0 < INT64_MAX" by (simp_all add: longest_in_def INT64_MAX_def)
  then show ?thesis
    using assms pick_file_longest [of "[]" 0 "- 1" "m_files (w_ti w h)" name]
      pick_file_match [of 0 _ _ name 0 _ "- 1"]
    by (auto simp: getFileIndex_def)
qed

lemma getFileIndex_spec_witness:
  "fst (getFileIndex demo_world 0 ''a.txt'') = 0 \<and>
   (\<exists>ls. longest_in (m_files demo_ti) ls (fst (getFileIndex demo_world 0 [])))"
proof -
  have h: "hv_valid (w_hv demo_world 0)" "ts_has_metadata (w_ts demo_world 0)" "w_ti_valid demo_world 0"
    "list_all (\<lambda>f. fe_size f < INT64_MAX) (m_files (w_ti demo_world 0))"
    "list_all (\<lambda>f. \<not> file_match [] f) (m_files (w_ti demo_world 0))"
    "m_files (w_ti demo_world 0) = [] @ \<lparr>fe_path = ''d/a.txt'', fe_offset = 0, fe_size = 100000,
       fe_pad = False\<rparr> # tl (m_files demo_ti)"
    "file_match ''a.txt'' \<lparr>fe_path = ''d/a.txt'', fe_offset = 0, fe_size = 100000, fe_pad = False\<rparr>"
    "w_ti demo_world 0 = demo_ti"
    by code_simp+
  show ?thesis
  proof
    have "fst (getFileIndex demo_world 0 ''a.txt'') = int (length ([] :: file_entry list))"
      using getFileIndex_spec [OF h(1-4), of "''a.txt''"] h(6,7) list.pred_inject(1) by blast
    then show "fst (getFileIndex demo_world 0 ''a.txt'') = 0" by simp
    show "\<exists>ls. longest_in (m_files demo_ti) ls (fst (getFileIndex demo_world 0 []))"
      using getFileIndex_spec [OF h(1-4), of "[]"] h(5,8) by simp
  qed
qed
subsection \<open>Outcomes of adding a torrent\<close>

lemma deleteTorrent_fresh:
  "map_of (tMap st) n = None \<Longrightarrow> deleteTorrent w n b st = (st, [], False)"
  by (simp add: deleteTorrent_def)

text \<open>
  C28: adding a torrent whose files are laid out one after the other and none of which is empty, to a table in which the next
  number is free, with a clock that advances at least a second in two polls, never throws and always returns: that
  number with a well-formed entry under it, or one of \<open>-9\<close> to \<open>-12\<close> with the table as it was.
\<close>

theorem addTorrent_outcome:
  assumes "streamer_wf st" "torrents_ok added w" "map_of (tMap st) (fst (getNextId st)) = None"
    and "\<And>k. (clock :: nat \<Rightarrow> int) k + 1 \<le> clock (k + 2)"
  shows "\<exists>st' calls r. addTorrent added clock valid meta w name st = Some (st', calls, Returned r) \<and>
    (if 0 < r then r = fst (getNextId st) \<and> map_of (tMap st') r \<noteq> None \<and>
         list_all aux_wf (map snd (tMap st')) \<and> remove1 r (map fst (tMap st')) = map fst (tMap st)
     else r \<in> {-12..-9} \<and> tMap st' = tMap st)"
proof -
  obtain n st1 where n: "getNextId st = (n, st1)" by (metis prod.exhaust)
  note st1 = getNextId_wf [OF assms(1) n]
  have fresh: "map_of (tMap st1) n = None" using assms(3) n st1 by simp
  obtain j where j: "wait_metadata clock valid meta (clock 0 + METADATA_TIMEOUT_S) 0 = Some j"
    using wait_metadata_from [of "clock 0 + METADATA_TIMEOUT_S" clock 0 240 valid meta]
      clock_grows [of clock 120, OF assms(4)] by (auto simp: METADATA_TIMEOUT_S_def)
  show ?thesis
  proof (cases "\<exists>h. added = Some h \<and> hv_valid (w_hv w h) \<and> ts_has_metadata (w_ts w h) \<and>
      0 \<le> fst (getFileIndex w h name)")
    case False
    have "\<exists>calls r. addTorrent added clock valid meta w name st = Some (st1, calls, Returned r) \<and>
        r \<in> {-12..-9}"
    proof (cases added)
      case None
      then show ?thesis using n by (simp add: addTorrent_def)
    next
      case (Some h)
      obtain i c where f: "getFileIndex w h name = (i, c)" by (metis prod.exhaust)
      consider "\<not> hv_valid (w_hv w h)" | "hv_valid (w_hv w h)" "\<not> ts_has_metadata (w_ts w h)"
        | "hv_valid (w_hv w h)" "ts_has_metadata (w_ts w h)" "i < 0"
        using False Some f by force
      then show ?thesis
        using n j Some f fresh by cases (simp_all add: addTorrent_def deleteTorrent_fresh)
    qed
    then obtain calls r where "addTorrent added clock valid meta w name st = Some (st1, calls, Returned r)"
      "r \<in> {-12..-9}" by blast
    then show ?thesis using st1 by auto
  next
    case True
    then obtain h i c where h: "added = Some h" "hv_valid (w_hv w h)" "ts_has_metadata (w_ts w h)"
      "getFileIndex w h name = (i, c)" "\<not> i < 0" by (metis fst_conv linorder_not_less prod.exhaust)
    obtain e where e: "file_at (w_ti w h) i = Some e" "e \<in> set (m_files (w_ti w h))"
      using getFileIndex_file [OF h(4,5)] .
    then have ok: "fs_wf (w_ti w h)" "0 < fe_size e"
      using assms(2) h(1) by (auto simp: torrents_ok_def list_all_iff)
    obtain a cs r where ct: "tAux_ctor h (w_ti w h) i (fe_size e) = (a, cs, r)" by (metis prod.exhaust)
    note a = flags_ok_ctor [OF ok(1) e(1) ok(2) ct]
    have "addTorrent added clock valid meta w name st =
      Some (st1\<lparr>tMap := (n, a) # tMap st1\<rparr>, AddTorrent h # c @ map (HandleCall h) cs, Returned n)"
      using n j h e(1) ct a fresh by (simp add: addTorrent_def)
    moreover have "list_all aux_wf (map snd (tMap st1))"
      using st1 by (auto simp: streamer_wf_def list_all_iff)
    ultimately show ?thesis using n st1 a by simp
  qed
qed

lemma addTorrent_outcome_witness:
  "\<exists>st' calls r. addTorrent (Some 0) (\<lambda>k. int k div 2) (\<lambda>k. True) (\<lambda>k. 3 \<le> k) demo_world ''b.mkv''
       streamer_init = Some (st', calls, Returned r) \<and> (0 < r \<longrightarrow> r = 1)"
proof -
  have "torrents_ok (Some 0) demo_world"
    using demo_ti_wf(1) by (simp add: torrents_ok_def demo_world_def) (simp add: demo_ti_def add_file_def)
  moreover have "map_of (tMap streamer_init) (fst (getNextId streamer_init)) = None"
    "fst (getNextId streamer_init) = 1" by code_simp+
  moreover have "int k div 2 + 1 \<le> int (k + 2) div 2" for k by simp
  ultimately show ?thesis
    using addTorrent_outcome [of streamer_init "Some 0" demo_world "\<lambda>k. int k div 2" "\<lambda>k. True"
        "\<lambda>k. 3 \<le> k" "''b.mkv''"] streamer_init_wf
    by fastforce
qed

text \<open>
  When no file of an added torrent can be selected, the number of the failed attempt is
  deleted although the table never held it: the call removes nothing, and the torrent stays in
  the session without a number.
\<close>

theorem addTorrent_no_file_leaks:
  assumes "hv_valid (w_hv w h)" "ts_has_metadata (w_ts w h)" "fst (getFileIndex w h name) < 0"
    and "map_of (tMap st) (fst (getNextId st)) = None"
    and "addTorrent (Some h) clock valid meta w name st = Some (st', calls, r)"
  shows "r = Returned (- 9) \<and> tMap st' = tMap st \<and> hd calls = AddTorrent h \<and>
    filter (\<lambda>c. case c of RemoveTorrent h b \<Rightarrow> True | _ \<Rightarrow> False) calls = []"
proof -
  obtain n st1 where n: "getNextId st = (n, st1)" by (metis prod.exhaust)
  then have st1: "tMap st1 = tMap st" by (auto simp: getNextId_def Let_def)
  have "\<forall>c \<in> set (snd (getFileIndex w h name)). \<exists>i. c = HandleCall h (FilePriority i 0)"
    by (auto simp: getFileIndex_def)
  then have "filter (\<lambda>c. case c of RemoveTorrent h b \<Rightarrow> True | _ \<Rightarrow> False)
      (snd (getFileIndex w h name)) = []"
    by (auto simp: filter_empty_conv)
  then show ?thesis
    using assms n st1
    by (auto simp: addTorrent_def deleteTorrent_fresh split: option.splits prod.splits)
qed

lemma addTorrent_no_file_leaks_witness:
  "let w = demo_world\<lparr>w_ti_valid := \<lambda>h. False\<rparr>
   in \<exists>st' calls r. addTorrent (Some 0) (\<lambda>k. int k div 2) (\<lambda>k. True) (\<lambda>k. 3 \<le> k) w [] streamer_init =
        Some (st', calls, r) \<and> r = Returned (- 9) \<and> hd calls = AddTorrent 0"
proof -
  let ?w = "demo_world\<lparr>w_ti_valid := \<lambda>h. False\<rparr>"
  have h: "hv_valid (w_hv ?w 0)" "ts_has_metadata (w_ts ?w 0)" "fst (getFileIndex ?w 0 []) < 0"
    "map_of (tMap streamer_init) (fst (getNextId streamer_init)) = None"
    by code_simp+
  obtain st' calls r where
    "addTorrent (Some 0) (\<lambda>k. int k div 2) (\<lambda>k. True) (\<lambda>k. 3 \<le> k) ?w [] streamer_init =
      Some (st', calls, r)"
    unfolding addTorrent_def option.case demo_wait by (metis (no_types, lifting) prod.exhaust case_prod_conv)
  with addTorrent_no_file_leaks [OF h this] show ?thesis by auto
qed

subsection \<open>Progress\<close>

lemma countPieces_all:
  "list_all (\<lambda>i. get_bit bf i = Some True) [f..l] \<Longrightarrow> countPieces bf f l = Some (max 0 (l - f + 1))"
proof (induction bf f l rule: countPieces.induct)
  case (1 bf f l)
  show ?case
  proof (cases "f \<le> l")
    case True
    then have "[f..l] = f # [f + 1..l]" by (rule upto_rec1)
    with 1 True show ?thesis by (simp add: countPieces.simps [of bf f l])
  qed (simp add: countPieces.simps [of bf f l])
qed

text \<open>
  The downloaded size is a product of two \<^verbatim>\<open>int\<close>s. Once the downloaded prefix of an unfinished
  file exceeds \<^verbatim>\<open>INT_MAX\<close> bytes, the product overflows and neither query has a defined result.
\<close>

theorem progress_overflow:
  assumes "getAux w k st = (Some a, st1)" "fileSize a \<noteq> ts_total_wanted_done (w_ts w (ta_handle a))"
    and "countPieces (hv_pieces (hv_of w a)) (fileFirstPiece a) (fileLastPiece a) = Some n"
    and "pieceLength a = m_piece_length (w_ti w (ta_handle a))"
    and "INT_MAX < n * pieceLength a"
  shows "getTorrentInfo w raw k st = None \<and> getFileDownloaded w k (Some st) = None"
proof -
  have "mul32 n (pieceLength a) = None"
    using assms(5) by (simp add: mul32_None_iff int32_ok_def INT_MAX_def)
  with assms(1-4) show ?thesis
    by (simp add: getTorrentInfo_def getFileDownloaded_def file_progress_def Let_def)
qed

definition big_ti :: file_storage where
  "big_ti = add_file \<lparr>fe_path = ''film.mkv'', fe_offset = 0, fe_size = 2164260864, fe_pad = False\<rparr>
     \<lparr>m_files = [], m_total_size = 0, m_num_pieces = 129, m_piece_length = 16777216\<rparr>"

definition big_world :: world where
  "big_world = demo_world\<lparr>w_ti := (\<lambda>h. big_ti),
     w_hv := (\<lambda>h. demo_hv\<lparr>hv_pieces := \<lparr>m_bytes = replicate 16 0xff @ [0], m_size = 129\<rparr>\<rparr>)\<rparr>"

definition big_st :: streamer where
  "big_st = demo_st\<lparr>tMap := [(1, ctor_result (tAux_members 0 big_ti 0 2164260864))]\<rparr>"

definition info0 :: dlInfo where
  "info0 = \<lparr>downloadRateBs = 0, downloaded = 0, total = 0, piecesDone = 0, piecesTotal = 0,
     pieceSize = 0, seeders = 0, peers = 0, piecesStartup = 0, piecesStartupAtEnd = 0,
     piecesStartupDone = 0\<rparr>"

lemma progress_overflow_witness:
  "getTorrentInfo big_world info0 1 big_st = None \<and> getFileDownloaded big_world 1 (Some big_st) = None"
proof -
  let ?a = "ctor_result (tAux_members 0 big_ti 0 2164260864)"
  have "getAux big_world 1 big_st = (Some ?a, big_st)"
    by (simp add: getAux_def big_st_def big_world_def hv_of_def demo_hv_def)
  moreover have "countPieces (hv_pieces (hv_of big_world ?a)) (fileFirstPiece ?a) (fileLastPiece ?a) =
      Some 128"
    "fileSize ?a \<noteq> ts_total_wanted_done (w_ts big_world (ta_handle ?a))"
    "pieceLength ?a = m_piece_length (w_ti big_world (ta_handle ?a))"
    "INT_MAX < 128 * pieceLength ?a"
    by code_simp+
  ultimately show ?thesis using progress_overflow [of big_world 1 big_st ?a big_st 128 info0] by simp
qed

text \<open>
  Both start-up counts of \<^verbatim>\<open>getTorrentInfo\<close> include a piece too many: when every piece of a long
  enough file is there, two more start-up pieces are done than there are.
\<close>

theorem startup_overcount:
  assumes "getAux w k st = (Some a, st1)" "aux_wf a"
    and "list_all (\<lambda>i. get_bit (hv_pieces (hv_of w a)) i = Some True)
      [fileFirstPiece a..fileLastPiece a]"
    and "fileFirstPiece a + startupPiecesCountAtStart a \<le> fileLastPiece a"
    and "fileFirstPiece a + startupPiecesCountAtEnd a \<le> fileLastPiece a"
    and "getTorrentInfo w raw k st = Some (st', info)"
  shows "piecesStartupDone info = piecesStartup info + 2"
proof -
  have "list_all (\<lambda>i. get_bit (hv_pieces (hv_of w a)) i = Some True) [f..l]"
    if "fileFirstPiece a \<le> f" "l \<le> fileLastPiece a" for f l
    using assms(3) that by (auto simp: list_all_iff)
  then show ?thesis
    using assms
    by (auto simp: getTorrentInfo_def Let_def countPieces_all aux_wf_def
        MIN_STARTUP_PIECES_START_def MIN_STARTUP_PIECES_END_def split: option.splits)
qed

definition full_world :: world where
  "full_world = demo_world\<lparr>w_hv := (\<lambda>h. demo_hv\<lparr>hv_have := (\<lambda>i. True),
     hv_pieces := \<lparr>m_bytes = [0xff, 0xff, 0xe0], m_size = 19\<rparr>\<rparr>)\<rparr>"

lemma startup_overcount_witness:
  "\<exists>st' info. getTorrentInfo full_world info0 1 demo_st = Some (st', info) \<and>
     piecesStartupDone info = piecesStartup info + 2"
proof -
  have "getAux full_world 1 demo_st = (Some demo_aux, demo_st)"
    by (simp add: getAux_def demo_st_def full_world_def hv_of_def demo_hv_def)
  moreover have "list_all (\<lambda>i. get_bit (hv_pieces (hv_of full_world demo_aux)) i = Some True)
      [fileFirstPiece demo_aux..fileLastPiece demo_aux]"
    "fileFirstPiece demo_aux + startupPiecesCountAtStart demo_aux \<le> fileLastPiece demo_aux"
    "fileFirstPiece demo_aux + startupPiecesCountAtEnd demo_aux \<le> fileLastPiece demo_aux"
    "(file_progress full_world demo_aux 16384,
      countPieces (hv_pieces (hv_of full_world demo_aux)) 6 11,
      countPieces (hv_pieces (hv_of full_world demo_aux)) 14 18) = (Some 212992, Some 6, Some 5)"
    "startupPiecesCountAtEnd demo_aux = 4" "startupPiecesCountAtStart demo_aux = 5"
    "fileFirstPiece demo_aux = 6" "fileLastPiece demo_aux = 18"
    "m_piece_length (w_ti full_world (ta_handle demo_aux)) = 16384"
    by code_simp+
  moreover from calculation obtain st' info
    where "getTorrentInfo full_world info0 1 demo_st = Some (st', info)"
    by (simp add: getTorrentInfo_def Let_def)
  ultimately show ?thesis
    using startup_overcount [of full_world 1 demo_st demo_aux demo_st info0 st' info]
      demo_aux_wf(1) by auto
qed

subsection \<open>The URL buffer\<close>

text \<open>
  The URL is written inside the caller's buffer, with its terminating zero, exactly when it is
  not empty and shorter than the buffer; otherwise the buffer holds the empty string.
\<close>

theorem fill_url_safe:
  assumes "0 < len" "len \<le> int (length buf)" "len < 2 ^ 32"
  shows "\<exists>buf' ok. fill_url path (Some buf) len = (Some buf', ok) \<and> length buf' = length buf \<and>
    (ok \<longleftrightarrow> path \<noteq> [] \<and> int (length path) < len) \<and>
    (if ok then take (length path + 1) buf' = path @ [CHR 0x00] else hd buf' = CHR 0x00)"
proof -
  have m: "len mod 4294967296 = len" and b: "buf \<noteq> []" using assms by auto
  let ?b0 = "memcpy_at buf 0 [CHR 0x00]"
  have b0: "length ?b0 = length buf" "hd ?b0 = CHR 0x00"
    using b by (simp_all add: memcpy_at_def Suc_le_eq)
  show ?thesis
  proof (cases "path \<noteq> [] \<and> int (length path) < len")
    case False
    then show ?thesis using assms m b0 by (auto simp: fill_url_def Let_def)
  next
    case True
    let ?b1 = "memcpy_at ?b0 (length path) [CHR 0x00]"
    have lt: "length path < length buf" using True assms(2) by linarith
    then have b1: "length ?b1 = length buf" "?b1 ! length path = CHR 0x00"
      using length_memcpy_at [of "length path" "[CHR 0x00]" ?b0] b0
      by (simp_all add: memcpy_at_def nth_append)
    have "length (memcpy_at ?b1 0 path) = length buf"
      using length_memcpy_at [of 0 path ?b1] b1 lt by simp
    moreover have "take (length path + 1) (memcpy_at ?b1 0 path) = path @ [CHR 0x00]"
    proof -
      have "drop (length path) ?b1 = CHR 0x00 # drop (Suc (length path)) ?b1"
        using Cons_nth_drop_Suc [of "length path" ?b1] b1 lt by simp
      then show ?thesis by (simp add: memcpy_at_def [of ?b1])
    qed
    ultimately show ?thesis using assms m True
      by (intro exI [of _ "memcpy_at ?b1 0 path"] exI [of _ True]) (simp add: fill_url_def Let_def)
  qed
qed

lemma fill_url_safe_witness:
  "\<exists>buf'. fill_url ''ab'' (Some ''xyzw'') 4 = (Some buf', True) \<and> take 3 buf' = ''ab'' @ [CHR 0x00]"
  using fill_url_safe [of 4 "''xyzw''" "''ab''"] by (auto simp: numeral_3_eq_3)

end
