(* ===== verification/StreamLib.thy ===== *)
theory StreamLib
  imports StreamerSpec
begin

section \<open>lib/lib.cpp: the exported functions\<close>

text \<open>
  The C interface of the streaming library over its globals: the \<^verbatim>\<open>Streamerok\<close> singleton and the
  download directory. Every exported function initialises the library first. The session (handle
  or error for the parameters of a torrent), the clock and the polls are arguments.
\<close>

record 'f lib =
  sPtr :: "streamer option"
  l_temp :: tempdir
  l_fs :: 'f

definition torrentInit :: "'f fs_ops \<Rightarrow> bytes option \<Rightarrow> int \<Rightarrow> 'f lib \<Rightarrow> 'f lib \<times> bool" where
  "torrentInit ops downloadDir cleanOnExit l =
     (let (fs1, d1) = (if null_or_empty downloadDir then (l_fs l, l_temp l)
                       else setTempDir ops (l_fs l) (l_temp l) (the downloadDir) (cleanOnExit \<noteq> 0));
          (fs2, d2) = checkTempDir ops fs1 d1;
          p = (case sPtr l of None \<Rightarrow> streamer_init | Some st \<Rightarrow> st)
      in (l\<lparr>sPtr := Some p, l_temp := d2, l_fs := fs2\<rparr>, tempDirValid ops fs2 d2))"

definition torrentDeInit :: "'f fs_ops \<Rightarrow> 'f lib \<Rightarrow> 'f lib" where
  "torrentDeInit ops l =
     (case sPtr l of
        None \<Rightarrow> l
      | Some st \<Rightarrow> l\<lparr>sPtr := None, l_fs := cleanTempDir ops (l_fs l) (l_temp l)\<rparr>)"

text \<open>The library after the implicit \<^verbatim>\<open>torrentInit()\<close>, and its singleton.\<close>

definition lib_init :: "'f fs_ops \<Rightarrow> 'f lib \<Rightarrow> 'f lib" where
  "lib_init ops l = fst (torrentInit ops None 0 l)"

definition lib_run :: "'f lib \<Rightarrow> (streamer \<Rightarrow> (streamer \<times> 'r) option) \<Rightarrow> ('f lib \<times> 'r) option" where
  "lib_run l act =
     (case sPtr l of
        None \<Rightarrow> None
      | Some st \<Rightarrow> map_option (\<lambda>(st', r). (l\<lparr>sPtr := Some st'\<rparr>, r)) (act st))"

definition torrentSetProxy ::
    "'f fs_ops \<Rightarrow> bytes option \<Rightarrow> int \<Rightarrow> bytes option \<Rightarrow> bytes option \<Rightarrow> 'f lib \<Rightarrow>
     ('f lib \<times> proxy_settings \<times> bool \<times> int) option" where
  "torrentSetProxy ops host port user pass l =
     lib_run (lib_init ops l) (\<lambda>st. map_option (\<lambda>r. (st, r)) (setProxy host port user pass))"

definition add_with ::
    "(('m, 'i) add_params \<Rightarrow> nat option) \<Rightarrow> (nat \<Rightarrow> int) \<Rightarrow> (nat \<Rightarrow> bool) \<Rightarrow> (nat \<Rightarrow> bool) \<Rightarrow> world \<Rightarrow>
     int + (('m, 'i) add_params \<times> bytes) \<Rightarrow> streamer \<Rightarrow> (streamer \<times> scall list \<times> int outcome) option" where
  "add_with session clock valid meta w args st =
     (case args of
        Inl e \<Rightarrow> Some (st, [], Returned e)
      | Inr (p, name) \<Rightarrow> addTorrent (session p) clock valid meta w name st)"

definition torrentAddStart ::
    "'f fs_ops \<Rightarrow> (bytes \<Rightarrow> 'm option) \<Rightarrow> (('m, 'i) add_params \<Rightarrow> nat option) \<Rightarrow> (nat \<Rightarrow> int) \<Rightarrow>
     (nat \<Rightarrow> bool) \<Rightarrow> (nat \<Rightarrow> bool) \<Rightarrow> world \<Rightarrow> bytes option \<Rightarrow> bytes option \<Rightarrow> 'f lib \<Rightarrow>
     ('f lib \<times> scall list \<times> int outcome) option" where
  "torrentAddStart ops parse_magnet session clock valid meta w url fileName l =
     (if url = None then Some (l, [], Returned (- 1))
      else lib_run (lib_init ops l)
             (add_with session clock valid meta w (downloadTorrent parse_magnet url fileName)))"

definition torrentAddImport ::
    "'f fs_ops \<Rightarrow> (bytes \<Rightarrow> 'i option) \<Rightarrow> (('m, 'i) add_params \<Rightarrow> nat option) \<Rightarrow> (nat \<Rightarrow> int) \<Rightarrow>
     (nat \<Rightarrow> bool) \<Rightarrow> (nat \<Rightarrow> bool) \<Rightarrow> world \<Rightarrow> bytes option \<Rightarrow> int \<Rightarrow> bytes option \<Rightarrow> 'f lib \<Rightarrow>
     ('f lib \<times> scall list \<times> int outcome) option" where
  "torrentAddImport ops parse_info session clock valid meta w body bodyLength fileName l =
     (if body = None then Some (l, [], Returned (- 8))
      else lib_run (lib_init ops l)
             (add_with session clock valid meta w (importTorrent parse_info body bodyLength fileName)))"

definition torrentGetInfo ::
    "'f fs_ops \<Rightarrow> world \<Rightarrow> dlInfo \<Rightarrow> int \<Rightarrow> 'f lib \<Rightarrow> ('f lib \<times> dlInfo) option" where
  "torrentGetInfo ops w raw torrentId l =
     lib_run (lib_init ops l) (getTorrentInfo w raw torrentId)"

definition torrentGetFileUrl ::
    "'f fs_ops \<Rightarrow> world \<Rightarrow> bool \<Rightarrow> int \<Rightarrow> bytes option \<Rightarrow> int \<Rightarrow> 'f lib \<Rightarrow>
     ('f lib \<times> bytes option \<times> bool) option" where
  "torrentGetFileUrl ops w win torrentId buf len l =
     (let l1 = lib_init ops l
      in if buf = None \<or> len = 0 then Some (l1, buf, False)
         else map_option (\<lambda>(l2, path). (l2, fill_url path buf len))
                (lib_run l1 (getFileUrl w win (isExistsAndNotEmpty ops (l_fs l1))
                   (getTempDir (l_temp l1)) torrentId)))"

definition torrentStopDelete ::
    "'f fs_ops \<Rightarrow> world \<Rightarrow> int \<Rightarrow> 'f lib \<Rightarrow> ('f lib \<times> scall list \<times> bool) option" where
  "torrentStopDelete ops w torrentId l =
     (let l1 = lib_init ops l
      in lib_run l1 (\<lambda>st. Some (deleteTorrent w torrentId (CleanOnExit (l_temp l1)) st)))"

lemma torrentInit_keeps: "sPtr (fst (torrentInit ops d c l)) =
    Some (case sPtr l of None \<Rightarrow> streamer_init | Some st \<Rightarrow> st)"
  by (simp add: torrentInit_def Let_def split: prod.split)

lemma lib_init_sPtr [simp]:
  "sPtr (lib_init ops l) = Some (case sPtr l of None \<Rightarrow> streamer_init | Some st \<Rightarrow> st)"
  by (simp add: lib_init_def torrentInit_keeps)

end
