(* ===== verification/NodeProcess.thy ===== *)
theory NodeProcess
  imports Prelude
begin

section \<open>gui/NjsProcess.cpp: the messages of the node scripts\<close>

text \<open>
  \<^verbatim>\<open>NjsProcess::onReadyRead\<close> collects the output of a script and cuts it into messages
  \<^verbatim>\<open><<KEY: VALUE>>||\<close>. The model is for 7-bit text, on which the source's detour through \<^verbatim>\<open>QString\<close>
  is the identity. \<^verbatim>\<open>start\<close> and \<^verbatim>\<open>restart\<close> are the process calls they make and the buffer they
  clear.
\<close>

subsection \<open>The process\<close>

datatype proc_state = NotRunning | Starting | Running

datatype proc_call = PKill | PWait int | PStart

record njs =
  n_buffer :: bytes
  n_calls :: "proc_call list"

definition njs_start :: "njs \<Rightarrow> njs" where
  "njs_start p = p\<lparr>n_buffer := [], n_calls := n_calls p @ [PStart]\<rparr>"

definition njs_restart :: "proc_state \<Rightarrow> njs \<Rightarrow> njs" where
  "njs_restart st p =
     njs_start (if st \<noteq> NotRunning then p\<lparr>n_calls := n_calls p @ [PKill, PWait 1000]\<rparr> else p)"

definition njs_dtor :: "njs \<Rightarrow> njs" where
  "njs_dtor p = p\<lparr>n_calls := n_calls p @ [PKill, PWait 1000]\<rparr>"

subsection \<open>Cutting the output into messages\<close>

definition HEADER :: bytes where
  "HEADER = ''<<''"

definition FOOTER :: bytes where
  "FOOTER = ''>>''"

text \<open>The signal \<^verbatim>\<open>haveToken\<close> for the text of one message.\<close>

definition token_of :: "bytes \<Rightarrow> (bytes \<times> bytes) list" where
  "token_of str =
     (case find_sub '': '' str of
        None \<Rightarrow> []
      | Some index \<Rightarrow>
          if 0 < index \<and> index + 2 < length str
          then [(take index str, drop (index + 2) str)] else [])"

text \<open>The loop of \<^verbatim>\<open>onReadyRead\<close>: the tokens emitted and the buffer that is kept.\<close>

function njs_loop :: "bytes \<Rightarrow> (bytes \<times> bytes) list \<times> bytes" where
  "njs_loop buf =
     (if buf = [] then ([], [])
      else case find_sub HEADER buf of
             None \<Rightarrow> ([], [])
           | Some start \<Rightarrow>
               (let buf = drop start buf
                in case find_sub FOOTER buf of
                     None \<Rightarrow> ([], buf)
                   | Some end \<Rightarrow>
                       if end = 0 then ([], buf)
                       else
                         (let str = take (end - 2) (drop (length HEADER) buf);
                              (toks, rest) = njs_loop (drop (end + length FOOTER + 1 + 1) buf)
                          in (token_of str @ toks, rest))))"
  by pat_completeness auto
termination
  by (relation "measure length") auto

declare njs_loop.simps [simp del]

definition onReadyRead :: "bytes \<Rightarrow> njs \<Rightarrow> njs \<times> (bytes \<times> bytes) list" where
  "onReadyRead data p =
     (let (toks, rest) = njs_loop (n_buffer p @ data) in (p\<lparr>n_buffer := rest\<rparr>, toks))"

text \<open>A sequence of reads.\<close>

fun deliver :: "bytes list \<Rightarrow> njs \<Rightarrow> njs \<times> (bytes \<times> bytes) list" where
  "deliver [] p = (p, [])"
| "deliver (data # reads) p =
     (let (p1, t1) = onReadyRead data p; (p2, t2) = deliver reads p1 in (p2, t1 @ t2))"

subsection \<open>What the scripts write\<close>

text \<open>A message with the text written before it (line ends, log lines).\<close>

type_synonym message = "bytes \<times> bytes \<times> bytes"

definition plain :: "bytes \<Rightarrow> bool" where
  "plain s \<longleftrightarrow> list_all (\<lambda>c. c \<noteq> CHR ''<'' \<and> c \<noteq> CHR ''>'') s"

definition message_ok :: "message \<Rightarrow> bool" where
  "message_ok m \<longleftrightarrow> (case m of (junk, key, val) \<Rightarrow>
     plain junk \<and> plain key \<and> plain val \<and> key \<noteq> [] \<and> val \<noteq> [] \<and> CHR '':'' \<notin> set key)"

definition body :: "message \<Rightarrow> bytes" where
  "body m = (case m of (junk, key, val) \<Rightarrow> key @ '': '' @ val)"

definition message_text :: "message \<Rightarrow> bytes" where
  "message_text m = fst m @ ''<<'' @ body m @ ''>>||''"

definition token :: "message \<Rightarrow> bytes \<times> bytes" where
  "token m = (fst (snd m), snd (snd m))"

abbreviation stream :: "message list \<Rightarrow> bytes" where
  "stream ms \<equiv> concat (map message_text ms)"

subsection \<open>Finding\<close>

lemma find_sub_skip:
  "p \<noteq> [] \<Longrightarrow> hd p \<notin> set x \<Longrightarrow> find_sub p (x @ y) = map_option (\<lambda>i. i + length x) (find_sub p y)"
proof (induction x)
  case (Cons c x)
  then have "\<not> starts_with p (c # x @ y)" by (cases p) (auto simp: starts_with_def)
  with Cons show ?case by (cases "find_sub p y") simp_all
qed (simp add: option.map_ident)

lemma find_sub_prefix: "find_sub p (p @ y) = Some 0"
proof (cases "p @ y")
  case (Cons x s)
  then show ?thesis using starts_with_append [of p y] by (simp del: starts_with_Cons starts_with_append)
qed simp

lemma find_sub_absent: "p \<noteq> [] \<Longrightarrow> hd p \<notin> set x \<Longrightarrow> find_sub p x = None"
  using find_sub_skip [of p x "[]"] by simp

lemma find_sub_hit: "p \<noteq> [] \<Longrightarrow> hd p \<notin> set x \<Longrightarrow> find_sub p (x @ p @ y) = Some (length x)"
  by (simp add: find_sub_skip find_sub_prefix)

lemma plain_append [simp]: "plain (x @ y) \<longleftrightarrow> plain x \<and> plain y"
  by (simp add: plain_def)

lemma plain_set: "plain x \<Longrightarrow> CHR ''<'' \<notin> set x \<and> CHR ''>'' \<notin> set x"
  by (auto simp: plain_def list_all_iff)

lemma token_of_body:
  "message_ok m \<Longrightarrow> token_of (body m) = [token m]"
  using find_sub_hit [of "'': ''" "fst (snd m)" "snd (snd m)"]
  by (cases m) (auto simp: token_of_def body_def token_def message_ok_def)

lemma plain_body: "message_ok m \<Longrightarrow> plain (body m)"
  by (cases m) (auto simp: message_ok_def body_def plain_def)

subsection \<open>One message\<close>

lemma njs_loop_plain: "plain x \<Longrightarrow> njs_loop x = ([], [])"
  using find_sub_absent [of HEADER x] plain_set [of x]
  by (simp add: njs_loop.simps [of x] HEADER_def)

text \<open>An opened message waits in the buffer.\<close>

lemma njs_loop_open:
  assumes "plain j" "plain x" "z = [] \<or> z = ''>''"
  shows "njs_loop (j @ ''<<'' @ x @ z) = ([], ''<<'' @ x @ z)"
proof -
  let ?s = "''<<'' @ x @ z"
  have h: "find_sub HEADER (j @ ?s) = Some (length j)"
    using find_sub_hit [of HEADER j "x @ z"] plain_set [OF assms(1)] by (simp add: HEADER_def)
  have "find_sub FOOTER z = None" using assms(3) by (auto simp: FOOTER_def)
  then have "find_sub FOOTER ?s = None"
    using find_sub_skip [of FOOTER "''<<'' @ x" z] plain_set [OF assms(2)] by (simp add: FOOTER_def)
  then show ?thesis using h by (subst njs_loop.simps) (simp add: Let_def)
qed

text \<open>A closed message is emitted, and two more characters are skipped.\<close>

lemma njs_loop_closed:
  assumes "plain j" "message_ok m"
  shows "njs_loop (j @ ''<<'' @ body m @ ''>>'' @ r) =
    (let (toks, rest) = njs_loop (drop 2 r) in (token m # toks, rest))"
proof -
  let ?s = "''<<'' @ body m @ ''>>'' @ r"
  have h: "find_sub HEADER (j @ ?s) = Some (length j)"
    using find_sub_hit [of HEADER j "body m @ ''>>'' @ r"] plain_set [OF assms(1)]
    by (simp add: HEADER_def)
  have f: "find_sub FOOTER ?s = Some (length (body m) + 2)"
    using find_sub_hit [of FOOTER "''<<'' @ body m" r] plain_set [OF plain_body [OF assms(2)]]
    by (simp add: FOOTER_def)
  have d: "drop (length (body m) + 2 + length FOOTER + 1 + 1) ?s = drop 2 r"
    by (simp add: FOOTER_def)
  show ?thesis
    using h f d token_of_body [OF assms(2)]
    by (subst njs_loop.simps) (simp add: Let_def HEADER_def split: prod.split)
qed

text \<open>The unread text after any number of messages starts like one more.\<close>

lemma njs_loop_stream:
  assumes "plain p" "list_all message_ok ms" "plain q"
  shows "njs_loop (p @ stream ms @ q) = (map token ms, [])"
  using assms
proof (induction ms arbitrary: p)
  case Nil
  then show ?case using njs_loop_plain [of "p @ q"] by simp
next
  case (Cons m ms)
  have "plain (p @ fst m)" using Cons.prems by (cases m) (auto simp: message_ok_def)
  moreover have "njs_loop (drop 2 (''||'' @ stream ms @ q)) = (map token ms, [])"
    using Cons.IH [of "[]"] Cons.prems by (simp add: plain_def)
  ultimately show ?case
    using njs_loop_closed [of "p @ fst m" m "''||'' @ stream ms @ q"] Cons.prems
    by (simp add: message_text_def [of m])
qed

subsection \<open>Reads that cut the stream anywhere but inside a header\<close>

definition cut_ok :: "bytes \<Rightarrow> bytes \<Rightarrow> bool" where
  "cut_ok s1 s2 \<longleftrightarrow> \<not> (ends_with ''<'' s1 \<and> starts_with ''<'' s2)"

lemma split_append:
  "x @ y = a @ b \<Longrightarrow> (\<exists>u. x = a @ u \<and> b = u @ y) \<or> (\<exists>u. u \<noteq> [] \<and> a = x @ u \<and> y = u @ b)"
  by (auto simp: append_eq_append_conv2)

text \<open>Where a cut can fall with respect to the first message.\<close>

lemma cut_cases:
  assumes e: "s1 @ s2 = j @ ''<<'' @ b @ ''>>'' @ r" and cut: "cut_ok s1 s2"
  obtains (junk) u where "j = s1 @ u" "s2 = u @ ''<<'' @ b @ ''>>'' @ r"
  | (inside) x z y where "s1 = j @ ''<<'' @ x @ z" "z = [] \<or> z = ''>''" "\<exists>w. b = x @ w"
      "b @ ''>>'' = x @ z @ y" "s2 = y @ r"
  | (after) u where "s1 = j @ ''<<'' @ b @ ''>>'' @ u" "r = u @ s2"
proof -
  from split_append [OF e] consider
      (a) u where "s1 = j @ u" "''<<'' @ b @ ''>>'' @ r = u @ s2"
    | (b) u where "j = s1 @ u" "s2 = u @ ''<<'' @ b @ ''>>'' @ r" by blast
  then show thesis
  proof cases
    case b
    then show thesis by (rule junk)
  next
    case a
    consider "u = []" | "u = ''<''" | v where "u = ''<<'' @ v"
      using a(2) by (cases u; cases "tl u") auto
    then show thesis
    proof cases
      case 1
      with a show thesis by (intro junk [of "[]"]) simp_all
    next
      case 2
      with a cut show thesis by (auto simp: cut_ok_def ends_with_iff)
    next
      case (3 v)
      then have "v @ s2 = (b @ ''>>'') @ r" using a(2) by simp
      from split_append [OF this] consider
          (past) w where "v = (b @ ''>>'') @ w" "r = w @ s2"
        | (within) w where "w \<noteq> []" "b @ ''>>'' = v @ w" "s2 = w @ r" by blast
      then show thesis
      proof cases
        case past
        with a 3 show thesis by (intro after [of w]) simp_all
      next
        case within
        from split_append [OF within(2)] consider
            (pre) t where "b = v @ t" | (cut) t where "v = b @ t" "''>>'' = t @ w"
          by (metis append_Nil2)
        then show thesis
        proof cases
          case pre
          with a 3 within show thesis by (intro inside [of v "[]" w]) auto
        next
          case cut
          then have "t = [] \<or> t = ''>''" using within(1) by (cases t; cases "tl t") auto
          with a 3 within cut show thesis by (intro inside [of b t w]) auto
        qed
      qed
    qed
  qed
qed

text \<open>
  What is left after the first part of a cut stream, with the second part, is a stream again; the
  first part has emitted exactly the messages it closes.
\<close>

lemma njs_loop_cut:
  assumes "s1 @ s2 = p @ stream ms @ t" "plain p" "list_all message_ok ms" "cut_ok s1 s2" "plain t"
  shows "\<exists>toks ms2 p' t' b. map token ms = toks @ map token ms2 \<and> njs_loop s1 = (toks, b) \<and>
    b @ s2 = p' @ stream ms2 @ t' \<and> plain p' \<and> plain t' \<and> list_all message_ok ms2 \<and> njs_loop b = ([], b)"
  using assms
proof (induction ms arbitrary: s1 p)
  case Nil
  then have "plain s1" "plain s2" by (metis append_Nil concat.simps(1) list.simps(8) plain_append)+
  then show ?case
    using njs_loop_plain [of s1] njs_loop_plain [of "[]"]
    by (intro exI [of _ "[]"] exI [of _ s2] exI [of _ "[]"]) (simp add: plain_def)
next
  case (Cons m ms)
  obtain j k v where m: "m = (j, k, v)" by (cases m)
  let ?pj = "p @ j" and ?b = "body m"
  have ok: "message_ok m" "list_all message_ok ms" "plain ?b"
    using Cons.prems plain_body [of m] by simp_all
  then have "plain j" by (simp add: m message_ok_def)
  with Cons.prems(2) have pj: "plain ?pj" by simp
  have "s1 @ s2 = ?pj @ ''<<'' @ ?b @ ''>>'' @ ''||'' @ stream ms @ t"
    using Cons.prems(1) by (simp add: message_text_def [of m]) (simp add: m)
  from this Cons.prems(4) show ?case
  proof (cases rule: cut_cases)
    case (junk u)
    let ?m = "([], k, v)"
    have "plain s1" "plain u" using pj junk(1) by (metis plain_append)+
    moreover have "s2 = u @ stream (?m # ms) @ t" "token ?m = token m" "message_ok ?m"
      using junk(2) ok(1) by (simp_all add: message_text_def [of ?m] body_def m token_def message_ok_def plain_def)
    ultimately show ?thesis
      using njs_loop_plain [of s1] njs_loop_plain [of "[]"] ok(2) Cons.prems(5)
      by (intro exI [of _ "[]"] exI [of _ "?m # ms"] exI [of _ u] exI [of _ t]) (simp add: plain_def)
  next
    case (inside x z y)
    let ?m = "([], k, v)"
    have "plain x" using inside(3) ok(3) by auto
    then have "njs_loop s1 = ([], ''<<'' @ x @ z)"
      using njs_loop_open [OF pj _ inside(2)] inside(1) by simp
    moreover have "(''<<'' @ x @ z) @ s2 = stream (?m # ms) @ t" "token ?m = token m" "message_ok ?m"
      using inside(4,5) ok(1)
      by (simp_all add: message_text_def [of ?m] body_def m token_def message_ok_def plain_def)
    moreover have "njs_loop (''<<'' @ x @ z) = ([], ''<<'' @ x @ z)"
      using njs_loop_open [of "[]", OF _ \<open>plain x\<close> inside(2)] by (simp add: plain_def)
    ultimately show ?thesis
      using ok(2) Cons.prems(5)
      by (intro exI [of _ "[]"] exI [of _ "?m # ms"] exI [of _ "[]"] exI [of _ t]
          exI [of _ "''<<'' @ x @ z"] conjI) (simp_all add: plain_def)
  next
    case (after u)
    have s1: "njs_loop s1 = (let (toks, rest) = njs_loop (drop 2 u) in (token m # toks, rest))"
      using njs_loop_closed [OF pj ok(1)] after(1) by simp
    consider (short) w where "drop 2 u = []" "s2 = w @ stream ms @ t" "plain w"
      | (long) u' where "u = ''||'' @ u'" "stream ms @ t = u' @ s2"
      using after(2) by (cases u; cases "tl u") (auto simp: plain_def)
    then show ?thesis
    proof cases
      case (short w)
      show ?thesis
        by (rule exI [of _ "[token m]"], rule exI [of _ ms], rule exI [of _ w],
            rule exI [of _ t], rule exI [of _ "[]"])
          (use short s1 ok(2) Cons.prems(5) njs_loop_plain [of "[]"] in \<open>simp add: plain_def\<close>)
    next
      case (long u')
      have "cut_ok u' s2"
        using Cons.prems(4) unfolding after(1) long(1) by (auto simp: cut_ok_def ends_with_iff)
      with Cons.IH [of u' "[]"] long(2) ok(2) Cons.prems(5) obtain toks ms2 p' t' b where
        "map token ms = toks @ map token ms2" "njs_loop u' = (toks, b)"
        "b @ s2 = p' @ stream ms2 @ t'" "plain p'" "plain t'" "list_all message_ok ms2"
        "njs_loop b = ([], b)"
        by (auto simp: plain_def)
      then show ?thesis
        using s1 long(1) by (intro exI [of _ "token m # toks"] exI [of _ ms2]) auto
    qed
  qed
qed

text \<open>The cuts between the reads are all outside the headers.\<close>

fun cuts_ok :: "bytes list \<Rightarrow> bool" where
  "cuts_ok [] \<longleftrightarrow> True"
| "cuts_ok (r # rs) \<longleftrightarrow> r \<noteq> [] \<and> cut_ok r (concat rs) \<and> cuts_ok rs"

lemma cut_ok_append: "r \<noteq> [] \<Longrightarrow> cut_ok (b @ r) s = cut_ok r s"
  by (cases r rule: rev_cases) (auto simp: cut_ok_def ends_with_iff)

lemma deliver_stream:
  assumes "cuts_ok rs" "n_buffer p @ concat rs = q @ stream ms @ t" "plain q" "plain t" "list_all message_ok ms"
    "njs_loop (n_buffer p) = ([], n_buffer p)"
  shows "snd (deliver rs p) = map token ms"
  using assms
proof (induction rs arbitrary: p q t ms)
  case Nil
  then show ?case using njs_loop_stream [of q ms t] by (simp add: plain_def)
next
  case (Cons r rs)
  have "cut_ok (n_buffer p @ r) (concat rs)" using Cons.prems(1) by (simp add: cut_ok_append)
  then obtain toks ms2 q' t' b where c: "map token ms = toks @ map token ms2"
    "njs_loop (n_buffer p @ r) = (toks, b)" "b @ concat rs = q' @ stream ms2 @ t'" "plain q'" "plain t'"
    "list_all message_ok ms2" "njs_loop b = ([], b)"
    using njs_loop_cut [of "n_buffer p @ r" "concat rs" q ms t] Cons.prems by auto
  then show ?case
    using Cons.IH [of "p\<lparr>n_buffer := b\<rparr>" q' ms2 t'] Cons.prems(1)
    by (cases "deliver rs (p\<lparr>n_buffer := b\<rparr>)") (simp add: onReadyRead_def)
qed

text \<open>
  C26: messages of 7-bit text in which key, value and what is written between the messages contain no \<open>'<'\<close> and no \<open>'>'\<close>,
  key and value are not empty and the key has no \<open>':'\<close> are delivered once, in order, with key and value, however the
  output is cut into reads, as long as no cut falls between the two characters of a header.
\<close>

theorem messages_roundtrip:
  assumes "list_all message_ok ms" "plain junk" "cuts_ok reads" "concat reads = stream ms @ junk"
    and "n_buffer p = []"
  shows "snd (deliver reads p) = map token ms"
  using deliver_stream [of reads p "[]" ms junk] assms njs_loop_plain [of "[]"]
  by (simp add: plain_def)

lemma messages_roundtrip_witness:
  "snd (deliver [''ready'', CHR 0x0A # ''<<LISTEN_URL: http:/'', ''/h/>'', ''>||'' @ [CHR 0x0A], ''<<DSTAT: CONNECTED>>||'']
     \<lparr>n_buffer = [], n_calls = []\<rparr>) =
   [(''LISTEN_URL'', ''http://h/''), (''DSTAT'', ''CONNECTED'')]"
proof -
  let ?ms = "[(''ready'' @ [CHR 0x0A], ''LISTEN_URL'', ''http://h/''), ([CHR 0x0A], ''DSTAT'', ''CONNECTED'')]"
  let ?reads = "[''ready'', CHR 0x0A # ''<<LISTEN_URL: http:/'', ''/h/>'', ''>||'' @ [CHR 0x0A], ''<<DSTAT: CONNECTED>>||'']"
  have "list_all message_ok ?ms" "cuts_ok ?reads" "concat ?reads = stream ?ms @ []"
    by (simp_all add: message_ok_def plain_def cut_ok_def ends_with_def message_text_def body_def)
  then show ?thesis
    using messages_roundtrip [of ?ms "[]" ?reads "\<lparr>n_buffer = [], n_calls = []\<rparr>"]
    by (simp add: plain_def token_def)
qed

text \<open>
  A cut inside the header loses the message: the first character is thrown away with the
  junk before it.
\<close>

theorem cut_header_loses:
  assumes "message_ok (junk, key, val)" "n_buffer p = []"
  shows "snd (deliver [junk @ ''<'', ''<'' @ body (junk, key, val) @ ''>>||''] p) = []"
proof -
  have pb: "plain (body (junk, key, val))" "plain junk"
    using plain_body [OF assms(1)] assms(1) by (simp_all add: message_ok_def)
  have "find_sub HEADER (junk @ ''<'') = None"
    using find_sub_skip [of HEADER junk "''<''"] plain_set [OF pb(2)] by (simp add: HEADER_def)
  then have 1: "njs_loop (junk @ ''<'') = ([], [])" by (subst njs_loop.simps) simp
  have "find_sub HEADER (body (junk, key, val) @ ''>>||'') = None"
    using plain_set [OF pb(1)] by (intro find_sub_absent) (auto simp: HEADER_def)
  moreover obtain c r where "body (junk, key, val) = c # r"
    using assms(1) by (cases key) (auto simp: message_ok_def body_def)
  moreover have "CHR ''<'' \<noteq> c" using plain_set [OF pb(1)] calculation(2) by auto
  ultimately have "find_sub HEADER (''<'' @ body (junk, key, val) @ ''>>||'') = None"
    by (simp add: HEADER_def starts_with_def)
  then have "njs_loop (''<'' @ body (junk, key, val) @ ''>>||'') = ([], [])"
    by (subst njs_loop.simps) simp
  with 1 assms(2) show ?thesis by (simp add: onReadyRead_def)
qed

lemma cut_header_loses_witness:
  "snd (deliver [''<'', ''<DSTAT: CONNECTED>>||''] \<lparr>n_buffer = [], n_calls = []\<rparr>) = []"
  using cut_header_loses [of "[]" "''DSTAT''" "''CONNECTED''" "\<lparr>n_buffer = [], n_calls = []\<rparr>"]
  by (simp add: message_ok_def plain_def body_def)

end
