(* ===== verification/Json.thy ===== *)
theory Json
  imports Prelude
begin

section \<open>JSON values as the Qt classes read them\<close>

text \<open>
  The values of \<^verbatim>\<open>QJsonValue\<close> with the accessors the program uses. The type of numbers is a
  parameter; parsing and the conversions of doubles are arguments of the definitions that use them.
\<close>

datatype 'n json =
    JUndefined
  | JNull
  | JBool bool
  | JNum 'n
  | JStr bytes
  | JArr "'n json list"
  | JObj "(bytes \<times> 'n json) list"

type_synonym 'n jobj = "(bytes \<times> 'n json) list"

definition obj_value :: "bytes \<Rightarrow> 'n jobj \<Rightarrow> 'n json" where
  "obj_value k ob = (case map_of ob k of None \<Rightarrow> JUndefined | Some v \<Rightarrow> v)"

fun to_string :: "bytes \<Rightarrow> 'n json \<Rightarrow> bytes" where
  "to_string d (JStr s) = s"
| "to_string d _ = d"

fun to_object :: "'n json \<Rightarrow> 'n jobj" where
  "to_object (JObj ob) = ob"
| "to_object _ = []"

fun to_array :: "'n json \<Rightarrow> 'n json list" where
  "to_array (JArr xs) = xs"
| "to_array _ = []"

fun to_num :: "'n json \<Rightarrow> 'n option" where
  "to_num (JNum n) = Some n"
| "to_num _ = None"

fun to_bool :: "bool \<Rightarrow> 'n json \<Rightarrow> bool" where
  "to_bool d (JBool b) = b"
| "to_bool d _ = d"

definition arr_at :: "nat \<Rightarrow> 'n json list \<Rightarrow> 'n json" where
  "arr_at i xs = (if i < length xs then xs ! i else JUndefined)"

end
