(* ===== verification/Cast.thy ===== *)
theory Cast
  imports Json
begin

section \<open>gui/ChromeCast.cpp: casting to a device\<close>

text \<open>
  The class \<^verbatim>\<open>ChromeCast\<close>: the list of discovered devices, the casting state machine, and the
  commands sent to the local casting server. Signals, HTTP requests, process calls and one-shot
  timers are the outputs of the handlers. \<open>cast_env\<close> holds what Qt computes: \<^verbatim>\<open>QByteArray::number\<close>
  of a quotient of doubles, \<^verbatim>\<open>double * 1000\<close> converted to \<^verbatim>\<open>int\<close>, percent encoding, the JSON parser.
  The layout of the pop-up is left out.
\<close>

datatype cast_type = TInvalid | TChromecast | TAirplay | TDlna | TLocal

fun CAST_DEVICETYPE_STRING :: "cast_type \<Rightarrow> bytes" where
  "CAST_DEVICETYPE_STRING TInvalid = []"
| "CAST_DEVICETYPE_STRING TChromecast = ''googlecast''"
| "CAST_DEVICETYPE_STRING TAirplay = ''airplay''"
| "CAST_DEVICETYPE_STRING TDlna = ''dlna''"
| "CAST_DEVICETYPE_STRING TLocal = []"

fun CAST_DEVICETYPE_USER_STRING :: "cast_type \<Rightarrow> bytes" where
  "CAST_DEVICETYPE_USER_STRING TInvalid = []"
| "CAST_DEVICETYPE_USER_STRING TChromecast = ''Google Cast''"
| "CAST_DEVICETYPE_USER_STRING TAirplay = ''AirPlay''"
| "CAST_DEVICETYPE_USER_STRING TDlna = ''DLNA''"
| "CAST_DEVICETYPE_USER_STRING TLocal = []"

text \<open>A null \<^verbatim>\<open>QHostAddress\<close> is \<open>None\<close>.\<close>

record cast_device =
  cd_type :: cast_type
  cd_name :: bytes
  cd_ip :: "bytes option"
  cd_url :: bytes

definition no_device :: cast_device where
  "no_device = \<lparr>cd_type = TInvalid, cd_name = [], cd_ip = None, cd_url = []\<rparr>"

definition ip_string :: "cast_device \<Rightarrow> bytes" where
  "ip_string d = (case cd_ip d of None \<Rightarrow> [] | Some s \<Rightarrow> s)"

definition device_eq :: "cast_device \<Rightarrow> cast_device \<Rightarrow> bool" where
  "device_eq a b \<longleftrightarrow> cd_type a = cd_type b \<and> cd_name a = cd_name b \<and> cd_ip a = cd_ip b"

definition isValidDevice :: "cast_device \<Rightarrow> bool" where
  "isValidDevice d \<longleftrightarrow>
     cd_type d \<noteq> TInvalid \<and> cd_name d \<noteq> [] \<and> cd_ip d \<noteq> None \<and> cd_url d \<noteq> []"

record 'n cast_env =
  ce_double :: "int \<Rightarrow> int \<Rightarrow> bytes"
  ce_millis :: "'n \<Rightarrow> int"
  ce_percent :: "bytes \<Rightarrow> bytes"
  ce_address :: "bytes \<Rightarrow> bytes option"
  ce_json :: "bytes \<Rightarrow> 'n jobj"

definition castDevice :: "'n cast_env \<Rightarrow> 'n jobj \<Rightarrow> cast_device" where
  "castDevice env ob =
     (let typeStr = to_string [] (obj_value ''deviceType'' ob);
          ty = (if typeStr = ''googlecast'' then TChromecast
                else if typeStr = ''airplay'' then TAirplay
                else if typeStr = ''dlna'' then TDlna else TInvalid)
      in if ty = TInvalid then no_device
         else \<lparr>cd_type = ty, cd_name = to_string [] (obj_value ''name'' ob),
               cd_ip = ce_address env (to_string [] (arr_at 0 (to_array (obj_value ''ip'' ob)))),
               cd_url = to_string [] (obj_value ''url'' ob)\<rparr>)"

datatype cast_state = Idle | Opening | Buffering | Playing | Paused

datatype cast_out =
    LengthChanged int | TimeChanged int | SigStopped | SigOpening | SigPlaying | SigPaused
  | DeviceSelected | StateText bytes | StateImage bytes | CastingSwitched bool | StateChanged
  | HttpGet bytes | CastKill | CastRestart | DiscoveryStart | SingleShotStart int | SeekLater int
  | ListAdd bytes | MovieStart | MovieStop | PopupShow | PopupHide | ChangedState bool

record cc =
  cc_devs :: "cast_device list"
  cc_current :: cast_device
  cc_casting :: bool
  cc_state :: cast_state
  cc_serverUrl :: bytes
  cc_subtitleFile :: bytes
  cc_mediaFile :: bytes
  cc_fontSize :: int
  cc_startTime :: int
  cc_currentTime :: int
  cc_lastVolume :: int
  cc_volumeTimer :: bool
  cc_blockUntil :: int
  cc_refresh :: bool
  cc_counter :: int
  cc_restartTimer :: bool
  cc_checkable :: bool

type_synonym cc_act = "(cc, cast_out) act"

definition CHROMECAST_REFRESH_TIMER_INTERVAL :: int where
  "CHROMECAST_REFRESH_TIMER_INTERVAL = 500"

definition CHROMECAST_REFRESH_INTERVAL_CC :: int where
  "CHROMECAST_REFRESH_INTERVAL_CC = 1000"

definition CHROMECAST_REFRESH_INTERVAL_OTHER :: int where
  "CHROMECAST_REFRESH_INTERVAL_OTHER = 30000"

definition CHROMECAST_DEVICE_TEXT_LOCAL :: bytes where
  "CHROMECAST_DEVICE_TEXT_LOCAL = ''Popcorn Time''"

subsection \<open>Commands\<close>

definition command_url :: "bytes \<Rightarrow> bytes \<Rightarrow> cc \<Rightarrow> bytes" where
  "command_url command args s =
     (let args = (if args \<noteq> [] \<and> \<not> starts_with ''&'' args then CHR ''&'' # args else args)
      in cc_serverUrl s @ command @ ''?deviceType='' @ CAST_DEVICETYPE_STRING (cd_type (cc_current s)) @
         ''&deviceIP='' @ ip_string (cc_current s) @ args)"

definition issueCommand :: "bytes \<Rightarrow> bytes \<Rightarrow> cc_act" where
  "issueCommand command args =
     with_state (\<lambda>s. if cc_state s \<noteq> Paused \<and> cc_state s \<noteq> Playing then skip_act
                else emit (HttpGet (command_url command args s)))"

definition lower :: "char \<Rightarrow> char" where
  "lower c = (let n = of_char c :: nat in if 65 \<le> n \<and> n \<le> 90 then char_of (n + 32) else c)"

definition getSupportedSubsList :: "bytes list" where
  "getSupportedSubsList = [''srt'']"

definition setSubtitleFileV :: "bytes \<Rightarrow> cc_act" where
  "setSubtitleFileV fileName =
     acts [modify (\<lambda>s. s\<lparr>cc_subtitleFile := fileName\<rparr>),
           if list_ex (\<lambda>ext. ends_with ext (List.map lower fileName)) getSupportedSubsList
           then issueCommand ''command/subtitles'' (''subtitles='' @ fileName)
           else issueCommand ''command/subtitles'' ''subtitles='']"

definition setState :: "cast_state \<Rightarrow> cc_act" where
  "setState newState =
     with_state (\<lambda>s0.
       if cc_state s0 = newState then skip_act
       else acts
         [modify (\<lambda>s. s\<lparr>cc_state := newState\<rparr>),
          when_act (cc_state s0 = Opening \<and> (newState = Paused \<or> newState = Playing))
            (acts [with_state (\<lambda>s. setSubtitleFileV (cc_subtitleFile s)),
                   with_state (\<lambda>s. when_act (cc_startTime s \<noteq> 0) (emit (SeekLater 5000)))]),
          if newState = Idle
          then acts [modify (\<lambda>s. s\<lparr>cc_startTime := 0\<rparr>), emit SigStopped]
          else if newState = Opening then emit SigOpening
          else if newState = Playing \<and> cc_state s0 \<noteq> Buffering then emit SigPlaying
          else when_act (newState = Paused) (emit SigPaused),
          emit StateChanged])"

text \<open>The delayed seek to the start time.\<close>

definition seekStartTime :: "'n cast_env \<Rightarrow> cc_act" where
  "seekStartTime env =
     acts [with_state (\<lambda>s. issueCommand ''command/seek'' (''seek='' @ ce_double env (cc_startTime s) 1000)),
           modify (\<lambda>s. s\<lparr>cc_startTime := 0\<rparr>)]"

text \<open>
  \<^verbatim>\<open>stop\<close> waits up to half a second for the reply of the command before it kills the server. Its nested event loop
  handles other events meanwhile; they are not part of the model, where \<open>stop\<close> is one step.
\<close>

definition cc_stop :: cc_act where
  "cc_stop =
     acts [with_state (\<lambda>s. when_act (cc_casting s) (issueCommand ''command/stop'' [])),
           emit CastKill, modify (\<lambda>s. s\<lparr>cc_startTime := 0\<rparr>)]"

definition cc_pause :: cc_act where
  "cc_pause = with_state (\<lambda>s. when_act (cc_state s \<noteq> Paused) (issueCommand ''command/pause'' []))"

definition setTime :: "'n cast_env \<Rightarrow> int \<Rightarrow> cc_act" where
  "setTime env time =
     with_state (\<lambda>s. if cc_state s = Opening \<or> cc_state s = Idle
                then modify (\<lambda>s. s\<lparr>cc_startTime := time\<rparr>)
                else issueCommand ''command/seek'' (''seek='' @ ce_double env time 1000))"

definition setStartTime :: "int \<Rightarrow> cc_act" where
  "setStartTime time = modify (\<lambda>s. s\<lparr>cc_startTime := time\<rparr>)"

definition setMute :: "bool \<Rightarrow> cc_act" where
  "setMute muted = issueCommand ''command/mute'' (if muted then ''muted=1'' else ''muted=0'')"

definition isPlaying :: "cc \<Rightarrow> bool" where
  "isPlaying s \<longleftrightarrow> cc_state s = Playing \<or> cc_state s = Buffering"

definition setPause :: "bool \<Rightarrow> cc_act" where
  "setPause p =
     with_state (\<lambda>s. if p \<and> cc_state s = Paused then skip_act
                else if \<not> p \<and> isPlaying s then skip_act
                else issueCommand (if p then ''command/pause'' else ''command/play'') [])"

definition onVolumeTimer :: "'n cast_env \<Rightarrow> cc_act" where
  "onVolumeTimer env =
     acts [modify (\<lambda>s. s\<lparr>cc_volumeTimer := False\<rparr>),
           with_state (\<lambda>s. issueCommand ''command/volume'' (''volume='' @ ce_double env (cc_lastVolume s) 200))]"

text \<open>Times of day in milliseconds; \<open>now2\<close> is the second look at the clock.\<close>

definition setVolume :: "'n cast_env \<Rightarrow> int \<Rightarrow> int \<Rightarrow> int \<Rightarrow> cc_act" where
  "setVolume env now now2 vol =
     with_state (\<lambda>s. if cc_lastVolume s = vol then skip_act
                else acts
                  [modify (\<lambda>s. s\<lparr>cc_lastVolume := vol\<rparr>),
                   if now < cc_blockUntil s then modify (\<lambda>s. s\<lparr>cc_volumeTimer := True\<rparr>)
                   else acts
                     [issueCommand ''command/volume'' (''volume='' @ ce_double env vol 200),
                      modify (\<lambda>s. s\<lparr>cc_blockUntil := (now2 + 500) mod 86400000\<rparr>)]])"

definition setFontSize :: "int \<Rightarrow> cc_act" where
  "setFontSize fs =
     (let fs = (if 2 < fs then 2 else fs); fs = (if fs < - 2 then - 2 else fs)
      in acts [modify (\<lambda>s. s\<lparr>cc_fontSize := fs\<rparr>),
               issueCommand ''command/fontSize'' (''fontSize='' @ int_str fs)])"

subsection \<open>Devices\<close>

definition addDevice :: "cast_device \<Rightarrow> cc_act" where
  "addDevice d =
     with_state (\<lambda>s. if \<not> isValidDevice d \<or> list_ex (\<lambda>x. device_eq x d) (cc_devs s) then skip_act
                else acts [modify (\<lambda>s. s\<lparr>cc_devs := cc_devs s @ [d]\<rparr>), emit (ListAdd (cd_name d))])"

definition parseDiscovery :: "'n cast_env \<Rightarrow> bytes \<Rightarrow> cc_act" where
  "parseDiscovery env data =
     (let jObj = ce_json env data in if jObj = [] then skip_act else addDevice (castDevice env jObj))"

definition startDiscovery :: "bool \<Rightarrow> bool \<Rightarrow> cc_act" where
  "startDiscovery running crashed =
     (if running then skip_act
      else if crashed then
        acts [emit (SingleShotStart 1000), modify (\<lambda>s. s\<lparr>cc_restartTimer := True\<rparr>)]
      else acts [emit DiscoveryStart, modify (\<lambda>s. s\<lparr>cc_restartTimer := True\<rparr>)])"

definition discoveryStopped :: "bool \<Rightarrow> bool \<Rightarrow> cc_act" where
  "discoveryStopped running normalExit = startDiscovery running normalExit"

subsection \<open>The state reported by the device\<close>

definition device_image :: "cast_type \<Rightarrow> bytes" where
  "device_image ty =
     (case ty of TAirplay \<Rightarrow> '':/airplay_icon'' | TChromecast \<Rightarrow> '':/chromecast_icon''
      | TDlna \<Rightarrow> '':/dlna_icon'' | _ \<Rightarrow> [])"

definition millis_or :: "'n cast_env \<Rightarrow> 'n json \<Rightarrow> int" where
  "millis_or env v = (case to_num v of None \<Rightarrow> - 1000 | Some x \<Rightarrow> ce_millis env x)"

definition parseMStat :: "'n cast_env \<Rightarrow> bytes \<Rightarrow> cc_act" where
  "parseMStat env data =
     (let jObj = ce_json env data
      in if jObj = [] then skip_act
         else
           (let theState = to_string ''INVALID_VALUE'' (obj_value ''playerState'' jObj);
                duration = millis_or env (obj_value ''duration'' (to_object (obj_value ''media'' jObj)));
                time = millis_or env (obj_value ''currentTime'' jObj);
                shown = (if theState = ''BUFFERING'' then ''Buffering''
                         else if theState = ''PLAYING'' then ''Playing''
                         else if theState = ''PAUSED'' then ''Paused''
                         else if theState = ''INVALID_VALUE'' then [] else theState)
            in acts
              [if theState = ''BUFFERING'' then
                 with_state (\<lambda>s. if cc_state s = Opening
                            then when_act (0 \<le> duration) (emit (LengthChanged duration))
                            else setState Buffering)
               else if theState = ''PLAYING'' then setState Playing
               else when_act (theState = ''PAUSED'') (setState Paused),
               with_state (\<lambda>s. when_act (shown \<noteq> [])
                 (emit (StateText (CAST_DEVICETYPE_USER_STRING (cd_type (cc_current s)) @ '' '' @ shown)))),
               with_state (\<lambda>s. emit (StateImage (device_image (cd_type (cc_current s))))),
               when_act (0 \<le> time)
                 (acts [emit (TimeChanged time), modify (\<lambda>s. s\<lparr>cc_currentTime := time\<rparr>)])]))"

definition handleCastingSwitch :: "bool \<Rightarrow> cc_act" where
  "handleCastingSwitch on =
     with_state (\<lambda>s0.
       if on = cc_casting s0 then skip_act
       else acts
         [if on then with_state (\<lambda>s. when_act (cc_state s = Idle) (setState Opening))
          else with_state (\<lambda>s. when_act (cc_state s \<noteq> Idle) (setState Idle)),
          modify (\<lambda>s. s\<lparr>cc_casting := on\<rparr>),
          emit (CastingSwitched on),
          emit (StateText ''Starting Casting...''),
          modify (\<lambda>s. s\<lparr>cc_lastVolume := 100, cc_refresh := on\<rparr>),
          emit MovieStop,
          modify (\<lambda>s. s\<lparr>cc_currentTime := 0, cc_checkable := on\<rparr>),
          emit (ChangedState on),
          when_act (\<not> on) (modify (\<lambda>s. s\<lparr>cc_current := no_device\<rparr>))])"

definition serverStopped :: cc_act where
  "serverStopped = handleCastingSwitch False"

subsection \<open>The refresh timer\<close>

definition refresh_period :: "cc \<Rightarrow> int" where
  "refresh_period s =
     (if cd_type (cc_current s) = TChromecast
      then CHROMECAST_REFRESH_INTERVAL_CC sdiv CHROMECAST_REFRESH_TIMER_INTERVAL
      else CHROMECAST_REFRESH_INTERVAL_OTHER sdiv CHROMECAST_REFRESH_TIMER_INTERVAL)"

definition timerEvent :: cc_act where
  "timerEvent =
     with_state (\<lambda>s0. acts
       [modify (\<lambda>s. s\<lparr>cc_currentTime := cc_currentTime s + CHROMECAST_REFRESH_TIMER_INTERVAL\<rparr>),
        with_state (\<lambda>s. emit (TimeChanged (cc_currentTime s))),
        modify (\<lambda>s. s\<lparr>cc_counter := cc_counter s + 1\<rparr>),
        when_act (refresh_period s0 \<le> cc_counter s0)
          (acts [issueCommand ''command/mediaState'' [], modify (\<lambda>s. s\<lparr>cc_counter := 0\<rparr>)])])"

subsection \<open>Messages of the scripts and the device list\<close>

definition load_url :: "'n cast_env \<Rightarrow> cc \<Rightarrow> bytes" where
  "load_url env s =
     cc_serverUrl s @ ''command/load?deviceType='' @ CAST_DEVICETYPE_STRING (cd_type (cc_current s)) @
     ''&deviceIP='' @ ip_string (cc_current s) @ ''&torrentFile='' @ ce_percent env (cc_mediaFile s) @
     ''&fontSize='' @ int_str (cc_fontSize s)"

definition parseNjsData :: "'n cast_env \<Rightarrow> bytes \<Rightarrow> bytes \<Rightarrow> cc_act" where
  "parseNjsData env key value =
     (if key = ''DEVICE_FOUND'' then parseDiscovery env value
      else if key = ''LISTEN_URL'' then
        acts [modify (\<lambda>s. s\<lparr>cc_serverUrl := value\<rparr>), with_state (\<lambda>s. emit (HttpGet (load_url env s)))]
      else if key = ''DSTAT'' then handleCastingSwitch (value = ''CONNECTED'')
      else if key = ''MSTAT'' then parseMStat env value
      else when_act (key = ''ERR'') (acts [cc_stop, emit (StateText ''Casting error'')]))"

definition onListItemClicked :: "bytes \<Rightarrow> cc_act" where
  "onListItemClicked item =
     acts
       [emit PopupHide,
        with_state (\<lambda>s0.
          if item = cd_name (cc_current s0) then skip_act
          else acts
            [cc_stop,
             modify (\<lambda>s. s\<lparr>cc_current := no_device\<rparr>),
             if item = CHROMECAST_DEVICE_TEXT_LOCAL then skip_act
             else with_state (\<lambda>s.
               case find (\<lambda>d. cd_name d = item) (cc_devs s) of
                 None \<Rightarrow> skip_act
               | Some d \<Rightarrow>
                   acts [modify (\<lambda>s. s\<lparr>cc_current := d\<rparr>), emit MovieStart, emit CastRestart,
                         emit DeviceSelected])])]"

definition buttonClicked :: cc_act where
  "buttonClicked = with_state (\<lambda>s. if cc_checkable s then cc_stop else emit PopupShow)"

text \<open>The constructor; \<open>vol\<close> is the uninitialised \<^verbatim>\<open>lastVolume\<close>.\<close>

definition cc_init :: "int \<Rightarrow> cc" where
  "cc_init vol = \<lparr>cc_devs = [], cc_current = no_device, cc_casting = False, cc_state = Idle,
     cc_serverUrl = [], cc_subtitleFile = [], cc_mediaFile = [], cc_fontSize = 0, cc_startTime = 0,
     cc_currentTime = 0, cc_lastVolume = vol, cc_volumeTimer = False, cc_blockUntil = 0,
     cc_refresh = False, cc_counter = 0, cc_restartTimer = True, cc_checkable = False\<rparr>"

definition setMediaFile :: "bytes \<Rightarrow> cc_act" where
  "setMediaFile name = modify (\<lambda>s. s\<lparr>cc_mediaFile := name\<rparr>)"

subsection \<open>What the handlers leave alone\<close>

lemma issueCommand_state [simp]: "fst (issueCommand c a s) = s"
  by (simp add: issueCommand_def)

declare acts.simps(2) [simp del]

lemma setSubtitleFileV_state [simp]: "fst (setSubtitleFileV f s) = s\<lparr>cc_subtitleFile := f\<rparr>"
  by (simp add: setSubtitleFileV_def run_simps)

lemma setState_state: "fst (setState n s) =
    (if cc_state s = n then s
     else s\<lparr>cc_state := n, cc_startTime := (if n = Idle then 0 else cc_startTime s)\<rparr>)"
  by (auto simp: setState_def run_simps)

lemma cc_stop_state [simp]: "fst (cc_stop s) = s\<lparr>cc_startTime := 0\<rparr>"
  by (simp add: cc_stop_def run_simps)

lemma handleCastingSwitch_state: "fst (handleCastingSwitch on s) =
    (if on = cc_casting s then s
     else if on then (if cc_state s = Idle then s\<lparr>cc_state := Opening\<rparr> else s)
        \<lparr>cc_casting := True, cc_lastVolume := 100, cc_refresh := True, cc_currentTime := 0, cc_checkable := True\<rparr>
     else s\<lparr>cc_state := Idle, cc_startTime := (if cc_state s = Idle then cc_startTime s else 0),
        cc_casting := False, cc_lastVolume := 100, cc_refresh := False, cc_currentTime := 0,
        cc_checkable := False, cc_current := no_device\<rparr>)"
  by (auto simp: handleCastingSwitch_def run_simps setState_state)

subsection \<open>The invariant\<close>

fun devices_distinct :: "cast_device list \<Rightarrow> bool" where
  "devices_distinct [] \<longleftrightarrow> True"
| "devices_distinct (d # ds) \<longleftrightarrow> \<not> list_ex (\<lambda>x. device_eq x d) ds \<and> devices_distinct ds"

definition cc_wf :: "cc \<Rightarrow> bool" where
  "cc_wf s \<longleftrightarrow>
     devices_distinct (cc_devs s) \<and> list_all isValidDevice (cc_devs s) \<and>
     (cc_current s = no_device \<or> cc_current s \<in> set (cc_devs s)) \<and>
     cc_refresh s = cc_casting s \<and> cc_checkable s = cc_casting s \<and>
     (cc_state s = Idle \<longrightarrow> \<not> cc_casting s) \<and>
     - 2 \<le> cc_fontSize s \<and> cc_fontSize s \<le> 2"

lemma devices_distinct_snoc:
  "devices_distinct (ds @ [d]) \<longleftrightarrow> devices_distinct ds \<and> \<not> list_ex (\<lambda>x. device_eq x d) ds"
  by (induction ds) (auto simp: device_eq_def)

lemma cc_wf_setState: "n \<noteq> Idle \<Longrightarrow> cc_wf s \<Longrightarrow> cc_wf (fst (setState n s))"
  by (auto simp: setState_state cc_wf_def)

lemma cc_wf_handleCastingSwitch: "cc_wf s \<Longrightarrow> cc_wf (fst (handleCastingSwitch on s))"
  by (auto simp: handleCastingSwitch_state cc_wf_def)

lemma cc_wf_addDevice: "cc_wf s \<Longrightarrow> cc_wf (fst (addDevice d s))"
  by (auto simp: addDevice_def run_simps cc_wf_def devices_distinct_snoc)

lemma cc_wf_parseDiscovery: "cc_wf s \<Longrightarrow> cc_wf (fst (parseDiscovery env data s))"
  by (simp add: parseDiscovery_def Let_def cc_wf_addDevice)

lemma cc_wf_currentTime: "cc_wf s \<Longrightarrow> cc_wf (s\<lparr>cc_currentTime := t\<rparr>)"
  by (simp add: cc_wf_def)

lemma cc_wf_parseMStat: "cc_wf s \<Longrightarrow> cc_wf (fst (parseMStat env data s))"
  by (auto simp: parseMStat_def Let_def run_simps cc_wf_setState cc_wf_currentTime)

lemma cc_wf_onListItemClicked: "cc_wf s \<Longrightarrow> cc_wf (fst (onListItemClicked item s))"
  by (auto simp: onListItemClicked_def run_simps cc_wf_def find_Some_iff split: option.split)

subsection \<open>The events of the application\<close>

datatype cc_event =
    EvToken bytes bytes | EvServerStopped | EvDiscoveryStopped bool bool | EvClick bytes | EvButton
  | EvTimer | EvVolumeTimer | EvSeekStart | EvStop | EvPause | EvSetPause bool | EvSetTime int
  | EvSetStartTime int | EvSetMute bool | EvSetVolume int int int | EvSubtitle bytes
  | EvFontSize int | EvMedia bytes

fun cc_handle :: "'n cast_env \<Rightarrow> cc_event \<Rightarrow> cc_act" where
  "cc_handle env (EvToken k v) = parseNjsData env k v"
| "cc_handle env EvServerStopped = serverStopped"
| "cc_handle env (EvDiscoveryStopped r n) = discoveryStopped r n"
| "cc_handle env (EvClick i) = onListItemClicked i"
| "cc_handle env EvButton = buttonClicked"
| "cc_handle env EvTimer = timerEvent"
| "cc_handle env EvVolumeTimer = onVolumeTimer env"
| "cc_handle env EvSeekStart = seekStartTime env"
| "cc_handle env EvStop = cc_stop"
| "cc_handle env EvPause = cc_pause"
| "cc_handle env (EvSetPause p) = setPause p"
| "cc_handle env (EvSetTime t) = setTime env t"
| "cc_handle env (EvSetStartTime t) = setStartTime t"
| "cc_handle env (EvSetMute b) = setMute b"
| "cc_handle env (EvSetVolume t t' v) = setVolume env t t' v"
| "cc_handle env (EvSubtitle f) = setSubtitleFileV f"
| "cc_handle env (EvFontSize n) = setFontSize n"
| "cc_handle env (EvMedia f) = setMediaFile f"

definition cc_run :: "'n cast_env \<Rightarrow> cc_event list \<Rightarrow> cc_act" where
  "cc_run env evs = acts (map (cc_handle env) evs)"

lemma cc_wf_handle: "cc_wf s \<Longrightarrow> cc_wf (fst (cc_handle env ev s))"
proof (cases ev)
  case (EvToken k v)
  assume "cc_wf s"
  moreover have "cc_wf s \<Longrightarrow> cc_wf (s\<lparr>cc_serverUrl := v\<rparr>)" "cc_wf s \<Longrightarrow> cc_wf (s\<lparr>cc_startTime := 0\<rparr>)"
    by (simp_all add: cc_wf_def)
  ultimately show ?thesis
    using EvToken
    by (auto simp: parseNjsData_def run_simps cc_wf_parseDiscovery cc_wf_handleCastingSwitch
        cc_wf_parseMStat)
qed (auto simp: serverStopped_def discoveryStopped_def startDiscovery_def buttonClicked_def
  timerEvent_def onVolumeTimer_def seekStartTime_def cc_pause_def setPause_def setTime_def
  setStartTime_def setMute_def setVolume_def setFontSize_def setMediaFile_def Let_def run_simps
  cc_wf_handleCastingSwitch cc_wf_onListItemClicked, auto simp: cc_wf_def)

interpretation cast: machine "cc_handle env" "\<lambda>e. True" cc_wf for env
  by unfold_locales (rule cc_wf_handle)

text \<open>
  C27: after any sequence of events from the constructor on, the discovered devices are valid and
  pairwise different, the selected one is among them or none is, the refresh timer runs and the
  button is checkable exactly while casting, casting excludes the idle state, and the font size
  stays between -2 and 2.
\<close>

theorem cast_invariant: "cc_wf (fst (cc_run env evs (cc_init vol)))"
  unfolding cc_run_def by (rule cast.keeps_run) (simp_all add: cc_init_def cc_wf_def list_all_iff)

subsection \<open>Casting switches on and off in turn\<close>

definition switches :: "cast_out list \<Rightarrow> bool list" where
  "switches os = List.map_filter (\<lambda>x. case x of CastingSwitched b \<Rightarrow> Some b | _ \<Rightarrow> None) os"

fun alternating :: "bool \<Rightarrow> bool list \<Rightarrow> bool" where
  "alternating b [] \<longleftrightarrow> True"
| "alternating b (x # xs) \<longleftrightarrow> x = b \<and> alternating (\<not> b) xs"

lemma switches_simps [simp]:
  "switches [] = []" "switches (xs @ ys) = switches xs @ switches ys"
  "switches (x # xs) = (case x of CastingSwitched b \<Rightarrow> b # switches xs | _ \<Rightarrow> switches xs)"
  by (simp_all add: switches_def map_filter_def split: cast_out.split)

lemma issueCommand_switches [simp]: "switches (snd (issueCommand c a s)) = []"
  by (simp add: issueCommand_def)

lemma setSubtitleFileV_switches [simp]: "switches (snd (setSubtitleFileV f s)) = []"
  by (simp add: setSubtitleFileV_def run_simps)

lemma setState_switches [simp]: "switches (snd (setState n s)) = []"
  by (simp add: setState_def run_simps)

lemma cc_stop_switches [simp]: "switches (snd (cc_stop s)) = []"
  by (simp add: cc_stop_def run_simps)

lemma handleCastingSwitch_switches:
  "switches (snd (handleCastingSwitch on s)) = (if on = cc_casting s then [] else [on])"
  by (simp add: handleCastingSwitch_def run_simps)

lemma handleCastingSwitch_casting: "cc_casting (fst (handleCastingSwitch on s)) = on"
  by (auto simp: handleCastingSwitch_state)

lemma setState_casting: "cc_casting (fst (setState n s)) = cc_casting s"
  by (simp add: setState_state)

lemma parseMStat_casting:
  "cc_casting (fst (parseMStat env data s)) = cc_casting s" "switches (snd (parseMStat env data s)) = []"
  by (simp_all add: parseMStat_def Let_def run_simps setState_casting)

lemma parseDiscovery_casting:
  "cc_casting (fst (parseDiscovery env data s)) = cc_casting s"
  "switches (snd (parseDiscovery env data s)) = []"
  by (simp_all add: parseDiscovery_def addDevice_def Let_def run_simps)

lemma handle_switches:
  "switches (snd (cc_handle env ev s)) =
    (if cc_casting (fst (cc_handle env ev s)) = cc_casting s then []
     else [cc_casting (fst (cc_handle env ev s))])"
proof (cases ev)
  case (EvClick i)
  then show ?thesis by (auto simp: onListItemClicked_def run_simps split: option.split)
qed (auto simp: parseNjsData_def serverStopped_def discoveryStopped_def startDiscovery_def
  buttonClicked_def timerEvent_def onVolumeTimer_def seekStartTime_def cc_pause_def setPause_def
  setTime_def setStartTime_def setMute_def setVolume_def setFontSize_def setMediaFile_def Let_def
  run_simps handleCastingSwitch_switches handleCastingSwitch_casting parseMStat_casting
  parseDiscovery_casting)

text \<open>
  In every run the signal \<^verbatim>\<open>castingSwitched\<close> goes on and off in turn, beginning with on.
\<close>

theorem casting_alternates:
  "alternating True (switches (snd (cc_run env evs (cc_init vol))))"
proof -
  have "alternating (\<not> cc_casting s) (switches (snd (cc_run env evs s)))" for s
  proof (induction evs arbitrary: s)
    case (Cons ev evs)
    let ?s = "fst (cc_handle env ev s)"
    have "switches (snd (cc_run env (ev # evs) s)) =
        switches (snd (cc_handle env ev s)) @ switches (snd (cc_run env evs ?s))"
      by (simp add: cc_run_def snd_acts)
    with Cons.IH [of ?s] show ?case by (cases "cc_casting s") (auto simp: handle_switches)
  qed (simp add: cc_run_def)
  from this [of "cc_init vol"] show ?thesis by (simp add: cc_init_def)
qed

subsection \<open>Commands that are dropped\<close>

fun is_http :: "cast_out \<Rightarrow> bool" where
  "is_http (HttpGet u) = True"
| "is_http _ = False"

lemma issueCommand_drop:
  "cc_state s \<notin> {Playing, Paused} \<Longrightarrow> snd (issueCommand c a s) = []"
  by (simp add: issueCommand_def)

lemma cc_stop_drop:
  "cc_state s \<notin> {Playing, Paused} \<Longrightarrow> list_all (\<lambda>x. \<not> is_http x) (snd (cc_stop s))"
  by (simp add: cc_stop_def run_simps issueCommand_drop)

text \<open>
  Outside the states playing and paused no event but a message of the scripts sends a request
  to the casting server.
\<close>

theorem commands_gated:
  assumes "cc_state s \<notin> {Playing, Paused}" "\<And>k v. ev \<noteq> EvToken k v"
  shows "list_all (\<lambda>x. \<not> is_http x) (snd (cc_handle env ev s))"
proof (cases ev)
  case EvServerStopped
  have "list_all (\<lambda>x. \<not> is_http x) (snd (setState Idle s'))" for s'
    by (simp add: setState_def run_simps)
  then show ?thesis
    using EvServerStopped by (simp add: serverStopped_def handleCastingSwitch_def run_simps)
next
  case (EvClick i)
  then show ?thesis
    using assms(1) cc_stop_drop [of s]
    by (auto simp: onListItemClicked_def run_simps split: option.split)
qed (use assms cc_stop_drop [of s] in \<open>auto simp: issueCommand_drop discoveryStopped_def
  startDiscovery_def buttonClicked_def timerEvent_def onVolumeTimer_def seekStartTime_def
  cc_pause_def setPause_def setTime_def setStartTime_def setMute_def setVolume_def setFontSize_def
  setMediaFile_def setSubtitleFileV_def Let_def run_simps\<close>)

definition plain_env :: "int cast_env" where
  "plain_env = \<lparr>ce_double = (\<lambda>n d. int_str (n sdiv d)), ce_millis = (\<lambda>x. 1000 * x),
     ce_percent = (\<lambda>s. s), ce_address = Some, ce_json = (\<lambda>s. [])\<rparr>"

lemma commands_gated_witness:
  "list_all (\<lambda>x. \<not> is_http x)
     (snd (cc_handle plain_env (EvSetMute True) ((cc_init 0)\<lparr>cc_state := Buffering\<rparr>)))"
  by (rule commands_gated) simp_all

text \<open>
  A volume set while the device buffers is lost for good: its command is dropped, no timer is
  started, and setting the same volume again once the device plays sends nothing.
\<close>

theorem volume_lost_while_buffering:
  assumes "cc_state s = Buffering" "\<not> t < cc_blockUntil s"
  shows "list_all (\<lambda>x. \<not> is_http x)
      (snd (acts [setVolume env t t' v, setState Playing, setVolume env u u' v] s)) \<and>
    cc_volumeTimer (fst (acts [setVolume env t t' v, setState Playing, setVolume env u u' v] s)) =
      cc_volumeTimer s"
  using assms by (auto simp: setVolume_def run_simps issueCommand_drop setState_def)

lemma volume_lost_while_buffering_witness:
  "let s = (cc_init 100)\<lparr>cc_state := Buffering\<rparr>
   in list_all (\<lambda>x. \<not> is_http x)
        (snd (acts [setVolume plain_env 7 8 40, setState Playing, setVolume plain_env 900 901 40] s))"
proof -
  let ?s = "(cc_init 100)\<lparr>cc_state := Buffering\<rparr>"
  have "cc_state ?s = Buffering" "\<not> 7 < cc_blockUntil ?s" by code_simp+
  then show ?thesis
    using volume_lost_while_buffering [of ?s 7 plain_env 8 40 900 901] unfolding Let_def by blast
qed

subsection \<open>The polling of the device\<close>

definition polls :: "cast_out list \<Rightarrow> nat" where
  "polls os = length (filter is_http os)"

lemma timerEvent_step:
  assumes "cc_state s = Playing"
  shows "fst (timerEvent s) = s\<lparr>cc_currentTime := cc_currentTime s + 500,
      cc_counter := (if refresh_period s \<le> cc_counter s then 0 else cc_counter s + 1)\<rparr>"
    "polls (snd (timerEvent s)) = (if refresh_period s \<le> cc_counter s then 1 else 0)"
  using assms
  by (simp_all add: timerEvent_def run_simps issueCommand_def polls_def
      CHROMECAST_REFRESH_TIMER_INTERVAL_def)

lemma refresh_period_pos: "0 < refresh_period s"
  by (simp add: refresh_period_def CHROMECAST_REFRESH_TIMER_INTERVAL_def
      CHROMECAST_REFRESH_INTERVAL_CC_def CHROMECAST_REFRESH_INTERVAL_OTHER_def)

text \<open>
  While playing, the device is asked for its state once in every \<open>period + 1\<close> ticks of the
  timer, not once in every \<open>period\<close>.
\<close>

theorem polling_rate:
  assumes "cc_state s = Playing" "0 \<le> cc_counter s" "cc_counter s \<le> refresh_period s"
  shows "int (polls (snd (acts (replicate n timerEvent) s))) =
    (cc_counter s + int n) div (refresh_period s + 1)"
  using assms
proof (induction n arbitrary: s)
  case 0
  then show ?case by (simp add: polls_def div_pos_pos_trivial)
next
  case (Suc n)
  let ?s = "fst (timerEvent s)"
  have p: "refresh_period ?s = refresh_period s" "cc_state ?s = Playing"
    using Suc.prems by (simp_all add: timerEvent_step refresh_period_def)
  have split: "polls (snd (acts (replicate (Suc n) timerEvent) s)) =
      polls (snd (timerEvent s)) + polls (snd (acts (replicate n timerEvent) ?s))"
    by (simp add: snd_acts polls_def)
  show ?case
  proof (cases "refresh_period s \<le> cc_counter s")
    case True
    then have c: "cc_counter s = refresh_period s" using Suc.prems by simp
    have z: "cc_counter ?s = 0" using True Suc.prems by (simp add: timerEvent_step)
    have "(refresh_period s + int (Suc n)) div (refresh_period s + 1) =
        (int n + (refresh_period s + 1)) div (refresh_period s + 1)" by (simp add: algebra_simps)
    also have "\<dots> = int n div (refresh_period s + 1) + 1"
      by (rule div_add_self2) (use refresh_period_pos [of s] in simp)
    finally show ?thesis
      using split True Suc.IH [of ?s] Suc.prems p z refresh_period_pos [of s] c
      by (simp add: timerEvent_step(2))
  next
    case False
    have z: "cc_counter ?s = cc_counter s + 1" using False Suc.prems by (simp add: timerEvent_step)
    show ?thesis
      using split False Suc.IH [of ?s] Suc.prems p z by (simp add: timerEvent_step(2) algebra_simps)
  qed
qed
lemma polling_rate_witness:
  "int (polls (snd (acts (replicate 12 timerEvent)
     ((cc_init 0)\<lparr>cc_state := Playing, cc_current := no_device\<lparr>cd_type := TChromecast\<rparr>\<rparr>)))) = 4"
proof -
  let ?s = "(cc_init 0)\<lparr>cc_state := Playing, cc_current := no_device\<lparr>cd_type := TChromecast\<rparr>\<rparr>"
  have "refresh_period ?s = 2" "cc_counter ?s = 0" "cc_state ?s = Playing" by code_simp+
  then show ?thesis using polling_rate [of ?s 12] by simp
qed

end
