(* ===== verification/CommonTypes.thy ===== *)
theory CommonTypes
  imports Json
begin

section \<open>gui/commontypes.cpp: torrents and subtitles as the window passes them on\<close>

text \<open>
  \<^verbatim>\<open>TorrentInfo\<close> (the torrent the page asks for, its hash, the description sent with subtitles) and
  \<^verbatim>\<open>SubtitleItem\<close> (quoted names, the choice of the file of an archive). The two regular expressions
  of \<^verbatim>\<open>updateTorrentHash\<close> are written as the search they describe; the archives (quazip) and
  \<^verbatim>\<open>QUrl\<close> are arguments.
\<close>

subsection \<open>Characters\<close>

definition hex_char :: "char \<Rightarrow> bool" where
  "hex_char c = (let n = of_char c :: nat in
     48 \<le> n \<and> n \<le> 57 \<or> 65 \<le> n \<and> n \<le> 70 \<or> 97 \<le> n \<and> n \<le> 102)"

definition word_char :: "char \<Rightarrow> bool" where
  "word_char c = (let n = of_char c :: nat in
     48 \<le> n \<and> n \<le> 57 \<or> 65 \<le> n \<and> n \<le> 90 \<or> n = 95 \<or> 97 \<le> n \<and> n \<le> 122)"

definition to_lower :: "char \<Rightarrow> char" where
  "to_lower c = (let n = of_char c :: nat in if 65 \<le> n \<and> n \<le> 90 then char_of (n + 32) else c)"

definition lower_str :: "bytes \<Rightarrow> bytes" where
  "lower_str s = List.map to_lower s"

definition ends_with_ci :: "bytes \<Rightarrow> bytes \<Rightarrow> bool" where
  "ends_with_ci p s \<longleftrightarrow> ends_with (lower_str p) (lower_str s)"

lemma hex_char_word: "hex_char c \<Longrightarrow> word_char c"
  by (auto simp: hex_char_def word_char_def Let_def)

lemma to_lower_lower [simp]: "to_lower (to_lower c) = to_lower c"
  by (auto simp: to_lower_def Let_def)

lemma lower_str_lower [simp]: "lower_str (lower_str s) = lower_str s"
  by (simp add: lower_str_def)

lemma length_lower_str [simp]: "length (lower_str s) = length s"
  by (simp add: lower_str_def)

lemma hex_char_lower: "hex_char c \<Longrightarrow> hex_char (to_lower c)"
  by (auto simp: hex_char_def to_lower_def Let_def)

subsection \<open>The hash of a torrent\<close>

text \<open>
  \<^verbatim>\<open>match_at pre s i\<close>: the pattern \<^verbatim>\<open>\bPRE([A-Fa-f\d]{40})\b\<close> matches at position \<open>i\<close>, where the
  first character of the match is a word character, so that the leading \<^verbatim>\<open>\b\<close> asks for a
  non-word character (or nothing) before it, and the trailing one for the same after it.
\<close>

definition boundary_before :: "bytes \<Rightarrow> nat \<Rightarrow> bool" where
  "boundary_before s i \<longleftrightarrow> i = 0 \<or> \<not> word_char (s ! (i - 1))"

definition boundary_after :: "bytes \<Rightarrow> nat \<Rightarrow> bool" where
  "boundary_after s i \<longleftrightarrow> length s \<le> i \<or> \<not> word_char (s ! i)"

definition match_at :: "bytes \<Rightarrow> bytes \<Rightarrow> nat \<Rightarrow> bool" where
  "match_at pre s i \<longleftrightarrow>
     boundary_before s i \<and> starts_with pre (drop i s) \<and>
     i + length pre + 40 \<le> length s \<and>
     list_all hex_char (take 40 (drop (i + length pre) s)) \<and>
     boundary_after s (i + length pre + 40)"

definition hash_match :: "bytes \<Rightarrow> bytes \<Rightarrow> bytes option" where
  "hash_match pre s =
     map_option (\<lambda>i. take 40 (drop (i + length pre) s)) (find (match_at pre s) [0..<length s])"

record 'n torrent_info =
  ti_index :: int
  ti_url :: bytes
  ti_magnet :: bytes
  ti_fileName :: bytes
  ti_title :: bytes
  ti_hash :: bytes
  ti_json :: "'n jobj"

definition updateTorrentHash :: "'n torrent_info \<Rightarrow> 'n torrent_info" where
  "updateTorrentHash t =
     (case hash_match ''urn:btih:'' (ti_magnet t) of
        Some h \<Rightarrow> t\<lparr>ti_hash := lower_str h\<rparr>
      | None \<Rightarrow>
          (case hash_match [] (ti_url t) of
             Some h \<Rightarrow> t\<lparr>ti_hash := h\<rparr>
           | None \<Rightarrow> t))"

definition torrentInfo_default :: "'n torrent_info" where
  "torrentInfo_default = \<lparr>ti_index = - 1, ti_url = [], ti_magnet = [], ti_fileName = [],
     ti_title = [], ti_hash = [], ti_json = []\<rparr>"

text \<open>
  The constructor from the object of the page leaves \<^verbatim>\<open>index\<close> unset: \<open>raw\<close> is what the memory held.
\<close>

definition torrentInfo_json :: "int \<Rightarrow> 'n jobj \<Rightarrow> 'n torrent_info" where
  "torrentInfo_json raw jObj =
     (let tor = to_object (obj_value ''torrent'' jObj)
      in updateTorrentHash
           \<lparr>ti_index = raw, ti_url = to_string [] (obj_value ''url'' tor),
            ti_magnet = to_string [] (obj_value ''magnet'' tor),
            ti_fileName = to_string [] (obj_value ''file'' tor),
            ti_title = to_string [] (obj_value ''title'' jObj), ti_hash = [], ti_json = jObj\<rparr>)"

definition torrentInfo_strings :: "bytes \<Rightarrow> bytes \<Rightarrow> bytes \<Rightarrow> bytes \<Rightarrow> 'n torrent_info" where
  "torrentInfo_strings iurl imagnet ifileName iTitle =
     updateTorrentHash
       \<lparr>ti_index = - 1, ti_url = iurl, ti_magnet = imagnet, ti_fileName = ifileName,
        ti_title = iTitle, ti_hash = [], ti_json = []\<rparr>"

definition torrent_isValid :: "'n torrent_info \<Rightarrow> bool" where
  "torrent_isValid t \<longleftrightarrow> ti_url t \<noteq> [] \<or> ti_magnet t \<noteq> []"

definition getImdb :: "'n torrent_info \<Rightarrow> bytes" where
  "getImdb t = to_string [] (obj_value ''id'' (ti_json t))"

text \<open>\<^verbatim>\<open>QUrl\<close>: the scheme, the text and the decoded \<^verbatim>\<open>dn\<close> item of the query.\<close>

record url_view =
  u_scheme :: bytes
  u_text :: bytes
  u_dn :: bytes

definition fromUrl :: "url_view \<Rightarrow> bytes \<Rightarrow> 'n torrent_info" where
  "fromUrl u fileName =
     (if u_scheme u = ''magnet'' then torrentInfo_strings [] (u_text u) fileName (u_dn u)
      else if u_scheme u = ''http'' \<or> u_scheme u = ''https''
      then torrentInfo_strings (u_text u) [] fileName []
      else torrentInfo_default)"

text \<open>Assignment to a key of a \<^verbatim>\<open>QJsonObject\<close>: an undefined value removes the key.\<close>

definition obj_put :: "bytes \<Rightarrow> 'n json \<Rightarrow> 'n jobj \<Rightarrow> 'n jobj" where
  "obj_put k v ob =
     (let ob' = filter (\<lambda>p. fst p \<noteq> k) ob
      in case v of JUndefined \<Rightarrow> ob' | _ \<Rightarrow> (k, v) # ob')"

fun is_double :: "'n json \<Rightarrow> bool" where
  "is_double (JNum _) = True"
| "is_double _ = False"

definition getTorrentDesc :: "'n::one torrent_info \<Rightarrow> 'n jobj" where
  "getTorrentDesc t =
     (let imdb = getImdb t; hash = lower_str (ti_hash t); get = (\<lambda>k. obj_value k (ti_json t))
      in if imdb = [] \<or> hash = [] then []
         else
           (let r1 = obj_put ''imdb'' (JStr imdb) [];
                r2 = obj_put ''torrentHash'' (JStr hash) r1;
                r3 = obj_put ''filename'' (JStr (ti_fileName t)) r2;
                r4 = obj_put ''image'' (get ''image'') r3;
                r5 = obj_put ''title'' (get ''title'') r4;
                r6 = obj_put ''api'' (JNum 1) r5
            in if is_double (get ''season_id'') \<and> is_double (get ''episode_id'')
               then obj_put ''eimdb'' (get ''eimdb'')
                      (obj_put ''episode'' (get ''episode_number'')
                        (obj_put ''season'' (get ''season_id'') r6))
               else obj_put ''year'' (get ''year'') r6))"

subsection \<open>Facts about torrents\<close>

lemma obj_value_put:
  "obj_value k (obj_put j v ob) = (if k = j then v else obj_value k ob)"
proof -
  have "map_of (filter (\<lambda>p. fst p \<noteq> j) ob) k = (if k = j then None else map_of ob k)"
    by (induction ob) auto
  then show ?thesis by (cases v) (simp_all add: obj_put_def obj_value_def Let_def)
qed

lemma hash_match_Some:
  "hash_match pre s = Some h \<longleftrightarrow>
     (\<exists>i<length s. match_at pre s i \<and> (\<forall>j<i. \<not> match_at pre s j) \<and>
        h = take 40 (drop (i + length pre) s))"
proof
  assume "hash_match pre s = Some h"
  then show "\<exists>i<length s. match_at pre s i \<and> (\<forall>j<i. \<not> match_at pre s j) \<and>
      h = take 40 (drop (i + length pre) s)"
    by (auto simp: hash_match_def find_Some_iff)
next
  assume "\<exists>i<length s. match_at pre s i \<and> (\<forall>j<i. \<not> match_at pre s j) \<and>
      h = take 40 (drop (i + length pre) s)"
  then obtain i where i: "i < length s" "match_at pre s i" "\<forall>j<i. \<not> match_at pre s j"
    "h = take 40 (drop (i + length pre) s)" by blast
  then have "find (match_at pre s) [0..<length s] = Some i" by (auto simp: find_Some_iff)
  with i(4) show "hash_match pre s = Some h" by (simp add: hash_match_def)
qed

lemma hash_match_hex:
  assumes "hash_match pre s = Some h"
  shows "length h = 40" "list_all hex_char h"
  using assms by (auto simp: hash_match_Some match_at_def)

definition hash_ok :: "bytes \<Rightarrow> bool" where
  "hash_ok h \<longleftrightarrow> h = [] \<or> length h = 40 \<and> list_all hex_char h"

lemma hash_ok_lower: "hash_ok h \<Longrightarrow> hash_ok (lower_str h)"
  by (auto simp: hash_ok_def lower_str_def list_all_iff intro: hex_char_lower)

lemma updateTorrentHash_frame [frame]:
  "ti_index (updateTorrentHash t) = ti_index t" "ti_url (updateTorrentHash t) = ti_url t"
  "ti_magnet (updateTorrentHash t) = ti_magnet t" "ti_json (updateTorrentHash t) = ti_json t"
  "ti_fileName (updateTorrentHash t) = ti_fileName t" "ti_title (updateTorrentHash t) = ti_title t"
  by (simp_all add: updateTorrentHash_def split: option.split)

lemma updateTorrentHash_ok: "hash_ok (ti_hash t) \<Longrightarrow> hash_ok (ti_hash (updateTorrentHash t))"
proof -
  have "hash_ok h" if "hash_match pre s = Some h" for pre s h
    using hash_match_hex [OF that] by (simp add: hash_ok_def)
  then show "hash_ok (ti_hash t) \<Longrightarrow> ?thesis"
    by (auto simp: updateTorrentHash_def intro: hash_ok_lower split: option.split)
qed

text \<open>
  A torrent has no hash or one of 40 hexadecimal digits, however it was made, and its
  description is empty or holds that hash in lower case with a title's id: it is empty exactly when
  the page gave no id or no hash was found.
\<close>

theorem torrent_description:
  fixes j :: "'n::one jobj"
  shows "hash_ok (ti_hash (torrentInfo_json raw j)) \<and>
    obj_value ''torrentHash'' (getTorrentDesc (torrentInfo_json raw j)) =
      (if getTorrentDesc (torrentInfo_json raw j) = [] then JUndefined
       else JStr (lower_str (ti_hash (torrentInfo_json raw j)))) \<and>
    (getTorrentDesc (torrentInfo_json raw j) = [] \<longleftrightarrow>
      to_string [] (obj_value ''id'' j) = [] \<or> ti_hash (torrentInfo_json raw j) = []) \<and>
    getTorrentDesc (fromUrl u name :: 'n torrent_info) = []"
proof (intro conjI)
  show "hash_ok (ti_hash (torrentInfo_json raw j))"
    by (auto simp: torrentInfo_json_def Let_def hash_ok_def [of "[]"] intro!: updateTorrentHash_ok)
  have v: "obj_value ''torrentHash'' (getTorrentDesc t) =
      (if getImdb t = [] \<or> ti_hash t = [] then JUndefined else JStr (lower_str (ti_hash t)))"
    for t :: "'n torrent_info"
    by (simp add: getTorrentDesc_def Let_def obj_value_put lower_str_def)
      (simp add: obj_value_def)
  have "getTorrentDesc t = [] \<longleftrightarrow> getImdb t = [] \<or> ti_hash t = []" for t :: "'n torrent_info"
  proof
    assume "getTorrentDesc t = []"
    then show "getImdb t = [] \<or> ti_hash t = []" using v [of t] by (simp add: obj_value_def split: if_splits)
  qed (auto simp: getTorrentDesc_def lower_str_def Let_def)
  note e = this
  have id: "getImdb (torrentInfo_json raw j) = to_string [] (obj_value ''id'' j)"
    by (simp add: getImdb_def torrentInfo_json_def Let_def frame)
  show "getTorrentDesc (torrentInfo_json raw j) = [] \<longleftrightarrow>
      to_string [] (obj_value ''id'' j) = [] \<or> ti_hash (torrentInfo_json raw j) = []"
    by (simp add: e id)
  show "obj_value ''torrentHash'' (getTorrentDesc (torrentInfo_json raw j)) =
      (if getTorrentDesc (torrentInfo_json raw j) = [] then JUndefined
       else JStr (lower_str (ti_hash (torrentInfo_json raw j))))"
    by (simp add: e v)
  have "ti_json (fromUrl u name :: 'n torrent_info) = []"
    by (simp add: fromUrl_def torrentInfo_strings_def torrentInfo_default_def frame)
  then show "getTorrentDesc (fromUrl u name :: 'n torrent_info) = []"
    by (simp add: e getImdb_def obj_value_def)
qed

subsection \<open>Subtitles\<close>

text \<open>File names: \<^verbatim>\<open>QFileInfo::fileName\<close>, \<^verbatim>\<open>suffix\<close> and \<^verbatim>\<open>completeBaseName\<close>.\<close>

definition base_name :: "bytes \<Rightarrow> bytes" where
  "base_name s = rev (takeWhile (\<lambda>c. c \<noteq> CHR ''/'') (rev s))"

definition suffix_of :: "bytes \<Rightarrow> bytes" where
  "suffix_of s = (let b = base_name s in
     if CHR ''.'' \<in> set b then rev (takeWhile (\<lambda>c. c \<noteq> CHR ''.'') (rev b)) else [])"

definition complete_base :: "bytes \<Rightarrow> bytes" where
  "complete_base s = (let b = base_name s in
     if CHR ''.'' \<in> set b then rev (List.tl (dropWhile (\<lambda>c. c \<noteq> CHR ''.'') (rev b))) else b)"

record 'n subtitle_item =
  si_language :: bytes
  si_langAbbr :: bytes
  si_zipData :: bytes
  si_data :: bytes
  si_fileName :: bytes
  si_zipName :: bytes
  si_urlPath :: bytes
  si_zipMD5 :: bytes
  si_dataMD5 :: bytes
  si_desc :: "'n jobj"

definition subtitleItem :: "'n::one torrent_info \<Rightarrow> bytes \<Rightarrow> bytes \<Rightarrow> bytes \<Rightarrow> 'n subtitle_item" where
  "subtitleItem t theLang theAbbr theUrlPath =
     \<lparr>si_language = theLang, si_langAbbr = theAbbr, si_zipData = [], si_data = [], si_fileName = [],
      si_zipName = [], si_urlPath = theUrlPath, si_zipMD5 = [], si_dataMD5 = [],
      si_desc = getTorrentDesc t\<rparr>"

text \<open>\<^verbatim>\<open>name.mid(1, name.size() - 2)\<close>: with the length -1 of a single quote, all that follows.\<close>

definition unquote :: "char \<Rightarrow> bytes \<Rightarrow> bytes" where
  "unquote q s =
     (if starts_with [q] s \<and> ends_with [q] s
      then (if length s = 1 then drop 1 s else take (length s - 2) (drop 1 s)) else s)"

definition unquoted :: "bytes \<Rightarrow> bytes" where
  "unquoted name = unquote (CHR 39) (unquote (CHR 34) name)"

definition setOriginalName :: "bytes \<Rightarrow> 'n subtitle_item \<Rightarrow> 'n subtitle_item" where
  "setOriginalName name s = s\<lparr>si_zipName := unquoted name\<rparr>"

definition setData :: "(bytes \<Rightarrow> bytes) \<Rightarrow> bytes \<Rightarrow> bytes \<Rightarrow> 'n subtitle_item \<Rightarrow> 'n subtitle_item" where
  "setData md5 body name s =
     (if body = [] then s
      else s\<lparr>si_data := body, si_dataMD5 := md5 body, si_fileName := unquoted name\<rparr>)"

text \<open>The loop over the entries of an archive: the members \<^verbatim>\<open>m_fileName\<close>, \<^verbatim>\<open>largest\<close> and the current file.\<close>

definition is_srt :: "bytes \<Rightarrow> bool" where
  "is_srt name \<longleftrightarrow> ends_with_ci ''srt'' (suffix_of name)"

fun choose_entry ::
    "(bytes \<times> int) list \<Rightarrow> bytes \<Rightarrow> int \<Rightarrow> bytes option \<Rightarrow> bytes \<times> int \<times> bytes option" where
  "choose_entry [] fname largest cur = (fname, largest, cur)"
| "choose_entry ((name, sz) # infos) fname largest cur =
     (if ends_with_ci ''srt'' fname
      then (if \<not> is_srt name \<or> sz \<le> largest then choose_entry infos fname largest cur
            else choose_entry infos name sz (Some name))
      else (if sz \<le> largest \<and> \<not> is_srt name then choose_entry infos fname largest cur
            else choose_entry infos name sz (Some name)))"

record arch_env =
  ae_md5 :: "bytes \<Rightarrow> bytes"
  ae_tmp :: bool
  ae_gunzip :: "bytes \<Rightarrow> bytes option"
  ae_infos :: "bytes \<Rightarrow> (bytes \<times> int) list option"
  ae_entry :: "bytes \<Rightarrow> bytes \<Rightarrow> bytes option"

definition unpacked :: "arch_env \<Rightarrow> bytes option \<Rightarrow> 'n subtitle_item \<Rightarrow> 'n subtitle_item \<times> bool" where
  "unpacked env content s =
     (case content of
        None \<Rightarrow> (s, False)
      | Some d \<Rightarrow>
          if d = [] then (s\<lparr>si_data := d\<rparr>, False)
          else (s\<lparr>si_data := d, si_dataMD5 := ae_md5 env d\<rparr>, True))"

definition setZipData :: "arch_env \<Rightarrow> bytes \<Rightarrow> 'n subtitle_item \<Rightarrow> 'n subtitle_item \<times> bool" where
  "setZipData env body s0 =
     (if body = [] then (s0, False)
      else
        (let s = s0\<lparr>si_zipData := body, si_zipMD5 := ae_md5 env body\<rparr>;
             path = (if si_zipName s \<noteq> [] then si_zipName s else si_urlPath s);
             originalName = complete_base path
         in if ends_with_ci ''gz'' (base_name path)
            then (if \<not> ae_tmp env then (s, False)
                  else unpacked env (ae_gunzip env body) (s\<lparr>si_fileName := originalName\<rparr>))
            else
              (case ae_infos env body of
                 None \<Rightarrow> (s, False)
               | Some [] \<Rightarrow> (s, False)
               | Some [(name, sz)] \<Rightarrow>
                   unpacked env (ae_entry env body name) (s\<lparr>si_fileName := base_name name\<rparr>)
               | Some infos \<Rightarrow>
                   (let (fname, largest, cur) = choose_entry infos (si_fileName s) 0 None;
                        s1 = s\<lparr>si_fileName := fname\<rparr>
                    in case cur of
                         None \<Rightarrow> (s1, False)
                       | Some name \<Rightarrow> unpacked env (ae_entry env body name) s1))))"

definition canDisplay :: "'n subtitle_item \<Rightarrow> bool" where
  "canDisplay s \<longleftrightarrow> si_data s \<noteq> []"

definition zipFileName :: "'n subtitle_item \<Rightarrow> bytes" where
  "zipFileName s = (if si_zipName s = [] then base_name (si_urlPath s) else si_zipName s)"

text \<open>Once a subtitle file is chosen, only larger subtitle files replace it.\<close>

lemma choose_after_srt:
  assumes "choose_entry infos f l c = (f', l', c')" "ends_with_ci ''srt'' f"
    and "\<forall>(n, z)\<in>set infos. is_srt n \<longrightarrow> ends_with_ci ''srt'' n"
  shows "l \<le> l' \<and> (\<forall>(n, z)\<in>set infos. is_srt n \<longrightarrow> z \<le> l') \<and>
    (f' = f \<and> l' = l \<and> c' = c \<or>
     (f', l') \<in> set infos \<and> is_srt f' \<and> c' = Some f')"
  using assms
proof (induction infos f l c rule: choose_entry.induct)
  case (2 name sz infos f l c)
  show ?case
  proof (cases "\<not> is_srt name \<or> sz \<le> l")
    case True
    with 2(5-) 2(1) [OF 2(6) True] show ?thesis by force
  next
    case False
    with 2(5-) 2(2) [OF 2(6) False] show ?thesis by force
  qed
qed simp

text \<open>Before any subtitle file is seen, the largest file so far is kept; then the first subtitle file.\<close>

lemma choose_before_srt:
  assumes "choose_entry infos f l c = (f', l', c')" "\<not> ends_with_ci ''srt'' f"
    and "\<forall>(n, z)\<in>set infos. is_srt n \<longleftrightarrow> ends_with_ci ''srt'' n"
  shows "if \<exists>(n, z)\<in>set infos. is_srt n
    then (f', l') \<in> set infos \<and> is_srt f' \<and> c' = Some f' \<and> (\<forall>(n, z)\<in>set infos. is_srt n \<longrightarrow> z \<le> l')
    else l \<le> l' \<and> (\<forall>(n, z)\<in>set infos. z \<le> l') \<and>
      (f' = f \<and> l' = l \<and> c' = c \<or> (f', l') \<in> set infos \<and> c' = Some f')"
  using assms
proof (induction infos arbitrary: f l c)
  case (Cons p infos)
  obtain name sz where p: "p = (name, sz)" by (cases p)
  show ?case
  proof (cases "is_srt name")
    case True
    with Cons.prems p have "choose_entry infos name sz (Some name) = (f', l', c')"
      "ends_with_ci ''srt'' name" by simp_all
    from choose_after_srt [OF this] Cons.prems True p show ?thesis by force
  next
    case False
    show ?thesis
    proof (cases "sz \<le> l")
      case True
      with False Cons.prems p have "choose_entry infos f l c = (f', l', c')" by simp
      from Cons.IH [OF this] Cons.prems False True p show ?thesis by (auto split: if_splits)
    next
      case False
      with \<open>\<not> is_srt name\<close> Cons.prems p have "choose_entry infos name sz (Some name) = (f', l', c')"
        "\<not> ends_with_ci ''srt'' name" by auto
      from Cons.IH [OF this] Cons.prems False \<open>\<not> is_srt name\<close> p show ?thesis
        by (auto split: if_splits)
    qed
  qed
qed simp

text \<open>
  Of an archive with several entries, one of them a subtitle file, \<^verbatim>\<open>setZipData\<close> unpacks a
  largest subtitle file, whatever the order and the other entries.
\<close>

theorem setZipData_picks_srt:
  assumes "body \<noteq> []" "ae_infos env body = Some infos" "2 \<le> length infos"
    and "\<not> ends_with_ci ''gz''
      (base_name (if si_zipName s0 \<noteq> [] then si_zipName s0 else si_urlPath s0))"
    and "\<not> ends_with_ci ''srt'' (si_fileName s0)"
    and "\<forall>(n, z)\<in>set infos. is_srt n \<longleftrightarrow> ends_with_ci ''srt'' n" "\<exists>(n, z)\<in>set infos. is_srt n"
  shows "\<exists>name z. (name, z) \<in> set infos \<and> is_srt name \<and>
    (\<forall>(n, y)\<in>set infos. is_srt n \<longrightarrow> y \<le> z) \<and>
    setZipData env body s0 = unpacked env (ae_entry env body name)
      (s0\<lparr>si_zipData := body, si_zipMD5 := ae_md5 env body, si_fileName := name\<rparr>)"
proof -
  obtain f l c where ch: "choose_entry infos (si_fileName s0) 0 None = (f, l, c)"
    by (cases "choose_entry infos (si_fileName s0) 0 None")
  from choose_before_srt [OF ch assms(5,6)] assms(7)
  have best: "(f, l) \<in> set infos" "is_srt f" "c = Some f" "\<forall>(n, y)\<in>set infos. is_srt n \<longrightarrow> y \<le> l"
    by simp_all
  obtain p q rest where infos: "infos = p # q # rest"
    using assms(3) by (cases infos; cases "List.tl infos") auto
  have "setZipData env body s0 = unpacked env (ae_entry env body f)
      (s0\<lparr>si_zipData := body, si_zipMD5 := ae_md5 env body, si_fileName := f\<rparr>)"
    using assms(1,2,4) ch best(3) infos
    by (cases "si_zipName s0 = []"; cases p)
      (simp_all add: setZipData_def Let_def del: choose_entry.simps)
  with best show ?thesis by blast
qed

definition demo_arch :: arch_env where
  "demo_arch = \<lparr>ae_md5 = (\<lambda>s. ''0''), ae_tmp = True, ae_gunzip = (\<lambda>s. None),
     ae_infos = (\<lambda>s. Some [(''film.nfo'', 900), (''en/small.srt'', 10), (''en/Big.SRT'', 700)]),
     ae_entry = (\<lambda>s name. Some name)\<rparr>"

definition demo_item :: "int subtitle_item" where
  "demo_item = (subtitleItem torrentInfo_default ''English'' ''en'' ''/subs/1.zip'')"

lemma setZipData_picks_srt_witness:
  "\<exists>name z. (name, z) \<in> set [(''film.nfo'', 900::int), (''en/small.srt'', 10), (''en/Big.SRT'', 700)] \<and>
    is_srt name \<and> 700 \<le> z \<and>
    snd (setZipData demo_arch ''PK'' demo_item)"
proof -
  let ?infos = "[(''film.nfo'', 900::int), (''en/small.srt'', 10), (''en/Big.SRT'', 700)]"
  have i: "ae_infos demo_arch ''PK'' = Some ?infos" by (simp add: demo_arch_def)
  have srt: "is_srt ''en/Big.SRT''" "is_srt ''en/small.srt''" "\<not> is_srt ''film.nfo''"
    "ends_with_ci ''srt'' ''en/Big.SRT''" "ends_with_ci ''srt'' ''en/small.srt''"
    "\<not> ends_with_ci ''srt'' ''film.nfo''"
    "\<not> ends_with_ci ''srt'' (si_fileName demo_item)"
    "\<not> ends_with_ci ''gz''
      (base_name (if si_zipName demo_item \<noteq> [] then si_zipName demo_item else si_urlPath demo_item))"
    by code_simp+
  have n: "ae_entry demo_arch b n = Some n" for b n by (simp add: demo_arch_def)
  from setZipData_picks_srt [of "''PK''" demo_arch ?infos demo_item] i srt
  obtain name z where r: "(name, z) \<in> set ?infos" "is_srt name" "\<forall>(n, y)\<in>set ?infos. is_srt n \<longrightarrow> y \<le> z"
    "setZipData demo_arch ''PK'' demo_item = unpacked demo_arch (Some name)
      (demo_item\<lparr>si_zipData := ''PK'', si_zipMD5 := ae_md5 demo_arch ''PK'', si_fileName := name\<rparr>)"
    using n by auto
  then have "name \<noteq> []" "700 \<le> z" using srt by auto
  with r show ?thesis by (auto simp: unpacked_def)
qed

end
