(* ===== verification/TorrentWrapper.thy ===== *)
theory TorrentWrapper
  imports CommonTypes StreamLib
begin

section \<open>gui/TorrentWrapper.cpp: the window's handle on the streaming library\<close>

text \<open>
  The class \<^verbatim>\<open>TorrentWrapper\<close>: the active torrent, the indexes of the torrents it started, the
  notification thread (\<open>None\<close> when it does not run) and the calls it makes, in order. The calls of
  the library (\<open>torrentStopDelete\<close>, \<open>isRangeDownloaded\<close>, \<open>seekInFile\<close>) go to its model.
\<close>

datatype 'n tw_out =
    ProgressAvailable int int int int bytes
  | StartDownload "'n torrent_info"
  | MetadataError "'n torrent_info"
  | LeechingStarted int
  | NewMovieName bytes
  | StartSubs "'n torrent_info"
  | PreloadCancelled "'n torrent_info"
  | TorrentLoadCancelled "'n torrent_info"
  | DisableSleep
  | RestoreSleep
  | StopDelete int

record 'n tw =
  tw_active :: "'n torrent_info"
  tw_preloaded :: bool
  tw_ids :: "int list"
  tw_notify :: "int option"

type_synonym 'n tw_act = "('n tw, 'n tw_out) act"

definition TK_GETTING_METADATA :: bytes where
  "TK_GETTING_METADATA = ''Getting metadata...''"

definition TK_ERROR_GETTING_METADATA :: bytes where
  "TK_ERROR_GETTING_METADATA = ''Error getting metadata!''"

definition tw_init :: "'n tw" where
  "tw_init = \<lparr>tw_active = torrentInfo_default, tw_preloaded = False, tw_ids = [], tw_notify = None\<rparr>"

subsection \<open>Questions of the player\<close>

definition isDownloaded :: "world \<Rightarrow> streamer \<Rightarrow> int \<Rightarrow> int \<Rightarrow> int \<Rightarrow> 'n tw \<Rightarrow> bool option" where
  "isDownloaded w st start stop index s =
     isRangeDownloaded w start stop (if index < 0 then ti_index (tw_active s) else index) st"

text \<open>\<^verbatim>\<open>result\<close> keeps its value when there is no active torrent.\<close>

definition onCheckDownloaded ::
    "world \<Rightarrow> streamer \<Rightarrow> bool \<Rightarrow> int \<Rightarrow> int \<Rightarrow> int \<Rightarrow> 'n tw \<Rightarrow> bool option" where
  "onCheckDownloaded w st result start stop index s =
     (if torrent_isValid (tw_active s) then isDownloaded w st start stop index s else Some result)"

definition seekTorrent ::
    "world \<Rightarrow> int \<Rightarrow> int \<Rightarrow> 'n tw \<Rightarrow> streamer \<Rightarrow> (streamer \<times> scall list \<times> int outcome) option" where
  "seekTorrent w start index s st =
     (if \<not> torrent_isValid (tw_active s) then Some (st, [], Returned 0)
      else seekInFile w start (if index < 0 then ti_index (tw_active s) else index) st)"

subsection \<open>Starting and cancelling\<close>

definition tw_get :: "'n torrent_info \<Rightarrow> 'n tw_act" where
  "tw_get info = acts
     [emit (ProgressAvailable 0 0 0 0 TK_GETTING_METADATA),
      emit (StartDownload info),
      modify (\<lambda>s. s\<lparr>tw_preloaded := False\<rparr>)]"

definition stopOnTorrent :: "'n tw_act" where
  "stopOnTorrent = modify (\<lambda>s. s\<lparr>tw_notify := None\<rparr>)"

definition startOnTorrent :: "int \<Rightarrow> 'n tw_act" where
  "startOnTorrent k = acts [stopOnTorrent, modify (\<lambda>s. s\<lparr>tw_notify := Some k\<rparr>)]"

definition tw_cancel :: "int \<Rightarrow> 'n tw_act" where
  "tw_cancel index0 = with_state (\<lambda>s0.
     let current = tw_active s0;
         index = (if index0 < 0 then ti_index current else index0)
     in acts
       [modify (\<lambda>s. s\<lparr>tw_active := torrentInfo_default\<rparr>),
        with_state (\<lambda>s. emit (if \<not> tw_preloaded s then PreloadCancelled current
                              else TorrentLoadCancelled current)),
        stopOnTorrent,
        modify (\<lambda>s. s\<lparr>tw_preloaded := False\<rparr>),
        with_state (\<lambda>s. when_act (index \<in> set (tw_ids s))
                          (modify (\<lambda>s. s\<lparr>tw_ids := remove1 index (tw_ids s)\<rparr>))),
        with_state (\<lambda>s. when_act (tw_ids s = []) (emit RestoreSleep)),
        emit (StopDelete index)])"

definition onMetadataDownloaded :: "'n torrent_info \<Rightarrow> 'n tw_act" where
  "onMetadataDownloaded tInfo = acts
     [modify (\<lambda>s. s\<lparr>tw_active := tInfo\<rparr>),
      if ti_index tInfo < 0
      then acts [emit (ProgressAvailable 0 (- 1) 0 0 TK_ERROR_GETTING_METADATA),
                 emit (MetadataError tInfo)]
      else acts
        [startOnTorrent (ti_index tInfo),
         emit (LeechingStarted (ti_index tInfo)),
         emit (NewMovieName (ti_title tInfo)),
         emit (StartSubs tInfo),
         with_state (\<lambda>s. when_act (tw_ids s = []) (emit DisableSleep)),
         modify (\<lambda>s. s\<lparr>tw_ids := tw_ids s @ [ti_index tInfo]\<rparr>)]]"

definition onTorrentMetadataError :: "'n torrent_info \<Rightarrow> 'n tw_act" where
  "onTorrentMetadataError tInfo = acts
     [emit (ProgressAvailable 0 (- 1) 0 0
        (TK_ERROR_GETTING_METADATA @ ''('' @ int_str (ti_index tInfo) @ '')'')),
      emit (MetadataError tInfo)]"

text \<open>The calls that reach the wrapper, and their effect.\<close>

datatype 'n tw_call =
    CallGet "'n torrent_info"
  | CallCancel int
  | CallMetadata "'n torrent_info"
  | CallMetadataError "'n torrent_info"

fun tw_step :: "'n tw_call \<Rightarrow> 'n tw_act" where
  "tw_step (CallGet t) = tw_get t"
| "tw_step (CallCancel i) = tw_cancel i"
| "tw_step (CallMetadata t) = onMetadataDownloaded t"
| "tw_step (CallMetadataError t) = onTorrentMetadataError t"

text \<open>Whether the machine may sleep after a list of calls, starting from \<open>b\<close>.\<close>

fun sleep_disabled :: "bool \<Rightarrow> 'n tw_out list \<Rightarrow> bool" where
  "sleep_disabled b [] = b"
| "sleep_disabled b (x # xs) =
     sleep_disabled (case x of DisableSleep \<Rightarrow> True | RestoreSleep \<Rightarrow> False | _ \<Rightarrow> b) xs"

lemma sleep_disabled_append [simp]:
  "sleep_disabled b (xs @ ys) = sleep_disabled (sleep_disabled b xs) ys"
  by (induction xs arbitrary: b) (auto split: tw_out.split)

lemmas tw_defs = tw_get_def tw_cancel_def onMetadataDownloaded_def onTorrentMetadataError_def
  stopOnTorrent_def startOnTorrent_def

lemma tw_step_sleep:
  "sleep_disabled (tw_ids s \<noteq> []) (snd (tw_step c s)) = (tw_ids (fst (tw_step c s)) \<noteq> [])"
  by (cases c) (auto simp: tw_defs when_act_def Let_def)

lemma tw_step_preloaded: "\<not> tw_preloaded s \<Longrightarrow> \<not> tw_preloaded (fst (tw_step c s))"
  by (cases c) (auto simp: tw_defs when_act_def Let_def)

interpretation sleep: observed tw_step "\<lambda>c. True" sleep_disabled "\<lambda>b s. b = (tw_ids s \<noteq> [])"
  by unfold_locales (simp_all add: tw_step_sleep)

text \<open>
  What the calls say, without the state of the wrapper: \<open>started a xs cs\<close> are the torrents whose metadata came and that
  were not cancelled since, after the calls \<open>cs\<close>, when \<open>xs\<close> were started and \<open>a\<close> was the last of them before; a
  cancel without an index means the torrent whose metadata came last, unless there was a cancel since.
\<close>

fun started :: "int \<Rightarrow> int list \<Rightarrow> 'n tw_call list \<Rightarrow> int list" where
  "started a xs [] = xs"
| "started a xs (CallMetadata t # cs) = started (ti_index t) (if ti_index t < 0 then xs else xs @ [ti_index t]) cs"
| "started a xs (CallCancel i # cs) = started (- 1) (remove1 (if i < 0 then a else i) xs) cs"
| "started a xs (CallGet t # cs) = started a xs cs"
| "started a xs (CallMetadataError t # cs) = started a xs cs"

lemma ids_started: "tw_ids (fst (acts (map tw_step cs) s)) = started (ti_index (tw_active s)) (tw_ids s) cs"
proof (induction cs arbitrary: s)
  case (Cons c cs)
  have "started (ti_index (tw_active s)) (tw_ids s) (c # cs) =
      started (ti_index (tw_active (fst (tw_step c s)))) (tw_ids (fst (tw_step c s))) cs"
    by (cases c) (auto simp: tw_defs when_act_def Let_def torrentInfo_default_def remove1_idem)
  with Cons.IH [of "fst (tw_step c s)"] show ?case by (simp add: fst_acts del: started.simps acts.simps(2))
qed simp

text \<open>
  C35: after any calls of the wrapper the machine is kept awake exactly while some torrent whose metadata came has not
  been cancelled; and no call ever reports a cancelled load, every cancellation is reported as that of a preload,
  since nothing sets \<^verbatim>\<open>activeTorrentPreloaded\<close>.
\<close>

theorem wrapper_sleep:
  fixes cs :: "'n tw_call list"
  shows "let outs = snd (acts (map tw_step cs) tw_init)
    in sleep_disabled False outs = (started (- 1) [] cs \<noteq> []) \<and> list_all (\<lambda>x. \<forall>t. x \<noteq> TorrentLoadCancelled t) outs"
proof -
  define r where "r = acts (map tw_step cs) (tw_init :: 'n tw)"
  have "sleep_disabled False (snd r) = (tw_ids (fst r) \<noteq> [])"
    unfolding r_def by (rule sleep.run) (simp_all add: tw_init_def list_all_iff)
  moreover have "tw_ids (fst r) = started (- 1) [] cs"
    unfolding r_def ids_started by (simp add: tw_init_def torrentInfo_default_def)
  moreover have "list_all (\<lambda>x. \<forall>t. x \<noteq> TorrentLoadCancelled t) (snd (acts (map tw_step cs) s))"
    if "\<not> tw_preloaded s" for s :: "'n tw" and cs
    using that
  proof (induction cs arbitrary: s)
    case (Cons c cs)
    have "list_all (\<lambda>x. \<forall>t. x \<noteq> TorrentLoadCancelled t) (snd (tw_step c s))"
      using Cons.prems by (cases c) (auto simp: tw_defs when_act_def Let_def)
    with Cons.IH [OF tw_step_preloaded [OF Cons.prems, of c]] show ?case
      by (simp add: snd_acts del: acts.simps(2))
  qed simp
  then have "list_all (\<lambda>x. \<forall>t. x \<noteq> TorrentLoadCancelled t) (snd r)"
    by (simp add: r_def tw_init_def)
  ultimately show ?thesis by (simp add: r_def)
qed

text \<open>
  A torrent cancelled while its metadata is fetched starts all the same when the metadata
  arrives: it becomes the active torrent, is watched and keeps the machine awake, although the
  cancellation was reported.
\<close>

theorem cancelled_torrent_starts:
  assumes "0 \<le> ti_index t"
  shows "let r = acts (map tw_step [CallGet t, CallCancel (- 1), CallMetadata t]) tw_init
    in tw_active (fst r) = t \<and> tw_notify (fst r) = Some (ti_index t) \<and>
       PreloadCancelled torrentInfo_default \<in>
         set (snd (acts (map tw_step [CallGet t, CallCancel (- 1)]) tw_init))"
  using assms by (simp_all add: tw_defs tw_init_def when_act_def Let_def torrentInfo_default_def)

definition demo_torrent :: "int torrent_info" where
  "demo_torrent = torrentInfo_default\<lparr>ti_index := 7, ti_url := ''u''\<rparr>"

lemma cancelled_torrent_starts_witness:
  "tw_notify (fst (acts (map tw_step
      [CallGet demo_torrent, CallCancel (- 1), CallMetadata demo_torrent]) tw_init)) = Some 7"
proof -
  have t: "ti_index demo_torrent = 7" by (simp add: demo_torrent_def)
  then have "0 \<le> ti_index demo_torrent" by simp
  from cancelled_torrent_starts [OF this] show ?thesis unfolding Let_def t by blast
qed

end
