(* ===== verification/PlayIO.thy ===== *)
theory PlayIO
  imports TorrentWrapper
begin

section \<open>gui/TorrentIODevice.cpp: the file the player reads while it is downloaded\<close>

text \<open>
  The device is used by two threads: the player reads and seeks, the window opens, closes and
  aborts. Each step below is one access of the shared members, so that a run is an interleaving:
  the reader's program counter is \<open>io_reader\<close>, the window's (inside \<^verbatim>\<open>close()\<close>) is \<open>io_gui\<close>.
  \<^verbatim>\<open>checkDownloaded\<close> is a blocking call answered by the window's thread, hence taken only while
  that thread is idle. \<open>files\<close> gives the content of the files; a read of the file, and the mutex,
  are those of Qt.
\<close>

type_synonym files = "bytes \<Rightarrow> bytes option"

datatype reader_pc =
    Resting
  | FirstCheck nat
  | LoopHead nat bool
  | Asleep nat
  | Recheck nat
  | Reading nat

datatype gui_pc = GuiIdle | Closing "bytes option" | Closed "bytes option"

datatype io_out = BufferUnderrun | SeekRequest int | Buffered | CheckDownloaded int int | Ret bytes

record io =
  io_name :: bytes
  io_fopen :: bool
  io_qopen :: bool
  io_pos :: nat
  io_mutex :: bool
  io_abort :: bool
  io_reader :: reader_pc
  io_gui :: gui_pc

definition io_init :: io where
  "io_init = \<lparr>io_name = [], io_fopen = False, io_qopen = False, io_pos = 0, io_mutex = False,
     io_abort = False, io_reader = Resting, io_gui = GuiIdle\<rparr>"

subsection \<open>The player\<close>

text \<open>\<^verbatim>\<open>QFile::read\<close>: at most \<open>n\<close> bytes from the position; nothing of a closed file.\<close>

definition file_read :: "files \<Rightarrow> nat \<Rightarrow> io \<Rightarrow> bytes" where
  "file_read fs n s =
     (if io_fopen s
      then (case fs (io_name s) of None \<Rightarrow> [] | Some c \<Rightarrow> take n (drop (io_pos s) c)) else [])"

text \<open>\<open>readData n\<close>: the entry, then the steps of the body; \<open>a\<close> is the answer of a check.\<close>

definition readData :: "nat \<Rightarrow> io \<Rightarrow> io \<times> io_out list" where
  "readData n s = (if io_abort s then (s, [Ret []]) else (s\<lparr>io_reader := FirstCheck n\<rparr>, []))"

definition check_of :: "nat \<Rightarrow> io \<Rightarrow> io_out" where
  "check_of n s = CheckDownloaded (int (io_pos s)) (int (io_pos s) + int n)"

fun read_step :: "files \<Rightarrow> bool \<Rightarrow> io \<Rightarrow> io \<times> io_out list" where
  "read_step fs a s =
     (case io_reader s of
        Resting \<Rightarrow> (s, [])
      | FirstCheck n \<Rightarrow>
          (if a then (s\<lparr>io_reader := Reading n\<rparr>, [check_of n s])
           else (s\<lparr>io_mutex := True, io_reader := LoopHead n False\<rparr>,
                 [check_of n s, BufferUnderrun, SeekRequest (int (io_pos s))]))
      | LoopHead n d \<Rightarrow>
          (if \<not> d \<and> \<not> io_abort s then (s\<lparr>io_reader := Asleep n\<rparr>, [])
           else if io_abort s
           then (s\<lparr>io_abort := False, io_mutex := False, io_reader := Resting\<rparr>, [Ret []])
           else (s\<lparr>io_mutex := False, io_reader := Reading n\<rparr>, [Buffered]))
      | Asleep n \<Rightarrow>
          (if \<not> io_qopen s then (s\<lparr>io_mutex := False, io_reader := Resting\<rparr>, [Ret []])
           else (s\<lparr>io_reader := Recheck n\<rparr>, []))
      | Recheck n \<Rightarrow> (s\<lparr>io_reader := LoopHead n a\<rparr>, [check_of n s])
      | Reading n \<Rightarrow>
          (let r = file_read fs n s
           in (s\<lparr>io_pos := io_pos s + length r, io_reader := Resting\<rparr>, [Ret r])))"

declare read_step.simps [simp del]

definition io_seek :: "nat \<Rightarrow> io \<Rightarrow> io" where
  "io_seek p s = (if io_fopen s then s\<lparr>io_pos := p\<rparr> else s)"

subsection \<open>The window\<close>

definition abortWait :: "io \<Rightarrow> io" where
  "abortWait s = (if io_mutex s then s\<lparr>io_abort := True\<rparr> else s)"

text \<open>\<^verbatim>\<open>close()\<close>: abort the wait, close the device, close the file; \<^verbatim>\<open>setFileName\<close> then names the file.\<close>

definition close_begin :: "bytes option \<Rightarrow> io \<Rightarrow> io" where
  "close_begin next s = (abortWait s)\<lparr>io_gui := Closing next\<rparr>"

fun close_step :: "io \<Rightarrow> io" where
  "close_step s =
     (case io_gui s of
        GuiIdle \<Rightarrow> s
      | Closing next \<Rightarrow> s\<lparr>io_qopen := False, io_gui := Closed next\<rparr>
      | Closed next \<Rightarrow>
          s\<lparr>io_fopen := False, io_pos := 0, io_gui := GuiIdle,
            io_name := (case next of None \<Rightarrow> io_name s | Some f \<Rightarrow> f)\<rparr>)"

declare close_step.simps [simp del]

definition io_open :: "files \<Rightarrow> io \<Rightarrow> io" where
  "io_open fs s =
     (if io_fopen s \<or> fs (io_name s) = None then s
      else s\<lparr>io_fopen := True, io_qopen := True, io_pos := 0\<rparr>)"

definition asks :: "reader_pc \<Rightarrow> bool" where
  "asks r = (case r of FirstCheck n \<Rightarrow> True | Recheck n \<Rightarrow> True | _ \<Rightarrow> False)"

subsection \<open>Interleavings\<close>

text \<open>\<open>allowed f l a\<close>: the check of the range from \<open>f\<close> to \<open>l\<close> may be answered \<open>a\<close>.\<close>

inductive reader_moves ::
    "(int \<Rightarrow> int \<Rightarrow> bool \<Rightarrow> bool) \<Rightarrow> files \<Rightarrow> io \<Rightarrow> io_out list \<Rightarrow> io \<Rightarrow> bool"
  for allowed :: "int \<Rightarrow> int \<Rightarrow> bool \<Rightarrow> bool" and fs :: files where
  move: "io_reader s \<noteq> Resting \<Longrightarrow>
    (asks (io_reader s) \<Longrightarrow> io_gui s = GuiIdle) \<Longrightarrow>
    (\<And>n. asks (io_reader s) \<Longrightarrow> io_reader s = FirstCheck n \<or> io_reader s = Recheck n \<Longrightarrow>
       allowed (int (io_pos s)) (int (io_pos s) + int n) a) \<Longrightarrow>
    read_step fs a s = (t, xs) \<Longrightarrow> reader_moves allowed fs s xs t"

inductive io_step ::
    "(int \<Rightarrow> int \<Rightarrow> bool \<Rightarrow> bool) \<Rightarrow> files \<Rightarrow> io \<Rightarrow> io_out list \<Rightarrow> io \<Rightarrow> bool"
  for allowed :: "int \<Rightarrow> int \<Rightarrow> bool \<Rightarrow> bool" and fs :: files where
  step_call: "io_reader s = Resting \<Longrightarrow> readData n s = (t, xs) \<Longrightarrow> io_step allowed fs s xs t"
| step_read: "reader_moves allowed fs s xs t \<Longrightarrow> io_step allowed fs s xs t"
| step_seek: "io_reader s = Resting \<Longrightarrow> io_step allowed fs s [] (io_seek p s)"
| step_abort: "io_gui s = GuiIdle \<Longrightarrow> io_step allowed fs s [] (abortWait s)"
| step_close: "io_gui s = GuiIdle \<Longrightarrow> io_step allowed fs s [] (close_begin next s)"
| step_closing: "io_gui s \<noteq> GuiIdle \<Longrightarrow> io_step allowed fs s [] (close_step s)"
| step_open: "io_gui s = GuiIdle \<Longrightarrow> io_step allowed fs s [] (io_open fs s)"

inductive_cases reader_movesE: "reader_moves allowed fs s xs t"
inductive_cases io_stepE: "io_step allowed fs s xs t"

definition in_wait :: "reader_pc \<Rightarrow> bool" where
  "in_wait r = (case r of LoopHead n d \<Rightarrow> True | Asleep n \<Rightarrow> True | Recheck n \<Rightarrow> True | _ \<Rightarrow> False)"

definition io_inv :: "io \<Rightarrow> bool" where
  "io_inv s \<longleftrightarrow> io_mutex s = in_wait (io_reader s)"

lemmas gui_defs = abortWait_def close_begin_def close_step.simps io_open_def io_seek_def

lemma gui_frame [frame]:
  "io_reader (abortWait s) = io_reader s" "io_mutex (abortWait s) = io_mutex s"
  "io_reader (close_begin f s) = io_reader s" "io_mutex (close_begin f s) = io_mutex s"
  "io_reader (close_step s) = io_reader s" "io_mutex (close_step s) = io_mutex s"
  "io_reader (io_open fs s) = io_reader s" "io_mutex (io_open fs s) = io_mutex s"
  "io_reader (io_seek p s) = io_reader s" "io_mutex (io_seek p s) = io_mutex s"
  "io_abort (close_step s) = io_abort s" "io_abort (io_open fs s) = io_abort s"
  "io_abort (io_seek p s) = io_abort s"
  by (simp_all add: gui_defs split: gui_pc.split)

lemma reader_moves_inv: "io_inv s \<Longrightarrow> reader_moves allowed fs s xs t \<Longrightarrow> io_inv t"
  by (erule reader_movesE)
    (auto simp: io_inv_def in_wait_def read_step.simps Let_def split: reader_pc.splits if_splits)

lemma io_step_inv: "io_inv s \<Longrightarrow> io_step allowed fs s xs t \<Longrightarrow> io_inv t"
proof (erule io_stepE)
  show "io_inv s \<Longrightarrow> reader_moves allowed fs s xs t \<Longrightarrow> io_inv t" by (rule reader_moves_inv)
qed (auto simp: frame io_inv_def readData_def in_wait_def split: if_splits)

subsection \<open>A close while a read waits\<close>

text \<open>The abort flag is set, and no read is in the loop that clears it.\<close>

definition poisoned :: "io \<Rightarrow> bool" where
  "poisoned s \<longleftrightarrow> io_abort s \<and> io_reader s = Resting"

lemma poisoned_step:
  assumes "poisoned s" "io_step allowed fs s xs t"
  shows "poisoned t \<and> list_all (\<lambda>x. x = Ret []) xs"
  using assms(2)
proof (cases rule: io_step.cases)
  case step_read
  with assms(1) show ?thesis by (auto simp: poisoned_def elim: reader_movesE)
qed (use assms(1) in \<open>auto simp: poisoned_def frame readData_def abortWait_def close_begin_def\<close>)

definition closed_wake :: "files \<Rightarrow> bytes option \<Rightarrow> io \<Rightarrow> io" where
  "closed_wake fs f s = fst (read_step fs True (close_step (close_step (close_begin f s))))"

text \<open>
  C31: when the window closes the device while a read sleeps in its wait, there is a run in which the read wakes up
  only after the file has been closed, finds the device closed and returns nothing with the abort flag still set; after
  this every read of the device returns nothing, in every run, whatever is opened, closed, named or sought. (A read
  that wakes up between the abort and the close clears the flag.)
\<close>

theorem close_while_waiting:
  assumes "io_inv s" "io_reader s = Asleep n" "io_gui s = GuiIdle"
  shows "runs (io_step allowed fs) s [Ret []] (closed_wake fs f s) \<and>
    io_abort (closed_wake fs f s) \<and>
    (\<forall>outs u. runs (io_step allowed fs) (closed_wake fs f s) outs u \<longrightarrow>
      list_all (\<lambda>x. x = Ret []) outs \<and> io_abort u)"
proof (intro conjI allI impI)
  let ?t = "closed_wake fs f s"
  let ?c = "close_step (close_step (close_begin f s))"
  have m: "io_mutex s" using assms(1,2) by (simp add: io_inv_def in_wait_def)
  have g1: "io_gui (close_begin f s) = Closing f" by (simp add: close_begin_def)
  have g2: "io_gui (close_step (close_begin f s)) = Closed f" by (simp add: close_step.simps g1)
  have q: "\<not> io_qopen ?c" "io_reader ?c = Asleep n" "io_abort ?c"
    using g1 m assms(2) by (simp_all add: close_step.simps close_begin_def abortWait_def)
  have w: "read_step fs True ?c = (?t, [Ret []])"
    using q by (simp add: read_step.simps closed_wake_def)
  have "reader_moves allowed fs ?c [Ret []] ?t"
    using w q by (intro reader_moves.intros [where a = True]) (auto simp: asks_def)
  then have "runs (io_step allowed fs) ?c [Ret []] ?t" by (intro runs_one step_read)
  then have "runs (io_step allowed fs) (close_step (close_begin f s)) [Ret []] ?t"
    by (rule runs_silent [rotated]) (simp add: step_closing g2)
  then have "runs (io_step allowed fs) (close_begin f s) [Ret []] ?t"
    by (rule runs_silent [rotated]) (simp add: step_closing g1)
  then show "runs (io_step allowed fs) s [Ret []] ?t"
    by (rule runs_silent [rotated]) (rule step_close [OF assms(3)])
  show "io_abort ?t" using q by (simp add: closed_wake_def read_step.simps)
  then have "poisoned ?t" using q by (simp add: poisoned_def closed_wake_def read_step.simps)
  then have p: "poisoned ?t" .
  fix outs u assume "runs (io_step allowed fs) ?t outs u"
  then have "poisoned u \<and> list_all (\<lambda>x. x = Ret []) outs"
    using p poisoned_step by (rule runs_invariant)
  then show "list_all (\<lambda>x. x = Ret []) outs" "io_abort u" by (simp_all add: poisoned_def)
qed

text \<open>
  Aborted by the player's \<^verbatim>\<open>stopped\<close> signal alone, the waiting read returns nothing after at
  most one more check, and the device can be read again: the flag is cleared.
\<close>

theorem abort_ends_wait:
  assumes "io_inv s" "io_reader s = Asleep n" "io_qopen s" "io_gui s = GuiIdle"
    and "allowed (int (io_pos s)) (int (io_pos s) + int n) a"
  shows "\<exists>t. runs (io_step allowed fs) s [check_of n s, Ret []] t \<and>
    t = s\<lparr>io_mutex := False, io_reader := Resting, io_abort := False\<rparr>"
proof -
  have m: "io_mutex s" using assms(1,2) by (simp add: io_inv_def in_wait_def)
  let ?s1 = "s\<lparr>io_abort := True\<rparr>"
  let ?s2 = "s\<lparr>io_abort := True, io_reader := Recheck n\<rparr>"
  let ?s3 = "s\<lparr>io_abort := True, io_reader := LoopHead n a\<rparr>"
  let ?t = "s\<lparr>io_mutex := False, io_reader := Resting, io_abort := False\<rparr>"
  have 1: "io_step allowed fs s [] ?s1"
    using step_abort [OF assms(4), of allowed fs] m by (simp add: abortWait_def)
  have 2: "io_step allowed fs ?s1 [] ?s2"
    using assms by (intro step_read reader_moves.intros [where a = a])
      (auto simp: asks_def read_step.simps)
  have 3: "io_step allowed fs ?s2 [check_of n s] ?s3"
    using assms by (intro step_read reader_moves.intros [where a = a])
      (auto simp: asks_def read_step.simps check_of_def)
  have 4: "io_step allowed fs ?s3 [Ret []] ?t"
    by (intro step_read reader_moves.intros [where a = a]) (auto simp: asks_def read_step.simps)
  have "runs (io_step allowed fs) ?s3 [Ret []] ?t" by (rule runs_one) (rule 4)
  then have "runs (io_step allowed fs) ?s2 ([check_of n s] @ [Ret []]) ?t"
    by (rule runs_more [rotated]) (rule 3)
  then have "runs (io_step allowed fs) ?s1 ([check_of n s] @ [Ret []]) ?t"
    by (rule runs_silent [rotated]) (rule 2)
  then have "runs (io_step allowed fs) s ([check_of n s] @ [Ret []]) ?t"
    by (rule runs_silent [rotated]) (rule 1)
  then show ?thesis by auto
qed

definition demo_io :: "reader_pc \<Rightarrow> io" where
  "demo_io r = \<lparr>io_name = ''m'', io_fopen = True, io_qopen = True, io_pos = 2,
     io_mutex = in_wait r, io_abort = False, io_reader = r, io_gui = GuiIdle\<rparr>"

lemma close_while_waiting_witness:
  "runs (io_step (\<lambda>f l a. True) (\<lambda>f. Some ''abcdef'')) (demo_io (Asleep 3)) [Ret []]
     (closed_wake (\<lambda>f. Some ''abcdef'') None (demo_io (Asleep 3))) \<and>
   list_all (\<lambda>x. x = Ret []) [Ret []]"
proof -
  let ?s = "demo_io (Asleep 3)" and ?fs = "\<lambda>f. Some ''abcdef''"
  have s: "io_inv ?s" "io_reader ?s = Asleep 3" "io_gui ?s = GuiIdle"
    by (simp_all add: demo_io_def io_inv_def in_wait_def)
  let ?t = "closed_wake ?fs None ?s"
  have "io_reader ?t = Resting" "io_abort ?t"
    using close_while_waiting [OF s]
    by (simp_all add: closed_wake_def demo_io_def in_wait_def close_begin_def abortWait_def
        close_step.simps read_step.simps)
  then have "io_step (\<lambda>f l a. True) ?fs ?t [Ret []] ?t"
    by (intro step_call [of _ 3]) (simp_all add: readData_def)
  then have "runs (io_step (\<lambda>f l a. True) ?fs) ?t [Ret []] ?t" by (rule runs_one)
  with close_while_waiting [OF s, of "\<lambda>f l a. True" ?fs None]
  show ?thesis by simp
qed

lemma abort_ends_wait_witness:
  "\<exists>t. runs (io_step (\<lambda>f l a. \<not> a) (\<lambda>f. None)) (demo_io (Asleep 3))
     [CheckDownloaded 2 5, Ret []] t \<and>
   t = demo_io Resting"
proof -
  have "io_inv (demo_io (Asleep 3))" "io_reader (demo_io (Asleep 3)) = Asleep 3"
    "io_qopen (demo_io (Asleep 3))" "io_gui (demo_io (Asleep 3)) = GuiIdle"
    by (simp_all add: demo_io_def io_inv_def in_wait_def)
  from abort_ends_wait [OF this, of "\<lambda>f l a. \<not> a" False "\<lambda>f. None"]
  show ?thesis by (simp add: demo_io_def check_of_def in_wait_def)
qed

subsection \<open>What a read serves\<close>

text \<open>
  C29: left alone by the window, a read returns nothing, or the bytes of the file at its position
  after a check of exactly that range was answered with yes.
\<close>

theorem read_serves_checked:
  assumes "runs (reader_moves allowed fs) s outs t" "io_reader s = FirstCheck n" "Ret r \<in> set outs"
  shows "r = [] \<or> allowed (int (io_pos s)) (int (io_pos s) + int n) True \<and> r = file_read fs n s"
proof -
  let ?ok = "allowed (int (io_pos s)) (int (io_pos s) + int n) True"
  define P :: "io \<Rightarrow> bool" where "P u \<longleftrightarrow> io_reader u = Resting \<or>
      io_pos u = io_pos s \<and> io_fopen u = io_fopen s \<and> io_name u = io_name s \<and>
      (io_reader u = FirstCheck n \<or> io_reader u = Asleep n \<or> io_reader u = Recheck n \<or>
       io_reader u = LoopHead n False \<or>
       (io_reader u = LoopHead n True \<or> io_reader u = Reading n) \<and> ?ok)" for u
  define Q where "Q x \<longleftrightarrow> (\<forall>r. x = Ret r \<longrightarrow> r = [] \<or> ?ok \<and> r = file_read fs n s)" for x
  have "P v \<and> list_all Q xs" if "P u" "reader_moves allowed fs u xs v" for u xs v
    using that(2)
  proof (cases rule: reader_moves.cases)
    case (move a)
    have "file_read fs n u = file_read fs n s" if "io_pos u = io_pos s" "io_fopen u = io_fopen s"
      "io_name u = io_name s" by (simp only: file_read_def that)
    with move that(1) show ?thesis
      by (cases a) (auto simp: P_def Q_def read_step.simps asks_def check_of_def Let_def split: if_splits)
  qed
  with assms(1) have "list_all Q outs"
    using runs_invariant [of "reader_moves allowed fs" s outs t P Q] assms(2) by (simp add: P_def)
  with assms(3) show ?thesis by (auto simp: list_all_iff Q_def)
qed

lemma read_serves_checked_witness:
  "(''cde'' :: bytes) = [] \<or> (\<lambda>f l a. a) (2::int) (5::int) True \<and>
     ''cde'' = file_read (\<lambda>f. Some ''abcdef'') 3 (demo_io (FirstCheck 3))"
proof -
  let ?fs = "\<lambda>f. Some ''abcdef''" and ?al = "\<lambda>f l a. a"
  have "reader_moves ?al ?fs (demo_io (FirstCheck 3)) [CheckDownloaded 2 5] (demo_io (Reading 3))"
    by (intro reader_moves.intros [where a = True])
      (auto simp: demo_io_def read_step.simps check_of_def in_wait_def)
  moreover have "reader_moves ?al ?fs (demo_io (Reading 3)) [Ret ''cde'']
      ((demo_io Resting)\<lparr>io_pos := 5\<rparr>)"
    by (intro reader_moves.intros [where a = True])
      (auto simp: demo_io_def read_step.simps file_read_def asks_def in_wait_def Let_def)
  then have "runs (reader_moves ?al ?fs) (demo_io (Reading 3)) [Ret ''cde'']
      ((demo_io Resting)\<lparr>io_pos := 5\<rparr>)" by (rule runs_one)
  ultimately have "runs (reader_moves ?al ?fs) (demo_io (FirstCheck 3))
      ([CheckDownloaded 2 5] @ [Ret ''cde'']) ((demo_io Resting)\<lparr>io_pos := 5\<rparr>)"
    by (rule runs_more)
  moreover have "io_reader (demo_io (FirstCheck 3)) = FirstCheck 3" "Ret ''cde'' \<in> set ([CheckDownloaded 2 5] @ [Ret ''cde''])"
    "int (io_pos (demo_io (FirstCheck 3))) = 2" by (simp_all add: demo_io_def)
  ultimately show ?thesis using read_serves_checked [of ?al ?fs] by fastforce
qed

subsection \<open>Reads that reach the end of the file\<close>

text \<open>
  The answers of the window for a torrent whose file has \<open>len\<close> bytes, in any state of the
  download: what \<^verbatim>\<open>onCheckDownloaded\<close> makes of the library's \<^verbatim>\<open>isRangeDownloaded\<close>.
\<close>

definition torrent_answers :: "int \<Rightarrow> int \<Rightarrow> int \<Rightarrow> bool \<Rightarrow> bool" where
  "torrent_answers len f l a \<longleftrightarrow>
     (\<exists>w st (tw :: int tw) aux. fst (getAux w (ti_index (tw_active tw)) st) = Some aux \<and>
        fileSize aux = len \<and> onCheckDownloaded w st False f l (- 1) tw = Some a)"

lemma torrent_answers_past:
  "len < l \<Longrightarrow> torrent_answers len f l a \<Longrightarrow> \<not> a"
  by (auto simp: torrent_answers_def onCheckDownloaded_def isDownloaded_def isRangeDownloaded_def
      split: if_splits)

text \<open>
  C30: a read that asks for more bytes than the file has left never returns, even when the whole
  file is there: the range \<^verbatim>\<open>pos + maxSize\<close> lies past the end, so every check is answered with
  no, the player is told of an underrun, and the loop ends only if the window closes or aborts.
\<close>

theorem read_at_end_waits:
  assumes "runs (reader_moves (torrent_answers len) fs) s outs t"
    and "io_reader s = FirstCheck n" "io_qopen s" "\<not> io_abort s" "len < int (io_pos s) + int n"
  shows "io_reader t \<noteq> Resting \<and> Ret r \<notin> set outs \<and> Buffered \<notin> set outs"
proof -
  define P :: "io \<Rightarrow> bool" where "P u \<longleftrightarrow> io_pos u = io_pos s \<and> io_qopen u \<and> \<not> io_abort u \<and>
      (io_reader u = FirstCheck n \<or> io_reader u = Asleep n \<or> io_reader u = Recheck n \<or>
       io_reader u = LoopHead n False)" for u
  define Q where "Q x \<longleftrightarrow> x \<noteq> Buffered \<and> (\<forall>r. x \<noteq> Ret r)" for x
  have no: "\<not> torrent_answers len (int (io_pos s)) (int (io_pos s) + int n) True"
    using torrent_answers_past [OF assms(5)] by blast
  have step: "P v \<and> list_all Q xs" if "P u" "reader_moves (torrent_answers len) fs u xs v" for u xs v
    using that(2)
  proof (cases rule: reader_moves.cases)
    case (move a)
    with that(1) no show ?thesis
      by (cases a) (auto simp: P_def Q_def read_step.simps asks_def check_of_def split: if_splits)
  qed
  have "P s" using assms(2-4) by (simp add: P_def)
  with assms(1) have "P t \<and> list_all Q outs" using step by (rule runs_invariant)
  then show ?thesis
    by (auto simp: P_def Q_def list_all_iff)
qed

lemma read_at_end_waits_witness:
  "io_reader ((demo_io (LoopHead 3 False))\<lparr>io_pos := 199999\<rparr>) \<noteq> Resting"
proof -
  let ?s = "(demo_io (FirstCheck 3))\<lparr>io_pos := 199999\<rparr>"
  let ?t = "(demo_io (LoopHead 3 False))\<lparr>io_pos := 199999\<rparr>"
  let ?tw = "tw_init\<lparr>tw_active := torrentInfo_default\<lparr>ti_index := 1, ti_url := ''u''\<rparr>\<rparr> :: int tw"
  have aux: "fst (getAux demo_world 1 demo_st) = Some demo_aux"
    by (simp add: getAux_def demo_st_def demo_world_def demo_hv_def hv_of_def)
  have len: "fileSize demo_aux = 200000"
    using demo_aux_for by (simp add: aux_for_def demo_file_def)
  have "onCheckDownloaded demo_world demo_st False 199999 200002 (- 1) ?tw = Some False"
    by (simp add: onCheckDownloaded_def isDownloaded_def torrent_isValid_def isRangeDownloaded_def aux len)
  then have "torrent_answers 200000 199999 200002 False"
    unfolding torrent_answers_def using aux len
    by (intro exI [of _ demo_world] exI [of _ demo_st] exI [of _ ?tw] exI [of _ demo_aux]) simp
  then have "reader_moves (torrent_answers 200000) (\<lambda>f. None) ?s
      [CheckDownloaded 199999 200002, BufferUnderrun, SeekRequest 199999] ?t"
    by (intro reader_moves.intros [where a = False])
      (auto simp: demo_io_def read_step.simps check_of_def in_wait_def)
  then have "runs (reader_moves (torrent_answers 200000) (\<lambda>f. None)) ?s
      [CheckDownloaded 199999 200002, BufferUnderrun, SeekRequest 199999] ?t" by (rule runs_one)
  from read_at_end_waits [OF this, of 3] show ?thesis by (simp add: demo_io_def)
qed

end
