(* ===== verification/Float24.thy ===== *)
theory Float24
  imports Prelude
begin

section \<open>Single precision arithmetic\<close>

text \<open>
  The IEEE single precision operations the program uses, on integers that stand for the numbers
  scaled by a power of two.
\<close>

text \<open>
  Rounding of an integer to 24 significant bits, ties to even. A number scaled by a power of two
  rounds to the scaled result, so fractions are rounded by scaling them to integers.
\<close>

fun float_exp :: "nat \<Rightarrow> nat" where
  "float_exp n = (if n < 16777216 then 0 else Suc (float_exp (n div 2)))"

declare float_exp.simps [simp del]

definition fl24 :: "int \<Rightarrow> int" where
  "fl24 x =
     (let n = nat (abs x); e = float_exp n; q = n div 2 ^ e; r = n mod 2 ^ e;
          q' = (if 2 ^ e < 2 * r \<or> 2 ^ e = 2 * r \<and> odd q then q + 1 else q)
      in sgn x * int (q' * 2 ^ e))"

lemma fl24_small: "abs x < 16777216 \<Longrightarrow> fl24 x = x"
proof -
  assume "abs x < 16777216"
  then have "nat (abs x) < 16777216" by (simp add: nat_less_iff)
  then show ?thesis
    by (simp add: fl24_def float_exp.simps [of "nat \<bar>x\<bar>"] Let_def sgn_mult_abs)
qed

text \<open>The exponent of a number between two powers, and the rounding with it: how values are computed.\<close>

lemma float_exp_eq:
  "8388608 * 2 ^ e \<le> n \<Longrightarrow> n < 16777216 * 2 ^ e \<Longrightarrow> e = 0 \<or> 16777216 \<le> n \<Longrightarrow> float_exp n = e"
proof (induction e arbitrary: n)
  case 0
  then show ?case by (simp add: float_exp.simps)
next
  case (Suc e)
  have b: "16777216 \<le> n"
  proof -
    have "16777216 * 1 \<le> 16777216 * (2::nat) ^ e" by (rule mult_le_mono2) simp
    also have "\<dots> \<le> n" using Suc.prems(1) by simp
    finally show ?thesis by simp
  qed
  have "8388608 * 2 ^ e \<le> n div 2" "n div 2 < 16777216 * 2 ^ e" using Suc.prems by simp_all
  moreover have "e = 0 \<or> 16777216 \<le> n div 2"
  proof (cases e)
    case (Suc k)
    have "16777216 * 1 \<le> 16777216 * (2::nat) ^ k" by (rule mult_le_mono2) simp
    also have "\<dots> \<le> n div 2" using \<open>8388608 * 2 ^ e \<le> n div 2\<close> Suc by simp
    finally show ?thesis by simp
  qed simp
  ultimately have "float_exp (n div 2) = e" by (rule Suc.IH)
  with b show ?case by (simp add: float_exp.simps [of n])
qed

lemma fl24_at:
  assumes "0 < x" "8388608 * 2 ^ e \<le> x" "x < 16777216 * 2 ^ e"
  shows "fl24 x =
    (let q = x div 2 ^ e; r = x mod 2 ^ e
     in (if 2 ^ e < 2 * r \<or> 2 ^ e = 2 * r \<and> odd q then q + 1 else q) * 2 ^ e)"
proof -
  have lb: "8388608 * 2 ^ e \<le> nat x" and "nat x < 16777216 * 2 ^ e"
    using assms by (simp_all add: le_nat_iff nat_less_iff)
  with lb have "8388608 * 2 ^ e \<le> nat x" "nat x < 16777216 * 2 ^ e" by simp_all
  moreover have "e = 0 \<or> 16777216 \<le> nat x"
  proof (cases e)
    case (Suc k)
    have "16777216 * 1 \<le> 16777216 * (2::nat) ^ k" by (rule mult_le_mono2) simp
    also have "\<dots> \<le> nat x" using Suc lb by simp
    finally show ?thesis by simp
  qed simp
  ultimately have e: "float_exp (nat \<bar>x\<bar>) = e" using assms(1) by (simp add: float_exp_eq)
  obtain n where n: "x = int n" using assms(1) by (metis zero_le_imp_eq_int less_imp_le)
  define m q r where "m = (2::nat) ^ e" and "q = n div m" and "r = n mod m"
  have p: "(2::int) ^ e = int m" by (simp add: m_def)
  have "fl24 x = int ((if m < 2 * r \<or> m = 2 * r \<and> odd q then q + 1 else q) * m)"
    using assms(1) n e by (simp add: fl24_def Let_def m_def q_def r_def)
  moreover have "x div int m = int q" "x mod int m = int r"
    by (simp_all add: n q_def r_def zdiv_int zmod_int)
  moreover have "(int m < 2 * int r) = (m < 2 * r)" "(int m = 2 * int r) = (m = 2 * r)" by linarith+
  ultimately show ?thesis by (simp add: p Let_def)
qed

text \<open>
  The quotient of two integers, scaled by \<open>2^61\<close>: the quotient with 60 bits after the point, and a
  last bit that tells whether a remainder is left, is rounded. For quotients from \<open>2^-34\<close> on, as
  those of \<^verbatim>\<open>int\<close> values, that is the correctly rounded quotient.
\<close>

definition fl_div :: "int \<Rightarrow> int \<Rightarrow> int" where
  "fl_div a b = fl24 (2 * (a * 2 ^ 60 div b) + (if a * 2 ^ 60 mod b = 0 then 0 else 1))"

lemma fl24_0 [simp]: "fl24 0 = 0"
  by (simp add: fl24_small)

lemma fl_div_0 [simp]: "fl_div 0 b = 0"
  by (simp add: fl_div_def)

lemma float_exp_bounds:
  "0 < float_exp n \<Longrightarrow> 8388608 * 2 ^ float_exp n \<le> n" "n < 16777216 * 2 ^ float_exp n"
proof -
  have "(0 < float_exp n \<longrightarrow> 8388608 * 2 ^ float_exp n \<le> n) \<and> n < 16777216 * 2 ^ float_exp n"
  proof (induction n rule: float_exp.induct)
    case (1 n)
    show ?case
    proof (cases "n < 16777216")
      case False
      with 1 have *: "0 < float_exp (n div 2) \<longrightarrow> 8388608 * 2 ^ float_exp (n div 2) \<le> n div 2"
        "n div 2 < 16777216 * 2 ^ float_exp (n div 2)" by simp_all
      with False have "8388608 * 2 ^ float_exp (n div 2) \<le> n div 2"
        by (cases "float_exp (n div 2) = 0") simp_all
      with * False show ?thesis by (simp add: float_exp.simps [of n]) linarith
    qed (simp add: float_exp.simps [of n])
  qed
  then show "0 < float_exp n \<Longrightarrow> 8388608 * 2 ^ float_exp n \<le> n" "n < 16777216 * 2 ^ float_exp n"
    by simp_all
qed

lemma fl24_range:
  assumes "16777216 \<le> x"
  obtains e where "2 ^ (23 + e) \<le> x" "x < 2 ^ (24 + e)" "2 ^ (23 + e) \<le> fl24 x" "fl24 x \<le> 2 ^ (24 + e)"
    "x \<noteq> 2 ^ (23 + e) \<or> fl24 x = x"
proof -
  define e where "e = float_exp (nat x)"
  have "0 < e" using assms by (simp add: e_def float_exp.simps [of "nat x"] nat_less_iff)
  with float_exp_bounds [of "nat x"] assms
  have b: "8388608 * 2 ^ e \<le> x" "x < 16777216 * 2 ^ e"
    by (simp_all add: e_def le_nat_iff nat_less_iff)
  define m q r where "m = (2::int) ^ e" and "q = x div m" and "r = x mod m"
  have f: "fl24 x = (if m < 2 * r \<or> m = 2 * r \<and> odd q then q + 1 else q) * m"
    using fl24_at [OF _ b] assms by (simp add: Let_def m_def q_def r_def)
  have m: "0 < m" "x = q * m + r" "0 \<le> r" "r < m"
    by (simp_all add: m_def q_def r_def div_mult_mod_eq [symmetric] del: div_mult_mod_eq)
  have "8388608 * m < (q + 1) * m" "q * m < 16777216 * m"
  proof -
    have "8388608 * m \<le> x" "x < 16777216 * m" using b by (simp_all add: m_def)
    then show "8388608 * m < (q + 1) * m" "q * m < 16777216 * m"
      using m by (simp_all only: distrib_right mult_1_left)
  qed
  then have q: "8388608 \<le> q" "q \<le> 16777215"
    using m(1) by (simp_all add: mult_less_cancel_right)
  have lo: "q * m \<le> fl24 x" and hi: "fl24 x \<le> (q + 1) * m"
    using m(1) by (simp_all add: f algebra_simps)
  have "8388608 * m \<le> q * m" "(q + 1) * m \<le> 16777216 * m"
    using q m(1) by (simp_all add: mult_right_mono)
  with lo hi have "8388608 * m \<le> fl24 x" "fl24 x \<le> 16777216 * m" by linarith+
  moreover have "fl24 x = x" if "x = 8388608 * m"
  proof -
    from that have "q = 8388608" "r = 0" using m(1) by (simp_all add: q_def r_def)
    with m(1) show ?thesis using f that by simp
  qed
  ultimately show ?thesis
    using that [of e] b by (auto simp: power_add m_def)
qed

lemma fl24_ge_pow: "2 ^ k \<le> x \<Longrightarrow> 2 ^ k \<le> fl24 x"
proof (cases "16777216 \<le> x")
  case True
  assume k: "2 ^ k \<le> x"
  from True obtain e where e: "2 ^ (23 + e) \<le> x" "x < 2 ^ (24 + e)" "2 ^ (23 + e) \<le> fl24 x"
    "fl24 x \<le> 2 ^ (24 + e)" "x \<noteq> 2 ^ (23 + e) \<or> fl24 x = x"
    by (rule fl24_range)
  with k have "(2::int) ^ k < 2 ^ (24 + e)" by linarith
  then have "k < 24 + e" by (rule power_less_imp_less_exp [rotated]) simp
  then have "(2::int) ^ k \<le> 2 ^ (23 + e)" by (intro power_increasing) simp_all
  with e show ?thesis by linarith
next
  case False
  assume k: "2 ^ k \<le> x"
  moreover have "(0::int) < 2 ^ k" by simp
  ultimately have "0 < x" by linarith
  with False k show ?thesis by (simp add: fl24_small)
qed

lemma fl24_le_pow: "0 \<le> x \<Longrightarrow> x \<le> 2 ^ k \<Longrightarrow> fl24 x \<le> 2 ^ k"
proof (cases "16777216 \<le> x")
  case True
  assume k: "x \<le> 2 ^ k"
  from True obtain e where e: "2 ^ (23 + e) \<le> x" "x < 2 ^ (24 + e)" "2 ^ (23 + e) \<le> fl24 x"
    "fl24 x \<le> 2 ^ (24 + e)" "x \<noteq> 2 ^ (23 + e) \<or> fl24 x = x"
    by (rule fl24_range)
  show ?thesis
  proof (cases "24 + e \<le> k")
    case True
    then have "(2::int) ^ (24 + e) \<le> 2 ^ k" by (intro power_increasing) simp_all
    with e show ?thesis by linarith
  next
    case False
    then have "(2::int) ^ k \<le> 2 ^ (23 + e)" by (intro power_increasing) simp_all
    with e k show ?thesis by simp
  qed
qed (simp add: fl24_small)

text \<open>So the quotient of two numbers is at most one exactly as the numbers compare.\<close>

lemma fl_div_le_1: "0 \<le> a \<Longrightarrow> a \<le> b \<Longrightarrow> fl_div a b \<le> 2 ^ 61"
proof (cases "b = 0")
  case False
  assume a: "0 \<le> a" "a \<le> b"
  with False have b: "0 < b" by simp
  have q: "a * 2 ^ 60 div b * b + a * 2 ^ 60 mod b = a * 2 ^ 60" by (rule div_mult_mod_eq)
  have nn: "0 \<le> a * 2 ^ 60 div b" using a b by (simp add: pos_imp_zdiv_nonneg_iff)
  have "a * 2 ^ 60 div b \<le> b * 2 ^ 60 div b" using a b by (intro zdiv_mono1) simp_all
  with b have le: "a * 2 ^ 60 div b \<le> 2 ^ 60" by simp
  moreover have "2 * (a * 2 ^ 60 div b) + (if a * 2 ^ 60 mod b = 0 then 0 else 1) \<le> 2 ^ 61"
  proof (cases "a * 2 ^ 60 mod b = 0")
    case True
    with le show ?thesis by simp
  next
    case False
    then have "a * 2 ^ 60 mod b > 0" using b by (simp add: order_less_le)
    have "a * 2 ^ 60 div b \<noteq> 2 ^ 60"
    proof
      assume "a * 2 ^ 60 div b = 2 ^ 60"
      with q have "2 ^ 60 * b + a * 2 ^ 60 mod b = a * 2 ^ 60" by (simp only:)
      with \<open>a * 2 ^ 60 mod b > 0\<close> a(2) show False by simp
    qed
    with le have "a * 2 ^ 60 div b < 2 ^ 60" by simp
    with False show ?thesis by simp
  qed
  ultimately show ?thesis using nn unfolding fl_div_def by (intro fl24_le_pow) simp_all
qed simp

lemma fl_div_ge_2: "0 < b \<Longrightarrow> 2 * b \<le> a \<Longrightarrow> 2 ^ 62 \<le> fl_div a b"
proof -
  assume b: "0 < b" "2 * b \<le> a"
  have "2 ^ 61 * b div b \<le> a * 2 ^ 60 div b" using b by (intro zdiv_mono1) simp_all
  with b(1) have "2 ^ 61 \<le> a * 2 ^ 60 div b" by simp
  then show ?thesis unfolding fl_div_def by (intro fl24_ge_pow) simp
qed
end
