(* ===== verification/TorDownload.thy ===== *)
theory TorDownload
  imports TorrentWrapper Float24
begin

section \<open>gui/TorHelpers.cpp: fetching a torrent and watching its start\<close>

text \<open>
  \<^verbatim>\<open>DownloadNotifyThread::run\<close> (one iteration per second, with the IEEE single precision
  arithmetic of the byte count written out), \<^verbatim>\<open>TorrentDownloadThread\<close> (the \<^verbatim>\<open>.torrent\<close> file from
  the network or a local file, the magnet link when that fails) and \<^verbatim>\<open>Requester\<close> (the requests and
  redirections for the file). A division by zero and a conversion to \<^verbatim>\<open>int\<close> out of range have no
  defined result in C++: they are the traps of the model.
\<close>

datatype byte_ratio = RatioZero | RatioOne | RatioTenth

text \<open>\<^verbatim>\<open>0.1f\<close> is \<open>13421773 / 2^27\<close>.\<close>

fun add_bytes :: "int \<Rightarrow> int \<Rightarrow> byte_ratio \<Rightarrow> int" where
  "add_bytes pb rate RatioZero = fl24 pb"
| "add_bytes pb rate RatioOne = fl24 (fl24 pb + fl24 rate)"
| "add_bytes pb rate RatioTenth =
     fl24 (fl24 pb * 2 ^ 27 + fl24 (fl24 rate * 13421773)) sdiv 2 ^ 27"

subsection \<open>Watching the start of a torrent\<close>

datatype trap = DivideByZero | FloatRange

datatype notify_out =
    NotifyInfo dlInfo
  | NotifyUrl bytes
  | NotifyProgress int int int int bytes

record notify =
  nt_progress :: int
  nt_hadPieces :: int
  nt_pieceBytes :: int
  nt_haveUrl :: bool

definition notify_init :: notify where
  "notify_init = \<lparr>nt_progress = 0, nt_hadPieces = 0, nt_pieceBytes = 0, nt_haveUrl = False\<rparr>"

definition TORRENT_INFO_UPDATE_DELAY_MS :: int where
  "TORRENT_INFO_UPDATE_DELAY_MS = 1000"

definition TK_LOOKING_FOR_PEERS :: bytes where
  "TK_LOOKING_FOR_PEERS = ''Looking for peers''"

definition TK_DOWNLOADING :: bytes where
  "TK_DOWNLOADING = ''Downloading''"

definition byteRatio :: "dlInfo \<Rightarrow> byte_ratio" where
  "byteRatio info =
     (if piecesStartup info = 0 then RatioZero
      else
        (let r = 1 - piecesStartupDone info sdiv piecesStartup info
         in if r < 0 then RatioTenth else if r = 0 then RatioZero else RatioOne))"

definition currentProgress :: "dlInfo \<Rightarrow> int \<Rightarrow> trap + int" where
  "currentProgress info pb =
     (if pieceSize info = 0 then Inr 0
      else if pieceSize info * piecesStartup info = 0 then Inl DivideByZero
      else Inr (to_int32 (((pb + piecesStartupDone info * pieceSize info) * 100) sdiv
                          (pieceSize info * piecesStartup info))))"

text \<open>
  One iteration after the sleep: what \<^verbatim>\<open>torrentGetInfo\<close> answers, and the file's URL when
  \<^verbatim>\<open>torrentGetFileUrl\<close> gives one.
\<close>

definition notify_progress :: "dlInfo \<Rightarrow> notify \<Rightarrow> trap + notify \<times> notify_out list" where
  "notify_progress info s =
     (let (had, pb) = (if nt_hadPieces s < piecesStartupDone info
                       then (to_int32 (piecesStartupDone info), 0)
                       else (nt_hadPieces s, nt_pieceBytes s));
          pb' = add_bytes pb (downloadRateBs info sdiv (1000 sdiv TORRENT_INFO_UPDATE_DELAY_MS))
                  (byteRatio info)
      in if \<not> int32_ok pb' then Inl FloatRange
         else case currentProgress info pb' of
             Inl e \<Rightarrow> Inl e
           | Inr cur \<Rightarrow>
               (let p1 = max cur (nt_progress s);
                    p2 = (if 100 < p1 then 100
                          else if p1 = 0 \<and> (seeders info \<noteq> 0 \<or> peers info \<noteq> 0) then 3 else p1)
                in Inr (s\<lparr>nt_progress := p2, nt_hadPieces := had, nt_pieceBytes := pb'\<rparr>,
                        [NotifyProgress p2 (to_int32 (downloadRateBs info sdiv 1000))
                           (to_int32 (seeders info)) (to_int32 (peers info))
                           (if 3 < p2 then TK_DOWNLOADING else TK_LOOKING_FOR_PEERS)])))"

definition notify_step ::
    "dlInfo \<Rightarrow> bytes option \<Rightarrow> notify \<Rightarrow> trap + notify \<times> notify_out list" where
  "notify_step info url s =
     (if nt_haveUrl s then Inr (s, [NotifyInfo info])
      else
        (case url of
           Some u \<Rightarrow>
             Inr (s\<lparr>nt_haveUrl := True\<rparr>,
                  [NotifyUrl (replaceAll (replaceAll u [CHR 0x5C] ''/'') [CHR 0x22] [])])
         | None \<Rightarrow> notify_progress info s))"

fun notify_run ::
    "(dlInfo \<times> bytes option) list \<Rightarrow> notify \<Rightarrow> trap + notify \<times> notify_out list" where
  "notify_run [] s = Inr (s, [])"
| "notify_run ((info, url) # obs) s =
     (case notify_step info url s of
        Inl e \<Rightarrow> Inl e
      | Inr (s1, o1) \<Rightarrow>
          (case notify_run obs s1 of
             Inl e \<Rightarrow> Inl e
           | Inr (s2, o2) \<Rightarrow> Inr (s2, o1 @ o2)))"

fun shown :: "notify_out list \<Rightarrow> int list" where
  "shown [] = []"
| "shown (NotifyProgress p r a b m # xs) = p # shown xs"
| "shown (_ # xs) = shown xs"

fun urls :: "notify_out list \<Rightarrow> bytes list" where
  "urls [] = []"
| "urls (NotifyUrl u # xs) = u # urls xs"
| "urls (_ # xs) = urls xs"

lemma shown_append [simp]: "shown (xs @ ys) = shown xs @ shown ys"
  by (induction xs rule: shown.induct) simp_all

lemma urls_append [simp]: "urls (xs @ ys) = urls xs @ urls ys"
  by (induction xs rule: urls.induct) simp_all

lemma notify_step_shown:
  assumes "notify_step info url s = Inr (t, outs)" "0 \<le> nt_progress s" "nt_progress s \<le> 100"
  shows "nt_progress s \<le> nt_progress t \<and> nt_progress t \<le> 100 \<and>
    (shown outs = [] \<and> nt_progress t = nt_progress s \<or> shown outs = [nt_progress t])"
  using assms
  by (auto simp: notify_step_def notify_progress_def Let_def max_def
      split: if_splits option.splits sum.splits prod.splits)

text \<open>
  The percentages shown while a torrent starts never fall and stay between 0 and 100, whatever
  the library reports from second to second.
\<close>

theorem progress_monotone:
  assumes "notify_run obs notify_init = Inr (t, outs)"
  shows "sorted (shown outs) \<and> list_all (\<lambda>p. 0 \<le> p \<and> p \<le> 100) (shown outs)"
proof -
  have "sorted (nt_progress s # shown outs) \<and> list_all (\<lambda>p. 0 \<le> p \<and> p \<le> 100) (shown outs)"
    if "notify_run obs s = Inr (t, outs)" "0 \<le> nt_progress s" "nt_progress s \<le> 100" for s outs
    using that
  proof (induction obs s arbitrary: outs rule: notify_run.induct)
    case (2 info url obs s)
    then obtain s1 o1 o2 where st: "notify_step info url s = Inr (s1, o1)"
      "notify_run obs s1 = Inr (t, o2)" "outs = o1 @ o2"
      by (auto split: sum.splits prod.splits)
    note sh = notify_step_shown [OF st(1) 2(3,4)]
    with 2(1) [OF st(1) refl st(2)] 2(3) show ?case unfolding st(3) by auto
  qed simp
  from this [OF assms] show ?thesis by (simp add: notify_init_def)
qed

lemma replaceAll_delete: "replaceAll s [a] [] = filter (\<lambda>c. c \<noteq> a) s"
proof -
  have "subst_all [a] [] s = filter (\<lambda>c. c \<noteq> a) s"
  proof (induction s)
    case (Cons c s)
    then show ?case by (subst subst_all.simps) auto
  qed simp
  then show ?thesis by (simp add: replaceAll_def replaceAll_loop_eq)
qed

definition demo_obs :: "(dlInfo \<times> bytes option) list" where
  "demo_obs =
     [(info0, None),
      (info0\<lparr>pieceSize := 16384, piecesStartup := 9, peers := 4\<rparr>, None),
      (info0\<lparr>pieceSize := 16384, piecesStartup := 9, downloadRateBs := 100000\<rparr>, None),
      (info0\<lparr>pieceSize := 16384, piecesStartup := 9, piecesStartupDone := 5\<rparr>, None),
      (info0, Some [CHR 0x22, CHR ''d'', CHR 0x5C, CHR ''m'', CHR 0x22])]"

lemma demo_obs_run:
  "map_sum id (\<lambda>(t, outs). (shown outs, urls outs)) (notify_run demo_obs notify_init) =
     Inr ([0, 3, 67, 67], [''d/m''])"
  by (simp add: demo_obs_def notify_step_def notify_progress_def notify_init_def info0_def
      currentProgress_def byteRatio_def fl24_small replaceAll_char replaceAll_delete Let_def
      int32_ok_def to_int32_def TORRENT_INFO_UPDATE_DELAY_MS_def TK_DOWNLOADING_def
      TK_LOOKING_FOR_PEERS_def)

lemma demo_obs_outs:
  obtains t outs where "notify_run demo_obs notify_init = Inr (t, outs)"
    "shown outs = [0, 3, 67, 67]" "urls outs = [''d/m'']"
  using demo_obs_run by (cases "notify_run demo_obs notify_init") auto

lemma progress_monotone_witness:
  "\<exists>t outs. notify_run demo_obs notify_init = Inr (t, outs) \<and> shown outs = [0, 3, 67, 67] \<and>
     sorted (shown outs)"
proof -
  obtain t outs where r: "notify_run demo_obs notify_init = Inr (t, outs)"
    "shown outs = [0, 3, 67, 67]" by (rule demo_obs_outs)
  from progress_monotone [OF r(1)] r show ?thesis by blast
qed

definition clean_url :: "bytes \<Rightarrow> bool" where
  "clean_url u \<longleftrightarrow> CHR 0x5C \<notin> set u \<and> CHR 0x22 \<notin> set u"

text \<open>
  The URL of the file is announced at most once, without quotes or backslashes, and no
  percentage is shown after it.
\<close>

theorem url_announced_once:
  assumes "notify_run obs notify_init = Inr (t, outs)"
  shows "urls outs = [] \<and> \<not> nt_haveUrl t \<or>
    (\<exists>u xs ys. urls outs = [u] \<and> clean_url u \<and> outs = xs @ NotifyUrl u # ys \<and> shown ys = [] \<and>
       nt_haveUrl t)"
proof -
  have after: "urls outs = [] \<and> shown outs = [] \<and> nt_haveUrl t"
    if "notify_run obs s = Inr (t, outs)" "nt_haveUrl s" for obs s t outs
    using that
  proof (induction obs s arbitrary: outs rule: notify_run.induct)
    case (2 info url obs s)
    then show ?case by (auto simp: notify_step_def split: sum.splits prod.splits)
  qed simp
  have "urls outs = [] \<and> \<not> nt_haveUrl t \<or>
    (\<exists>u xs ys. urls outs = [u] \<and> clean_url u \<and> outs = xs @ NotifyUrl u # ys \<and> shown ys = [] \<and>
       nt_haveUrl t)"
    if "notify_run obs s = Inr (t, outs)" "\<not> nt_haveUrl s" for obs s t outs
    using that
  proof (induction obs s arbitrary: outs rule: notify_run.induct)
    case (2 info url obs s)
    then obtain s1 o1 o2 where st: "notify_step info url s = Inr (s1, o1)"
      "notify_run obs s1 = Inr (t, o2)" "outs = o1 @ o2"
      by (auto split: sum.splits prod.splits)
    show ?case
    proof (cases url)
      case None
      with st(1) 2(3) have n: "urls o1 = []" "\<not> nt_haveUrl s1"
        by (auto simp: notify_step_def notify_progress_def Let_def
            split: if_splits sum.splits prod.splits)
      from 2(1) [OF st(1) refl st(2) n(2)]
      show ?thesis unfolding st(3) using n(1) by (auto simp: append_assoc [symmetric] simp del: append_assoc)
    next
      case (Some u)
      define v where "v = replaceAll (replaceAll u [CHR 0x5C] ''/'') [CHR 0x22] []"
      have "clean_url v"
        by (auto simp: v_def clean_url_def replaceAll_delete replaceAll_char split: if_splits)
      moreover have "s1 = s\<lparr>nt_haveUrl := True\<rparr>" "o1 = [NotifyUrl v]"
        using st(1) 2(3) Some by (simp_all add: notify_step_def v_def)
      ultimately show ?thesis using after [OF st(2)] unfolding st(3) by force
    qed
  qed simp
  from this [OF assms] show ?thesis by (simp add: notify_init_def)
qed

lemma url_announced_once_witness:
  "\<exists>t outs u. notify_run demo_obs notify_init = Inr (t, outs) \<and> urls outs = [u] \<and> clean_url u"
proof -
  obtain t outs where r: "notify_run demo_obs notify_init = Inr (t, outs)"
    "urls outs = [''d/m'']" by (rule demo_obs_outs)
  from url_announced_once [OF r(1)] r show ?thesis by auto
qed

text \<open>
  Fed with what the library reports for any torrent of a well-formed table, the thread never
  divides by zero: either the piece size it reads is 0 or there are start-up pieces.
\<close>

theorem notify_never_divides_by_zero:
  assumes "streamer_wf st" "getTorrentInfo w raw k st = Some (st', info)"
  shows "notify_step info url s \<noteq> Inl DivideByZero"
proof -
  have "pieceSize info = 0 \<or> 0 < piecesStartup info"
  proof (cases "getAux w k st")
    case (Pair x st1)
    show ?thesis
    proof (cases x)
      case None
      with Pair assms(2) show ?thesis by (auto simp: getTorrentInfo_def dlInfoExt_def)
    next
      case (Some a)
      with Pair have "map_of (tMap st) k = Some a"
        by (auto simp: getAux_def split: option.splits if_splits)
      then have "(k, a) \<in> set (tMap st)" by (rule map_of_SomeD)
      with assms(1) have "aux_wf a" by (auto simp: streamer_wf_def list_all_iff)
      then have "0 < startupPiecesCountAtStart a + startupPiecesCountAtEnd a"
        by (simp add: aux_wf_def MIN_STARTUP_PIECES_START_def MIN_STARTUP_PIECES_END_def)
      with Pair Some assms(2) show ?thesis
        by (auto simp: getTorrentInfo_def Let_def split: option.splits)
    qed
  qed
  then have "currentProgress info pb \<noteq> Inl DivideByZero" for pb
    by (auto simp: currentProgress_def)
  then show ?thesis
    by (auto simp: notify_step_def notify_progress_def Let_def split: option.splits sum.splits prod.splits)
qed

lemma notify_never_divides_by_zero_witness:
  "\<exists>st' info. getTorrentInfo full_world info0 1 demo_st = Some (st', info) \<and>
     notify_step info None notify_init \<noteq> Inl DivideByZero"
proof -
  have "getAux full_world 1 demo_st = (Some demo_aux, demo_st)"
    by (simp add: getAux_def demo_st_def full_world_def hv_of_def demo_hv_def)
  moreover have "(file_progress full_world demo_aux 16384,
      countPieces (hv_pieces (hv_of full_world demo_aux)) 6 11,
      countPieces (hv_pieces (hv_of full_world demo_aux)) 14 18) = (Some 212992, Some 6, Some 5)"
    "startupPiecesCountAtEnd demo_aux = 4" "startupPiecesCountAtStart demo_aux = 5"
    "fileFirstPiece demo_aux = 6" "fileLastPiece demo_aux = 18"
    "m_piece_length (w_ti full_world (ta_handle demo_aux)) = 16384"
    by code_simp+
  ultimately obtain st' info
    where r: "getTorrentInfo full_world info0 1 demo_st = Some (st', info)"
    by (simp add: getTorrentInfo_def Let_def)
  have "flags_ok demo_aux" by code_simp
  then have "streamer_wf demo_st"
    using demo_aux_wf(1) by (simp add: streamer_wf_def demo_st_def INT_MAX_def)
  from notify_never_divides_by_zero [OF this r] r show ?thesis by blast
qed

subsection \<open>Fetching the torrent\<close>

text \<open>
  \<open>net\<close> is what \<^verbatim>\<open>haveTorrentFile\<close> delivers before the timeout (\<open>None\<close> when it passes); \<open>imp\<close> and
  \<open>mag\<close> are \<^verbatim>\<open>torrentAddImport\<close> and \<^verbatim>\<open>torrentAddStart\<close> on the state of the library.
\<close>

datatype url_kind = InvalidUrl | LocalUrl "bytes option" | RemoteUrl

definition getAddTorrentFile ::
    "bytes option \<Rightarrow> (bytes \<Rightarrow> bytes \<Rightarrow> 'l \<Rightarrow> 'l \<times> int) \<Rightarrow> bytes \<Rightarrow> 'l \<Rightarrow> 'l \<times> int" where
  "getAddTorrentFile net imp fileName l =
     (case net of
        None \<Rightarrow> (l, - 20)
      | Some d \<Rightarrow> if d = [] then (l, - 20) else imp d fileName l)"

datatype 'n fetch_out = GetMetadataError "'n torrent_info" | TorrentDownloaded "'n torrent_info"

definition fetch_run ::
    "url_kind \<Rightarrow> bytes option \<Rightarrow> (bytes \<Rightarrow> bytes \<Rightarrow> 'l \<Rightarrow> 'l \<times> int) \<Rightarrow>
     (bytes \<Rightarrow> bytes \<Rightarrow> 'l \<Rightarrow> 'l \<times> int) \<Rightarrow> 'n torrent_info \<Rightarrow> 'l \<Rightarrow> 'l \<times> 'n fetch_out" where
  "fetch_run kind net imp mag t l =
     (let (l1, i1) = (case kind of
            InvalidUrl \<Rightarrow> (l, - 30)
          | RemoteUrl \<Rightarrow> getAddTorrentFile net imp (ti_fileName t) l
          | LocalUrl content \<Rightarrow>
              (case content of
                 None \<Rightarrow> (l, - 30)
               | Some b \<Rightarrow> if b = [] then (l, - 30) else imp b (ti_fileName t) l));
          (l2, i2) = (if i1 < 0 \<and> ti_magnet t \<noteq> [] then mag (ti_magnet t) (ti_fileName t) l1
                      else (l1, i1));
          t2 = t\<lparr>ti_index := i2\<rparr>
      in (l2, if i2 < 0 then GetMetadataError t2 else TorrentDownloaded t2))"

text \<open>The bytes of the \<^verbatim>\<open>.torrent\<close> file, when there are any.\<close>

definition torrent_bytes :: "url_kind \<Rightarrow> bytes option \<Rightarrow> bytes" where
  "torrent_bytes kind net =
     (case kind of
        InvalidUrl \<Rightarrow> []
      | RemoteUrl \<Rightarrow> (case net of None \<Rightarrow> [] | Some d \<Rightarrow> d)
      | LocalUrl content \<Rightarrow> (case content of None \<Rightarrow> [] | Some d \<Rightarrow> d))"

text \<open>
  The torrent file is imported when its bytes are there, the magnet link is tried exactly when
  there is one and the file did not give an index, and the outcome reports the index of the last
  attempt: a torrent with index \<open>\<ge> 0\<close>, or an error with -30 (nothing to load), -20 (no answer
  from the network) or the library's own code.
\<close>

theorem fetch_outcome:
  "fetch_run kind net imp mag t l =
     (let file = torrent_bytes kind net;
          (l1, i1) = (if file \<noteq> [] then imp file (ti_fileName t) l
                      else (l, if kind = RemoteUrl then - 20 else - 30));
          (l2, i2) = (if 0 \<le> i1 \<or> ti_magnet t = [] then (l1, i1)
                      else mag (ti_magnet t) (ti_fileName t) l1)
      in (l2, if 0 \<le> i2 then TorrentDownloaded (t\<lparr>ti_index := i2\<rparr>)
              else GetMetadataError (t\<lparr>ti_index := i2\<rparr>)))"
  by (cases kind; cases net)
    (auto simp: fetch_run_def getAddTorrentFile_def torrent_bytes_def Let_def
      split: option.splits prod.splits if_splits)

subsection \<open>Requests for torrent files\<close>

text \<open>
  Replies are numbered in the order of their requests; \<open>rq_live\<close> holds those that are connected
  and have not finished, \<open>rq_current\<close> is \<^verbatim>\<open>torrentReply_\<close>. A finished reply has an error flag, an
  HTTP status, the target of a redirection and a body.
\<close>

record requester =
  rq_current :: "nat option"
  rq_next :: nat
  rq_live :: "nat list"

definition requester_init :: requester where
  "requester_init = \<lparr>rq_current = None, rq_next = 0, rq_live = []\<rparr>"

datatype req_out = Request bytes | AbortReply nat | HaveTorrentFile bytes

type_synonym req_act = "(requester, req_out) act"

definition send_request :: "bytes \<Rightarrow> req_act" where
  "send_request url = acts
     [emit (Request url),
      modify (\<lambda>s. s\<lparr>rq_current := Some (rq_next s), rq_live := rq_live s @ [rq_next s],
                    rq_next := rq_next s + 1\<rparr>)]"

definition getTorrentFile :: "bool \<Rightarrow> bytes \<Rightarrow> req_act" where
  "getTorrentFile valid url =
     (if \<not> valid then skip_act
      else acts
        [with_state (\<lambda>s. case rq_current s of
            None \<Rightarrow> skip_act
          | Some i \<Rightarrow> acts [modify (\<lambda>s. s\<lparr>rq_live := filter (\<lambda>j. j \<noteq> i) (rq_live s)\<rparr>),
                           emit (AbortReply i)]),
         send_request url])"

definition onTorrentFileReqestFinished :: "nat \<Rightarrow> bool \<Rightarrow> int \<Rightarrow> bytes \<Rightarrow> bytes \<Rightarrow> req_act" where
  "onTorrentFileReqestFinished i err status target content =
     acts
       [modify (\<lambda>s. s\<lparr>rq_live := filter (\<lambda>j. j \<noteq> i) (rq_live s)\<rparr>),
        with_state (\<lambda>s.
          if rq_current s = Some i \<and> \<not> err \<and> (status = 301 \<or> status = 302 \<or> status = 307)
          then send_request target
          else acts
            [when_act (rq_current s = Some i \<and> err) (emit (HaveTorrentFile [])),
             when_act (rq_current s = Some i \<and> \<not> err \<and> status = 200) (emit (HaveTorrentFile content)),
             modify (\<lambda>s. s\<lparr>rq_current := None\<rparr>)])]"

datatype req_event = AskFile bool bytes | ReplyFinished nat bool int bytes bytes

text \<open>Only connected replies are heard of.\<close>

fun req_handle :: "req_event \<Rightarrow> req_act" where
  "req_handle (AskFile valid url) = getTorrentFile valid url"
| "req_handle (ReplyFinished i err status target content) =
     with_state (\<lambda>s. when_act (i \<in> set (rq_live s))
                       (onTorrentFileReqestFinished i err status target content))"

definition rq_inv :: "requester \<Rightarrow> bool" where
  "rq_inv s \<longleftrightarrow> rq_live s = (case rq_current s of None \<Rightarrow> [] | Some i \<Rightarrow> [i])"

fun answers :: "req_out list \<Rightarrow> nat" where
  "answers [] = 0"
| "answers (HaveTorrentFile b # xs) = Suc (answers xs)"
| "answers (_ # xs) = answers xs"

lemma answers_append [simp]: "answers (xs @ ys) = answers xs + answers ys"
  by (induction xs rule: answers.induct) simp_all

definition pending :: "requester \<Rightarrow> nat" where
  "pending s = (case rq_current s of None \<Rightarrow> 0 | Some i \<Rightarrow> 1)"

fun asks_for :: "req_event \<Rightarrow> nat" where
  "asks_for (AskFile valid url) = (if valid then 1 else 0)"
| "asks_for _ = 0"

lemma req_handle_inv: "rq_inv s \<Longrightarrow> rq_inv (fst (req_handle e s))"
  by (cases e)
    (auto simp: rq_inv_def getTorrentFile_def send_request_def onTorrentFileReqestFinished_def
      run_simps split: option.splits simp del: acts.simps(2))

lemma req_handle_answers:
  "rq_inv s \<Longrightarrow> answers (snd (req_handle e s)) + pending (fst (req_handle e s)) \<le> pending s + asks_for e"
  by (cases e)
    (auto simp: rq_inv_def pending_def getTorrentFile_def send_request_def
      onTorrentFileReqestFinished_def run_simps split: option.splits simp del: acts.simps(2))

text \<open>
  At most one reply is connected, the current one, so that a late answer to an earlier request
  is never delivered; and every request, with all its redirections, is answered at most once.
\<close>

theorem requester_answers_once:
  "let r = acts (map req_handle evs) requester_init
   in rq_live (fst r) = (case rq_current (fst r) of None \<Rightarrow> [] | Some i \<Rightarrow> [i]) \<and>
      answers (snd r) + pending (fst r) \<le> sum_list (map asks_for evs)"
proof -
  have "rq_inv (fst (acts (map req_handle evs) s)) \<and>
      answers (snd (acts (map req_handle evs) s)) + pending (fst (acts (map req_handle evs) s)) \<le>
      pending s + sum_list (map asks_for evs)" if "rq_inv s" for s
    using that
  proof (induction evs arbitrary: s)
    case (Cons e evs)
    from Cons.IH [OF req_handle_inv [OF Cons.prems, of e]] req_handle_answers [OF Cons.prems, of e]
    show ?case by (simp add: fst_acts snd_acts del: acts.simps(2))
  qed simp
  from this [of requester_init]
  show ?thesis by (simp add: rq_inv_def requester_init_def pending_def)
qed

end
