(* ===== verification/SubtitleFetch.thy ===== *)
theory SubtitleFetch
  imports CommonTypes
begin

section \<open>gui/SubtitleFetcher.cpp: downloading the subtitles of a language\<close>

text \<open>
  The class \<^verbatim>\<open>SubtitleFetcher\<close>: it requests the subtitles of one language in turn, tries a failed
  request again, and removes from the language what it cannot load. The shared pointers are the
  keys of the list; \<open>sf_alive\<close> tells whether the weak pointer to the language can still be
  followed; \<open>sf_pending\<close> is what the object waits for. The expression that finds the name in a
  \<^verbatim>\<open>Content-Disposition\<close> header is an argument.
\<close>

type_synonym 'n subs = "(nat \<times> 'n subtitle_item) list"

datatype pending_on = Nothing | AwaitReply | AwaitTimer

record 'n sub_fetcher =
  sf_alive :: bool
  sf_subs :: "'n subs"
  sf_curr :: "nat option"
  sf_retries :: int
  sf_all :: bool
  sf_pending :: pending_on

datatype 'n sf_out =
    GetSub bytes
  | RetryAfter int
  | SubLoaded "'n subtitle_item"
  | FetchFinished

type_synonym 'n sf_act = "('n sub_fetcher, 'n sf_out) act"

definition SUBTITLE_DOWNLOAD_RETRIES :: int where
  "SUBTITLE_DOWNLOAD_RETRIES = 2"

definition SUBTITLE_DOWNLOAD_RETRY_DELAY_S :: int where
  "SUBTITLE_DOWNLOAD_RETRY_DELAY_S = 10"

definition url_of :: "nat option \<Rightarrow> 'n subs \<Rightarrow> bytes" where
  "url_of c subs =
     (case c of None \<Rightarrow> [] | Some i \<Rightarrow>
        (case map_of subs i of None \<Rightarrow> [] | Some item \<Rightarrow> si_urlPath item))"

definition sf_stop :: "'n sf_act" where
  "sf_stop = modify (\<lambda>s. s\<lparr>sf_pending := Nothing\<rparr>)"

definition sf_request :: "'n sf_act" where
  "sf_request = with_state (\<lambda>s.
     if \<not> sf_alive s then sf_stop
     else if sf_curr s = None then acts [emit FetchFinished, sf_stop]
     else acts [modify (\<lambda>s. s\<lparr>sf_retries := sf_retries s - 1, sf_pending := AwaitReply\<rparr>),
                emit (GetSub (url_of (sf_curr s) (sf_subs s)))])"

text \<open>The keys of the subtitles that cannot be shown yet, in order.\<close>

definition missing_subs :: "'n subs \<Rightarrow> nat list" where
  "missing_subs subs = map fst (filter (\<lambda>p. \<not> canDisplay (snd p)) subs)"

definition getNextSub :: "'n sf_act" where
  "getNextSub = acts
     [modify (\<lambda>s. s\<lparr>sf_retries := SUBTITLE_DOWNLOAD_RETRIES + 1\<rparr>),
      modify (\<lambda>s. s\<lparr>sf_curr :=
        (if sf_all s \<or> sf_subs s = [] \<or> \<not> canDisplay (snd (hd (sf_subs s)))
         then (case missing_subs (sf_subs s) of [] \<Rightarrow> None | i # is \<Rightarrow> Some i) else None)\<rparr>)]"

definition remove_sub :: "nat option \<Rightarrow> 'n subs \<Rightarrow> 'n subs" where
  "remove_sub c subs = (case c of None \<Rightarrow> subs | Some i \<Rightarrow> filter (\<lambda>p. fst p \<noteq> i) subs)"

definition put_sub :: "nat \<Rightarrow> 'n subtitle_item \<Rightarrow> 'n subs \<Rightarrow> 'n subs" where
  "put_sub i item subs = map (\<lambda>p. if fst p = i then (i, item) else p) subs"

definition drop_curr :: "'n sf_act" where
  "drop_curr = modify (\<lambda>s. s\<lparr>sf_subs := remove_sub (sf_curr s) (sf_subs s)\<rparr>)"

definition updateFilename ::
    "(bytes \<Rightarrow> bytes option) \<Rightarrow> bytes \<Rightarrow> 'n subtitle_item \<Rightarrow> 'n subtitle_item" where
  "updateFilename disposition_name header item =
     (if header = [] then item
      else (case disposition_name header of None \<Rightarrow> item | Some n \<Rightarrow> setOriginalName n item))"

text \<open>A reply: an error, or the header and the body.\<close>

definition sf_loaded ::
    "arch_env \<Rightarrow> (bytes \<Rightarrow> bytes option) \<Rightarrow> bytes \<Rightarrow> bytes \<Rightarrow> nat \<Rightarrow> 'n subtitle_item \<Rightarrow> 'n sf_act" where
  "sf_loaded env dn header content i item =
     (let (item', ok) = setZipData env content (updateFilename dn header item)
      in acts
        [modify (\<lambda>s. s\<lparr>sf_subs := put_sub i item' (sf_subs s)\<rparr>),
         if ok then acts [emit (SubLoaded item'), when_act (\<not> canDisplay item') drop_curr]
         else drop_curr])"

definition sf_next :: "'n sf_act" where
  "sf_next = acts [getNextSub, sf_request]"

definition sf_onFinished ::
    "arch_env \<Rightarrow> (bytes \<Rightarrow> bytes option) \<Rightarrow> (bytes \<times> bytes) option \<Rightarrow> 'n sf_act" where
  "sf_onFinished env dn reply = with_state (\<lambda>s.
     if \<not> sf_alive s then sf_stop
     else
       (case reply of
          None \<Rightarrow>
            if 0 < sf_retries s
            then acts [emit (RetryAfter (SUBTITLE_DOWNLOAD_RETRY_DELAY_S * 1000)),
                       modify (\<lambda>s. s\<lparr>sf_pending := AwaitTimer\<rparr>)]
            else acts [drop_curr, sf_next]
        | Some (header, content) \<Rightarrow>
            acts
              [case sf_curr s of
                 None \<Rightarrow> skip_act
               | Some i \<Rightarrow>
                   (case map_of (sf_subs s) i of
                      None \<Rightarrow> skip_act
                    | Some item \<Rightarrow> sf_loaded env dn header content i item),
               sf_next]))"

definition subtitleFetcher :: "'n subs \<Rightarrow> bool \<Rightarrow> 'n sub_fetcher \<times> 'n sf_out list" where
  "subtitleFetcher subs fetchAll =
     (let s = \<lparr>sf_alive = True, sf_subs = subs, sf_curr = None,
               sf_retries = SUBTITLE_DOWNLOAD_RETRIES + 1, sf_all = fetchAll, sf_pending = Nothing\<rparr>
      in if subs = [] then (s, [FetchFinished])
         else sf_request (s\<lparr>sf_curr := Some (fst (hd subs))\<rparr>))"

datatype sf_event = Reply "(bytes \<times> bytes) option" | RetryTimer | LanguageDropped

fun sf_handle :: "arch_env \<Rightarrow> (bytes \<Rightarrow> bytes option) \<Rightarrow> sf_event \<Rightarrow> 'n sf_act" where
  "sf_handle env dn (Reply r) =
     with_state (\<lambda>s. when_act (sf_pending s = AwaitReply) (sf_onFinished env dn r))"
| "sf_handle env dn RetryTimer =
     with_state (\<lambda>s. when_act (sf_pending s = AwaitTimer) sf_request)"
| "sf_handle env dn LanguageDropped = modify (\<lambda>s. s\<lparr>sf_alive := False\<rparr>)"

definition sf_run ::
    "arch_env \<Rightarrow> (bytes \<Rightarrow> bytes option) \<Rightarrow> sf_event list \<Rightarrow> 'n subs \<Rightarrow> bool \<Rightarrow>
     'n sub_fetcher \<times> 'n sf_out list" where
  "sf_run env dn evs subs fetchAll =
     (let (s0, o0) = subtitleFetcher subs fetchAll;
          (s1, o1) = acts (map (sf_handle env dn) evs) s0
      in (s1, o0 @ o1))"

subsection \<open>How often a fetcher asks\<close>

fun gets :: "'n sf_out list \<Rightarrow> nat" where
  "gets [] = 0"
| "gets (GetSub u # xs) = Suc (gets xs)"
| "gets (_ # xs) = gets xs"

lemma gets_append [simp]: "gets (xs @ ys) = gets xs + gets ys"
  by (induction xs rule: gets.induct) simp_all

text \<open>
  The requests a fetcher can still make: those left for the current subtitle, and all of them for
  every other one that cannot be shown.
\<close>

definition others :: "'n sub_fetcher \<Rightarrow> nat" where
  "others s = length (filter (\<lambda>i. sf_curr s \<noteq> Some i) (missing_subs (sf_subs s)))"

definition budget :: "'n sub_fetcher \<Rightarrow> nat" where
  "budget s =
     (if sf_pending s = Nothing then 0
      else nat (sf_retries s) + 3 * others s)"

definition sf_wf :: "'n sub_fetcher \<Rightarrow> bool" where
  "sf_wf s \<longleftrightarrow> distinct (map fst (sf_subs s)) \<and> 0 \<le> sf_retries s \<and>
     (sf_pending s = AwaitTimer \<longrightarrow> 0 < sf_retries s) \<and>
     (sf_pending s \<noteq> Nothing \<longrightarrow> (\<exists>i\<in>set (map fst (sf_subs s)). sf_curr s = Some i))"

lemma missing_remove: "missing_subs (remove_sub (Some i) subs) = filter (\<lambda>j. i \<noteq> j) (missing_subs subs)"
  by (induction subs) (auto simp: missing_subs_def remove_sub_def)

lemma missing_put:
  "canDisplay item \<Longrightarrow> missing_subs (put_sub i item subs) = filter (\<lambda>j. i \<noteq> j) (missing_subs subs)"
  by (induction subs) (auto simp: missing_subs_def put_sub_def)

lemma remove_put: "remove_sub (Some i) (put_sub i item subs) = remove_sub (Some i) subs"
  by (induction subs) (auto simp: put_sub_def remove_sub_def)

lemma keys_put [simp]: "map fst (put_sub i item subs) = map fst subs"
  by (induction subs) (auto simp: put_sub_def)

lemma keys_remove: "distinct (map fst subs) \<Longrightarrow> distinct (map fst (remove_sub c subs))"
  by (auto simp: remove_sub_def distinct_map_filter split: option.split)

lemma missing_keys: "set (missing_subs subs) \<subseteq> set (map fst subs)"
  by (auto simp: missing_subs_def)

lemma distinct_missing: "distinct (map fst subs) \<Longrightarrow> distinct (missing_subs subs)"
  by (simp add: missing_subs_def distinct_map_filter)

lemma drop_curr_eq: "drop_curr s = (s\<lparr>sf_subs := remove_sub (sf_curr s) (sf_subs s)\<rparr>, [])"
  by (simp add: drop_curr_def)

text \<open>Loading a reply leaves the current subtitle shown or removed.\<close>

lemma sf_loaded_state:
  assumes "sf_curr s = Some i" "distinct (map fst (sf_subs s))"
  shows "\<exists>X. fst (sf_loaded env dn header content i item s) = s\<lparr>sf_subs := X\<rparr> \<and>
    distinct (map fst X) \<and> missing_subs X = filter (\<lambda>j. i \<noteq> j) (missing_subs (sf_subs s)) \<and>
    gets (snd (sf_loaded env dn header content i item s)) = 0 \<and>
    FetchFinished \<notin> set (snd (sf_loaded env dn header content i item s))"
proof -
  obtain item' ok where z: "setZipData env content (updateFilename dn header item) = (item', ok)"
    by (cases "setZipData env content (updateFilename dn header item)")
  let ?P = "put_sub i item' (sf_subs s)"
  show ?thesis
  proof (cases "ok \<and> canDisplay item'")
    case True
    with z assms show ?thesis
      by (intro exI [of _ ?P]) (simp add: sf_loaded_def drop_curr_eq missing_put)
  next
    case False
    with z assms show ?thesis
      by (intro exI [of _ "remove_sub (Some i) (sf_subs s)"])
        (auto simp: sf_loaded_def drop_curr_eq remove_put missing_remove keys_remove)
  qed
qed

definition sf_post :: "'n sub_fetcher \<Rightarrow> bool" where
  "sf_post s \<longleftrightarrow>
     (if sf_all s then missing_subs (sf_subs s) = []
      else sf_subs s = [] \<or> canDisplay (snd (hd (sf_subs s))))"

lemma missing_none: "missing_subs subs = [] \<Longrightarrow> subs = [] \<or> canDisplay (snd (hd subs))"
  by (cases subs) (auto simp: missing_subs_def split: if_splits)

lemma sf_next_budget:
  fixes s :: "'n sub_fetcher"
  defines "r \<equiv> sf_next s"
  assumes uniq: "distinct (map fst (sf_subs s))"
  shows "sf_wf (fst r)"
    and "gets (snd r) + budget (fst r) \<le> 3 * length (missing_subs (sf_subs s))"
    and "FetchFinished \<in> set (snd r) \<Longrightarrow> sf_post (fst r) \<and> sf_pending (fst r) = Nothing"
proof -
  have "sf_wf (fst r) \<and> gets (snd r) + budget (fst r) \<le> 3 * length (missing_subs (sf_subs s)) \<and>
    (FetchFinished \<in> set (snd r) \<longrightarrow> sf_post (fst r) \<and> sf_pending (fst r) = Nothing)"
  proof (cases "missing_subs (sf_subs s)")
    case Nil
    with uniq missing_none [OF Nil] show ?thesis
      by (auto simp: r_def sf_next_def getNextSub_def sf_request_def sf_stop_def sf_wf_def
          budget_def sf_post_def SUBTITLE_DOWNLOAD_RETRIES_def)
  next
    case (Cons i "is")
    have d: "i \<notin> set is" "i \<in> set (map fst (sf_subs s))"
      using distinct_missing [OF uniq] missing_keys [of "sf_subs s"] Cons by auto
    then have f: "filter (\<lambda>j. i \<noteq> j) is = is" by (auto intro: filter_True)
    show ?thesis
    proof (cases "sf_alive s \<and> (sf_all s \<or> sf_subs s = [] \<or> \<not> canDisplay (snd (hd (sf_subs s))))")
      case True
      with Cons d uniq f show ?thesis
        by (auto simp: r_def sf_next_def getNextSub_def sf_request_def sf_stop_def sf_wf_def
          budget_def others_def SUBTITLE_DOWNLOAD_RETRIES_def)
    next
      case False
      with Cons uniq show ?thesis
        by (auto simp: r_def sf_next_def getNextSub_def sf_request_def sf_stop_def sf_wf_def
          budget_def sf_post_def SUBTITLE_DOWNLOAD_RETRIES_def)
    qed
  qed
  then show "sf_wf (fst r)"
    and "gets (snd r) + budget (fst r) \<le> 3 * length (missing_subs (sf_subs s))"
    and "FetchFinished \<in> set (snd r) \<Longrightarrow> sf_post (fst r) \<and> sf_pending (fst r) = Nothing"
    by blast+
qed

definition sf_step_ok :: "'n sub_fetcher \<Rightarrow> 'n sub_fetcher \<times> 'n sf_out list \<Rightarrow> bool" where
  "sf_step_ok s r \<longleftrightarrow>
     sf_wf (fst r) \<and> gets (snd r) + budget (fst r) \<le> budget s \<and>
     (FetchFinished \<in> set (snd r) \<longrightarrow> sf_post (fst r) \<and> sf_pending (fst r) = Nothing)"

lemma others_curr:
  "sf_curr s = Some i \<Longrightarrow> others s = length (filter (\<lambda>j. i \<noteq> j) (missing_subs (sf_subs s)))"
  by (auto simp: others_def intro: arg_cong [of _ _ length] filter_cong)

lemma sf_then_next:
  assumes "sf_wf s" "sf_pending s = AwaitReply" "sf_curr s = Some i"
    and "distinct (map fst X)" "missing_subs X = filter (\<lambda>j. i \<noteq> j) (missing_subs (sf_subs s))"
  shows "sf_step_ok s (sf_next (s\<lparr>sf_subs := X\<rparr>))"
proof -
  have b: "budget s = nat (sf_retries s) + 3 * length (missing_subs X)"
    using assms(2,5) others_curr [OF assms(3)] by (simp add: budget_def)
  from assms(4) have d: "distinct (map fst (sf_subs (s\<lparr>sf_subs := X\<rparr>)))" by simp
  show ?thesis
    using sf_next_budget [OF d] b by (auto simp: sf_step_ok_def)
qed

lemma sf_reply_ok:
  assumes "sf_wf s" "sf_pending s = AwaitReply"
  shows "sf_step_ok s (sf_onFinished env dn reply s)"
proof (cases "sf_alive s")
  case False
  with assms show ?thesis
    by (simp add: sf_onFinished_def sf_stop_def sf_step_ok_def sf_wf_def budget_def)
next
  case True
  from assms obtain i where i: "sf_curr s = Some i" "i \<in> set (map fst (sf_subs s))"
    "distinct (map fst (sf_subs s))" by (auto simp: sf_wf_def)
  show ?thesis
  proof (cases reply)
    case None
    show ?thesis
    proof (cases "0 < sf_retries s")
      case retry: True
      have "others (s\<lparr>sf_pending := AwaitTimer\<rparr>) = others s" by (simp add: others_def)
      with retry True None assms show ?thesis
        by (auto simp: sf_onFinished_def sf_step_ok_def sf_wf_def budget_def)
    next
      case False
      have "sf_onFinished env dn reply s =
          sf_next (s\<lparr>sf_subs := remove_sub (sf_curr s) (sf_subs s)\<rparr>)"
        using True None False by (simp add: sf_onFinished_def drop_curr_eq split: prod.split)
      then show ?thesis
        using sf_then_next [OF assms i(1) keys_remove [OF i(3), of "Some i"] missing_remove] i(1)
        by simp
    qed
  next
    case (Some hc)
    obtain header content where hc: "hc = (header, content)" by (cases hc)
    obtain item where item: "map_of (sf_subs s) i = Some item"
      using i(2) by (metis map_of_eq_None_iff not_Some_eq set_map)
    let ?l = "sf_loaded env dn header content i item s"
    obtain X where X: "fst ?l = s\<lparr>sf_subs := X\<rparr>" "distinct (map fst X)"
      "missing_subs X = filter (\<lambda>j. i \<noteq> j) (missing_subs (sf_subs s))"
      "gets (snd ?l) = 0" "FetchFinished \<notin> set (snd ?l)"
      using sf_loaded_state [OF i(1,3)] by metis
    have "sf_onFinished env dn reply s =
        (fst (sf_next (s\<lparr>sf_subs := X\<rparr>)), snd ?l @ snd (sf_next (s\<lparr>sf_subs := X\<rparr>)))"
      using True Some hc i(1) item X(1)
      by (simp add: sf_onFinished_def split: prod.split) (metis fst_conv snd_conv)
    with sf_then_next [OF assms i(1) X(2,3)] X(4,5) show ?thesis by (simp add: sf_step_ok_def)
  qed
qed

lemma sf_handle_ok:
  assumes "sf_wf s"
  shows "sf_step_ok s (sf_handle env dn e s)"
proof (cases e)
  case (Reply r)
  with assms sf_reply_ok [OF assms] show ?thesis
    by (cases "sf_pending s = AwaitReply") (auto simp: sf_step_ok_def when_act_eq)
next
  case RetryTimer
  then show ?thesis
  proof (cases "sf_pending s = AwaitTimer")
    case True
    have "others (s\<lparr>sf_retries := r, sf_pending := p\<rparr>) = others s" for r p
      by (simp add: others_def)
    with RetryTimer True assms show ?thesis
      by (auto simp: sf_step_ok_def sf_request_def sf_stop_def sf_wf_def budget_def)
  qed (use assms RetryTimer in \<open>simp add: sf_step_ok_def\<close>)
next
  case LanguageDropped
  have "others (s\<lparr>sf_alive := False\<rparr>) = others s" by (simp add: others_def)
  with LanguageDropped assms show ?thesis
    by (auto simp: sf_step_ok_def sf_wf_def budget_def)
qed

lemma sf_finished_stays:
  "sf_post s \<and> sf_pending s = Nothing \<Longrightarrow>
     sf_post (fst (sf_handle env dn e s)) \<and> sf_pending (fst (sf_handle env dn e s)) = Nothing"
  by (cases e) (auto simp: sf_post_def)

lemma sf_run_from:
  assumes "sf_wf s"
  shows "gets (snd (acts (map (sf_handle env dn) evs) s)) \<le> budget s \<and>
    (FetchFinished \<in> set (snd (acts (map (sf_handle env dn) evs) s)) \<or>
       sf_post s \<and> sf_pending s = Nothing \<longrightarrow>
     sf_post (fst (acts (map (sf_handle env dn) evs) s)))"
  using assms
proof (induction evs arbitrary: s)
  case (Cons e evs)
  let ?t = "fst (sf_handle env dn e s)"
  from sf_handle_ok [OF Cons.prems, of env dn e]
  have "sf_wf ?t" "gets (snd (sf_handle env dn e s)) + budget ?t \<le> budget s"
    "FetchFinished \<in> set (snd (sf_handle env dn e s)) \<longrightarrow> sf_post ?t \<and> sf_pending ?t = Nothing"
    by (simp_all add: sf_step_ok_def)
  with Cons.IH [of ?t] sf_finished_stays [of s env dn e] show ?case
    by (auto simp: fst_acts snd_acts simp del: acts.simps(2))
qed simp

lemma sf_next_all: "sf_all (fst (sf_next s)) = sf_all s"
  by (simp add: sf_next_def getNextSub_def sf_request_def sf_stop_def)

lemma sf_loaded_all: "sf_all (fst (sf_loaded env dn header content i item s)) = sf_all s"
  by (simp add: sf_loaded_def drop_curr_def run_simps split: prod.split del: acts.simps(2))

lemma sf_handle_all: "sf_all (fst (sf_handle env dn e s)) = sf_all s"
  by (cases e)
    (simp_all add: sf_onFinished_def sf_request_def sf_stop_def drop_curr_def sf_next_all
      sf_loaded_all run_simps split: option.split prod.split del: acts.simps(2))

lemma sf_run_all: "sf_all (fst (acts (map (sf_handle env dn) evs) s)) = sf_all s"
  by (induction evs arbitrary: s) (simp_all add: fst_acts sf_handle_all del: acts.simps(2))

lemma sf_run_eq:
  "subtitleFetcher subs fetchAll = (s0, o0) \<Longrightarrow>
     sf_run env dn evs subs fetchAll =
       (fst (acts (map (sf_handle env dn) evs) s0), o0 @ snd (acts (map (sf_handle env dn) evs) s0))"
  by (simp add: sf_run_def split_beta)

text \<open>
  C24: a fetcher asks at most three times for each subtitle of its language, whatever the replies;
  and once it reports that it has finished, no subtitle is left that cannot be shown, or, when only
  one is wanted, the first can be shown or none is left.
\<close>

theorem fetcher_bounded:
  assumes "distinct (map fst subs)"
  shows "let (t, outs) = sf_run env dn evs subs fetchAll
    in gets outs \<le> 3 * length subs \<and>
       (FetchFinished \<in> set outs \<longrightarrow>
         (if fetchAll then missing_subs (sf_subs t) = []
          else sf_subs t = [] \<or> canDisplay (snd (hd (sf_subs t)))))"
proof (cases subs)
  case Nil
  then obtain s0 where s0: "subtitleFetcher subs fetchAll = (s0, [FetchFinished])"
    "sf_wf s0" "sf_post s0" "sf_pending s0 = Nothing" "sf_all s0 = fetchAll" "budget s0 = 0"
    by (simp add: subtitleFetcher_def sf_wf_def sf_post_def missing_subs_def budget_def Let_def
        SUBTITLE_DOWNLOAD_RETRIES_def)
  show ?thesis
    unfolding sf_run_eq [OF s0(1)]
    using sf_run_from [OF s0(2), of env dn evs] sf_run_all [of env dn evs s0] s0(3-6)
    by (simp add: sf_post_def)
next
  case (Cons p rest)
  obtain s0 where s0: "subtitleFetcher subs fetchAll = (s0, [GetSub (url_of (Some (fst p)) subs)])"
    "sf_wf s0" "sf_pending s0 = AwaitReply" "sf_all s0 = fetchAll" "sf_curr s0 = Some (fst p)"
    "sf_retries s0 = 2" "sf_subs s0 = subs"
    using assms Cons
    by (simp add: subtitleFetcher_def sf_request_def sf_wf_def Let_def SUBTITLE_DOWNLOAD_RETRIES_def)
  let ?m = "filter (\<lambda>j. fst p \<noteq> j) (missing_subs subs)"
  have "distinct ?m" "set ?m \<subseteq> set (map fst rest)"
    using distinct_missing [OF assms] missing_keys [of subs] Cons by auto
  then have "length ?m \<le> length rest"
    by (metis card_length card_mono distinct_card finite_set le_trans length_map)
  then have "1 + budget s0 \<le> 3 * length subs"
    using Cons s0 others_curr [OF s0(5)] by (simp add: budget_def)
  then show ?thesis
    unfolding sf_run_eq [OF s0(1)]
    using sf_run_from [OF s0(2), of env dn evs] sf_run_all [of env dn evs s0] s0(3,4)
    by (simp add: sf_post_def)
qed

definition demo_subs :: "int subs" where
  "demo_subs = [(0, subtitleItem torrentInfo_default ''English'' ''en'' ''/0.zip''),
     (1, subtitleItem torrentInfo_default ''English'' ''en'' ''/1.zip'')]"

lemma fetcher_bounded_witness:
  "let (t, outs) = sf_run demo_arch (\<lambda>h. None)
     [Reply None, RetryTimer, Reply None, RetryTimer, Reply None, Reply (Some ([], ''PK''))] demo_subs False
   in gets outs \<le> 6"
proof -
  have "distinct (map fst demo_subs)" "length demo_subs = 2" by (simp_all add: demo_subs_def)
  with fetcher_bounded [OF this(1), of demo_arch "\<lambda>h. None"
      "[Reply None, RetryTimer, Reply None, RetryTimer, Reply None, Reply (Some ([], ''PK''))]" False]
  show ?thesis by (auto split: prod.splits)
qed

end
