(* ===== verification/SubtitleDecode.thy ===== *)
theory SubtitleDecode
  imports CommonTypes
begin

section \<open>gui/SubtitleDecoder.cpp: the text of a subtitle in UTF-8\<close>

text \<open>
  The class \<^verbatim>\<open>SubtitleDecoder\<close>: byte order marks, recoding with iconv into a buffer, the choice of
  an encoding by a dictionary of the language. iconv is an argument: \<open>ic_open\<close> tells whether a codec
  exists, \<open>ic_conv\<close> gives the complete UTF-8 text of an input or \<open>None\<close> for input that is not valid
  in it. \<open>ic_mem\<close> is what the freshly resized buffer holds, which Qt does not initialise. The split
  into words (a Unicode regular expression) and the parsing of a \<^verbatim>\<open>short\<close> are arguments.
\<close>

record codec_env =
  ic_open :: "bytes \<Rightarrow> bool"
  ic_conv :: "bytes \<Rightarrow> bytes \<Rightarrow> bytes option"
  ic_mem :: "bytes \<Rightarrow> nat \<Rightarrow> char"
  ic_words :: "bytes \<Rightarrow> bytes list"

type_synonym dictionary = "bytes \<Rightarrow> (bytes \<Rightarrow> int option) option"

record decoder =
  sd_dictionary :: dictionary
  sd_encodings :: "bytes \<Rightarrow> bytes list option"

subsection \<open>Loading the dictionary and the encodings\<close>

fun split_at :: "char \<Rightarrow> bytes \<Rightarrow> bytes list" where
  "split_at c [] = [[]]"
| "split_at c (x # xs) =
     (if x = c then [] # split_at c xs
      else (case split_at c xs of [] \<Rightarrow> [[x]] | w # ws \<Rightarrow> (x # w) # ws))"

definition is_space :: "char \<Rightarrow> bool" where
  "is_space c = (let n = of_char c :: nat in n = 32 \<or> 9 \<le> n \<and> n \<le> 13)"

fun join_words :: "bytes list \<Rightarrow> bytes" where
  "join_words [] = []"
| "join_words [w] = w"
| "join_words (w # ws) = w @ CHR '' '' # join_words ws"

text \<open>\<^verbatim>\<open>simplified()\<close>: the words, separated by single spaces.\<close>

definition simplified :: "bytes \<Rightarrow> bytes" where
  "simplified s =
     join_words (filter (\<lambda>w. w \<noteq> [])
       (split_at CHR '' '' (map (\<lambda>c. if is_space c then CHR '' '' else c) s)))"

definition dict_put :: "bytes \<Rightarrow> bytes \<Rightarrow> int \<Rightarrow> dictionary \<Rightarrow> dictionary" where
  "dict_put lang w n d =
     d(lang := Some ((case d lang of None \<Rightarrow> (\<lambda>x. None) | Some m \<Rightarrow> m)(w := Some n)))"

text \<open>The lines of the resource \<^verbatim>\<open>:/Dictionary\<close>: \<open>lang|count|word\<close>, up to the first bad line.\<close>

fun load_dictionary :: "(bytes \<Rightarrow> int option) \<Rightarrow> bytes list \<Rightarrow> dictionary \<Rightarrow> dictionary" where
  "load_dictionary to_short [] d = d"
| "load_dictionary to_short (line # ls) d =
     (case split_at CHR ''|'' line of
        lang # cnt # w # rest \<Rightarrow>
          (case to_short cnt of
             None \<Rightarrow> d
           | Some n \<Rightarrow> load_dictionary to_short ls (dict_put lang (simplified w) n d))
      | _ \<Rightarrow> d)"

text \<open>The resource \<^verbatim>\<open>:/LangEncodingMap\<close>.\<close>

fun load_encodings :: "'n json list \<Rightarrow> (bytes \<Rightarrow> bytes list option) \<Rightarrow> bytes \<Rightarrow> bytes list option" where
  "load_encodings [] m = m"
| "load_encodings (v # vs) m =
     (let item = to_object v;
          langs = to_string [] (obj_value ''encodings'' item)
      in load_encodings vs
           (m(to_string [] (obj_value ''id'' item) :=
                Some (if langs \<noteq> [] then split_at CHR '','' langs else []))))"

definition subtitleDecoder :: "(bytes \<Rightarrow> int option) \<Rightarrow> bytes list \<Rightarrow> 'n json list \<Rightarrow> decoder" where
  "subtitleDecoder to_short dic_lines enc =
     \<lparr>sd_dictionary = load_dictionary to_short dic_lines (\<lambda>x. None),
      sd_encodings = load_encodings enc (\<lambda>x. None)\<rparr>"

subsection \<open>Recoding\<close>

text \<open>
  The buffer has room for five times the input; \<^verbatim>\<open>iconv\<close> leaves in \<^verbatim>\<open>outb\<close> the room that is not
  used, and the buffer is cut to that length. \<open>None\<close> is the result \<^verbatim>\<open>false\<close>.
\<close>

definition iconvRecodeToUtf8 :: "codec_env \<Rightarrow> bytes \<Rightarrow> bytes \<Rightarrow> bytes option" where
  "iconvRecodeToUtf8 env codec src =
     (if \<not> ic_open env codec then None
      else
        (let room = 5 * length src; buf = map (ic_mem env codec) [0..<room]
         in case ic_conv env codec src of
              None \<Rightarrow> None
            | Some out \<Rightarrow>
                if room < length out then None
                else
                  (let outb = room - length out
                   in if outb = 0 then None else Some (take outb (memcpy_at buf 0 out)))))"

definition hex_bytes :: "nat list \<Rightarrow> bytes" where
  "hex_bytes ns = map char_of ns"

definition bom_encoding :: "bytes \<Rightarrow> bytes" where
  "bom_encoding body =
     (if starts_with (hex_bytes [0xFE, 0xFF]) body then ''UTF-16BE''
      else if starts_with (hex_bytes [0xFF, 0xFE]) body then ''UTF-16LE''
      else if starts_with (hex_bytes [0, 0, 0xFE, 0xFF]) body then ''UTF-32BE''
      else if starts_with (hex_bytes [0xFF, 0xFE, 0, 0]) body then ''UTF-32LE''
      else if starts_with (hex_bytes [0x2B, 0x2F, 0x76, 0x38]) body then ''UTF-7''
      else if starts_with (hex_bytes [0x2B, 0x2F, 0x76, 0x39]) body then ''UTF-7''
      else if starts_with (hex_bytes [0x2B, 0x2F, 0x76, 0x2B]) body then ''UTF-7''
      else if starts_with (hex_bytes [0x2B, 0x2F, 0x76, 0x2F]) body then ''UTF-7''
      else if starts_with (hex_bytes [0x2B, 0x2F, 0x76, 0x38, 0x2D]) body then ''UTF-7''
      else if starts_with (hex_bytes [0x84, 0x31, 0x95, 0x33]) body then ''GB18030''
      else [])"

definition decodeByBom :: "codec_env \<Rightarrow> bytes \<Rightarrow> bytes" where
  "decodeByBom env body =
     (if starts_with (hex_bytes [0xEF, 0xBB, 0xBF]) body then body
      else if starts_with (hex_bytes [0xC3, 0xAF, 0xC2, 0xBB, 0xC2, 0xBF]) body
      then (case iconvRecodeToUtf8 env ''ISO-8859-1'' body of Some t \<Rightarrow> t | None \<Rightarrow> [])
      else if bom_encoding body \<noteq> []
      then (case iconvRecodeToUtf8 env (bom_encoding body) body of Some t \<Rightarrow> t | None \<Rightarrow> [])
      else [])"

subsection \<open>The best encoding\<close>

text \<open>The length of a word as \<^verbatim>\<open>QString::size\<close> gives it: the units of UTF-16 of a text in UTF-8.\<close>

definition utf16_length :: "bytes \<Rightarrow> nat" where
  "utf16_length w = sum_list (map (\<lambda>c. let n = of_char c :: nat
     in if 128 \<le> n \<and> n < 192 then 0 else if 240 \<le> n then 2 else 1) w)"

text \<open>
  \<open>-2\<close> without a dictionary of the language; else the sum of the counts of the words. The sum is one of \<^verbatim>\<open>short\<close>s
  in an \<^verbatim>\<open>int\<close>, which more than \<open>2 ^ 16\<close> words would be needed to overflow; it is an integer here.
\<close>

definition match_text :: "codec_env \<Rightarrow> decoder \<Rightarrow> bytes \<Rightarrow> bytes \<Rightarrow> int" where
  "match_text env sd lang text =
     (case sd_dictionary sd lang of
        None \<Rightarrow> - 2
      | Some m \<Rightarrow>
          sum_list (map (\<lambda>w. case m w of None \<Rightarrow> 0 | Some n \<Rightarrow> n)
            (filter (\<lambda>w. 3 \<le> utf16_length w) (ic_words env text))))"

text \<open>The loop over the codecs; the empty name stands for the data as it is.\<close>

fun best_codec ::
    "codec_env \<Rightarrow> decoder \<Rightarrow> bytes \<Rightarrow> bytes \<Rightarrow> bytes list \<Rightarrow> bytes \<Rightarrow> int \<Rightarrow> bytes" where
  "best_codec env sd lang body [] bestData bestScore = (if bestData \<noteq> [] then bestData else body)"
| "best_codec env sd lang body (codec # cs) bestData bestScore =
     (case (if codec = [] then Some body else iconvRecodeToUtf8 env codec body) of
        None \<Rightarrow> best_codec env sd lang body cs bestData bestScore
      | Some temp \<Rightarrow>
          (let v = match_text env sd lang temp
           in if v = - 2 then temp
              else if bestScore < v then best_codec env sd lang body cs temp v
              else best_codec env sd lang body cs bestData bestScore))"

definition isCustom :: "'n subtitle_item \<Rightarrow> bool" where
  "isCustom item \<longleftrightarrow> si_urlPath item = [] \<or> si_language item = []"

definition codecs_of :: "decoder \<Rightarrow> bytes \<Rightarrow> bytes list" where
  "codecs_of sd lang =
     (let value = (\<lambda>k. case sd_encodings sd k of None \<Rightarrow> [] | Some l \<Rightarrow> l)
      in value lang @ value ''all'' @ [[]])"

definition item_lang :: "'n subtitle_item \<Rightarrow> bytes" where
  "item_lang item =
     (if si_language item = ''Brazilian-portuguese'' then ''pt'' else si_langAbbr item)"

definition decodeToUtf8 :: "codec_env \<Rightarrow> decoder \<Rightarrow> 'n subtitle_item \<Rightarrow> bytes" where
  "decodeToUtf8 env sd item =
     (let lang = item_lang item; names = codecs_of sd lang
      in if names = [] \<or> isCustom item then si_data item
         else
           (let temp = decodeByBom env (si_data item)
            in if temp \<noteq> [] then temp
               else best_codec env sd lang (si_data item) names [] 0))"

subsection \<open>Facts about recoding\<close>

lemma iconvRecode_Some:
  "iconvRecodeToUtf8 env codec src = Some t \<longleftrightarrow>
     (\<exists>out. ic_open env codec \<and> ic_conv env codec src = Some out \<and>
        length out < 5 * length src \<and>
        t = take (5 * length src - length out)
              (memcpy_at (map (ic_mem env codec) [0..<5 * length src]) 0 out))"
  by (auto simp: iconvRecodeToUtf8_def Let_def split: option.splits if_splits)

text \<open>
  Recoding gives the text only if it fills exactly half of the buffer, two and a half bytes
  for each byte of input: a longer text loses its end, a shorter one is followed by bytes of the
  uninitialised buffer.
\<close>

theorem recode_wrong_length:
  assumes "ic_open env codec" "ic_conv env codec src = Some out" "length out < 5 * length src"
  shows "\<exists>t. iconvRecodeToUtf8 env codec src = Some t \<and>
    length t = 5 * length src - length out \<and>
    (t = out \<longleftrightarrow> 2 * length out = 5 * length src) \<and>
    (if 5 * length src < 2 * length out then t = take (length t) out \<and> length t < length out
     else \<exists>junk. t = out @ junk \<and> length junk = 5 * length src - 2 * length out \<and>
       junk = map (ic_mem env codec) [length out..<5 * length src - length out])"
proof -
  let ?room = "5 * length src"
  define t where "t = take (?room - length out) (memcpy_at (map (ic_mem env codec) [0..<?room]) 0 out)"
  have some: "iconvRecodeToUtf8 env codec src = Some t"
    using assms by (auto simp: iconvRecode_Some t_def)
  have t: "t = take (?room - length out) (out @ map (ic_mem env codec) [length out..<?room])"
    by (simp add: t_def memcpy_at_def drop_map)
  have len: "length t = ?room - length out" using assms(3) by (simp add: t)
  show ?thesis
  proof (cases "?room < 2 * length out")
    case True
    then have "t = take (?room - length out) out" using assms(3) by (simp add: t)
    with True some len assms(3) show ?thesis by (intro exI [of _ t]) auto
  next
    case False
    have "take (?room - 2 * length out) [length out..<?room] = [length out..<?room - length out]"
      using assms(3) False by (subst take_upt) auto
    moreover have "?room - length out - length out = ?room - 2 * length out" by simp
    ultimately have "t = out @ map (ic_mem env codec) [length out..<?room - length out]"
      using False assms(3) by (simp add: t take_map)
    with False some len show ?thesis by (intro exI [of _ t]) auto
  qed
qed

definition demo_codec :: codec_env where
  "demo_codec = \<lparr>ic_open = (\<lambda>c. c = ''TIS-620''),
     ic_conv = (\<lambda>c s. Some (concat (map (\<lambda>x. [CHR 0xE0, CHR 0xB8, x]) s))),
     ic_mem = (\<lambda>c i. CHR 0x00), ic_words = (\<lambda>s. if s = [] then [] else [s])\<rparr>"

lemma recode_wrong_length_witness:
  "\<exists>t. iconvRecodeToUtf8 demo_codec ''TIS-620'' ''ab'' = Some t \<and> length t = 4 \<and>
     t = take 4 [CHR 0xE0, CHR 0xB8, CHR ''a'', CHR 0xE0, CHR 0xB8, CHR ''b'']"
  using recode_wrong_length [of demo_codec "''TIS-620''" "''ab''"
      "[CHR 0xE0, CHR 0xB8, CHR ''a'', CHR 0xE0, CHR 0xB8, CHR ''b'']"]
  by (auto simp: demo_codec_def)

text \<open>
  A text that begins with the UTF-32LE byte order mark is recoded from UTF-16LE: no text is
  ever recoded from UTF-32LE.
\<close>

theorem utf32le_shadowed:
  "bom_encoding body \<noteq> ''UTF-32LE'' \<and>
   bom_encoding (hex_bytes [0xFF, 0xFE, 0, 0] @ rest) = ''UTF-16LE''"
proof -
  have p: "starts_with (hex_bytes [0xFF, 0xFE]) body" if "starts_with (hex_bytes [0xFF, 0xFE, 0, 0]) body"
    using that by (cases body; cases "List.tl body") (auto simp: hex_bytes_def)
  then have "bom_encoding body \<noteq> ''UTF-32LE''" by (auto simp: bom_encoding_def)
  then show ?thesis by (simp add: bom_encoding_def hex_bytes_def char_of_eq_iff)
qed

subsection \<open>Facts about the choice of an encoding\<close>

text \<open>The texts a list of codecs offers.\<close>

definition candidates :: "codec_env \<Rightarrow> bytes \<Rightarrow> bytes list \<Rightarrow> bytes list" where
  "candidates env body cs =
     List.map_filter (\<lambda>c. if c = [] then Some body else iconvRecodeToUtf8 env c body) cs"

lemma candidates_Cons:
  "candidates env body (c # cs) =
     (case (if c = [] then Some body else iconvRecodeToUtf8 env c body) of
        None \<Rightarrow> candidates env body cs | Some t \<Rightarrow> t # candidates env body cs)"
  by (auto simp: candidates_def List.map_filter_def split: option.splits)

definition counts_ok :: "codec_env \<Rightarrow> decoder \<Rightarrow> bytes \<Rightarrow> bool" where
  "counts_ok env sd lang \<longleftrightarrow>
     ic_words env [] = [] \<and> (\<exists>m. sd_dictionary sd lang = Some m \<and> (\<forall>w n. m w = Some n \<longrightarrow> 0 \<le> n))"

lemma match_text_nonneg:
  assumes "counts_ok env sd lang"
  shows "0 \<le> match_text env sd lang t" "match_text env sd lang [] = 0"
  using assms by (auto simp: counts_ok_def match_text_def intro!: sum_list_nonneg split: option.splits)

text \<open>\<open>r\<close> is the first text of the highest score, and that is above \<open>score\<close>.\<close>

definition first_best :: "('a \<Rightarrow> int) \<Rightarrow> int \<Rightarrow> 'a list \<Rightarrow> 'a \<Rightarrow> bool" where
  "first_best v score texts r \<longleftrightarrow> (\<exists>pre post. texts = pre @ r # post \<and> score < v r \<and>
     (\<forall>u \<in> set pre. v u < v r) \<and> (\<forall>u \<in> set post. v u \<le> v r))"

lemma first_best_later: "first_best v score texts r \<Longrightarrow> v t \<le> score \<Longrightarrow> first_best v score (t # texts) r"
  unfolding first_best_def by (metis append_Cons le_less_trans set_ConsD)

lemma first_best_first: "\<forall>u \<in> set texts. v u \<le> v t \<Longrightarrow> score < v t \<Longrightarrow> first_best v score (t # texts) t"
  unfolding first_best_def by (intro exI [of _ "[]"] exI [of _ texts]) simp

lemma first_best_less: "first_best v score texts r \<Longrightarrow> score' \<le> score \<Longrightarrow> first_best v score' texts r"
  unfolding first_best_def by fastforce

lemma best_codec_first:
  assumes "counts_ok env sd lang"
    and "best = [] \<and> score = 0 \<or> best \<noteq> [] \<and> score = match_text env sd lang best \<and> 0 < score"
  shows "let v = match_text env sd lang; texts = candidates env body cs; r = best_codec env sd lang body cs best score in
    if list_all (\<lambda>u. v u \<le> score) texts then r = (if best \<noteq> [] then best else body) else first_best v score texts r"
  using assms(2)
proof (induction cs arbitrary: best score)
  case Nil
  then show ?case by (simp add: candidates_def)
next
  case (Cons c cs)
  show ?case
  proof (cases "if c = [] then Some body else iconvRecodeToUtf8 env c body")
    case None
    with Cons show ?thesis by (simp only: best_codec.simps candidates_Cons option.case)
  next
    case (Some t)
    let ?v = "match_text env sd lang"
    have v: "?v t \<noteq> - 2" using match_text_nonneg(1) [OF assms(1), of t] by auto
    show ?thesis
    proof (cases "score < ?v t")
      case True
      then have t: "t \<noteq> []" using match_text_nonneg(2) [OF assms(1)] Cons.prems by auto
      with True Cons.prems have "t \<noteq> [] \<and> ?v t = ?v t \<and> 0 < ?v t" by auto
      from Cons.IH [OF disjI2, OF this] True v t show ?thesis
        by (auto simp: candidates_Cons Some Let_def list_all_iff first_best_first split: if_splits
            intro: first_best_less [OF first_best_later])
    next
      case False
      from Cons.IH [OF Cons.prems] False v show ?thesis
        by (auto simp: candidates_Cons Some Let_def intro: first_best_later split: if_splits)
    qed
  qed
qed

text \<open>
  C33: for text without a byte order mark, in a language with a dictionary, the decoder gives the first text of the
  highest score among those the codecs of the language offer (the unchanged data among them), if one has a score
  above 0, and else the data as it is.
\<close>

theorem decode_picks_best:
  assumes "counts_ok env sd (item_lang item)" "\<not> isCustom item" "decodeByBom env (si_data item) = []"
  shows "let texts = candidates env (si_data item) (codecs_of sd (item_lang item)); v = match_text env sd (item_lang item);
             r = decodeToUtf8 env sd item
    in if list_all (\<lambda>u. v u \<le> 0) texts then r = si_data item else first_best v 0 texts r"
proof -
  have "codecs_of sd (item_lang item) \<noteq> []" by (simp add: codecs_of_def Let_def)
  then have "decodeToUtf8 env sd item =
      best_codec env sd (item_lang item) (si_data item) (codecs_of sd (item_lang item)) [] 0"
    using assms(2,3) by (simp add: decodeToUtf8_def Let_def)
  with best_codec_first [OF assms(1), of "[]" 0 "si_data item" "codecs_of sd (item_lang item)"]
  show ?thesis by (simp add: Let_def)
qed

definition demo_decoder :: decoder where
  "demo_decoder = \<lparr>sd_dictionary =
       (\<lambda>l. if l = ''th'' then Some (\<lambda>w. if w = ''abc'' then Some 5 else None) else None),
     sd_encodings = (\<lambda>l. if l = ''th'' then Some [''TIS-620''] else None)\<rparr>"

definition demo_thai :: "int subtitle_item" where
  "demo_thai = setData (\<lambda>x. []) ''abc'' ''a.srt''
     (subtitleItem torrentInfo_default ''Thai'' ''th'' ''/1.srt'')"

lemma demo_thai_fields:
  "si_data demo_thai = ''abc''" "item_lang demo_thai = ''th''" "\<not> isCustom demo_thai"
  by (simp_all add: demo_thai_def setData_def subtitleItem_def item_lang_def isCustom_def)

lemma decode_picks_best_witness:
  "5 \<le> match_text demo_codec demo_decoder ''th'' (decodeToUtf8 demo_codec demo_decoder demo_thai)"
proof -
  have c: "counts_ok demo_codec demo_decoder (item_lang demo_thai)"
    unfolding demo_thai_fields by (auto simp: counts_ok_def demo_codec_def demo_decoder_def)
  have b: "decodeByBom demo_codec (si_data demo_thai) = []"
    unfolding demo_thai_fields by code_simp
  let ?texts = "candidates demo_codec ''abc'' (codecs_of demo_decoder ''th'')"
  let ?v = "match_text demo_codec demo_decoder ''th''" and ?r = "decodeToUtf8 demo_codec demo_decoder demo_thai"
  have t: "''abc'' \<in> set ?texts" by (force simp: candidates_def List.map_filter_def codecs_of_def Let_def)
  have v: "?v ''abc'' = 5" by (simp add: match_text_def demo_decoder_def demo_codec_def utf16_length_def)
  have "\<not> list_all (\<lambda>u. ?v u \<le> 0) ?texts" using t v by (force simp: list_all_iff)
  with decode_picks_best [OF c demo_thai_fields(3) b] have "first_best ?v 0 ?texts ?r"
    unfolding demo_thai_fields Let_def by simp
  then obtain pre post where "?texts = pre @ ?r # post" "\<forall>u \<in> set pre. ?v u < ?v ?r" "\<forall>u \<in> set post. ?v u \<le> ?v ?r"
    by (auto simp: first_best_def)
  with t have "?v ''abc'' \<le> ?v ?r" by (metis Un_iff less_imp_le order_refl set_ConsD set_append)
  with v show ?thesis by simp
qed

end
