(* ===== verification/Subtitles.thy ===== *)
theory Subtitles
  imports SubtitleFetch SubtitleDecode "HOL-Library.Char_ord" "HOL-Library.List_Lexorder"
begin

section \<open>gui/Subtitler.cpp and its boxes: choosing subtitles\<close>

text \<open>
  The class \<^verbatim>\<open>Subtitler\<close> with the two boxes it drives (gui/SubComboBox.cpp) and the box of audio
  tracks (gui/TrackComboBox.cpp). A box of languages is its items and the current text. Languages
  are kept in a store under numbers, for they are shared with the fetchers, which change their
  subtitles (\<open>FetcherChanged\<close>); a subtitle is a place in a language or a custom file. The operations
  the sources declare and do not define (\<^verbatim>\<open>matchesTorrent\<close>, \<^verbatim>\<open>getSubtitleData\<close>,
  \<^verbatim>\<open>variantsSetEnabled\<close>) are an argument and outputs.
\<close>

definition SUBTITLES_OFF :: bytes where
  "SUBTITLES_OFF = ''<Subtitles off>''"

definition SUBTITLES_CUSTOM :: bytes where
  "SUBTITLES_CUSTOM = ''<Custom subtitles>''"

subsection \<open>The box of languages\<close>

record sub_box =
  bx_items :: "bytes list"
  bx_current :: bytes

definition box_clear :: "sub_box \<Rightarrow> sub_box" where
  "box_clear b = \<lparr>bx_items = [SUBTITLES_OFF, SUBTITLES_CUSTOM], bx_current = SUBTITLES_OFF\<rparr>"

text \<open>\<^verbatim>\<open>sort\<close>: the two fixed entries are taken out, the rest is sorted, and they return to the front.\<close>

definition box_sort :: "sub_box \<Rightarrow> sub_box" where
  "box_sort b = b\<lparr>bx_items := SUBTITLES_OFF # SUBTITLES_CUSTOM #
     sort (remove1 SUBTITLES_OFF (remove1 SUBTITLES_CUSTOM (bx_items b)))\<rparr>"

text \<open>\<^verbatim>\<open>select\<close>: the entry, or \<^verbatim>\<open>SUBTITLES_OFF\<close> and the signal \<^verbatim>\<open>activated\<close> with it.\<close>

definition box_select :: "bytes \<Rightarrow> sub_box \<Rightarrow> sub_box \<times> bool" where
  "box_select selected b =
     (if selected \<in> set (bx_items b) then (b\<lparr>bx_current := selected\<rparr>, False)
      else (b\<lparr>bx_current := SUBTITLES_OFF\<rparr>, True))"

definition box_updateItemList :: "bytes list \<Rightarrow> sub_box \<Rightarrow> sub_box \<times> bool" where
  "box_updateItemList strings b =
     (let selected = bx_current b;
          b1 = box_clear b;
          b2 = b1\<lparr>bx_items := rev strings @ bx_items b1\<rparr>
      in box_select selected (box_sort b2))"

subsection \<open>The state\<close>

record 'n sub_lang =
  sl_language :: bytes
  sl_abbr :: bytes
  sl_subs :: "'n subs"

datatype 'n sub_ref = LangSub nat nat | CustomSub "'n subtitle_item"

record 'n subtitler =
  su_torrent :: "'n torrent_info"
  su_locale :: bytes
  su_store :: "(nat \<times> 'n sub_lang) list"
  su_langs :: "nat list"
  su_curLang :: "nat option"
  su_curSub :: "'n sub_ref option"
  su_custom :: "'n subtitle_item option"
  su_tempFile :: "bytes option"
  su_box :: sub_box
  su_filter :: "bytes list"

datatype 'n su_out =
    HaveSubtitleFile bytes
  | HaveSubtitleJson "'n subtitle_item"
  | WriteTemp bytes bytes
  | VariantItems "bytes list"
  | VariantsEnabled bool
  | VariantsVisible bool
  | StartFetcher nat bool
  | ProvideLater int

type_synonym 'n su_act = "('n subtitler, 'n su_out) act"

record 'n su_env =
  se_codec :: codec_env
  se_decoder :: decoder
  se_temp :: bytes
  se_matches :: "'n subtitle_item \<Rightarrow> 'n torrent_info \<Rightarrow> bool"
  se_validUrl :: "bytes \<Rightarrow> bool"
  se_urlPath :: "bytes \<Rightarrow> bytes"

definition lang_of :: "nat \<Rightarrow> 'n subtitler \<Rightarrow> 'n sub_lang" where
  "lang_of l s =
     (case map_of (su_store s) l of
        None \<Rightarrow> \<lparr>sl_language = [], sl_abbr = [], sl_subs = []\<rparr> | Some x \<Rightarrow> x)"

definition item_of :: "'n sub_ref \<Rightarrow> 'n subtitler \<Rightarrow> 'n subtitle_item option" where
  "item_of r s =
     (case r of LangSub l i \<Rightarrow> map_of (sl_subs (lang_of l s)) i | CustomSub x \<Rightarrow> Some x)"

subsection \<open>Using a subtitle\<close>

definition temp_name :: "'n su_env \<Rightarrow> 'n subtitle_item \<Rightarrow> bytes" where
  "temp_name env item = se_temp env @ ''/'' @ si_langAbbr item @ lower_str (si_fileName item)"

definition useSubtitle :: "'n su_env \<Rightarrow> 'n sub_ref \<Rightarrow> 'n su_act" where
  "useSubtitle env r = acts
     [modify (\<lambda>s. s\<lparr>su_curSub := Some r\<rparr>),
      with_state (\<lambda>s. case item_of r s of
          None \<Rightarrow> skip_act
        | Some item \<Rightarrow> acts
            [modify (\<lambda>s. s\<lparr>su_tempFile := Some (temp_name env item)\<rparr>),
             emit (WriteTemp (temp_name env item)
               (decodeToUtf8 (se_codec env) (se_decoder env) item)),
             emit (HaveSubtitleFile (temp_name env item)),
             emit (HaveSubtitleJson item)])]"

definition variant_texts :: "'n sub_lang \<Rightarrow> bytes list" where
  "variant_texts lang =
     map (\<lambda>(k, p). sl_language lang @ '' Variant '' @ nat_str (k + 1))
       (filter (\<lambda>(k, p). canDisplay (snd p)) (zip [0..<length (sl_subs lang)] (sl_subs lang)))"

definition updateVariants :: "'n su_act" where
  "updateVariants = with_state (\<lambda>s.
     case su_curLang s of
       None \<Rightarrow> emit (VariantsVisible False)
     | Some l \<Rightarrow> acts
         [emit (VariantItems (variant_texts (lang_of l s))),
          emit (VariantsEnabled (1 < length (variant_texts (lang_of l s))))])"

definition disableSubtitle :: "'n su_act" where
  "disableSubtitle = acts
     [modify (\<lambda>s. if SUBTITLES_OFF \<in> set (bx_items (su_box s))
                  then s\<lparr>su_box := (su_box s)\<lparr>bx_current := SUBTITLES_OFF\<rparr>\<rparr> else s),
      emit (HaveSubtitleFile []),
      modify (\<lambda>s. s\<lparr>su_curLang := None\<rparr>),
      updateVariants]"

definition useLanguage :: "'n su_env \<Rightarrow> nat \<Rightarrow> 'n su_act" where
  "useLanguage env l = with_state (\<lambda>s.
     if su_curLang s = Some l then skip_act
     else acts
       [modify (\<lambda>s. s\<lparr>su_curLang := Some l\<rparr>),
        updateVariants,
        (case sl_subs (lang_of l s) of
           [] \<Rightarrow> skip_act
         | p # rest \<Rightarrow> acts
             [useSubtitle env (LangSub l (fst p)),
              when_act (rest \<noteq> [])
                (acts [emit (StartFetcher l True),
                       emit (VariantItems [''Updating variant list...''])])])])"

text \<open>
  \<open>dialog\<close>: the name and content of the file chosen in the dialog, if it can be read and is not
  empty; \<open>by_signal\<close>: the call comes from a signal (\<^verbatim>\<open>sender()\<close>).
\<close>

definition customSubtitle :: "'n::one su_env \<Rightarrow> (bytes \<Rightarrow> bytes) \<Rightarrow> bool \<Rightarrow> (bytes \<times> bytes) option \<Rightarrow> 'n su_act" where
  "customSubtitle env md5 by_signal dialog = with_state (\<lambda>s.
     case (if by_signal then None else su_custom s) of
       Some item \<Rightarrow> useSubtitle env (CustomSub item)
     | None \<Rightarrow>
         (case dialog of
            None \<Rightarrow> disableSubtitle
          | Some (name, content) \<Rightarrow>
              (let item = setData md5 content name (subtitleItem (su_torrent s) [] [] [])
               in acts
                 [modify (\<lambda>s. s\<lparr>su_custom := Some item\<rparr>),
                  useSubtitle env (CustomSub item),
                  emit (VariantsEnabled False)])))"

definition languageSelected ::
    "'n::one su_env \<Rightarrow> (bytes \<Rightarrow> bytes) \<Rightarrow> bool \<Rightarrow> (bytes \<times> bytes) option \<Rightarrow> bytes \<Rightarrow> 'n su_act" where
  "languageSelected env md5 by_signal dialog text = with_state (\<lambda>s.
     if text = SUBTITLES_CUSTOM then customSubtitle env md5 by_signal dialog
     else if text \<noteq> SUBTITLES_OFF
     then (case find (\<lambda>l. sl_language (lang_of l s) = text) (su_langs s) of
             None \<Rightarrow> skip_act
           | Some l \<Rightarrow> useLanguage env l)
     else disableSubtitle)"

subsection \<open>Choosing a variant\<close>

definition digit_char :: "char \<Rightarrow> bool" where
  "digit_char c = (let n = of_char c :: nat in 48 \<le> n \<and> n \<le> 57)"

text \<open>\<^verbatim>\<open>\b(\d+)\b\<close>: the first run of digits between word boundaries.\<close>

definition number_at :: "bytes \<Rightarrow> nat \<Rightarrow> bool" where
  "number_at s i \<longleftrightarrow>
     boundary_before s i \<and> takeWhile digit_char (drop i s) \<noteq> [] \<and>
     boundary_after s (i + length (takeWhile digit_char (drop i s)))"

definition first_number :: "bytes \<Rightarrow> bytes option" where
  "first_number s =
     map_option (\<lambda>i. takeWhile digit_char (drop i s)) (find (number_at s) [0..<length s])"

definition digits_value :: "bytes \<Rightarrow> nat" where
  "digits_value s = foldl (\<lambda>n c. 10 * n + (of_char c - 48)) 0 s"

text \<open>\<^verbatim>\<open>toInt\<close> fails above \<^verbatim>\<open>INT_MAX\<close>. \<open>None\<close>: the null current language is dereferenced.\<close>

definition variantSelected ::
    "'n su_env \<Rightarrow> bytes \<Rightarrow> 'n subtitler \<Rightarrow> ('n subtitler \<times> 'n su_out list) option" where
  "variantSelected env text s =
     (case first_number text of
        None \<Rightarrow> Some (s, [])
      | Some ds \<Rightarrow>
          (let index = int (digits_value ds) - 1
           in if INT_MAX < int (digits_value ds) \<or> index < 0 then Some (s, [])
              else
                (case su_curLang s of
                   None \<Rightarrow> None
                 | Some l \<Rightarrow>
                     if int (length (sl_subs (lang_of l s))) \<le> index then Some (s, [])
                     else Some (useSubtitle env
                            (LangSub l (fst (sl_subs (lang_of l s) ! nat index))) s))))"

subsection \<open>The languages of a torrent\<close>

definition first_matches :: "'n su_env \<Rightarrow> 'n subtitler \<Rightarrow> nat \<Rightarrow> bool" where
  "first_matches env s l =
     (case sl_subs (lang_of l s) of
        [] \<Rightarrow> False | p # rest \<Rightarrow> se_matches env (snd p) (su_torrent s))"

text \<open>The last language of the locale that fits, when nothing is chosen yet.\<close>

definition locale_lang :: "'n su_env \<Rightarrow> 'n subtitler \<Rightarrow> nat option" where
  "locale_lang env s =
     (if su_curLang s = None \<and> su_curSub s = None \<and> su_locale s \<noteq> []
      then find (\<lambda>l. first_matches env s l \<and> sl_abbr (lang_of l s) = su_locale s) (rev (su_langs s))
      else None)"

definition updateLanguages :: "'n::one su_env \<Rightarrow> (bytes \<Rightarrow> bytes) \<Rightarrow> 'n su_act" where
  "updateLanguages env md5 = with_state (\<lambda>s0.
     let texts = map (\<lambda>l. sl_language (lang_of l s0)) (filter (first_matches env s0) (su_langs s0));
         loc = locale_lang env s0;
         (box, activated) = box_updateItemList texts (su_box s0)
     in acts
       [modify (\<lambda>s. s\<lparr>su_langs := filter (\<lambda>l. sl_subs (lang_of l s) \<noteq> []) (su_langs s),
                      su_box := box\<rparr>),
        when_act activated (languageSelected env md5 True None SUBTITLES_OFF),
        with_state (\<lambda>s.
          if su_curLang s \<noteq> None then updateVariants
          else
            (case loc of
               None \<Rightarrow> skip_act
             | Some l \<Rightarrow>
                 when_act (first_matches env s l)
                   (acts
                     [with_state (\<lambda>s.
                        let (b, act) = box_select (sl_language (lang_of l s)) (su_box s)
                        in acts [modify (\<lambda>s. s\<lparr>su_box := b\<rparr>),
                                 when_act act (languageSelected env md5 True None SUBTITLES_OFF)]),
                      languageSelected env md5 True None (sl_language (lang_of l s))])))])"

definition clearSubtitles :: "'n::one su_env \<Rightarrow> (bytes \<Rightarrow> bytes) \<Rightarrow> 'n torrent_info \<Rightarrow> 'n su_act" where
  "clearSubtitles env md5 info = acts
     [modify (\<lambda>s. s\<lparr>su_torrent := info,
        su_locale := to_string [] (obj_value ''subtitles_locale'' (ti_json info)),
        su_langs := [], su_curLang := None, su_curSub := None, su_custom := None,
        su_box := box_clear (su_box s)\<rparr>),
      emit (VariantItems []),
      updateLanguages env md5]"

text \<open>An entry of \<^verbatim>\<open>subtitles2\<close>: abbreviation, language, and the URLs of its subtitles.\<close>

definition parse_subs ::
    "'n::one su_env \<Rightarrow> 'n torrent_info \<Rightarrow> bytes \<Rightarrow> bytes \<Rightarrow> 'n json list \<Rightarrow> 'n subtitle_item list" where
  "parse_subs env info lang abbr subs =
     map (\<lambda>u. subtitleItem info lang abbr (se_urlPath env u))
       (filter (se_validUrl env) (map (\<lambda>v. to_string [] (arr_at 0 (to_array v))) subs))"

definition parse_language ::
    "'n::one su_env \<Rightarrow> 'n torrent_info \<Rightarrow> 'n json \<Rightarrow> 'n sub_lang option" where
  "parse_language env info v =
     (let item = to_array v;
          abbr = to_string [] (arr_at 0 item);
          lang = to_string [] (arr_at 1 item);
          subs = to_array (arr_at 2 item);
          items = parse_subs env info lang abbr subs
      in if length item < 3 \<or> lang = [] \<or> subs = [] \<or> items = [] then None
         else Some \<lparr>sl_language = lang, sl_abbr = abbr,
                    sl_subs = zip [0..<length items] items\<rparr>)"

definition startSubtitles ::
    "'n::one su_env \<Rightarrow> (bytes \<Rightarrow> bytes) \<Rightarrow> 'n torrent_info \<Rightarrow> 'n su_act" where
  "startSubtitles env md5 info = acts
     [clearSubtitles env md5 info,
      modify (\<lambda>s.
        let new = List.map_filter (parse_language env info)
                    (to_array (obj_value ''subtitles2'' (ti_json info)));
            n = length (su_store s);
            ls = [n..<n + length new]
        in s\<lparr>su_store := su_store s @ zip ls new, su_langs := ls\<rparr>),
      with_state (\<lambda>s. acts (map (\<lambda>l. emit (StartFetcher l False)) (su_langs s)))]"

definition su_provide :: "'n su_act" where
  "su_provide = emit (ProvideLater 2000)"

definition provideTimer :: "'n su_act" where
  "provideTimer = with_state (\<lambda>s.
     case su_curSub s of
       None \<Rightarrow> skip_act
     | Some r \<Rightarrow> acts
         [(case su_tempFile s of None \<Rightarrow> skip_act | Some f \<Rightarrow> emit (HaveSubtitleFile f)),
          (case item_of r s of None \<Rightarrow> skip_act | Some item \<Rightarrow> emit (HaveSubtitleJson item))])"

definition canUseItem :: "'n subtitler \<Rightarrow> 'n subtitle_item \<Rightarrow> bool" where
  "canUseItem s item \<longleftrightarrow> list_ex (\<lambda>ext. ends_with ext (lower_str (si_fileName item))) (su_filter s)"

subsection \<open>gui/TrackComboBox.cpp\<close>

text \<open>
  The tracks under their names, in the order of the names (a \<^verbatim>\<open>QMap\<close>). The first track whose name
  occurs in the selected text is taken.
\<close>

definition itemSelected :: "(bytes \<times> int) list \<Rightarrow> bytes \<Rightarrow> int option" where
  "itemSelected tracks text =
     map_option snd (find (\<lambda>p. contains_sub (fst p) text) tracks)"

definition setAudioTrackList :: "(bytes \<times> int) list \<Rightarrow> (bytes \<times> int) list" where
  "setAudioTrackList tracks = (if length tracks < 2 then [] else tracks)"

subsection \<open>Facts about the choice\<close>

lemma updateVariants_state [simp]: "fst (updateVariants s) = s"
  by (simp add: updateVariants_def split: option.split)

lemma disableSubtitle_state:
  "su_curLang (fst (disableSubtitle s)) = None" "su_curSub (fst (disableSubtitle s)) = su_curSub s"
  "su_tempFile (fst (disableSubtitle s)) = su_tempFile s"
  "HaveSubtitleFile [] \<in> set (snd (disableSubtitle s))"
  by (simp_all add: disableSubtitle_def run_simps del: acts.simps(2))

lemma useSubtitle_state [simp]:
  "su_curLang (fst (useSubtitle env r s)) = su_curLang s"
  "su_langs (fst (useSubtitle env r s)) = su_langs s"
  "su_store (fst (useSubtitle env r s)) = su_store s"
  "su_curSub (fst (useSubtitle env r s)) = Some r"
  "su_custom (fst (useSubtitle env r s)) = su_custom s"
  by (simp_all add: useSubtitle_def run_simps del: acts.simps(2) split: option.split)

lemma lang_of_cong: "su_store s = su_store t \<Longrightarrow> lang_of l s = lang_of l t"
  by (simp add: lang_of_def)

text \<open>
  Switching the subtitles off tells the player to drop the file but keeps the current
  subtitle: the timer that runs when playing starts or resumes sends the same file again.
\<close>

theorem switched_off_returns:
  assumes "su_curSub s = Some r" "su_tempFile s = Some f"
  shows "let (s1, o1) = languageSelected env md5 True dialog SUBTITLES_OFF s
    in HaveSubtitleFile [] \<in> set o1 \<and> HaveSubtitleFile f \<in> set (snd (provideTimer s1))"
proof -
  have e: "languageSelected env md5 True dialog SUBTITLES_OFF s = disableSubtitle s"
    by (simp add: languageSelected_def SUBTITLES_OFF_def SUBTITLES_CUSTOM_def)
  have "HaveSubtitleFile f \<in> set (snd (provideTimer (fst (disableSubtitle s))))"
    using assms by (simp add: provideTimer_def disableSubtitle_state run_simps del: acts.simps(2))
  then show ?thesis using disableSubtitle_state(4) by (simp add: e split_beta)
qed

text \<open>
  After a custom file is chosen while a language is selected, selecting that language again
  does nothing: the custom file stays in use.
\<close>

theorem custom_blocks_language:
  assumes "su_curLang s = Some l" "find (\<lambda>k. sl_language (lang_of k s) = text) (su_langs s) = Some l"
    and "text \<noteq> SUBTITLES_OFF" "text \<noteq> SUBTITLES_CUSTOM"
  shows "let s1 = fst (customSubtitle env md5 True (Some (name, content)) s)
    in (\<exists>item. su_curSub s1 = Some (CustomSub item)) \<and>
       languageSelected env md5 True dialog text s1 = (s1, [])"
proof -
  let ?s1 = "fst (customSubtitle env md5 True (Some (name, content)) s)"
  have f: "su_curLang ?s1 = su_curLang s" "su_langs ?s1 = su_langs s" "su_store ?s1 = su_store s"
    "\<exists>item. su_curSub ?s1 = Some (CustomSub item)"
    by (simp_all add: customSubtitle_def run_simps Let_def del: acts.simps(2))
  have "find (\<lambda>k. sl_language (lang_of k ?s1) = text) (su_langs ?s1) = Some l"
    using assms(2) lang_of_cong [OF f(3)] by (simp add: f(2))
  with assms f show ?thesis
    by (simp add: Let_def languageSelected_def useLanguage_def)
qed

subsection \<open>Variants\<close>

lemma digits_value_append: "digits_value (s @ [c]) = 10 * digits_value s + (of_char c - 48)"
  by (simp add: digits_value_def)

lemma digit_code: "d < 10 \<Longrightarrow> of_char (char_of (48 + d :: nat) :: char) = 48 + d"
  by simp

lemma nat_str_digits:
  "list_all digit_char (nat_str n) \<and> digits_value (nat_str n) = n"
proof (induction n rule: nat_str.induct)
  case (1 n)
  show ?case
  proof (cases "n < 10")
    case True
    then show ?thesis
      by (simp add: nat_str.simps [of n] digits_value_def digit_char_def)
  next
    case False
    with 1 have ih: "list_all digit_char (nat_str (n div 10))"
      "digits_value (nat_str (n div 10)) = n div 10" by auto
    have "nat_str n = nat_str (n div 10) @ [char_of (48 + n mod 10)]"
      using False by (simp add: nat_str.simps [of n])
    moreover have "n mod 10 \<le> 9" using mod_less_divisor [of 10 n] by linarith
    then have "digit_char (char_of (48 + n mod 10))"
      "(of_char (char_of (48 + n mod 10) :: char) :: nat) = 48 + n mod 10"
      by (simp_all add: digit_char_def)
    ultimately show ?thesis using ih by (simp add: digits_value_append)
  qed
qed

lemma digit_word: "digit_char c \<Longrightarrow> word_char c"
  by (auto simp: digit_char_def word_char_def Let_def)

text \<open>The only digits of a variant's text are its number.\<close>

lemma first_number_variant:
  assumes "list_all (\<lambda>c. \<not> digit_char c) name"
  shows "first_number (name @ '' Variant '' @ nat_str n) = Some (nat_str n)"
proof -
  define p where "p = name @ '' Variant ''"
  let ?p = p and ?d = "nat_str n"
  have nd: "list_all (\<lambda>c. \<not> digit_char c) ?p"
    using assms by (simp add: digit_char_def p_def)
  have sp: "?p \<noteq> []" "?p ! (length ?p - 1) = CHR '' ''" by (simp_all add: p_def nth_append)
  have dd: "takeWhile digit_char ?d = ?d"
    using nat_str_digits [of n] by (simp add: list_all_iff)
  have at: "number_at (?p @ ?d) (length ?p)"
    using sp by (simp add: number_at_def boundary_before_def boundary_after_def nth_append word_char_def dd)
  have before: "\<not> number_at (?p @ ?d) j" if "j < length ?p" for j
  proof -
    have "drop j (?p @ ?d) = ?p ! j # drop (Suc j) (?p @ ?d)"
      using that Cons_nth_drop_Suc [of j "?p @ ?d"] by (simp add: nth_append)
    moreover have "\<not> digit_char (?p ! j)" using nd that by (auto simp: list_all_length)
    ultimately show ?thesis by (simp add: number_at_def)
  qed
  have "length ?p < length (?p @ ?d)" by simp
  then have "find (number_at (?p @ ?d)) [0..<length (?p @ ?d)] = Some (length ?p)"
    using at before unfolding find_Some_iff by (intro exI [of _ "length ?p"]) simp
  then have "first_number (?p @ ?d) = Some ?d" by (simp add: first_number_def dd)
  then show ?thesis by (simp add: p_def)
qed

text \<open>
  For a language without digits in its name, selecting the text of a variant, as
  \<^verbatim>\<open>updateVariants\<close> writes it, uses exactly the subtitle that the text was made for.
\<close>

theorem variant_roundtrip:
  assumes "su_curLang s = Some l" "list_all (\<lambda>c. \<not> digit_char c) (sl_language (lang_of l s))"
    and "k < length (sl_subs (lang_of l s))" "int k < INT_MAX"
  shows "variantSelected env (sl_language (lang_of l s) @ '' Variant '' @ nat_str (k + 1)) s =
    Some (useSubtitle env (LangSub l (fst (sl_subs (lang_of l s) ! k))) s)"
  unfolding variantSelected_def first_number_variant [OF assms(2)]
  using assms(1,3,4) nat_str_digits [of "k + 1"] by (simp add: Let_def)

subsection \<open>Starting\<close>

definition store_ok :: "'n subtitler \<Rightarrow> bool" where
  "store_ok s \<longleftrightarrow> map fst (su_store s) = [0..<length (su_store s)]"

definition subs_ok :: "'n subs \<Rightarrow> bool" where
  "subs_ok subs \<longleftrightarrow> subs \<noteq> [] \<and> distinct (map fst subs)"

lemma parse_language_ok: "parse_language env info v = Some x \<Longrightarrow> subs_ok (sl_subs x)"
  by (auto simp: parse_language_def subs_ok_def Let_def split: if_splits)

lemma disableSubtitle_store [simp]: "su_store (fst (disableSubtitle s)) = su_store s"
  by (simp add: disableSubtitle_def run_simps del: acts.simps(2))

lemma updateVariants_keeps [simp]: "su_store (fst (updateVariants s)) = su_store s"
  by simp

lemma useLanguage_store [simp]: "su_store (fst (useLanguage env l s)) = su_store s"
  by (simp add: useLanguage_def run_simps split: list.split del: acts.simps(2))

lemma customSubtitle_store [simp]: "su_store (fst (customSubtitle env md5 b d s)) = su_store s"
  by (simp add: customSubtitle_def run_simps Let_def split: option.split del: acts.simps(2))

lemma languageSelected_store [simp]:
  "su_store (fst (languageSelected env md5 b d t s)) = su_store s"
  by (simp add: languageSelected_def split: option.split)

lemma updateLanguages_store [simp]: "su_store (fst (updateLanguages env md5 s)) = su_store s"
  by (simp add: updateLanguages_def run_simps Let_def split: option.split prod.split
      del: acts.simps(2))

lemma clearSubtitles_store [simp]: "su_store (fst (clearSubtitles env md5 info s)) = su_store s"
  by (simp add: clearSubtitles_def run_simps del: acts.simps(2))

lemma acts_emit: "acts (map (\<lambda>l. emit (f l)) xs) s = (s, map f xs)"
  by (induction xs) (simp_all)

text \<open>
  C32: \<^verbatim>\<open>startSubtitles\<close> starts one fetcher for each language it keeps, and each of these languages
  has subtitles under distinct keys, as a fetcher needs.
\<close>

theorem startSubtitles_fetchers:
  assumes "store_ok s"
  shows "let (t, outs) = startSubtitles env md5 info s
    in store_ok t \<and> (\<exists>pre. outs = pre @ map (\<lambda>l. StartFetcher l False) (su_langs t)) \<and>
       list_all (\<lambda>l. subs_ok (sl_subs (lang_of l t))) (su_langs t)"
proof -
  define new where "new = List.map_filter (parse_language env info)
      (to_array (obj_value ''subtitles2'' (ti_json info)))"
  define u where "u = fst (startSubtitles env md5 info s)"
  let ?new = new and ?t = u
  let ?n = "length (su_store s)"
  let ?ls = "[?n..<?n + length ?new]"
  have t: "su_store ?t = su_store s @ zip ?ls ?new" "su_langs ?t = ?ls"
    by (simp_all add: startSubtitles_def run_simps Let_def acts_emit u_def new_def del: acts.simps(2))
  have "map fst (su_store ?t) = map fst (su_store s) @ ?ls" by (simp add: t)
  also have "map fst (su_store s) = [0..<?n]" using assms by (simp only: store_ok_def)
  also have "[0..<?n] @ ?ls = [0..<?n + length ?new]" by (simp only: upt_add_eq_append [of 0] le0)
  finally have "map fst (su_store ?t) = [0..<?n + length ?new]" .
  moreover have "length (su_store ?t) = ?n + length ?new" by (simp add: t)
  ultimately have ok: "store_ok ?t" by (simp only: store_ok_def)
  have new: "subs_ok (sl_subs x)" if "x \<in> set ?new" for x
    using that parse_language_ok by (auto simp: new_def List.map_filter_def)
  have "subs_ok (sl_subs (lang_of (?n + j) ?t))" if "j < length ?new" for j
  proof -
    have "map_of (su_store s) (?n + j) = None"
      using assms unfolding store_ok_def map_of_eq_None_iff
      by (metis add_lessD1 atLeastLessThan_iff less_irrefl set_map set_upt)
    moreover have "(?n + j, ?new ! j) \<in> set (zip ?ls ?new)"
      using that by (auto simp: set_zip intro!: exI [of _ j])
    then have "map_of (zip ?ls ?new) (?n + j) = Some (?new ! j)" by (intro map_of_is_SomeI) simp_all
    ultimately have "lang_of (?n + j) ?t = ?new ! j"
      by (simp add: lang_of_def t map_add_def)
    then show ?thesis using new [of "?new ! j"] that by simp
  qed
  then have "subs_ok (sl_subs (lang_of l ?t))" if "?n \<le> l" "l < ?n + length ?new" for l
    using that by (metis add_less_cancel_left le_add_diff_inverse)
  then have "list_all (\<lambda>l. subs_ok (sl_subs (lang_of l ?t))) (su_langs ?t)"
    unfolding t(2) list_all_iff by (metis atLeastLessThan_iff set_upt)
  moreover have "\<exists>pre. snd (startSubtitles env md5 info s) =
      pre @ map (\<lambda>l. StartFetcher l False) (su_langs ?t)"
    unfolding t(2)
    by (simp add: startSubtitles_def run_simps Let_def acts_emit new_def del: acts.simps(2))
  ultimately show ?thesis using ok by (simp add: split_beta flip: u_def)
qed

subsection \<open>Examples\<close>

definition demo_su_env :: "int su_env" where
  "demo_su_env = \<lparr>se_codec = demo_codec, se_decoder = demo_decoder, se_temp = ''/tmp'',
     se_matches = (\<lambda>i t. True), se_validUrl = (\<lambda>u. u \<noteq> []), se_urlPath = (\<lambda>u. u)\<rparr>"

definition demo_lang :: "int sub_lang" where
  "demo_lang = \<lparr>sl_language = ''Thai'', sl_abbr = ''th'', sl_subs = [(0, demo_thai), (1, demo_thai)]\<rparr>"

definition demo_su :: "int subtitler" where
  "demo_su = \<lparr>su_torrent = torrentInfo_default, su_locale = [], su_store = [(0, demo_lang)],
     su_langs = [0], su_curLang = Some 0, su_curSub = Some (LangSub 0 0), su_custom = None,
     su_tempFile = Some ''/tmp/tha.srt'', su_box = box_clear \<lparr>bx_items = [], bx_current = []\<rparr>,
     su_filter = []\<rparr>"

lemma demo_su_lang: "lang_of 0 demo_su = demo_lang" "su_curLang demo_su = Some 0"
  by (simp_all add: demo_su_def lang_of_def)

lemma switched_off_returns_witness:
  "let (s1, o1) = languageSelected demo_su_env (\<lambda>x. []) True None SUBTITLES_OFF demo_su
   in HaveSubtitleFile [] \<in> set o1 \<and> HaveSubtitleFile ''/tmp/tha.srt'' \<in> set (snd (provideTimer s1))"
  by (rule switched_off_returns [of demo_su "LangSub 0 0"]) (simp_all add: demo_su_def)

lemma custom_blocks_language_witness:
  "let s1 = fst (customSubtitle demo_su_env (\<lambda>x. []) True (Some (''my.srt'', ''1'')) demo_su)
   in (\<exists>item. su_curSub s1 = Some (CustomSub item)) \<and>
      languageSelected demo_su_env (\<lambda>x. []) True None ''Thai'' s1 = (s1, [])"
  by (rule custom_blocks_language [of demo_su 0])
    (simp_all add: demo_su_lang demo_lang_def SUBTITLES_OFF_def SUBTITLES_CUSTOM_def demo_su_def lang_of_def)

lemma variant_roundtrip_witness:
  "variantSelected demo_su_env (''Thai'' @ '' Variant '' @ nat_str (1 + 1)) demo_su =
   Some (useSubtitle demo_su_env (LangSub 0 1) demo_su)"
proof -
  have "list_all (\<lambda>c. \<not> digit_char c) (sl_language (lang_of 0 demo_su))"
    "1 < length (sl_subs (lang_of 0 demo_su))" "int 1 < INT_MAX"
    by (simp_all add: demo_su_lang demo_lang_def digit_char_def INT_MAX_def)
  from variant_roundtrip [OF demo_su_lang(2) this, of demo_su_env]
  show ?thesis by (simp add: demo_su_lang demo_lang_def)
qed

definition demo_film :: "int torrent_info" where
  "demo_film = torrentInfo_json 0
     [(''subtitles2'', JArr [JArr [JStr ''th'', JStr ''Thai'', JArr [JArr [JStr ''/1.zip''], JArr [JNull]]],
                             JArr [JStr ''fr'', JStr ''French'', JArr []]])]"

lemma startSubtitles_fetchers_witness:
  "let (t, outs) = startSubtitles demo_su_env (\<lambda>x. []) demo_film demo_su
   in store_ok t \<and> (\<exists>pre. outs = pre @ map (\<lambda>l. StartFetcher l False) (su_langs t)) \<and>
      list_all (\<lambda>l. subs_ok (sl_subs (lang_of l t))) (su_langs t)"
  by (rule startSubtitles_fetchers) (simp add: store_ok_def demo_su_def)

end
