(* ===== verification/Players.thy ===== *)
theory Players
  imports Subtitles
begin

section \<open>gui/VideoPlayer.cpp and gui/VMediaPlayer.cpp: the local players\<close>

text \<open>
  \<^verbatim>\<open>VideoPlayer\<close> drives the player of QtAV over the device that reads the torrent; \<^verbatim>\<open>VMediaPlayer\<close> the
  player of VLC. The media libraries answer with events: the state and the media status they report
  come with them. Players and devices have numbers, so that it can be said which one a signal of an
  earlier connection belongs to. A call through the null pointer of the player before the first
  reset is the output \<open>NullPlayer\<close>.
\<close>

datatype av_state = AvStopped | AvPlaying | AvPaused

datatype media_status =
  NoMedia | InvalidMedia | BufferingMedia | BufferedMedia | LoadingMedia | LoadedMedia | StalledMedia
| OtherMedia

record io_dev =
  dv_id :: nat
  dv_file :: bytes
  dv_open :: bool

text \<open>A subtitle filter, with the file it was given.\<close>

datatype sub_filter = NoFilter | FilterOf "bytes option"

record vp =
  vp_dev :: "io_dev option"
  vp_player :: "nat option"
  vp_next :: nat
  vp_state :: av_state
  vp_oldState :: av_state
  vp_oldMedia :: media_status
  vp_filter :: sub_filter
  vp_subFile :: bytes
  vp_videoFile :: bytes
  vp_font :: int
  vp_delay :: int
  vp_wrapper :: bool
  vp_widget :: bool

datatype vp_out =
    SigOpening
  | SigPlaying
  | SigPaused
  | SigStopped
  | SigLength int
  | SigTime int
  | SigStateImage bytes
  | SigAudioTracks "(bytes \<times> int) list" int
  | AvPause bool
  | AvStop
  | AvPosition int
  | AvVolume int
  | AvMute bool
  | AvAudioStream int
  | AvIODevice nat
  | AvPlayAfter int
  | AvRenderer nat
  | AvFilterDelay int
  | AvFilterFont int
  | BindWrapper nat
  | ConnectPlayer nat nat
  | NullPlayer

type_synonym vp_act = "(vp, vp_out) act"

definition videoPlayer :: vp where
  "videoPlayer = \<lparr>vp_dev = Some \<lparr>dv_id = 0, dv_file = [], dv_open = False\<rparr>, vp_player = None, vp_next = 1,
     vp_state = AvStopped, vp_oldState = AvStopped, vp_oldMedia = NoMedia, vp_filter = NoFilter,
     vp_subFile = [], vp_videoFile = [], vp_font = 26, vp_delay = 0, vp_wrapper = False, vp_widget = False\<rparr>"

definition on_player :: "vp_act \<Rightarrow> vp_act" where
  "on_player f = with_state (\<lambda>s. if vp_player s = None then emit NullPlayer else f)"

definition new_device :: vp_act where
  "new_device = acts
     [modify (\<lambda>s. s\<lparr>vp_dev := Some \<lparr>dv_id = vp_next s, dv_file = [], dv_open = False\<rparr>,
                   vp_next := vp_next s + 1\<rparr>),
      with_state (\<lambda>s. when_act (vp_wrapper s)
        (emit (BindWrapper (case vp_dev s of None \<Rightarrow> 0 | Some d \<Rightarrow> dv_id d))))]"

definition resetPlayer :: vp_act where
  "resetPlayer = acts
     [modify (\<lambda>s. s\<lparr>vp_player := Some (vp_next s), vp_next := vp_next s + 1, vp_state := AvStopped\<rparr>),
      new_device,
      modify (\<lambda>s. s\<lparr>vp_oldState := AvStopped\<rparr>),
      with_state (\<lambda>s. emit (ConnectPlayer (case vp_player s of None \<Rightarrow> 0 | Some p \<Rightarrow> p)
        (case vp_dev s of None \<Rightarrow> 0 | Some d \<Rightarrow> dv_id d))),
      with_state (\<lambda>s. when_act (vp_widget s)
        (emit (AvRenderer (case vp_player s of None \<Rightarrow> 0 | Some p \<Rightarrow> p))))]"

definition close_dev :: vp_act where
  "close_dev = modify (\<lambda>s. s\<lparr>vp_dev := map_option (\<lambda>d. d\<lparr>dv_open := False\<rparr>) (vp_dev s)\<rparr>)"

text \<open>
  \<open>exists\<close>: the files that exist; \<open>can_open\<close>: whether the device can open its file.
\<close>

definition vp_open :: "(bytes \<Rightarrow> bool) \<Rightarrow> (bytes \<Rightarrow> bool) \<Rightarrow> vp_act" where
  "vp_open exists can_open = with_state (\<lambda>s0.
     case vp_dev s0 of
       None \<Rightarrow> new_device
     | Some d \<Rightarrow> acts
         [when_act (dv_open d) close_dev,
          when_act (dv_file d = [])
            (modify (\<lambda>s. s\<lparr>vp_dev := map_option (\<lambda>d. d\<lparr>dv_file := vp_videoFile s\<rparr>) (vp_dev s)\<rparr>)),
          with_state (\<lambda>s. case vp_dev s of
              None \<Rightarrow> skip_act
            | Some d1 \<Rightarrow> when_act (exists (dv_file d1)) (acts
                [on_player (emit (AvIODevice (dv_id d1))),
                 modify (\<lambda>s. s\<lparr>vp_dev := Some (d1\<lparr>dv_open := can_open (dv_file d1)\<rparr>)\<rparr>),
                 when_act (can_open (dv_file d1)) (emit (AvPlayAfter 500))]))])"

definition openFile :: "(bytes \<Rightarrow> bool) \<Rightarrow> (bytes \<Rightarrow> bool) \<Rightarrow> bytes \<Rightarrow> vp_act" where
  "openFile exists can_open fileName = acts
     [when_act (fileName \<noteq> []) (acts
        [modify (\<lambda>s. s\<lparr>vp_videoFile := fileName\<rparr>),
         close_dev,
         modify (\<lambda>s. s\<lparr>vp_dev := map_option (\<lambda>d. d\<lparr>dv_file := vp_videoFile s\<rparr>) (vp_dev s)\<rparr>)]),
      vp_open exists can_open]"

definition closeFile :: vp_act where
  "closeFile = with_state (\<lambda>s. when_act (vp_player s \<noteq> None) (acts
     [modify (\<lambda>s. s\<lparr>vp_filter := NoFilter\<rparr>), close_dev, emit AvStop]))"

definition vp_stop :: vp_act where
  "vp_stop = acts [closeFile, emit SigStopped]"

definition vp_setFontSize :: "int \<Rightarrow> vp_act" where
  "vp_setFontSize fontSize = acts
     [modify (\<lambda>s. s\<lparr>vp_font := (fontSize + 2) * 4 + 18\<rparr>),
      with_state (\<lambda>s. when_act (vp_filter s \<noteq> NoFilter) (emit (AvFilterFont (vp_font s))))]"

definition vp_setSubtitleFileV :: "(bytes \<Rightarrow> bool) \<Rightarrow> bytes \<Rightarrow> vp_act" where
  "vp_setSubtitleFileV exists fileName = with_state (\<lambda>s.
     when_act (vp_subFile s \<noteq> fileName) (acts
       [modify (\<lambda>s. s\<lparr>vp_subFile := fileName\<rparr>),
        on_player (modify (\<lambda>s. s\<lparr>vp_filter := FilterOf (if exists fileName then Some fileName else None)\<rparr>))]))"

text \<open>\<^verbatim>\<open>quint64\<close> division.\<close>

definition vp_setSubtitleDelay :: "int \<Rightarrow> vp_act" where
  "vp_setSubtitleDelay delay = acts
     [modify (\<lambda>s. s\<lparr>vp_delay := delay div 1000000\<rparr>),
      with_state (\<lambda>s. when_act (vp_filter s \<noteq> NoFilter) (emit (AvFilterDelay (vp_delay s))))]"

definition vp_setPause :: "(bytes \<Rightarrow> bool) \<Rightarrow> (bytes \<Rightarrow> bool) \<Rightarrow> bool \<Rightarrow> vp_act" where
  "vp_setPause exists can_open p = on_player (with_state (\<lambda>s.
     if vp_state s = AvStopped then vp_open exists can_open else emit (AvPause p)))"

definition vp_pause :: vp_act where
  "vp_pause = on_player (with_state (\<lambda>s. when_act (vp_state s \<noteq> AvStopped) (emit (AvPause True))))"

definition vp_resume :: vp_act where
  "vp_resume = on_player (with_state (\<lambda>s. when_act (vp_state s \<noteq> AvStopped) (emit (AvPause False))))"

text \<open>The library reports its state and media status.\<close>

definition onStateChange :: "av_state \<Rightarrow> media_status \<Rightarrow> vp_act" where
  "onStateChange st media = acts
     [modify (\<lambda>s. s\<lparr>vp_state := st\<rparr>),
      with_state (\<lambda>s. when_act (vp_oldMedia s \<noteq> media) (acts
        [when_act (media = LoadingMedia) (emit SigOpening),
         modify (\<lambda>s. s\<lparr>vp_oldMedia := media\<rparr>)])),
      with_state (\<lambda>s. when_act (vp_oldState s \<noteq> st) (acts
        [(case st of
            AvStopped \<Rightarrow> resetPlayer
          | AvPlaying \<Rightarrow> when_act (vp_oldState s = AvPaused) (emit SigPlaying)
          | AvPaused \<Rightarrow> emit SigPaused),
         modify (\<lambda>s. s\<lparr>vp_oldState := vp_state s\<rparr>)])),
      emit (SigStateImage [])]"

text \<open>Insertion into a \<^verbatim>\<open>QMap\<close>, kept in the order of its keys.\<close>

fun qmap_insert :: "bytes \<Rightarrow> 'v \<Rightarrow> (bytes \<times> 'v) list \<Rightarrow> (bytes \<times> 'v) list" where
  "qmap_insert k v [] = [(k, v)]"
| "qmap_insert k v ((l, w) # xs) =
     (if k < l then (k, v) # (l, w) # xs else if k = l then (k, v) # xs else (l, w) # qmap_insert k v xs)"

definition track_name :: "int \<Rightarrow> bytes \<Rightarrow> bytes" where
  "track_name tid lang = (if lang = [] \<or> lang = ''und'' then ''Track '' @ int_str (tid + 1) else lang)"

fun track_list :: "(int \<times> bytes) list \<Rightarrow> (bytes \<times> int) list \<Rightarrow> (bytes \<times> int) list" where
  "track_list [] acc = acc"
| "track_list ((tid, lang) # ts) acc =
     (if tid = - 1 then track_list ts acc else track_list ts (qmap_insert (track_name tid lang) tid acc))"

definition onInternalAudioTracksChanged :: "int \<Rightarrow> (int \<times> bytes) list \<Rightarrow> vp_act" where
  "onInternalAudioTracksChanged current tracks =
     (let l = track_list tracks []
      in acts [when_act (l \<noteq> []) (emit (AvAudioStream (snd (last l)))), emit (SigAudioTracks l current)])"

definition onDurationChanged :: "int \<Rightarrow> vp_act" where
  "onDurationChanged t = emit (SigLength (to_int32 t))"

definition onPositionChanged :: "int \<Rightarrow> vp_act" where
  "onPositionChanged t = emit (SigTime (to_int32 t))"

definition vp_setTime :: "int \<Rightarrow> vp_act" where
  "vp_setTime t = on_player (emit (AvPosition t))"

definition vp_setVolume :: "int \<Rightarrow> vp_act" where
  "vp_setVolume v = on_player (emit (AvVolume v))"

definition vp_setMute :: "bool \<Rightarrow> vp_act" where
  "vp_setMute b = on_player (emit (AvMute b))"

definition vp_setAudioTrack :: "int \<Rightarrow> vp_act" where
  "vp_setAudioTrack t = on_player (emit (AvAudioStream t))"

definition setVideoWidget :: vp_act where
  "setVideoWidget = acts
     [modify (\<lambda>s. s\<lparr>vp_widget := True\<rparr>),
      with_state (\<lambda>s. case vp_player s of None \<Rightarrow> skip_act | Some p \<Rightarrow> emit (AvRenderer p))]"

definition setTorrentWrapper :: vp_act where
  "setTorrentWrapper = acts
     [modify (\<lambda>s. s\<lparr>vp_wrapper := True\<rparr>),
      with_state (\<lambda>s. case (vp_player s, vp_dev s) of
          (Some p, Some d) \<Rightarrow> emit (BindWrapper (dv_id d))
        | _ \<Rightarrow> skip_act)]"

datatype vp_event =
    OpenFile bytes
  | Open
  | CloseFile
  | StopPlaying
  | SetPauseTo bool
  | PauseReq
  | ResumeReq
  | SubFile bytes
  | SubDelay int
  | FontSize int
  | AvChange av_state media_status
  | TracksChange int "(int \<times> bytes) list"
  | ResetTimer
  | WidgetSet
  | WrapperSet

fun vp_handle :: "(bytes \<Rightarrow> bool) \<Rightarrow> (bytes \<Rightarrow> bool) \<Rightarrow> vp_event \<Rightarrow> vp_act" where
  "vp_handle ex co (OpenFile f) = openFile ex co f"
| "vp_handle ex co Open = vp_open ex co"
| "vp_handle ex co CloseFile = closeFile"
| "vp_handle ex co StopPlaying = vp_stop"
| "vp_handle ex co (SetPauseTo b) = vp_setPause ex co b"
| "vp_handle ex co PauseReq = vp_pause"
| "vp_handle ex co ResumeReq = vp_resume"
| "vp_handle ex co (SubFile f) = vp_setSubtitleFileV ex f"
| "vp_handle ex co (SubDelay d) = vp_setSubtitleDelay d"
| "vp_handle ex co (FontSize f) = vp_setFontSize f"
| "vp_handle ex co (AvChange st m) = onStateChange st m"
| "vp_handle ex co (TracksChange c ts) = onInternalAudioTracksChanged c ts"
| "vp_handle ex co ResetTimer = resetPlayer"
| "vp_handle ex co WidgetSet = setVideoWidget"
| "vp_handle ex co WrapperSet = setTorrentWrapper"

subsection \<open>What the events keep\<close>

lemmas vp_defs = new_device_def resetPlayer_def close_dev_def vp_open_def openFile_def closeFile_def
  vp_stop_def vp_setFontSize_def vp_setSubtitleFileV_def vp_setSubtitleDelay_def vp_setPause_def
  vp_pause_def vp_resume_def onStateChange_def onInternalAudioTracksChanged_def setVideoWidget_def
  setTorrentWrapper_def on_player_def

definition no_subtitles :: "bytes \<Rightarrow> vp \<Rightarrow> bool" where
  "no_subtitles f s \<longleftrightarrow> vp_filter s = NoFilter \<and> vp_subFile s = f"

lemma vp_open_filter [simp]:
  "vp_filter (fst (vp_open ex co s)) = vp_filter s" "vp_subFile (fst (vp_open ex co s)) = vp_subFile s"
  by (simp_all add: vp_defs run_simps del: acts.simps(2) split: option.split)

lemma resetPlayer_filter [simp]:
  "vp_filter (fst (resetPlayer s)) = vp_filter s" "vp_subFile (fst (resetPlayer s)) = vp_subFile s"
  by (simp_all add: vp_defs run_simps del: acts.simps(2))

lemma closeFile_filter [simp]:
  "vp_filter (fst (closeFile s)) = (if vp_player s = None then vp_filter s else NoFilter)"
  "vp_subFile (fst (closeFile s)) = vp_subFile s"
  by (simp_all add: closeFile_def close_dev_def run_simps del: acts.simps(2))

lemma onStateChange_filter [simp]:
  "vp_filter (fst (onStateChange st m s)) = vp_filter s"
  "vp_subFile (fst (onStateChange st m s)) = vp_subFile s"
  by (cases st; simp add: onStateChange_def run_simps del: acts.simps(2))+

lemma no_subtitles_step:
  assumes "no_subtitles f s" "\<And>g. e = SubFile g \<Longrightarrow> g = f"
  shows "no_subtitles f (fst (vp_handle ex co e s))"
proof (cases e)
  case (SubFile g)
  with assms show ?thesis by (simp add: no_subtitles_def vp_setSubtitleFileV_def when_act_eq)
next
  case (OpenFile g)
  with assms show ?thesis
    by (simp add: no_subtitles_def openFile_def close_dev_def run_simps del: acts.simps(2))
next
  case (SetPauseTo b)
  with assms show ?thesis by (simp add: no_subtitles_def vp_setPause_def on_player_def)
qed (use assms in \<open>simp_all add: no_subtitles_def vp_stop_def vp_pause_def vp_resume_def on_player_def
      vp_setSubtitleDelay_def vp_setFontSize_def onInternalAudioTracksChanged_def setVideoWidget_def
      setTorrentWrapper_def run_simps Let_def del: acts.simps(2) split: option.split\<close>)

interpretation no_subs: machine "vp_handle ex co" "\<lambda>e. \<forall>g. e = SubFile g \<longrightarrow> g = f" "no_subtitles f" for ex co f
  by unfold_locales (rule no_subtitles_step, blast+)

text \<open>
  A subtitle file that was in use when the film was closed is never shown again until another
  one was chosen: sent again, as often as you like, it installs no filter, whatever is opened.
\<close>

theorem subtitle_lost_after_close:
  assumes "vp_player s \<noteq> None" "\<forall>e \<in> set es. \<forall>g. e = SubFile g \<longrightarrow> g = vp_subFile s"
  shows "vp_filter (fst (acts (map (vp_handle ex co) (CloseFile # es)) s)) = NoFilter"
proof -
  define f where "f = vp_subFile s"
  have "no_subtitles f (fst (acts (map (vp_handle ex co) es) t))" if "no_subtitles f t" for t
    using that by (rule no_subs.keeps_run) (simp add: list_all_iff f_def assms(2))
  moreover have "no_subtitles f (fst (closeFile s))"
    using assms(1) by (auto simp: no_subtitles_def f_def)
  ultimately show ?thesis by (simp add: fst_acts no_subtitles_def f_def del: acts.simps(2))
qed

lemma subtitle_lost_after_close_witness:
  "vp_filter (fst (acts (map (vp_handle (\<lambda>f. True) (\<lambda>f. True))
     (CloseFile # [OpenFile ''b.mkv'', AvChange AvPlaying LoadedMedia, SubFile ''en.srt'']))
     (videoPlayer\<lparr>vp_player := Some 1, vp_subFile := ''en.srt'', vp_filter := FilterOf (Some ''en.srt'')\<rparr>))) =
   NoFilter"
  by (rule subtitle_lost_after_close) simp_all

subsection \<open>The device is replaced\<close>

definition dev_fresh :: "vp \<Rightarrow> bool" where
  "dev_fresh s \<longleftrightarrow> 0 < vp_next s \<and> (\<exists>d. vp_dev s = Some d \<and> dv_id d \<noteq> 0)"

definition dev_any :: "vp \<Rightarrow> bool" where
  "dev_any s \<longleftrightarrow> 0 < vp_next s \<and> (\<exists>d. vp_dev s = Some d)"

lemma resetPlayer_dev: "0 < vp_next s \<Longrightarrow> dev_fresh (fst (resetPlayer s))"
  by (simp add: dev_fresh_def vp_defs run_simps del: acts.simps(2))

lemma vp_open_dev:
  "vp_dev s = Some d \<Longrightarrow> vp_next (fst (vp_open ex co s)) = vp_next s \<and>
     (\<exists>d'. vp_dev (fst (vp_open ex co s)) = Some d' \<and> dv_id d' = dv_id d)"
  by (simp add: vp_open_def close_dev_def on_player_def run_simps del: acts.simps(2))

lemma onStateChange_dev:
  "vp_dev (fst (onStateChange st m s)) = vp_dev s \<and> vp_next (fst (onStateChange st m s)) = vp_next s \<or>
   (0 < vp_next s \<longrightarrow> dev_fresh (fst (onStateChange st m s)))"
proof (cases "st = AvStopped \<and> vp_oldState s \<noteq> AvStopped")
  case True
  then show ?thesis
    by (simp add: onStateChange_def dev_fresh_def resetPlayer_def new_device_def run_simps
        del: acts.simps(2))
next
  case False
  then show ?thesis by (cases st) (simp_all add: onStateChange_def run_simps del: acts.simps(2))
qed

lemma vp_handle_dev:
  "vp_dev s = Some d \<Longrightarrow> 0 < vp_next s \<Longrightarrow>
   dev_fresh (fst (vp_handle ex co e s)) \<or>
   vp_next (fst (vp_handle ex co e s)) = vp_next s \<and>
     (\<exists>d'. vp_dev (fst (vp_handle ex co e s)) = Some d' \<and> dv_id d' = dv_id d)"
proof (cases e)
  case (AvChange st m)
  assume "vp_dev s = Some d" "0 < vp_next s"
  with AvChange onStateChange_dev [of st m s] show ?thesis by auto
next
  case (OpenFile f)
  assume d: "vp_dev s = Some d"
  define t where "t = fst (when_act (f \<noteq> []) (acts
        [modify (\<lambda>s. s\<lparr>vp_videoFile := f\<rparr>), close_dev,
         modify (\<lambda>s. s\<lparr>vp_dev := map_option (\<lambda>d. d\<lparr>dv_file := vp_videoFile s\<rparr>) (vp_dev s)\<rparr>)]) s)"
  have t: "vp_next t = vp_next s" "\<exists>d'. vp_dev t = Some d' \<and> dv_id d' = dv_id d"
    using d by (simp_all add: t_def close_dev_def run_simps del: acts.simps(2))
  have "fst (vp_handle ex co e s) = fst (vp_open ex co t)"
    by (simp add: OpenFile openFile_def t_def fst_acts del: acts.simps(2))
  with t vp_open_dev [of t] show ?thesis by metis
qed (auto simp: vp_open_dev closeFile_def close_dev_def vp_stop_def vp_setPause_def vp_pause_def
      vp_resume_def on_player_def vp_setSubtitleFileV_def vp_setSubtitleDelay_def vp_setFontSize_def
      onInternalAudioTracksChanged_def setVideoWidget_def setTorrentWrapper_def resetPlayer_dev
      run_simps Let_def simp del: acts.simps(2) split: option.split)

interpretation any_dev: machine "vp_handle ex co" "\<lambda>e. True" dev_any for ex co
proof
  show "dev_any (fst (vp_handle ex co e s))" if "dev_any s" for e s
    using that vp_handle_dev [of s _ ex co e] by (auto simp: dev_any_def dev_fresh_def)
qed

interpretation fresh_dev: machine "vp_handle ex co" "\<lambda>e. True" dev_fresh for ex co
proof
  show "dev_fresh (fst (vp_handle ex co e s))" if "dev_fresh s" for e s
    using that vp_handle_dev [of s _ ex co e] by (auto simp: dev_fresh_def)
qed

text \<open>
  The device that reads the torrent is replaced when the player is reset, for the first time
  right after it was made: from then on it is never again the device whose buffering signals the main
  window has connected.
\<close>

theorem first_device_gone:
  "\<exists>d. vp_dev (fst (acts (map (vp_handle ex co) (es @ ResetTimer # fs)) videoPlayer)) = Some d \<and> dv_id d \<noteq> 0"
proof -
  define t where "t = fst (acts (map (vp_handle ex co) es) videoPlayer)"
  have "dev_any t"
    unfolding t_def by (rule any_dev.keeps_run) (simp_all add: dev_any_def videoPlayer_def list_all_iff)
  then have "dev_fresh (fst (resetPlayer t))" by (intro resetPlayer_dev) (simp add: dev_any_def)
  then have "dev_fresh (fst (acts (map (vp_handle ex co) fs) (fst (resetPlayer t))))"
    by (rule fresh_dev.keeps_run) (simp add: list_all_iff)
  moreover have "fst (acts (map (vp_handle ex co) (es @ ResetTimer # fs)) videoPlayer) =
    fst (acts (map (vp_handle ex co) fs) (fst (resetPlayer t)))"
    by (simp add: fst_acts_append t_def fst_acts del: acts.simps(2))
  ultimately show ?thesis by (auto simp: dev_fresh_def)
qed

subsection \<open>Audio tracks\<close>

lemma qmap_insert_map: "map_of (qmap_insert k v xs) = (map_of xs)(k \<mapsto> v)"
  by (induction xs) (auto simp: fun_eq_iff)

lemma qmap_insert_keys: "set (map fst (qmap_insert k v xs)) = insert k (set (map fst xs))"
  using arg_cong [OF qmap_insert_map, of dom k v xs] by (simp add: dom_map_of_conv_image_fst)

lemma qmap_insert_sorted:
  "sorted_wrt (<) (map fst xs) \<Longrightarrow> sorted_wrt (<) (map fst (qmap_insert k v xs))"
proof (induction xs)
  case (Cons x xs)
  obtain l w where x: "x = (l, w)" by (cases x)
  show ?case
  proof (cases "k < l \<or> k = l")
    case True
    with Cons.prems show ?thesis by (auto simp: x dest: less_trans)
  next
    case False
    then have "l < k" by (metis neqE)
    with Cons False show ?thesis by (auto simp: x qmap_insert_keys [unfolded set_map])
  qed
qed simp

lemma track_list_props:
  "sorted_wrt (<) (map fst acc) \<Longrightarrow> sorted_wrt (<) (map fst (track_list ts acc)) \<and>
   map_of (track_list ts acc) = map_of acc ++ map_of (rev
     (map (\<lambda>(tid, lang). (track_name tid lang, tid)) (filter (\<lambda>(tid, lang). tid \<noteq> - 1) ts)))"
proof (induction ts acc rule: track_list.induct)
  case (2 tid lang ts acc)
  then show ?case
    by (auto simp: qmap_insert_sorted qmap_insert_map fun_eq_iff map_add_def split: option.split)
qed simp

text \<open>
  The list of audio tracks is in the order of the names, each name once: tracks of the same
  language share one entry, which stands for the last of them, so that the others cannot be chosen.
\<close>

theorem audio_track_list:
  "let l = track_list ts [] in sorted_wrt (<) (map fst l) \<and>
     map_of l = map_of (rev (map (\<lambda>(tid, lang). (track_name tid lang, tid))
       (filter (\<lambda>(tid, lang). tid \<noteq> - 1) ts)))"
  using track_list_props [of "[]" ts] by (simp add: Let_def)

section \<open>gui/VMediaPlayer.cpp\<close>

datatype vlc_state = VlcIdle | VlcOpening | VlcBuffering | VlcPlaying | VlcPaused | VlcStopped | VlcEnded | VlcError

datatype aspect = Original | R_16_9 | R_4_3 | R_185_100 | R_235_100 | OtherRatio

definition next_aspect :: "aspect \<Rightarrow> aspect" where
  "next_aspect a =
     (case a of Original \<Rightarrow> R_16_9 | R_16_9 \<Rightarrow> R_4_3 | R_4_3 \<Rightarrow> R_185_100 | R_185_100 \<Rightarrow> R_235_100
      | _ \<Rightarrow> Original)"

definition aspect_text :: "aspect \<Rightarrow> bytes" where
  "aspect_text a =
     (case a of Original \<Rightarrow> ''Original'' | R_16_9 \<Rightarrow> ''16:9'' | R_4_3 \<Rightarrow> ''4:3'' | R_185_100 \<Rightarrow> ''185''
      | R_235_100 \<Rightarrow> ''235'' | OtherRatio \<Rightarrow> ''Unknown'')"

record vm =
  vm_media :: bool
  vm_file :: bytes
  vm_start :: int
  vm_aspect :: aspect
  vm_mute :: bool

datatype vm_out =
    VlcOpen bytes
  | VlcPause
  | VlcResume
  | VlcTime int
  | VlcSubtitleFile bytes
  | VlcSubtitleOff
  | VlcToggleMute
  | VlcTrack int
  | VlcRestart int
  | NewAspectRatio bytes
  | NewAudioTrackList "(bytes \<times> int) list" int
  | VmStateText bytes
  | VmStateImage bytes
  | ProvideTracksAfter int
  | LastOfEmpty

type_synonym vm_act = "(vm, vm_out) act"

definition provideAspectRatio :: vm_act where
  "provideAspectRatio = with_state (\<lambda>s. emit (NewAspectRatio (aspect_text (vm_aspect s))))"

definition nextAspectRatio :: vm_act where
  "nextAspectRatio = acts [modify (\<lambda>s. s\<lparr>vm_aspect := next_aspect (vm_aspect s)\<rparr>), provideAspectRatio]"

definition vm_closeFile :: vm_act where
  "vm_closeFile = modify (\<lambda>s. s\<lparr>vm_media := False\<rparr>)"

text \<open>The ids and names of the tracks, \<open>count\<close> of them, and the track that is played afterwards.\<close>

fun vm_track_list :: "int list \<Rightarrow> bytes list \<Rightarrow> (bytes \<times> int) list \<Rightarrow> (bytes \<times> int) list" where
  "vm_track_list [] names acc = acc"
| "vm_track_list (tid # ids) names acc =
     (let name = (case names of [] \<Rightarrow> ''Track'' | n # _ \<Rightarrow> n)
      in vm_track_list ids (tl names) (if tid = - 1 then acc else qmap_insert name tid acc))"

definition vm_provideAudioTrackList :: "nat \<Rightarrow> int list \<Rightarrow> bytes list \<Rightarrow> int \<Rightarrow> vm_act" where
  "vm_provideAudioTrackList count ids names current =
     (if count = 0 then emit (ProvideTracksAfter 500)
      else
        (let l = vm_track_list ids names []
         in if l = [] then emit LastOfEmpty
            else acts [emit (VlcTrack (snd (last l))), emit (NewAudioTrackList l current)]))"

text \<open>\<open>canonical\<close>: the canonical path of an existing file. The loop that waits up to two seconds for
  the player to leave its idle state has no effect of its own.\<close>

definition vm_openFile ::
    "(bytes \<Rightarrow> bytes option) \<Rightarrow> nat \<Rightarrow> int list \<Rightarrow> bytes list \<Rightarrow> int \<Rightarrow> bytes \<Rightarrow> vm_act" where
  "vm_openFile canonical count ids names current fileName =
     (case canonical fileName of
        None \<Rightarrow> skip_act
      | Some f \<Rightarrow> acts
          [vm_closeFile,
           modify (\<lambda>s. s\<lparr>vm_media := True, vm_file := f\<rparr>),
           emit (VlcOpen f),
           modify (\<lambda>s. s\<lparr>vm_aspect := R_16_9\<rparr>),
           provideAspectRatio,
           vm_provideAudioTrackList count ids names current])"

definition vlc_subs_list :: "bytes list" where
  "vlc_subs_list = [''aqt'', ''cvd'', ''dks'', ''jss'', ''sub'', ''ttxt'', ''mpl'', ''pjs'', ''psb'', ''rt'',
     ''smi'', ''ssf'', ''srt'', ''ssa'', ''svcd'', ''usf'', ''idx'', ''txt'']"

definition vm_setSubtitleFileV :: "bytes \<Rightarrow> vm_act" where
  "vm_setSubtitleFileV fileName =
     emit (if list_ex (\<lambda>ext. ends_with ext (lower_str fileName)) vlc_subs_list
           then VlcSubtitleFile fileName else VlcSubtitleOff)"

definition vlc_font :: "int \<Rightarrow> int" where
  "vlc_font n = (if n = - 2 then 20 else if n = - 1 then 18 else if n = 1 then 11 else if n = 2 then 7 else 16)"

definition vm_setFontSize :: "int \<Rightarrow> vm_act" where
  "vm_setFontSize n = emit (VlcRestart (vlc_font n))"

definition vm_setMute :: "bool \<Rightarrow> vm_act" where
  "vm_setMute b = with_state (\<lambda>s. when_act (vm_mute s \<noteq> b)
     (acts [modify (\<lambda>s. s\<lparr>vm_mute := \<not> vm_mute s\<rparr>), emit VlcToggleMute]))"

definition vm_setPause :: "vlc_state \<Rightarrow> bool \<Rightarrow> vm_act" where
  "vm_setPause st p =
     (case st of
        VlcPlaying \<Rightarrow> when_act p (emit VlcPause)
      | VlcPaused \<Rightarrow> when_act (\<not> p) (emit VlcResume)
      | _ \<Rightarrow> skip_act)"

definition vm_setStartTime :: "int \<Rightarrow> vm_act" where
  "vm_setStartTime t = modify (\<lambda>s. s\<lparr>vm_start := t\<rparr>)"

definition vm_onPlaying :: vm_act where
  "vm_onPlaying = acts
     [with_state (\<lambda>s. when_act (vm_start s \<noteq> 0) (emit (VlcTime (vm_start s)))),
      modify (\<lambda>s. s\<lparr>vm_start := 0\<rparr>)]"

definition vm_onStopped :: vm_act where
  "vm_onStopped = modify (\<lambda>s. s\<lparr>vm_start := 0\<rparr>)"

definition vm_setAudioTrack :: "int list \<Rightarrow> int \<Rightarrow> vm_act" where
  "vm_setAudioTrack ids t = when_act (t \<in> set ids) (emit (VlcTrack t))"

definition vlc_state_text :: "vlc_state \<Rightarrow> bytes" where
  "vlc_state_text st =
     (case st of VlcBuffering \<Rightarrow> ''Buffering'' | VlcPlaying \<Rightarrow> ''Playing'' | VlcPaused \<Rightarrow> ''Paused''
      | VlcIdle \<Rightarrow> ''Idle'' | VlcOpening \<Rightarrow> ''Opening'' | VlcStopped \<Rightarrow> ''Stopped'' | VlcEnded \<Rightarrow> ''Ended''
      | VlcError \<Rightarrow> ''Error'')"

definition vm_onStateChange :: "vlc_state \<Rightarrow> vm_act" where
  "vm_onStateChange st = acts [emit (VmStateText (vlc_state_text st)), emit (VmStateImage [])]"

text \<open>The five ratios follow each other in a circle, which an unknown one enters.\<close>

lemma aspect_cycle:
  "(next_aspect ^^ 5) a = (if a = OtherRatio then R_235_100 else a)"
  "a \<noteq> OtherRatio \<Longrightarrow> (\<lambda>k. (next_aspect ^^ k) a) ` {0..<5} = {Original, R_16_9, R_4_3, R_185_100, R_235_100}"
  by (cases a; simp add: next_aspect_def numeral_eq_Suc atLeast0LessThan lessThan_Suc insert_commute)+

text \<open>
  A command to pause or to resume is sent only when it changes the state of a player that plays or is
  paused.
\<close>

lemma vm_setPause_outs:
  "snd (vm_setPause st p s) =
     (if st = VlcPlaying \<and> p then [VlcPause] else if st = VlcPaused \<and> \<not> p then [VlcResume] else [])"
  by (cases st; cases p) (simp_all add: vm_setPause_def)

lemma qmap_insert_nonempty [simp]: "qmap_insert k v xs \<noteq> []"
  by (cases xs) (auto split: if_splits)

lemma vm_track_list_empty: "vm_track_list ids names acc = [] \<longleftrightarrow> acc = [] \<and> (\<forall>i \<in> set ids. i = - 1)"
  by (induction ids names acc rule: vm_track_list.induct) (auto simp: Let_def)

text \<open>
  \<^verbatim>\<open>provideAudioTrackList\<close> of the VLC player takes the last entry of an empty map exactly when
  the player reports tracks but all of them have the number -1.
\<close>

theorem last_of_empty_iff:
  "LastOfEmpty \<in> set (snd (vm_provideAudioTrackList count ids names current s)) \<longleftrightarrow>
   count \<noteq> 0 \<and> list_all (\<lambda>i. i = - 1) ids"
  by (auto simp: vm_provideAudioTrackList_def Let_def vm_track_list_empty list_all_iff)

end
