(* ===== verification/SeekBar.thy ===== *)
theory SeekBar
  imports Streamer Float24
begin

section \<open>gui/SeekSlider.cpp: the position bar of the player\<close>

text \<open>
  \<^verbatim>\<open>SeekSlider\<close> and \<^verbatim>\<open>SeekControl\<close>: how much of the file is there, which positions can be sought, and
  when playing has to wait. The ratios are single precision quotients scaled by \<open>2^61\<close>; \<open>None\<close> is the
  infinite one. Signed overflow, division by zero and conversions out of range have no defined
  result: the operations that can meet them return an option. A slider keeps its value in its range.
\<close>

record seek =
  sk_full :: int
  sk_current :: int
  sk_playable :: "int option"
  sk_arbitrary :: bool
  sk_min :: int
  sk_max :: int
  sk_value :: int
  sk_x :: int
  sk_width :: int
  sk_lock :: bool
  sk_unlocks :: nat
  sk_kRate :: int

datatype rate_color = RateGray | RateRed | RateGreen

datatype seek_out =
    Sought int
  | ForcePauseOnBuffering
  | StatusLabel bytes
  | NeedTextUpdate
  | ElapsedText bytes
  | FullText bytes
  | RateText bytes
  | RateStyle rate_color

type_synonym seek_act = "(seek, seek_out) act"

definition TK_NET_BUFFERING :: bytes where
  "TK_NET_BUFFERING = ''Network Buffering''"

definition seek_init :: seek where
  "seek_init = \<lparr>sk_full = 0, sk_current = 0, sk_playable = Some 0, sk_arbitrary = True, sk_min = 0,
     sk_max = 1, sk_value = 0, sk_x = 0, sk_width = 100, sk_lock = False, sk_unlocks = 0, sk_kRate = 0\<rparr>"

subsection \<open>The slider\<close>

definition clamp_value :: "seek \<Rightarrow> int \<Rightarrow> seek" where
  "clamp_value s v = s\<lparr>sk_value := max (sk_min s) (min (sk_max s) v)\<rparr>"

definition setMaximum :: "int \<Rightarrow> seek \<Rightarrow> seek" where
  "setMaximum m s =
     (let s1 = s\<lparr>sk_min := min (sk_min s) m, sk_max := m\<rparr> in clamp_value s1 (sk_value s1))"

definition updateCurrentSize :: "int \<Rightarrow> seek \<Rightarrow> seek" where
  "updateCurrentSize sz s =
     (let s1 = s\<lparr>sk_current := to_int32 sz\<rparr>
      in if sk_full s1 < sk_current s1 then s1\<lparr>sk_current := sk_full s1\<rparr> else s1)"

definition updateFullSize :: "int \<Rightarrow> seek \<Rightarrow> seek" where
  "updateFullSize sz s = s\<lparr>sk_full := to_int32 sz\<rparr>"

definition playRatio :: "int \<Rightarrow> seek \<Rightarrow> int" where
  "playRatio time s = fl_div (fl24 time) (fl24 (sk_max s))"

definition canStillPlay :: "int \<Rightarrow> seek \<Rightarrow> bool" where
  "canStillPlay time s \<longleftrightarrow>
     sk_arbitrary s \<or> sk_full s = 0 \<or> sk_max s = 0 \<or> sk_full s = sk_current s \<or>
     (case sk_playable s of None \<Rightarrow> True | Some p \<Rightarrow> playRatio time s < p)"

subsection \<open>Times\<close>

definition two_digits :: "int \<Rightarrow> bytes" where
  "two_digits n = (if n < 10 then ''0'' @ int_str n else int_str n)"

text \<open>\<^verbatim>\<open>QTime( 0, 0, 0, 0 ).addMSecs( time )\<close> goes around after a day.\<close>

definition time_text :: "int \<Rightarrow> bytes" where
  "time_text time =
     (let ms = time mod 86400000; h = ms div 3600000; mi = ms div 60000 mod 60; sec = ms div 1000 mod 60
      in if 0 < h then two_digits h @ '':'' @ two_digits mi @ '':'' @ two_digits sec
         else two_digits mi @ '':'' @ two_digits sec)"

definition updateCurrentTime :: "int \<Rightarrow> seek_act" where
  "updateCurrentTime time = with_state (\<lambda>s. when_act (\<not> sk_lock s) (acts
     [when_act (\<not> canStillPlay time s)
        (acts [emit ForcePauseOnBuffering, emit (StatusLabel TK_NET_BUFFERING)]),
      emit (ElapsedText (time_text time)),
      modify (\<lambda>s. clamp_value s time)]))"

definition updateFullTime :: "int \<Rightarrow> seek_act" where
  "updateFullTime time = with_state (\<lambda>s. when_act (\<not> sk_lock s) (acts
     [emit (FullText (time_text time)),
      modify (setMaximum (if time \<noteq> 0 then time else 1))]))"

definition seek_rewind :: seek_act where
  "seek_rewind = updateCurrentTime 0"

definition seek_end :: seek_act where
  "seek_end = acts
     [emit (ElapsedText ''00:00''), emit (FullText ''00:00''), modify (setMaximum 1),
      modify (\<lambda>s. clamp_value s 0)]"

definition setLabels :: seek_act where
  "setLabels = acts [emit (ElapsedText ''00:00''), emit (FullText ''00:00'')]"

subsection \<open>The mouse\<close>

definition updateEvent :: "int \<Rightarrow> seek \<Rightarrow> (seek \<times> seek_out list) option" where
  "updateEvent px s =
     (if px < sk_x s \<or> sk_x s + sk_width s < px then Some (s, [])
      else
        (let clickPos = px - sk_x s
         in case (if sk_arbitrary s then Some False
                  else (case (mul32 clickPos (sk_full s), mul32 (sk_current s) (sk_width s)) of
                          (Some a, Some b) \<Rightarrow> Some (b \<le> a)
                        | _ \<Rightarrow> None)) of
              None \<Rightarrow> None
            | Some True \<Rightarrow> Some (s, [])
            | Some False \<Rightarrow>
                if sk_width s = 0 then None
                else
                  (let op = fl24 (sk_max s sdiv sk_width s);
                       newValue = fl24 (fl24 clickPos * op)
                   in if int32_ok newValue then Some (clamp_value s newValue, [Sought newValue])
                      else None)))"

definition mousePress :: "seek \<Rightarrow> seek" where
  "mousePress s = s\<lparr>sk_lock := True\<rparr>"

definition mouseMove :: "int \<Rightarrow> seek \<Rightarrow> (seek \<times> seek_out list) option" where
  "mouseMove px s = (if sk_lock s then updateEvent px s else Some (s, []))"

definition mouseRelease :: "int \<Rightarrow> seek \<Rightarrow> (seek \<times> seek_out list) option" where
  "mouseRelease px s =
     map_option (\<lambda>(s1, os). (s1\<lparr>sk_unlocks := sk_unlocks s1 + 1\<rparr>, os)) (updateEvent px s)"

text \<open>One of the timers of 500 ms fires.\<close>

definition unlock_fires :: "seek \<Rightarrow> seek" where
  "unlock_fires s =
     (if sk_unlocks s = 0 then s else s\<lparr>sk_unlocks := sk_unlocks s - 1, sk_lock := False\<rparr>)"

subsection \<open>Reports of the download\<close>

definition to_uint32 :: "int \<Rightarrow> int" where
  "to_uint32 x = x mod 2 ^ 32"

definition pieces_known :: "dlInfo \<Rightarrow> int \<times> int" where
  "pieces_known info =
     (if piecesDone info = piecesTotal info
      then (max 1 (to_uint32 (piecesTotal info)), to_uint32 (piecesTotal info))
      else (max 1 (to_uint32 (piecesDone info - piecesStartup info)),
            to_uint32 (piecesTotal info - piecesStartupAtEnd info)))"

definition playable_ratio :: "dlInfo \<Rightarrow> int option" where
  "playable_ratio info =
     (let (d, t) = pieces_known info
      in if piecesDone info = piecesTotal info then Some (2 ^ 61)
         else if t = 0 then None
         else Some (fl_div (fl24 d) (fl24 t)))"

definition rate_labels :: "dlInfo \<Rightarrow> seek_act" where
  "rate_labels info = acts
     [emit (RateText ''-''), emit (RateStyle RateGray),
      when_act (total info \<noteq> 0 \<and> downloaded info \<noteq> 0) (acts
        [modify (\<lambda>s. if 1 < sk_max s then s\<lparr>sk_kRate := to_int32 (total info sdiv sk_max s)\<rparr> else s),
         emit (RateText ('' '' @ int_str (to_int32 (downloadRateBs info sdiv 1000)) @ '' Kb/s'')),
         with_state (\<lambda>s. emit (RateStyle
           (if to_int32 (downloadRateBs info sdiv 1000) < sk_kRate s then RateRed else RateGreen)))])]"

definition downloadInfoChange :: "dlInfo \<Rightarrow> seek_act" where
  "downloadInfoChange info = acts
     [modify (updateFullSize (snd (pieces_known info))),
      modify (updateCurrentSize (fst (pieces_known info))),
      modify (\<lambda>s. s\<lparr>sk_playable := playable_ratio info\<rparr>),
      with_state (\<lambda>s. if \<not> canStillPlay (sk_value s) s then emit (StatusLabel TK_NET_BUFFERING)
                      else emit NeedTextUpdate),
      rate_labels info]"

subsection \<open>Properties\<close>

text \<open>
  A click on the bar of a film shorter than \<open>2^24\<close> ms seeks to a time at or before the place
  clicked, at most one millisecond too early for each pixel from the left end: the step per pixel is
  an integer division.
\<close>

theorem seek_error:
  assumes "sk_arbitrary s" "0 < sk_width s" "0 \<le> sk_max s" "sk_max s < 2 ^ 24"
    and "0 \<le> k" "k \<le> sk_width s" "sk_width s < 2 ^ 24"
  shows "\<exists>v t. updateEvent (sk_x s + k) s = Some (t, [Sought v]) \<and>
    v * sk_width s \<le> k * sk_max s \<and> k * sk_max s - v * sk_width s \<le> k * (sk_width s - 1)"
proof -
  define op where "op = sk_max s div sk_width s"
  have op: "sk_max s sdiv sk_width s = op" "0 \<le> op" "op * sk_width s \<le> sk_max s"
    "sk_max s - op * sk_width s \<le> sk_width s - 1"
    using assms(2,3) sdiv_nonneg [of "sk_max s" "sk_width s"] pos_mod_bound [of "sk_width s" "sk_max s"]
    by (simp_all add: op_def pos_imp_zdiv_nonneg_iff minus_mod_eq_div_mult [symmetric]
        minus_div_mult_eq_mod)
  have "k * op \<le> sk_width s * op" using op(2) assms(6) by (rule mult_right_mono [rotated])
  also have "\<dots> \<le> sk_max s" using op(3) by (simp add: mult.commute)
  finally have kop: "k * op < 2 ^ 24" "0 \<le> k * op" using assms(4,5) op(2) by simp_all
  have "op \<le> sk_max s" using assms(2) op(2,3)
    by (smt (verit) mult_le_cancel_left1 mult.commute mult_nonneg_nonneg)
  then have f: "fl24 op = op" "fl24 k = k" "fl24 (k * op) = k * op"
    using assms(4,5,6,7) op(2) kop by (simp_all add: fl24_small)
  have ok: "int32_ok (k * op)" using kop by (simp add: int32_ok_def)
  have eq: "updateEvent (sk_x s + k) s = Some (clamp_value s (k * op), [Sought (k * op)])"
    using assms(1,2,5,6) f ok by (simp add: updateEvent_def op(1) Let_def)
  have "k * (op * sk_width s) \<le> k * sk_max s" using op(3) assms(5) by (rule mult_left_mono)
  moreover have "k * (sk_max s - op * sk_width s) \<le> k * (sk_width s - 1)"
    using op(4) assms(5) by (rule mult_left_mono)
  ultimately have "k * op * sk_width s \<le> k * sk_max s"
    "k * sk_max s - k * op * sk_width s \<le> k * (sk_width s - 1)"
    by (simp_all add: algebra_simps)
  with eq show ?thesis by blast
qed

definition demo_seek :: seek where
  "demo_seek = seek_init\<lparr>sk_max := 5400999, sk_width := 1000, sk_x := 10, sk_full := 100, sk_current := 50,
     sk_playable := Some (2 ^ 60)\<rparr>"

lemma seek_error_witness:
  "\<exists>v t. updateEvent (10 + 1000) demo_seek = Some (t, [Sought v]) \<and>
     v * 1000 \<le> 1000 * 5400999 \<and> 1000 * 5400999 - v * 1000 \<le> 1000 * (1000 - 1)"
  using seek_error [of demo_seek 1000] by (simp add: demo_seek_def seek_init_def)

text \<open>
  While casting, a time is sought only where the file is downloaded: its share of the film is
  below the share of the pieces that are there.
\<close>

theorem cast_seek_downloaded:
  assumes "\<not> sk_arbitrary s" "0 < sk_width s" "sk_width s < 2 ^ 24" "0 < sk_max s" "sk_max s < 2 ^ 24"
    and "0 \<le> sk_full s" "updateEvent (sk_x s + k) s = Some (t, [Sought v])"
  shows "v * sk_full s < sk_current s * sk_max s"
proof -
  have k: "0 \<le> k" "k \<le> sk_width s"
    using assms(7) by (auto simp: updateEvent_def Let_def split: if_splits)
  have kf: "k * sk_full s < sk_current s * sk_width s"
    and ev: "updateEvent (sk_x s + k) (s\<lparr>sk_arbitrary := True\<rparr>) =
      Some (t\<lparr>sk_arbitrary := True\<rparr>, [Sought v])"
    using assms(1,7) by (auto simp: updateEvent_def Let_def mul32_def clamp_value_def split: if_splits bool.splits)
  have "v * sk_width s \<le> k * sk_max s"
    using seek_error [of "s\<lparr>sk_arbitrary := True\<rparr>" k] assms(2-5) k ev by auto
  then have "v * sk_width s * sk_full s \<le> k * sk_max s * sk_full s"
    using assms(6) by (rule mult_right_mono)
  also have "\<dots> = k * sk_full s * sk_max s" by (simp add: ac_simps)
  also have "\<dots> < sk_current s * sk_width s * sk_max s"
    using kf assms(4) by (rule mult_strict_right_mono)
  finally have "sk_width s * (v * sk_full s) < sk_width s * (sk_current s * sk_max s)"
    by (simp add: ac_simps)
  then show ?thesis using assms(2) by (simp add: mult_less_cancel_left)
qed

lemma cast_seek_downloaded_witness:
  "(400 * 5400 :: int) * 100 < 50 * 5400999"
proof -
  let ?s = "demo_seek\<lparr>sk_arbitrary := False\<rparr>"
  have "updateEvent (sk_x ?s + 400) ?s = Some (clamp_value ?s (400 * 5400), [Sought (400 * 5400)])"
    by (simp add: updateEvent_def demo_seek_def seek_init_def Let_def mul32_def int32_ok_def fl24_small
        sdiv_nonneg)
  then show ?thesis
    using cast_seek_downloaded [of ?s 400 "clamp_value ?s (400 * 5400)" "400 * 5400"]
    by (simp add: demo_seek_def seek_init_def)
qed

text \<open>
  As long as fewer pieces are there than the start needs, the difference wraps around: the bar
  takes all of a film shorter than \<open>2^24\<close> ms for playable and the downloaded part for negative.
\<close>

theorem startup_difference_wraps:
  assumes "0 \<le> piecesDone info" "piecesDone info < piecesStartup info" "piecesStartup info < 2 ^ 30"
    and "piecesDone info \<noteq> piecesTotal info"
    and "0 < piecesTotal info - piecesStartupAtEnd info" "piecesTotal info - piecesStartupAtEnd info < 2 ^ 30"
    and "sk_max s < 2 ^ 24"
  shows "let t = fst (downloadInfoChange info s)
    in sk_current t = piecesDone info - piecesStartup info \<and>
       (\<forall>time. 0 \<le> time \<and> time \<le> sk_max s \<longrightarrow> canStillPlay time t)"
proof -
  define x y where "x = piecesDone info - piecesStartup info" and "y = piecesTotal info - piecesStartupAtEnd info"
  have x: "- (2 ^ 30) < x" "x < 0" and y: "0 < y" "y < 2 ^ 30" using assms by (simp_all add: x_def y_def)
  have ux: "to_uint32 x = x + 2 ^ 32"
  proof -
    have "x mod 2 ^ 32 = (x + 2 ^ 32) mod 2 ^ 32" by simp
    also have "\<dots> = x + 2 ^ 32" using x by (intro mod_pos_pos_trivial) simp_all
    finally show ?thesis by (simp add: to_uint32_def)
  qed
  have uy: "to_uint32 y = y" using y by (simp add: to_uint32_def)
  have ix: "to_int32 (x + 2 ^ 32) = x"
  proof -
    have "signed_take_bit 31 (x + 2 ^ 32) = signed_take_bit 31 (take_bit 32 (x + 2 ^ 32))"
      by (simp add: signed_take_bit_take_bit)
    also have "take_bit 32 (x + 2 ^ 32) = take_bit 32 x" by (simp add: take_bit_eq_mod)
    also have "signed_take_bit 31 (take_bit 32 x) = signed_take_bit 31 x" by (simp add: signed_take_bit_take_bit)
    also have "\<dots> = x" using x by (intro signed_take_bit_int_eq_self) simp_all
    finally show ?thesis by (simp add: to_int32_def)
  qed
  have iy: "to_int32 y = y" using y by (simp add: to_int32_id int32_ok_def)
  have known: "pieces_known info = (x + 2 ^ 32, y)"
    using assms(4) ux uy x by (simp add: pieces_known_def x_def [symmetric] y_def [symmetric])
  define p where "p = fl_div (fl24 (x + 2 ^ 32)) (fl24 y)"
  have ratio: "playable_ratio info = Some p"
    using assms(4) known y(1) by (simp add: playable_ratio_def p_def)
  have big: "2 ^ 62 \<le> p"
  proof -
    have "2 ^ 31 \<le> fl24 (x + 2 ^ 32)" by (rule fl24_ge_pow) (use x in simp)
    moreover have "fl24 y \<le> 2 ^ 30" by (rule fl24_le_pow) (use y in simp_all)
    moreover have "2 ^ 0 \<le> fl24 y" by (rule fl24_ge_pow) (use y in simp)
    ultimately show ?thesis unfolding p_def by (intro fl_div_ge_2) simp_all
  qed
  define t where "t = fst (downloadInfoChange info s)"
  have t: "sk_current t = x" "sk_full t = y" "sk_playable t = Some p" "sk_max t = sk_max s"
    using x y by (simp_all add: t_def downloadInfoChange_def rate_labels_def run_simps known ratio
        updateFullSize_def updateCurrentSize_def Let_def ix [simplified] iy del: acts.simps(2))
  have "canStillPlay time t" if "0 \<le> time" "time \<le> sk_max s" for time
  proof -
    have "playRatio time t \<le> 2 ^ 61"
      unfolding playRatio_def t(4) by (rule fl_div_le_1) (use that assms(7) in \<open>simp_all add: fl24_small\<close>)
    with big have "playRatio time t < p" by simp
    then show ?thesis by (simp add: canStillPlay_def t)
  qed
  with t(1) show ?thesis by (simp add: t_def [symmetric] Let_def x_def)
qed

definition demo_info :: dlInfo where
  "demo_info = \<lparr>downloadRateBs = 1000, downloaded = 7, total = 100, piecesDone = 4, piecesTotal = 100,
     pieceSize = 1, seeders = 1, peers = 1, piecesStartup = 12, piecesStartupAtEnd = 2, piecesStartupDone = 4\<rparr>"

lemma startup_difference_wraps_witness:
  "sk_current (fst (downloadInfoChange demo_info demo_seek)) = - 8 \<and>
   canStillPlay 5400999 (fst (downloadInfoChange demo_info demo_seek))"
  using startup_difference_wraps [of demo_info demo_seek]
  by (simp add: demo_info_def demo_seek_def seek_init_def Let_def)

text \<open>
  The end of a click unlocks the bar half a second later, also when the button is down again by
  then: the rest of that drag moves nothing.
\<close>

theorem unlock_cuts_drag:
  assumes "mouseRelease px s = Some (s1, os)"
  shows "mouseMove py (unlock_fires (mousePress s1)) = Some (unlock_fires (mousePress s1), [])"
  using assms by (auto simp: mouseRelease_def unlock_fires_def mousePress_def mouseMove_def)

lemma unlock_cuts_drag_witness:
  "mouseMove 300 (unlock_fires (mousePress (demo_seek\<lparr>sk_unlocks := 1\<rparr>))) =
   Some (unlock_fires (mousePress (demo_seek\<lparr>sk_unlocks := 1\<rparr>)), [])"
proof (rule unlock_cuts_drag)
  show "mouseRelease 0 demo_seek = Some (demo_seek\<lparr>sk_unlocks := 1\<rparr>, [])"
    by (simp add: mouseRelease_def updateEvent_def demo_seek_def seek_init_def)
qed

end
