(* ===== verification/VideoPanel.thy ===== *)
theory VideoPanel
  imports Players SeekBar
begin

section \<open>gui/VideoControl.cpp: the controls of the player\<close>

text \<open>
  \<^verbatim>\<open>VideoControl\<close> connects the widgets of its bar to the local player or to the cast device. A
  connection is given by sender, signal, receiver and slot; those of \<^verbatim>\<open>connList\<close> are replaced at each
  switch. The delay of the subtitles is counted in tenths of a second, the step of its spin box; its
  conversion to microseconds, a product of doubles, is an argument.
\<close>

datatype part =
    LocalPlayer | CastPlayer | SeekPart | RatingPart | PauseBtn | StopBtn | MuteBtn | VolSlider
  | PanelPart | SubtitlerPart | TracksPart | AspectAction

type_synonym conn = "part \<times> bytes \<times> part \<times> bytes"

datatype panel_out =
    FilterSubtitles "bytes list"
  | NewImage bytes
  | SwitchedToVlc
  | SwitchedToCast
  | InvokeLocalPause bool
  | InvokeLocalPauseAfter int bool
  | InvokeAspectRatio
  | ProvideVolume
  | ProvideMute
  | ProvidePause
  | SubtitleDelay int
  | SubtitlerClear
  | SubtitlerStart
  | RatingClear
  | RatingTorrent
  | InvokeOpen part

record panel =
  pn_player :: part
  pn_conns :: "conn list"
  pn_provides :: nat
  pn_hasCast :: bool
  pn_status :: bytes
  pn_arbitrary :: bool
  pn_delay :: int
  pn_timer :: bool
  pn_volume :: int

type_synonym panel_act = "(panel, panel_out) act"

text \<open>The connections a switch to \<open>player\<close> makes, with the other player left idle.\<close>

definition conn_table :: "part \<Rightarrow> part \<Rightarrow> conn list" where
  "conn_table player idle =
     [(player, ''lengthChanged'', SeekPart, ''updateFullTime''),
      (player, ''lengthChanged'', RatingPart, ''updateFullTime''),
      (player, ''timeChanged'', SeekPart, ''updateCurrentTime''),
      (player, ''timeChanged'', idle, ''setTime''),
      (player, ''stateText'', PanelPart, ''updateLabel''),
      (SeekPart, ''sought'', player, ''setTime''),
      (SeekPart, ''needTextUpdate'', player, ''onStateChange''),
      (PauseBtn, ''clicked'', player, ''setPause''),
      (player, ''playing'', PauseBtn, ''uncheck''),
      (player, ''stopped'', PauseBtn, ''check''),
      (StopBtn, ''clicked'', player, ''stop''),
      (MuteBtn, ''toggled'', player, ''setMute''),
      (VolSlider, ''valueChanged'', player, ''setVolume''),
      (player, ''stateChanged'', PanelPart, ''provideControlSettings''),
      (player, ''stateImage'', PanelPart, ''newImage''),
      (SubtitlerPart, ''haveSubtitleFile'', player, ''setSubtitleFileV''),
      (PanelPart, ''subtitleDelay'', player, ''setSubtitleDelay''),
      (TracksPart, ''newTrackIndex'', player, ''setAudioTrack''),
      (player, ''newAudioTrackList'', TracksPart, ''setAudioTrackList'')]"

definition aspect_conns :: "part \<Rightarrow> conn list" where
  "aspect_conns player =
     [(AspectAction, ''triggered'', player, ''nextAspectRatio''),
      (player, ''newAspectRatio'', PanelPart, ''updateAspectRatio'')]"

definition provideControlSettings :: panel_act where
  "provideControlSettings = acts [emit ProvideVolume, emit ProvideMute]"

definition castSwitch :: "bool \<Rightarrow> panel_act" where
  "castSwitch casting = with_state (\<lambda>s0.
     let player = (if \<not> casting \<or> \<not> pn_hasCast s0 then LocalPlayer else CastPlayer);
         idle = (if player = LocalPlayer then CastPlayer else LocalPlayer)
     in acts
       [modify (\<lambda>s. s\<lparr>pn_player := player\<rparr>),
        modify (\<lambda>s. s\<lparr>pn_conns := []\<rparr>),
        modify (\<lambda>s. s\<lparr>pn_conns := pn_conns s @ conn_table player idle\<rparr>),
        modify (\<lambda>s. s\<lparr>pn_provides := pn_provides s + 1\<rparr>),
        provideControlSettings,
        modify (\<lambda>s. s\<lparr>pn_arbitrary := (player = LocalPlayer)\<rparr>),
        (if player = LocalPlayer
         then acts
           [modify (\<lambda>s. s\<lparr>pn_conns := pn_conns s @ aspect_conns player\<rparr>),
            emit InvokeAspectRatio,
            emit (FilterSubtitles vlc_subs_list),
            emit (NewImage []),
            emit SwitchedToVlc,
            emit (InvokeLocalPauseAfter 500 False)]
         else acts
           [emit (FilterSubtitles [''srt'']),
            emit (InvokeLocalPause True),
            emit SwitchedToCast]),
        emit ProvidePause])"

definition setCast :: panel_act where
  "setCast = acts [modify (\<lambda>s. s\<lparr>pn_hasCast := True\<rparr>), castSwitch False]"

text \<open>How often the \<^verbatim>\<open>playing()\<close> of the local player starts the timer that sends the subtitles again.\<close>

definition on_local_playing :: "panel \<Rightarrow> nat" where
  "on_local_playing s = pn_provides s"

subsection \<open>Subtitle delay\<close>

definition delay_changed :: "(int \<Rightarrow> int) \<Rightarrow> panel_act" where
  "delay_changed us = with_state (\<lambda>s. when_act (\<not> pn_timer s) (acts
     [modify (\<lambda>s. s\<lparr>pn_timer := True\<rparr>), emit (SubtitleDelay (us (pn_delay s)))]))"

text \<open>The spin box signals a change of its value only, and keeps it within an hour.\<close>

definition setDelay :: "(int \<Rightarrow> int) \<Rightarrow> int \<Rightarrow> panel_act" where
  "setDelay us d = with_state (\<lambda>s.
     let v = max (- 36000) (min 36000 d)
     in when_act (pn_delay s \<noteq> v) (acts [modify (\<lambda>s. s\<lparr>pn_delay := v\<rparr>), delay_changed us]))"

definition delay_timeout :: "(int \<Rightarrow> int) \<Rightarrow> panel_act" where
  "delay_timeout us = with_state (\<lambda>s. when_act (pn_timer s) (acts
     [modify (\<lambda>s. s\<lparr>pn_timer := False\<rparr>), emit (SubtitleDelay (us (pn_delay s)))]))"

definition pn_clearSubtitles :: "(int \<Rightarrow> int) \<Rightarrow> panel_act" where
  "pn_clearSubtitles us = acts [emit SubtitlerClear, emit RatingClear, setDelay us 0]"

definition pn_startSubtitles :: "(int \<Rightarrow> int) \<Rightarrow> panel_act" where
  "pn_startSubtitles us = acts [emit SubtitlerStart, emit RatingTorrent, setDelay us 0]"

subsection \<open>Volume, pause and the label\<close>

definition pn_setVolume :: "int \<Rightarrow> panel_act" where
  "pn_setVolume v = modify (\<lambda>s. s\<lparr>pn_volume := max 0 (min 200 v)\<rparr>)"

definition volumeUp :: panel_act where
  "volumeUp = with_state (\<lambda>s. pn_setVolume (pn_volume s + 10))"

definition volumeDown :: panel_act where
  "volumeDown = with_state (\<lambda>s. pn_setVolume (pn_volume s - 10))"

definition pauseToggled :: "bool \<Rightarrow> panel_act" where
  "pauseToggled p = with_state (\<lambda>s. when_act (\<not> p) (emit (InvokeOpen (pn_player s))))"

definition updateLabel :: "bytes \<Rightarrow> panel_act" where
  "updateLabel newText = modify (\<lambda>s.
     if contains_sub ''paused'' (lower_str newText) \<and> pn_status s = TK_NET_BUFFERING then s
     else s\<lparr>pn_status := newText\<rparr>)"

definition panel_init :: panel where
  "panel_init = \<lparr>pn_player = LocalPlayer, pn_conns = [], pn_provides = 0, pn_hasCast = False, pn_status = [],
     pn_arbitrary = True, pn_delay = 0, pn_timer = False, pn_volume = 200\<rparr>"

datatype panel_event =
    CastSwitched bool
  | CastGiven
  | DelaySet int
  | DelayTimeout
  | ClearSubs
  | StartSubs
  | VolumeSet int
  | VolumeUpKey
  | VolumeDownKey
  | PauseToggledTo bool
  | LabelText bytes

fun panel_handle :: "(int \<Rightarrow> int) \<Rightarrow> panel_event \<Rightarrow> panel_act" where
  "panel_handle us (CastSwitched c) = castSwitch c"
| "panel_handle us CastGiven = setCast"
| "panel_handle us (DelaySet d) = setDelay us d"
| "panel_handle us DelayTimeout = delay_timeout us"
| "panel_handle us ClearSubs = pn_clearSubtitles us"
| "panel_handle us StartSubs = pn_startSubtitles us"
| "panel_handle us (VolumeSet v) = pn_setVolume v"
| "panel_handle us VolumeUpKey = volumeUp"
| "panel_handle us VolumeDownKey = volumeDown"
| "panel_handle us (PauseToggledTo p) = pauseToggled p"
| "panel_handle us (LabelText t) = updateLabel t"

subsection \<open>Connections\<close>

definition is_player :: "part \<Rightarrow> bool" where
  "is_player p \<longleftrightarrow> p = LocalPlayer \<or> p = CastPlayer"

definition other_player :: "part \<Rightarrow> part" where
  "other_player p = (if p = LocalPlayer then CastPlayer else LocalPlayer)"

definition panel_wf :: "panel \<Rightarrow> bool" where
  "panel_wf s \<longleftrightarrow> is_player (pn_player s) \<and>
     (pn_provides s = 0 \<and> pn_conns s = [] \<and> pn_arbitrary s \<or>
      pn_conns s = conn_table (pn_player s) (other_player (pn_player s)) @
        (if pn_player s = LocalPlayer then aspect_conns LocalPlayer else []) \<and>
      pn_arbitrary s = (pn_player s = LocalPlayer)) \<and>
     0 \<le> pn_volume s \<and> pn_volume s \<le> 200 \<and> \<bar>pn_delay s\<bar> \<le> 36000"

lemma castSwitch_state:
  "fst (castSwitch c s) = s\<lparr>pn_player := (if \<not> c \<or> \<not> pn_hasCast s then LocalPlayer else CastPlayer),
     pn_conns := (if \<not> c \<or> \<not> pn_hasCast s
       then conn_table LocalPlayer CastPlayer @ aspect_conns LocalPlayer
       else conn_table CastPlayer LocalPlayer),
     pn_provides := pn_provides s + 1, pn_arbitrary := (\<not> c \<or> \<not> pn_hasCast s)\<rparr>"
  by (simp add: castSwitch_def provideControlSettings_def run_simps Let_def del: acts.simps(2))

lemma panel_wf_castSwitch [simp]: "panel_wf s \<Longrightarrow> panel_wf (fst (castSwitch c s))"
  by (simp add: panel_wf_def castSwitch_state is_player_def other_player_def)

lemma panel_wf_step: "panel_wf s \<Longrightarrow> panel_wf (fst (panel_handle us e s))"
proof (cases e)
  case CastGiven
  assume "panel_wf s"
  then have "panel_wf (s\<lparr>pn_hasCast := True\<rparr>)" by (simp add: panel_wf_def)
  with CastGiven show ?thesis by (simp add: setCast_def fst_acts del: acts.simps(2))
qed (auto simp: panel_wf_def setDelay_def delay_changed_def delay_timeout_def pn_clearSubtitles_def
      pn_startSubtitles_def pn_setVolume_def volumeUp_def volumeDown_def pauseToggled_def updateLabel_def
      castSwitch_state is_player_def other_player_def run_simps Let_def simp del: acts.simps(2))

interpretation panels: machine "panel_handle us" "\<lambda>e. True" panel_wf for us
  by unfold_locales (rule panel_wf_step)

lemma panel_wf_init: "panel_wf panel_init"
  by (simp add: panel_wf_def panel_init_def is_player_def)

text \<open>
  C32: among the connections kept in \<^verbatim>\<open>connList\<close>, whatever happens, every command of the widgets goes to the current
  player and only its signals reach the widgets, each connection once; times can be sought freely exactly while it is
  the local one. (The connection of the local player to the subtitles is kept nowhere and is not one of these.)
\<close>

theorem panel_connections:
  "let s = fst (acts (map (panel_handle us) es) panel_init)
   in distinct (pn_conns s) \<and>
      (\<forall>(a, sig, b, slot) \<in> set (pn_conns s).
         (is_player a \<or> is_player b) \<and> (is_player a \<longrightarrow> a = pn_player s) \<and>
         (is_player b \<and> \<not> is_player a \<longrightarrow> b = pn_player s)) \<and>
      (pn_arbitrary s \<longleftrightarrow> pn_player s = LocalPlayer \<or> pn_conns s = [])"
proof -
  define s where "s = fst (acts (map (panel_handle us) es) panel_init)"
  have wf: "panel_wf s" unfolding s_def by (rule panels.keeps_run [OF panel_wf_init]) (simp add: list_all_iff)
  then consider "pn_conns s = []" "pn_arbitrary s"
    | "pn_player s = LocalPlayer" "pn_conns s = conn_table LocalPlayer CastPlayer @ aspect_conns LocalPlayer"
      "pn_arbitrary s"
    | "pn_player s = CastPlayer" "pn_conns s = conn_table CastPlayer LocalPlayer" "\<not> pn_arbitrary s"
    by (auto simp: panel_wf_def is_player_def other_player_def)
  then show ?thesis
    unfolding s_def [symmetric] Let_def
  proof cases
    case 1
    then show "distinct (pn_conns s) \<and> (\<forall>(a, sig, b, slot) \<in> set (pn_conns s).
        (is_player a \<or> is_player b) \<and> (is_player a \<longrightarrow> a = pn_player s) \<and>
        (is_player b \<and> \<not> is_player a \<longrightarrow> b = pn_player s)) \<and>
      (pn_arbitrary s \<longleftrightarrow> pn_player s = LocalPlayer \<or> pn_conns s = [])" by simp
  next
    case 2
    then show "distinct (pn_conns s) \<and> (\<forall>(a, sig, b, slot) \<in> set (pn_conns s).
        (is_player a \<or> is_player b) \<and> (is_player a \<longrightarrow> a = pn_player s) \<and>
        (is_player b \<and> \<not> is_player a \<longrightarrow> b = pn_player s)) \<and>
      (pn_arbitrary s \<longleftrightarrow> pn_player s = LocalPlayer \<or> pn_conns s = [])"
      by (simp add: conn_table_def aspect_conns_def is_player_def)
  next
    case 3
    then show "distinct (pn_conns s) \<and> (\<forall>(a, sig, b, slot) \<in> set (pn_conns s).
        (is_player a \<or> is_player b) \<and> (is_player a \<longrightarrow> a = pn_player s) \<and>
        (is_player b \<and> \<not> is_player a \<longrightarrow> b = pn_player s)) \<and>
      (pn_arbitrary s \<longleftrightarrow> pn_player s = LocalPlayer \<or> pn_conns s = [])"
      by (simp add: conn_table_def aspect_conns_def is_player_def)
  qed
qed

lemma panel_connections_witness:
  "let s = fst (acts (map (panel_handle id) [CastGiven, CastSwitched True]) panel_init)
   in distinct (pn_conns s) \<and>
      list_all (\<lambda>(a, sig, b, slot). if is_player a then a = pn_player s else b = pn_player s) (pn_conns s)"
  using panel_connections [of id "[CastGiven, CastSwitched True]"]
  unfolding Let_def list_all_iff by fastforce

definition is_switch :: "panel_event \<Rightarrow> bool" where
  "is_switch e \<longleftrightarrow> e = CastGiven \<or> (\<exists>c. e = CastSwitched c)"

text \<open>
  The connection that sends the subtitles again when the local player starts is never taken
  back: after \<open>n\<close> switches between the players each start sends them \<open>n\<close> times.
\<close>

theorem provides_pile_up:
  "on_local_playing (fst (acts (map (panel_handle us) es) panel_init)) = length (filter is_switch es)"
proof -
  have "pn_provides (fst (acts (map (panel_handle us) es) s)) = pn_provides s + length (filter is_switch es)" for s
  proof (induction es arbitrary: s)
    case (Cons e es)
    have "pn_provides (fst (panel_handle us e s)) = pn_provides s + (if is_switch e then 1 else 0)"
      by (cases e) (auto simp: is_switch_def setCast_def castSwitch_state setDelay_def delay_changed_def
        delay_timeout_def pn_clearSubtitles_def pn_startSubtitles_def pn_setVolume_def volumeUp_def
        volumeDown_def pauseToggled_def updateLabel_def run_simps Let_def simp del: acts.simps(2))
    with Cons.IH show ?case by (simp add: fst_acts del: acts.simps(2))
  qed simp
  from this [of panel_init] show ?thesis by (simp add: on_local_playing_def panel_init_def)
qed

subsection \<open>The delay that arrives\<close>

fun last_delay :: "int \<Rightarrow> panel_out list \<Rightarrow> int" where
  "last_delay d [] = d"
| "last_delay d (x # xs) = last_delay (case x of SubtitleDelay e \<Rightarrow> e | _ \<Rightarrow> d) xs"

lemma last_delay_append [simp]: "last_delay d (xs @ ys) = last_delay (last_delay d xs) ys"
  by (induction xs arbitrary: d) simp_all

lemma castSwitch_delay [simp]: "last_delay d (snd (castSwitch c s)) = d"
  by (simp add: castSwitch_def provideControlSettings_def run_simps Let_def del: acts.simps(2))

lemma delay_step:
  assumes "pn_timer s \<or> d = us (pn_delay s)"
  shows "let t = fst (panel_handle us e s)
    in pn_timer t \<or> last_delay d (snd (panel_handle us e s)) = us (pn_delay t)"
  using assms
  by (cases e) (auto simp: setCast_def castSwitch_state setDelay_def delay_changed_def delay_timeout_def
    pn_clearSubtitles_def pn_startSubtitles_def pn_setVolume_def volumeUp_def volumeDown_def
    pauseToggled_def updateLabel_def run_simps Let_def simp del: acts.simps(2))

interpretation delay: observed "panel_handle us" "\<lambda>e. True" last_delay "\<lambda>d s. pn_timer s \<or> d = us (pn_delay s)" for us
  by unfold_locales (use delay_step in \<open>simp_all add: Let_def\<close>)

text \<open>
  Whenever the timer of the subtitle delay does not run, the player has been told the delay the
  spin box shows, however fast it was changed.
\<close>

theorem delay_delivered:
  "let (s, outs) = acts (map (panel_handle us) es) panel_init
   in \<not> pn_timer s \<longrightarrow> last_delay (us 0) outs = us (pn_delay s)"
proof -
  have "pn_timer (fst (acts (map (panel_handle us) es) panel_init)) \<or>
      last_delay (us 0) (snd (acts (map (panel_handle us) es) panel_init)) =
        us (pn_delay (fst (acts (map (panel_handle us) es) panel_init)))"
    by (rule delay.run) (simp_all add: panel_init_def list_all_iff)
  then show ?thesis by (auto simp: split_beta)
qed

lemma delay_delivered_witness:
  "last_delay 0 (snd (acts (map (panel_handle (\<lambda>k. 100000 * k)) [DelaySet 5, DelaySet 15, DelayTimeout]) panel_init)) =
   1500000"
proof -
  have "\<not> pn_timer (fst (acts (map (panel_handle (\<lambda>k. 100000 * k)) [DelaySet 5, DelaySet 15, DelayTimeout]) panel_init))"
    "pn_delay (fst (acts (map (panel_handle (\<lambda>k. 100000 * k)) [DelaySet 5, DelaySet 15, DelayTimeout]) panel_init)) = 15"
    by (simp_all add: setDelay_def delay_changed_def delay_timeout_def panel_init_def)
  then show ?thesis
    using delay_delivered [of "\<lambda>k. 100000 * k" "[DelaySet 5, DelaySet 15, DelayTimeout]"]
    by (simp add: split_beta Let_def)
qed

text \<open>
  The local player uses whole seconds of the delay: the half seconds the spin box steps by are
  dropped when its value arrives. The product of doubles may fall short by a microsecond, never for
  whole seconds.
\<close>

theorem half_seconds_dropped:
  assumes "0 \<le> k" "100000 * k - 1 \<le> us k" "us k \<le> 100000 * k" "k mod 10 = 0 \<longrightarrow> us k = 100000 * k"
  shows "vp_delay (fst (vp_setSubtitleDelay (us k) s)) = k div 10 \<and>
    (vp_filter s \<noteq> NoFilter \<longrightarrow> snd (vp_setSubtitleDelay (us k) s) = [AvFilterDelay (k div 10)])"
proof -
  have "us k div 1000000 = k div 10"
  proof (cases "k mod 10 = 0")
    case True
    with assms(4) div_mult_mult1 [of "100000 :: int" k 10] show ?thesis by simp
  next
    case False
    define q r where "q = k div 10" and "r = k mod 10"
    have "k = 10 * q + r" "0 < r" "r < 10"
      using False assms(1) pos_mod_bound [of 10 k] pos_mod_sign [of 10 k] by (simp_all add: q_def r_def del: pos_mod_bound pos_mod_sign)
    then have "us k = 1000000 * q + (us k - 1000000 * q)" "0 \<le> us k - 1000000 * q" "us k - 1000000 * q < 1000000"
      using assms(2,3) by simp_all
    then show ?thesis unfolding q_def [symmetric] by (metis div_pos_pos_trivial div_mult_self4 add.commute
      add_cancel_left_right zero_neq_numeral)
  qed
  then show ?thesis by (simp add: vp_setSubtitleDelay_def when_act_eq)
qed

lemma half_seconds_dropped_witness:
  "vp_delay (fst (vp_setSubtitleDelay 500000 videoPlayer)) = 0"
  using half_seconds_dropped [of 5 "\<lambda>k. 100000 * k" videoPlayer] by simp

text \<open>
  Switching to the cast device pauses the local player by a call that opens the file when that
  player is stopped: the film starts to play here, too.
\<close>

theorem cast_starts_local:
  assumes "pn_hasCast p" "vp_player s = Some q" "vp_state s = AvStopped" "vp_dev s = Some d"
    and "dv_file d \<noteq> []" "ex (dv_file d)" "co (dv_file d)"
  shows "InvokeLocalPause True \<in> set (snd (castSwitch True p)) \<and>
    AvPlayAfter 500 \<in> set (snd (vp_setPause ex co True s))"
proof
  show "InvokeLocalPause True \<in> set (snd (castSwitch True p))"
    using assms(1)
    by (simp add: castSwitch_def provideControlSettings_def run_simps Let_def del: acts.simps(2))
  show "AvPlayAfter 500 \<in> set (snd (vp_setPause ex co True s))"
    using assms(2-)
    by (simp add: vp_setPause_def on_player_def vp_open_def close_dev_def run_simps del: acts.simps(2))
qed

lemma cast_starts_local_witness:
  "InvokeLocalPause True \<in> set (snd (castSwitch True (panel_init\<lparr>pn_hasCast := True\<rparr>))) \<and>
   AvPlayAfter 500 \<in> set (snd (vp_setPause (\<lambda>f. True) (\<lambda>f. True) True
     (videoPlayer\<lparr>vp_player := Some 1, vp_dev := Some \<lparr>dv_id = 2, dv_file = ''a.mkv'', dv_open = False\<rparr>\<rparr>)))"
  by (rule cast_starts_local [where d = "\<lparr>dv_id = 2, dv_file = ''a.mkv'', dv_open = False\<rparr>" and q = 1])
    (simp_all add: videoPlayer_def)

end
