(* ===== verification/WindowInput.thy ===== *)
theory WindowInput
  imports Prelude
begin

section \<open>gui/ResizeDragEventHandler.cpp and gui/ControlRevealer.cpp: mouse, keys and controls\<close>

text \<open>
  \<^verbatim>\<open>ResizeDragEventHandler\<close>: the event filter that moves and resizes the frameless window, in the
  build with a web engine. A rectangle is given, as in Qt, by its first and last column and row.
  \<^verbatim>\<open>ControlRevealer\<close>: when the controls of the player are shown. The answers of other objects (is
  the player shown, is the window maximised, the torrent found in dropped data) come with the event.
\<close>

subsection \<open>Rectangles\<close>

record rect =
  r_left :: int
  r_top :: int
  r_right :: int
  r_bottom :: int

definition mk_rect :: "int \<Rightarrow> int \<Rightarrow> int \<Rightarrow> int \<Rightarrow> rect" where
  "mk_rect l t r b = \<lparr>r_left = l, r_top = t, r_right = r, r_bottom = b\<rparr>"

definition r_width :: "rect \<Rightarrow> int" where
  "r_width r = r_right r - r_left r + 1"

definition r_height :: "rect \<Rightarrow> int" where
  "r_height r = r_bottom r - r_top r + 1"

text \<open>\<^verbatim>\<open>QRect::contains\<close>: a rectangle with its sides exchanged contains what lies between them.\<close>

definition span_contains :: "int \<Rightarrow> int \<Rightarrow> int \<Rightarrow> bool" where
  "span_contains a b x \<longleftrightarrow> (if b < a - 1 then b \<le> x \<and> x \<le> a else a \<le> x \<and> x \<le> b)"

definition r_contains :: "rect \<Rightarrow> int \<times> int \<Rightarrow> bool" where
  "r_contains r p \<longleftrightarrow>
     span_contains (r_left r) (r_right r) (fst p) \<and> span_contains (r_top r) (r_bottom r) (snd p)"

subsection \<open>Zones of the window\<close>

definition RESIZE_ZONE :: int where "RESIZE_ZONE = 2"
definition DRAG_ZONE_LEFT_MARGIN :: int where "DRAG_ZONE_LEFT_MARGIN = 135"
definition DRAG_ZONE1_HEIGHT :: int where "DRAG_ZONE1_HEIGHT = 32"
definition DRAG_ZONE2_HEIGHT :: int where "DRAG_ZONE2_HEIGHT = 28"
definition DRAG_ZONE1_RIGHT_MARGIN :: int where "DRAG_ZONE1_RIGHT_MARGIN = 55"
definition DRAG_ZONE2_RIGHT_MARGIN :: int where "DRAG_ZONE2_RIGHT_MARGIN = 215"

datatype resize_state =
  IdleResize | TopResize | BottomResize | LeftResize | RightResize | DragMove

definition inDragZones :: "rect \<Rightarrow> int \<times> int \<Rightarrow> bool" where
  "inDragZones w p \<longleftrightarrow>
     r_contains (mk_rect (r_left w + DRAG_ZONE_LEFT_MARGIN) (r_top w)
       (r_right w - DRAG_ZONE1_RIGHT_MARGIN) (r_top w + DRAG_ZONE1_HEIGHT)) p \<or>
     r_contains (mk_rect (r_left w + DRAG_ZONE_LEFT_MARGIN) (r_top w)
       (r_right w - DRAG_ZONE2_RIGHT_MARGIN) (r_top w + DRAG_ZONE1_HEIGHT + DRAG_ZONE2_HEIGHT)) p"

definition getResizeState :: "rect \<Rightarrow> bool \<Rightarrow> int \<times> int \<Rightarrow> resize_state" where
  "getResizeState r maximised p =
     (if maximised then IdleResize
      else if r_contains (mk_rect (r_left r) (r_top r) (r_right r) (r_top r + RESIZE_ZONE)) p
      then TopResize
      else if r_contains (mk_rect (r_left r) (r_bottom r - RESIZE_ZONE) (r_right r) (r_bottom r)) p
      then BottomResize
      else if r_contains (mk_rect (r_right r - RESIZE_ZONE) (r_top r) (r_right r) (r_bottom r)) p
      then RightResize
      else if r_contains (mk_rect (r_left r) (r_top r) (r_left r + RESIZE_ZONE) (r_bottom r)) p
      then LeftResize
      else if inDragZones r p then DragMove
      else IdleResize)"

subsection \<open>Events\<close>

datatype key = KeyReturn | KeyEnter | KeyLeft | KeyRight | KeyUp | KeyDown | KeySpace | KeyEscape | KeyOther

datatype app_state = AppInactive | AppHidden | AppSuspended | AppActive

datatype win_state = WinMinimized | WinActive | WinMaximized | WinFullScreen | WinNoState | WinOther

datatype cursor = SizeVer | SizeHor | SizeAll

datatype 't win_event =
    AppStateChange app_state
  | WinStateChange win_state
  | DblClick bool bool bool "int \<times> int"
  | MousePress bool "int \<times> int"
  | MouseRelease
  | DragEnter bool
  | DropData "'t option"
  | KeyPress key
  | MouseMove "int \<times> int"
  | OtherEvent

datatype 't win_out =
    AppActiveSignal bool
  | ToggleMaximize
  | SetCursor cursor
  | RestoreCursor
  | TorrentDropped 't
  | KeySignal key
  | MouseMovedSignal

record win =
  w_geom :: rect
  w_state :: resize_state
  w_click :: "int \<times> int"
  w_player :: bool
  w_max :: bool
  w_minSize :: "int \<times> int"
  w_maxSize :: "int \<times> int"

text \<open>\<^verbatim>\<open>size().boundedTo(max).expandedTo(min) == size()\<close>\<close>

definition size_allowed :: "win \<Rightarrow> rect \<Rightarrow> bool" where
  "size_allowed s r \<longleftrightarrow>
     max (min (r_width r) (fst (w_maxSize s))) (fst (w_minSize s)) = r_width r \<and>
     max (min (r_height r) (snd (w_maxSize s))) (snd (w_minSize s)) = r_height r"

definition moved_geom :: "resize_state \<Rightarrow> int \<Rightarrow> int \<Rightarrow> rect \<Rightarrow> rect" where
  "moved_geom st dx dy g =
     (case st of
        TopResize \<Rightarrow> g\<lparr>r_top := r_top g + dy\<rparr>
      | BottomResize \<Rightarrow> g\<lparr>r_bottom := r_bottom g + dy\<rparr>
      | LeftResize \<Rightarrow> g\<lparr>r_left := r_left g + dx\<rparr>
      | RightResize \<Rightarrow> g\<lparr>r_right := r_right g + dx\<rparr>
      | DragMove \<Rightarrow> mk_rect (r_left g + dx) (r_top g + dy) (r_right g + dx) (r_bottom g + dy)
      | IdleResize \<Rightarrow> g)"

text \<open>The cursor over a zone, and whether the event is consumed.\<close>

definition hover :: "resize_state \<Rightarrow> 't win_out \<times> bool" where
  "hover st =
     (case st of
        TopResize \<Rightarrow> (SetCursor SizeVer, True)
      | BottomResize \<Rightarrow> (SetCursor SizeVer, True)
      | LeftResize \<Rightarrow> (SetCursor SizeHor, True)
      | RightResize \<Rightarrow> (SetCursor SizeHor, True)
      | DragMove \<Rightarrow> (SetCursor SizeAll, True)
      | IdleResize \<Rightarrow> (RestoreCursor, False))"

definition mouse_move :: "int \<times> int \<Rightarrow> win \<Rightarrow> win \<times> 't win_out list \<times> bool" where
  "mouse_move p s =
     (let dx = fst p - fst (w_click s); dy = snd p - snd (w_click s)
      in if w_state s = IdleResize
         then (let (x, used) = hover (getResizeState (w_geom s) (w_max s) p)
               in (s, [MouseMovedSignal, x], used))
         else
           (let g = moved_geom (w_state s) dx dy (w_geom s)
            in if size_allowed s g then (s\<lparr>w_geom := g, w_click := p\<rparr>, [MouseMovedSignal], True)
               else (s, [MouseMovedSignal], True)))"

text \<open>\<^verbatim>\<open>eventFilter\<close>: the new state, what is emitted, and whether the event is consumed.\<close>

fun eventFilter :: "'t win_event \<Rightarrow> win \<Rightarrow> win \<times> 't win_out list \<times> bool" where
  "eventFilter (AppStateChange a) s =
     (if w_player s then (s, [], False) else (s, [AppActiveSignal (a = AppActive)], False))"
| "eventFilter (WinStateChange a) s =
     (if w_player s then (s, [], False)
      else (s, (if a = WinMinimized then [AppActiveSignal False]
                else if a = WinOther then [] else [AppActiveSignal True]), False))"
| "eventFilter (DblClick on_window on_video left p) s =
     (if on_window then (s, [], False)
      else if \<not> left \<or> \<not> inDragZones (w_geom s) p \<and> \<not> (w_player s \<and> \<not> on_video) then (s, [], False)
      else (s, [ToggleMaximize], True))"
| "eventFilter (MousePress left p) s =
     (if \<not> left then (s, [], False)
      else
        (let st = getResizeState (w_geom s) (w_max s) p
         in (s\<lparr>w_state := st, w_click := p\<rparr>, [], st \<noteq> IdleResize)))"
| "eventFilter MouseRelease s =
     (if w_state s = IdleResize then (s, [], False)
      else (s\<lparr>w_state := IdleResize\<rparr>, [RestoreCursor], True))"
| "eventFilter (DragEnter acceptable) s = (s, [], \<not> w_player s \<and> acceptable)"
| "eventFilter (DropData info) s =
     (if w_player s then (s, [], False)
      else (case info of None \<Rightarrow> (s, [], False) | Some t \<Rightarrow> (s, [TorrentDropped t], True)))"
| "eventFilter (KeyPress k) s =
     (if \<not> w_player s \<or> k = KeyOther then (s, [], False) else (s, [KeySignal k], True))"
| "eventFilter (MouseMove p) s = mouse_move p s"
| "eventFilter OtherEvent s = (s, [], False)"

fun win_run :: "'t win_event list \<Rightarrow> win \<Rightarrow> win" where
  "win_run [] s = s"
| "win_run (e # es) s = win_run es (fst (eventFilter e s))"

lemma size_allowed_iff:
  assumes "fst (w_minSize s) \<le> fst (w_maxSize s)" "snd (w_minSize s) \<le> snd (w_maxSize s)"
  shows "size_allowed s r \<longleftrightarrow> fst (w_minSize s) \<le> r_width r \<and> r_width r \<le> fst (w_maxSize s) \<and>
    snd (w_minSize s) \<le> r_height r \<and> r_height r \<le> snd (w_maxSize s)"
  using assms by (auto simp: size_allowed_def)

lemma eventFilter_geom:
  "w_geom (fst (eventFilter e s)) = w_geom s \<or> size_allowed s (w_geom (fst (eventFilter e s)))"
  "w_minSize (fst (eventFilter e s)) = w_minSize s" "w_maxSize (fst (eventFilter e s)) = w_maxSize s"
  by (cases e; simp add: mouse_move_def Let_def size_allowed_def split: prod.split option.split)+

text \<open>
  No sequence of events makes the window smaller than its minimum size or larger than its
  maximum.
\<close>

theorem window_size_bounds:
  assumes "fst (w_minSize s) \<le> r_width (w_geom s)" "r_width (w_geom s) \<le> fst (w_maxSize s)"
    and "snd (w_minSize s) \<le> r_height (w_geom s)" "r_height (w_geom s) \<le> snd (w_maxSize s)"
  shows "let g = w_geom (win_run es s)
    in fst (w_minSize s) \<le> r_width g \<and> r_width g \<le> fst (w_maxSize s) \<and>
       snd (w_minSize s) \<le> r_height g \<and> r_height g \<le> snd (w_maxSize s)"
  using assms
proof (induction es arbitrary: s)
  case (Cons e es)
  let ?t = "fst (eventFilter e s)"
  have b: "fst (w_minSize s) \<le> fst (w_maxSize s)" "snd (w_minSize s) \<le> snd (w_maxSize s)"
    using Cons.prems by simp_all
  from eventFilter_geom(1) [of e s] Cons.prems
  have "fst (w_minSize s) \<le> r_width (w_geom ?t) \<and> r_width (w_geom ?t) \<le> fst (w_maxSize s) \<and>
      snd (w_minSize s) \<le> r_height (w_geom ?t) \<and> r_height (w_geom ?t) \<le> snd (w_maxSize s)"
    by (auto simp: size_allowed_iff [OF b])
  with Cons.IH [of ?t] show ?case by (simp add: eventFilter_geom)
qed simp

definition demo_win :: "resize_state \<Rightarrow> win" where
  "demo_win st = \<lparr>w_geom = mk_rect 100 100 1199 717, w_state = st, w_click = (300, 110),
     w_player = False, w_max = False, w_minSize = (800, 330), w_maxSize = (16777215, 16777215)\<rparr>"

lemma window_size_bounds_witness:
  "let g = w_geom (win_run [MousePress True (100, 400), MouseMove (1000, 400)] (demo_win IdleResize))
   in 800 \<le> r_width g \<and> r_width g \<le> 16777215 \<and> 330 \<le> r_height g \<and> r_height g \<le> 16777215"
  using window_size_bounds [of "demo_win IdleResize" "[MousePress True (100, 400), MouseMove (1000, 400)]"]
  by (simp add: demo_win_def mk_rect_def r_width_def r_height_def)

lemma mouse_move_drag:
  assumes "w_state s = DragMove" "size_allowed s (w_geom s)"
  shows "fst (mouse_move p s) = s\<lparr>w_click := p,
    w_geom := mk_rect (r_left (w_geom s) + (fst p - fst (w_click s)))
      (r_top (w_geom s) + (snd p - snd (w_click s)))
      (r_right (w_geom s) + (fst p - fst (w_click s)))
      (r_bottom (w_geom s) + (snd p - snd (w_click s)))\<rparr>"
  using assms
  by (simp add: mouse_move_def moved_geom_def Let_def size_allowed_def r_width_def r_height_def mk_rect_def)

text \<open>
  While the window is dragged it follows the pointer exactly: after any moves of the mouse the
  window is where the pointer's total way takes it, with its size unchanged.
\<close>

theorem drag_follows_pointer:
  assumes "w_state s = DragMove" "size_allowed s (w_geom s)"
  shows "w_geom (win_run (map MouseMove (ps @ [p])) s) =
    mk_rect (r_left (w_geom s) + (fst p - fst (w_click s))) (r_top (w_geom s) + (snd p - snd (w_click s)))
      (r_right (w_geom s) + (fst p - fst (w_click s))) (r_bottom (w_geom s) + (snd p - snd (w_click s)))"
  using assms
proof (induction ps arbitrary: s)
  case Nil
  then show ?case by (simp add: mouse_move_drag)
next
  case (Cons q ps)
  define t where "t = s\<lparr>w_click := q,
    w_geom := mk_rect (r_left (w_geom s) + (fst q - fst (w_click s)))
      (r_top (w_geom s) + (snd q - snd (w_click s)))
      (r_right (w_geom s) + (fst q - fst (w_click s)))
      (r_bottom (w_geom s) + (snd q - snd (w_click s)))\<rparr>"
  have "w_state t = DragMove" "size_allowed t (w_geom t)"
    using Cons.prems by (simp_all add: t_def size_allowed_def mk_rect_def r_width_def r_height_def)
  from Cons.IH [OF this] show ?case
    by (simp add: mouse_move_drag [OF Cons.prems, of q, folded t_def])
      (simp add: t_def mk_rect_def)
qed

lemma drag_follows_pointer_witness:
  "w_geom (win_run (map MouseMove ([(5, 5)] @ [(310, 140)])) (demo_win DragMove)) =
   mk_rect 110 130 1209 747"
proof -
  have "size_allowed (demo_win DragMove) (w_geom (demo_win DragMove))" by code_simp
  moreover have "w_state (demo_win DragMove) = DragMove" by (simp add: demo_win_def)
  ultimately show ?thesis
    using drag_follows_pointer [of "demo_win DragMove" "[(5, 5)]" "(310, 140)"]
    by (simp add: demo_win_def mk_rect_def)
qed

subsection \<open>gui/ControlRevealer.cpp\<close>

record revealer =
  rv_enabled :: bool
  rv_permanent :: "32 word"
  rv_timer :: bool

datatype reveal_out = Revealed | Concealed

type_synonym rv_act = "(revealer, reveal_out) act"

definition revealer_init :: revealer where
  "revealer_init = \<lparr>rv_enabled = False, rv_permanent = 0, rv_timer = False\<rparr>"

definition set_timer :: "bool \<Rightarrow> rv_act" where
  "set_timer b = modify (\<lambda>s. s\<lparr>rv_timer := b\<rparr>)"

definition rv_conceal :: rv_act where
  "rv_conceal = acts [set_timer False, emit Concealed]"

definition temporaryReveal :: rv_act where
  "temporaryReveal = with_state (\<lambda>s.
     if rv_permanent s \<noteq> 0 \<or> \<not> rv_enabled s then skip_act
     else if rv_timer s then set_timer True
     else acts [set_timer True, emit Revealed])"

definition enableReveal :: rv_act where
  "enableReveal = acts
     [modify (\<lambda>s. s\<lparr>rv_enabled := True, rv_permanent := 0\<rparr>), temporaryReveal]"

definition disableReveal :: rv_act where
  "disableReveal = acts [modify (\<lambda>s. s\<lparr>rv_enabled := False\<rparr>), rv_conceal]"

definition startPermanentReveal :: rv_act where
  "startPermanentReveal = acts
     [set_timer False,
      modify (\<lambda>s. s\<lparr>rv_permanent := rv_permanent s + 1\<rparr>),
      with_state (\<lambda>s. when_act (rv_enabled s) (emit Revealed))]"

definition stopPermanentReveal :: rv_act where
  "stopPermanentReveal = acts
     [with_state (\<lambda>s. when_act (rv_permanent s \<noteq> 0)
        (modify (\<lambda>s. s\<lparr>rv_permanent := rv_permanent s - 1\<rparr>))),
      with_state (\<lambda>s. when_act (rv_permanent s = 0 \<and> rv_enabled s) (set_timer True))]"

definition onTimeout :: rv_act where
  "onTimeout = acts [set_timer False, rv_conceal]"

datatype rv_event = Enable | Disable | Temporary | StartPermanent | StopPermanent | Timeout

text \<open>The timer fires only while it runs.\<close>

fun rv_handle :: "rv_event \<Rightarrow> rv_act" where
  "rv_handle Enable = enableReveal"
| "rv_handle Disable = disableReveal"
| "rv_handle Temporary = temporaryReveal"
| "rv_handle StartPermanent = startPermanentReveal"
| "rv_handle StopPermanent = stopPermanentReveal"
| "rv_handle Timeout = with_state (\<lambda>s. when_act (rv_timer s) onTimeout)"

text \<open>What the user sees: the last signal, starting from \<open>v\<close>.\<close>

fun visible :: "bool \<Rightarrow> reveal_out list \<Rightarrow> bool" where
  "visible v [] = v"
| "visible v (x # xs) = visible (x = Revealed) xs"

lemma visible_append [simp]: "visible v (xs @ ys) = visible (visible v xs) ys"
  by (induction xs arbitrary: v) simp_all

definition rv_inv :: "nat \<Rightarrow> bool \<Rightarrow> revealer \<Rightarrow> bool" where
  "rv_inv n v s \<longleftrightarrow> unat (rv_permanent s) \<le> n \<and>
     (if rv_permanent s = 0 then (v \<longrightarrow> rv_timer s) \<and> (rv_timer s \<longrightarrow> rv_enabled s)
      else \<not> rv_timer s \<and> v = rv_enabled s)"

lemmas rv_defs = enableReveal_def disableReveal_def temporaryReveal_def startPermanentReveal_def
  stopPermanentReveal_def onTimeout_def rv_conceal_def set_timer_def

lemma unat_inc:
  assumes "unat (x :: 32 word) \<le> n" "Suc n < 2 ^ 32"
  shows "unat (x + 1) \<le> Suc n" "x + 1 \<noteq> 0"
proof -
  have "unat x + unat (1 :: 32 word) < 2 ^ LENGTH(32)" using assms by simp
  then have e: "unat (x + 1) = unat x + unat (1 :: 32 word)" by (rule unat_add_lem [THEN iffD1])
  with assms(1) show "unat (x + 1) \<le> Suc n" by simp
  show "x + 1 \<noteq> 0"
  proof
    assume "x + 1 = 0"
    then have "unat (x + 1) = unat (0 :: 32 word)" by (rule arg_cong)
    with e show False by (metis add_is_0 unat_0 unat_1 one_neq_zero)
  qed
qed

lemma unat_dec: "unat (x :: 32 word) \<le> n \<Longrightarrow> x \<noteq> 0 \<Longrightarrow> unat (x - 1) \<le> n"
  by (simp add: unat_minus_one)

lemma rv_handle_eqs:
  "temporaryReveal s =
     (if rv_permanent s \<noteq> 0 \<or> \<not> rv_enabled s then (s, [])
      else (s\<lparr>rv_timer := True\<rparr>, if rv_timer s then [] else [Revealed]))"
  "enableReveal s = (s\<lparr>rv_enabled := True, rv_permanent := 0, rv_timer := True\<rparr>,
     if rv_timer s then [] else [Revealed])"
  "disableReveal s = (s\<lparr>rv_enabled := False, rv_timer := False\<rparr>, [Concealed])"
  "startPermanentReveal s = (s\<lparr>rv_permanent := rv_permanent s + 1, rv_timer := False\<rparr>,
     if rv_enabled s then [Revealed] else [])"
  "onTimeout s = (s\<lparr>rv_timer := False\<rparr>, [Concealed])"
  by (simp_all add: rv_defs)

lemma stopPermanentReveal_eq:
  "stopPermanentReveal s =
     (let t = s\<lparr>rv_permanent := (if rv_permanent s = 0 then 0 else rv_permanent s - 1)\<rparr>
      in (if rv_permanent t = 0 \<and> rv_enabled t then t\<lparr>rv_timer := True\<rparr> else t, []))"
  by (simp add: rv_defs Let_def when_act_eq)

lemma rv_handle_inv:
  assumes "rv_inv n v s" "Suc n < 2 ^ 32"
  shows "rv_inv (Suc n) (visible v (snd (rv_handle e s))) (fst (rv_handle e s))"
proof -
  have le: "unat (rv_permanent s) \<le> n" using assms(1) by (simp add: rv_inv_def)
  note rules = rv_inv_def rv_handle_eqs stopPermanentReveal_eq Let_def when_act_eq
  show ?thesis
  proof (cases e)
    case StartPermanent
    with assms(1) unat_inc [OF le assms(2)] show ?thesis
      by (cases "rv_enabled s"; cases "rv_permanent s = 0") (simp_all add: rules)
  next
    case StopPermanent
    with assms(1) le unat_dec [OF le] show ?thesis
      by (cases "rv_permanent s = 0"; cases "rv_enabled s"; cases "rv_timer s")
        (auto simp: rules)
  qed (use assms(1) le in
    \<open>cases "rv_enabled s"; cases "rv_timer s"; cases "rv_permanent s = 0"; simp add: rules\<close>)+
qed

text \<open>
  In every run of fewer than \<open>2^32\<close> calls the controls are shown only while revealing is
  enabled, they are shown as long as something holds them, and otherwise, whenever they are shown,
  the timer that hides them is running.
\<close>

theorem controls_shown:
  assumes "length es < 2 ^ 32 - 1"
  shows "let (s, outs) = acts (map rv_handle es) revealer_init; v = visible False outs
    in (v \<longrightarrow> rv_enabled s) \<and>
       (if rv_permanent s = 0 then v \<longrightarrow> rv_timer s else v = rv_enabled s)"
proof -
  have "rv_inv (n + length es) (visible v (snd (acts (map rv_handle es) s))) (fst (acts (map rv_handle es) s))"
    if "rv_inv n v s" "n + length es < 2 ^ 32" for n v s
    using that
  proof (induction es arbitrary: n v s)
    case (Cons e es)
    then have "rv_inv (Suc n) (visible v (snd (rv_handle e s))) (fst (rv_handle e s))"
      by (intro rv_handle_inv) simp_all
    from Cons.IH [OF this] Cons.prems(2) show ?case
      by (simp add: fst_acts snd_acts del: acts.simps(2))
  qed simp
  from this [of 0 False revealer_init] assms
  have "rv_inv (length es) (visible False (snd (acts (map rv_handle es) revealer_init)))
      (fst (acts (map rv_handle es) revealer_init))"
    by (simp add: rv_inv_def revealer_init_def)
  then show ?thesis by (auto simp: rv_inv_def split_beta Let_def)
qed

lemma controls_shown_witness:
  "let (s, outs) = acts (map rv_handle [Enable, StartPermanent, Disable]) revealer_init;
       v = visible False outs
   in (v \<longrightarrow> rv_enabled s) \<and>
      (if rv_permanent s = 0 then v \<longrightarrow> rv_timer s else v = rv_enabled s)"
  by (rule controls_shown) simp

text \<open>
  A stop without a start, as the end of a hold that \<^verbatim>\<open>enableReveal\<close> has forgotten, leaves hidden
  controls with a running timer: until it fires, no move of the mouse shows them.
\<close>

theorem stray_stop_hides:
  assumes "rv_enabled s" "rv_permanent s = 0" "\<not> rv_timer s"
  shows "snd (acts (stopPermanentReveal # replicate k temporaryReveal) s) = []"
proof -
  let ?t = "s\<lparr>rv_timer := True\<rparr>"
  have "temporaryReveal ?t = (?t, [])"
    using assms by (simp add: temporaryReveal_def set_timer_def)
  then have "acts (replicate k temporaryReveal) ?t = (?t, [])" by (induction k) simp_all
  moreover have "stopPermanentReveal s = (?t, [])"
    using assms by (simp add: stopPermanentReveal_def set_timer_def)
  ultimately show ?thesis by simp
qed

lemma stray_stop_hides_witness:
  "snd (acts (stopPermanentReveal # replicate 9 temporaryReveal)
     (fst (acts [enableReveal, onTimeout] revealer_init))) = []"
  by (rule stray_stop_hides) (simp_all add: rv_defs revealer_init_def)

end
