(* ===== verification/HostBridge.thy ===== *)
theory HostBridge
  imports TorrentWrapper Float24
begin

section \<open>gui/hostApp.cpp, gui/config.cpp, gui/DropHandler.cpp and gui/Zoom4k.cpp\<close>

text \<open>
  \<^verbatim>\<open>HostApp\<close> answers the messages of the page in the build with a web engine: its settings, the calls
  it passes to the torrent engine and the scripts it runs. \<^verbatim>\<open>AppConfig\<close> keeps the proxies and looks for
  one that works. \<^verbatim>\<open>DropHandler\<close> reads what is dropped on the window. The parsers of Qt (numbers, JSON,
  URLs), the dialogs and the file system are arguments.
\<close>

subsection \<open>gui/Zoom4k.cpp\<close>

record zoom4k =
  zm_percent :: int
  zm_width :: int
  zm_4k :: bool

definition zoom4k_init :: zoom4k where
  "zoom4k_init = \<lparr>zm_percent = - 1, zm_width = 0, zm_4k = False\<rparr>"

definition FHD :: int where "FHD = 1920"
definition UHD :: int where "UHD = 3840"

text \<open>
  \<^verbatim>\<open>uhdRatio\<close> is \<open>9898557 / 2^22\<close> and \<^verbatim>\<open>hdRatio\<close> is 1, so their difference is \<open>5704253 / 2^22\<close>; the
  quotient is scaled by \<open>2^83\<close>.
\<close>

definition zoom_between :: "int \<Rightarrow> int" where
  "zoom_between width =
     (let q = fl_div (fl24 ((width - FHD) * 5704253)) (UHD - FHD)
      in fl24 (fl24 (q + 2 ^ 83) * 100) div 2 ^ 83)"

definition zoom_calculate :: "int \<Rightarrow> zoom4k \<Rightarrow> zoom4k" where
  "zoom_calculate width z =
     (if zm_width z = width then z
      else \<lparr>zm_percent = (if UHD \<le> width then 200 else if FHD < width then zoom_between width else 100),
            zm_width = width, zm_4k = 3500 \<le> width\<rparr>)"

definition zoomFactorInt :: "zoom4k \<Rightarrow> int" where
  "zoomFactorInt z = zm_percent z sdiv 100"

subsection \<open>State and calls\<close>

datatype setting = SetInt int | SetBool bool | SetText bytes

datatype 'n host_out =
    ExecJs bytes
  | EngineInit bytes bool
  | EngineGet "'n torrent_info"
  | EngineCancel int
  | ToggledMaximize
  | CommandedMinimize
  | CommandedClose
  | CommandedClosePlayer
  | FontSizeChanged int
  | SubThumbRequest bytes
  | OpenUrl bytes
  | VpnStatusCommand
  | VpnConnectCommand
  | VpnDisconnectCommand
  | After int bytes

record host =
  h_downloadDir :: bytes
  h_cleanOnExit :: bool
  h_fontSize :: int
  h_settings :: "bytes \<rightharpoonup> setting"
  h_vpnLast :: bool
  h_zoom :: zoom4k

type_synonym 'n host_act = "(host, 'n host_out) act"

record 'n host_env =
  he_toInt :: "bytes \<Rightarrow> int option"
  he_parse :: "bytes \<Rightarrow> 'n jobj"
  he_numInt :: "'n json \<Rightarrow> int"
  he_base64 :: "bytes \<Rightarrow> bytes"
  he_home :: bytes
  he_dialog :: bytes
  he_width :: int
  he_vpnInstalled :: bool
  he_raw :: int

definition SETTINGS_KEY_DOWNLOAD_DIR :: bytes where "SETTINGS_KEY_DOWNLOAD_DIR = ''DownloadDir''"
definition SETTINGS_KEY_CLEAN_ON_EXIT :: bytes where "SETTINGS_KEY_CLEAN_ON_EXIT = ''CleanOnExit''"
definition SETTINGS_KEY_FONT_SIZE :: bytes where "SETTINGS_KEY_FONT_SIZE = ''FontSize''"
definition SETTINGS_KEY_VOLUME :: bytes where "SETTINGS_KEY_VOLUME = ''Volume''"

definition setValue :: "bytes \<Rightarrow> setting \<Rightarrow> 'n host_act" where
  "setValue k v = modify (\<lambda>s. s\<lparr>h_settings := (h_settings s)(k \<mapsto> v)\<rparr>)"

definition text_value :: "bytes \<Rightarrow> host \<Rightarrow> bytes" where
  "text_value k s =
     (case h_settings s k of
        Some (SetText t) \<Rightarrow> t
      | Some (SetInt i) \<Rightarrow> int_str i
      | Some (SetBool b) \<Rightarrow> (if b then ''true'' else ''false'')
      | None \<Rightarrow> [])"

definition getVolume :: "(bytes \<Rightarrow> int option) \<Rightarrow> host \<Rightarrow> int" where
  "getVolume toInt s =
     (case h_settings s SETTINGS_KEY_VOLUME of
        None \<Rightarrow> 100
      | Some (SetInt i) \<Rightarrow> i
      | Some (SetBool b) \<Rightarrow> (if b then 1 else 0)
      | Some (SetText t) \<Rightarrow> (case toInt t of None \<Rightarrow> 0 | Some i \<Rightarrow> i))"

subsection \<open>Slots\<close>

text \<open>A text between apostrophes.\<close>

definition apos :: "bytes \<Rightarrow> bytes" where
  "apos t = CHR 0x27 # t @ [CHR 0x27]"

definition host_setVolume :: "int \<Rightarrow> 'n host_act" where
  "host_setVolume v = setValue SETTINGS_KEY_VOLUME (SetInt v)"

definition vpnConnected :: "'n host_act" where
  "vpnConnected = emit (ExecJs ''app.config.hostApp.isVpnConnected=true;app.vpn.connected();'')"

definition vpnDisconnected :: "'n host_act" where
  "vpnDisconnected = emit (ExecJs ''app.config.hostApp.isVpnConnected=false;app.vpn.disconnected();'')"

definition hideLoading :: "'n host_act" where
  "hideLoading = emit (ExecJs ''ui.loading_wrapper.hide(true);'')"

definition showLoading :: "'n host_act" where
  "showLoading = emit (ExecJs (''app.state='' @ apos ''movie'' @ '';ui.loading_wrapper.show();''))"

definition updateTorrentProgress :: "int \<Rightarrow> int \<Rightarrow> int \<Rightarrow> int \<Rightarrow> bytes \<Rightarrow> 'n host_act" where
  "updateTorrentProgress progressPeers dlSpeed seedCount peerCount msg =
     emit (ExecJs (''app.torrent.updateInfo('' @ int_str progressPeers @ '','' @ int_str dlSpeed @ '','' @
       int_str seedCount @ '','' @ int_str peerCount @ '',\"'' @ msg @ ''\")''))"

definition setTorrentIndex :: "int \<Rightarrow> 'n host_act" where
  "setTorrentIndex index =
     emit (ExecJs (''app.torrent.current_torrent_id='' @ int_str index @ '';''))"

definition setAnimations :: "bool \<Rightarrow> 'n host_act" where
  "setAnimations anim =
     emit (ExecJs (''ui.disableAnimations( '' @ int_str (if anim then 0 else 1) @ '' );''))"

definition sendWinAction :: "bytes \<Rightarrow> 'n host_act" where
  "sendWinAction str =
     (if str = ''max'' then emit ToggledMaximize
      else if str = ''min'' then emit CommandedMinimize
      else if str = ''close'' then emit CommandedClose
      else skip_act)"

definition getTorrent_session :: "'n host_env \<Rightarrow> bytes \<Rightarrow> 'n host_act" where
  "getTorrent_session env session =
     (let jObj = he_parse env session
      in if jObj = [] then skip_act else emit (EngineGet (torrentInfo_json (he_raw env) jObj)))"

definition getTorrent_url :: "bytes \<Rightarrow> bytes \<Rightarrow> 'n host_act" where
  "getTorrent_url url fileName =
     (if take 6 url = ''magnet'' then emit (EngineGet (torrentInfo_strings [] url fileName []))
      else emit (EngineGet (torrentInfo_strings url [] fileName [])))"

definition cancelTorrent_index :: "int \<Rightarrow> 'n host_act" where
  "cancelTorrent_index index = emit (EngineCancel index)"

definition cancelTorrent_text :: "'n host_env \<Rightarrow> bytes \<Rightarrow> 'n host_act" where
  "cancelTorrent_text env txt =
     (case he_toInt env txt of None \<Rightarrow> skip_act | Some i \<Rightarrow> cancelTorrent_index i)"

definition checkVpnInstalled :: "'n host_env \<Rightarrow> 'n host_act" where
  "checkVpnInstalled env = acts
     [emit (ExecJs (''app.config.hostApp.vpnInstalled('' @
        int_str (if he_vpnInstalled env then 1 else 0) @ '');'')),
      emit VpnStatusCommand]"

definition host_setConfig :: "'n host_env \<Rightarrow> 'n host_act" where
  "host_setConfig env = acts [emit (ExecJs ''hostApp.setConfigVars();''), checkVpnInstalled env]"

definition engine_dir :: "bytes \<Rightarrow> bytes" where
  "engine_dir dir = dir @ ''/PopcornTime''"

definition engine_init :: "'n host_act" where
  "engine_init = with_state (\<lambda>s. emit (EngineInit (engine_dir (h_downloadDir s)) (h_cleanOnExit s)))"

definition setConfigVars :: "'n host_env \<Rightarrow> bytes \<Rightarrow> 'n host_act" where
  "setConfigVars env vars = acts
     [modify (\<lambda>s. s\<lparr>h_zoom := zoom_calculate (he_width env) (h_zoom s)\<rparr>),
      with_state (\<lambda>s. emit (ExecJs (''document.body.style.zoom='' @ apos (int_str (zm_percent (h_zoom s)) @ ''%'')))),
      (let jObj = he_parse env vars
       in if jObj = [] then skip_act
          else acts
            [modify (\<lambda>s. s\<lparr>h_downloadDir := to_string [] (obj_value ''tempPath'' jObj)\<rparr>),
             with_state (\<lambda>s. when_act (h_downloadDir s = []) (acts
               [modify (\<lambda>s. s\<lparr>h_downloadDir := text_value SETTINGS_KEY_DOWNLOAD_DIR s\<rparr>),
                with_state (\<lambda>s. when_act (h_downloadDir s = [])
                  (modify (\<lambda>s. s\<lparr>h_downloadDir := he_home env @ ''/Downloads''\<rparr>))),
                with_state (\<lambda>s. emit (ExecJs (''app.config.hostApp.tempPath='' @ apos (h_downloadDir s) @
                  '';app.config.updateView();'')))])),
             modify (\<lambda>s. s\<lparr>h_fontSize := he_numInt env (obj_value ''subsFontSize'' jObj)\<rparr>),
             with_state (\<lambda>s. when_act (h_fontSize s < - 2 \<or> 2 < h_fontSize s) (acts
               [modify (\<lambda>s. s\<lparr>h_fontSize := 0\<rparr>),
                emit (ExecJs ''app.config.hostApp.subsFontSize=0;'')])),
             with_state (\<lambda>s. emit (FontSizeChanged (h_fontSize s))),
             modify (\<lambda>s. s\<lparr>h_cleanOnExit := to_bool False (obj_value ''cleanOnExit'' jObj)\<rparr>),
             engine_init])]"

definition setTempPath :: "'n host_env \<Rightarrow> bytes \<Rightarrow> 'n host_act" where
  "setTempPath env callback =
     (if he_dialog env = [] then skip_act
      else acts
        [modify (\<lambda>s. s\<lparr>h_downloadDir := he_dialog env\<rparr>),
         with_state (\<lambda>s. emit (ExecJs (''app.config.hostApp.tempPath='' @ apos (h_downloadDir s) @ '';''))),
         when_act (callback \<noteq> []) (emit (ExecJs callback)),
         engine_init])"

definition host_setCleanOnExit :: "bytes \<Rightarrow> 'n host_act" where
  "host_setCleanOnExit isClear = acts
     [modify (\<lambda>s. s\<lparr>h_cleanOnExit := isClear = ''true'' \<or> isClear = ''1''\<rparr>),
      with_state (\<lambda>s. setValue SETTINGS_KEY_CLEAN_ON_EXIT (SetBool (h_cleanOnExit s)))]"

definition setUserFontSize :: "'n host_env \<Rightarrow> bytes \<Rightarrow> 'n host_act" where
  "setUserFontSize env txt = acts
     [modify (\<lambda>s. s\<lparr>h_fontSize := (case he_toInt env txt of None \<Rightarrow> 0 | Some i \<Rightarrow> i)\<rparr>),
      modify (\<lambda>s. if 2 < h_fontSize s then s\<lparr>h_fontSize := 2\<rparr> else s),
      modify (\<lambda>s. if h_fontSize s < - 2 then s\<lparr>h_fontSize := - 2\<rparr> else s),
      with_state (\<lambda>s. emit (FontSizeChanged (h_fontSize s))),
      with_state (\<lambda>s. setValue SETTINGS_KEY_FONT_SIZE (SetInt (h_fontSize s)))]"

definition openTempDir :: "'n host_act" where
  "openTempDir = with_state (\<lambda>s. emit (OpenUrl (''file:///'' @ h_downloadDir s)))"

definition settingsLoad :: "'n host_env \<Rightarrow> bytes \<Rightarrow> 'n host_act" where
  "settingsLoad env callback = with_state (\<lambda>s.
     emit (ExecJs (callback @ ''(\"'' @ he_base64 env (text_value ''configuration'' s) @ ''\")'')))"

definition settingsSave :: "bytes \<Rightarrow> 'n host_act" where
  "settingsSave d = setValue ''configuration'' (SetText d)"

definition host_timerEvent :: "'n host_env \<Rightarrow> 'n host_act" where
  "host_timerEvent env = acts
     [with_state (\<lambda>s. when_act (h_vpnLast s \<noteq> he_vpnInstalled env) (checkVpnInstalled env)),
      modify (\<lambda>s. s\<lparr>h_vpnLast := he_vpnInstalled env\<rparr>),
      emit (After 5000 ''timerEvent'')]"

definition attachObject :: "'n host_act" where
  "attachObject = acts [emit (After 1000 ''setConfig''), emit (After 1500 ''initCompleted'')]"

subsection \<open>Messages of the page\<close>

text \<open>
  \<^verbatim>\<open>indexOfMethod\<close> knows the signals and slots of \<^verbatim>\<open>hostApp.h\<close>, the private ones too. The first table
  holds those that take one string, the second those without parameters.
\<close>

definition string_methods :: "bytes list" where
  "string_methods =
     [''sendWinAction'', ''getTorrent'', ''url_request'', ''cancelTorrent'', ''setConfig'',
      ''setConfigVars'', ''setTempPath'', ''setCleanOnExit'', ''setUserFontSize'', ''openBrowser'',
      ''settingsLoad'', ''settingsSave'', ''subThumbRequest'']"

definition plain_methods :: "bytes list" where
  "plain_methods =
     [''vpn_connect'', ''vpn_disconnect'', ''vpn_isConnected'', ''setConfig'', ''getTempPath'', ''setTempPath'',
      ''OpenTempDir'', ''getUserFontSize'', ''closePlayer'', ''checkVpnInstalled'', ''attachObject'',
      ''cancelTorrent'', ''vpnConnected'', ''vpnDisconnected'', ''hideLoading'', ''commandedMinimize'',
      ''toggledMaximize'', ''commandedClose'', ''commandedClosePlayer'', ''initCompleted'']"

datatype js_call = StringCall bytes bytes | PlainCall bytes | NoMethod

definition dispatch :: "bytes \<Rightarrow> bytes list \<Rightarrow> js_call" where
  "dispatch name args =
     (if name \<in> set string_methods
      then StringCall name (case args of [] \<Rightarrow> [] | a # _ \<Rightarrow> a)
      else if name \<in> set plain_methods then PlainCall name
      else NoMethod)"

definition string_call :: "'n host_env \<Rightarrow> bytes \<Rightarrow> bytes \<Rightarrow> 'n host_act" where
  "string_call env name a =
     (if name = ''sendWinAction'' then sendWinAction a
      else if name = ''getTorrent'' then getTorrent_session env a
      else if name = ''url_request'' \<or> name = ''subThumbRequest'' then emit (SubThumbRequest a)
      else if name = ''cancelTorrent'' then cancelTorrent_text env a
      else if name = ''setConfig'' then host_setConfig env
      else if name = ''setConfigVars'' then setConfigVars env a
      else if name = ''setTempPath'' then setTempPath env a
      else if name = ''setCleanOnExit'' then host_setCleanOnExit a
      else if name = ''setUserFontSize'' then setUserFontSize env a
      else if name = ''openBrowser'' then emit (OpenUrl a)
      else if name = ''settingsLoad'' then settingsLoad env a
      else if name = ''settingsSave'' then settingsSave a
      else skip_act)"

definition plain_call :: "'n host_env \<Rightarrow> bytes \<Rightarrow> 'n host_act" where
  "plain_call env name =
     (if name = ''vpn_connect'' then emit VpnConnectCommand
      else if name = ''vpn_disconnect'' then emit VpnDisconnectCommand
      else if name = ''vpn_isConnected'' then emit VpnStatusCommand
      else if name = ''setConfig'' then host_setConfig env
      else if name = ''setTempPath'' then setTempPath env []
      else if name = ''OpenTempDir'' then openTempDir
      else if name = ''closePlayer'' \<or> name = ''commandedClosePlayer'' then emit CommandedClosePlayer
      else if name = ''checkVpnInstalled'' then checkVpnInstalled env
      else if name = ''attachObject'' then attachObject
      else if name = ''cancelTorrent'' then cancelTorrent_index (- 1)
      else if name = ''vpnConnected'' then vpnConnected
      else if name = ''vpnDisconnected'' then vpnDisconnected
      else if name = ''hideLoading'' then hideLoading
      else if name = ''commandedMinimize'' then emit CommandedMinimize
      else if name = ''toggledMaximize'' then emit ToggledMaximize
      else if name = ''commandedClose'' then emit CommandedClose
      else skip_act)"

definition onJsMessage :: "'n host_env \<Rightarrow> bytes \<Rightarrow> bytes list \<Rightarrow> 'n host_act" where
  "onJsMessage env name args =
     (case dispatch name args of
        StringCall n a \<Rightarrow> string_call env n a
      | PlainCall n \<Rightarrow> plain_call env n
      | NoMethod \<Rightarrow> skip_act)"

definition host_out_ok :: "'n host_out \<Rightarrow> bool" where
  "host_out_ok x =
     (case x of
        FontSizeChanged f \<Rightarrow> - 2 \<le> f \<and> f \<le> 2
      | EngineInit p clean \<Rightarrow> (\<exists>d. d \<noteq> [] \<and> p = engine_dir d)
      | _ \<Rightarrow> True)"

definition ok_outs :: "'n host_act \<Rightarrow> bool" where
  "ok_outs f \<longleftrightarrow> (\<forall>s. list_all host_out_ok (snd (f s)))"

lemma ok_outs_basic [simp]:
  "ok_outs skip_act" "ok_outs (modify g)" "ok_outs (setValue k v)" "ok_outs (emit x) = host_out_ok x"
  by (simp_all add: ok_outs_def setValue_def)

lemma ok_outs_acts [simp]: "list_all ok_outs fs \<Longrightarrow> ok_outs (acts fs)"
proof (induction fs)
  case (Cons f fs)
  then show ?case by (auto simp: ok_outs_def snd_acts simp del: acts.simps(2))
qed simp

lemma ok_outs_when [simp]: "ok_outs f \<Longrightarrow> ok_outs (when_act b f)"
  by (cases b) simp_all

lemma ok_outs_with_state: "(\<And>s. list_all host_out_ok (snd (h s s))) \<Longrightarrow> ok_outs (with_state h)"
  by (simp add: ok_outs_def)

lemma ok_outs_setValue_of: "ok_outs (with_state (\<lambda>s. setValue k (v s)))"
  by (simp add: ok_outs_def setValue_def)

lemma ok_outs_setConfigVars: "ok_outs (setConfigVars env vars)"
  by (simp add: ok_outs_def setConfigVars_def engine_init_def run_simps Let_def del: acts.simps(2))
    (auto simp: host_out_ok_def)

lemma ok_outs_slots:
  "ok_outs (sendWinAction str)" "ok_outs (getTorrent_session env t)" "ok_outs (cancelTorrent_text env t)"
  "ok_outs (host_setConfig env)" "ok_outs (setTempPath env t)" "ok_outs (host_setCleanOnExit t)"
  "ok_outs (setUserFontSize env t)" "ok_outs (settingsLoad env t)" "ok_outs (settingsSave t)"
  "ok_outs (openTempDir)" "ok_outs (checkVpnInstalled env)" "ok_outs attachObject"
  "ok_outs (cancelTorrent_index i)" "ok_outs vpnConnected" "ok_outs vpnDisconnected" "ok_outs hideLoading"
  by (auto simp: ok_outs_def run_simps sendWinAction_def getTorrent_session_def cancelTorrent_text_def
      host_setConfig_def setTempPath_def host_setCleanOnExit_def setUserFontSize_def settingsLoad_def
      settingsSave_def openTempDir_def checkVpnInstalled_def attachObject_def cancelTorrent_index_def
      vpnConnected_def vpnDisconnected_def hideLoading_def setValue_def engine_init_def Let_def
      host_out_ok_def split: option.split simp del: acts.simps(2))

lemma ok_outs_message: "ok_outs (onJsMessage env name args)"
proof -
  have "ok_outs (string_call env n a)" for n a
    unfolding string_call_def by (simp add: ok_outs_slots ok_outs_setConfigVars host_out_ok_def)
  moreover have "ok_outs (plain_call env n)" for n
    unfolding plain_call_def by (simp add: ok_outs_slots host_out_ok_def)
  ultimately show ?thesis by (simp add: onJsMessage_def split: js_call.split)
qed

text \<open>
  Whatever messages the page sends, in whatever state, every font size that is announced lies
  between -2 and 2 and the torrent engine is always started in the directory \<^verbatim>\<open>PopcornTime\<close> of a
  directory with a name.
\<close>

theorem page_messages_safe:
  "\<forall>x \<in> set (snd (acts (map (\<lambda>(env, name, args). onJsMessage env name args) ms) s)). host_out_ok x"
proof -
  have "ok_outs (acts (map (\<lambda>(env, name, args). onJsMessage env name args) ms))"
    by (rule ok_outs_acts) (auto simp: list_all_iff ok_outs_message)
  then show ?thesis by (simp add: ok_outs_def list_all_iff)
qed

definition demo_host :: host where
  "demo_host = \<lparr>h_downloadDir = [], h_cleanOnExit = True, h_fontSize = 77, h_settings = Map.empty,
     h_vpnLast = False, h_zoom = zoom4k_init\<rparr>"

definition demo_host_env :: "int host_env" where
  "demo_host_env = \<lparr>he_toInt = (\<lambda>t. if t = ''7'' then Some 7 else None),
     he_parse = (\<lambda>t. [(''subsFontSize'', JNum 9)]), he_numInt = (\<lambda>j. case to_num j of Some n \<Rightarrow> n | None \<Rightarrow> 0),
     he_base64 = id, he_home = ''/home/u'', he_dialog = [], he_width = 3839, he_vpnInstalled = False, he_raw = 0\<rparr>"

lemma page_messages_safe_witness:
  "list_all host_out_ok (snd (acts (map (\<lambda>(env, name, args). onJsMessage env name args)
     [(demo_host_env, ''setConfigVars'', [''{}'']), (demo_host_env, ''setUserFontSize'', [''7''])]) demo_host))"
  unfolding list_all_iff by (rule page_messages_safe)

text \<open>
  A message \<^verbatim>\<open>cancelTorrent\<close> reaches the engine only with the index its text denotes: without an
  argument it does nothing, although there is a slot for that, which would cancel the active torrent.
\<close>

lemma cancel_message:
  assumes "he_toInt env [] = None"
  shows "snd (onJsMessage env ''cancelTorrent'' [] s) = []"
  using assms
  by (simp add: onJsMessage_def dispatch_def string_methods_def string_call_def cancelTorrent_text_def)

text \<open>
  Just below the width of an ultra high definition screen the page is zoomed to 235 percent, at
  that width to 200.
\<close>

theorem zoom_jumps:
  "zm_percent (zoom_calculate 3839 z) = (if zm_width z = 3839 then zm_percent z else 235) \<and>
   zm_percent (zoom_calculate UHD z) = (if zm_width z = UHD then zm_percent z else 200) \<and>
   zm_percent (zoom_calculate FHD z) = (if zm_width z = FHD then zm_percent z else 100)"
proof -
  have "fl24 10946461507 = 10946461696" by (simp add: fl24_at [of _ 10])
  moreover have "fl_div 10946461696 1920 = 13146261243255867482046464"
    by (simp add: fl_div_def fl24_at [of _ 60])
  moreover have "fl24 22817667800172900879695872 = 22817667800172900879695872"
    by (simp add: fl24_at [of _ 61])
  moreover have "fl24 2281766780017290087969587200 = 2281766761570546014260035584"
    by (simp add: fl24_at [of _ 67])
  ultimately have "zoom_between 3839 = 235"
    by (simp add: zoom_between_def FHD_def UHD_def)
  then show ?thesis by (simp add: zoom_calculate_def UHD_def FHD_def)
qed

section \<open>gui/config.cpp: proxies\<close>

record proxy_settings =
  px_host :: bytes
  px_port :: int
  px_user :: bytes
  px_pass :: bytes

definition no_proxy :: proxy_settings where
  "no_proxy = \<lparr>px_host = [], px_port = 0, px_user = [], px_pass = []\<rparr>"

definition proxy_isValid :: "proxy_settings \<Rightarrow> bool" where
  "proxy_isValid p \<longleftrightarrow> px_host p \<noteq> [] \<and> 0 < px_port p"

text \<open>How the request through a proxy ends, and whether the thread was asked to stop meanwhile.\<close>

datatype proxy_reply = ReplyOk | ReplyError | ReplyTimeout | StopRequested

text \<open>\<open>None\<close>: the thread stops without a result.\<close>

fun check_from :: "(int \<Rightarrow> proxy_reply) \<Rightarrow> int \<Rightarrow> proxy_settings list \<Rightarrow> int option" where
  "check_from net i [] = Some (- 1)"
| "check_from net i (p # ps) =
     (if \<not> proxy_isValid p then check_from net (i + 1) ps
      else
        (case net i of
           StopRequested \<Rightarrow> None
         | ReplyOk \<Rightarrow> Some i
         | _ \<Rightarrow> check_from net (i + 1) ps))"

definition checker_run :: "(int \<Rightarrow> proxy_reply) \<Rightarrow> proxy_settings list \<Rightarrow> int option" where
  "checker_run net ps = check_from net 0 ps"

record app_config =
  ap_proxies :: "proxy_settings list"
  ap_index :: int
  ap_thread :: "proxy_settings list option"
  ap_info :: bytes

definition proxy_of :: "(bytes \<Rightarrow> bytes) \<Rightarrow> ('n json \<Rightarrow> int \<Rightarrow> int) \<Rightarrow> 'n json \<Rightarrow> proxy_settings option" where
  "proxy_of latin1 numInt j =
     (let item = to_object j; host = latin1 (to_string [] (obj_value ''host'' item))
      in if \<not> to_bool False (obj_value ''enabled'' item) \<or> host = [] then None
         else Some \<lparr>px_host = host, px_port = numInt (obj_value ''port'' item) 1080,
                px_user = latin1 (to_string [] (obj_value ''user'' item)),
                px_pass = latin1 (to_string [] (obj_value ''pass'' item))\<rparr>)"

text \<open>The document, \<open>None\<close> when the text is not JSON.\<close>

definition processJson ::
    "(bytes \<Rightarrow> bytes) \<Rightarrow> ('n json \<Rightarrow> int \<Rightarrow> int) \<Rightarrow> 'n jobj option \<Rightarrow> app_config \<Rightarrow> app_config \<times> bool" where
  "processJson latin1 numInt doc s =
     (case doc of
        None \<Rightarrow> (s, False)
      | Some ob \<Rightarrow>
          (s\<lparr>ap_proxies := ap_proxies s @ List.map_filter (proxy_of latin1 numInt)
               (to_array (obj_value ''proxyList'' (to_object (obj_value ''proxy_setting'' ob))))\<rparr>, True))"

definition importJson ::
    "(bytes \<Rightarrow> bytes) \<Rightarrow> ('n json \<Rightarrow> int \<Rightarrow> int) \<Rightarrow> (bytes \<Rightarrow> 'n jobj option) \<Rightarrow> bytes \<Rightarrow> bool \<Rightarrow>
     app_config \<Rightarrow> app_config" where
  "importJson latin1 numInt parse cfg setSettings s =
     (if setSettings
      then (let (s', ok) = processJson latin1 numInt (parse cfg) s
            in if ok then s'\<lparr>ap_info := cfg\<rparr> else s')
      else s)"

definition appConfig ::
    "(bytes \<Rightarrow> bytes) \<Rightarrow> ('n json \<Rightarrow> int \<Rightarrow> int) \<Rightarrow> (bytes \<Rightarrow> 'n jobj option) \<Rightarrow> bytes \<Rightarrow> app_config" where
  "appConfig latin1 numInt parse stored =
     (let s = \<lparr>ap_proxies = [], ap_index = - 1, ap_thread = None, ap_info = stored\<rparr>
      in if stored = [] then s else importJson latin1 numInt parse stored False s)"

text \<open>The thread checks the proxies known when it is started.\<close>

definition connectProxy :: "app_config \<Rightarrow> app_config" where
  "connectProxy s =
     (let s1 = (if ap_index s < - 1 then s\<lparr>ap_index := 0\<rparr> else s)
      in if ap_thread s1 = None then s1\<lparr>ap_thread := Some (ap_proxies s1)\<rparr> else s1)"

definition disconnectProxy :: "app_config \<Rightarrow> app_config \<times> proxy_settings" where
  "disconnectProxy s = (s\<lparr>ap_index := - 1\<rparr>, no_proxy)"

text \<open>\<open>None\<close>: an index behind the end of the list.\<close>

definition haveProxyResult :: "int \<Rightarrow> app_config \<Rightarrow> app_config \<times> proxy_settings option" where
  "haveProxyResult workingProxy s =
     (s\<lparr>ap_thread := None, ap_index := workingProxy\<rparr>,
      if workingProxy < 0 \<or> int (length (ap_proxies s)) < workingProxy then Some no_proxy
      else if int (length (ap_proxies s)) = workingProxy then None
      else Some (ap_proxies s ! nat workingProxy))"

lemma check_from_result:
  "check_from net i ps = Some r \<Longrightarrow>
     (r = - 1 \<and> (\<forall>k < length ps. proxy_isValid (ps ! k) \<longrightarrow> net (i + int k) \<noteq> ReplyOk)) \<or>
     (\<exists>k < length ps. r = i + int k \<and> proxy_isValid (ps ! k) \<and> net r = ReplyOk \<and>
        (\<forall>l < k. proxy_isValid (ps ! l) \<longrightarrow> net (i + int l) \<noteq> ReplyOk))"
proof (induction net i ps rule: check_from.induct)
  case (2 net i p ps)
  show ?case
  proof (cases "proxy_isValid p \<and> net i = ReplyOk")
    case True
    with 2 show ?thesis by (intro disjI2 exI [of _ 0]) simp
  next
    case False
    have ix: "i + 1 + int k = i + int (Suc k)" for k by simp
    from False 2 have "(r = - 1 \<and> (\<forall>k < length ps. proxy_isValid (ps ! k) \<longrightarrow> net (i + 1 + int k) \<noteq> ReplyOk)) \<or>
      (\<exists>k < length ps. r = i + 1 + int k \<and> proxy_isValid (ps ! k) \<and> net r = ReplyOk \<and>
        (\<forall>l < k. proxy_isValid (ps ! l) \<longrightarrow> net (i + 1 + int l) \<noteq> ReplyOk))"
      by (auto split: if_splits proxy_reply.splits)
    then show ?thesis
    proof
      assume *: "r = - 1 \<and> (\<forall>k < length ps. proxy_isValid (ps ! k) \<longrightarrow> net (i + 1 + int k) \<noteq> ReplyOk)"
      have "net (i + int k) \<noteq> ReplyOk" if "k < length (p # ps)" "proxy_isValid ((p # ps) ! k)" for k
        using that * False by (cases k) (simp_all add: ix)
      with * show ?thesis by simp
    next
      assume "\<exists>k < length ps. r = i + 1 + int k \<and> proxy_isValid (ps ! k) \<and> net r = ReplyOk \<and>
        (\<forall>l < k. proxy_isValid (ps ! l) \<longrightarrow> net (i + 1 + int l) \<noteq> ReplyOk)"
      then obtain k where k: "k < length ps" "r = i + 1 + int k" "proxy_isValid (ps ! k)" "net r = ReplyOk"
        "\<forall>l < k. proxy_isValid (ps ! l) \<longrightarrow> net (i + 1 + int l) \<noteq> ReplyOk" by blast
      have "net (i + int l) \<noteq> ReplyOk" if "l < Suc k" "proxy_isValid ((p # ps) ! l)" for l
        using that k(5) False by (cases l) (simp_all add: ix)
      with k show ?thesis by (intro disjI2 exI [of _ "Suc k"]) simp
    qed
  qed
qed simp

text \<open>
  The proxy that is used after a check, of a list that nothing changed meanwhile, is the first
  valid one of the list through which the start page answers, or none when none does; the result is
  never an index behind the end of the list.
\<close>

theorem proxy_check_result:
  assumes "ap_thread s = None" "checker_run net (ap_proxies s) = Some r"
  shows "snd (haveProxyResult r (connectProxy s)) =
    (case find (\<lambda>k. proxy_isValid (ap_proxies s ! k) \<and> net (int k) = ReplyOk) [0..<length (ap_proxies s)] of
       None \<Rightarrow> Some no_proxy
     | Some k \<Rightarrow> Some (ap_proxies s ! k))"
proof -
  let ?P = "\<lambda>k. proxy_isValid (ap_proxies s ! k) \<and> net (int k) = ReplyOk"
  have px: "ap_proxies (connectProxy s) = ap_proxies s" by (simp add: connectProxy_def Let_def)
  from check_from_result [OF assms(2) [unfolded checker_run_def]] show ?thesis
  proof
    assume r: "r = - 1 \<and> (\<forall>k < length (ap_proxies s). proxy_isValid (ap_proxies s ! k) \<longrightarrow> net (0 + int k) \<noteq> ReplyOk)"
    then have "find ?P [0..<length (ap_proxies s)] = None" by (auto simp: find_None_iff)
    with r show ?thesis by (simp add: haveProxyResult_def)
  next
    assume "\<exists>k < length (ap_proxies s). r = 0 + int k \<and> proxy_isValid (ap_proxies s ! k) \<and> net r = ReplyOk \<and>
        (\<forall>l < k. proxy_isValid (ap_proxies s ! l) \<longrightarrow> net (0 + int l) \<noteq> ReplyOk)"
    then obtain k where k: "k < length (ap_proxies s)" "r = int k" "?P k" "\<forall>l < k. \<not> ?P l" by auto
    then have "find ?P [0..<length (ap_proxies s)] = Some k"
      by (auto simp: find_Some_iff intro!: exI [of _ k])
    with k show ?thesis by (simp add: haveProxyResult_def px)
  qed
qed

definition demo_proxy :: proxy_settings where
  "demo_proxy = \<lparr>px_host = ''h'', px_port = 1080, px_user = [], px_pass = []\<rparr>"

definition demo_config :: app_config where
  "demo_config = \<lparr>ap_proxies = [no_proxy, demo_proxy], ap_index = - 1, ap_thread = None, ap_info = []\<rparr>"

lemma proxy_check_result_witness:
  "snd (haveProxyResult 1 (connectProxy demo_config)) = Some demo_proxy"
proof -
  have "checker_run (\<lambda>i. ReplyOk) (ap_proxies demo_config) = Some 1" by code_simp
  moreover have "ap_thread demo_config = None" by (simp add: demo_config_def)
  ultimately show ?thesis
    using proxy_check_result [of demo_config "\<lambda>i. ReplyOk" 1]
    by (simp add: demo_config_def no_proxy_def demo_proxy_def proxy_isValid_def upt_rec)
qed

text \<open>
  The configuration stored by an earlier run has no effect: whatever it holds there is no proxy
  to check, and connecting finds none.
\<close>

theorem stored_config_ignored:
  "snd (haveProxyResult (the (checker_run net (the (ap_thread (connectProxy
     (appConfig latin1 numInt parse stored)))))) (connectProxy (appConfig latin1 numInt parse stored))) =
   Some no_proxy"
  by (simp add: appConfig_def importJson_def connectProxy_def checker_run_def haveProxyResult_def Let_def)

text \<open>
  Disconnecting while proxies are checked does not last: the result of the check connects again.
\<close>

theorem disconnect_undone:
  assumes "ap_thread s = None" "checker_run net (ap_proxies s) = Some r" "0 \<le> r"
  shows "let s1 = fst (disconnectProxy (connectProxy s)); (s2, p) = haveProxyResult r s1
    in ap_index s2 = r \<and> (\<exists>q \<in> set (ap_proxies s). p = Some q \<and> proxy_isValid q)"
proof -
  from check_from_result [OF assms(2) [unfolded checker_run_def]] assms(3)
  obtain k where k: "k < length (ap_proxies s)" "r = int k" "proxy_isValid (ap_proxies s ! k)"
    by auto
  then show ?thesis
    by (auto simp: haveProxyResult_def disconnectProxy_def connectProxy_def Let_def)
qed

lemma disconnect_undone_witness:
  "let s1 = fst (disconnectProxy (connectProxy demo_config)); (s2, p) = haveProxyResult 1 s1
   in ap_index s2 = 1 \<and> (\<exists>q \<in> set (ap_proxies demo_config). p = Some q \<and> proxy_isValid q)"
proof (rule disconnect_undone)
  show "checker_run (\<lambda>i. ReplyOk) (ap_proxies demo_config) = Some 1" by code_simp
qed (simp_all add: demo_config_def)

section \<open>gui/DropHandler.cpp\<close>

text \<open>
  What is dropped: the file name in the format \<^verbatim>\<open>FileNameW\<close>, if there is one, and the URLs. \<open>df_local\<close>
  is the URL of a local file and \<open>df_base\<close> its base name.
\<close>

record drop_env =
  df_exists :: "bytes \<Rightarrow> bool"
  df_local :: "bytes \<Rightarrow> bytes"
  df_base :: "bytes \<Rightarrow> bytes"
  df_url :: "bytes \<Rightarrow> url_view"
  df_isLocal :: "bytes \<Rightarrow> bool"

record mime =
  mi_file :: "bytes option"
  mi_urls :: "url_view list"

definition link_scheme :: "url_view \<Rightarrow> bool" where
  "link_scheme u \<longleftrightarrow> u_scheme u = ''magnet'' \<or> u_scheme u = ''http'' \<or> u_scheme u = ''https''"

definition canAccept :: "mime \<Rightarrow> bool" where
  "canAccept mi \<longleftrightarrow> (if mi_file mi \<noteq> None then True else list_ex link_scheme (mi_urls mi))"

fun first_valid :: "url_view list \<Rightarrow> 'n torrent_info" where
  "first_valid [] = torrentInfo_default"
| "first_valid (u # us) = (let info = fromUrl u [] in if torrent_isValid info then info else first_valid us)"

definition local_torrent :: "drop_env \<Rightarrow> bytes \<Rightarrow> 'n torrent_info" where
  "local_torrent env file = torrentInfo_strings (df_local env file) [] [] (df_base env file)"

definition getInfo_mime :: "drop_env \<Rightarrow> mime \<Rightarrow> 'n torrent_info" where
  "getInfo_mime env mi =
     (case mi_file mi of
        Some file \<Rightarrow> if df_exists env file then local_torrent env file else torrentInfo_default
      | None \<Rightarrow> first_valid (mi_urls mi))"

definition getInfo_text :: "drop_env \<Rightarrow> bytes \<Rightarrow> 'n torrent_info" where
  "getInfo_text env url =
     (if df_exists env url then local_torrent env url
      else if df_isLocal env url then torrentInfo_strings (u_text (df_url env url)) [] [] (u_dn (df_url env url))
      else fromUrl (df_url env url) [])"

lemma default_invalid [simp]: "\<not> torrent_isValid torrentInfo_default"
  by (simp add: torrent_isValid_def torrentInfo_default_def)

lemma updateTorrentHash_valid [simp]: "torrent_isValid (updateTorrentHash t) = torrent_isValid t"
  by (simp add: updateTorrentHash_def torrent_isValid_def split: option.split)

lemma fromUrl_valid: "torrent_isValid (fromUrl u f :: 'n torrent_info) \<longleftrightarrow> link_scheme u \<and> u_text u \<noteq> []"
  by (auto simp: fromUrl_def link_scheme_def torrentInfo_strings_def torrentInfo_default_def)
    (auto simp: torrent_isValid_def torrentInfo_default_def)

lemma first_valid_valid:
  "torrent_isValid (first_valid us :: 'n torrent_info) \<longleftrightarrow> list_ex (\<lambda>u. link_scheme u \<and> u_text u \<noteq> []) us"
  by (induction us) (auto simp: fromUrl_valid Let_def)

text \<open>
  What is accepted while it is dragged is what starts a torrent when it is dropped: links
  exactly, and a file when it exists.
\<close>

theorem drop_matches_drag:
  assumes "\<forall>u \<in> set (mi_urls mi). u_text u \<noteq> []" "\<forall>f. df_local env f \<noteq> []"
  shows "torrent_isValid (getInfo_mime env mi :: 'n torrent_info) \<longleftrightarrow>
    canAccept mi \<and> (\<forall>f. mi_file mi = Some f \<longrightarrow> df_exists env f)"
proof (cases "mi_file mi")
  case None
  with assms(1) show ?thesis
    by (auto simp: getInfo_mime_def canAccept_def first_valid_valid list_ex_iff)
next
  case (Some f)
  with assms(2) show ?thesis
    by (simp add: getInfo_mime_def canAccept_def local_torrent_def torrentInfo_strings_def)
      (simp add: torrent_isValid_def torrentInfo_default_def)
qed

definition demo_drop :: drop_env where
  "demo_drop = \<lparr>df_exists = (\<lambda>f. f = ''a.torrent''), df_local = (\<lambda>f. ''file:///'' @ f), df_base = (\<lambda>f. ''a''),
     df_url = (\<lambda>t. \<lparr>u_scheme = [], u_text = t, u_dn = []\<rparr>), df_isLocal = (\<lambda>f. False)\<rparr>"

lemma drop_matches_drag_witness:
  "torrent_isValid (getInfo_mime demo_drop \<lparr>mi_file = None,
     mi_urls = [\<lparr>u_scheme = ''ftp'', u_text = ''ftp://x'', u_dn = []\<rparr>,
                \<lparr>u_scheme = ''magnet'', u_text = ''magnet:?x'', u_dn = []\<rparr>]\<rparr> :: int torrent_info)"
  by (subst drop_matches_drag) (simp_all add: demo_drop_def canAccept_def link_scheme_def)

end
