(* ===== verification/PlayerWindow.thy ===== *)
theory PlayerWindow
  imports VideoPanel WindowInput HostBridge
begin

section \<open>gui/FramelessMainWindow.cpp: the main window\<close>

text \<open>
  The window composes the revealer of the controls and the bar of the player: their signals run the
  slots the constructor connects, in that order. \<open>mw_cursors\<close> is Qt's stack of override cursors,
  \<open>mw_track\<close> the number of connections from the mouse to the revealer. Showing and hiding a widget is
  a flag; sizes of child widgets are left out.
\<close>

datatype win_mode = ModeNormal | ModeMaximized | ModeFullScreen

record mw =
  mw_video :: bool
  mw_control :: bool
  mw_close :: bool
  mw_mode :: win_mode
  mw_track :: nat
  mw_cursors :: nat
  mw_rev :: revealer
  mw_panel :: panel
  mw_fullBtn :: bool
  mw_resizers :: bool

datatype mw_out =
    Animations bool
  | CastStop
  | PlayerCloseFile
  | CancelActive
  | PanelOut panel_out
  | FitLater

type_synonym mw_act = "(mw, mw_out) act"

definition mw_init :: mw where
  "mw_init = \<lparr>mw_video = False, mw_control = False, mw_close = False, mw_mode = ModeNormal, mw_track = 0,
     mw_cursors = 0, mw_rev = revealer_init, mw_panel = fst (setCast panel_init), mw_fullBtn = False,
     mw_resizers = True\<rparr>"

definition push_cursor :: mw_act where
  "push_cursor = modify (\<lambda>s. s\<lparr>mw_cursors := mw_cursors s + 1\<rparr>)"

definition pop_cursor :: mw_act where
  "pop_cursor = modify (\<lambda>s. s\<lparr>mw_cursors := mw_cursors s - 1\<rparr>)"

definition mw_uiShow :: mw_act where
  "mw_uiShow = acts
     [pop_cursor, with_state (\<lambda>s. when_act (mw_video s) (modify (\<lambda>s. s\<lparr>mw_close := True\<rparr>)))]"

definition mw_uiHide :: mw_act where
  "mw_uiHide = acts [modify (\<lambda>s. s\<lparr>mw_close := False\<rparr>), push_cursor]"

text \<open>The slots of \<^verbatim>\<open>revealed()\<close> and \<^verbatim>\<open>concealed()\<close>: first the bar's, then the window's.\<close>

definition on_reveal :: "reveal_out \<Rightarrow> mw_act" where
  "on_reveal x =
     (case x of
        Revealed \<Rightarrow> acts [modify (\<lambda>s. s\<lparr>mw_control := True\<rparr>), mw_uiShow]
      | Concealed \<Rightarrow> acts [modify (\<lambda>s. s\<lparr>mw_control := False\<rparr>), mw_uiHide])"

definition revealing :: "rv_act \<Rightarrow> mw_act" where
  "revealing f = with_state (\<lambda>s.
     let (r, xs) = f (mw_rev s) in acts (modify (\<lambda>s. s\<lparr>mw_rev := r\<rparr>) # map on_reveal xs))"

definition on_panel_out :: "panel_out \<Rightarrow> mw_act" where
  "on_panel_out x =
     (case x of
        SwitchedToCast \<Rightarrow> revealing startPermanentReveal
      | SwitchedToVlc \<Rightarrow> revealing stopPermanentReveal
      | _ \<Rightarrow> emit (PanelOut x))"

definition controlling :: "panel_act \<Rightarrow> mw_act" where
  "controlling f = with_state (\<lambda>s.
     let (p, xs) = f (mw_panel s) in acts (modify (\<lambda>s. s\<lparr>mw_panel := p\<rparr>) # map on_panel_out xs))"

definition playbackStarted :: mw_act where
  "playbackStarted = with_state (\<lambda>s. when_act (\<not> mw_video s) (acts
     [emit (Animations False),
      modify (\<lambda>s. s\<lparr>mw_track := mw_track s + 1\<rparr>),
      modify (\<lambda>s. s\<lparr>mw_video := True\<rparr>),
      modify (\<lambda>s. if mw_mode s = ModeMaximized then s\<lparr>mw_mode := ModeFullScreen\<rparr> else s),
      modify (\<lambda>s. s\<lparr>mw_control := True\<rparr>),
      modify (\<lambda>s. s\<lparr>mw_close := True\<rparr>),
      revealing enableReveal]))"

definition playbackStopped :: mw_act where
  "playbackStopped = with_state (\<lambda>s. when_act (mw_video s) (acts
     [revealing stopPermanentReveal,
      controlling (castSwitch False),
      emit CastStop,
      emit (Animations True),
      modify (\<lambda>s. s\<lparr>mw_track := 0\<rparr>),
      modify (\<lambda>s. s\<lparr>mw_video := False\<rparr>),
      pop_cursor,
      modify (\<lambda>s. s\<lparr>mw_control := False\<rparr>),
      modify (\<lambda>s. s\<lparr>mw_close := False\<rparr>),
      modify (\<lambda>s. if mw_mode s = ModeFullScreen then s\<lparr>mw_mode := ModeMaximized\<rparr> else s)]))"

text \<open>The slots of \<^verbatim>\<open>stoppingPlayback()\<close>, in the order of their connections.\<close>

definition stopPlayback :: mw_act where
  "stopPlayback = acts
     [revealing disableReveal, emit CastStop, emit PlayerCloseFile, playbackStopped, emit CancelActive]"

definition toggleMaximize :: mw_act where
  "toggleMaximize = modify (\<lambda>s.
     let willGoNormal = mw_mode s \<noteq> ModeNormal
     in s\<lparr>mw_fullBtn := \<not> willGoNormal, mw_resizers := willGoNormal,
          mw_mode := (if willGoNormal then ModeNormal
                      else if mw_video s then ModeFullScreen else ModeMaximized)\<rparr>)"

definition escapePressed :: mw_act where
  "escapePressed = acts
     [revealing temporaryReveal,
      with_state (\<lambda>s. when_act (mw_mode s = ModeFullScreen) toggleMaximize)]"

text \<open>A move of the mouse reaches the revealer through each connection.\<close>

definition mouse_moved :: mw_act where
  "mouse_moved = with_state (\<lambda>s. acts (replicate (mw_track s) (revealing temporaryReveal)))"

definition checkCommandLine :: "drop_env \<Rightarrow> bytes list \<Rightarrow> mw \<Rightarrow> 'n torrent_info option" where
  "checkCommandLine env args s =
     (if mw_video s then None
      else
        (let opt = (case dropWhile (\<lambda>a. a \<noteq> ''--open'') args of
                      _ # file # _ \<Rightarrow> getInfo_text env file
                    | _ \<Rightarrow> torrentInfo_default);
             info = (if torrent_isValid opt then opt
                     else if 1 < length args then getInfo_text env (args ! 1) else opt)
         in if torrent_isValid info then Some info else None))"

datatype mw_event =
    TorrentData
  | StopPlayback
  | ToggleMax
  | Escape
  | MouseMoved
  | HideTimer
  | EnterControls
  | LeaveControls
  | PlayerPaused
  | Panel panel_event

fun mw_handle :: "(int \<Rightarrow> int) \<Rightarrow> mw_event \<Rightarrow> mw_act" where
  "mw_handle us TorrentData = playbackStarted"
| "mw_handle us StopPlayback = stopPlayback"
| "mw_handle us ToggleMax = toggleMaximize"
| "mw_handle us Escape = escapePressed"
| "mw_handle us MouseMoved = mouse_moved"
| "mw_handle us HideTimer = revealing (with_state (\<lambda>r. when_act (rv_timer r) onTimeout))"
| "mw_handle us EnterControls = revealing startPermanentReveal"
| "mw_handle us LeaveControls = revealing stopPermanentReveal"
| "mw_handle us PlayerPaused = revealing temporaryReveal"
| "mw_handle us (Panel e) = controlling (panel_handle us e)"

subsection \<open>The invariant\<close>

text \<open>What is shown without the player: neither the bar nor the close button, nor the full screen.\<close>

definition mw_inv :: "bool \<Rightarrow> mw \<Rightarrow> bool" where
  "mw_inv v s \<longleftrightarrow> mw_video s = v \<and> rv_enabled (mw_rev s) = v \<and> mw_track s = (if v then 1 else 0) \<and>
     (\<not> v \<longrightarrow> \<not> mw_control s \<and> \<not> mw_close s \<and> mw_mode s \<noteq> ModeFullScreen)"

definition mw_ok :: "mw \<Rightarrow> bool" where
  "mw_ok s \<longleftrightarrow> mw_inv (mw_video s) s"

lemma on_reveal_fields [simp]:
  "mw_video (fst (on_reveal x s)) = mw_video s" "mw_rev (fst (on_reveal x s)) = mw_rev s"
  "mw_track (fst (on_reveal x s)) = mw_track s" "mw_mode (fst (on_reveal x s)) = mw_mode s"
  "mw_panel (fst (on_reveal x s)) = mw_panel s"
  by (cases x; simp add: on_reveal_def mw_uiShow_def mw_uiHide_def pop_cursor_def push_cursor_def
      run_simps del: acts.simps(2))+

lemma on_reveals_fields [simp]:
  "mw_video (fst (acts (map on_reveal xs) s)) = mw_video s"
  "mw_rev (fst (acts (map on_reveal xs) s)) = mw_rev s"
  "mw_track (fst (acts (map on_reveal xs) s)) = mw_track s"
  "mw_mode (fst (acts (map on_reveal xs) s)) = mw_mode s"
  "mw_panel (fst (acts (map on_reveal xs) s)) = mw_panel s"
  by (induction xs arbitrary: s; simp add: fst_acts del: acts.simps(2))+

lemma on_reveals_hidden:
  assumes "list_all (\<lambda>x. x = Concealed) xs" "\<not> mw_control s" "\<not> mw_close s"
  shows "\<not> mw_control (fst (acts (map on_reveal xs) s)) \<and> \<not> mw_close (fst (acts (map on_reveal xs) s))"
  using assms
proof (induction xs arbitrary: s)
  case (Cons x xs)
  then have "\<not> mw_control (fst (on_reveal x s))" "\<not> mw_close (fst (on_reveal x s))"
    by (simp_all add: on_reveal_def mw_uiHide_def push_cursor_def run_simps del: acts.simps(2))
  with Cons show ?case by (simp add: fst_acts del: acts.simps(2))
qed simp

lemma fst_revealing:
  "fst (revealing f s) = fst (acts (map on_reveal (snd (f (mw_rev s)))) (s\<lparr>mw_rev := fst (f (mw_rev s))\<rparr>))"
  by (simp add: revealing_def split_beta Let_def fst_acts del: acts.simps(2))

lemma revealing_fields [simp]:
  "mw_video (fst (revealing f s)) = mw_video s" "mw_rev (fst (revealing f s)) = fst (f (mw_rev s))"
  "mw_track (fst (revealing f s)) = mw_track s" "mw_mode (fst (revealing f s)) = mw_mode s"
  "mw_panel (fst (revealing f s)) = mw_panel s"
  by (simp_all add: fst_revealing)

text \<open>While the revealer is disabled no operation but \<^verbatim>\<open>enableReveal\<close> reveals.\<close>

definition quiet :: "rv_act \<Rightarrow> bool" where
  "quiet f \<longleftrightarrow> (\<forall>r. (rv_enabled (fst (f r)) = rv_enabled r) \<and>
     (\<not> rv_enabled r \<longrightarrow> list_all (\<lambda>x. x = Concealed) (snd (f r))))"

lemma quiet_ops [simp]:
  "quiet temporaryReveal" "quiet startPermanentReveal" "quiet stopPermanentReveal"
  "quiet (with_state (\<lambda>r. when_act (rv_timer r) onTimeout))"
  by (simp_all add: quiet_def rv_handle_eqs stopPermanentReveal_eq Let_def when_act_eq)

lemma revealing_quiet: "quiet f \<Longrightarrow> mw_inv v s \<Longrightarrow> mw_inv v (fst (revealing f s))"
  using on_reveals_hidden [of "snd (f (mw_rev s))" "s\<lparr>mw_rev := fst (f (mw_rev s))\<rparr>"]
  by (auto simp: mw_inv_def quiet_def fst_revealing)

lemma on_panel_out_inv: "mw_inv v s \<Longrightarrow> mw_inv v (fst (on_panel_out x s))"
  by (cases x) (simp_all add: on_panel_out_def revealing_quiet)

lemma controlling_keeps:
  assumes "\<And>x t. Q t \<Longrightarrow> Q (fst (on_panel_out x t))" "\<And>t p. Q t \<Longrightarrow> Q (t\<lparr>mw_panel := p\<rparr>)" "Q s"
  shows "Q (fst (controlling f s))"
proof -
  have run: "Q (fst (acts (map on_panel_out xs) t))" if "Q t" for xs t
    using that by (induction xs arbitrary: t) (simp_all add: fst_acts assms(1) del: acts.simps(2))
  from run [OF assms(2) [OF assms(3)], of "snd (f (mw_panel s))" "fst (f (mw_panel s))"] show ?thesis
    by (simp add: controlling_def split_beta Let_def fst_acts del: acts.simps(2))
qed

lemma controlling_inv: "mw_inv v s \<Longrightarrow> mw_inv v (fst (controlling f s))"
  by (rule controlling_keeps [where Q = "mw_inv v"]) (simp_all add: on_panel_out_inv, simp add: mw_inv_def)

definition stopping :: "mw \<Rightarrow> bool" where
  "stopping s \<longleftrightarrow> mw_video s \<and> \<not> rv_enabled (mw_rev s)"

lemma revealing_stopping: "quiet f \<Longrightarrow> stopping s \<Longrightarrow> stopping (fst (revealing f s))"
  by (simp add: stopping_def quiet_def)

lemma controlling_stopping: "stopping s \<Longrightarrow> stopping (fst (controlling f s))"
proof (rule controlling_keeps [where Q = stopping])
  show "stopping (fst (on_panel_out x t))" if "stopping t" for x t
    using that by (cases x) (simp_all add: on_panel_out_def revealing_stopping)
  show "stopping (t\<lparr>mw_panel := p\<rparr>)" if "stopping t" for t p
    using that by (simp add: stopping_def)
qed

lemma playbackStarted_ok: "mw_ok s \<Longrightarrow> mw_ok (fst (playbackStarted s))"
  by (cases "mw_video s")
    (simp_all add: mw_ok_def playbackStarted_def mw_inv_def rv_handle_eqs run_simps del: acts.simps(2))

lemma playbackStopped_inv: "stopping s \<Longrightarrow> mw_inv False (fst (playbackStopped s))"
proof -
  assume s: "stopping s"
  define t where "t = fst (controlling (castSwitch False) (fst (revealing stopPermanentReveal s)))"
  have t: "stopping t"
    unfolding t_def by (intro controlling_stopping revealing_stopping) (simp_all add: s)
  have "fst (playbackStopped s) = (let u = t\<lparr>mw_track := 0, mw_video := False,
      mw_cursors := mw_cursors t - 1, mw_control := False, mw_close := False\<rparr>
    in if mw_mode u = ModeFullScreen then u\<lparr>mw_mode := ModeMaximized\<rparr> else u)"
    using s by (simp add: playbackStopped_def stopping_def pop_cursor_def run_simps t_def Let_def del: acts.simps(2))
  with t show ?thesis by (simp add: mw_inv_def stopping_def Let_def)
qed

lemma stopPlayback_ok: "mw_ok s \<Longrightarrow> mw_ok (fst (stopPlayback s))"
proof -
  assume s: "mw_ok s"
  define t where "t = fst (revealing disableReveal s)"
  have e: "fst (stopPlayback s) = fst (playbackStopped t)"
    by (simp add: stopPlayback_def t_def run_simps del: acts.simps(2))
  show ?thesis
  proof (cases "mw_video s")
    case True
    then have "stopping t" by (simp add: t_def stopping_def rv_handle_eqs)
    from playbackStopped_inv [OF this] show ?thesis unfolding e by (auto simp: mw_ok_def mw_inv_def)
  next
    case False
    have "\<not> mw_control t \<and> \<not> mw_close t"
      unfolding t_def fst_revealing using s False
      by (intro on_reveals_hidden) (simp_all add: rv_handle_eqs mw_ok_def mw_inv_def)
    with False s have "mw_inv False t" "\<not> mw_video t"
      by (simp_all add: t_def mw_inv_def mw_ok_def rv_handle_eqs)
    then show ?thesis unfolding e by (simp add: playbackStopped_def mw_ok_def)
  qed
qed

lemma mw_ok_keep: "mw_inv (mw_video s) t \<Longrightarrow> mw_ok t"
  by (auto simp: mw_ok_def mw_inv_def)

lemma mouse_moved_inv: "mw_inv v s \<Longrightarrow> mw_inv v (fst (mouse_moved s))"
proof -
  have "mw_inv v (fst (acts (replicate n (revealing temporaryReveal)) t))" if "mw_inv v t" for n t
    using that by (induction n arbitrary: t) (simp_all add: fst_acts revealing_quiet del: acts.simps(2))
  then show "mw_inv v s \<Longrightarrow> ?thesis" by (simp add: mouse_moved_def)
qed

lemma mw_handle_ok: "mw_ok s \<Longrightarrow> mw_ok (fst (mw_handle us e s))"
proof (cases e)
  case TorrentData
  assume "mw_ok s"
  with TorrentData show ?thesis by (simp add: playbackStarted_ok)
next
  case StopPlayback
  assume "mw_ok s"
  with StopPlayback show ?thesis by (simp add: stopPlayback_ok)
next
  case ToggleMax
  assume "mw_ok s"
  with ToggleMax show ?thesis by (auto simp: mw_ok_def mw_inv_def toggleMaximize_def Let_def)
next
  case Escape
  assume "mw_ok s"
  then have "mw_inv (mw_video s) (fst (revealing temporaryReveal s))"
    by (simp add: mw_ok_def revealing_quiet)
  with Escape show ?thesis
    by (auto simp: mw_ok_def mw_inv_def escapePressed_def toggleMaximize_def Let_def when_act_eq fst_acts
        simp del: acts.simps(2))
qed (auto simp: mw_ok_def intro: mw_ok_keep [unfolded mw_ok_def]
      revealing_quiet mouse_moved_inv controlling_inv)

interpretation window: machine "mw_handle us" "\<lambda>e. True" mw_ok for us
  by unfold_locales (rule mw_handle_ok)

text \<open>
  C25: in every run of the window the controls are enabled and follow the mouse, by one connection,
  exactly while the player is shown; without it neither the bar nor the close button is shown and the
  window does not fill the screen.
\<close>

theorem window_invariant:
  "let s = fst (acts (map (mw_handle us) es) mw_init)
   in rv_enabled (mw_rev s) = mw_video s \<and> mw_track s = (if mw_video s then 1 else 0) \<and>
      (mw_video s \<or> \<not> mw_control s \<and> \<not> mw_close s \<and> mw_mode s \<noteq> ModeFullScreen)"
proof -
  have "mw_ok (fst (acts (map (mw_handle us) es) mw_init))"
    by (rule window.keeps_run) (simp_all add: mw_ok_def mw_inv_def mw_init_def revealer_init_def list_all_iff)
  then show ?thesis by (auto simp: mw_ok_def mw_inv_def Let_def)
qed

lemma window_invariant_witness:
  "let s = fst (acts (map (mw_handle id) [ToggleMax, TorrentData, MouseMoved, StopPlayback]) mw_init)
   in rv_enabled (mw_rev s) = mw_video s \<and> mw_track s = (if mw_video s then 1 else 0) \<and>
      (if mw_video s then True else mw_mode s \<noteq> ModeFullScreen)"
  using window_invariant [of id "[ToggleMax, TorrentData, MouseMoved, StopPlayback]"]
  unfolding Let_def by (auto split: if_splits)

subsection \<open>The cursor\<close>

text \<open>
  Stopping takes back one of the cursors it has itself put on the stack, so a player that is
  closed while its controls are hidden leaves the blank cursor over the page.
\<close>

theorem stop_leaves_cursor:
  assumes "mw_video s" "mw_rev s = \<lparr>rv_enabled = True, rv_permanent = 0, rv_timer = True\<rparr>"
  shows "mw_cursors (fst (acts [mw_handle us HideTimer, stopPlayback] s)) = mw_cursors s + 1"
proof -
  note defs = revealing_def on_reveal_def mw_uiHide_def push_cursor_def pop_cursor_def
  have panel: "snd (castSwitch False p) = [ProvideVolume, ProvideMute, InvokeAspectRatio,
      FilterSubtitles vlc_subs_list, NewImage [], SwitchedToVlc, InvokeLocalPauseAfter 500 False, ProvidePause]" for p
    by (simp add: castSwitch_def provideControlSettings_def run_simps Let_def del: acts.simps(2))
  show ?thesis
    using assms
    by (simp add: stopPlayback_def playbackStopped_def controlling_def on_panel_out_def defs rv_handle_eqs
        stopPermanentReveal_eq panel run_simps split_beta Let_def del: acts.simps(2))
qed

definition demo_mw :: mw where
  "demo_mw = mw_init\<lparr>mw_video := True, mw_rev := \<lparr>rv_enabled = True, rv_permanent = 0, rv_timer = True\<rparr>\<rparr>"

lemma stop_leaves_cursor_witness:
  "mw_cursors (fst (acts [mw_handle id HideTimer, stopPlayback] demo_mw)) = 1"
  using stop_leaves_cursor [of demo_mw id] by (simp add: demo_mw_def mw_init_def)

subsection \<open>Geometry\<close>

text \<open>
  \<^verbatim>\<open>fitGeometry\<close> sizes the window to eight tenths of the screen (at least its minimum size) and
  centres it; \<^verbatim>\<open>checkGeometry\<close> asks for that when the window is larger than the screen or neither corner
  of the zone it is dragged by is on a screen. Screens are given by their available rectangles.
\<close>

definition rect_center :: "rect \<Rightarrow> int \<times> int" where
  "rect_center r = ((r_left r + r_right r) sdiv 2, (r_top r + r_bottom r) sdiv 2)"

definition fitGeometry :: "rect \<Rightarrow> rect" where
  "fitGeometry screen =
     (let w = max 800 (r_width screen * 4 div 5); h = max 330 (r_height screen * 4 div 5);
          l = fst (rect_center screen) - w div 2; t = snd (rect_center screen) - h div 2
      in mk_rect l t (l + w - 1) (t + h - 1))"

definition checkGeometry :: "int \<Rightarrow> rect \<Rightarrow> rect list \<Rightarrow> rect \<Rightarrow> bool" where
  "checkGeometry zoom screen screens r =
     (if r_width screen < r_width r \<or> r_height screen < r_height r then False
      else
        (let tl = (r_left r + DRAG_ZONE_LEFT_MARGIN * zoom, r_top r);
             br = (r_left r + (r_width r - DRAG_ZONE_LEFT_MARGIN * zoom - DRAG_ZONE1_RIGHT_MARGIN * zoom),
                   r_top r + DRAG_ZONE1_HEIGHT * zoom)
         in list_ex (\<lambda>q. r_contains q tl \<or> r_contains q br) screens))"

text \<open>
  On a screen of at least 800 by 330 at its origin one correction is enough: the window that
  \<^verbatim>\<open>fitGeometry\<close> makes passes the check.
\<close>

theorem fit_settles:
  assumes "screen \<in> set screens" "r_left screen = 0" "r_top screen = 0"
    and "800 \<le> r_width screen" "330 \<le> r_height screen" "zoom = 1 \<or> zoom = 2"
  shows "checkGeometry zoom screen screens (fitGeometry screen)"
proof -
  define W H where "W = r_width screen" and "H = r_height screen"
  have s: "r_right screen = W - 1" "r_bottom screen = H - 1" "800 \<le> W" "330 \<le> H"
    using assms(2-5) by (simp_all add: W_def H_def r_width_def r_height_def)
  define w h where "w = max 800 (W * 4 div 5)" and "h = max 330 (H * 4 div 5)"
  have wh: "800 \<le> w" "w \<le> W" "330 \<le> h" "h \<le> H" using s by (auto simp: w_def h_def)
  have c: "rect_center screen = ((W - 1) div 2, (H - 1) div 2)"
    using s assms(2,3) by (simp add: rect_center_def sdiv_nonneg)
  have g: "fitGeometry screen = mk_rect ((W - 1) div 2 - w div 2) ((H - 1) div 2 - h div 2)
      ((W - 1) div 2 - w div 2 + w - 1) ((H - 1) div 2 - h div 2 + h - 1)"
    by (simp add: fitGeometry_def c Let_def w_def h_def W_def H_def)
  have "r_contains screen ((W - 1) div 2 - w div 2 + (w - 135 * zoom - 55 * zoom), (H - 1) div 2 - h div 2 + 32 * zoom)"
    using s wh assms(2,3,6) by (auto simp: r_contains_def span_contains_def)
  then show ?thesis
    using assms(1) wh
    by (auto simp: checkGeometry_def g mk_rect_def r_width_def r_height_def Let_def list_ex_iff
        DRAG_ZONE_LEFT_MARGIN_def DRAG_ZONE1_RIGHT_MARGIN_def DRAG_ZONE1_HEIGHT_def s assms(2,3))
qed

lemma fit_settles_witness:
  "checkGeometry 1 (mk_rect 0 0 1919 1039) [mk_rect 0 0 1919 1039] (fitGeometry (mk_rect 0 0 1919 1039))"
  by (rule fit_settles) (simp_all add: mk_rect_def r_width_def r_height_def)

end
