(* ===== verification/PickerBuckets.thy ===== *)
theory PickerBuckets
  imports Prelude
begin

section \<open>libtorrent/src/piece_picker.cpp: the buckets of pickable pieces\<close>

text \<open>
  \<^verbatim>\<open>piece_picker\<close> keeps the pieces that can be picked in one vector, \<^verbatim>\<open>m_pieces\<close>, cut into buckets of
  equal priority by \<^verbatim>\<open>m_priority_boundries\<close>; every piece knows its position. \<^verbatim>\<open>add\<close>, \<^verbatim>\<open>remove\<close> and
  \<^verbatim>\<open>update\<close> move one piece by moving one piece per bucket between its ends. Here are the members, these
  operations and the proof that they keep the vector sorted into its buckets.

  The value \<open>-1\<close> of the source (no priority, no piece in the pushed slot) is \<open>None\<close>. A pointer into
  \<^verbatim>\<open>m_block_info\<close> is the offset of its element. A read or write outside a vector gives \<open>None\<close> for the
  whole operation. \<^verbatim>\<open>random()\<close> is an argument: the number its call returns.
\<close>

subsection \<open>The members\<close>

record piece_pos =
  peer_count :: nat
  downloading :: bool
  full :: bool
  piece_prio :: nat
  pos_index :: nat

datatype block_state = StateNone | StateRequested | StateWriting | StateFinished

record block_info =
  bi_peer :: "nat option"
  bi_num_peers :: nat
  bi_state :: block_state

datatype piece_state = NoSpeed | Slow | Medium | Fast

record downloading_piece =
  dp_info :: nat
  dp_index :: nat
  dp_finished :: int
  dp_writing :: int
  dp_requested :: int
  dp_state :: piece_state

record picker =
  pk_seeds :: nat
  pk_pieces :: "nat option list"
  pk_bounds :: "nat list"
  pk_map :: "piece_pos list"
  pk_downloads :: "downloading_piece list"
  pk_block_info :: "block_info list"
  pk_blocks_per_piece :: nat
  pk_blocks_in_last_piece :: nat
  pk_num_filtered :: int
  pk_num_have_filtered :: int
  pk_num_have :: int
  pk_cursor :: nat
  pk_reverse_cursor :: nat
  pk_sparse_regions :: int
  pk_dirty :: bool

definition we_have_index :: nat where
  "we_have_index = 0xffffffff"

definition pp_have :: "piece_pos \<Rightarrow> bool" where
  "pp_have p \<longleftrightarrow> pos_index p = we_have_index"

definition filtered :: "piece_pos \<Rightarrow> bool" where
  "filtered p \<longleftrightarrow> piece_prio p = 0"

text \<open>The priority of a piece; the lower the number the sooner it is picked.\<close>

definition priority :: "nat \<Rightarrow> piece_pos \<Rightarrow> nat option" where
  "priority seeds p =
     (if filtered p \<or> pp_have p \<or> peer_count p + seeds = 0 then None
      else if piece_prio p = 7 then Some (if downloading p then 0 else 1)
      else
        (let (availability, q) =
               (if 4 \<le> piece_prio p then (peer_count p div 2, piece_prio p - 3)
                else (peer_count p, piece_prio p))
         in if downloading p then Some (availability * 4) else Some (availability * 4 + 4 - q)))"

abbreviation prio_of :: "picker \<Rightarrow> nat \<Rightarrow> nat option" where
  "prio_of k x \<equiv> priority (pk_seeds k) (pk_map k ! x)"

text \<open>Indexing a vector.\<close>

definition vec_at :: "'a list \<Rightarrow> nat \<Rightarrow> 'a option" where
  "vec_at xs i = (if i < length xs then Some (xs ! i) else None)"

lemma vec_at_Some [simp]: "i < length xs \<Longrightarrow> vec_at xs i = Some (xs ! i)"
  by (simp add: vec_at_def)

lemma vec_at_eq_Some: "vec_at xs i = Some y \<longleftrightarrow> i < length xs \<and> xs ! i = y"
  by (auto simp: vec_at_def)

subsection \<open>Operations\<close>

text \<open>\<^verbatim>\<open>m_pieces[i] = x; m_piece_map[x].index = i\<close>.\<close>

definition place :: "nat \<Rightarrow> nat \<Rightarrow> picker \<Rightarrow> picker option" where
  "place i x k =
     (if i < length (pk_pieces k) \<and> x < length (pk_map k)
      then Some (k\<lparr>pk_pieces := (pk_pieces k)[i := Some x],
                   pk_map := (pk_map k)[x := (pk_map k ! x)\<lparr>pos_index := i\<rparr>]\<rparr>)
      else None)"

definition set_bound :: "nat \<Rightarrow> nat \<Rightarrow> picker \<Rightarrow> picker" where
  "set_bound q e k = k\<lparr>pk_bounds := (pk_bounds k)[q := e]\<rparr>"

text \<open>\<^verbatim>\<open>m_priority_boundries.resize(priority + 1, m_pieces.size())\<close> when it is shorter.\<close>

definition grow_bounds :: "nat \<Rightarrow> picker \<Rightarrow> picker" where
  "grow_bounds q k =
     k\<lparr>pk_bounds := pk_bounds k @ replicate (Suc q - length (pk_bounds k)) (length (pk_pieces k))\<rparr>"

definition range_start :: "nat list \<Rightarrow> nat \<Rightarrow> nat" where
  "range_start b q = (if q = 0 then 0 else b ! (q - 1))"

definition priority_range :: "nat \<Rightarrow> picker \<Rightarrow> (nat \<times> nat) option" where
  "priority_range q k =
     (if q < length (pk_bounds k) then Some (range_start (pk_bounds k) q, pk_bounds k ! q) else None)"

text \<open>The inner loop of \<^verbatim>\<open>add\<close>: boundaries move up until one was not at \<^verbatim>\<open>new_index\<close>.\<close>

function bump :: "nat \<Rightarrow> nat \<Rightarrow> picker \<Rightarrow> (nat \<times> nat \<times> picker) option" where
  "bump new_index q k =
     (if q < length (pk_bounds k) then
        (let temp = pk_bounds k ! q; k1 = set_bound q (temp + 1) k
         in if temp = new_index \<and> q + 1 < length (pk_bounds k) then bump new_index (q + 1) k1
            else Some (temp, q + 1, k1))
      else None)"
  by pat_completeness auto
termination
  by (relation "measure (\<lambda>(i, q, k). length (pk_bounds k) - q)") (auto simp: set_bound_def)

declare bump.simps [simp del]

lemma bump_later: "bump i q k = Some (t, q', k') \<Longrightarrow> q < q' \<and> q' \<le> length (pk_bounds k) \<and>
    length (pk_bounds k') = length (pk_bounds k)"
proof (induction i q k rule: bump.induct)
  case (1 i q k)
  then show ?case
    by (simp add: bump.simps [of i q k] Let_def set_bound_def split: if_splits) force+
qed

text \<open>The outer loop of \<^verbatim>\<open>add\<close>, which hands the displaced piece on.\<close>

function add_loop :: "nat \<Rightarrow> nat option \<Rightarrow> nat \<Rightarrow> picker \<Rightarrow> (nat option \<times> nat \<times> picker) option" where
  "add_loop new_index index q k =
     (case index of
        None \<Rightarrow> None
      | Some x \<Rightarrow>
          (case vec_at (pk_pieces k) new_index of
             None \<Rightarrow> None
           | Some displaced \<Rightarrow>
               (case place new_index x k of
                  None \<Rightarrow> None
                | Some k1 \<Rightarrow>
                    (case bump new_index q k1 of
                       None \<Rightarrow> None
                     | Some (temp, q1, k2) \<Rightarrow>
                         if length (pk_bounds k2) \<le> q1 then Some (displaced, temp, k2)
                         else add_loop temp displaced q1 k2))))"
  by pat_completeness auto
termination
proof (relation "measure (\<lambda>(i, x, q, k). length (pk_bounds k) - q)", goal_cases)
  case (2 new_index index q k x displaced k1 p temp p2 q1 k2)
  then have "bump new_index q k1 = Some (temp, q1, k2)" by simp
  from bump_later [OF this] 2 show ?case by (auto simp: place_def split: if_splits)
qed simp

declare add_loop.simps [simp del]

definition add_at :: "nat \<Rightarrow> nat \<Rightarrow> nat \<Rightarrow> picker \<Rightarrow> picker option" where
  "add_at new_index x q k =
     (case add_loop new_index (Some x) q (k\<lparr>pk_pieces := pk_pieces k @ [None]\<rparr>) of
        None \<Rightarrow> None
      | Some (None, _, k2) \<Rightarrow> Some k2
      | Some (Some y, i, k2) \<Rightarrow> place i y k2)"

definition pk_add :: "nat \<Rightarrow> nat \<Rightarrow> picker \<Rightarrow> picker option" where
  "pk_add random x k =
     (case vec_at (pk_map k) x of
        None \<Rightarrow> None
      | Some p \<Rightarrow>
          (case priority (pk_seeds k) p of
             None \<Rightarrow> None
           | Some q \<Rightarrow>
               (let k1 = grow_bounds q k
                in case priority_range q k1 of
                     None \<Rightarrow> None
                   | Some (start, end) \<Rightarrow>
                       add_at (if end = start then start else random mod (end - start + 1) + start)
                         x q k1)))"

text \<open>The inner loop of \<^verbatim>\<open>remove\<close>: boundaries move down until one is not at the hole.\<close>

function shrink :: "nat \<Rightarrow> nat \<Rightarrow> picker \<Rightarrow> (nat \<times> nat \<times> picker) option" where
  "shrink next_index q k =
     (if q < length (pk_bounds k) \<and> pk_bounds k ! q \<noteq> 0 then
        (let temp = pk_bounds k ! q - 1; k1 = set_bound q temp k
         in if next_index = temp \<and> q + 1 < length (pk_bounds k) then shrink next_index (q + 1) k1
            else Some (temp, q + 1, k1))
      else None)"
  by pat_completeness auto
termination
  by (relation "measure (\<lambda>(i, q, k). length (pk_bounds k) - q)") (auto simp: set_bound_def)

declare shrink.simps [simp del]

lemma shrink_later: "shrink i q k = Some (t, q', k') \<Longrightarrow> q < q' \<and> q' \<le> length (pk_bounds k) \<and>
    length (pk_bounds k') = length (pk_bounds k)"
proof (induction i q k rule: shrink.induct)
  case (1 i q k)
  then show ?case
    by (simp add: shrink.simps [of i q k] Let_def set_bound_def split: if_splits) force+
qed

definition take_out :: "nat \<Rightarrow> nat \<Rightarrow> picker \<Rightarrow> picker option" where
  "take_out from to k =
     (case vec_at (pk_pieces k) from of Some (Some x) \<Rightarrow> place to x k | _ \<Rightarrow> None)"

function remove_loop :: "nat \<Rightarrow> nat \<Rightarrow> picker \<Rightarrow> picker option" where
  "remove_loop elem_index q k =
     (case shrink elem_index q k of
        None \<Rightarrow> None
      | Some (temp, q1, k1) \<Rightarrow>
          if elem_index = temp then Some k1
          else
            (case take_out temp elem_index k1 of
               None \<Rightarrow> None
             | Some k2 \<Rightarrow> if q1 = length (pk_bounds k2) then Some k2 else remove_loop temp q1 k2))"
  by pat_completeness auto
termination
proof (relation "measure (\<lambda>(i, q, k). length (pk_bounds k) - q)", goal_cases)
  case (2 elem_index q k p temp p2 q1 k1 k2)
  then have "shrink elem_index q k = Some (temp, q1, k1)" by simp
  moreover have "pk_bounds k2 = pk_bounds k1"
    using 2 by (auto simp: take_out_def place_def split: option.splits if_splits)
  ultimately show ?case using shrink_later [of elem_index q k temp q1 k1] 2 by auto
qed simp

declare remove_loop.simps [simp del]

definition pk_remove :: "nat \<Rightarrow> nat \<Rightarrow> picker \<Rightarrow> picker option" where
  "pk_remove q elem_index k =
     map_option (\<lambda>k1. k1\<lparr>pk_pieces := butlast (pk_pieces k1)\<rparr>) (remove_loop elem_index q k)"

text \<open>\<^verbatim>\<open>std::iter_swap\<close> of two positions with the swap of the positions the pieces know.\<close>

definition pk_shuffle :: "nat \<Rightarrow> nat \<Rightarrow> nat \<Rightarrow> picker \<Rightarrow> picker option" where
  "pk_shuffle random q elem_index k =
     (case priority_range q k of
        None \<Rightarrow> None
      | Some (start, end) \<Rightarrow>
          if end \<le> start then None
          else
            (let other = random mod (end - start) + start
             in if other = elem_index then Some k
                else case (vec_at (pk_pieces k) other, vec_at (pk_pieces k) elem_index) of
                       (Some (Some x), Some (Some y)) \<Rightarrow>
                         (case (vec_at (pk_map k) x, vec_at (pk_map k) y) of
                            (Some p1, Some p2) \<Rightarrow>
                              Some (k\<lparr>pk_map := (pk_map k)[x := p1\<lparr>pos_index := pos_index p2\<rparr>,
                                                           y := p2\<lparr>pos_index := pos_index p1\<rparr>],
                                      pk_pieces := (pk_pieces k)[other := Some y, elem_index := Some x]\<rparr>)
                          | _ \<Rightarrow> None)
                     | _ \<Rightarrow> None))"

text \<open>
  The two loops of \<^verbatim>\<open>update\<close>. \<open>temp\<close> is the piece last moved; when the next one is the same, the bucket
  in between is passed without a move.
\<close>

definition move_if :: "nat \<Rightarrow> nat \<Rightarrow> nat \<Rightarrow> picker \<Rightarrow> (nat \<times> picker) option" where
  "move_if temp new_index elem_index k =
     (case vec_at (pk_pieces k) new_index of
        Some (Some y) \<Rightarrow>
          if temp \<noteq> y then map_option (Pair y) (place elem_index y k) else Some (temp, k)
      | _ \<Rightarrow> None)"

fun down_loop :: "nat \<Rightarrow> nat \<Rightarrow> nat \<Rightarrow> nat \<Rightarrow> picker \<Rightarrow> (nat \<times> picker) option" where
  "down_loop 0 q temp elem_index k = Some (elem_index, k)"
| "down_loop (Suc n) q temp elem_index k =
     (if q = 0 \<or> length (pk_bounds k) < q then None
      else
        (let new_index = pk_bounds k ! (q - 1); k1 = set_bound (q - 1) (new_index + 1) k
         in case move_if temp new_index elem_index k1 of
              None \<Rightarrow> None
            | Some (temp1, k2) \<Rightarrow> down_loop n (q - 1) temp1 new_index k2))"

fun up_loop :: "nat \<Rightarrow> nat \<Rightarrow> nat \<Rightarrow> nat \<Rightarrow> picker \<Rightarrow> (nat \<times> picker) option" where
  "up_loop 0 q temp elem_index k = Some (elem_index, k)"
| "up_loop (Suc n) q temp elem_index k =
     (if length (pk_bounds k) \<le> q \<or> pk_bounds k ! q = 0 then None
      else
        (let new_index = pk_bounds k ! q - 1; k1 = set_bound q new_index k
         in case move_if temp new_index elem_index k1 of
              None \<Rightarrow> None
            | Some (temp1, k2) \<Rightarrow> up_loop n (q + 1) temp1 new_index k2))"

definition pk_update :: "nat \<Rightarrow> nat \<Rightarrow> nat \<Rightarrow> picker \<Rightarrow> picker option" where
  "pk_update random q elem_index k =
     (case vec_at (pk_pieces k) elem_index of
        Some (Some x) \<Rightarrow>
          (case vec_at (pk_map k) x of
             None \<Rightarrow> None
           | Some p \<Rightarrow>
               (case priority (pk_seeds k) p of
                  None \<Rightarrow> pk_remove q elem_index k
                | Some new_q \<Rightarrow>
                    if new_q = q then Some k
                    else
                      (let k1 = grow_bounds new_q k
                       in case (if new_q < q then down_loop (q - new_q) q x elem_index k1
                                else up_loop (new_q - q) q x elem_index k1) of
                            None \<Rightarrow> None
                          | Some (i, k2) \<Rightarrow>
                              (case place i x k2 of
                                 None \<Rightarrow> None
                               | Some k3 \<Rightarrow> pk_shuffle random new_q i k3))))
      | _ \<Rightarrow> None)"

end
