(* ===== verification/PickerSpec.thy ===== *)
theory PickerSpec
  imports PickerBuckets
begin

section \<open>The buckets of the piece picker stay sorted\<close>

text \<open>
  \<open>filed H V k\<close>: outside the positions \<open>H\<close> the vector holds pieces, each knows its position and lies in
  the bucket of its priority; and every piece with a priority that is not in \<open>V\<close> is held there. A loop of
  the picker has one hole and one or two pieces in flight; \<open>buckets_ok\<close> has none. The lemmas open a hole
  (\<open>filed_open\<close>), move the boundaries (\<open>filed_bounds\<close>) and fill a hole (\<open>filed_fill\<close>); the proofs
  of the operations are made of these three.
\<close>

named_theorems picker_simps

definition in_bucket :: "nat list \<Rightarrow> nat \<Rightarrow> nat \<Rightarrow> bool" where
  "in_bucket b q i \<longleftrightarrow> q < length b \<and> range_start b q \<le> i \<and> i < b ! q"

definition filed :: "nat set \<Rightarrow> nat set \<Rightarrow> picker \<Rightarrow> bool" where
  "filed H V k \<longleftrightarrow>
     (\<forall>i < length (pk_pieces k). i \<notin> H \<longrightarrow>
        (\<exists>x q. pk_pieces k ! i = Some x \<and> x < length (pk_map k) \<and> x \<notin> V \<and>
               pos_index (pk_map k ! x) = i \<and> prio_of k x = Some q \<and> in_bucket (pk_bounds k) q i)) \<and>
     (\<forall>x < length (pk_map k). x \<notin> V \<and> prio_of k x \<noteq> None \<longrightarrow>
        pos_index (pk_map k ! x) < length (pk_pieces k) \<and> pos_index (pk_map k ! x) \<notin> H \<and>
        pk_pieces k ! pos_index (pk_map k ! x) = Some x)"

definition bounds_ok :: "picker \<Rightarrow> bool" where
  "bounds_ok k \<longleftrightarrow> pk_bounds k \<noteq> [] \<and> sorted (pk_bounds k) \<and> length (pk_map k) < we_have_index"

definition buckets_ok :: "picker \<Rightarrow> bool" where
  "buckets_ok k \<longleftrightarrow> filed {} {} k \<and> bounds_ok k \<and> last (pk_bounds k) = length (pk_pieces k)"

subsection \<open>Steps\<close>

lemma filed_slot:
  assumes "filed H V k" "i < length (pk_pieces k)" "i \<notin> H"
  obtains x q where "pk_pieces k ! i = Some x" "x < length (pk_map k)" "x \<notin> V"
    "pos_index (pk_map k ! x) = i" "prio_of k x = Some q" "in_bucket (pk_bounds k) q i"
  using assms unfolding filed_def by blast

lemma filed_open:
  assumes "filed H V k" "i < length (pk_pieces k)" "i \<notin> H" "pk_pieces k ! i = Some x"
  shows "filed (insert i H) (insert x V) k"
proof -
  obtain q where x: "x < length (pk_map k)" "x \<notin> V" "pos_index (pk_map k ! x) = i"
    using filed_slot [OF assms(1-3)] assms(4) by auto
  show ?thesis
    unfolding filed_def
  proof (intro conjI allI impI)
    fix j assume j: "j < length (pk_pieces k)" "j \<notin> insert i H"
    from filed_slot [OF assms(1) j(1)] j(2)
    obtain y q where y: "pk_pieces k ! j = Some y" "y < length (pk_map k)" "y \<notin> V"
      "pos_index (pk_map k ! y) = j" "prio_of k y = Some q" "in_bucket (pk_bounds k) q j" by auto
    moreover have "y \<noteq> x" using y(4) x(3) j(2) by auto
    ultimately show "\<exists>y q. pk_pieces k ! j = Some y \<and> y < length (pk_map k) \<and> y \<notin> insert x V \<and>
        pos_index (pk_map k ! y) = j \<and> prio_of k y = Some q \<and> in_bucket (pk_bounds k) q j" by blast
  next
    fix y assume y: "y < length (pk_map k)" "y \<notin> insert x V \<and> prio_of k y \<noteq> None"
    with assms(1) have p: "pos_index (pk_map k ! y) < length (pk_pieces k)" "pos_index (pk_map k ! y) \<notin> H"
      "pk_pieces k ! pos_index (pk_map k ! y) = Some y" by (auto simp: filed_def)
    then have "pos_index (pk_map k ! y) \<noteq> i" using assms(4) y(2) by auto
    with p show "pos_index (pk_map k ! y) < length (pk_pieces k)"
      "pos_index (pk_map k ! y) \<notin> insert i H" "pk_pieces k ! pos_index (pk_map k ! y) = Some y" by auto
  qed
qed

lemma filed_bounds:
  assumes "filed H V k" "\<And>i q. i \<notin> H \<Longrightarrow> in_bucket (pk_bounds k) q i \<Longrightarrow> in_bucket b q i"
  shows "filed H V (k\<lparr>pk_bounds := b\<rparr>)"
  using assms unfolding filed_def by (simp; blast)

lemma prio_of_place:
  "i \<noteq> we_have_index \<Longrightarrow> \<not> pp_have p \<Longrightarrow> priority s (p\<lparr>pos_index := i\<rparr>) = priority s p"
  by (simp add: priority_def filtered_def pp_have_def)

lemma priority_have: "priority s p = Some q \<Longrightarrow> \<not> pp_have p"
  by (auto simp: priority_def)

definition placed :: "nat \<Rightarrow> nat \<Rightarrow> picker \<Rightarrow> picker" where
  "placed i x k = k\<lparr>pk_pieces := (pk_pieces k)[i := Some x],
                    pk_map := (pk_map k)[x := (pk_map k ! x)\<lparr>pos_index := i\<rparr>]\<rparr>"

lemma place_placed:
  "i < length (pk_pieces k) \<Longrightarrow> x < length (pk_map k) \<Longrightarrow> place i x k = Some (placed i x k)"
  by (simp add: place_def placed_def)

lemma placed_simps [picker_simps]:
  "pk_bounds (placed i x k) = pk_bounds k" "pk_pieces (placed i x k) = (pk_pieces k)[i := Some x]"
  "length (pk_map (placed i x k)) = length (pk_map k)" "pk_seeds (placed i x k) = pk_seeds k"
  by (simp_all add: placed_def)

lemma filed_fill:
  assumes f: "filed H V k" and h: "h \<in> H" "h < length (pk_pieces k)" "h \<noteq> we_have_index"
    and x: "x \<in> V" "x < length (pk_map k)" "prio_of k x = Some q" "in_bucket (pk_bounds k) q h"
  shows "filed (H - {h}) (V - {x}) (placed h x k)"
proof -
  have px: "prio_of (placed h x k) y = prio_of k y" if "y < length (pk_map k)" for y
    using that x(2) prio_of_place [OF h(3) priority_have [OF x(3)], of "pk_seeds k"]
    by (cases "y = x") (simp_all add: placed_def)
  show ?thesis
    unfolding filed_def
  proof (intro conjI allI impI)
    fix j assume j: "j < length (pk_pieces (placed h x k))" "j \<notin> H - {h}"
    show "\<exists>y q. pk_pieces (placed h x k) ! j = Some y \<and> y < length (pk_map (placed h x k)) \<and> y \<notin> V - {x} \<and>
        pos_index (pk_map (placed h x k) ! y) = j \<and> prio_of (placed h x k) y = Some q \<and>
        in_bucket (pk_bounds (placed h x k)) q j"
    proof (cases "j = h")
      case True
      with h x px [of x] show ?thesis by (simp add: placed_def)
    next
      case False
      with j have j': "j < length (pk_pieces k)" "j \<notin> H" by (auto simp: placed_def)
      from filed_slot [OF f this] obtain y r where "pk_pieces k ! j = Some y" "y < length (pk_map k)" "y \<notin> V"
        "pos_index (pk_map k ! y) = j" "prio_of k y = Some r" "in_bucket (pk_bounds k) r j" by blast
      moreover from this x(1) have "y \<noteq> x" by auto
      ultimately show ?thesis using False px [of y] by (simp add: placed_def)
    qed
  next
    fix y assume y: "y < length (pk_map (placed h x k))"
      "y \<notin> V - {x} \<and> prio_of (placed h x k) y \<noteq> None"
    let ?i = "pos_index (pk_map (placed h x k) ! y)"
    have "?i < length (pk_pieces (placed h x k)) \<and> ?i \<notin> H - {h} \<and> pk_pieces (placed h x k) ! ?i = Some y"
    proof (cases "y = x")
      case True
      with x h show ?thesis by (simp add: placed_def)
    next
      case False
      with y px [of y] have "y < length (pk_map k)" "y \<notin> V" "prio_of k y \<noteq> None" by (auto simp: placed_def)
      with f have "pos_index (pk_map k ! y) < length (pk_pieces k)" "pos_index (pk_map k ! y) \<notin> H"
        "pk_pieces k ! pos_index (pk_map k ! y) = Some y" by (auto simp: filed_def)
      with False h show ?thesis by (auto simp: placed_def nth_list_update)
    qed
    then show "?i < length (pk_pieces (placed h x k))" "?i \<notin> H - {h}" "pk_pieces (placed h x k) ! ?i = Some y"
      by auto
  qed
qed

subsection \<open>What the operations leave alone\<close>

definition same_piece :: "piece_pos \<Rightarrow> piece_pos \<Rightarrow> bool" where
  "same_piece p p' \<longleftrightarrow> p\<lparr>pos_index := 0\<rparr> = p'\<lparr>pos_index := 0\<rparr> \<and> pp_have p = pp_have p'"

definition reindexed :: "picker \<Rightarrow> picker \<Rightarrow> bool" where
  "reindexed k k' \<longleftrightarrow>
     list_all2 same_piece (pk_map k) (pk_map k') \<and>
     k' = k\<lparr>pk_pieces := pk_pieces k', pk_bounds := pk_bounds k', pk_map := pk_map k'\<rparr>"

lemma same_piece_refl [simp]: "same_piece p p"
  by (simp add: same_piece_def)

lemma reindexed_refl [intro, simp]: "reindexed k k"
  by (simp add: reindexed_def list_all2_refl)

lemma reindexed_trans [trans]: "reindexed k k1 \<Longrightarrow> reindexed k1 k2 \<Longrightarrow> reindexed k k2"
  unfolding reindexed_def
  by (rule conjI, rule list_all2_trans [of same_piece same_piece same_piece "pk_map k" "pk_map k1"])
    (auto simp: same_piece_def; cases k; cases k1; cases k2; auto)+

lemma reindexed_bounds [simp]: "reindexed k (k\<lparr>pk_bounds := b\<rparr>)"
  by (simp add: reindexed_def list_all2_refl)

lemma reindexed_pieces [simp]: "reindexed k (k\<lparr>pk_pieces := b\<rparr>)"
  by (simp add: reindexed_def list_all2_refl)

lemma reindexed_set_bound [simp]: "reindexed k (set_bound q b k)"
  by (simp add: set_bound_def)

lemma reindexed_placed:
  "x < length (pk_map k) \<Longrightarrow> \<not> pp_have (pk_map k ! x) \<Longrightarrow> h \<noteq> we_have_index \<Longrightarrow> reindexed k (placed h x k)"
  by (auto simp: reindexed_def placed_def list_all2_conv_all_nth nth_list_update same_piece_def pp_have_def)

lemma same_piece_priority: "same_piece p p' \<Longrightarrow> priority s p' = priority s p"
  by (cases p; cases p') (auto simp: same_piece_def priority_def filtered_def pp_have_def)

lemma reindexed_simps:
  assumes "reindexed k k'"
  shows "length (pk_map k') = length (pk_map k)" "pk_seeds k' = pk_seeds k" "pk_dirty k' = pk_dirty k"
    "x < length (pk_map k) \<Longrightarrow> same_piece (pk_map k ! x) (pk_map k' ! x)"
    "x < length (pk_map k) \<Longrightarrow> prio_of k' x = prio_of k x"
proof -
  show l: "length (pk_map k') = length (pk_map k)" using assms by (auto simp: reindexed_def list_all2_lengthD)
  have e: "k' = k\<lparr>pk_pieces := pk_pieces k', pk_bounds := pk_bounds k', pk_map := pk_map k'\<rparr>"
    using assms unfolding reindexed_def by blast
  show s: "pk_seeds k' = pk_seeds k" by (subst e) simp
  show "pk_dirty k' = pk_dirty k" by (subst e) simp
  show sp: "same_piece (pk_map k ! x) (pk_map k' ! x)" if "x < length (pk_map k)"
    using assms that by (auto simp: reindexed_def list_all2_conv_all_nth)
  show "prio_of k' x = prio_of k x" if "x < length (pk_map k)"
    using same_piece_priority [OF sp [OF that]] s by simp
qed

subsection \<open>Boundaries\<close>

lemma range_start_le: "sorted b \<Longrightarrow> q < length b \<Longrightarrow> range_start b q \<le> b ! q"
  by (auto simp: range_start_def intro: sorted_nth_mono)

lemma sorted_update:
  "sorted (b :: nat list) \<Longrightarrow> q < length b \<Longrightarrow> range_start b q \<le> e \<Longrightarrow> (q + 1 < length b \<Longrightarrow> e \<le> b ! (q + 1)) \<Longrightarrow>
    sorted (b[q := e])"
  unfolding sorted_iff_nth_Suc
  by (auto simp: nth_list_update range_start_def split: if_splits)

text \<open>The boundary of bucket \<open>q\<close> moves down: its last position falls out.\<close>

lemma bucket_shrink:
  assumes "sorted b" "q < length b" "in_bucket b r i" "i \<noteq> b ! q - 1"
  shows "in_bucket (b[q := b ! q - 1]) r i"
  using assms range_start_le [of b q]
  by (auto simp: in_bucket_def range_start_def nth_list_update split: if_splits
      intro: le_trans [OF diff_le_self])

lemma shrink_next:
  assumes "sorted b" "q + 1 < length b" "b ! q \<noteq> 0"
  shows "in_bucket (b[q := b ! q - 1]) (q + 1) (b ! q - 1)"
  using assms sorted_nth_mono [of b q "q + 1"] by (auto simp: in_bucket_def range_start_def)

lemma shrink_sorted:
  assumes "sorted b" "in_bucket b q h"
  shows "sorted (b[q := b ! q - 1])"
  using assms sorted_nth_mono [of b q "q + 1"]
  by (intro sorted_update) (auto simp: in_bucket_def)

text \<open>The boundary before bucket \<open>q\<close> moves up: its first position falls out.\<close>

lemma bucket_grow:
  assumes "q < length b" "q \<noteq> 0" "in_bucket b r i" "i \<noteq> b ! (q - 1)"
  shows "in_bucket (b[q - 1 := b ! (q - 1) + 1]) r i"
  using assms by (auto simp: in_bucket_def range_start_def nth_list_update split: if_splits)

lemma grow_prev:
  assumes "sorted b" "q < length b" "q \<noteq> 0"
  shows "in_bucket (b[q - 1 := b ! (q - 1) + 1]) (q - 1) (b ! (q - 1))"
  using assms range_start_le [of b "q - 1"] by (auto simp: in_bucket_def range_start_def nth_list_update)

lemma grow_sorted:
  assumes "sorted b" "in_bucket b q h" "q \<noteq> 0"
  shows "sorted (b[q - 1 := b ! (q - 1) + 1])"
  using assms range_start_le [of b "q - 1"] sorted_nth_mono [of b "q - 1" q]
  by (intro sorted_update) (auto simp: in_bucket_def range_start_def intro: le_SucI)

lemma bucket_unique:
  assumes "sorted b" "in_bucket b q i" "in_bucket b r i"
  shows "q = r"
proof -
  have "\<not> q < r" if "in_bucket b q i" "in_bucket b r i" for q r
  proof
    assume "q < r"
    then have "b ! q \<le> b ! (r - 1)" using that assms(1) by (intro sorted_nth_mono) (auto simp: in_bucket_def)
    with that \<open>q < r\<close> show False by (auto simp: in_bucket_def range_start_def split: if_splits)
  qed
  from this [OF assms(2,3)] this [OF assms(3,2)] show ?thesis by simp
qed

lemma bucket_below_last:
  assumes "sorted b" "in_bucket b q i"
  shows "i < last b"
proof -
  have "b ! q \<le> b ! (length b - 1)" "b \<noteq> []"
    using assms by (auto simp: in_bucket_def intro!: sorted_nth_mono)
  with assms(2) show ?thesis by (simp add: in_bucket_def last_conv_nth)
qed

subsection \<open>One step: the hole moves\<close>

lemma filed_card:
  assumes "filed H V k"
  shows "card ({..<length (pk_pieces k)} - H) \<le> length (pk_map k)"
proof -
  let ?I = "{..<length (pk_pieces k)} - H"
  let ?f = "\<lambda>i. the (pk_pieces k ! i)"
  have s: "?f i < length (pk_map k) \<and> pos_index (pk_map k ! ?f i) = i" if "i \<in> ?I" for i
  proof -
    from that have "i < length (pk_pieces k)" "i \<notin> H" by auto
    then show ?thesis by (rule filed_slot [OF assms]) simp
  qed
  have "inj_on ?f ?I"
  proof (rule inj_onI)
    fix i j assume "i \<in> ?I" "j \<in> ?I" "?f i = ?f j"
    then show "i = j" using s [of i] s [of j] by argo
  qed
  moreover have "?f ` ?I \<subseteq> {..<length (pk_map k)}" using s by auto
  ultimately have "card ?I \<le> card {..<length (pk_map k)}" by (rule card_inj_on_le) simp
  then show ?thesis by simp
qed

lemma filed_length: "filed {h} V k \<Longrightarrow> length (pk_pieces k) \<le> Suc (length (pk_map k))"
  using filed_card [of "{h}" V k] by (cases "h < length (pk_pieces k)") simp_all

definition holed :: "nat \<Rightarrow> nat \<Rightarrow> nat set \<Rightarrow> picker \<Rightarrow> bool" where
  "holed h q V k \<longleftrightarrow> filed {h} V k \<and> bounds_ok k \<and> last (pk_bounds k) = length (pk_pieces k) \<and>
     in_bucket (pk_bounds k) q h"

lemma holed_simps:
  assumes "holed h q V k"
  shows "filed {h} V k" "sorted (pk_bounds k)" "last (pk_bounds k) = length (pk_pieces k)"
    "in_bucket (pk_bounds k) q h" "h < length (pk_pieces k)" "h \<noteq> we_have_index" "bounds_ok k"
    "q < length (pk_bounds k)" "pk_bounds k \<noteq> []"
proof -
  show f: "filed {h} V k" "sorted (pk_bounds k)" "last (pk_bounds k) = length (pk_pieces k)"
    "in_bucket (pk_bounds k) q h" "bounds_ok k" "pk_bounds k \<noteq> []"
    using assms by (auto simp: holed_def bounds_ok_def)
  show h: "h < length (pk_pieces k)" using bucket_below_last [OF f(2,4)] f(3) by simp
  show "q < length (pk_bounds k)" using f(4) by (simp add: in_bucket_def)
  show "h \<noteq> we_have_index" using filed_length [OF f(1)] h f(5) by (auto simp: bounds_ok_def)
qed

lemma filed_move:
  assumes f: "filed {h} V k" and h: "h < length (pk_pieces k)" "h \<noteq> we_have_index"
    and new: "new < length (pk_pieces k)" "new \<noteq> h" "in_bucket (pk_bounds k) q new" "sorted (pk_bounds k)"
    and b: "\<And>i r. i \<notin> {h, new} \<Longrightarrow> in_bucket (pk_bounds k) r i \<Longrightarrow> in_bucket b r i" "in_bucket b q h"
  obtains y where "pk_pieces k ! new = Some y" "y < length (pk_map k)" "y \<notin> V"
    "pos_index (pk_map k ! y) = new" "place h y (k\<lparr>pk_bounds := b\<rparr>) = Some (placed h y (k\<lparr>pk_bounds := b\<rparr>))"
    "filed {new} V (placed h y (k\<lparr>pk_bounds := b\<rparr>))" "reindexed k (placed h y (k\<lparr>pk_bounds := b\<rparr>))"
proof -
  obtain y r where y: "pk_pieces k ! new = Some y" "y < length (pk_map k)" "y \<notin> V"
    "pos_index (pk_map k ! y) = new" "prio_of k y = Some r" "in_bucket (pk_bounds k) r new"
    using filed_slot [OF f new(1)] new(2) by auto
  have r: "r = q" using bucket_unique [OF new(4) y(6) new(3)] .
  let ?k = "k\<lparr>pk_bounds := b\<rparr>"
  have "filed {new, h} (insert y V) k" using filed_open [OF f new(1) _ y(1)] new(2) by simp
  then have "filed {new, h} (insert y V) ?k" by (rule filed_bounds) (simp add: b(1))
  from filed_fill [OF this, of h y q] have "filed {new} V (placed h y ?k)"
    using h y r b(2) new(2) by (simp add: insert_Diff_if)
  moreover have "reindexed k (placed h y ?k)"
    using reindexed_trans [OF reindexed_bounds reindexed_placed [of y ?k h]] y(2) h(2)
      priority_have [OF y(5)] by simp
  ultimately show thesis using that [of y] y h place_placed [of h ?k y] by simp
qed

lemma last_update: "q + 1 < length b \<Longrightarrow> last (b[q := e]) = last b"
  by (cases "b = []") (simp_all add: last_conv_nth)

lemma set_bound_eq: "set_bound q e k = k\<lparr>pk_bounds := (pk_bounds k)[q := e]\<rparr>"
  by (simp add: set_bound_def)

lemma holed_down:
  assumes hl: "holed h q V k" and q: "q \<noteq> 0"
    and t: "pk_pieces k ! h = Some t" "t \<in> V \<or> t < length (pk_map k) \<and> h < pos_index (pk_map k ! t)"
  defines "new \<equiv> pk_bounds k ! (q - 1)"
  shows "\<exists>t1 k1. move_if t new h (set_bound (q - 1) (new + 1) k) = Some (t1, k1) \<and> holed new (q - 1) V k1 \<and>
    pk_pieces k1 ! new = Some t1 \<and> (t1 \<in> V \<or> t1 < length (pk_map k1) \<and> new < pos_index (pk_map k1 ! t1)) \<and>
    length (pk_bounds k1) = length (pk_bounds k) \<and> length (pk_pieces k1) = length (pk_pieces k) \<and> reindexed k k1"
proof -
  note hs = holed_simps [OF hl]
  let ?b = "(pk_bounds k)[q - 1 := new + 1]"
  have nh: "new \<le> h" using hs(4) q by (simp add: in_bucket_def range_start_def new_def)
  then have nl: "new < length (pk_pieces k)" using hs(5) by simp
  have sb: "sorted ?b" using grow_sorted [OF hs(2,4) q] by (simp add: new_def)
  have bn: "in_bucket ?b (q - 1) new" using grow_prev [OF hs(2,8) q] by (simp add: new_def)
  have lb: "last ?b = length (pk_pieces k)" using hs(3,8) q by (simp add: last_update)
  have bg: "in_bucket ?b r i" if "i \<noteq> new" "in_bucket (pk_bounds k) r i" for i r
    using bucket_grow [OF hs(8) q that(2)] that(1) by (simp add: new_def)
  then have bm: "in_bucket ?b r i" if "i \<notin> {h, new}" "in_bucket (pk_bounds k) r i" for i r
    using that by simp
  show ?thesis
  proof (cases "new = h")
    case True
    have "filed {h} V (k\<lparr>pk_bounds := ?b\<rparr>)" by (rule filed_bounds [OF hs(1)]) (use bg True in auto)
    with t hs sb bn lb True show ?thesis by (simp add: move_if_def set_bound_eq holed_def bounds_ok_def)
  next
    case False
    have qn: "in_bucket (pk_bounds k) q new"
      using hs(4) nh q by (simp add: in_bucket_def range_start_def new_def)
    from filed_move [OF hs(1,5,6) nl False qn hs(2) bm bg [OF _ hs(4)]] False
    obtain y where y: "pk_pieces k ! new = Some y" "y < length (pk_map k)" "y \<notin> V"
      "pos_index (pk_map k ! y) = new" "place h y (k\<lparr>pk_bounds := ?b\<rparr>) = Some (placed h y (k\<lparr>pk_bounds := ?b\<rparr>))"
      "filed {new} V (placed h y (k\<lparr>pk_bounds := ?b\<rparr>))" "reindexed k (placed h y (k\<lparr>pk_bounds := ?b\<rparr>))"
      by blast
    have ty: "t \<noteq> y" using t(2) y(3,4) nh by auto
    have "new < pos_index (pk_map (placed h y (k\<lparr>pk_bounds := ?b\<rparr>)) ! y)"
      using y(2) nh False by (simp add: placed_def)
    with y ty nl hs sb bn lb False show ?thesis
      by (simp add: move_if_def set_bound_eq holed_def bounds_ok_def picker_simps)
  qed
qed

lemma down_loop_ok:
  assumes "holed h q V k" "n \<le> q"
    "pk_pieces k ! h = Some t" "t \<in> V \<or> t < length (pk_map k) \<and> h < pos_index (pk_map k ! t)"
  shows "\<exists>h' k'. down_loop n q t h k = Some (h', k') \<and> holed h' (q - n) V k' \<and> reindexed k k'"
  using assms
proof (induction n arbitrary: q t h k)
  case (Suc n)
  then have q: "q \<noteq> 0" and n1: "n \<le> q - 1" by simp_all
  from holed_down [OF Suc.prems(1) q Suc.prems(3,4)] obtain t1 k1 where
    s: "move_if t (pk_bounds k ! (q - 1)) h (set_bound (q - 1) (pk_bounds k ! (q - 1) + 1) k) = Some (t1, k1)"
    "holed (pk_bounds k ! (q - 1)) (q - 1) V k1" "pk_pieces k1 ! (pk_bounds k ! (q - 1)) = Some t1"
    "t1 \<in> V \<or> t1 < length (pk_map k1) \<and> pk_bounds k ! (q - 1) < pos_index (pk_map k1 ! t1)" "reindexed k k1"
    by blast
  obtain h' k' where "down_loop n (q - 1) t1 (pk_bounds k ! (q - 1)) k1 = Some (h', k')"
    "holed h' (q - 1 - n) V k'" "reindexed k1 k'"
    using Suc.IH [OF s(2) n1 s(3,4)] by auto
  with s(1,5) q holed_simps(8) [OF Suc.prems(1)] show ?case by (auto simp: Let_def intro: reindexed_trans)
qed simp

lemma holed_up:
  assumes hl: "holed h q V k" and q: "q + 1 < length (pk_bounds k)"
    and t: "pk_pieces k ! h = Some t" "t \<in> V \<or> t < length (pk_map k) \<and> pos_index (pk_map k ! t) < h"
  defines "new \<equiv> pk_bounds k ! q - 1"
  shows "\<exists>t1 k1. move_if t new h (set_bound q new k) = Some (t1, k1) \<and> holed new (q + 1) V k1 \<and>
    pk_pieces k1 ! new = Some t1 \<and> (t1 \<in> V \<or> t1 < length (pk_map k1) \<and> pos_index (pk_map k1 ! t1) < new) \<and>
    length (pk_bounds k1) = length (pk_bounds k) \<and> reindexed k k1"
proof -
  note hs = holed_simps [OF hl]
  let ?b = "(pk_bounds k)[q := new]"
  have b0: "pk_bounds k ! q \<noteq> 0" and hn: "h \<le> new" using hs(4) by (auto simp: in_bucket_def new_def)
  have "pk_bounds k ! q \<le> last (pk_bounds k)"
    using sorted_nth_mono [OF hs(2), of q "length (pk_bounds k) - 1"] q hs(9) by (simp add: last_conv_nth)
  then have nl: "new < length (pk_pieces k)" using hs(3) b0 by (simp add: new_def)
  have sb: "sorted ?b" using shrink_sorted [OF hs(2,4)] by (simp add: new_def)
  have bn: "in_bucket ?b (q + 1) new" using shrink_next [OF hs(2) q b0] by (simp add: new_def)
  have lb: "last ?b = length (pk_pieces k)" using hs(3) q by (simp add: last_update)
  have bg: "in_bucket ?b r i" if "i \<noteq> new" "in_bucket (pk_bounds k) r i" for i r
    using bucket_shrink [OF hs(2,8) that(2)] that(1) by (simp add: new_def)
  then have bm: "in_bucket ?b r i" if "i \<notin> {h, new}" "in_bucket (pk_bounds k) r i" for i r
    using that by simp
  show ?thesis
  proof (cases "new = h")
    case True
    have "filed {h} V (k\<lparr>pk_bounds := ?b\<rparr>)" by (rule filed_bounds [OF hs(1)]) (use bg True in auto)
    with t hs sb bn lb True show ?thesis by (simp add: move_if_def set_bound_eq holed_def bounds_ok_def)
  next
    case False
    have qn: "in_bucket (pk_bounds k) q new"
      using hs(4) hn b0 by (auto simp: in_bucket_def new_def)
    from filed_move [OF hs(1,5,6) nl False qn hs(2) bm bg [OF _ hs(4)]] False
    obtain y where y: "pk_pieces k ! new = Some y" "y < length (pk_map k)" "y \<notin> V"
      "pos_index (pk_map k ! y) = new" "place h y (k\<lparr>pk_bounds := ?b\<rparr>) = Some (placed h y (k\<lparr>pk_bounds := ?b\<rparr>))"
      "filed {new} V (placed h y (k\<lparr>pk_bounds := ?b\<rparr>))" "reindexed k (placed h y (k\<lparr>pk_bounds := ?b\<rparr>))"
      by blast
    have ty: "t \<noteq> y" using t(2) y(3,4) hn by auto
    have "pos_index (pk_map (placed h y (k\<lparr>pk_bounds := ?b\<rparr>)) ! y) < new"
      using y(2) hn False by (simp add: placed_def)
    with y ty nl hs sb bn lb False show ?thesis
      by (simp add: move_if_def set_bound_eq holed_def bounds_ok_def picker_simps)
  qed
qed

lemma up_loop_ok:
  assumes "holed h q V k" "q + n < length (pk_bounds k)"
    "pk_pieces k ! h = Some t" "t \<in> V \<or> t < length (pk_map k) \<and> pos_index (pk_map k ! t) < h"
  shows "\<exists>h' k'. up_loop n q t h k = Some (h', k') \<and> holed h' (q + n) V k' \<and> reindexed k k'"
  using assms
proof (induction n arbitrary: q t h k)
  case (Suc n)
  then have q: "q + 1 < length (pk_bounds k)" by simp
  from holed_up [OF Suc.prems(1) q Suc.prems(3,4)] obtain t1 k1 where
    s: "move_if t (pk_bounds k ! q - 1) h (set_bound q (pk_bounds k ! q - 1) k) = Some (t1, k1)"
    "holed (pk_bounds k ! q - 1) (q + 1) V k1" "pk_pieces k1 ! (pk_bounds k ! q - 1) = Some t1"
    "t1 \<in> V \<or> t1 < length (pk_map k1) \<and> pos_index (pk_map k1 ! t1) < pk_bounds k ! q - 1"
    "length (pk_bounds k1) = length (pk_bounds k)" "reindexed k k1"
    by blast
  have "q + 1 + n < length (pk_bounds k1)" using s(5) Suc.prems(2) by simp
  from Suc.IH [OF s(2) this s(3,4)] obtain h' k' where
    "up_loop n (q + 1) t1 (pk_bounds k ! q - 1) k1 = Some (h', k')"
    "holed h' (q + 1 + n) V k'" "reindexed k1 k'" by blast
  moreover have "pk_bounds k ! q \<noteq> 0" using holed_simps(4) [OF Suc.prems(1)] by (simp add: in_bucket_def)
  ultimately show ?case using s(1,6) q by (auto simp: Let_def intro: reindexed_trans)
qed simp

lemma bucket_shrink_rev:
  assumes "q < length b" "in_bucket (b[q := b ! q - 1]) r i" "i \<noteq> b ! q - 1" "b ! q \<noteq> 0"
  shows "in_bucket b r i"
  using assms by (auto simp: in_bucket_def range_start_def nth_list_update split: if_splits)

subsection \<open>Removing a piece\<close>

text \<open>
  Where the inner loop stops: at the end of the vector, or at the last piece \<open>t\<close> of the next bucket
  that is not empty, which may go to the hole.
\<close>

definition shrunk :: "nat \<Rightarrow> nat \<Rightarrow> nat \<Rightarrow> nat list \<Rightarrow> nat list \<Rightarrow> nat \<Rightarrow> bool" where
  "shrunk h t q' b b' n \<longleftrightarrow>
     length b' = length b \<and> sorted b' \<and> q' \<le> length b \<and>
     (\<forall>r i. i \<noteq> h \<longrightarrow> i \<noteq> t \<longrightarrow> in_bucket b r i \<longrightarrow> in_bucket b' r i) \<and>
     (if t = h then q' = length b \<and> h + 1 = n \<and> last b' + 1 = n
      else (\<exists>r. in_bucket b r t \<and> in_bucket b' r h) \<and>
        (if q' < length b then in_bucket b' q' t \<and> last b' = n else t + 1 = n \<and> last b' + 1 = n))"

lemma last_update_end: "b \<noteq> [] \<Longrightarrow> last (b[length b - 1 := e]) = e"
  by (simp add: last_conv_nth)

lemma shrink_ok:
  assumes "holed h q V k"
  shows "\<exists>t q' b'. shrink h q k = Some (t, q', k\<lparr>pk_bounds := b'\<rparr>) \<and>
    shrunk h t q' (pk_bounds k) b' (length (pk_pieces k))"
  using assms
proof (induction h q k rule: shrink.induct)
  case (1 h q k)
  note hs = holed_simps [OF 1(2)]
  let ?b = "pk_bounds k" and ?t = "pk_bounds k ! q - 1"
  let ?b1 = "?b[q := ?t]"
  have b0: "?b ! q \<noteq> 0" and ht: "h \<le> ?t" using hs(4) by (auto simp: in_bucket_def)
  have s1: "sorted ?b1" by (rule shrink_sorted [OF hs(2,4)])
  have keep: "in_bucket ?b1 r i" if "i \<noteq> ?t" "in_bucket ?b r i" for r i
    by (rule bucket_shrink [OF hs(2,8) that(2,1)])
  have e: "shrink h q k = (if h = ?t \<and> q + 1 < length ?b then shrink h (q + 1) (set_bound q ?t k)
      else Some (?t, q + 1, set_bound q ?t k))"
    using hs(8) b0 by (subst shrink.simps) (simp add: Let_def)
  show ?case
  proof (cases "h = ?t \<and> q + 1 < length ?b")
    case True
    let ?k = "set_bound q ?t k"
    have "holed h (q + 1) V ?k"
      using hs s1 True filed_bounds [OF hs(1), of ?b1] keep shrink_next [OF hs(2) _ b0]
      by (simp add: holed_def set_bound_eq bounds_ok_def last_update)
    with 1(1) True hs(8) b0 obtain t q' b' where r: "shrink h (q + 1) ?k = Some (t, q', ?k\<lparr>pk_bounds := b'\<rparr>)"
      "shrunk h t q' ?b1 b' (length (pk_pieces k))" by (fastforce simp: set_bound_eq)
    have "\<exists>r. in_bucket ?b r t \<and> in_bucket b' r h" if "t \<noteq> h"
      using r(2) that bucket_shrink_rev [OF hs(8) _ _ b0, of _ t] True by (auto simp: shrunk_def)
    moreover have "in_bucket b' r i" if "i \<noteq> h" "i \<noteq> t" "in_bucket ?b r i" for r i
      using r(2) that keep [of i r] True by (auto simp: shrunk_def)
    ultimately have "shrunk h t q' ?b b' (length (pk_pieces k))"
      using r(2) by (cases "t = h") (auto simp: shrunk_def)
    with r(1) True e show ?thesis by (auto simp: set_bound_eq)
  next
    case False
    have "shrunk h ?t (q + 1) ?b ?b1 (length (pk_pieces k))"
    proof (cases "q + 1 < length ?b")
      case True
      with False have "?t \<noteq> h" by auto
      moreover have "in_bucket ?b q ?t" using hs(4) ht b0 by (auto simp: in_bucket_def)
      moreover have "in_bucket ?b1 q h" using keep [of h q] hs(4) \<open>?t \<noteq> h\<close> by simp
      ultimately show ?thesis
        using True s1 keep shrink_next [OF hs(2) True b0] hs(3) by (auto simp: shrunk_def last_update)
    next
      case stop: False
      then have q: "q = length ?b - 1" using hs(8) by simp
      then have l: "?b ! q = length (pk_pieces k)" using hs(3,9) by (simp add: last_conv_nth)
      have "last ?b1 = ?t" using q hs(9) last_update_end by metis
      moreover have "in_bucket ?b q ?t" using hs(4) ht b0 by (auto simp: in_bucket_def)
      moreover have "?t \<noteq> h \<Longrightarrow> in_bucket ?b1 q h" using keep [of h q] hs(4) by simp
      ultimately show ?thesis
        using stop s1 keep hs(8) l b0 by (auto simp: shrunk_def)
    qed
    with False e show ?thesis by (auto simp: set_bound_eq)
  qed
qed

text \<open>The end of the loop: the hole is the last position.\<close>

definition emptied :: "nat set \<Rightarrow> picker \<Rightarrow> picker \<Rightarrow> bool" where
  "emptied V k k' \<longleftrightarrow> length (pk_pieces k') = length (pk_pieces k) \<and> pk_pieces k \<noteq> [] \<and>
     filed {length (pk_pieces k) - 1} V k' \<and> bounds_ok k' \<and>
     last (pk_bounds k') = length (pk_pieces k) - 1 \<and> reindexed k k'"

lemma remove_loop_ok:
  assumes "holed h q V k"
  shows "\<exists>k'. remove_loop h q k = Some k' \<and> emptied V k k'"
  using assms
proof (induction "length (pk_bounds k) - q" arbitrary: h q k rule: less_induct)
  case (less q k h)
  note hs = holed_simps [OF less(2)]
  let ?n = "length (pk_pieces k)"
  obtain t q' b' where sh: "shrink h q k = Some (t, q', k\<lparr>pk_bounds := b'\<rparr>)"
    and b: "shrunk h t q' (pk_bounds k) b' ?n"
    using shrink_ok [OF less(2)] by blast
  have q: "q < q'" using shrink_later [OF sh] by simp
  let ?k1 = "k\<lparr>pk_bounds := b'\<rparr>"
  have bo: "bounds_ok ?k1" using b hs(7) by (auto simp: shrunk_def bounds_ok_def)
  show ?case
  proof (cases "t = h")
    case True
    have "filed {h} V ?k1" by (rule filed_bounds [OF hs(1)]) (use b True in \<open>auto simp: shrunk_def\<close>)
    moreover have "h = ?n - 1" "last b' = ?n - 1" "pk_pieces k \<noteq> []"
      using b True hs(5) by (auto simp: shrunk_def)
    ultimately show ?thesis
      using bo sh True by (subst remove_loop.simps) (simp add: emptied_def)
  next
    case False
    with b obtain r where r: "in_bucket (pk_bounds k) r t" "in_bucket b' r h" by (auto simp: shrunk_def)
    have tn: "t < ?n" using bucket_below_last [OF hs(2) r(1)] hs(3) by simp
    have keep: "in_bucket b' s i" if "i \<notin> {h, t}" "in_bucket (pk_bounds k) s i" for s i
      using b that by (simp add: shrunk_def)
    obtain y where y: "pk_pieces k ! t = Some y" "y < length (pk_map k)"
      "place h y ?k1 = Some (placed h y ?k1)" "filed {t} V (placed h y ?k1)" "reindexed k (placed h y ?k1)"
      by (rule filed_move [OF hs(1,5,6) tn False r(1) hs(2) keep r(2)])
    let ?k2 = "placed h y ?k1"
    have tk: "take_out t h ?k1 = Some ?k2" using y tn by (simp add: take_out_def)
    have bo2: "bounds_ok ?k2" using bo by (simp add: bounds_ok_def picker_simps)
    show ?thesis
    proof (cases "q' < length (pk_bounds k)")
      case True
      with b False have h2: "holed t q' V ?k2"
        using y(4) bo2 by (simp add: shrunk_def holed_def picker_simps)
      have "length (pk_bounds ?k2) - q' < length (pk_bounds k) - q"
        using b q True by (simp add: shrunk_def picker_simps)
      from less(1) [OF this h2] obtain k' where k': "remove_loop t q' ?k2 = Some k'" "emptied V ?k2 k'" by blast
      have "emptied V k k'"
        using k'(2) reindexed_trans [OF y(5)] tn by (auto simp: emptied_def picker_simps)
      moreover have "q' \<noteq> length (pk_bounds ?k2)" using True b by (simp add: shrunk_def picker_simps)
      ultimately show ?thesis using sh tk k'(1) False by (subst remove_loop.simps) simp
    next
      case stop: False
      with b False have "t = ?n - 1" "last b' = ?n - 1" by (auto simp: shrunk_def)
      then have "emptied V k ?k2" using y(4,5) bo2 tn by (auto simp: emptied_def picker_simps)
      moreover have "q' = length (pk_bounds ?k2)" using stop b by (simp add: shrunk_def picker_simps)
      ultimately show ?thesis using sh tk False by (subst remove_loop.simps) simp
    qed
  qed
qed

lemma filed_butlast:
  assumes "filed {length (pk_pieces k) - 1} V k" "pk_pieces k \<noteq> []"
  shows "filed {} V (k\<lparr>pk_pieces := butlast (pk_pieces k)\<rparr>)"
  unfolding filed_def
proof (intro conjI allI impI)
  fix i assume "i < length (pk_pieces (k\<lparr>pk_pieces := butlast (pk_pieces k)\<rparr>))" "i \<notin> {}"
  then have "i < length (pk_pieces k)" "i \<notin> {length (pk_pieces k) - 1}" "i < length (butlast (pk_pieces k))" by auto
  from filed_slot [OF assms(1) this(1,2)] this(3) show "\<exists>x q. pk_pieces (k\<lparr>pk_pieces := butlast (pk_pieces k)\<rparr>) ! i = Some x \<and>
      x < length (pk_map (k\<lparr>pk_pieces := butlast (pk_pieces k)\<rparr>)) \<and> x \<notin> V \<and>
      pos_index (pk_map (k\<lparr>pk_pieces := butlast (pk_pieces k)\<rparr>) ! x) = i \<and>
      prio_of (k\<lparr>pk_pieces := butlast (pk_pieces k)\<rparr>) x = Some q \<and>
      in_bucket (pk_bounds (k\<lparr>pk_pieces := butlast (pk_pieces k)\<rparr>)) q i"
    by (simp add: nth_butlast) metis
next
  fix x
  let ?k = "k\<lparr>pk_pieces := butlast (pk_pieces k)\<rparr>"
  assume "x < length (pk_map ?k)" "x \<notin> V \<and> prio_of ?k x \<noteq> None"
  with assms(1) have "pos_index (pk_map k ! x) < length (pk_pieces k)"
    "pos_index (pk_map k ! x) \<noteq> length (pk_pieces k) - 1" "pk_pieces k ! pos_index (pk_map k ! x) = Some x"
    by (auto simp: filed_def)
  then show "pos_index (pk_map ?k ! x) < length (pk_pieces ?k)" "pos_index (pk_map ?k ! x) \<notin> {}"
    "pk_pieces ?k ! pos_index (pk_map ?k ! x) = Some x"
    by (auto simp: nth_butlast)
qed

lemma filed_absent:
  assumes "filed H V k" "\<And>x. x \<in> U \<Longrightarrow> x < length (pk_map k) \<Longrightarrow> prio_of k x = None"
  shows "filed H (V - U) k"
  unfolding filed_def
proof (intro conjI allI impI)
  fix i assume "i < length (pk_pieces k)" "i \<notin> H"
  then show "\<exists>x q. pk_pieces k ! i = Some x \<and> x < length (pk_map k) \<and> x \<notin> V - U \<and>
      pos_index (pk_map k ! x) = i \<and> prio_of k x = Some q \<and> in_bucket (pk_bounds k) q i"
    by (rule filed_slot [OF assms(1)]) auto
next
  fix x assume x: "x < length (pk_map k)" "x \<notin> V - U \<and> prio_of k x \<noteq> None"
  then have "x \<notin> V" using assms(2) [of x] by auto
  with x assms(1) show "pos_index (pk_map k ! x) < length (pk_pieces k)" "pos_index (pk_map k ! x) \<notin> H"
    "pk_pieces k ! pos_index (pk_map k ! x) = Some x" by (auto simp: filed_def)
qed

lemma pk_remove_ok:
  assumes "holed h q {x} k" "x < length (pk_map k)" "prio_of k x = None"
  shows "\<exists>k'. pk_remove q h k = Some k' \<and> buckets_ok k' \<and> reindexed k k'"
proof -
  obtain k' where k': "remove_loop h q k = Some k'" "emptied {x} k k'" using remove_loop_ok [OF assms(1)] by blast
  let ?k = "k'\<lparr>pk_pieces := butlast (pk_pieces k')\<rparr>"
  have e: "filed {length (pk_pieces k') - 1} {x} k'" "pk_pieces k' \<noteq> []" "reindexed k k'"
    using k'(2) by (auto simp: emptied_def)
  have "filed {} ({x} - {x}) ?k"
    by (rule filed_absent [OF filed_butlast [OF e(1,2)]])
      (use reindexed_simps(5) [OF e(3) assms(2)] assms(3) in simp)
  then have "buckets_ok ?k" using k'(2) by (simp add: buckets_ok_def emptied_def bounds_ok_def)
  moreover have "reindexed k ?k" using e(3) reindexed_trans reindexed_pieces by blast
  ultimately show ?thesis using k'(1) by (simp add: pk_remove_def)
qed

subsection \<open>Adding a piece\<close>

text \<open>The boundaries \<open>q\<close> to \<open>r\<close> move up by one.\<close>

definition raised :: "nat \<Rightarrow> nat \<Rightarrow> nat list \<Rightarrow> nat list" where
  "raised q r b = map (\<lambda>i. if q \<le> i \<and> i \<le> r then b ! i + 1 else b ! i) [0..<length b]"

lemma raised_nth [simp]:
  "length (raised q r b) = length b"
  "i < length b \<Longrightarrow> raised q r b ! i = (if q \<le> i \<and> i \<le> r then b ! i + 1 else b ! i)"
  by (simp_all add: raised_def)

lemma raised_step: "q < length b \<Longrightarrow> q < r \<Longrightarrow> raised (Suc q) r (b[q := Suc (b ! q)]) = raised q r b"
  by (rule nth_equalityI) (auto simp: nth_list_update)

lemma raised_one: "q < length b \<Longrightarrow> raised q q b = b[q := Suc (b ! q)]"
  by (rule nth_equalityI) (auto simp: nth_list_update)

lemma bump_ok:
  assumes "q \<le> r" "r < length (pk_bounds k)" "\<forall>s. q \<le> s \<and> s < r \<longrightarrow> pk_bounds k ! s = t"
    and "t < pk_bounds k ! r \<or> pk_bounds k ! r = t \<and> r + 1 = length (pk_bounds k)"
  shows "bump t q k = Some (pk_bounds k ! r, r + 1, k\<lparr>pk_bounds := raised q r (pk_bounds k)\<rparr>)"
  using assms
proof (induction "r - q" arbitrary: q k)
  case 0
  then have "r = q" by simp
  with 0 show ?case by (subst bump.simps) (auto simp: Let_def set_bound_def raised_one)
next
  case (Suc n)
  then have q: "q < r" by simp
  let ?k = "set_bound q (pk_bounds k ! q + 1) k"
  have "bump t (q + 1) ?k = Some (pk_bounds ?k ! r, r + 1, ?k\<lparr>pk_bounds := raised (q + 1) r (pk_bounds ?k)\<rparr>)"
    using Suc.hyps(2) Suc.prems q by (intro Suc.hyps(1)) (auto simp: set_bound_def)
  moreover have "pk_bounds k ! q = t" using Suc.prems(3) q by simp
  ultimately show ?case
    using q Suc.prems(2) raised_step [of q "pk_bounds k" r]
    by (subst bump.simps) (simp add: Let_def set_bound_def)
qed

lemma raised_raised:
  "q \<le> r \<Longrightarrow> r < length b \<Longrightarrow> raised (r + 1) (length b - 1) (raised q r b) = raised q (length b - 1) b"
  by (rule nth_equalityI) auto

lemma bucket_raised:
  assumes "q \<le> r" "r < length b" "\<forall>s. q \<le> s \<and> s < r \<longrightarrow> b ! s = t" "i \<noteq> t" "i \<noteq> b ! r"
    and i: "in_bucket b s i"
  shows "in_bucket (raised q r b) s i"
proof -
  have "\<not> (q < s \<and> s < r)"
  proof
    assume s: "q < s \<and> s < r"
    then have "b ! s = t" "b ! (s - 1) = t" using spec [OF assms(3), of s] spec [OF assms(3), of "s - 1"] by auto
    with i s show False by (auto simp: in_bucket_def range_start_def)
  qed
  moreover have "q < s \<and> s = r \<Longrightarrow> b ! (s - 1) = t" using spec [OF assms(3), of "s - 1"] by auto
  moreover have "r < s \<and> s - 1 \<le> r \<Longrightarrow> s - 1 = r" by arith
  ultimately show ?thesis
    using i assms(1,2,4,5) by (auto simp: in_bucket_def range_start_def not_le split: if_splits)
qed

text \<open>
  Before \<open>v\<close> is written to \<open>t\<close>: it belongs there, and the piece found there belongs to the first bucket
  from \<open>q\<close> on that reaches beyond \<open>t\<close>. The pushed slot at the end is empty.
\<close>

definition carry :: "nat \<Rightarrow> nat \<Rightarrow> nat \<Rightarrow> picker \<Rightarrow> bool" where
  "carry t v q k \<longleftrightarrow>
     (let b = pk_bounds k; n = length (pk_pieces k) in
      b \<noteq> [] \<and> length (pk_map k) < we_have_index \<and> sorted (raised q (length b - 1) b) \<and>
      (q < length b \<longrightarrow> range_start b q \<le> t + 1) \<and> t < n \<and> v < length (pk_map k) \<and> n - 1 < we_have_index \<and>
      filed {t, n - 1} (insert v (set_option (pk_pieces k ! t))) k \<and> pk_pieces k ! (n - 1) = None \<and>
      (\<exists>p. prio_of k v = Some p \<and> p < length b \<and> range_start b p \<le> t \<and>
           (if p < q then t < b ! p else p = q \<and> t \<le> b ! q)) \<and>
      (if q < length b then last b = n - 1 else last b = n) \<and>
      (case pk_pieces k ! t of
         None \<Rightarrow> t = n - 1 \<and> (\<forall>s. q \<le> s \<and> s < length b \<longrightarrow> b ! s = t)
       | Some y \<Rightarrow> y \<noteq> v \<and> y < length (pk_map k) \<and>
           (\<exists>r. prio_of k y = Some r \<and> q \<le> r \<and> r < length b \<and> t < b ! r \<and>
                (\<forall>s. q \<le> s \<and> s < r \<longrightarrow> b ! s = t))))"

definition all_filed :: "picker \<Rightarrow> bool" where
  "all_filed k \<longleftrightarrow> filed {} {} k \<and> bounds_ok k \<and> last (pk_bounds k) = length (pk_pieces k)"

lemma all_filed_iff: "all_filed k \<longleftrightarrow> buckets_ok k"
  by (simp add: all_filed_def buckets_ok_def)

lemma carryD:
  assumes "carry t v q k"
  shows "pk_bounds k \<noteq> []" "length (pk_map k) < we_have_index"
    "sorted (raised q (length (pk_bounds k) - 1) (pk_bounds k))"
    "q < length (pk_bounds k) \<Longrightarrow> range_start (pk_bounds k) q \<le> t + 1" "t < length (pk_pieces k)"
    "v < length (pk_map k)" "length (pk_pieces k) - 1 < we_have_index"
    "filed {t, length (pk_pieces k) - 1} (insert v (set_option (pk_pieces k ! t))) k"
    "pk_pieces k ! (length (pk_pieces k) - 1) = None"
    "\<exists>p. prio_of k v = Some p \<and> p < length (pk_bounds k) \<and> range_start (pk_bounds k) p \<le> t \<and>
       (if p < q then t < pk_bounds k ! p else p = q \<and> t \<le> pk_bounds k ! q)"
    "if q < length (pk_bounds k) then last (pk_bounds k) = length (pk_pieces k) - 1
     else last (pk_bounds k) = length (pk_pieces k)"
  using assms unfolding carry_def Let_def by blast+

lemma carry_index: "carry t v q k \<Longrightarrow> t \<noteq> we_have_index"
  using carryD(5,7) [of t v q k] by simp

lemma carry_mono:
  assumes "carry t v q k" "q \<le> i" "i \<le> j" "j < length (pk_bounds k)"
  shows "pk_bounds k ! i \<le> pk_bounds k ! j"
  using sorted_nth_mono [OF carryD(3) [OF assms(1)], of i j] assms(2-4) by (simp split: if_splits)

lemma carry_before:
  assumes "carry t v q k" "i < q" "q < length (pk_bounds k)"
  shows "pk_bounds k ! i \<le> t + 1"
proof -
  have "i \<le> q - 1" "q - 1 < length (pk_bounds k)" "\<not> q \<le> q - 1" "\<not> q \<le> i" using assms(2,3) by auto
  then have "pk_bounds k ! i \<le> pk_bounds k ! (q - 1)"
    using sorted_nth_mono [OF carryD(3) [OF assms(1)], of i "q - 1"] by simp
  with carryD(4) [OF assms(1,3)] assms(2) show ?thesis by (simp add: range_start_def)
qed

lemma carry_bucket:
  assumes "p < length b" "range_start b p \<le> t" "if p < q then t < b ! p else p = q \<and> t \<le> b ! q"
    and "q \<le> r" "r < length b"
  shows "in_bucket (raised q r b) p t"
  using assms by (auto simp: in_bucket_def range_start_def split: if_splits)

text \<open>The last slot takes the piece in flight.\<close>

lemma carry_last:
  assumes c: "carry t v q k" and o: "pk_pieces k ! t = None" and r: "r + 1 = length (pk_bounds k)" "q \<le> r"
  shows "all_filed (placed t v (k\<lparr>pk_bounds := raised q r (pk_bounds k)\<rparr>))"
proof -
  note cd = carryD [OF c]
  let ?b = "raised q r (pk_bounds k)"
  obtain p where p: "prio_of k v = Some p" "p < length (pk_bounds k)" "range_start (pk_bounds k) p \<le> t"
    "if p < q then t < pk_bounds k ! p else p = q \<and> t \<le> pk_bounds k ! q" using cd(10) by blast
  have t: "t = length (pk_pieces k) - 1" "\<forall>s. q \<le> s \<and> s < length (pk_bounds k) \<longrightarrow> pk_bounds k ! s = t"
    using c o by (auto simp: carry_def Let_def)
  have rl: "r < length (pk_bounds k)" and re: "r = length (pk_bounds k) - 1" using r by simp_all
  have "filed {t} {v} (k\<lparr>pk_bounds := ?b\<rparr>)"
  proof (rule filed_bounds)
    show "filed {t} {v} k" using cd(8) t(1) o by simp
    fix i s assume "i \<notin> {t}" "in_bucket (pk_bounds k) s i"
    moreover have "pk_bounds k ! r = t" using t(2) r by simp
    ultimately show "in_bucket ?b s i"
      using t(2) rl r(2) by (intro bucket_raised [OF r(2) rl, of t]) auto
  qed
  from filed_fill [OF this, of t v p] have "filed {} {} (placed t v (k\<lparr>pk_bounds := ?b\<rparr>))"
    using cd(5,6) carry_index [OF c] p(1) carry_bucket [OF p(2-4) r(2) rl] by simp
  moreover have "last ?b = length (pk_pieces k)"
    using r t rl cd(5) by (subst last_conv_nth) (auto simp: raised_def)
  ultimately show ?thesis
    using cd(1-3) re by (auto simp: all_filed_def bounds_ok_def picker_simps raised_def)
qed

text \<open>Otherwise the piece found is in flight now, to the end of its bucket.\<close>

lemma carry_step:
  assumes c: "carry t v q k" and o: "pk_pieces k ! t = Some y"
  obtains r where "q \<le> r" "r < length (pk_bounds k)" "\<forall>s. q \<le> s \<and> s < r \<longrightarrow> pk_bounds k ! s = t"
    "t < pk_bounds k ! r"
    "carry (pk_bounds k ! r) y (r + 1) (placed t v (k\<lparr>pk_bounds := raised q r (pk_bounds k)\<rparr>))"
proof -
  note cd = carryD [OF c]
  let ?n = "length (pk_pieces k)"
  obtain p where p: "prio_of k v = Some p" "p < length (pk_bounds k)" "range_start (pk_bounds k) p \<le> t"
    "if p < q then t < pk_bounds k ! p else p = q \<and> t \<le> pk_bounds k ! q" using cd(10) by blast
  obtain r where y: "y \<noteq> v" "y < length (pk_map k)" "prio_of k y = Some r" and
    r: "q \<le> r" "r < length (pk_bounds k)" "t < pk_bounds k ! r" "\<forall>s. q \<le> s \<and> s < r \<longrightarrow> pk_bounds k ! s = t"
    using c o by (auto simp: carry_def Let_def)
  let ?b = "raised q r (pk_bounds k)" and ?t = "pk_bounds k ! r"
  let ?k = "placed t v (k\<lparr>pk_bounds := ?b\<rparr>)"
  have ql: "q < length (pk_bounds k)" using r(1,2) by simp
  have lb: "last (pk_bounds k) = ?n - 1" using cd(11) ql by simp
  have le_last: "pk_bounds k ! s \<le> ?n - 1" if "q \<le> s" "s < length (pk_bounds k)" for s
    using carry_mono [OF c that(1), of "length (pk_bounds k) - 1"] that(2) lb cd(1) by (simp add: last_conv_nth)
  have tn: "?t \<le> ?n - 1" by (rule le_last [OF r(1,2)])
  have t1: "t \<noteq> ?n - 1" using o cd(9) by auto
  let ?Z = "set_option (pk_pieces k ! ?t)"
  have pr: "prio_of ?k x = prio_of k x" if "x < length (pk_map k)" for x
    using that cd(6) prio_of_place [OF carry_index [OF c] priority_have [OF p(1)], of "pk_seeds k"]
    by (cases "x = v") (simp_all add: placed_def)
  have open1: "filed {t, ?n - 1, ?t} (insert v (insert y ?Z)) k \<and> v \<notin> ?Z \<and>
      (case pk_pieces k ! ?t of None \<Rightarrow> ?t = ?n - 1
       | Some z \<Rightarrow> z \<noteq> y \<and> z < length (pk_map k) \<and> (\<exists>s. prio_of k z = Some s \<and> in_bucket (pk_bounds k) s ?t))"
  proof (cases "?t = ?n - 1")
    case True
    then show ?thesis using cd(8,9) o by (simp add: insert_commute)
  next
    case False
    then have s: "?t < ?n" "?t \<notin> {t, ?n - 1}" using tn r(3) by auto
    obtain z u where z: "pk_pieces k ! ?t = Some z" "z < length (pk_map k)"
      "z \<notin> insert v (set_option (pk_pieces k ! t))" "prio_of k z = Some u" "in_bucket (pk_bounds k) u ?t"
      using filed_slot [OF cd(8) s] by blast
    have "filed (insert ?t {t, ?n - 1}) (insert z (insert v (set_option (pk_pieces k ! t)))) k"
      by (rule filed_open [OF cd(8) s z(1)])
    then show ?thesis using z o by (auto simp: insert_commute)
  qed
  have "filed {t, ?n - 1, ?t} (insert v (insert y ?Z)) (k\<lparr>pk_bounds := ?b\<rparr>)"
    by (rule filed_bounds) (use open1 bucket_raised [OF r(1,2,4)] in auto)
  from filed_fill [OF this, of t v p]
  have "filed ({t, ?n - 1, ?t} - {t}) (insert v (insert y ?Z) - {v}) ?k"
    using cd(5,6) carry_index [OF c] p(1) carry_bucket [OF p(2-4) r(1,2)] by simp
  moreover have "{t, ?n - 1, ?t} - {t} = {?t, ?n - 1}" using t1 r(3) by auto
  moreover have "insert v (insert y ?Z) - {v} = insert y ?Z" using open1 y(1) by auto
  ultimately have f: "filed {?t, ?n - 1} (insert y ?Z) ?k" by simp
  have later: "r < s" "\<forall>u. r < u \<and> u < s \<longrightarrow> pk_bounds k ! u = ?t" "?t < pk_bounds k ! s" "s < length (pk_bounds k)"
    if "in_bucket (pk_bounds k) s ?t" for s
  proof -
    show s: "?t < pk_bounds k ! s" "s < length (pk_bounds k)" using that by (auto simp: in_bucket_def)
    show rs: "r < s"
    proof (rule ccontr)
      assume "\<not> r < s"
      then consider "s < q" | "q \<le> s" "s \<le> r" by linarith
      then show False
        using carry_before [OF c _ ql, of s] carry_mono [OF c _ _ r(2), of s] s(1) r(3) by cases auto
    qed
    show "\<forall>u. r < u \<and> u < s \<longrightarrow> pk_bounds k ! u = ?t"
    proof (intro allI impI)
      fix u assume u: "r < u \<and> u < s"
      have "pk_bounds k ! u \<le> pk_bounds k ! (s - 1)" by (rule carry_mono [OF c]) (use u r s in auto)
      moreover have "pk_bounds k ! (s - 1) \<le> ?t" using that rs by (simp add: in_bucket_def range_start_def)
      moreover have "?t \<le> pk_bounds k ! u" by (rule carry_mono [OF c]) (use u r s in auto)
      ultimately show "pk_bounds k ! u = ?t" by simp
    qed
  qed
  show thesis
  proof (rule that [OF r(1,2,4,3)])
    show "carry ?t y (r + 1) ?k"
      unfolding carry_def Let_def
    proof (intro conjI)
      show "pk_bounds ?k \<noteq> []" using r(2) by (auto simp: picker_simps raised_def)
      show "length (pk_map ?k) < we_have_index" using cd(2) by (simp add: picker_simps)
      show "sorted (raised (r + 1) (length (pk_bounds ?k) - 1) (pk_bounds ?k))"
        using cd(3) raised_raised [OF r(1,2)] by (simp add: picker_simps)
      show "r + 1 < length (pk_bounds ?k) \<longrightarrow> range_start (pk_bounds ?k) (r + 1) \<le> ?t + 1"
        using r(1,2) by (simp add: picker_simps range_start_def)
      show "?t < length (pk_pieces ?k)" using tn cd(5) by (simp add: picker_simps)
      show "y < length (pk_map ?k)" using y(2) by (simp add: picker_simps)
      show "length (pk_pieces ?k) - 1 < we_have_index" using cd(7) by (simp add: picker_simps)
      show "filed {?t, length (pk_pieces ?k) - 1} (insert y (set_option (pk_pieces ?k ! ?t))) ?k"
        using f r(3) by (simp add: picker_simps)
      show "pk_pieces ?k ! (length (pk_pieces ?k) - 1) = None" using cd(9) t1 by (simp add: picker_simps)
      have "range_start ?b r \<le> ?t"
        using cd(4) [OF ql] r by (cases "q = r") (auto simp: range_start_def split: if_splits)
      then show "\<exists>p. prio_of ?k y = Some p \<and> p < length (pk_bounds ?k) \<and> range_start (pk_bounds ?k) p \<le> ?t \<and>
          (if p < r + 1 then ?t < pk_bounds ?k ! p else p = r + 1 \<and> ?t \<le> pk_bounds ?k ! (r + 1))"
        using pr [OF y(2)] y(3) r(1,2) by (intro exI [of _ r]) (simp add: picker_simps)
      show "if r + 1 < length (pk_bounds ?k) then last (pk_bounds ?k) = length (pk_pieces ?k) - 1
          else last (pk_bounds ?k) = length (pk_pieces ?k)"
        using r(1,2) lb cd(1,5) by (auto simp: picker_simps last_conv_nth raised_def)
      show "case pk_pieces ?k ! ?t of
          None \<Rightarrow> ?t = length (pk_pieces ?k) - 1 \<and> (\<forall>s. r + 1 \<le> s \<and> s < length (pk_bounds ?k) \<longrightarrow> pk_bounds ?k ! s = ?t)
        | Some z \<Rightarrow> z \<noteq> y \<and> z < length (pk_map ?k) \<and>
            (\<exists>u. prio_of ?k z = Some u \<and> r + 1 \<le> u \<and> u < length (pk_bounds ?k) \<and> ?t < pk_bounds ?k ! u \<and>
                 (\<forall>s. r + 1 \<le> s \<and> s < u \<longrightarrow> pk_bounds ?k ! s = ?t))"
      proof (cases "pk_pieces k ! ?t")
        case None
        then have "?t = ?n - 1" using open1 by simp
        moreover have "pk_bounds k ! s = ?t" if "r < s" "s < length (pk_bounds k)" for s
          using le_last [of s] carry_mono [OF c r(1), of s] that r(1) \<open>?t = ?n - 1\<close> by simp
        ultimately show ?thesis using None r(3) by (simp add: picker_simps)
      next
        case (Some z)
        with open1 obtain u where z: "z \<noteq> y" "z < length (pk_map k)" "prio_of k z = Some u"
          "in_bucket (pk_bounds k) u ?t" by auto
        from later [OF z(4)] z(1-3) pr [OF z(2)] Some r(3) show ?thesis
          by (simp add: picker_simps)
      qed
    qed
  qed
qed

lemma carry_reindexed: "carry t v q k \<Longrightarrow> reindexed k (placed t v (k\<lparr>pk_bounds := b\<rparr>))"
  using reindexed_trans [OF reindexed_bounds reindexed_placed [of v "k\<lparr>pk_bounds := b\<rparr>" t]]
    carryD(6,10) [of t v q k] carry_index [of t v q k] priority_have by fastforce

lemma add_loop_ok:
  assumes "carry t v q k" "q < length (pk_bounds k)"
  shows "\<exists>w t' k'. add_loop t (Some v) q k = Some (w, t', k') \<and> reindexed k k' \<and>
    (case w of None \<Rightarrow> all_filed k'
     | Some y \<Rightarrow> carry t' y (length (pk_bounds k')) k' \<and> pk_pieces k' ! t' = None \<and>
         t' < length (pk_pieces k') \<and> y < length (pk_map k'))"
  using assms
proof (induction "length (pk_bounds k) - q" arbitrary: t v q k rule: less_induct)
  case (less q k t v)
  note cd = carryD [OF less(2)]
  have pl: "place t v k = Some (placed t v k)" by (rule place_placed [OF cd(5,6)])
  have eq: "(placed t v k)\<lparr>pk_bounds := b\<rparr> = placed t v (k\<lparr>pk_bounds := b\<rparr>)" for b by (simp add: placed_def)
  show ?case
  proof (cases "pk_pieces k ! t")
    case None
    let ?r = "length (pk_bounds k) - 1"
    have r: "?r + 1 = length (pk_bounds k)" "q \<le> ?r" using less(3) by simp_all
    have t: "\<forall>s. q \<le> s \<and> s < length (pk_bounds k) \<longrightarrow> pk_bounds k ! s = t"
      using less(2) None by (auto simp: carry_def Let_def)
    have "bump t q (placed t v k) =
        Some (t, ?r + 1, placed t v (k\<lparr>pk_bounds := raised q ?r (pk_bounds k)\<rparr>))"
      using bump_ok [of q ?r "placed t v k" t] r t by (simp add: picker_simps eq)
    then show ?thesis
      using pl None r cd(5) carry_last [OF less(2) None r] carry_reindexed [OF less(2)]
      by (subst add_loop.simps) (simp add: picker_simps raised_def)
  next
    case (Some y)
    obtain r where r: "q \<le> r" "r < length (pk_bounds k)" "\<forall>s. q \<le> s \<and> s < r \<longrightarrow> pk_bounds k ! s = t"
      "t < pk_bounds k ! r" and
      c: "carry (pk_bounds k ! r) y (r + 1) (placed t v (k\<lparr>pk_bounds := raised q r (pk_bounds k)\<rparr>))"
      by (rule carry_step [OF less(2) Some])
    let ?k = "placed t v (k\<lparr>pk_bounds := raised q r (pk_bounds k)\<rparr>)"
    have b: "bump t q (placed t v k) = Some (pk_bounds k ! r, r + 1, ?k)"
      using bump_ok [of q r "placed t v k" t] r by (simp add: picker_simps eq)
    have ri: "reindexed k ?k" by (rule carry_reindexed [OF less(2)])
    have l: "length (pk_bounds ?k) = length (pk_bounds k)" by (simp add: picker_simps)
    have e: "add_loop t (Some v) q k = (if length (pk_bounds k) \<le> r + 1 then Some (Some y, pk_bounds k ! r, ?k)
        else add_loop (pk_bounds k ! r) (Some y) (r + 1) ?k)"
      using pl Some b cd(5) l by (subst add_loop.simps) simp
    show ?thesis
    proof (cases "length (pk_bounds k) \<le> r + 1")
      case True
      with r(2) have "r + 1 = length (pk_bounds ?k)" by (simp add: picker_simps)
      with c have c': "carry (pk_bounds k ! r) y (length (pk_bounds ?k)) ?k" by simp
      then have "pk_pieces ?k ! (pk_bounds k ! r) = None"
        by (cases "pk_pieces ?k ! (pk_bounds k ! r)") (auto simp: carry_def Let_def)
      with c' True e ri carryD(5,6) [OF c'] show ?thesis by simp
    next
      case False
      have "length (pk_bounds ?k) - (r + 1) < length (pk_bounds k) - q" "r + 1 < length (pk_bounds ?k)"
        using r(1) False by (simp_all add: picker_simps)
      from less(1) [OF this(1) c this(2)] False e show ?thesis
        by (auto intro: reindexed_trans [OF ri])
    qed
  qed
qed

lemma add_at_ok:
  assumes "carry i x q (k\<lparr>pk_pieces := pk_pieces k @ [None]\<rparr>)" "q < length (pk_bounds k)"
  shows "\<exists>k'. add_at i x q k = Some k' \<and> buckets_ok k' \<and> reindexed k k'"
proof -
  let ?k = "k\<lparr>pk_pieces := pk_pieces k @ [None]\<rparr>"
  have q: "q < length (pk_bounds ?k)" using assms(2) by simp
  obtain w t' k' where l: "add_loop i (Some x) q ?k = Some (w, t', k')" "reindexed ?k k'" and
    w: "case w of None \<Rightarrow> all_filed k'
     | Some y \<Rightarrow> carry t' y (length (pk_bounds k')) k' \<and> pk_pieces k' ! t' = None \<and>
         t' < length (pk_pieces k') \<and> y < length (pk_map k')"
    using add_loop_ok [OF assms(1) q] by blast
  have ri: "reindexed k k'" using reindexed_trans [OF reindexed_pieces l(2)] .
  show ?thesis
  proof (cases w)
    case None
    with l w ri show ?thesis by (simp add: add_at_def all_filed_iff)
  next
    case (Some y)
    with w have c: "carry t' y (length (pk_bounds k')) k'" "pk_pieces k' ! t' = None" by auto
    note cd = carryD [OF c(1)]
    obtain p where p: "prio_of k' y = Some p" "p < length (pk_bounds k')" "range_start (pk_bounds k') p \<le> t'"
      "t' < pk_bounds k' ! p" using cd(10) by (auto split: if_splits)
    have tl: "t' = length (pk_pieces k') - 1" using c by (auto simp: carry_def Let_def)
    have "filed {t'} {y} k'" using cd(8) c(2) tl by simp
    from filed_fill [OF this, of t' y p] have "filed {} {} (placed t' y k')"
      using cd(5,6) carry_index [OF c(1)] p by (simp add: in_bucket_def)
    moreover have "sorted (pk_bounds k')"
    proof -
      have "raised (length (pk_bounds k')) (length (pk_bounds k') - 1) (pk_bounds k') = pk_bounds k'"
        by (rule nth_equalityI) auto
      with cd(3) show ?thesis by simp
    qed
    ultimately have "buckets_ok (placed t' y k')"
      using cd(1,2,11) by (simp add: buckets_ok_def bounds_ok_def picker_simps)
    moreover have "reindexed k (placed t' y k')"
      using carry_reindexed [OF c(1), of "pk_bounds k'"] reindexed_trans [OF ri] by simp
    ultimately show ?thesis
      using l(1) Some place_placed [OF cd(5,6)] by (simp add: add_at_def)
  qed
qed

lemma grow_bounds_ok:
  assumes "filed H V k" "bounds_ok k" "last (pk_bounds k) = length (pk_pieces k)"
  shows "filed H V (grow_bounds q k)" "bounds_ok (grow_bounds q k)"
    "last (pk_bounds (grow_bounds q k)) = length (pk_pieces (grow_bounds q k))"
    "q < length (pk_bounds (grow_bounds q k))" "reindexed k (grow_bounds q k)"
    "in_bucket (pk_bounds k) r i \<Longrightarrow> in_bucket (pk_bounds (grow_bounds q k)) r i"
    "pk_pieces (grow_bounds q k) = pk_pieces k" "pk_map (grow_bounds q k) = pk_map k"
    "pk_seeds (grow_bounds q k) = pk_seeds k" "length (pk_bounds k) \<le> length (pk_bounds (grow_bounds q k))"
proof -
  let ?b = "pk_bounds k" and ?n = "length (pk_pieces k)"
  let ?b' = "?b @ replicate (Suc q - length ?b) ?n"
  show b: "in_bucket (pk_bounds (grow_bounds q k)) r i" if "in_bucket ?b r i" for r i
    using that by (auto simp: in_bucket_def range_start_def grow_bounds_def nth_append)
  then have "in_bucket ?b' r i" if "in_bucket ?b r i" for r i
    using that by (simp add: grow_bounds_def)
  then show "filed H V (grow_bounds q k)" using filed_bounds [OF assms(1), of ?b'] by (simp add: grow_bounds_def)
  have "x \<le> ?n" if "x \<in> set ?b" for x
  proof -
    obtain j where "j < length ?b" "x = ?b ! j" using \<open>x \<in> set ?b\<close> by (auto simp: in_set_conv_nth)
    then show ?thesis
      using sorted_nth_mono [of ?b j "length ?b - 1"] assms(2,3) last_conv_nth [of ?b] by (auto simp: bounds_ok_def)
  qed
  then show "bounds_ok (grow_bounds q k)"
    using assms(2) by (auto simp: bounds_ok_def grow_bounds_def sorted_append)
  show "last (pk_bounds (grow_bounds q k)) = length (pk_pieces (grow_bounds q k))"
    using assms(3) by (cases "Suc q - length ?b") (auto simp: grow_bounds_def last_append)
qed (auto simp: grow_bounds_def)

lemma pk_add_ok:
  assumes f: "filed {} {x} k" "bounds_ok k" "last (pk_bounds k) = length (pk_pieces k)"
    and x: "x < length (pk_map k)" "prio_of k x = Some q"
  shows "\<exists>k'. pk_add random x k = Some k' \<and> buckets_ok k' \<and> reindexed k k'"
proof -
  let ?k = "grow_bounds q k"
  note g = grow_bounds_ok [OF f, of q]
  let ?b = "pk_bounds ?k" and ?n = "length (pk_pieces k)"
  have s: "sorted ?b" "?b \<noteq> []" and ql: "q < length ?b" using g(2,4) by (auto simp: bounds_ok_def)
  have last: "?b ! (length ?b - 1) = ?n" using g(3,7) s(2) by (simp add: last_conv_nth)
  define i where "i = (if ?b ! q = range_start ?b q then range_start ?b q
     else random mod (?b ! q - range_start ?b q + 1) + range_start ?b q)"
  have se: "range_start ?b q \<le> ?b ! q" by (rule range_start_le [OF s(1) ql])
  have "random mod (d + 1) \<le> d" for d
    using mod_less_divisor [OF zero_less_Suc, of random d] by (simp only: less_Suc_eq_le Suc_eq_plus1)
  then have "random mod (?b ! q - range_start ?b q + 1) + range_start ?b q \<le> ?b ! q"
    using se by (metis add_le_mono1 le_add_diff_inverse2)
  then have i: "range_start ?b q \<le> i" "i \<le> ?b ! q"
    using se by (simp_all add: i_def)
  have bn: "?b ! r \<le> ?n" if "r < length ?b" for r
    using sorted_nth_mono [OF s(1), of r "length ?b - 1"] that last by simp
  have iN: "i \<le> ?n" using i(2) bn [OF ql] by simp
  have fg: "filed {} {x} ?k" "length (pk_map k) < we_have_index" using g(1) f(2) by (auto simp: bounds_ok_def)
  have "?n \<le> length (pk_map k)" using filed_card [OF f(1)] by simp
  then have nw: "?n < we_have_index" using fg(2) by simp
  let ?k2 = "?k\<lparr>pk_pieces := pk_pieces k @ [None]\<rparr>"
  have occ: "\<exists>y r. pk_pieces k ! i = Some y \<and> y \<noteq> x \<and> y < length (pk_map k) \<and> prio_of k y = Some r \<and> q \<le> r \<and>
      r < length ?b \<and> i < ?b ! r \<and> (\<forall>s. q \<le> s \<and> s < r \<longrightarrow> ?b ! s = i)" if "i < ?n"
  proof -
    have "i < length (pk_pieces ?k)" "i \<notin> {}" using that g(7) by simp_all
    from filed_slot [OF fg(1) this] obtain y r where y0: "pk_pieces ?k ! i = Some y" "y \<notin> {x}"
      "y < length (pk_map ?k)" "prio_of ?k y = Some r" "in_bucket ?b r i" by blast
    then have y: "pk_pieces k ! i = Some y" "y \<noteq> x" "y < length (pk_map k)" "prio_of k y = Some r"
      and r: "r < length ?b" "range_start ?b r \<le> i" "i < ?b ! r"
      using g(7-9) by (auto simp: in_bucket_def)
    have qr: "q \<le> r"
    proof (rule ccontr)
      assume "\<not> q \<le> r"
      then have "?b ! r \<le> range_start ?b q"
        using sorted_nth_mono [OF s(1), of r "q - 1"] ql by (simp add: range_start_def)
      with i(1) r(3) show False by simp
    qed
    have "?b ! u = i" if "q \<le> u" "u < r" for u
    proof -
      have "?b ! q \<le> ?b ! u" using that r(1) by (intro sorted_nth_mono [OF s(1)]) simp_all
      moreover have "?b ! u \<le> ?b ! (r - 1)" using that r(1) by (intro sorted_nth_mono [OF s(1)]) simp_all
      ultimately show ?thesis using i(2) r(2) that by (simp add: range_start_def split: if_splits)
    qed
    with y r qr show ?thesis by blast
  qed
  have rest: "?b ! u = i" if "i = ?n" "q \<le> u" "u < length ?b" for u
    using bn [OF that(3)] sorted_nth_mono [OF s(1) that(2,3)] i(2) that(1) by simp
  have filed2: "filed {?n} {x} ?k2"
    unfolding filed_def
  proof (intro conjI allI impI)
    fix j assume "j < length (pk_pieces ?k2)" "j \<notin> {?n}"
    then have j: "j < length (pk_pieces ?k)" "j \<notin> {}" using g(7) by auto
    from filed_slot [OF fg(1) j] obtain y r where "pk_pieces ?k ! j = Some y" "y < length (pk_map ?k)" "y \<notin> {x}"
        "pos_index (pk_map ?k ! y) = j" "prio_of ?k y = Some r" "in_bucket ?b r j" by blast
    with j g(7) show "\<exists>y r. pk_pieces ?k2 ! j = Some y \<and> y < length (pk_map ?k2) \<and> y \<notin> {x} \<and>
        pos_index (pk_map ?k2 ! y) = j \<and> prio_of ?k2 y = Some r \<and> in_bucket (pk_bounds ?k2) r j"
      by (auto simp: nth_append)
  next
    fix y assume "y < length (pk_map ?k2)" "y \<notin> {x} \<and> prio_of ?k2 y \<noteq> None"
    with fg(1) have "pos_index (pk_map ?k ! y) < length (pk_pieces ?k)"
      "pk_pieces ?k ! pos_index (pk_map ?k ! y) = Some y" by (auto simp: filed_def)
    with g(7) show "pos_index (pk_map ?k2 ! y) < length (pk_pieces ?k2)" "pos_index (pk_map ?k2 ! y) \<notin> {?n}"
      "pk_pieces ?k2 ! pos_index (pk_map ?k2 ! y) = Some y" by (auto simp: nth_append)
  qed
  have "carry i x q ?k2"
    unfolding carry_def Let_def
  proof (intro conjI)
    show "pk_bounds ?k2 \<noteq> []" "length (pk_map ?k2) < we_have_index" "i < length (pk_pieces ?k2)"
      "x < length (pk_map ?k2)" "length (pk_pieces ?k2) - 1 < we_have_index"
      "pk_pieces ?k2 ! (length (pk_pieces ?k2) - 1) = None"
      using s(2) fg(2) iN x(1) nw g(8) by (simp_all add: nth_append)
    show "sorted (raised q (length (pk_bounds ?k2) - 1) (pk_bounds ?k2))"
      unfolding sorted_iff_nth_Suc using sorted_nth_mono [OF s(1)] by (auto simp: le_SucI)
    show "q < length (pk_bounds ?k2) \<longrightarrow> range_start (pk_bounds ?k2) q \<le> i + 1" using i(1) by simp
    show "\<exists>p. prio_of ?k2 x = Some p \<and> p < length (pk_bounds ?k2) \<and> range_start (pk_bounds ?k2) p \<le> i \<and>
        (if p < q then i < pk_bounds ?k2 ! p else p = q \<and> i \<le> pk_bounds ?k2 ! q)"
      using x(2) ql i g(8,9) by simp
    show "if q < length (pk_bounds ?k2) then last (pk_bounds ?k2) = length (pk_pieces ?k2) - 1
        else last (pk_bounds ?k2) = length (pk_pieces ?k2)"
      using ql last s(2) by (simp add: last_conv_nth)
    have p: "pk_pieces ?k2 ! i = (if i < ?n then pk_pieces k ! i else None)" using iN by (simp add: nth_append)
    show "filed {i, length (pk_pieces ?k2) - 1} (insert x (set_option (pk_pieces ?k2 ! i))) ?k2"
    proof (cases "i < ?n")
      case True
      with occ obtain y where y: "pk_pieces ?k2 ! i = Some y" by (auto simp: nth_append)
      from filed_open [OF filed2 _ _ this] True y show ?thesis by (simp add: insert_commute)
    next
      case False
      with iN filed2 p show ?thesis by simp
    qed
    show "case pk_pieces ?k2 ! i of
        None \<Rightarrow> i = length (pk_pieces ?k2) - 1 \<and> (\<forall>s. q \<le> s \<and> s < length (pk_bounds ?k2) \<longrightarrow> pk_bounds ?k2 ! s = i)
      | Some y \<Rightarrow> y \<noteq> x \<and> y < length (pk_map ?k2) \<and>
          (\<exists>r. prio_of ?k2 y = Some r \<and> q \<le> r \<and> r < length (pk_bounds ?k2) \<and> i < pk_bounds ?k2 ! r \<and>
               (\<forall>s. q \<le> s \<and> s < r \<longrightarrow> pk_bounds ?k2 ! s = i))"
    proof (cases "i < ?n")
      case True
      from occ [OF this] p True g(8,9) show ?thesis by auto
    next
      case False
      with iN rest p show ?thesis by simp
    qed
  qed
  with add_at_ok [of i x q ?k] ql g(7) obtain k' where
    k': "add_at i x q ?k = Some k'" "buckets_ok k'" "reindexed ?k k'" by auto
  moreover have "pk_add random x k = add_at i x q ?k"
    using x ql by (simp add: pk_add_def Let_def priority_range_def i_def)
  ultimately show ?thesis using reindexed_trans [OF g(5)] by auto
qed

subsection \<open>Moving a piece to another bucket\<close>

lemma buckets_slot:
  assumes "buckets_ok k" "i < length (pk_pieces k)"
  obtains x q where "pk_pieces k ! i = Some x" "x < length (pk_map k)" "pos_index (pk_map k ! x) = i"
    "prio_of k x = Some q" "in_bucket (pk_bounds k) q i"
  using assms filed_slot [of "{}" "{}" k i] by (auto simp: buckets_ok_def)

lemma buckets_length: "buckets_ok k \<Longrightarrow> i < length (pk_pieces k) \<Longrightarrow> i \<noteq> we_have_index"
  using filed_card [of "{}" "{}" k] by (auto simp: buckets_ok_def bounds_ok_def)

lemma pk_shuffle_ok:
  assumes k: "buckets_ok k" and i: "in_bucket (pk_bounds k) q i"
  shows "\<exists>k'. pk_shuffle random q i k = Some k' \<and> buckets_ok k' \<and> reindexed k k'"
proof -
  let ?b = "pk_bounds k"
  let ?o = "random mod (?b ! q - range_start ?b q) + range_start ?b q"
  have s: "sorted ?b" "last ?b = length (pk_pieces k)" and f: "filed {} {} k"
    using k by (auto simp: buckets_ok_def bounds_ok_def)
  have q: "q < length ?b" "range_start ?b q < ?b ! q" using i by (auto simp: in_bucket_def)
  then have "random mod (?b ! q - range_start ?b q) < ?b ! q - range_start ?b q" by simp
  then have o: "in_bucket ?b q ?o" using q unfolding in_bucket_def by linarith
  have il: "i < length (pk_pieces k)" and ol: "?o < length (pk_pieces k)"
    using bucket_below_last [OF s(1)] i o s(2) by auto
  have pr: "priority_range q k = Some (range_start ?b q, ?b ! q)" using q by (simp add: priority_range_def)
  show ?thesis
  proof (cases "?o = i")
    case True
    then show ?thesis using pr q k by (simp add: pk_shuffle_def)
  next
    case False
    obtain x p where x: "pk_pieces k ! ?o = Some x" "x < length (pk_map k)" "pos_index (pk_map k ! x) = ?o"
      "prio_of k x = Some p" "in_bucket ?b p ?o" by (rule buckets_slot [OF k ol])
    obtain y r where y: "pk_pieces k ! i = Some y" "y < length (pk_map k)" "pos_index (pk_map k ! y) = i"
      "prio_of k y = Some r" "in_bucket ?b r i" by (rule buckets_slot [OF k il])
    have pq: "p = q" "r = q" using bucket_unique [OF s(1)] x(5) o y(5) i by auto
    have xy: "x \<noteq> y" using x(3) y(3) False by auto
    have "filed {i, ?o} {y, x} k"
      using filed_open [OF filed_open [OF f ol _ x(1)] il _ y(1)] False by simp
    from filed_fill [OF this, of i x q] have f1: "filed {?o} {y} (placed i x k)"
      using il x i pq buckets_length [OF k il] False xy by (simp add: insert_Diff_if)
    have py: "prio_of (placed i x k) y = Some q" using y(4) pq xy by (simp add: placed_def)
    from filed_fill [OF f1, of ?o y q] py have f2: "filed {} {} (placed ?o y (placed i x k))"
      using ol y(2) o buckets_length [OF k ol] by (simp add: picker_simps)
    let ?k = "placed ?o y (placed i x k)"
    have ok: "buckets_ok ?k" using f2 k by (simp add: buckets_ok_def bounds_ok_def picker_simps)
    have "reindexed k (placed i x k)"
      by (rule reindexed_placed [OF x(2) priority_have [OF x(4)] buckets_length [OF k il]])
    also have "reindexed (placed i x k) ?k"
      using reindexed_placed [of y "placed i x k" ?o] y(2) priority_have [OF py] buckets_length [OF k ol]
      by (simp add: picker_simps)
    finally have ri: "reindexed k ?k" .
    have "pk_shuffle random q i k = Some ?k"
      using pr q False il ol x y xy
      by (simp add: pk_shuffle_def Let_def placed_def list_update_swap)
    with ok ri show ?thesis by blast
  qed
qed

lemma filed_close:
  assumes "filed {i} {x} k" "i < length (pk_pieces k)" "pk_pieces k ! i = Some x" "x < length (pk_map k)"
    "pos_index (pk_map k ! x) = i" "prio_of k x = Some q" "in_bucket (pk_bounds k) q i"
  shows "filed {} {} k"
proof -
  have "(pk_map k ! x)\<lparr>pos_index := i\<rparr> = pk_map k ! x" using assms(5) by (cases "pk_map k ! x") simp
  moreover have "(pk_pieces k)[i := Some x] = pk_pieces k" using assms(3) by (metis list_update_id)
  ultimately have "placed i x k = k" by (cases k) (simp add: placed_def)
  moreover have "i \<noteq> we_have_index" using priority_have [OF assms(6)] assms(5) by (auto simp: pp_have_def)
  ultimately show ?thesis using filed_fill [OF assms(1) _ assms(2) _ _ assms(4,6,7)] by simp
qed

lemma pk_update_ok:
  assumes h: "holed i q {x} k" and x: "pk_pieces k ! i = Some x" "x < length (pk_map k)"
    and same: "prio_of k x = Some q \<longrightarrow> pos_index (pk_map k ! x) = i"
  shows "\<exists>k'. pk_update random q i k = Some k' \<and> buckets_ok k' \<and> reindexed k k'"
proof -
  note hs = holed_simps [OF h]
  show ?thesis
  proof (cases "prio_of k x")
    case None
    with pk_remove_ok [OF h x(2)] x hs(5) show ?thesis by (simp add: pk_update_def)
  next
    case (Some r)
    show ?thesis
    proof (cases "r = q")
      case True
      with same Some have "filed {} {} k" using filed_close [OF hs(1,5) x _ _ hs(4)] by simp
      with True Some x hs show ?thesis
        by (intro exI [of _ k]) (simp add: pk_update_def buckets_ok_def)
    next
      case False
      let ?k = "grow_bounds r k"
      note g = grow_bounds_ok [OF hs(1,7,3), of r]
      have hg: "holed i q {x} ?k" 
      using g(1-3) grow_bounds_ok(6) [OF hs(1,7,3) hs(4)] by (simp add: holed_def)
      obtain j k2 where l: "(if r < q then down_loop (q - r) q x i ?k else up_loop (r - q) q x i ?k) = Some (j, k2)"
        "holed j r {x} k2" "reindexed ?k k2"
      proof (cases "r < q")
        case True
        with down_loop_ok [OF hg, of "q - r" x] x(1) g(7) that show thesis by auto
      next
        case lt: False
        have "q + (r - q) < length (pk_bounds ?k)" using lt False g(4) by simp
        with up_loop_ok [OF hg this, of x] x(1) g(7) lt False that show thesis by auto
      qed
      note h2 = holed_simps [OF l(2)]
      have ri: "reindexed k k2" using reindexed_trans [OF g(5) l(3)] .
      have x2: "x < length (pk_map k2)" "prio_of k2 x = Some r"
        using reindexed_simps(1,5) [OF ri] x(2) Some by simp_all
      let ?k3 = "placed j x k2"
      have "filed {} {} ?k3" using filed_fill [OF h2(1) _ h2(5,6) _ x2 h2(4)] by simp
      then have b3: "buckets_ok ?k3" using h2(3,7) by (simp add: buckets_ok_def bounds_ok_def picker_simps)
      have r3: "reindexed k ?k3"
        by (rule reindexed_trans [OF ri reindexed_placed [OF x2(1) priority_have [OF x2(2)] h2(6)]])
      obtain k4 where k4: "pk_shuffle random r j ?k3 = Some k4" "buckets_ok k4" "reindexed ?k3 k4"
        using pk_shuffle_ok [OF b3, of r j] h2(4) by (auto simp: picker_simps)
      have "pk_update random q i k = Some k4"
        using x hs(5) Some False l(1) place_placed [OF h2(5) x2(1)] k4(1)
        by (simp add: pk_update_def Let_def)
      with k4(2) reindexed_trans [OF r3 k4(3)] show ?thesis by blast
    qed
  qed
qed

end
