(* ===== verification/PiecePicker.thy ===== *)
theory PiecePicker
  imports PickerSpec "HOL-Library.Monad_Syntax"
begin

section \<open>libtorrent/src/piece_picker.cpp: pieces, availability and priorities\<close>

text \<open>
  The operations of \<^verbatim>\<open>piece_picker\<close> on whole pieces: the number of peers that have one, whether we have it,
  the priority the application gives it. Each changes one entry of \<^verbatim>\<open>m_piece_map\<close> and then moves the piece
  to its bucket, or marks the buckets dirty; \<^verbatim>\<open>update_pieces\<close> builds them again. The members that summarise
  the map (\<^verbatim>\<open>m_cursor\<close>, \<^verbatim>\<open>m_reverse_cursor\<close>, the three counters, \<^verbatim>\<open>m_sparse_regions\<close>) are kept up to date by the
  operations. The build has \<^verbatim>\<open>TORRENT_COMPACT_PICKER\<close> 0: 16 bits of peers per piece.
\<close>

subsection \<open>Downloading pieces\<close>

definition blocks_in_piece :: "nat \<Rightarrow> picker \<Rightarrow> nat" where
  "blocks_in_piece x k =
     (if x + 1 = length (pk_map k) then pk_blocks_in_last_piece k else pk_blocks_per_piece k)"

text \<open>\<^verbatim>\<open>std::lower_bound\<close> on the downloads, which are sorted by piece.\<close>

definition lower_bound :: "nat \<Rightarrow> downloading_piece list \<Rightarrow> nat" where
  "lower_bound x ds = length (takeWhile (\<lambda>d. dp_index d < x) ds)"

definition find_dl_piece :: "nat \<Rightarrow> picker \<Rightarrow> nat option" where
  "find_dl_piece x k =
     (let i = lower_bound x (pk_downloads k)
      in if i < length (pk_downloads k) \<and> dp_index (pk_downloads k ! i) = x then Some i else None)"

definition no_block :: block_info where
  "no_block = \<lparr>bi_peer = None, bi_num_peers = 0, bi_state = StateNone\<rparr>"

definition insert_at :: "nat \<Rightarrow> 'a \<Rightarrow> 'a list \<Rightarrow> 'a list" where
  "insert_at i x xs = take i xs @ x # drop i xs"

definition erase_at :: "nat \<Rightarrow> 'a list \<Rightarrow> 'a list" where
  "erase_at i xs = take i xs @ drop (Suc i) xs"

text \<open>The entry is returned as its position among the downloads.\<close>

definition add_download_piece :: "nat \<Rightarrow> picker \<Rightarrow> nat \<times> picker" where
  "add_download_piece x k =
     (let block_index = length (pk_downloads k) * pk_blocks_per_piece k;
          blocks = pk_block_info k @
            replicate (block_index + pk_blocks_per_piece k - length (pk_block_info k)) no_block;
          ret = \<lparr>dp_info = block_index, dp_index = x, dp_finished = 0, dp_writing = 0, dp_requested = 0,
                 dp_state = NoSpeed\<rparr>;
          i = lower_bound x (pk_downloads k)
      in (i, k\<lparr>pk_block_info := memcpy_at blocks block_index (replicate (pk_blocks_per_piece k) no_block),
               pk_downloads := insert_at i ret (pk_downloads k)\<rparr>))"

text \<open>The blocks of the last entry move to the place that is freed.\<close>

definition erase_download_piece :: "nat \<Rightarrow> picker \<Rightarrow> picker option" where
  "erase_download_piece i k = do {
     d \<leftarrow> vec_at (pk_downloads k) i;
     p \<leftarrow> vec_at (pk_map k) (dp_index d);
     let n = pk_blocks_per_piece k;
     let last_info = (length (pk_downloads k) - 1) * n;
     let other = length (takeWhile (\<lambda>e. dp_info e \<noteq> last_info) (pk_downloads k));
     d2 \<leftarrow> vec_at (pk_downloads k) other;
     if length (pk_block_info k) < dp_info d + n \<or> length (pk_block_info k) < dp_info d2 + n then None
     else do {
       let k1 = (if i \<noteq> other
                 then k\<lparr>pk_block_info := memcpy_at (pk_block_info k) (dp_info d)
                            (take n (drop (dp_info d2) (pk_block_info k))),
                        pk_downloads := (pk_downloads k)[other := d2\<lparr>dp_info := dp_info d\<rparr>]\<rparr>
                 else k);
       Some (k1\<lparr>pk_map := (pk_map k1)[dp_index d := p\<lparr>downloading := False\<rparr>],
                pk_downloads := erase_at i (pk_downloads k1)\<rparr>)
     }
   }"

subsection \<open>Availability\<close>

definition set_piece :: "nat \<Rightarrow> piece_pos \<Rightarrow> picker \<Rightarrow> picker" where
  "set_piece x p k = k\<lparr>pk_map := (pk_map k)[x := p]\<rparr>"

text \<open>\<^verbatim>\<open>if (prev_priority == -1) add(index); else update(prev_priority, p.index);\<close>\<close>

definition resort :: "nat \<Rightarrow> nat \<Rightarrow> nat option \<Rightarrow> picker \<Rightarrow> picker option" where
  "resort random x prev k =
     (case prev of
        None \<Rightarrow> pk_add random x k
      | Some q \<Rightarrow> do { p \<leftarrow> vec_at (pk_map k) x; pk_update random q (pos_index p) k })"

definition inc_peers :: "piece_pos \<Rightarrow> piece_pos" where
  "inc_peers p = p\<lparr>peer_count := (peer_count p + 1) mod 65536\<rparr>"

definition dec_peers :: "piece_pos \<Rightarrow> piece_pos" where
  "dec_peers p = p\<lparr>peer_count := (peer_count p + 65535) mod 65536\<rparr>"

definition inc_refcount_all :: "picker \<Rightarrow> picker" where
  "inc_refcount_all k =
     k\<lparr>pk_seeds := pk_seeds k + 1, pk_dirty := (pk_dirty k \<or> pk_seeds k + 1 = 1)\<rparr>"

definition dec_refcount_all :: "picker \<Rightarrow> picker" where
  "dec_refcount_all k =
     (if 0 < pk_seeds k
      then k\<lparr>pk_seeds := pk_seeds k - 1, pk_dirty := (pk_dirty k \<or> pk_seeds k - 1 = 0)\<rparr>
      else k\<lparr>pk_map := map dec_peers (pk_map k), pk_dirty := True\<rparr>)"

definition inc_refcount :: "nat \<Rightarrow> nat \<Rightarrow> picker \<Rightarrow> picker option" where
  "inc_refcount random x k = do {
     p \<leftarrow> vec_at (pk_map k) x;
     let prev = priority (pk_seeds k) p;
     let k1 = set_piece x (inc_peers p) k;
     if pk_dirty k then Some k1
     else if prev = priority (pk_seeds k) (inc_peers p) then Some k1
     else resort random x prev k1
   }"

text \<open>Without a seed the counter of seeds would become negative; that is \<open>None\<close>.\<close>

definition break_one_seed :: "picker \<Rightarrow> picker option" where
  "break_one_seed k =
     (if pk_seeds k = 0 then None
      else Some (k\<lparr>pk_seeds := pk_seeds k - 1, pk_map := map inc_peers (pk_map k), pk_dirty := True\<rparr>))"

definition dec_refcount :: "nat \<Rightarrow> nat \<Rightarrow> picker \<Rightarrow> picker option" where
  "dec_refcount random x k = do {
     p0 \<leftarrow> vec_at (pk_map k) x;
     k0 \<leftarrow> (if peer_count p0 = 0 then break_one_seed k else Some k);
     p \<leftarrow> vec_at (pk_map k0) x;
     let k1 = set_piece x (dec_peers p) k0;
     if pk_dirty k0 then Some k1
     else case priority (pk_seeds k0) p of
            None \<Rightarrow> Some k1
          | Some q \<Rightarrow> pk_update random q (pos_index p) k1
   }"

fun inc_bits :: "nat \<Rightarrow> bool list \<Rightarrow> picker \<Rightarrow> picker option" where
  "inc_bits x [] k = Some k"
| "inc_bits x (b # bs) k =
     (if b then do {
        p \<leftarrow> vec_at (pk_map k) x;
        inc_bits (x + 1) bs (set_piece x (inc_peers p) k)
      } else inc_bits (x + 1) bs k)"

definition inc_refcount_bits :: "bool list \<Rightarrow> picker \<Rightarrow> picker option" where
  "inc_refcount_bits bs k =
     map_option (\<lambda>k1. if list_ex id bs then k1\<lparr>pk_dirty := True\<rparr> else k1) (inc_bits 0 bs k)"

fun dec_bits :: "nat \<Rightarrow> bool list \<Rightarrow> picker \<Rightarrow> picker option" where
  "dec_bits x [] k = Some k"
| "dec_bits x (b # bs) k =
     (if b then do {
        p0 \<leftarrow> vec_at (pk_map k) x;
        k0 \<leftarrow> (if peer_count p0 = 0 then break_one_seed k else Some k);
        p \<leftarrow> vec_at (pk_map k0) x;
        dec_bits (x + 1) bs (set_piece x (dec_peers p) k0)
      } else dec_bits (x + 1) bs k)"

definition dec_refcount_bits :: "bool list \<Rightarrow> picker \<Rightarrow> picker option" where
  "dec_refcount_bits bs k =
     map_option (\<lambda>k1. if list_ex id bs then k1\<lparr>pk_dirty := True\<rparr> else k1) (dec_bits 0 bs k)"

definition get_availability :: "picker \<Rightarrow> nat list" where
  "get_availability k = map (\<lambda>p. peer_count p + pk_seeds k) (pk_map k)"

text \<open>The number of complete copies the peers and we hold, and the pieces beyond in per mille.\<close>

fun copies_loop :: "piece_pos list \<Rightarrow> nat \<Rightarrow> nat \<Rightarrow> nat \<Rightarrow> nat \<times> nat \<times> nat" where
  "copies_loop [] m int_part frac = (m, int_part, frac)"
| "copies_loop (p # ps) m int_part frac =
     (let c = peer_count p + (if pp_have p then 1 else 0)
      in if c < m then copies_loop ps c 1 (frac + int_part)
         else if c = m then copies_loop ps m (int_part + 1) frac
         else copies_loop ps m int_part (frac + 1))"

definition distributed_copies :: "picker \<Rightarrow> nat \<times> nat" where
  "distributed_copies k =
     (if pk_map k = [] then (1, 0)
      else (let (m, int_part, frac) = copies_loop (pk_map k) 0xffff 0 0
            in (m + pk_seeds k, frac * 1000 div length (pk_map k))))"

subsection \<open>Cursors\<close>

definition unwanted :: "piece_pos \<Rightarrow> bool" where
  "unwanted p \<longleftrightarrow> pp_have p \<or> filtered p"

function skip_up :: "piece_pos list \<Rightarrow> nat \<Rightarrow> nat" where
  "skip_up ps i = (if i < length ps \<and> unwanted (ps ! i) then skip_up ps (i + 1) else i)"
  by pat_completeness auto
termination
  by (relation "measure (\<lambda>(ps, i). length ps - i)") auto

declare skip_up.simps [simp del]

fun skip_down :: "piece_pos list \<Rightarrow> nat \<Rightarrow> nat" where
  "skip_down ps 0 = 0"
| "skip_down ps (Suc i) = (if unwanted (ps ! i) then skip_down ps i else Suc i)"

text \<open>A piece is wanted no more; the map already says so.\<close>

definition cursors_out :: "nat \<Rightarrow> picker \<Rightarrow> picker" where
  "cursors_out x k =
     (if pk_cursor k + 1 = pk_reverse_cursor k \<and> pk_cursor k = x
      then k\<lparr>pk_cursor := length (pk_map k), pk_reverse_cursor := 0\<rparr>
      else if pk_cursor k = x then k\<lparr>pk_cursor := skip_up (pk_map k) (pk_cursor k + 1)\<rparr>
      else if pk_reverse_cursor k = x + 1
      then k\<lparr>pk_reverse_cursor := skip_down (pk_map k) (pk_reverse_cursor k - 1)\<rparr>
      else k)"

text \<open>A piece is wanted again.\<close>

definition cursors_in :: "nat \<Rightarrow> picker \<Rightarrow> picker" where
  "cursors_in x k =
     (let c = (if x < pk_cursor k then x else pk_cursor k);
          r = (if pk_reverse_cursor k \<le> x then x + 1 else pk_reverse_cursor k)
      in if r = c then k\<lparr>pk_reverse_cursor := 0, pk_cursor := length (pk_map k)\<rparr>
         else k\<lparr>pk_cursor := c, pk_reverse_cursor := r\<rparr>)"

subsection \<open>Start\<close>

definition picker_ctor :: picker where
  "picker_ctor =
     \<lparr>pk_seeds = 0, pk_pieces = [], pk_bounds = [0], pk_map = [], pk_downloads = [], pk_block_info = [],
      pk_blocks_per_piece = 0, pk_blocks_in_last_piece = 0, pk_num_filtered = 0, pk_num_have_filtered = 0,
      pk_num_have = 0, pk_cursor = 0, pk_reverse_cursor = 0, pk_sparse_regions = 1, pk_dirty = False\<rparr>"

definition fresh_piece :: piece_pos where
  "fresh_piece = \<lparr>peer_count = 0, downloading = False, full = False, piece_prio = 1, pos_index = 0\<rparr>"

definition pk_init :: "nat \<Rightarrow> nat \<Rightarrow> nat \<Rightarrow> picker \<Rightarrow> picker" where
  "pk_init blocks blocks_in_last n k =
     (let ps = map (\<lambda>p. p\<lparr>peer_count := 0, downloading := False, pos_index := 0\<rparr>)
                 (take n (pk_map k) @ replicate (n - length (pk_map k)) fresh_piece)
      in k\<lparr>pk_map := ps, pk_downloads := [], pk_block_info := [],
           pk_num_filtered := pk_num_filtered k + pk_num_have_filtered k, pk_num_have_filtered := 0,
           pk_num_have := 0, pk_dirty := True,
           pk_cursor := skip_up ps 0, pk_reverse_cursor := skip_down ps n,
           pk_blocks_per_piece := blocks mod 65536,
           pk_blocks_in_last_piece := (if blocks_in_last mod 65536 = 0 then blocks mod 65536
                                       else blocks_in_last mod 65536)\<rparr>)"

subsection \<open>Having a piece\<close>

definition sparse_change :: "nat \<Rightarrow> piece_pos list \<Rightarrow> int" where
  "sparse_change x ps =
     (if x = 0 then (if x + 1 = length ps \<or> pp_have (ps ! (x + 1)) then - 1 else 0)
      else if x + 1 = length ps then (if pp_have (ps ! (x - 1)) then - 1 else 0)
      else
        (let prev = pp_have (ps ! (x - 1)); after = pp_have (ps ! (x + 1))
         in if after \<and> prev then - 1 else if \<not> after \<and> \<not> prev then 1 else 0))"

definition we_have :: "nat \<Rightarrow> picker \<Rightarrow> picker option" where
  "we_have x k = do {
     p \<leftarrow> vec_at (pk_map k) x;
     let info_index = pos_index p;
     let prio = priority (pk_seeds k) p;
     k1 \<leftarrow> (if downloading p
           then do { i \<leftarrow> find_dl_piece x k; erase_download_piece i k } else Some k);
     p1 \<leftarrow> vec_at (pk_map k1) x;
     if pp_have p1 then Some k1
     else do {
       let k2 = k1\<lparr>pk_sparse_regions := pk_sparse_regions k1 + sparse_change x (pk_map k1),
                   pk_num_filtered := pk_num_filtered k1 - (if filtered p1 then 1 else 0),
                   pk_num_have_filtered := pk_num_have_filtered k1 + (if filtered p1 then 1 else 0),
                   pk_num_have := pk_num_have k1 + 1\<rparr>;
       let k3 = cursors_out x (set_piece x (p1\<lparr>pos_index := we_have_index\<rparr>) k2);
       case prio of
         None \<Rightarrow> Some k3
       | Some q \<Rightarrow> if pk_dirty k3 then Some k3 else pk_remove q info_index k3
     }
   }"

definition we_dont_have :: "nat \<Rightarrow> nat \<Rightarrow> picker \<Rightarrow> picker option" where
  "we_dont_have random x k = do {
     p \<leftarrow> vec_at (pk_map k) x;
     if \<not> pp_have p then Some k
     else do {
       let k1 = (if filtered p
                 then k\<lparr>pk_num_filtered := pk_num_filtered k + 1,
                        pk_num_have_filtered := pk_num_have_filtered k - 1\<rparr>
                 else cursors_in x k);
       let p1 = p\<lparr>pos_index := 0\<rparr>;
       let k2 = set_piece x p1 (k1\<lparr>pk_num_have := pk_num_have k1 - 1\<rparr>);
       if pk_dirty k2 then Some k2
       else if priority (pk_seeds k2) p1 \<noteq> None then pk_add random x k2 else Some k2
     }
   }"

definition restore_piece :: "nat \<Rightarrow> nat \<Rightarrow> picker \<Rightarrow> picker option" where
  "restore_piece random x k = do {
     i \<leftarrow> find_dl_piece x k;
     p \<leftarrow> vec_at (pk_map k) x;
     let prev = priority (pk_seeds k) p;
     k1 \<leftarrow> erase_download_piece i k;
     p1 \<leftarrow> vec_at (pk_map k1) x;
     if priority (pk_seeds k1) p1 = prev \<or> pk_dirty k1 then Some k1 else resort random x prev k1
   }"

subsection \<open>Priorities\<close>

definition set_piece_priority :: "nat \<Rightarrow> nat \<Rightarrow> nat \<Rightarrow> picker \<Rightarrow> (bool \<times> picker) option" where
  "set_piece_priority random x new_prio k = do {
     p \<leftarrow> vec_at (pk_map k) x;
     if new_prio = piece_prio p then Some (False, k)
     else do {
       let prev = priority (pk_seeds k) p;
       let p1 = p\<lparr>piece_prio := new_prio mod 8\<rparr>;
       let k1 = set_piece x p1 k;
       let ret = (new_prio = 0 \<or> piece_prio p = 0);
       let k2 =
         (if new_prio = 0 then
            (if pp_have p then k1\<lparr>pk_num_have_filtered := pk_num_have_filtered k1 + 1\<rparr>
             else cursors_out x (k1\<lparr>pk_num_filtered := pk_num_filtered k1 + 1\<rparr>))
          else if piece_prio p = 0 then
            (if pp_have p then k1\<lparr>pk_num_have_filtered := pk_num_have_filtered k1 - 1\<rparr>
             else cursors_in x (k1\<lparr>pk_num_filtered := pk_num_filtered k1 - 1\<rparr>))
          else k1);
       if prev = priority (pk_seeds k) p1 \<or> pk_dirty k2 then Some (ret, k2)
       else map_option (Pair ret) (resort random x prev k2)
     }
   }"

definition piece_priority :: "nat \<Rightarrow> picker \<Rightarrow> nat option" where
  "piece_priority x k = map_option piece_prio (vec_at (pk_map k) x)"

definition piece_priorities :: "picker \<Rightarrow> nat list" where
  "piece_priorities k = map piece_prio (pk_map k)"

definition filtered_pieces :: "picker \<Rightarrow> bool list" where
  "filtered_pieces k = map filtered (pk_map k)"

end
