(* ===== verification/PickerInv.thy ===== *)
theory PickerInv
  imports PiecePicker
begin

section \<open>The invariant of the piece picker\<close>

text \<open>
  \<open>picker_ok\<close> is \<^verbatim>\<open>piece_picker::check_invariant\<close> for the members of \<open>PiecePicker\<close>: the buckets are sorted
  unless they are dirty, the cursors stand at the first and behind the last wanted piece, and the counters
  count. Every operation keeps it; none reads outside a vector.
\<close>

subsection \<open>One piece changes\<close>

lemma set_piece_simps [picker_simps]:
  "pk_map (set_piece x p k) = (pk_map k)[x := p]" "pk_pieces (set_piece x p k) = pk_pieces k"
  "pk_bounds (set_piece x p k) = pk_bounds k" "pk_seeds (set_piece x p k) = pk_seeds k"
  "pk_dirty (set_piece x p k) = pk_dirty k" "pk_cursor (set_piece x p k) = pk_cursor k"
  "pk_reverse_cursor (set_piece x p k) = pk_reverse_cursor k" "pk_num_have (set_piece x p k) = pk_num_have k"
  "pk_num_filtered (set_piece x p k) = pk_num_filtered k"
  "pk_num_have_filtered (set_piece x p k) = pk_num_have_filtered k"
  "pk_downloads (set_piece x p k) = pk_downloads k" "pk_block_info (set_piece x p k) = pk_block_info k"
  "pk_sparse_regions (set_piece x p k) = pk_sparse_regions k"
  by (simp_all add: set_piece_def)

definition piece_changed :: "nat \<Rightarrow> piece_pos \<Rightarrow> picker \<Rightarrow> picker \<Rightarrow> bool" where
  "piece_changed x p k k2 \<longleftrightarrow>
     pk_map k2 = (pk_map k)[x := p] \<and> pk_pieces k2 = pk_pieces k \<and> pk_bounds k2 = pk_bounds k \<and>
     pk_seeds k2 = pk_seeds k \<and> pk_dirty k2 = pk_dirty k \<and> x < length (pk_map k)"

lemma filed_changed:
  assumes f: "filed H V k" and c: "piece_changed x p k k2" and x: "x \<in> V"
  shows "filed H V k2"
  unfolding filed_def
proof (intro conjI allI impI)
  fix i assume "i < length (pk_pieces k2)" "i \<notin> H"
  then have i: "i < length (pk_pieces k)" "i \<notin> H" using c by (auto simp: piece_changed_def)
  from filed_slot [OF f i] obtain y q where "pk_pieces k ! i = Some y" "y < length (pk_map k)" "y \<notin> V"
    "pos_index (pk_map k ! y) = i" "prio_of k y = Some q" "in_bucket (pk_bounds k) q i" by blast
  moreover from this x have "y \<noteq> x" by auto
  ultimately show "\<exists>y q. pk_pieces k2 ! i = Some y \<and> y < length (pk_map k2) \<and> y \<notin> V \<and>
      pos_index (pk_map k2 ! y) = i \<and> prio_of k2 y = Some q \<and> in_bucket (pk_bounds k2) q i"
    using c by (intro exI [of _ y] exI [of _ q]) (simp add: piece_changed_def)
next
  fix y assume y: "y < length (pk_map k2)" "y \<notin> V \<and> prio_of k2 y \<noteq> None"
  then have "y \<noteq> x" "y < length (pk_map k)" "y \<notin> V" using x c by (auto simp: piece_changed_def)
  moreover from this y c have "prio_of k y \<noteq> None" "pk_map k2 ! y = pk_map k ! y"
    by (auto simp: piece_changed_def)
  ultimately show "pos_index (pk_map k2 ! y) < length (pk_pieces k2)" "pos_index (pk_map k2 ! y) \<notin> H"
    "pk_pieces k2 ! pos_index (pk_map k2 ! y) = Some y"
    using f c by (auto simp: filed_def piece_changed_def)
qed

lemma filed_except: "filed {} {} k \<Longrightarrow> x < length (pk_map k) \<Longrightarrow> prio_of k x = None \<Longrightarrow> filed {} {x} k"
  unfolding filed_def by (fastforce split: if_splits)

lemma changed_bounds: "buckets_ok k \<Longrightarrow> piece_changed x p k k2 \<Longrightarrow>
    bounds_ok k2 \<and> last (pk_bounds k2) = length (pk_pieces k2)"
  by (auto simp: buckets_ok_def bounds_ok_def piece_changed_def)

text \<open>A piece that had no priority: it may get one, and is added then.\<close>

lemma changed_absent:
  assumes "buckets_ok k" "piece_changed x p k k2" "prio_of k x = None"
  shows "filed {} {x} k2"
  using filed_changed [OF filed_except assms(2)] assms by (auto simp: buckets_ok_def piece_changed_def)

lemma add_changed:
  assumes "buckets_ok k" "piece_changed x p k k2" "prio_of k x = None" "priority (pk_seeds k) p = Some q"
  shows "\<exists>k'. pk_add random x k2 = Some k' \<and> buckets_ok k' \<and> reindexed k2 k'"
  using pk_add_ok [OF changed_absent [OF assms(1-3)]] changed_bounds [OF assms(1,2)] assms(2,4)
  by (auto simp: piece_changed_def)

lemma none_changed:
  assumes "buckets_ok k" "piece_changed x p k k2" "prio_of k x = None" "priority (pk_seeds k) p = None"
  shows "buckets_ok k2"
proof -
  have "filed {} ({x} - {x}) k2"
    by (rule filed_absent [OF changed_absent [OF assms(1-3)]]) (use assms(2,4) in \<open>auto simp: piece_changed_def\<close>)
  with changed_bounds [OF assms(1,2)] show ?thesis by (simp add: buckets_ok_def)
qed

text \<open>A piece in a bucket: there is a hole at its position.\<close>

lemma buckets_position:
  assumes "buckets_ok k" "x < length (pk_map k)" "prio_of k x = Some q"
  shows "pos_index (pk_map k ! x) < length (pk_pieces k)" "pk_pieces k ! pos_index (pk_map k ! x) = Some x"
    "in_bucket (pk_bounds k) q (pos_index (pk_map k ! x))"
proof -
  show p: "pos_index (pk_map k ! x) < length (pk_pieces k)" "pk_pieces k ! pos_index (pk_map k ! x) = Some x"
    using assms by (auto simp: buckets_ok_def filed_def)
  from buckets_slot [OF assms(1) p(1)] p(2) assms(3)
  show "in_bucket (pk_bounds k) q (pos_index (pk_map k ! x))" by fastforce
qed

lemma changed_holed:
  assumes "buckets_ok k" "piece_changed x p k k2" "prio_of k x = Some q"
  shows "holed (pos_index (pk_map k ! x)) q {x} k2"
proof -
  have x: "x < length (pk_map k)" using assms(2) by (simp add: piece_changed_def)
  note b = buckets_position [OF assms(1) x assms(3)]
  have "filed {pos_index (pk_map k ! x)} {x} k"
    using filed_open [of "{}" "{}" k, OF _ b(1) _ b(2)] assms(1) by (simp add: buckets_ok_def)
  from filed_changed [OF this assms(2)] changed_bounds [OF assms(1,2)] b(3) assms(2)
  show ?thesis by (simp add: holed_def piece_changed_def)
qed

lemma update_changed:
  assumes "buckets_ok k" "piece_changed x p k k2" "prio_of k x = Some q" "pos_index p = pos_index (pk_map k ! x)"
  shows "\<exists>k'. pk_update random q (pos_index p) k2 = Some k' \<and> buckets_ok k' \<and> reindexed k2 k'"
  using pk_update_ok [OF changed_holed [OF assms(1-3)]] buckets_position(2) [OF assms(1) _ assms(3)] assms(2,4)
  by (auto simp: piece_changed_def)

lemma remove_changed:
  assumes "buckets_ok k" "piece_changed x p k k2" "prio_of k x = Some q" "priority (pk_seeds k) p = None"
  shows "\<exists>k'. pk_remove q (pos_index (pk_map k ! x)) k2 = Some k' \<and> buckets_ok k' \<and> reindexed k2 k'"
  using pk_remove_ok [OF changed_holed [OF assms(1-3)]] assms(2,4) by (auto simp: piece_changed_def)

lemma same_changed:
  assumes "buckets_ok k" "piece_changed x p k k2" "priority (pk_seeds k) p = prio_of k x"
    "pos_index p = pos_index (pk_map k ! x)"
  shows "buckets_ok k2"
proof (cases "prio_of k x")
  case None
  with none_changed [OF assms(1,2)] assms(3) show ?thesis by simp
next
  case (Some q)
  have x: "x < length (pk_map k)" using assms(2) by (simp add: piece_changed_def)
  note b = buckets_position [OF assms(1) x Some] and h = changed_holed [OF assms(1,2) Some]
  have "filed {} {} k2"
    by (rule filed_close [OF holed_simps(1,5) [OF h]])
      (use b assms(2-4) Some in \<open>auto simp: piece_changed_def\<close>)
  with changed_bounds [OF assms(1,2)] show ?thesis by (simp add: buckets_ok_def)
qed

lemma resort_changed:
  assumes "buckets_ok k" "piece_changed x p k k2" "prev = prio_of k x" "priority (pk_seeds k) p \<noteq> prev"
    "pos_index p = pos_index (pk_map k ! x)"
  shows "\<exists>k'. resort random x prev k2 = Some k' \<and> buckets_ok k' \<and> reindexed k2 k'"
proof (cases prev)
  case None
  with add_changed [OF assms(1,2)] assms(3,4) show ?thesis by (auto simp: resort_def)
next
  case (Some q)
  then have "prio_of k x = Some q" using assms(3) by simp
  moreover have "vec_at (pk_map k2) x = Some p" using assms(2) by (simp add: piece_changed_def)
  ultimately show ?thesis
    using update_changed [OF assms(1,2) _ assms(5), of q random] assms(3) by (simp add: resort_def)
qed

subsection \<open>Cursors and counters\<close>

definition cursors_ok :: "piece_pos list \<Rightarrow> nat \<Rightarrow> nat \<Rightarrow> bool" where
  "cursors_ok ps c r \<longleftrightarrow>
     c \<le> length ps \<and> r \<le> length ps \<and> (\<forall>i < c. unwanted (ps ! i)) \<and>
     (c < length ps \<longrightarrow> \<not> unwanted (ps ! c)) \<and>
     (\<forall>i < length ps. r \<le> i \<longrightarrow> unwanted (ps ! i)) \<and> (0 < r \<longrightarrow> \<not> unwanted (ps ! (r - 1)))"

definition tally :: "('a \<Rightarrow> bool) \<Rightarrow> 'a list \<Rightarrow> int" where
  "tally P ps = int (length (filter P ps))"

definition counters_ok :: "picker \<Rightarrow> bool" where
  "counters_ok k \<longleftrightarrow>
     pk_num_have k = tally pp_have (pk_map k) \<and>
     pk_num_filtered k = tally (\<lambda>p. filtered p \<and> \<not> pp_have p) (pk_map k) \<and>
     pk_num_have_filtered k = tally (\<lambda>p. filtered p \<and> pp_have p) (pk_map k)"

text \<open>Also while the buckets are dirty, what is in them are pieces of the map.\<close>

definition named :: "picker \<Rightarrow> bool" where
  "named k \<longleftrightarrow> (\<forall>p \<in> set (pk_pieces k). \<exists>x < length (pk_map k). p = Some x)"

lemma buckets_named: "buckets_ok k \<Longrightarrow> named k"
  unfolding named_def by (metis buckets_slot in_set_conv_nth)

lemma named_same: "pk_pieces k' = pk_pieces k \<Longrightarrow> length (pk_map k') = length (pk_map k) \<Longrightarrow> named k' = named k"
  by (simp add: named_def)

lemma changed_named: "piece_changed x p k k2 \<Longrightarrow> named k2 = named k"
  by (rule named_same) (simp_all add: piece_changed_def)

lemma named_simps [simp]:
  "named (k\<lparr>pk_dirty := d\<rparr>) = named k" "named (set_piece x p k) = named k" "named (k\<lparr>pk_seeds := n\<rparr>) = named k"
  "named (k\<lparr>pk_seeds := n, pk_map := map f (pk_map k)\<rparr>) = named k"
  by (simp_all add: named_def set_piece_def)

definition picker_ok :: "picker \<Rightarrow> bool" where
  "picker_ok k \<longleftrightarrow>
     named k \<and> (\<not> pk_dirty k \<longrightarrow> buckets_ok k) \<and> length (pk_map k) < we_have_index \<and>
     cursors_ok (pk_map k) (pk_cursor k) (pk_reverse_cursor k) \<and> counters_ok k"

lemma skip_up_ok:
  assumes "i \<le> length ps" "\<forall>j < i. unwanted (ps ! j)"
  shows "skip_up ps i \<le> length ps \<and> (\<forall>j < skip_up ps i. unwanted (ps ! j)) \<and>
    (skip_up ps i < length ps \<longrightarrow> \<not> unwanted (ps ! skip_up ps i))"
  using assms
proof (induction ps i rule: skip_up.induct)
  case (1 ps i)
  show ?case
  proof (cases "i < length ps \<and> unwanted (ps ! i)")
    case True
    then have "\<forall>j < i + 1. unwanted (ps ! j)" using 1(3) by (auto simp: less_Suc_eq)
    with 1(1) True show ?thesis by (simp add: skip_up.simps [of ps i])
  next
    case False
    with 1(2,3) show ?thesis by (auto simp: skip_up.simps [of ps i])
  qed
qed

lemma skip_down_ok:
  assumes "i \<le> length ps" "\<forall>j < length ps. i \<le> j \<longrightarrow> unwanted (ps ! j)"
  shows "skip_down ps i \<le> length ps \<and> (\<forall>j < length ps. skip_down ps i \<le> j \<longrightarrow> unwanted (ps ! j)) \<and>
    (0 < skip_down ps i \<longrightarrow> \<not> unwanted (ps ! (skip_down ps i - 1)))"
  using assms
proof (induction ps i rule: skip_down.induct)
  case (2 ps i)
  show ?case
  proof (cases "unwanted (ps ! i)")
    case True
    then have "\<forall>j < length ps. i \<le> j \<longrightarrow> unwanted (ps ! j)" using 2(3) by (metis Suc_leI le_neq_implies_less)
    with 2(1,2) True show ?thesis by simp
  qed (use 2 in simp)
qed simp

lemma cursors_out_simps [picker_simps]:
  "pk_map (cursors_out x k) = pk_map k" "pk_pieces (cursors_out x k) = pk_pieces k"
  "pk_bounds (cursors_out x k) = pk_bounds k" "pk_seeds (cursors_out x k) = pk_seeds k"
  "pk_dirty (cursors_out x k) = pk_dirty k" "pk_num_have (cursors_out x k) = pk_num_have k"
  "pk_num_filtered (cursors_out x k) = pk_num_filtered k"
  "pk_num_have_filtered (cursors_out x k) = pk_num_have_filtered k"
  "pk_sparse_regions (cursors_out x k) = pk_sparse_regions k"
  by (simp_all add: cursors_out_def)

lemma cursors_in_simps [picker_simps]:
  "pk_map (cursors_in x k) = pk_map k" "pk_pieces (cursors_in x k) = pk_pieces k"
  "pk_bounds (cursors_in x k) = pk_bounds k" "pk_seeds (cursors_in x k) = pk_seeds k"
  "pk_dirty (cursors_in x k) = pk_dirty k" "pk_num_have (cursors_in x k) = pk_num_have k"
  "pk_num_filtered (cursors_in x k) = pk_num_filtered k"
  "pk_num_have_filtered (cursors_in x k) = pk_num_have_filtered k"
  "pk_sparse_regions (cursors_in x k) = pk_sparse_regions k"
  by (simp_all add: cursors_in_def Let_def)

text \<open>A wanted piece becomes unwanted.\<close>

lemma cursors_out_ok:
  assumes c: "cursors_ok ps (pk_cursor k) (pk_reverse_cursor k)" and x: "x < length ps" "\<not> unwanted (ps ! x)"
    and ps: "pk_map k = ps[x := p]" "unwanted p"
  shows "cursors_ok (pk_map k) (pk_cursor (cursors_out x k)) (pk_reverse_cursor (cursors_out x k))"
proof -
  let ?c = "pk_cursor k" and ?r = "pk_reverse_cursor k" and ?q = "ps[x := p]"
  have cx: "?c \<le> x" using c x by (auto simp: cursors_ok_def not_less intro: ccontr)
  have rx: "x < ?r" using c x by (auto simp: cursors_ok_def not_less intro: ccontr)
  have un: "unwanted (?q ! i)" if "unwanted (ps ! i) \<or> i = x" for i
    using that ps(2) x by (cases "i = x") auto
  consider (one) "?c + 1 = ?r" "?c = x" | (first) "?c + 1 \<noteq> ?r" "?c = x"
    | (last) "?c \<noteq> x" "?r = x + 1" | (inner) "?c \<noteq> x" "?r \<noteq> x + 1" by blast
  then show ?thesis
  proof cases
    case one
    have "unwanted (?q ! i)" if "i < length ps" for i
      using c that one un [of i] by (cases "i = x"; cases "i < x") (auto simp: cursors_ok_def)
    with one ps show ?thesis by (simp add: cursors_out_def cursors_ok_def)
  next
    case first
    have "\<forall>j < x + 1. unwanted (?q ! j)" using c first un by (auto simp: cursors_ok_def less_Suc_eq)
    with skip_up_ok [of "x + 1" ?q] x first ps have
      s: "skip_up ?q (x + 1) \<le> length ps" "\<forall>j < skip_up ?q (x + 1). unwanted (?q ! j)"
        "skip_up ?q (x + 1) < length ps \<longrightarrow> \<not> unwanted (?q ! skip_up ?q (x + 1))" by auto
    have "?r - 1 \<noteq> x" using first rx by auto
    with s c first ps un show ?thesis by (auto simp: cursors_out_def cursors_ok_def)
  next
    case last
    have "\<forall>j < length ?q. x \<le> j \<longrightarrow> unwanted (?q ! j)"
      using c last un by (auto simp: cursors_ok_def)
    with skip_down_ok [of x ?q] x have
      s: "skip_down ?q x \<le> length ps" "\<forall>j < length ps. skip_down ?q x \<le> j \<longrightarrow> unwanted (?q ! j)"
        "0 < skip_down ?q x \<longrightarrow> \<not> unwanted (?q ! (skip_down ?q x - 1))" by auto
    with c last ps un cx show ?thesis by (auto simp: cursors_out_def cursors_ok_def)
  next
    case inner
    then have "?r - 1 \<noteq> x" using rx by auto
    with c inner ps un cx show ?thesis by (auto simp: cursors_out_def cursors_ok_def)
  qed
qed

text \<open>An unwanted piece becomes wanted.\<close>

lemma cursors_in_ok:
  assumes c: "cursors_ok ps (pk_cursor k) (pk_reverse_cursor k)" and x: "x < length ps"
    and p: "\<not> unwanted p" and l: "length (pk_map k) = length ps"
  shows "cursors_ok (ps[x := p]) (pk_cursor (cursors_in x k)) (pk_reverse_cursor (cursors_in x k))"
proof -
  let ?c = "pk_cursor k" and ?r = "pk_reverse_cursor k"
  define c' where "c' = (if x < ?c then x else ?c)"
  define r' where "r' = (if ?r \<le> x then x + 1 else ?r)"
  have cx: "c' \<le> x" "x < r'" by (auto simp: c'_def r'_def)
  then have e: "pk_cursor (cursors_in x k) = c'" "pk_reverse_cursor (cursors_in x k) = r'"
    unfolding cursors_in_def Let_def c'_def [symmetric] r'_def [symmetric] by auto
  show ?thesis
    unfolding e using c x p cx by (auto simp: cursors_ok_def c'_def r'_def nth_list_update split: if_splits)
qed

lemma count_update:
  assumes "x < length ps"
  shows "tally P (ps[x := p]) = tally P ps + (if P p then 1 else 0) - (if P (ps ! x) then 1 else 0)"
proof -
  have "filter P ps = filter P (take x ps) @ filter P [ps ! x] @ filter P (drop (Suc x) ps)"
    using id_take_nth_drop [OF assms] by (metis append_Cons append_Nil filter_append)
  moreover have "filter P (ps[x := p]) = filter P (take x ps) @ filter P [p] @ filter P (drop (Suc x) ps)"
    using upd_conv_take_nth_drop [OF assms] by (metis append_Cons append_Nil filter_append)
  ultimately show ?thesis by (simp add: tally_def)
qed

subsection \<open>Every operation keeps the invariant\<close>

lemma same_piece_unwanted: "same_piece p p' \<Longrightarrow> unwanted p' = unwanted p \<and> filtered p' = filtered p \<and> pp_have p' = pp_have p"
  by (cases p; cases p') (auto simp: same_piece_def unwanted_def filtered_def)

lemma count_same:
  assumes "list_all2 same_piece ps ps'" "\<And>p p'. same_piece p p' \<Longrightarrow> P p' = P p"
  shows "tally P ps' = tally P ps"
  using assms(1) by (induction rule: list_all2_induct) (auto simp: tally_def assms(2))

lemma cursors_same:
  assumes "list_all2 same_piece ps ps'"
  shows "cursors_ok ps' c r = cursors_ok ps c r"
proof -
  have "length ps' = length ps" using assms by (simp add: list_all2_lengthD)
  moreover have "unwanted (ps' ! i) = unwanted (ps ! i)" if "i < length ps" for i
    using assms that same_piece_unwanted by (auto simp: list_all2_conv_all_nth)
  ultimately show ?thesis by (auto simp: cursors_ok_def)
qed

lemma reindexed_keeps:
  assumes "reindexed k k'"
  shows "counters_ok k' = counters_ok k" "cursors_ok (pk_map k') (pk_cursor k') (pk_reverse_cursor k') =
      cursors_ok (pk_map k) (pk_cursor k) (pk_reverse_cursor k)"
    "pk_cursor k' = pk_cursor k" "pk_reverse_cursor k' = pk_reverse_cursor k"
    "pk_sparse_regions k' = pk_sparse_regions k" "pk_downloads k' = pk_downloads k"
    "pk_block_info k' = pk_block_info k" "pk_blocks_per_piece k' = pk_blocks_per_piece k"
    "pk_blocks_in_last_piece k' = pk_blocks_in_last_piece k"
proof -
  have l: "list_all2 same_piece (pk_map k) (pk_map k')"
    and e: "k' = k\<lparr>pk_pieces := pk_pieces k', pk_bounds := pk_bounds k', pk_map := pk_map k'\<rparr>"
    using assms unfolding reindexed_def by blast+
  show f: "pk_cursor k' = pk_cursor k" "pk_reverse_cursor k' = pk_reverse_cursor k"
    "pk_sparse_regions k' = pk_sparse_regions k" "pk_downloads k' = pk_downloads k"
    "pk_block_info k' = pk_block_info k" "pk_blocks_per_piece k' = pk_blocks_per_piece k"
    "pk_blocks_in_last_piece k' = pk_blocks_in_last_piece k"
    by (subst e; simp)+
  have "pk_num_have k' = pk_num_have k" "pk_num_filtered k' = pk_num_filtered k"
    "pk_num_have_filtered k' = pk_num_have_filtered k" by (subst e; simp)+
  then show "counters_ok k' = counters_ok k"
    using count_same [OF l] same_piece_unwanted by (simp add: counters_ok_def)
  show "cursors_ok (pk_map k') (pk_cursor k') (pk_reverse_cursor k') =
      cursors_ok (pk_map k) (pk_cursor k) (pk_reverse_cursor k)"
    using cursors_same [OF l] f by simp
qed

text \<open>What the operations on whole pieces leave as it is: the downloads, and what a piece says of them.\<close>

definition keeps_piece :: "piece_pos \<Rightarrow> piece_pos \<Rightarrow> bool" where
  "keeps_piece p p' \<longleftrightarrow> downloading p' = downloading p \<and> full p' = full p \<and>
     (pp_have p' \<longrightarrow> pp_have p) \<and> (piece_prio p < 8 \<longrightarrow> piece_prio p' < 8)"

definition keeps :: "picker \<Rightarrow> picker \<Rightarrow> bool" where
  "keeps k k' \<longleftrightarrow> list_all2 keeps_piece (pk_map k) (pk_map k') \<and> pk_downloads k' = pk_downloads k \<and>
     pk_block_info k' = pk_block_info k \<and> pk_blocks_per_piece k' = pk_blocks_per_piece k \<and>
     pk_blocks_in_last_piece k' = pk_blocks_in_last_piece k"

lemma keeps_piece_refl [simp]: "keeps_piece p p"
  by (simp add: keeps_piece_def)

lemma keeps_refl [simp]: "keeps k k"
  by (simp add: keeps_def list_all2_refl)

lemma keeps_trans: "keeps k k1 \<Longrightarrow> keeps k1 k2 \<Longrightarrow> keeps k k2"
  unfolding keeps_def by (auto simp: keeps_piece_def elim: list_all2_trans [rotated])

lemma same_piece_keeps: "same_piece p p' \<Longrightarrow> keeps_piece p p'"
  by (cases p; cases p') (auto simp: same_piece_def keeps_piece_def)

lemma keeps_reindexed: "keeps k k1 \<Longrightarrow> reindexed k1 k2 \<Longrightarrow> keeps k k2"
  using reindexed_keeps [of k1 k2] list_all2_mono [of same_piece "pk_map k1" "pk_map k2" keeps_piece] same_piece_keeps
  by (intro keeps_trans [of k k1 k2]) (auto simp: keeps_def reindexed_def)

lemma keeps_map:
  "list_all2 keeps_piece (pk_map k) ps \<Longrightarrow> keeps k (k\<lparr>pk_map := ps\<rparr>)"
  by (simp add: keeps_def)

lemma keeps_set: "keeps_piece (pk_map k ! x) p \<Longrightarrow> keeps k (set_piece x p k)"
  unfolding set_piece_def by (rule keeps_map)
    (auto simp: list_all2_conv_all_nth, metis keeps_piece_refl nth_list_update_eq nth_list_update_neq)

lemma keeps_counters:
  "keeps k k1 \<Longrightarrow> keeps k (if a
     then (if b then k1\<lparr>pk_num_have_filtered := u\<rparr> else cursors_out x (k1\<lparr>pk_num_filtered := v\<rparr>))
     else if c then (if b then k1\<lparr>pk_num_have_filtered := u'\<rparr> else cursors_in x (k1\<lparr>pk_num_filtered := v'\<rparr>))
     else k1)"
  by (simp add: keeps_def cursors_out_def cursors_in_def Let_def)

lemma picker_ok_reindexed:
  assumes "reindexed k k'" "buckets_ok k'" "counters_ok k" "cursors_ok (pk_map k) (pk_cursor k) (pk_reverse_cursor k)"
  shows "picker_ok k'"
  using assms reindexed_keeps [OF assms(1)] buckets_named [OF assms(2)] by (auto simp: picker_ok_def buckets_ok_def bounds_ok_def)

lemma picker_ok_simps:
  assumes "picker_ok k"
  shows "\<not> pk_dirty k \<Longrightarrow> buckets_ok k" "length (pk_map k) < we_have_index"
    "cursors_ok (pk_map k) (pk_cursor k) (pk_reverse_cursor k)" "counters_ok k" "named k"
  using assms by (auto simp: picker_ok_def)

text \<open>
  The common end of the operations: the map has one piece changed, cursors and counters are right, and the
  buckets follow unless they are dirty or the priority is the same.
\<close>

lemma settle_ok:
  assumes k: "picker_ok k" and c: "piece_changed x p k k2" "pos_index p = pos_index (pk_map k ! x)"
    and s: "cursors_ok (pk_map k2) (pk_cursor k2) (pk_reverse_cursor k2)" "counters_ok k2"
    and prev: "prev = prio_of k x" "same = (prev = priority (pk_seeds k) p)"
  shows "\<exists>k'. (if same \<or> pk_dirty k2 then Some k2 else resort random x prev k2) = Some k' \<and>
    picker_ok k' \<and> reindexed k2 k'"
proof (cases "same \<or> pk_dirty k2")
  case True
  have "\<not> pk_dirty k2 \<Longrightarrow> buckets_ok k2"
    using same_changed [OF picker_ok_simps(1) [OF k] c(1) _ c(2)] True prev c(1)
    by (auto simp: piece_changed_def)
  with True s k c(1) changed_named [OF c(1)] show ?thesis by (auto simp: picker_ok_def piece_changed_def)
next
  case False
  then have d: "\<not> pk_dirty k" using c(1) by (simp add: piece_changed_def)
  from resort_changed [OF picker_ok_simps(1) [OF k d] c(1) prev(1) _ c(2), of random] False prev(2)
  obtain k' where "resort random x prev k2 = Some k'" "buckets_ok k'" "reindexed k2 k'" by auto
  with False s picker_ok_reindexed show ?thesis by auto
qed

lemma changed_summary:
  assumes "picker_ok k" "x < length (pk_map k)" "same_piece (pk_map k ! x) p' \<or>
      (pp_have p' = pp_have (pk_map k ! x) \<and> filtered p' = filtered (pk_map k ! x))"
  shows "cursors_ok ((pk_map k)[x := p']) (pk_cursor k) (pk_reverse_cursor k)"
    "tally pp_have ((pk_map k)[x := p']) = tally pp_have (pk_map k)"
    "tally (\<lambda>p. filtered p \<and> \<not> pp_have p) ((pk_map k)[x := p']) = tally (\<lambda>p. filtered p \<and> \<not> pp_have p) (pk_map k)"
    "tally (\<lambda>p. filtered p \<and> pp_have p) ((pk_map k)[x := p']) = tally (\<lambda>p. filtered p \<and> pp_have p) (pk_map k)"
proof -
  have e: "pp_have p' = pp_have (pk_map k ! x)" "filtered p' = filtered (pk_map k ! x)"
    using assms(3) same_piece_unwanted by auto
  have "unwanted ((pk_map k)[x := p'] ! i) = unwanted (pk_map k ! i)" for i
    using e assms(2) by (cases "i = x") (simp_all add: unwanted_def)
  then show "cursors_ok ((pk_map k)[x := p']) (pk_cursor k) (pk_reverse_cursor k)"
    using picker_ok_simps(3) [OF assms(1)] by (simp add: cursors_ok_def)
qed (use assms(2,3) same_piece_unwanted in \<open>auto simp: count_update\<close>)

lemma peers_have [simp]:
  "pp_have (inc_peers p) = pp_have p" "filtered (inc_peers p) = filtered p" "pos_index (inc_peers p) = pos_index p"
  "pp_have (dec_peers p) = pp_have p" "filtered (dec_peers p) = filtered p" "pos_index (dec_peers p) = pos_index p"
  by (simp_all add: inc_peers_def dec_peers_def pp_have_def filtered_def)

lemma peers_keep [simp]: "keeps_piece p (inc_peers p)" "keeps_piece p (dec_peers p)"
  by (simp_all add: keeps_piece_def) (simp_all add: inc_peers_def dec_peers_def)

lemma set_piece_settled:
  assumes "picker_ok k" "x < length (pk_map k)" "pp_have p' = pp_have (pk_map k ! x)" "filtered p' = filtered (pk_map k ! x)"
  shows "piece_changed x p' k (set_piece x p' k)"
    "cursors_ok (pk_map (set_piece x p' k)) (pk_cursor (set_piece x p' k)) (pk_reverse_cursor (set_piece x p' k))"
    "counters_ok (set_piece x p' k)"
proof -
  show "piece_changed x p' k (set_piece x p' k)"
    using assms(2) by (simp add: piece_changed_def picker_simps)
  show "cursors_ok (pk_map (set_piece x p' k)) (pk_cursor (set_piece x p' k)) (pk_reverse_cursor (set_piece x p' k))"
    using changed_summary(1) [OF assms(1,2), of p'] assms(3,4) by (simp add: picker_simps)
  show "counters_ok (set_piece x p' k)"
    using changed_summary(2-4) [OF assms(1,2), of p'] assms(3,4) picker_ok_simps(4) [OF assms(1)]
    by (simp add: picker_simps counters_ok_def)
qed

theorem inc_refcount_ok:
  assumes "picker_ok k" "x < length (pk_map k)"
  shows "\<exists>k'. inc_refcount random x k = Some k' \<and> picker_ok k' \<and> keeps k k'"
proof -
  let ?p = "inc_peers (pk_map k ! x)"
  have "\<exists>k'. (if prio_of k x = priority (pk_seeds k) ?p \<or> pk_dirty (set_piece x ?p k) then Some (set_piece x ?p k)
      else resort random x (prio_of k x) (set_piece x ?p k)) = Some k' \<and> picker_ok k' \<and> reindexed (set_piece x ?p k) k'"
    by (rule settle_ok [OF assms(1)]) (use set_piece_settled [OF assms, of ?p] in simp_all)
  then obtain k' where k': "inc_refcount random x k = Some k'" "picker_ok k'" "reindexed (set_piece x ?p k) k'"
    using assms(2) by (auto simp: inc_refcount_def Let_def picker_simps split: if_splits)
  from keeps_reindexed [OF keeps_set this(3)] k' show ?thesis by simp
qed

lemma peers_changed:
  assumes "picker_ok k" "\<And>p. pp_have (f p) = pp_have p" "\<And>p. filtered (f p) = filtered p"
  shows "picker_ok (k\<lparr>pk_seeds := s, pk_map := map f (pk_map k), pk_dirty := True\<rparr>)"
proof -
  have "unwanted (f p) = unwanted p" for p using assms(2,3) by (simp add: unwanted_def)
  then show ?thesis
    using assms by (auto simp: picker_ok_def cursors_ok_def counters_ok_def tally_def filter_map comp_def)
qed

lemma break_one_seed_ok:
  "picker_ok k \<Longrightarrow> 0 < pk_seeds k \<Longrightarrow>
     \<exists>k'. break_one_seed k = Some k' \<and> picker_ok k' \<and> pk_dirty k' \<and> pk_map k' = map inc_peers (pk_map k) \<and> keeps k k'"
  using peers_changed [of k inc_peers] by (auto simp: break_one_seed_def keeps_def list_all2_conv_all_nth)

text \<open>A peer or a seed must have the piece that goes.\<close>

theorem dec_refcount_ok:
  assumes "picker_ok k" "x < length (pk_map k)" "0 < peer_count (pk_map k ! x) \<or> 0 < pk_seeds k"
  shows "\<exists>k'. dec_refcount random x k = Some k' \<and> picker_ok k' \<and> keeps k k'"
proof -
  obtain k0 where k0: "(if peer_count (pk_map k ! x) = 0 then break_one_seed k else Some k) = Some k0"
    "picker_ok k0" "length (pk_map k0) = length (pk_map k)"
    "\<not> pk_dirty k0 \<Longrightarrow> 0 < peer_count (pk_map k0 ! x)" "keeps k k0"
    using break_one_seed_ok [OF assms(1)] assms by (cases "peer_count (pk_map k ! x) = 0") auto
  have x0: "x < length (pk_map k0)" using assms(2) k0(3) by simp
  let ?p = "dec_peers (pk_map k0 ! x)"
  let ?k = "set_piece x ?p k0"
  note sp = set_piece_settled [OF k0(2) x0, of ?p, simplified]
  have ke: "keeps k ?k" using keeps_trans [OF k0(5) keeps_set] by simp
  show ?thesis
  proof (cases "pk_dirty k0")
    case True
    have "picker_ok ?k" using sp(2,3) k0(2) True by (simp add: picker_ok_def picker_simps)
    with True k0(1) assms(2) x0 ke show ?thesis by (simp add: dec_refcount_def Let_def)
  next
    case False
    note b = picker_ok_simps(1) [OF k0(2) False]
    show ?thesis
    proof (cases "prio_of k0 x")
      case None
      then have "priority (pk_seeds k0) ?p = None"
        using k0(4) [OF False] by (auto simp: priority_def Let_def split: if_splits prod.splits)
      with none_changed [OF b sp(1) None] sp(2,3) k0(2) have "picker_ok ?k"
        by (simp add: picker_ok_def picker_simps)
      with None False k0(1) assms(2) x0 ke show ?thesis by (simp add: dec_refcount_def Let_def)
    next
      case (Some q)
      from update_changed [OF b sp(1) Some, of random] obtain k' where
        "pk_update random q (pos_index ?p) ?k = Some k'" "buckets_ok k'" "reindexed ?k k'" by auto
      with Some False k0(1) assms(2) x0 picker_ok_reindexed sp(2,3) keeps_reindexed [OF ke] show ?thesis
        by (auto simp: dec_refcount_def Let_def)
    qed
  qed
qed

theorem inc_refcount_all_ok: "picker_ok k \<Longrightarrow> picker_ok (inc_refcount_all k)"
proof -
  assume k: "picker_ok k"
  have "buckets_ok (inc_refcount_all k)" if "\<not> pk_dirty (inc_refcount_all k)"
  proof -
    from that have d: "\<not> pk_dirty k" "0 < pk_seeds k" by (auto simp: inc_refcount_all_def)
    have "priority (pk_seeds k + 1) p = priority (pk_seeds k) p" for p
      using d(2) by (simp add: priority_def)
    then show ?thesis
      using picker_ok_simps(1) [OF k d(1)]
      by (simp add: buckets_ok_def filed_def bounds_ok_def inc_refcount_all_def)
  qed
  then show ?thesis using k by (auto simp: picker_ok_def counters_ok_def inc_refcount_all_def)
qed

theorem dec_refcount_all_ok: "picker_ok k \<Longrightarrow> picker_ok (dec_refcount_all k)"
proof (cases "0 < pk_seeds k")
  case True
  assume k: "picker_ok k"
  have "buckets_ok (dec_refcount_all k)" if "\<not> pk_dirty (dec_refcount_all k)"
  proof -
    from that True have d: "\<not> pk_dirty k" "1 < pk_seeds k" by (auto simp: dec_refcount_all_def split: if_splits)
    have "priority (pk_seeds k - 1) p = priority (pk_seeds k) p" for p
      using d(2) by (simp add: priority_def)
    then show ?thesis
      using picker_ok_simps(1) [OF k d(1)] True
      by (simp add: buckets_ok_def filed_def bounds_ok_def dec_refcount_all_def)
  qed
  then show ?thesis using k True by (auto simp: picker_ok_def counters_ok_def dec_refcount_all_def)
next
  case False
  assume "picker_ok k"
  from peers_changed [OF this, of dec_peers "pk_seeds k"] False show ?thesis by (simp add: dec_refcount_all_def)
qed

lemma unsettled_ok:
  assumes "picker_ok k" "x < length (pk_map k)" "pp_have p = pp_have (pk_map k ! x)" "filtered p = filtered (pk_map k ! x)"
  shows "picker_ok ((set_piece x p k)\<lparr>pk_dirty := True\<rparr>)"
  using set_piece_settled(2,3) [OF assms] assms(1)
  by (simp add: picker_ok_def counters_ok_def picker_simps)

lemma set_piece_dirty: "set_piece x p k\<lparr>pk_dirty := d\<rparr> = set_piece x p (k\<lparr>pk_dirty := d\<rparr>)"
  by (simp add: set_piece_def)

lemma inc_bits_ok:
  assumes "picker_ok (k\<lparr>pk_dirty := True\<rparr>)" "x + length bs \<le> length (pk_map k)"
  shows "\<exists>k'. inc_bits x bs k = Some k' \<and> picker_ok (k'\<lparr>pk_dirty := True\<rparr>) \<and>
    (list_ex id bs \<or> k' = k)"
  using assms
proof (induction x bs k rule: inc_bits.induct)
  case (2 x b bs k)
  show ?case
  proof (cases b)
    case True
    let ?k = "set_piece x (inc_peers (pk_map k ! x)) k"
    have "picker_ok (?k\<lparr>pk_dirty := True\<rparr>)"
      using unsettled_ok [OF 2(3), of x "inc_peers (pk_map k ! x)"] 2(4) by (simp add: set_piece_dirty)
    with 2 True show ?thesis by (auto simp: picker_simps)
  next
    case False
    with 2 show ?thesis by simp
  qed
qed simp

lemma inc_bits_keeps: "inc_bits x bs k = Some k' \<Longrightarrow> keeps k k'"
proof (induction x bs k rule: inc_bits.induct)
  case (2 x b bs k)
  show ?case
  proof (cases b)
    case True
    with 2 obtain p where "vec_at (pk_map k) x = Some p"
      and k: "keeps (set_piece x (inc_peers p) k) k'" by (auto split: bind_splits)
    then have "keeps_piece (pk_map k ! x) (inc_peers p)" by (simp add: vec_at_eq_Some)
    from keeps_trans [OF keeps_set [OF this] k] show ?thesis .
  next
    case False
    with 2 show ?thesis by simp
  qed
qed simp

theorem inc_refcount_bits_ok:
  assumes "picker_ok k" "length bs = length (pk_map k)"
  shows "\<exists>k'. inc_refcount_bits bs k = Some k' \<and> picker_ok k' \<and> keeps k k'"
proof -
  have "picker_ok (k\<lparr>pk_dirty := True\<rparr>)" using assms(1) by (simp add: picker_ok_def counters_ok_def)
  from inc_bits_ok [OF this, of 0 bs] assms obtain k' where k': "inc_bits 0 bs k = Some k'"
    "picker_ok (k'\<lparr>pk_dirty := True\<rparr>)" "list_ex id bs \<or> k' = k" by auto
  with inc_bits_keeps [OF k'(1)] assms show ?thesis by (auto simp: inc_refcount_bits_def keeps_def)
qed

text \<open>The application's priorities are 0 to 7.\<close>

theorem set_piece_priority_ok:
  assumes k: "picker_ok k" and x: "x < length (pk_map k)" and n: "new_prio \<le> 7"
  shows "\<exists>ret k'. set_piece_priority random x new_prio k = Some (ret, k') \<and> picker_ok k' \<and> keeps k k' \<and>
    piece_priorities k' = (piece_priorities k)[x := new_prio] \<and>
    (ret \<longleftrightarrow> new_prio \<noteq> piece_prio (pk_map k ! x) \<and> (new_prio = 0 \<or> piece_prio (pk_map k ! x) = 0))"
proof (cases "new_prio = piece_prio (pk_map k ! x)")
  case True
  have "(piece_priorities k)[x := piece_prio (pk_map k ! x)] = piece_priorities k"
    using x by (simp add: piece_priorities_def map_update [symmetric])
  with True x k show ?thesis by (auto simp: set_piece_priority_def)
next
  case False
  let ?p = "pk_map k ! x"
  let ?p1 = "?p\<lparr>piece_prio := new_prio\<rparr>"
  let ?k1 = "set_piece x ?p1 k"
  let ?k2 = "if new_prio = 0 then
      (if pp_have ?p then ?k1\<lparr>pk_num_have_filtered := pk_num_have_filtered ?k1 + 1\<rparr>
       else cursors_out x (?k1\<lparr>pk_num_filtered := pk_num_filtered ?k1 + 1\<rparr>))
    else if piece_prio ?p = 0 then
      (if pp_have ?p then ?k1\<lparr>pk_num_have_filtered := pk_num_have_filtered ?k1 - 1\<rparr>
       else cursors_in x (?k1\<lparr>pk_num_filtered := pk_num_filtered ?k1 - 1\<rparr>))
    else ?k1"
  note ks = picker_ok_simps [OF k]
  have h: "pp_have (?p\<lparr>piece_prio := m\<rparr>) = pp_have ?p" for m by (simp add: pp_have_def)
  have ch: "piece_changed x ?p1 k ?k2"
    using x by (auto simp: piece_changed_def picker_simps)
  have cu: "cursors_ok (pk_map ?k2) (pk_cursor ?k2) (pk_reverse_cursor ?k2)"
  proof -
    have same: "cursors_ok ((pk_map k)[x := ?p1]) (pk_cursor k) (pk_reverse_cursor k)"
      if "unwanted ?p1 = unwanted ?p"
    proof -
      have "unwanted ((pk_map k)[x := ?p1] ! i) = unwanted (pk_map k ! i)" for i
        using that x by (cases "i = x") simp_all
      then show ?thesis using ks(3) by (simp add: cursors_ok_def)
    qed
    consider (out) "new_prio = 0" "\<not> pp_have ?p" | (inn) "new_prio \<noteq> 0" "piece_prio ?p = 0" "\<not> pp_have ?p"
      | (have_it) "pp_have ?p" | (other) "new_prio \<noteq> 0" "piece_prio ?p \<noteq> 0" by blast
    then show ?thesis
    proof cases
      case out
      then have "\<not> unwanted ?p" "unwanted ?p1" using False by (auto simp: unwanted_def filtered_def)
      with cursors_out_ok [of "pk_map k" "?k1\<lparr>pk_num_filtered := pk_num_filtered ?k1 + 1\<rparr>" x ?p1] ks(3) x out
      show ?thesis by (simp add: picker_simps)
    next
      case inn
      then have "\<not> unwanted ?p1" using h by (auto simp: unwanted_def filtered_def)
      with cursors_in_ok [of "pk_map k" "?k1\<lparr>pk_num_filtered := pk_num_filtered ?k1 - 1\<rparr>" x ?p1] ks(3) x inn
      show ?thesis by (simp add: picker_simps)
    next
      case have_it
      then have "unwanted ?p1 = unwanted ?p" using h by (simp add: unwanted_def)
      with same have "cursors_ok ((pk_map k)[x := ?p1]) (pk_cursor k) (pk_reverse_cursor k)" by blast
      with have_it show ?thesis by (auto simp: picker_simps)
    next
      case other
      then have "unwanted ?p1 = unwanted ?p" using h by (simp add: unwanted_def filtered_def)
      with same other show ?thesis by (simp add: picker_simps)
    qed
  qed
  have co: "counters_ok ?k2"
    using ks(4) x False h by (auto simp: counters_ok_def picker_simps count_update filtered_def)
  have m: "new_prio mod 8 = new_prio" using n by simp
  obtain k' where k': "(if (prio_of k x = priority (pk_seeds k) ?p1) \<or> pk_dirty ?k2 then Some ?k2
      else resort random x (prio_of k x) ?k2) = Some k'" "picker_ok k'" "reindexed ?k2 k'"
    using settle_ok [OF k ch _ cu co refl refl, of random] by auto
  have p1: "piece_priorities k' = map piece_prio (pk_map ?k2)"
  proof -
    have "list_all2 same_piece (pk_map ?k2) (pk_map k')" using k'(3) by (simp add: reindexed_def)
    then have "map piece_prio (pk_map ?k2) = map piece_prio (pk_map k')"
      by (induction rule: list_all2_induct) (auto simp: same_piece_def dest: arg_cong [of _ _ piece_prio])
    then show ?thesis by (simp add: piece_priorities_def)
  qed
  have p2: "map piece_prio (pk_map ?k2) = (piece_priorities k)[x := new_prio]"
    using ch by (simp add: piece_changed_def piece_priorities_def map_update)
  have r: "set_piece_priority random x new_prio k = Some (new_prio = 0 \<or> piece_prio ?p = 0, k')"
  proof -
    have "set_piece_priority random x new_prio k =
      (if prio_of k x = priority (pk_seeds k) ?p1 \<or> pk_dirty ?k2 then Some (new_prio = 0 \<or> piece_prio ?p = 0, ?k2)
       else map_option (Pair (new_prio = 0 \<or> piece_prio ?p = 0)) (resort random x (prio_of k x) ?k2))"
      using x False by (simp only: set_piece_priority_def m vec_at_Some bind.bind_lunit Let_def if_False refl)
    with k'(1) show ?thesis by (auto split: if_splits)
  qed
  have "keeps k ?k2"
  proof -
    have "keeps_piece ?p ?p1" using h n by (simp add: keeps_piece_def)
    then have "keeps k ?k1" by (rule keeps_set)
    then show ?thesis by (rule keeps_counters)
  qed
  from keeps_reindexed [OF this k'(3)] have ke: "keeps k k'" .
  show ?thesis by (intro exI conjI, rule r, rule k'(2), rule ke, rule trans [OF p1 p2]) (use False in simp)
qed

theorem we_dont_have_ok:
  assumes k: "picker_ok k" and x: "x < length (pk_map k)"
  shows "\<exists>k'. we_dont_have random x k = Some k' \<and> picker_ok k' \<and> keeps k k' \<and> \<not> pp_have (pk_map k' ! x)"
proof (cases "pp_have (pk_map k ! x)")
  case False
  with k x show ?thesis by (simp add: we_dont_have_def)
next
  case True
  let ?p = "pk_map k ! x"
  let ?p1 = "?p\<lparr>pos_index := 0\<rparr>"
  let ?k1 = "if filtered ?p then k\<lparr>pk_num_filtered := pk_num_filtered k + 1,
      pk_num_have_filtered := pk_num_have_filtered k - 1\<rparr> else cursors_in x k"
  let ?k2 = "set_piece x ?p1 (?k1\<lparr>pk_num_have := pk_num_have ?k1 - 1\<rparr>)"
  note ks = picker_ok_simps [OF k]
  have h: "\<not> pp_have ?p1" "filtered ?p1 = filtered ?p" by (simp_all add: pp_have_def we_have_index_def filtered_def)
  have ch: "piece_changed x ?p1 k ?k2" using x by (auto simp: piece_changed_def picker_simps)
  have cu: "cursors_ok (pk_map ?k2) (pk_cursor ?k2) (pk_reverse_cursor ?k2)"
  proof (cases "filtered ?p")
    case f: True
    have "unwanted ((pk_map k)[x := ?p1] ! i) = unwanted (pk_map k ! i)" for i
      using True f h x by (cases "i = x") (simp_all add: unwanted_def)
    with ks(3) f show ?thesis by (simp add: cursors_ok_def picker_simps)
  next
    case f: False
    then have "\<not> unwanted ?p1" using h by (simp add: unwanted_def)
    with cursors_in_ok [OF ks(3) x, of ?p1] f show ?thesis by (simp add: picker_simps)
  qed
  have co: "counters_ok ?k2"
    using ks(4) x True h by (auto simp: counters_ok_def picker_simps count_update)
  have "keeps_piece ?p ?p1" using h by (simp add: keeps_piece_def)
  then have "keeps k (set_piece x ?p1 k)" by (rule keeps_set)
  then have ke: "keeps k ?k2" by (simp add: keeps_def set_piece_def cursors_in_def Let_def)
  have none: "prio_of k x = None" using True by (simp add: priority_def)
  have hx: "\<not> pp_have (pk_map ?k2 ! x)" using ch h x by (simp add: piece_changed_def)
  have e: "we_dont_have random x k = (if pk_dirty ?k2 then Some ?k2
      else if priority (pk_seeds ?k2) ?p1 \<noteq> None then pk_add random x ?k2 else Some ?k2)"
    using x True by (simp only: we_dont_have_def vec_at_Some bind.bind_lunit Let_def if_False refl not_True_eq_False)
  show ?thesis
  proof (cases "pk_dirty ?k2")
    case True
    with e cu co ks(2,5) ch changed_named [OF ch] hx ke show ?thesis by (simp add: picker_ok_def piece_changed_def)
  next
    case d: False
    then have b: "buckets_ok k" using ks(1) ch by (simp add: piece_changed_def)
    have se: "pk_seeds ?k2 = pk_seeds k" using ch by (simp add: piece_changed_def)
    show ?thesis
    proof (cases "priority (pk_seeds k) ?p1")
      case None
      from none_changed [OF b ch none None] cu co ks(2,5) ch changed_named [OF ch] d have "picker_ok ?k2"
        by (simp add: picker_ok_def piece_changed_def)
      with e d None se hx ke show ?thesis by simp
    next
      case (Some q)
      from add_changed [OF b ch none Some, of random] obtain k' where
        k': "pk_add random x ?k2 = Some k'" "buckets_ok k'" "reindexed ?k2 k'" by blast
      have "x < length (pk_map ?k2)" using ch by (simp add: piece_changed_def)
      from reindexed_simps(4) [OF k'(3) this] hx have "\<not> pp_have (pk_map k' ! x)"
        by (auto dest: same_piece_unwanted)
      with k' e d Some se picker_ok_reindexed [OF k'(3,2) co cu] keeps_reindexed [OF ke k'(3)]
      show ?thesis by simp
    qed
  qed
qed

subsection \<open>Start\<close>

theorem picker_ctor_ok: "picker_ok picker_ctor"
  by (simp add: picker_ok_def named_def picker_ctor_def buckets_ok_def filed_def bounds_ok_def cursors_ok_def
      counters_ok_def tally_def we_have_index_def)

theorem pk_init_ok:
  assumes "n < we_have_index" "length (pk_map k) \<le> n" "counters_ok k" "named k"
  shows "picker_ok (pk_init blocks blocks_in_last n k)"
proof -
  let ?ps = "map (\<lambda>p. p\<lparr>peer_count := 0, downloading := False, pos_index := 0\<rparr>)
      (take n (pk_map k) @ replicate (n - length (pk_map k)) fresh_piece)"
  have l: "length ?ps = n" using assms(2) by simp
  have cu: "cursors_ok ?ps (skip_up ?ps 0) (skip_down ?ps n)"
    using skip_up_ok [of 0 ?ps] skip_down_ok [of n ?ps] l by (simp add: cursors_ok_def)
  have h: "\<not> pp_have (p\<lparr>peer_count := 0, downloading := False, pos_index := 0\<rparr>)" for p :: piece_pos
    by (simp add: pp_have_def we_have_index_def)
  have f: "filtered (p\<lparr>peer_count := 0, downloading := False, pos_index := 0\<rparr>) = filtered p" for p :: piece_pos
    by (simp add: filtered_def)
  have ff: "\<not> filtered fresh_piece" by (simp add: filtered_def fresh_piece_def)
  have "length (filter filtered xs) =
      length (filter (\<lambda>p. filtered p \<and> \<not> pp_have p) xs) + length (filter (\<lambda>p. filtered p \<and> pp_have p) xs)" for xs
    by (induction xs) auto
  then have "tally filtered (pk_map k) = pk_num_filtered k + pk_num_have_filtered k"
    using assms(3) by (simp add: counters_ok_def tally_def)
  then have "counters_ok (pk_init blocks blocks_in_last n k)"
    using assms(2) ff by (simp add: counters_ok_def pk_init_def Let_def tally_def filter_map comp_def h f)
  moreover have "named (pk_init blocks blocks_in_last n k)"
    using assms(2,4) l by (fastforce simp: named_def pk_init_def Let_def)
  ultimately show ?thesis using cu l assms(1) by (simp add: picker_ok_def pk_init_def Let_def)
qed

end
