(* ===== verification/PickerBlocks.thy ===== *)
theory PickerBlocks
  imports PickerInv "HOL-Library.Multiset"
begin

section \<open>libtorrent/src/piece_picker.cpp: the blocks of downloading pieces\<close>

text \<open>
  A piece that is being downloaded has an entry in \<^verbatim>\<open>m_downloads\<close>, sorted by piece, with a range of
  \<^verbatim>\<open>m_block_info\<close> that holds the state of its blocks. Ranges are recycled: the entry that holds the last one
  moves into the range of an entry that is erased. \<open>view\<close> is the list of entries with their blocks, which
  the operations treat as a map. A block goes from none to requested, writing and finished.
\<close>

definition update_full :: "nat \<Rightarrow> picker \<Rightarrow> picker option" where
  "update_full i k = do {
     d \<leftarrow> vec_at (pk_downloads k) i;
     p \<leftarrow> vec_at (pk_map k) (dp_index d);
     Some (set_piece (dp_index d)
       (p\<lparr>full := (dp_requested d + dp_finished d + dp_writing d = int (blocks_in_piece (dp_index d) k))\<rparr>) k)
   }"

definition block_at :: "nat \<Rightarrow> nat \<Rightarrow> picker \<Rightarrow> block_info option" where
  "block_at i j k = do { d \<leftarrow> vec_at (pk_downloads k) i; vec_at (pk_block_info k) (dp_info d + j) }"

definition set_block :: "nat \<Rightarrow> nat \<Rightarrow> block_info \<Rightarrow> picker \<Rightarrow> picker" where
  "set_block i j b k = k\<lparr>pk_block_info := (pk_block_info k)[dp_info (pk_downloads k ! i) + j := b]\<rparr>"

definition set_dl :: "nat \<Rightarrow> downloading_piece \<Rightarrow> picker \<Rightarrow> picker" where
  "set_dl i d k = k\<lparr>pk_downloads := (pk_downloads k)[i := d]\<rparr>"

text \<open>The first block of a piece: it moves to the bucket of downloading pieces and gets its entry.\<close>

definition start_download :: "nat \<Rightarrow> nat \<Rightarrow> picker \<Rightarrow> (nat \<times> picker) option" where
  "start_download random x k = do {
     p \<leftarrow> vec_at (pk_map k) x;
     let prio = priority (pk_seeds k) p;
     let k1 = set_piece x (p\<lparr>downloading := True\<rparr>) k;
     k2 \<leftarrow> (case prio of
             None \<Rightarrow> Some k1
           | Some q \<Rightarrow> if pk_dirty k1 then Some k1 else pk_update random q (pos_index p) k1);
     Some (add_download_piece x k2)
   }"

definition mark_as_downloading ::
    "nat \<Rightarrow> nat \<Rightarrow> nat \<Rightarrow> nat option \<Rightarrow> piece_state \<Rightarrow> picker \<Rightarrow> (bool \<times> picker) option" where
  "mark_as_downloading random x j peer st k = do {
     p \<leftarrow> vec_at (pk_map k) x;
     if \<not> downloading p then do {
       (i, k1) \<leftarrow> start_download random x k;
       d \<leftarrow> vec_at (pk_downloads k1) i;
       b \<leftarrow> block_at i j k1;
       let k2 = set_block i j (b\<lparr>bi_state := StateRequested, bi_peer := peer, bi_num_peers := 1\<rparr>) k1;
       let k3 = set_dl i (d\<lparr>dp_state := st, dp_requested := dp_requested d + 1\<rparr>) k2;
       map_option (Pair True) (update_full i k3)
     } else do {
       i \<leftarrow> find_dl_piece x k;
       d \<leftarrow> vec_at (pk_downloads k) i;
       b \<leftarrow> block_at i j k;
       if bi_state b = StateWriting \<or> bi_state b = StateFinished then Some (False, k)
       else do {
         let b1 = b\<lparr>bi_peer := peer, bi_state := StateRequested, bi_num_peers := (bi_num_peers b + 1) mod 16384\<rparr>;
         let k1 = set_block i j b1 k;
         k2 \<leftarrow> (if bi_state b \<noteq> StateRequested
               then update_full i (set_dl i (d\<lparr>dp_requested := dp_requested d + 1\<rparr>) k1) else Some k1);
         d2 \<leftarrow> vec_at (pk_downloads k2) i;
         Some (True, if dp_state d2 = NoSpeed then set_dl i (d2\<lparr>dp_state := st\<rparr>) k2 else k2)
       }
     }
   }"

definition mark_as_writing :: "nat \<Rightarrow> nat \<Rightarrow> nat \<Rightarrow> nat option \<Rightarrow> picker \<Rightarrow> (bool \<times> picker) option" where
  "mark_as_writing random x j peer k = do {
     p \<leftarrow> vec_at (pk_map k) x;
     if \<not> downloading p then
       (if pp_have p then Some (False, k)
        else do {
          (i, k1) \<leftarrow> start_download random x k;
          d \<leftarrow> vec_at (pk_downloads k1) i;
          b \<leftarrow> block_at i j k1;
          let k2 = set_block i j (b\<lparr>bi_state := StateWriting, bi_peer := peer, bi_num_peers := 0\<rparr>) k1;
          let k3 = set_dl i (d\<lparr>dp_state := NoSpeed, dp_writing := 1\<rparr>) k2;
          map_option (Pair True) (update_full i k3)
        })
     else do {
       i \<leftarrow> find_dl_piece x k;
       d \<leftarrow> vec_at (pk_downloads k) i;
       b \<leftarrow> block_at i j k;
       let d1 = (if bi_state b = StateRequested then d\<lparr>dp_requested := dp_requested d - 1\<rparr> else d);
       if bi_state b = StateWriting \<or> bi_state b = StateFinished
       then Some (False, set_block i j (b\<lparr>bi_peer := peer\<rparr>) k)
       else do {
         let d2 = d1\<lparr>dp_writing := dp_writing d1 + 1\<rparr>;
         let d3 = (if dp_requested d2 = 0 then d2\<lparr>dp_state := NoSpeed\<rparr> else d2);
         Some (True, set_dl i d3 (set_block i j (b\<lparr>bi_peer := peer, bi_state := StateWriting, bi_num_peers := 0\<rparr>) k))
       }
     }
   }"

definition mark_as_finished :: "nat \<Rightarrow> nat \<Rightarrow> nat \<Rightarrow> nat option \<Rightarrow> picker \<Rightarrow> picker option" where
  "mark_as_finished random x j peer k = do {
     p \<leftarrow> vec_at (pk_map k) x;
     if \<not> downloading p then
       (if pp_have p then Some k
        else do {
          (i, k1) \<leftarrow> start_download random x k;
          d \<leftarrow> vec_at (pk_downloads k1) i;
          b \<leftarrow> block_at i j k1;
          let k2 = set_block i j (b\<lparr>bi_peer := peer, bi_state := StateFinished\<rparr>) k1;
          Some (set_dl i (d\<lparr>dp_state := NoSpeed,
            dp_finished := dp_finished d + (if bi_state b \<noteq> StateFinished then 1 else 0)\<rparr>) k2)
        })
     else do {
       i \<leftarrow> find_dl_piece x k;
       d \<leftarrow> vec_at (pk_downloads k) i;
       b \<leftarrow> block_at i j k;
       if bi_state b = StateFinished then Some k
       else
         Some (set_dl i (d\<lparr>dp_finished := dp_finished d + 1,
                         dp_writing := dp_writing d - (if bi_state b = StateWriting then 1 else 0)\<rparr>)
           (set_block i j (b\<lparr>bi_peer := (if bi_state b \<noteq> StateWriting \<or> peer \<noteq> None then peer else bi_peer b),
                          bi_state := StateFinished\<rparr>) k))
     }
   }"

text \<open>An entry without blocks goes, and the piece returns to its bucket.\<close>

definition drop_empty :: "nat \<Rightarrow> nat \<Rightarrow> nat \<Rightarrow> picker \<Rightarrow> picker option" where
  "drop_empty random x i k = do {
     p \<leftarrow> vec_at (pk_map k) x;
     let prev = priority (pk_seeds k) p;
     k1 \<leftarrow> erase_download_piece i k;
     p1 \<leftarrow> vec_at (pk_map k1) x;
     if pk_dirty k1 \<or> priority (pk_seeds k1) p1 = prev then Some k1 else resort random x prev k1
   }"

definition write_failed :: "nat \<Rightarrow> nat \<Rightarrow> nat \<Rightarrow> picker \<Rightarrow> picker option" where
  "write_failed random x j k =
     (case find_dl_piece x k of
        None \<Rightarrow> Some k
      | Some i \<Rightarrow> do {
          d \<leftarrow> vec_at (pk_downloads k) i;
          b \<leftarrow> block_at i j k;
          if bi_state b = StateFinished then Some k
          else do {
            let d1 = (if bi_state b = StateWriting then d\<lparr>dp_writing := dp_writing d - 1\<rparr> else d);
            k1 \<leftarrow> update_full i (set_dl i d1 (set_block i j (b\<lparr>bi_peer := None, bi_state := StateNone\<rparr>) k));
            if dp_finished d1 + dp_writing d1 + dp_requested d1 = 0 then drop_empty random x i k1 else Some k1
          }
        })"

text \<open>
  In \<^verbatim>\<open>abort_download\<close> a piece that has a priority before and after is moved by \<^verbatim>\<open>update\<close>, which does nothing
  when it is the same; \<open>drop_empty\<close> is that too.
\<close>

definition abort_download :: "nat \<Rightarrow> nat \<Rightarrow> nat \<Rightarrow> nat option \<Rightarrow> picker \<Rightarrow> picker option" where
  "abort_download random x j peer k = do {
     p \<leftarrow> vec_at (pk_map k) x;
     if \<not> downloading p then Some k
     else do {
       i \<leftarrow> find_dl_piece x k;
       d \<leftarrow> vec_at (pk_downloads k) i;
       b \<leftarrow> block_at i j k;
       if bi_state b \<noteq> StateRequested then Some k
       else do {
         let b1 = b\<lparr>bi_num_peers := bi_num_peers b - 1, bi_peer := (if bi_peer b = peer then None else bi_peer b)\<rparr>;
         if 0 < bi_num_peers b1 then Some (set_block i j b1 k)
         else do {
           let d1 = d\<lparr>dp_requested := dp_requested d - 1\<rparr>;
           k1 \<leftarrow> update_full i (set_dl i d1 (set_block i j (b1\<lparr>bi_peer := None, bi_state := StateNone\<rparr>) k));
           if dp_requested d1 + dp_finished d1 + dp_writing d1 = 0 then drop_empty random x i k1
           else Some (if dp_requested d1 = 0 then set_dl i (d1\<lparr>dp_state := NoSpeed\<rparr>) k1 else k1)
         }
       }
     }
   }"

subsection \<open>Queries\<close>

definition block_query :: "(block_state \<Rightarrow> bool) \<Rightarrow> bool \<Rightarrow> nat \<Rightarrow> nat \<Rightarrow> picker \<Rightarrow> bool option" where
  "block_query f if_have x j k = do {
     p \<leftarrow> vec_at (pk_map k) x;
     if if_have \<and> pp_have p then Some True
     else if \<not> downloading p then Some False
     else do { i \<leftarrow> find_dl_piece x k; b \<leftarrow> block_at i j k; Some (f (bi_state b)) }
   }"

definition is_requested :: "nat \<Rightarrow> nat \<Rightarrow> picker \<Rightarrow> bool option" where
  "is_requested = block_query (\<lambda>s. s = StateRequested) False"

definition is_downloaded :: "nat \<Rightarrow> nat \<Rightarrow> picker \<Rightarrow> bool option" where
  "is_downloaded = block_query (\<lambda>s. s = StateFinished \<or> s = StateWriting) True"

definition is_finished :: "nat \<Rightarrow> nat \<Rightarrow> picker \<Rightarrow> bool option" where
  "is_finished = block_query (\<lambda>s. s = StateFinished) True"

definition is_piece_finished :: "nat \<Rightarrow> picker \<Rightarrow> bool option" where
  "is_piece_finished x k = do {
     p \<leftarrow> vec_at (pk_map k) x;
     if \<not> downloading p then Some False
     else do {
       i \<leftarrow> find_dl_piece x k;
       d \<leftarrow> vec_at (pk_downloads k) i;
       Some (\<not> dp_finished d + dp_writing d < int (blocks_in_piece x k))
     }
   }"

definition num_peers :: "nat \<Rightarrow> nat \<Rightarrow> picker \<Rightarrow> nat option" where
  "num_peers x j k = do {
     p \<leftarrow> vec_at (pk_map k) x;
     if \<not> downloading p then Some 0
     else do { i \<leftarrow> find_dl_piece x k; b \<leftarrow> block_at i j k; Some (bi_num_peers b) }
   }"

definition get_downloaders :: "nat \<Rightarrow> picker \<Rightarrow> nat option list option" where
  "get_downloaders x k = do {
     i \<leftarrow> find_dl_piece x k;
     d \<leftarrow> vec_at (pk_downloads k) i;
     if length (pk_block_info k) < dp_info d + blocks_in_piece x k then None
     else Some (map bi_peer (take (blocks_in_piece x k) (drop (dp_info d) (pk_block_info k))))
   }"

definition get_downloader :: "nat \<Rightarrow> nat \<Rightarrow> picker \<Rightarrow> nat option" where
  "get_downloader x j k =
     (case find_dl_piece x k of
        None \<Rightarrow> None
      | Some i \<Rightarrow>
          (case block_at i j k of
             None \<Rightarrow> None
           | Some b \<Rightarrow> if bi_state b = StateNone then None else bi_peer b))"

text \<open>\<^verbatim>\<open>piece_info\<close> writes to the structure of its caller, all but the speed when no entry is there.\<close>

definition piece_info :: "nat \<Rightarrow> downloading_piece \<Rightarrow> picker \<Rightarrow> downloading_piece option" where
  "piece_info x st k = do {
     p \<leftarrow> vec_at (pk_map k) x;
     if downloading p then do { i \<leftarrow> find_dl_piece x k; vec_at (pk_downloads k) i }
     else Some (st\<lparr>dp_info := 0, dp_index := x, dp_writing := 0, dp_requested := 0,
                  dp_finished := (if pp_have p then int (blocks_in_piece x k) else 0)\<rparr>)
   }"

definition clear_peer :: "nat \<Rightarrow> picker \<Rightarrow> picker" where
  "clear_peer peer k =
     k\<lparr>pk_block_info := map (\<lambda>b. if bi_peer b = Some peer then b\<lparr>bi_peer := None\<rparr> else b) (pk_block_info k)\<rparr>"

definition unverified_blocks :: "picker \<Rightarrow> int" where
  "unverified_blocks k = sum_list (map dp_finished (pk_downloads k))"

subsection \<open>The blocks as a map\<close>

definition blocks_of :: "picker \<Rightarrow> downloading_piece \<Rightarrow> block_info list" where
  "blocks_of k d = take (pk_blocks_per_piece k) (drop (dp_info d) (pk_block_info k))"

definition view :: "picker \<Rightarrow> (downloading_piece \<times> block_info list) list" where
  "view k = map (\<lambda>d. (d\<lparr>dp_info := 0\<rparr>, blocks_of k d)) (pk_downloads k)"

definition storage_ok :: "picker \<Rightarrow> bool" where
  "storage_ok k \<longleftrightarrow>
     0 < pk_blocks_per_piece k \<and> distinct (map dp_info (pk_downloads k)) \<and>
     (\<forall>d \<in> set (pk_downloads k). \<exists>m < length (pk_downloads k). dp_info d = m * pk_blocks_per_piece k) \<and>
     length (pk_downloads k) * pk_blocks_per_piece k \<le> length (pk_block_info k)"

lemma storageD:
  assumes "storage_ok k" "i < length (pk_downloads k)"
  obtains m where "m < length (pk_downloads k)" "dp_info (pk_downloads k ! i) = m * pk_blocks_per_piece k"
    "dp_info (pk_downloads k ! i) + pk_blocks_per_piece k \<le> length (pk_downloads k) * pk_blocks_per_piece k"
    "dp_info (pk_downloads k ! i) + pk_blocks_per_piece k \<le> length (pk_block_info k)"
proof -
  obtain m where m: "m < length (pk_downloads k)" "dp_info (pk_downloads k ! i) = m * pk_blocks_per_piece k"
    using assms nth_mem [OF assms(2)] unfolding storage_ok_def by blast
  then have "Suc m * pk_blocks_per_piece k \<le> length (pk_downloads k) * pk_blocks_per_piece k"
    by (intro mult_le_mono1) simp
  then have l: "dp_info (pk_downloads k ! i) + pk_blocks_per_piece k \<le> length (pk_downloads k) * pk_blocks_per_piece k"
    using m(2) by simp
  moreover from this have "dp_info (pk_downloads k ! i) + pk_blocks_per_piece k \<le> length (pk_block_info k)"
    using assms(1) by (simp add: storage_ok_def)
  ultimately show thesis using that m by blast
qed

lemma multiples_disjoint:
  "a * n \<le> p \<Longrightarrow> p < a * n + n \<Longrightarrow> b * n \<le> p \<Longrightarrow> p < b * n + n \<Longrightarrow> a = (b :: nat)"
  by (metis add.commute less_Suc_eq_le mult_Suc mult_le_cancel2 nat_less_le not_less order_le_less_trans le_less_linear le_antisym)

lemma ranges_disjoint:
  assumes "storage_ok k" "i < length (pk_downloads k)" "l < length (pk_downloads k)" "i \<noteq> l"
    "dp_info (pk_downloads k ! i) \<le> p" "p < dp_info (pk_downloads k ! i) + pk_blocks_per_piece k"
  shows "\<not> (dp_info (pk_downloads k ! l) \<le> p \<and> p < dp_info (pk_downloads k ! l) + pk_blocks_per_piece k)"
proof
  assume l: "dp_info (pk_downloads k ! l) \<le> p \<and> p < dp_info (pk_downloads k ! l) + pk_blocks_per_piece k"
  obtain a where a: "dp_info (pk_downloads k ! i) = a * pk_blocks_per_piece k" by (rule storageD [OF assms(1,2)])
  obtain b where b: "dp_info (pk_downloads k ! l) = b * pk_blocks_per_piece k" by (rule storageD [OF assms(1,3)])
  have "a = b" using multiples_disjoint [of a "pk_blocks_per_piece k" p b] assms(5,6) l a b by simp
  then have "map dp_info (pk_downloads k) ! i = map dp_info (pk_downloads k) ! l" using a b assms(2,3) by simp
  moreover have "distinct (map dp_info (pk_downloads k))" using assms(1) by (simp add: storage_ok_def)
  ultimately show False using assms(2-4) nth_eq_iff_index_eq [of "map dp_info (pk_downloads k)" i l] by simp
qed

lemma take_drop_update:
  "take n (drop a (xs[p := b])) =
     (if a \<le> p \<and> p < a + n then (take n (drop a xs))[p - a := b] else take n (drop a xs))"
proof (cases "a \<le> p")
  case True
  then have "take n (drop a (xs[p := b])) = (take n (drop a xs))[p - a := b]"
    by (simp add: drop_update_swap take_update_swap)
  moreover have "\<not> p < a + n \<Longrightarrow> (take n (drop a xs))[p - a := b] = take n (drop a xs)"
    by (rule list_update_beyond) simp
  ultimately show ?thesis using True by auto
qed (simp add: drop_update_cancel)

lemma view_length [simp]: "length (view k) = length (pk_downloads k)"
  by (simp add: view_def)

lemma view_nth: "i < length (pk_downloads k) \<Longrightarrow>
    view k ! i = ((pk_downloads k ! i)\<lparr>dp_info := 0\<rparr>, blocks_of k (pk_downloads k ! i))"
  by (simp add: view_def)

lemma blocks_length:
  "storage_ok k \<Longrightarrow> i < length (pk_downloads k) \<Longrightarrow> length (blocks_of k (pk_downloads k ! i)) = pk_blocks_per_piece k"
  using storageD [of k i thesis for thesis] by (force simp: blocks_of_def)

lemma block_at_view:
  assumes "storage_ok k" "i < length (pk_downloads k)" "j < pk_blocks_per_piece k"
  shows "block_at i j k = Some (snd (view k ! i) ! j)"
proof -
  have "dp_info (pk_downloads k ! i) + pk_blocks_per_piece k \<le> length (pk_block_info k)"
    by (rule storageD [OF assms(1,2)])
  with assms(2,3) show ?thesis by (simp add: block_at_def view_nth blocks_of_def)
qed

lemma set_block_view:
  assumes "storage_ok k" "i < length (pk_downloads k)" "j < pk_blocks_per_piece k"
  shows "view (set_block i j b k) = (view k)[i := (fst (view k ! i), (snd (view k ! i))[j := b])]"
    "storage_ok (set_block i j b k)"
proof -
  have "blocks_of (set_block i j b k) (pk_downloads k ! l) =
      (if l = i then (blocks_of k (pk_downloads k ! i))[j := b] else blocks_of k (pk_downloads k ! l))"
    if "l < length (pk_downloads k)" for l
    using ranges_disjoint [OF assms(1,2) that, of "dp_info (pk_downloads k ! i) + j"] assms(3)
    by (auto simp: blocks_of_def set_block_def take_drop_update)
  then show "view (set_block i j b k) = (view k)[i := (fst (view k ! i), (snd (view k ! i))[j := b])]"
    using assms(2) by (intro nth_equalityI) (auto simp: view_def nth_list_update set_block_def)
  show "storage_ok (set_block i j b k)" using assms(1) by (simp add: storage_ok_def set_block_def)
qed

lemma set_dl_view:
  assumes "storage_ok k" "i < length (pk_downloads k)" "dp_info d = dp_info (pk_downloads k ! i)"
  shows "view (set_dl i d k) = (view k)[i := (d\<lparr>dp_info := 0\<rparr>, snd (view k ! i))]"
    "storage_ok (set_dl i d k)"
proof -
  have m: "map dp_info ((pk_downloads k)[i := d]) = map dp_info (pk_downloads k)"
    using assms(2,3) by (metis list_update_id map_update nth_map)
  have "\<exists>m < length (pk_downloads k). dp_info d = m * pk_blocks_per_piece k"
    using assms by (auto simp: storage_ok_def)
  then show "storage_ok (set_dl i d k)"
    using assms(1) m by (auto simp: storage_ok_def set_dl_def dest!: set_update_subset_insert [THEN subsetD])
  show "view (set_dl i d k) = (view k)[i := (d\<lparr>dp_info := 0\<rparr>, snd (view k ! i))]"
    using assms(2,3) by (intro nth_equalityI) (auto simp: view_def nth_list_update set_dl_def blocks_of_def)
qed

lemma memcpy_here: "p + length xs \<le> length b \<Longrightarrow> take (length xs) (drop p (memcpy_at b p xs)) = xs"
  by (simp add: memcpy_at_def)

lemma memcpy_elsewhere:
  assumes "p + length xs \<le> length b" "a + n \<le> p \<or> p + length xs \<le> a"
  shows "take n (drop a (memcpy_at b p xs)) = take n (drop a b)"
  using assms(2)
proof
  assume a: "a + n \<le> p"
  with assms(1) have "take n (drop a (take p b)) = take n (drop a b)" by (simp add: drop_take min_def)
  with a assms(1) show ?thesis by (simp add: memcpy_at_def)
next
  assume "p + length xs \<le> a"
  then have "drop a (memcpy_at b p xs) = drop (a - (p + length xs)) (drop (p + length xs) b)"
    using assms(1) by (simp add: memcpy_at_def)
  then show ?thesis using \<open>p + length xs \<le> a\<close> by simp
qed

lemma map_insert_at: "map f (insert_at i x xs) = insert_at i (f x) (map f xs)"
  by (simp add: insert_at_def take_map drop_map)

lemma map_erase_at: "map f (erase_at i xs) = erase_at i (map f xs)"
  by (simp add: erase_at_def take_map drop_map)

lemma erase_at_cong:
  assumes "i < length xs" "length xs = length ys" "\<And>l. l < length xs \<Longrightarrow> l \<noteq> i \<Longrightarrow> xs ! l = ys ! l"
  shows "erase_at i xs = erase_at i ys"
proof -
  have "take i xs = take i ys" by (rule nth_take_lemma) (use assms in auto)
  moreover have "drop (Suc i) xs = drop (Suc i) ys"
    by (rule nth_equalityI) (use assms in auto)
  ultimately show ?thesis by (simp add: erase_at_def)
qed

lemma set_insert_at: "set (insert_at i x xs) = insert x (set xs)"
  by (metis append_take_drop_id insert_at_def list.set(2) set_append Un_insert_right)

lemma mset_insert_at: "mset (insert_at i x xs) = mset (x # xs)"
  by (metis append_take_drop_id insert_at_def mset.simps(2) mset_append union_mset_add_mset_right)

lemma distinct_insert_at: "distinct (insert_at i x xs) \<longleftrightarrow> x \<notin> set xs \<and> distinct xs"
  using mset_eq_imp_distinct_iff [OF mset_insert_at] by simp

lemma length_insert_at [simp]: "i \<le> length xs \<Longrightarrow> length (insert_at i x xs) = Suc (length xs)"
  by (simp add: insert_at_def)

lemma length_erase_at [simp]: "i < length xs \<Longrightarrow> length (erase_at i xs) = length xs - 1"
  by (simp add: erase_at_def)

lemma erase_at_mset: "i < length xs \<Longrightarrow> xs = take i xs @ xs ! i # drop (Suc i) xs"
  by (simp add: id_take_nth_drop)

lemma mset_erase_at: "i < length xs \<Longrightarrow> mset (erase_at i xs) = mset xs - {#xs ! i#}"
  by (metis (no_types, lifting) add_mset_remove_trivial erase_at_def erase_at_mset mset.simps(2) mset_append union_mset_add_mset_right)

lemma distinct_erase_at:
  assumes "distinct xs" "i < length xs"
  shows "distinct (erase_at i xs)" "set (erase_at i xs) = set xs - {xs ! i}"
proof -
  have d: "distinct (take i xs @ xs ! i # drop (Suc i) xs)" using assms erase_at_mset by metis
  then show "distinct (erase_at i xs)" by (simp add: erase_at_def)
  have "set xs = set (take i xs @ xs ! i # drop (Suc i) xs)" using erase_at_mset [OF assms(2)] by metis
  then show "set (erase_at i xs) = set xs - {xs ! i}" using d by (auto simp: erase_at_def)
qed

lemma lower_bound_le: "lower_bound x ds \<le> length ds"
  by (simp add: lower_bound_def length_takeWhile_le)

lemma add_download_view:
  assumes s: "storage_ok k" and a: "add_download_piece x k = (i, k')"
  shows "view k' = insert_at i (\<lparr>dp_info = 0, dp_index = x, dp_finished = 0, dp_writing = 0, dp_requested = 0,
      dp_state = NoSpeed\<rparr>, replicate (pk_blocks_per_piece k) no_block) (view k)"
    "storage_ok k'" "i = lower_bound x (pk_downloads k)"
    "k' = k\<lparr>pk_downloads := pk_downloads k', pk_block_info := pk_block_info k'\<rparr>"
proof -
  let ?n = "pk_blocks_per_piece k" and ?ds = "pk_downloads k"
  let ?bi = "length ?ds * ?n"
  let ?blocks = "pk_block_info k @ replicate (?bi + ?n - length (pk_block_info k)) no_block"
  let ?ret = "\<lparr>dp_info = ?bi, dp_index = x, dp_finished = 0, dp_writing = 0, dp_requested = 0, dp_state = NoSpeed\<rparr>"
  let ?B = "memcpy_at ?blocks ?bi (replicate ?n no_block)"
  have e: "i = lower_bound x ?ds" "k' = k\<lparr>pk_block_info := ?B, pk_downloads := insert_at i ?ret ?ds\<rparr>"
    using a by (auto simp: add_download_piece_def Let_def)
  then show "i = lower_bound x ?ds" "k' = k\<lparr>pk_downloads := pk_downloads k', pk_block_info := pk_block_info k'\<rparr>"
    by simp_all
  have il: "i \<le> length ?ds" using e(1) lower_bound_le by simp
  have bl: "?bi \<le> length (pk_block_info k)" using s by (simp add: storage_ok_def)
  have lB: "length ?B = max (length (pk_block_info k)) (?bi + ?n)" by (simp add: memcpy_at_def)
  have old: "take ?n (drop (dp_info d) ?B) = blocks_of k d \<and> dp_info d < ?bi" if d: "d \<in> set ?ds" for d
  proof -
    obtain l where l: "l < length ?ds" "d = ?ds ! l" using d by (metis in_set_conv_nth)
    have le: "dp_info d + ?n \<le> ?bi" "dp_info d + ?n \<le> length (pk_block_info k)"
      unfolding l(2) using storageD [OF s l(1), of "dp_info (?ds ! l) + ?n \<le> ?bi"]
        storageD [OF s l(1), of "dp_info (?ds ! l) + ?n \<le> length (pk_block_info k)"] by blast+
    have "take ?n (drop (dp_info d) ?B) = take ?n (drop (dp_info d) ?blocks)"
      by (rule memcpy_elsewhere) (use le in auto)
    moreover have "0 < ?n" using s by (simp add: storage_ok_def)
    ultimately show ?thesis using le by (simp add: blocks_of_def)
  qed
  have new: "take ?n (drop ?bi ?B) = replicate ?n no_block"
    using memcpy_here [of ?bi "replicate ?n no_block" ?blocks] by simp
  show "view k' = insert_at i (\<lparr>dp_info = 0, dp_index = x, dp_finished = 0, dp_writing = 0, dp_requested = 0,
      dp_state = NoSpeed\<rparr>, replicate ?n no_block) (view k)"
    unfolding view_def e(2)
    using old new by (simp add: map_insert_at blocks_of_def cong: map_cong)
  have info: "\<exists>m < Suc (length ?ds). dp_info d = m * ?n" if "d \<in> set ?ds" for d
    using s that unfolding storage_ok_def by (meson less_SucI)
  then show "storage_ok k'"
    unfolding storage_ok_def e(2) using s old il lB
    by (fastforce simp: map_insert_at distinct_insert_at set_insert_at storage_ok_def)
qed

lemma storage_all:
  assumes "storage_ok k" "m < length (pk_downloads k)"
  shows "\<exists>l < length (pk_downloads k). dp_info (pk_downloads k ! l) = m * pk_blocks_per_piece k"
proof -
  let ?n = "pk_blocks_per_piece k" and ?ds = "pk_downloads k"
  have n: "0 < ?n" and d: "distinct (map dp_info ?ds)" using assms(1) by (simp_all add: storage_ok_def)
  have sub: "set (map dp_info ?ds) \<subseteq> (\<lambda>m. m * ?n) ` {..<length ?ds}" using assms(1) by (auto simp: storage_ok_def)
  have "card ((\<lambda>m. m * ?n) ` {..<length ?ds}) = length ?ds" using n by (subst card_image) (auto simp: inj_on_def)
  moreover have "card (set (map dp_info ?ds)) = length ?ds" using distinct_card [OF d] by simp
  ultimately have "set (map dp_info ?ds) = (\<lambda>m. m * ?n) ` {..<length ?ds}" using sub by (intro card_subset_eq) auto
  then have "m * ?n \<in> set (map dp_info ?ds)" using assms(2) by blast
  then show ?thesis by (auto simp: in_set_conv_nth)
qed

lemma first_info:
  assumes "l < length ds" "dp_info (ds ! l) = e"
  defines "f \<equiv> length (takeWhile (\<lambda>d. dp_info d \<noteq> e) ds)"
  shows "f < length ds \<and> dp_info (ds ! f) = e"
proof -
  have "f < length ds"
    using assms(1,2) length_takeWhile_le [of "\<lambda>d. dp_info d \<noteq> e" ds]
    by (metis (mono_tags, lifting) f_def le_neq_implies_less nth_mem takeWhile_eq_all_conv takeWhile_eq_take take_all order_refl)
  then show ?thesis using nth_length_takeWhile [of "\<lambda>d. dp_info d \<noteq> e" ds] by (simp add: f_def)
qed

lemma erase_download_view:
  assumes s: "storage_ok k" and i: "i < length (pk_downloads k)" "dp_index (pk_downloads k ! i) < length (pk_map k)"
  shows "\<exists>k'. erase_download_piece i k = Some k' \<and> view k' = erase_at i (view k) \<and> storage_ok k' \<and>
    k' = (set_piece (dp_index (pk_downloads k ! i))
           ((pk_map k ! dp_index (pk_downloads k ! i))\<lparr>downloading := False\<rparr>) k)
         \<lparr>pk_downloads := pk_downloads k', pk_block_info := pk_block_info k'\<rparr>"
proof -
  let ?n = "pk_blocks_per_piece k" and ?ds = "pk_downloads k" and ?B = "pk_block_info k"
  let ?last = "(length ?ds - 1) * ?n" and ?x = "dp_index (pk_downloads k ! i)"
  let ?o = "length (takeWhile (\<lambda>e. dp_info e \<noteq> ?last) ?ds)"
  let ?p = "(pk_map k ! ?x)\<lparr>downloading := False\<rparr>"
  have n: "0 < ?n" and d: "distinct (map dp_info ?ds)" using s by (simp_all add: storage_ok_def)
  have "length ?ds - 1 < length ?ds" using i(1) by simp
  from storage_all [OF s this] obtain l where "l < length ?ds" "dp_info (?ds ! l) = ?last" by blast
  from first_info [OF this] have o: "?o < length ?ds" "dp_info (?ds ! ?o) = ?last" by auto
  have li: "dp_info (?ds ! i) + ?n \<le> length ?B" by (rule storageD [OF s i(1)])
  have lo: "dp_info (?ds ! ?o) + ?n \<le> length ?B" by (rule storageD [OF s o(1)])
  have inj: "dp_info (?ds ! a) \<noteq> dp_info (?ds ! b)" if "a < length ?ds" "b < length ?ds" "a \<noteq> b" for a b
    using d that nth_eq_iff_index_eq [of "map dp_info ?ds" a b] by simp
  define B' where "B' = (if i \<noteq> ?o then memcpy_at ?B (dp_info (?ds ! i)) (take ?n (drop ?last ?B)) else ?B)"
  define ds1 where "ds1 = (if i \<noteq> ?o then ?ds[?o := (?ds ! ?o)\<lparr>dp_info := dp_info (?ds ! i)\<rparr>] else ?ds)"
  let ?k = "k\<lparr>pk_block_info := B', pk_downloads := erase_at i ds1, pk_map := (pk_map k)[?x := ?p]\<rparr>"
  have l1: "length ds1 = length ?ds" by (simp add: ds1_def)
  have er: "erase_download_piece i k = Some ?k"
    using i o li lo by (simp add: erase_download_piece_def Let_def B'_def ds1_def)
  have lB: "length B' = length ?B"
    using li lo o(2) by (simp add: B'_def length_memcpy_at)
  have bl: "take ?n (drop (dp_info (ds1 ! l)) B') = blocks_of k (?ds ! l)" if l: "l < length ?ds" "l \<noteq> i" for l
  proof (cases "i = ?o")
    case True
    then show ?thesis by (simp add: B'_def ds1_def blocks_of_def)
  next
    case False
    let ?xs = "take ?n (drop ?last ?B)"
    have lx: "length ?xs = ?n" using lo o(2) by simp
    show ?thesis
    proof (cases "l = ?o")
      case True
      then show ?thesis
        using memcpy_here [of "dp_info (?ds ! i)" ?xs ?B] li lx False o by (simp add: B'_def ds1_def blocks_of_def)
    next
      case lo': False
      obtain a where a: "dp_info (?ds ! l) = a * ?n" by (rule storageD [OF s l(1)])
      obtain c where c: "dp_info (?ds ! i) = c * ?n" by (rule storageD [OF s i(1)])
      have "a \<noteq> c" using inj [OF l(1) i(1) l(2)] a c by auto
      then have "a * ?n + ?n \<le> c * ?n \<or> c * ?n + ?n \<le> a * ?n"
        by (metis add.commute linorder_neqE_nat mult_Suc mult_le_mono1 Suc_leI)
      then show ?thesis
        using memcpy_elsewhere [of "dp_info (?ds ! i)" ?xs ?B "dp_info (?ds ! l)" ?n] li lx False lo' a c
        by (simp add: B'_def ds1_def blocks_of_def)
    qed
  qed
  have v: "view ?k = erase_at i (view k)"
  proof -
    have "view ?k = erase_at i (map (\<lambda>d. (d\<lparr>dp_info := 0\<rparr>, take ?n (drop (dp_info d) B'))) ds1)"
      by (simp add: view_def blocks_of_def map_erase_at)
    also have "\<dots> = erase_at i (view k)"
    proof (rule erase_at_cong)
      show "map (\<lambda>d. (d\<lparr>dp_info := 0\<rparr>, take ?n (drop (dp_info d) B'))) ds1 ! l = view k ! l"
        if "l < length (map (\<lambda>d. (d\<lparr>dp_info := 0\<rparr>, take ?n (drop (dp_info d) B'))) ds1)" "l \<noteq> i" for l
      proof -
        have "(ds1 ! l)\<lparr>dp_info := 0\<rparr> = (?ds ! l)\<lparr>dp_info := 0\<rparr>"
          using that l1 by (cases "l = ?o") (simp_all add: ds1_def)
        with bl that l1 show ?thesis by (simp add: view_nth)
      qed
    qed (use i(1) l1 in simp_all)
    finally show ?thesis .
  qed
  have infos: "distinct (map dp_info (erase_at i ds1)) \<and>
      (\<forall>e \<in> set (map dp_info (erase_at i ds1)). \<exists>m < length ?ds - 1. e = m * ?n)"
  proof -
    let ?is = "map dp_info ?ds"
    have "mset (map dp_info (erase_at i ds1)) = mset (remove1 ?last ?is)"
    proof (cases "i = ?o")
      case True
      then show ?thesis using i(1) o(2) by (simp add: ds1_def map_erase_at mset_erase_at)
    next
      case False
      then have "map dp_info ds1 = ?is[?o := dp_info (?ds ! i)]" by (simp add: ds1_def map_update)
      then show ?thesis
        using False i(1) o inj [OF i(1) o(1) False] by (simp add: map_erase_at mset_erase_at mset_update)
    qed
    moreover have "distinct (remove1 ?last ?is)" using d by simp
    moreover have "set (remove1 ?last ?is) = set ?is - {?last}" using d by (rule set_remove1_eq)
    ultimately have "distinct (map dp_info (erase_at i ds1))" "set (map dp_info (erase_at i ds1)) = set ?is - {?last}"
      by (metis mset_eq_imp_distinct_iff, metis mset_eq_setD)
    moreover have "\<exists>m < length ?ds - 1. e = m * ?n" if e: "e \<in> set ?is - {?last}" for e
    proof -
      obtain m where m: "m < length ?ds" "e = m * ?n" using e s by (auto simp: storage_ok_def)
      with e have "m \<noteq> length ?ds - 1" by auto
      with m show ?thesis by (intro exI [of _ m]) simp
    qed
    ultimately show ?thesis by simp
  qed
  have "storage_ok ?k"
    using infos n lB s i(1) l1 by (auto simp: storage_ok_def diff_mult_distrib)
  with er v show ?thesis by (auto simp: set_piece_def)
qed

end
