(* ===== verification/PickerDownloads.thy ===== *)
theory PickerDownloads
  imports PickerBlocks
begin

section \<open>The invariant of the downloading pieces\<close>

text \<open>
  \<open>downloads_ok\<close> is what \<^verbatim>\<open>piece_picker::check_invariant\<close> asserts of \<^verbatim>\<open>m_downloads\<close>: the entries are sorted,
  there is one for each piece that says it is downloading and for no other, and their counters count the
  blocks of each state. The operations on blocks keep it and the invariant \<open>picker_ok\<close> of the pieces.
\<close>

definition in_state :: "block_state \<Rightarrow> block_info list \<Rightarrow> int" where
  "in_state s = tally (\<lambda>b. bi_state b = s)"

definition entry_ok :: "nat \<Rightarrow> bool \<Rightarrow> downloading_piece \<times> block_info list \<Rightarrow> bool" where
  "entry_ok n fl e \<longleftrightarrow>
     (let d = fst e; bs = take n (snd e) in
        n \<le> length (snd e) \<and> (\<forall>b \<in> set bs. 0 < bi_num_peers b \<longleftrightarrow> bi_state b = StateRequested) \<and>
        dp_requested d = in_state StateRequested bs \<and> dp_writing d = in_state StateWriting bs \<and>
        dp_finished d = in_state StateFinished bs \<and> (dp_state d \<noteq> NoSpeed \<longleftrightarrow> dp_requested d \<noteq> 0) \<and>
        (fl \<longrightarrow> dp_finished d + dp_writing d + dp_requested d = int n) \<and>
        (\<forall>b \<in> set (drop n (snd e)). bi_state b = StateNone))"

definition entries_ok :: "picker \<Rightarrow> bool" where
  "entries_ok k \<longleftrightarrow>
     (\<forall>e \<in> set (view k). let x = dp_index (fst e) in
        x < length (pk_map k) \<and> \<not> pp_have (pk_map k ! x) \<and> entry_ok (blocks_in_piece x k) (full (pk_map k ! x)) e)"

definition downloads_ok :: "picker \<Rightarrow> bool" where
  "downloads_ok k \<longleftrightarrow>
     storage_ok k \<and> 0 < pk_blocks_in_last_piece k \<and> pk_blocks_in_last_piece k \<le> pk_blocks_per_piece k \<and>
     sorted_wrt (<) (map dp_index (pk_downloads k)) \<and> entries_ok k \<and>
     (\<forall>x < length (pk_map k). downloading (pk_map k ! x) \<longleftrightarrow> x \<in> dp_index ` set (pk_downloads k))"

subsection \<open>One block changes\<close>

lemma count_append: "tally P (xs @ ys) = tally P xs + tally P ys"
  by (simp add: tally_def)

lemma in_state_update:
  assumes "j < length bs"
  shows "in_state s (bs[j := b]) = in_state s bs + (if bi_state b = s then 1 else 0) - (if bi_state (bs ! j) = s then 1 else 0)"
  using assms by (simp add: in_state_def count_update)

lemma states_total:
  "in_state StateNone bs + in_state StateRequested bs + in_state StateWriting bs + in_state StateFinished bs = int (length bs)"
proof (induction bs)
  case (Cons b bs)
  then show ?case by (cases "bi_state b") (simp_all add: in_state_def tally_def)
qed (simp add: in_state_def tally_def)

lemma in_state_pos: "j < length bs \<Longrightarrow> 0 < in_state (bi_state (bs ! j)) bs"
  using nth_mem [of j bs] by (fastforce simp: in_state_def tally_def filter_empty_conv)

lemma in_state_nonneg: "0 \<le> in_state s bs"
  by (simp add: in_state_def tally_def)

lemma full_entry:
  assumes "entry_ok n True (d, bs)" "j < n"
  shows "bi_state (bs ! j) \<noteq> StateNone"
proof
  assume "bi_state (bs ! j) = StateNone"
  with assms have "0 < in_state StateNone (take n bs)"
    using in_state_pos [of j "take n bs"] by (simp add: entry_ok_def Let_def)
  with assms(1) states_total [of "take n bs"] show False by (simp add: entry_ok_def Let_def)
qed

lemma entry_ok_step:
  assumes e: "entry_ok n fl (d, bs)" and j: "j < n"
    and b: "0 < bi_num_peers b \<longleftrightarrow> bi_state b = StateRequested"
    and c: "dp_requested d' = dp_requested d + (if bi_state b = StateRequested then 1 else 0) -
        (if bi_state (bs ! j) = StateRequested then 1 else 0)"
      "dp_writing d' = dp_writing d + (if bi_state b = StateWriting then 1 else 0) -
        (if bi_state (bs ! j) = StateWriting then 1 else 0)"
      "dp_finished d' = dp_finished d + (if bi_state b = StateFinished then 1 else 0) -
        (if bi_state (bs ! j) = StateFinished then 1 else 0)"
    and s: "dp_state d' \<noteq> NoSpeed \<longleftrightarrow> dp_requested d' \<noteq> 0"
    and fl: "fl' \<longrightarrow> dp_finished d' + dp_writing d' + dp_requested d' = int n"
  shows "entry_ok n fl' (d', bs[j := b])"
proof -
  have l: "j < length (take n bs)" using e j by (simp add: entry_ok_def Let_def)
  have t: "take n (bs[j := b]) = (take n bs)[j := b]" by (simp add: take_update_swap)
  have nb: "take n bs ! j = bs ! j" using j by simp
  have "\<forall>c \<in> set ((take n bs)[j := b]). 0 < bi_num_peers c \<longleftrightarrow> bi_state c = StateRequested"
    using e b set_update_subset_insert [of "take n bs" j b] by (auto simp: entry_ok_def Let_def)
  moreover have dr: "drop n (bs[j := b]) = drop n bs" using j by simp
  ultimately show ?thesis
    using e s fl unfolding entry_ok_def Let_def
    by (simp only: t dr fst_conv snd_conv length_list_update in_state_update [OF l] nb c simp_thms) blast
qed

subsection \<open>One entry changes\<close>

lemma downloadsD:
  assumes "downloads_ok k"
  shows "storage_ok k" "pk_blocks_in_last_piece k \<le> pk_blocks_per_piece k"
    "sorted_wrt (<) (map dp_index (pk_downloads k))" "entries_ok k"
    "\<And>x. x < length (pk_map k) \<Longrightarrow> downloading (pk_map k ! x) \<longleftrightarrow> x \<in> dp_index ` set (pk_downloads k)"
    "0 < pk_blocks_in_last_piece k"
  using assms by (auto simp: downloads_ok_def)

lemma blocks_in_piece_bounds:
  assumes "downloads_ok k"
  shows "0 < blocks_in_piece x k" "blocks_in_piece x k \<le> pk_blocks_per_piece k"
  using assms by (auto simp: downloads_ok_def storage_ok_def blocks_in_piece_def)

lemma view_index: "map dp_index (pk_downloads k) = map (dp_index \<circ> fst) (view k)"
  by (simp add: view_def comp_def)

lemma view_entry:
  assumes "downloads_ok k" "i < length (pk_downloads k)"
  defines "x \<equiv> dp_index (pk_downloads k ! i)"
  shows "x < length (pk_map k)" "\<not> pp_have (pk_map k ! x)"
    "entry_ok (blocks_in_piece x k) (full (pk_map k ! x)) (view k ! i)"
proof -
  have "view k ! i \<in> set (view k)" "dp_index (fst (view k ! i)) = x"
    using assms(2) nth_mem [of i "view k"] by (simp_all add: view_nth x_def)
  with downloadsD(4) [OF assms(1)] show "x < length (pk_map k)" "\<not> pp_have (pk_map k ! x)"
    "entry_ok (blocks_in_piece x k) (full (pk_map k ! x)) (view k ! i)"
    by (auto simp: entries_ok_def Let_def)
qed

lemma sorted_index_inj:
  "sorted_wrt (<) (map f xs) \<Longrightarrow> i < length xs \<Longrightarrow> j < length xs \<Longrightarrow> f (xs ! i) = (f (xs ! j) :: nat) \<Longrightarrow> i = j"
  by (metis length_map nth_eq_iff_index_eq nth_map strict_sorted_iff)

text \<open>What an operation on one entry may do.\<close>

lemma entry_changed:
  assumes k: "downloads_ok k" and i: "i < length (pk_downloads k)" "x = dp_index (pk_downloads k ! i)"
    and v: "view k' = (view k)[i := (d, bs)]" "storage_ok k'" "dp_index d = x"
    and m: "pk_map k' = (pk_map k)[x := (pk_map k ! x)\<lparr>full := fl\<rparr>]"
      "pk_blocks_per_piece k' = pk_blocks_per_piece k" "pk_blocks_in_last_piece k' = pk_blocks_in_last_piece k"
    and e: "entry_ok (blocks_in_piece x k) fl (d, bs)"
  shows "downloads_ok k'"
proof -
  have ix: "map dp_index (pk_downloads k') = map dp_index (pk_downloads k)"
  proof -
    have "map (dp_index \<circ> fst) (view k') = (map (dp_index \<circ> fst) (view k))[i := x]"
      using v(1,3) by (simp add: map_update)
    also have "\<dots> = map (dp_index \<circ> fst) (view k)"
      using i by (intro list_update_same_conv [THEN iffD2]) (simp_all add: view_nth)
    finally show ?thesis by (simp only: view_index)
  qed
  have bp: "blocks_in_piece y k' = blocks_in_piece y k" for y using m by (simp add: blocks_in_piece_def)
  have xl: "x < length (pk_map k)" "\<not> pp_have (pk_map k ! x)" using view_entry(1,2) [OF k i(1)] i(2) by simp_all
  have h: "pp_have (p\<lparr>full := fl\<rparr>) = pp_have p" for p by (simp add: pp_have_def)
  have "entries_ok k'"
    unfolding entries_ok_def Let_def
  proof
    fix e' assume "e' \<in> set (view k')"
    then obtain l where l: "l < length (view k)" "e' = (view k)[i := (d, bs)] ! l"
      using v(1) by (metis in_set_conv_nth length_list_update)
    show "dp_index (fst e') < length (pk_map k') \<and> \<not> pp_have (pk_map k' ! dp_index (fst e')) \<and>
        entry_ok (blocks_in_piece (dp_index (fst e')) k') (full (pk_map k' ! dp_index (fst e'))) e'"
    proof (cases "l = i")
      case True
      with l e v(3) m(1) xl h show ?thesis by (simp add: bp)
    next
      case False
      have "dp_index (fst e') \<noteq> x"
        using False l i sorted_index_inj [OF downloadsD(3) [OF k] _ i(1)] by (auto simp: view_nth)
      moreover have "e' = view k ! l" "dp_index (fst e') = dp_index (pk_downloads k ! l)" "l < length (pk_downloads k)"
        using l False by (simp_all add: view_nth)
      ultimately show ?thesis using view_entry [OF k, of l] m(1) by (simp add: bp)
    qed
  qed
  moreover have "downloading (pk_map k' ! y) = downloading (pk_map k ! y)" for y
    using m(1) xl(1) by (cases "y = x") simp_all
  moreover have "dp_index ` set (pk_downloads k') = dp_index ` set (pk_downloads k)"
    using ix by (metis set_map)
  ultimately show ?thesis using k v(2) m ix by (simp add: downloads_ok_def)
qed

lemma find_dl_some:
  assumes "downloads_ok k" "x < length (pk_map k)"
  shows "downloading (pk_map k ! x) \<Longrightarrow>
      \<exists>i. find_dl_piece x k = Some i \<and> i < length (pk_downloads k) \<and> dp_index (pk_downloads k ! i) = x"
    "\<not> downloading (pk_map k ! x) \<Longrightarrow> find_dl_piece x k = None"
proof -
  let ?ds = "pk_downloads k"
  have s: "sorted_wrt (<) (map dp_index ?ds)" by (rule downloadsD(3) [OF assms(1)])
  show "\<exists>i. find_dl_piece x k = Some i \<and> i < length ?ds \<and> dp_index (?ds ! i) = x" if "downloading (pk_map k ! x)"
  proof -
    from that assms obtain l where l: "l < length ?ds" "dp_index (?ds ! l) = x"
      using downloadsD(5) by (auto simp: in_set_conv_nth)
    have "lower_bound x ?ds = l"
    proof -
      have "takeWhile (\<lambda>d. dp_index d < x) ?ds = take l ?ds"
        using sorted_wrt_nth_less [OF s] l by (intro takeWhile_eq_take_P_nth) auto
      with l show ?thesis by (simp add: lower_bound_def)
    qed
    with l show ?thesis by (simp add: find_dl_piece_def)
  qed
  show "find_dl_piece x k = None" if "\<not> downloading (pk_map k ! x)"
    using that downloadsD(5) [OF assms] by (auto simp: find_dl_piece_def Let_def) (metis image_eqI nth_mem)
qed

subsection \<open>An entry comes or goes\<close>

definition fresh_entry :: "nat \<Rightarrow> nat \<Rightarrow> downloading_piece \<times> block_info list" where
  "fresh_entry n x = (\<lparr>dp_info = 0, dp_index = x, dp_finished = 0, dp_writing = 0, dp_requested = 0,
     dp_state = NoSpeed\<rparr>, replicate n no_block)"

lemma fresh_entry_ok: "n \<le> m \<Longrightarrow> entry_ok n False (fresh_entry m x)"
  by (simp add: entry_ok_def fresh_entry_def in_state_def tally_def no_block_def min_def)

definition like_piece :: "piece_pos \<Rightarrow> piece_pos \<Rightarrow> bool" where
  "like_piece p p' \<longleftrightarrow> downloading p' = downloading p \<and> full p' = full p \<and> (pp_have p' \<longrightarrow> pp_have p)"

lemma keeps_like: "keeps_piece p p' \<Longrightarrow> like_piece p p'"
  by (simp add: keeps_piece_def like_piece_def)

lemma sorted_insert_at:
  assumes "sorted_wrt (<) is" "x \<notin> set is"
  shows "sorted_wrt (<) (insert_at (length (takeWhile (\<lambda>y. y < x) is)) (x :: nat) is)"
proof -
  let ?a = "takeWhile (\<lambda>y. y < x) is" and ?b = "dropWhile (\<lambda>y. y < x) is"
  have e: "insert_at (length ?a) x is = ?a @ x # ?b"
    by (simp add: insert_at_def takeWhile_eq_take [symmetric] dropWhile_eq_drop [symmetric])
  have s: "sorted_wrt (<) (?a @ ?b)" using assms(1) by simp
  have "x < y" if y: "y \<in> set ?b" for y
  proof (cases ?b)
    case (Cons z zs)
    then have "\<not> z < x" using hd_dropWhile [of "\<lambda>y. y < x" "is"] by simp
    moreover have "z \<noteq> x" using assms(2) Cons set_dropWhileD [of z "\<lambda>y. y < x" "is"] by auto
    moreover have "y = z \<or> z < y" using s y Cons by (auto simp: sorted_wrt_append)
    ultimately show ?thesis by auto
  next
    case Nil
    with y show ?thesis by simp
  qed
  with s show ?thesis
    unfolding e by (auto simp: sorted_wrt_append dest: set_takeWhileD intro: less_trans [of _ x])
qed

lemma sorted_erase_at:
  assumes "sorted_wrt R is" "i < length is"
  shows "sorted_wrt R (erase_at i is)"
proof -
  have "sorted_wrt R (take i is @ is ! i # drop (Suc i) is)" using assms erase_at_mset by metis
  then show ?thesis by (auto simp: erase_at_def sorted_wrt_append)
qed

lemma view_index_set: "dp_index ` set (pk_downloads k) = (dp_index \<circ> fst) ` set (view k)"
  by (metis list.set_map view_index)

lemma entry_added:
  assumes k: "downloads_ok k" and x: "x < length (pk_map k)" "\<not> downloading (pk_map k ! x)"
    and v: "view k' = insert_at (lower_bound x (pk_downloads k)) (fresh_entry (pk_blocks_per_piece k) x) (view k)"
      "storage_ok k'"
    and m: "length (pk_map k') = length (pk_map k)"
      "\<And>y. y < length (pk_map k) \<Longrightarrow> y \<noteq> x \<Longrightarrow> like_piece (pk_map k ! y) (pk_map k' ! y)"
      "downloading (pk_map k' ! x)" "\<not> full (pk_map k' ! x)" "\<not> pp_have (pk_map k' ! x)"
      "pk_blocks_per_piece k' = pk_blocks_per_piece k" "pk_blocks_in_last_piece k' = pk_blocks_in_last_piece k"
  shows "downloads_ok k'"
proof -
  have nx: "x \<notin> dp_index ` set (pk_downloads k)" using downloadsD(5) [OF k x(1)] x(2) by simp
  have bp: "blocks_in_piece y k' = blocks_in_piece y k" for y using m by (simp add: blocks_in_piece_def)
  have sv: "set (view k') = insert (fresh_entry (pk_blocks_per_piece k) x) (set (view k))"
    using v(1) by (simp add: set_insert_at)
  have fx: "dp_index (fst (fresh_entry n x)) = x" for n by (simp add: fresh_entry_def)
  have ix: "map dp_index (pk_downloads k') = insert_at (lower_bound x (pk_downloads k)) x (map dp_index (pk_downloads k))"
    by (simp add: view_index v(1) map_insert_at fx)
  have lb: "lower_bound x (pk_downloads k) = length (takeWhile (\<lambda>y. y < x) (map dp_index (pk_downloads k)))"
    by (simp add: lower_bound_def takeWhile_map comp_def)
  have so: "sorted_wrt (<) (map dp_index (pk_downloads k'))"
    unfolding ix lb using nx by (intro sorted_insert_at downloadsD(3) [OF k]) simp
  have "entries_ok k'"
    unfolding entries_ok_def Let_def
  proof
    fix e assume "e \<in> set (view k')"
    then consider "e = fresh_entry (pk_blocks_per_piece k) x" | "e \<in> set (view k)" using sv by auto
    then show "dp_index (fst e) < length (pk_map k') \<and> \<not> pp_have (pk_map k' ! dp_index (fst e)) \<and>
        entry_ok (blocks_in_piece (dp_index (fst e)) k') (full (pk_map k' ! dp_index (fst e))) e"
    proof cases
      case 1
      with x m fx fresh_entry_ok [OF blocks_in_piece_bounds(2) [OF k]] show ?thesis by (simp add: bp)
    next
      case 2
      then have "dp_index (fst e) \<in> dp_index ` set (pk_downloads k)" by (auto simp: view_index_set)
      with nx have "dp_index (fst e) \<noteq> x" by auto
      with 2 downloadsD(4) [OF k] m(1) m(2) [of "dp_index (fst e)"] show ?thesis
        by (auto simp: entries_ok_def Let_def bp like_piece_def)
    qed
  qed
  moreover have "downloading (pk_map k' ! y) \<longleftrightarrow> y \<in> dp_index ` set (pk_downloads k')" if "y < length (pk_map k')" for y
  proof (cases "y = x")
    case True
    then show ?thesis using m(3) fx by (simp add: view_index_set sv)
  next
    case False
    with that m(1,2) downloadsD(5) [OF k, of y] fx show ?thesis
      by (auto simp: view_index_set sv like_piece_def)
  qed
  ultimately show ?thesis using k v(2) m so by (simp add: downloads_ok_def)
qed

lemma entry_erased:
  assumes k: "downloads_ok k" and i: "i < length (pk_downloads k)" "x = dp_index (pk_downloads k ! i)"
    and v: "view k' = erase_at i (view k)" "storage_ok k'"
    and m: "length (pk_map k') = length (pk_map k)"
      "\<And>y. y < length (pk_map k) \<Longrightarrow> y \<noteq> x \<Longrightarrow> like_piece (pk_map k ! y) (pk_map k' ! y)"
      "\<not> downloading (pk_map k' ! x)"
      "pk_blocks_per_piece k' = pk_blocks_per_piece k" "pk_blocks_in_last_piece k' = pk_blocks_in_last_piece k"
  shows "downloads_ok k'"
proof -
  let ?is = "map dp_index (pk_downloads k)"
  have bp: "blocks_in_piece y k' = blocks_in_piece y k" for y using m by (simp add: blocks_in_piece_def)
  have ix: "map dp_index (pk_downloads k') = erase_at i ?is"
    by (simp add: view_index v(1) map_erase_at)
  have so: "sorted_wrt (<) (map dp_index (pk_downloads k'))"
    unfolding ix using i(1) by (intro sorted_erase_at downloadsD(3) [OF k]) simp
  have "distinct ?is" using downloadsD(3) [OF k] strict_sorted_iff by blast
  from distinct_erase_at(2) [OF this, of i] i have si: "dp_index ` set (pk_downloads k') = set ?is - {x}"
    using ix by (metis length_map list.set_map nth_map)
  have "entries_ok k'"
    unfolding entries_ok_def Let_def
  proof
    fix e assume e: "e \<in> set (view k')"
    then have "dp_index (fst e) \<in> dp_index ` set (pk_downloads k')" by (auto simp: view_index_set)
    then have "dp_index (fst e) \<noteq> x" using si by auto
    moreover have "e \<in> set (view k)"
      using e v(1) by (auto simp: erase_at_def dest: in_set_takeD in_set_dropD)
    ultimately show "dp_index (fst e) < length (pk_map k') \<and> \<not> pp_have (pk_map k' ! dp_index (fst e)) \<and>
        entry_ok (blocks_in_piece (dp_index (fst e)) k') (full (pk_map k' ! dp_index (fst e))) e"
      using downloadsD(4) [OF k] m(1) m(2) [of "dp_index (fst e)"]
      by (auto simp: entries_ok_def Let_def bp like_piece_def)
  qed
  moreover have "downloading (pk_map k' ! y) \<longleftrightarrow> y \<in> dp_index ` set (pk_downloads k')" if "y < length (pk_map k')" for y
    using that m(1-3) downloadsD(5) [OF k, of y] si by (cases "y = x") (auto simp: like_piece_def)
  ultimately show ?thesis using k v(2) m so by (simp add: downloads_ok_def)
qed

lemma downloads_keeps:
  assumes "downloads_ok k" "keeps k k'"
  shows "downloads_ok k'" "view k' = view k"
proof -
  have ke: "length (pk_map k') = length (pk_map k)" "pk_downloads k' = pk_downloads k"
    "pk_block_info k' = pk_block_info k" "pk_blocks_per_piece k' = pk_blocks_per_piece k"
    "pk_blocks_in_last_piece k' = pk_blocks_in_last_piece k"
    "\<And>y. y < length (pk_map k) \<Longrightarrow> like_piece (pk_map k ! y) (pk_map k' ! y)"
    using assms(2) by (auto simp: keeps_def list_all2_conv_all_nth keeps_like)
  show v: "view k' = view k" using ke by (simp add: view_def blocks_of_def)
  have bp: "blocks_in_piece y k' = blocks_in_piece y k" for y using ke by (simp add: blocks_in_piece_def)
  show "downloads_ok k'"
    using assms(1) ke v bp by (auto simp: downloads_ok_def entries_ok_def Let_def storage_ok_def like_piece_def)
qed

end
