(* ===== verification/PickerMap.thy ===== *)
theory PickerMap
  imports PickerDownloads
begin

section \<open>The operations on blocks refine a map from blocks to states\<close>

text \<open>
  \<open>blocks_at k x\<close> is the abstract value of the downloads: the blocks of each piece, all \<open>no_block\<close> where there
  is no entry. Each operation on a block is one update of this map, whatever it does with the entries, their
  ranges and the buckets; and it keeps \<open>pk_inv\<close>, the invariant of the whole picker.
\<close>

definition pk_inv :: "picker \<Rightarrow> bool" where
  "pk_inv k \<longleftrightarrow> picker_ok k \<and> downloads_ok k \<and> list_all (\<lambda>p. piece_prio p < 8) (pk_map k)"

definition block_map :: "picker \<Rightarrow> nat \<rightharpoonup> block_info list" where
  "block_map k = map_of (map (\<lambda>e. (dp_index (fst e), snd e)) (view k))"

definition blocks_at :: "picker \<Rightarrow> nat \<Rightarrow> block_info list" where
  "blocks_at k x = (case block_map k x of None \<Rightarrow> replicate (pk_blocks_per_piece k) no_block | Some bs \<Rightarrow> bs)"

definition state_at :: "picker \<Rightarrow> nat \<Rightarrow> nat \<Rightarrow> block_state" where
  "state_at k x j = (if j < length (blocks_at k x) then bi_state (blocks_at k x ! j) else StateNone)"

definition peers_at :: "picker \<Rightarrow> nat \<Rightarrow> nat \<Rightarrow> nat" where
  "peers_at k x j = (if j < length (blocks_at k x) then bi_num_peers (blocks_at k x ! j) else 0)"

subsection \<open>Association lists by position\<close>

lemma map_of_update_at:
  "distinct (map fst xs) \<Longrightarrow> i < length xs \<Longrightarrow> fst (xs ! i) = x \<Longrightarrow> map_of (xs[i := (x, v)]) = (map_of xs)(x \<mapsto> v)"
proof (induction xs arbitrary: i)
  case (Cons a xs)
  show ?case
  proof (cases i)
    case 0
    with Cons show ?thesis by (cases a) (auto simp: fun_eq_iff)
  next
    case (Suc l)
    with Cons.prems have "fst a \<noteq> x" using nth_mem [of l xs] by auto
    with Cons Suc show ?thesis by (cases a) (auto simp: fun_eq_iff)
  qed
qed simp

lemma map_of_insert_at:
  assumes "x \<notin> fst ` set xs"
  shows "map_of (insert_at i (x, v) xs) = (map_of xs)(x \<mapsto> v)"
proof -
  have "x \<notin> dom (map_of (take i xs))" using assms by (auto simp: dom_map_of_conv_image_fst dest: in_set_takeD)
  moreover have "map_of xs = map_of (drop i xs) ++ map_of (take i xs)"
    by (metis append_take_drop_id map_of_append)
  ultimately show ?thesis by (simp add: insert_at_def map_add_upd_left)
qed

lemma map_of_erase_at:
  assumes "distinct (map fst xs)" "i < length xs"
  shows "map_of (erase_at i xs) = (map_of xs)(fst (xs ! i) := None)"
proof -
  obtain x v where xv: "xs ! i = (x, v)" by fastforce
  have e: "xs = take i xs @ (x, v) # drop (Suc i) xs" using id_take_nth_drop [OF assms(2)] xv by simp
  then have "distinct (map fst (take i xs @ (x, v) # drop (Suc i) xs))" using assms(1) by simp
  then have n: "x \<notin> fst ` set (take i xs)" "x \<notin> fst ` set (drop (Suc i) xs)" by auto
  have "map_of xs = (map_of (drop (Suc i) xs))(x \<mapsto> v) ++ map_of (take i xs)"
    by (subst e) simp
  moreover have "map_of (take i xs) x = None" "map_of (drop (Suc i) xs) x = None"
    using n by (simp_all add: map_of_eq_None_iff)
  ultimately show ?thesis using xv by (auto simp: erase_at_def fun_eq_iff map_add_def split: option.splits)
qed

subsection \<open>The map and the entries\<close>

lemma view_keys: "map fst (map (\<lambda>e. (dp_index (fst e), snd e)) (view k)) = map dp_index (pk_downloads k)"
  by (simp add: view_index comp_def)

lemma view_distinct: "downloads_ok k \<Longrightarrow> distinct (map fst (map (\<lambda>e. (dp_index (fst e), snd e)) (view k)))"
  unfolding view_keys using downloadsD(3) strict_sorted_iff by blast

lemma block_map_nth:
  assumes "downloads_ok k" "i < length (pk_downloads k)"
  shows "block_map k (dp_index (pk_downloads k ! i)) = Some (snd (view k ! i))"
  unfolding block_map_def
proof (rule map_of_is_SomeI [OF view_distinct [OF assms(1)]])
  have "view k ! i \<in> set (view k)" using assms(2) by simp
  then show "(dp_index (pk_downloads k ! i), snd (view k ! i)) \<in> set (map (\<lambda>e. (dp_index (fst e), snd e)) (view k))"
    using assms(2) by (force simp: view_nth)
qed

lemma block_map_none:
  assumes "downloads_ok k" "x < length (pk_map k)" "\<not> downloading (pk_map k ! x)"
  shows "block_map k x = None"
proof -
  have "x \<notin> set (map fst (map (\<lambda>e. (dp_index (fst e), snd e)) (view k)))"
    unfolding view_keys using downloadsD(5) [OF assms(1,2)] assms(3) by simp
  then show ?thesis unfolding block_map_def map_of_eq_None_iff list.set_map .
qed

lemma blocks_at_nth:
  "downloads_ok k \<Longrightarrow> i < length (pk_downloads k) \<Longrightarrow> dp_index (pk_downloads k ! i) = x \<Longrightarrow>
     blocks_at k x = snd (view k ! i)"
  using block_map_nth by (auto simp: blocks_at_def)

lemma blocks_at_none:
  "downloads_ok k \<Longrightarrow> x < length (pk_map k) \<Longrightarrow> \<not> downloading (pk_map k ! x) \<Longrightarrow>
     blocks_at k x = replicate (pk_blocks_per_piece k) no_block"
  using block_map_none by (auto simp: blocks_at_def)

lemma blocks_at_length:
  assumes "downloads_ok k"
  shows "length (blocks_at k x) = pk_blocks_per_piece k"
proof (cases "block_map k x")
  case (Some bs)
  then obtain e where e: "e \<in> set (view k)" "snd e = bs"
    unfolding block_map_def by (auto dest!: map_of_SomeD)
  then obtain i where i: "i < length (view k)" "view k ! i = e" by (auto simp: in_set_conv_nth)
  with e have "blocks_of k (pk_downloads k ! i) = bs" by (auto simp: view_nth)
  with blocks_length [OF downloadsD(1) [OF assms], of i] i(1) Some show ?thesis by (simp add: blocks_at_def)
qed (simp add: blocks_at_def)

lemma blocks_at_updated:
  assumes "downloads_ok k" "i < length (pk_downloads k)" "dp_index (pk_downloads k ! i) = x"
    "view k' = (view k)[i := (d, bs)]" "dp_index d = x" "pk_blocks_per_piece k' = pk_blocks_per_piece k"
  shows "blocks_at k' = (blocks_at k)(x := bs)"
proof -
  have "block_map k' = (block_map k)(x \<mapsto> bs)"
    unfolding block_map_def assms(4) map_update
    using assms by (simp add: map_of_update_at [OF view_distinct [OF assms(1)]] view_nth)
  then show ?thesis using assms(6) by (auto simp: blocks_at_def fun_eq_iff split: option.split)
qed

lemma blocks_at_inserted:
  assumes "downloads_ok k" "x < length (pk_map k)" "\<not> downloading (pk_map k ! x)"
    "view k' = insert_at i (fresh_entry (pk_blocks_per_piece k) x) (view k)"
    "pk_blocks_per_piece k' = pk_blocks_per_piece k"
  shows "blocks_at k' = blocks_at k"
proof -
  have "x \<notin> fst ` set (map (\<lambda>e. (dp_index (fst e), snd e)) (view k))"
    using downloadsD(5) [OF assms(1,2)] assms(3) view_keys by (metis list.set_map)
  from map_of_insert_at [OF this] have "block_map k' = (block_map k)(x \<mapsto> replicate (pk_blocks_per_piece k) no_block)"
    unfolding block_map_def assms(4) by (simp add: map_insert_at fresh_entry_def)
  then show ?thesis
    using assms(5) block_map_none [OF assms(1-3)] by (auto simp: blocks_at_def fun_eq_iff split: option.split)
qed

lemma blocks_at_erased:
  assumes "downloads_ok k" "i < length (pk_downloads k)" "dp_index (pk_downloads k ! i) = x"
    "view k' = erase_at i (view k)" "pk_blocks_per_piece k' = pk_blocks_per_piece k"
  shows "blocks_at k' = (blocks_at k)(x := replicate (pk_blocks_per_piece k) no_block)"
proof -
  have "block_map k' = (block_map k)(x := None)"
    unfolding block_map_def assms(4) map_erase_at
    using assms(2,3) by (simp add: map_of_erase_at [OF view_distinct [OF assms(1)]] view_nth)
  then show ?thesis using assms(5) by (auto simp: blocks_at_def fun_eq_iff split: option.split)
qed

lemma blocks_at_same: "view k' = view k \<Longrightarrow> pk_blocks_per_piece k' = pk_blocks_per_piece k \<Longrightarrow> blocks_at k' = blocks_at k"
  by (simp add: blocks_at_def block_map_def fun_eq_iff split: option.split)

lemma state_at_updated:
  assumes "downloads_ok k" "blocks_at k' = (blocks_at k)(x := (blocks_at k x)[j := b])" "j < pk_blocks_per_piece k"
  shows "state_at k' = (state_at k)(x := (state_at k x)(j := bi_state b))"
  using assms blocks_at_length [OF assms(1), of x] by (auto simp: state_at_def fun_eq_iff nth_list_update)

lemma state_at_erased:
  "blocks_at k' = (blocks_at k)(x := replicate n no_block) \<Longrightarrow> state_at k' = (state_at k)(x := (\<lambda>_. StateNone))"
  by (auto simp: state_at_def fun_eq_iff no_block_def)

subsection \<open>Steps of the operations\<close>

lemma peers_at_updated:
  assumes "downloads_ok k" "blocks_at k' = (blocks_at k)(x := (blocks_at k x)[j := b])" "j < pk_blocks_per_piece k"
  shows "peers_at k' = (peers_at k)(x := (peers_at k x)(j := bi_num_peers b))"
  using assms blocks_at_length [OF assms(1), of x] by (auto simp: peers_at_def fun_eq_iff nth_list_update)

lemma peers_at_erased:
  "blocks_at k' = (blocks_at k)(x := replicate n no_block) \<Longrightarrow> peers_at k' = (peers_at k)(x := (\<lambda>_. 0))"
  by (auto simp: peers_at_def fun_eq_iff no_block_def)

lemma picker_ok_blocks [simp]:
  "picker_ok (set_block i j b k) = picker_ok k" "picker_ok (set_dl i d k) = picker_ok k"
  by (simp_all add: picker_ok_def named_def buckets_ok_def filed_def bounds_ok_def counters_ok_def set_block_def set_dl_def)

lemma block_simps [simp]:
  "pk_map (set_block i j b k) = pk_map k" "pk_map (set_dl i d k) = pk_map k"
  "pk_downloads (set_block i j b k) = pk_downloads k" "pk_downloads (set_dl i d k) = (pk_downloads k)[i := d]"
  "pk_blocks_per_piece (set_block i j b k) = pk_blocks_per_piece k"
  "pk_blocks_per_piece (set_dl i d k) = pk_blocks_per_piece k"
  "pk_blocks_in_last_piece (set_block i j b k) = pk_blocks_in_last_piece k"
  "pk_blocks_in_last_piece (set_dl i d k) = pk_blocks_in_last_piece k"
  "pk_blocks_per_piece (set_piece x p k) = pk_blocks_per_piece k"
  "pk_blocks_in_last_piece (set_piece x p k) = pk_blocks_in_last_piece k"
  by (simp_all add: set_block_def set_dl_def set_piece_def)

lemma set_piece_view [simp]: "view (set_piece x p k) = view k" "storage_ok (set_piece x p k) = storage_ok k"
  by (simp_all add: set_piece_def view_def storage_ok_def blocks_of_def)

lemma priority_full: "priority s (p\<lparr>full := f\<rparr>) = priority s p"
  by (simp add: priority_def filtered_def pp_have_def)

lemma set_full_ok:
  assumes "picker_ok k" "x < length (pk_map k)"
  shows "picker_ok (set_piece x ((pk_map k ! x)\<lparr>full := f\<rparr>) k)"
proof -
  let ?p = "(pk_map k ! x)\<lparr>full := f\<rparr>"
  have "pp_have ?p = pp_have (pk_map k ! x)" "filtered ?p = filtered (pk_map k ! x)"
    by (simp_all add: pp_have_def filtered_def)
  note sp = set_piece_settled [OF assms this]
  have "buckets_ok (set_piece x ?p k)" if "\<not> pk_dirty k"
    by (rule same_changed [OF picker_ok_simps(1) [OF assms(1) that] sp(1)]) (simp_all add: priority_full)
  then show ?thesis using sp(2,3) assms by (simp add: picker_ok_def picker_simps)
qed

lemma update_full_eq:
  assumes "i < length (pk_downloads k)" "dp_index (pk_downloads k ! i) = x" "x < length (pk_map k)"
  shows "update_full i k = Some (set_piece x ((pk_map k ! x)\<lparr>full := (dp_requested (pk_downloads k ! i) +
    dp_finished (pk_downloads k ! i) + dp_writing (pk_downloads k ! i) = int (blocks_in_piece x k))\<rparr>) k)"
  using assms by (simp add: update_full_def)

lemma prio_set: "list_all (\<lambda>p. piece_prio p < 8) ps \<Longrightarrow> piece_prio p < 8 \<Longrightarrow> list_all (\<lambda>p. piece_prio p < 8) (ps[x := p])"
  by (auto simp: list_all_iff dest!: set_update_subset_insert [THEN subsetD])

lemma pk_invD:
  assumes "pk_inv k"
  shows "picker_ok k" "downloads_ok k" "list_all (\<lambda>p. piece_prio p < 8) (pk_map k)"
    "\<And>x. x < length (pk_map k) \<Longrightarrow> piece_prio (pk_map k ! x) < 8"
  using assms by (auto simp: pk_inv_def list_all_length)

text \<open>What an operation on one block leaves as it is.\<close>

definition frame :: "picker \<Rightarrow> picker \<Rightarrow> bool" where
  "frame k k' \<longleftrightarrow> map pp_have (pk_map k') = map pp_have (pk_map k) \<and>
     pk_blocks_per_piece k' = pk_blocks_per_piece k \<and> pk_blocks_in_last_piece k' = pk_blocks_in_last_piece k"

lemma frame_refl [simp]: "frame k k"
  by (simp add: frame_def)

lemma frame_trans: "frame k k1 \<Longrightarrow> frame k1 k2 \<Longrightarrow> frame k k2"
  by (simp add: frame_def)

lemma frame_blocks [simp]: "frame k (set_block i j b k1) = frame k k1" "frame k (set_dl i d k1) = frame k k1"
  by (simp_all add: frame_def)

lemma frame_set: "pp_have p = pp_have (pk_map k ! x) \<Longrightarrow> frame k (set_piece x p k)"
  by (cases "x < length (pk_map k)")
    (simp_all add: frame_def set_piece_def map_update list_update_beyond, metis list_update_id nth_map)

lemma frame_reindexed: "reindexed k k' \<Longrightarrow> frame k k'"
  using reindexed_keeps(8,9) [of k k'] same_piece_unwanted
  by (auto simp: frame_def reindexed_def list_all2_conv_all_nth intro!: nth_equalityI)

lemma frameD:
  assumes "frame k k'"
  shows "length (pk_map k') = length (pk_map k)" "blocks_in_piece x k' = blocks_in_piece x k"
    "x < length (pk_map k) \<Longrightarrow> pp_have (pk_map k' ! x) = pp_have (pk_map k ! x)"
proof -
  have l: "map pp_have (pk_map k') = map pp_have (pk_map k)" using assms by (simp add: frame_def)
  then show e: "length (pk_map k') = length (pk_map k)" by (metis length_map)
  with assms show "blocks_in_piece x k' = blocks_in_piece x k" by (simp add: blocks_in_piece_def frame_def)
  show "x < length (pk_map k) \<Longrightarrow> pp_have (pk_map k' ! x) = pp_have (pk_map k ! x)"
    using l e by (metis nth_map)
qed

text \<open>A block and the counters of its entry change, and \<^verbatim>\<open>update_full\<close> may run.\<close>

lemma block_step:
  assumes k: "pk_inv k" and i: "i < length (pk_downloads k)" "dp_index (pk_downloads k ! i) = x"
    and j: "j < blocks_in_piece x k"
    and d: "dp_info d' = dp_info (pk_downloads k ! i)" "dp_index d' = x"
    and b: "0 < bi_num_peers b \<longleftrightarrow> bi_state b = StateRequested"
    and old: "s0 = state_at k x j" "d = pk_downloads k ! i"
    and c: "dp_requested d' = dp_requested d + (if bi_state b = StateRequested then 1 else 0) -
        (if s0 = StateRequested then 1 else 0)"
      "dp_writing d' = dp_writing d + (if bi_state b = StateWriting then 1 else 0) -
        (if s0 = StateWriting then 1 else 0)"
      "dp_finished d' = dp_finished d + (if bi_state b = StateFinished then 1 else 0) -
        (if s0 = StateFinished then 1 else 0)"
    and s: "dp_state d' \<noteq> NoSpeed \<longleftrightarrow> dp_requested d' \<noteq> 0"
  defines "k1 \<equiv> set_dl i d' (set_block i j b k)"
  shows "(full (pk_map k ! x) \<longrightarrow> bi_state b \<noteq> StateNone \<or> s0 = StateNone) \<Longrightarrow> pk_inv k1"
    "\<exists>k2. update_full i k1 = Some k2 \<and> pk_inv k2 \<and> blocks_at k2 = blocks_at k1 \<and> pk_downloads k2 = pk_downloads k1 \<and> frame k k2"
    "blocks_at k1 = (blocks_at k)(x := (blocks_at k x)[j := b])"
proof -
  note kd = pk_invD [OF k]
  let ?n = "blocks_in_piece x k" and ?bs = "snd (view k ! i)"
  have xl: "x < length (pk_map k)" "entry_ok ?n (full (pk_map k ! x)) (view k ! i)"
    using view_entry [OF kd(2) i(1)] i(2) by simp_all
  have jn: "j < pk_blocks_per_piece k" using j blocks_in_piece_bounds(2) [OF kd(2)] by (rule less_le_trans)
  have bs: "blocks_at k x = ?bs" by (rule blocks_at_nth [OF kd(2) i])
  have lbs: "length ?bs = pk_blocks_per_piece k" using blocks_at_length [OF kd(2), of x] bs by simp
  have s0: "s0 = bi_state (?bs ! j)" using old(1) bs lbs jn by (simp add: state_at_def)
  have e: "entry_ok ?n (full (pk_map k ! x)) (d, ?bs)"
    using xl(2) old(2) i(1) by (auto simp: view_nth entry_ok_def Let_def)
  note sb = set_block_view [OF downloadsD(1) [OF kd(2)] i(1) jn, of b]
  have v: "view k1 = (view k)[i := (d'\<lparr>dp_info := 0\<rparr>, ?bs[j := b])]" "storage_ok k1"
    using set_dl_view [OF sb(2), of i d'] sb(1) i(1) d(1) by (simp_all add: k1_def)
  show ba: "blocks_at k1 = (blocks_at k)(x := (blocks_at k x)[j := b])"
    unfolding bs by (rule blocks_at_updated [OF kd(2) i v(1)]) (simp_all add: d(2) k1_def)
  have p1: "picker_ok k1" using kd(1) by (simp add: k1_def)
  have step: "entry_ok ?n fl' (d'\<lparr>dp_info := 0\<rparr>, ?bs[j := b])"
    if "fl' \<longrightarrow> dp_finished d' + dp_writing d' + dp_requested d' = int ?n" for fl'
    by (rule entry_ok_step [OF e j b]) (use c s s0 that in simp_all)
  have inv: "downloads_ok (set_piece x ((pk_map k ! x)\<lparr>full := fl'\<rparr>) k1)"
    if "fl' \<longrightarrow> dp_finished d' + dp_writing d' + dp_requested d' = int ?n" for fl'
    by (rule entry_changed [OF kd(2) i(1), of x _ "d'\<lparr>dp_info := 0\<rparr>" "?bs[j := b]" fl'])
      (use i v d(2) step [OF that] in \<open>simp_all add: k1_def picker_simps\<close>)
  have px: "list_all (\<lambda>p. piece_prio p < 8) ((pk_map k)[x := (pk_map k ! x)\<lparr>full := fl'\<rparr>])" for fl'
    by (rule prio_set [OF kd(3)]) (use kd(4) [OF xl(1)] in simp)
  show "pk_inv k1" if f: "full (pk_map k ! x) \<longrightarrow> bi_state b \<noteq> StateNone \<or> s0 = StateNone"
  proof -
    have "full (pk_map k ! x) \<longrightarrow> dp_finished d' + dp_writing d' + dp_requested d' = int ?n"
    proof
      assume fu: "full (pk_map k ! x)"
      then have "s0 \<noteq> StateNone" using full_entry [of ?n d ?bs j] e j s0 by simp
      with f fu have "bi_state b \<noteq> StateNone" by blast
      moreover have "dp_finished d + dp_writing d + dp_requested d = int ?n"
        using e fu by (simp add: entry_ok_def Let_def)
      ultimately show "dp_finished d' + dp_writing d' + dp_requested d' = int ?n"
        using c \<open>s0 \<noteq> StateNone\<close> by (cases "bi_state b"; cases s0) simp_all
    qed
    moreover have "set_piece x ((pk_map k ! x)\<lparr>full := full (pk_map k ! x)\<rparr>) k1 = k1"
      by (simp add: set_piece_def k1_def)
    ultimately have "downloads_ok k1" using inv by metis
    with p1 kd(3) show ?thesis by (simp add: pk_inv_def k1_def)
  qed
  let ?f = "dp_requested d' + dp_finished d' + dp_writing d' = int ?n"
  let ?k2 = "set_piece x ((pk_map k ! x)\<lparr>full := ?f\<rparr>) k1"
  have "pk_downloads k1 ! i = d'" "i < length (pk_downloads k1)" "pk_map k1 = pk_map k" using i(1) by (simp_all add: k1_def)
  moreover have "blocks_in_piece x k1 = ?n" by (simp add: blocks_in_piece_def k1_def)
  ultimately have "update_full i k1 = Some ?k2" using update_full_eq [of i k1 x] d(2) xl(1) by simp
  moreover have "pk_inv ?k2"
    unfolding pk_inv_def
  proof (intro conjI)
    show "picker_ok ?k2" using set_full_ok [OF p1, of x] xl(1) by (simp add: k1_def)
    show "downloads_ok ?k2" by (rule inv) auto
    show "list_all (\<lambda>p. piece_prio p < 8) (pk_map ?k2)" using px by (simp add: k1_def picker_simps)
  qed
  moreover have "blocks_at ?k2 = blocks_at k1" by (rule blocks_at_same) simp_all
  moreover have "frame k ?k2"
  proof -
    have "frame k1 ?k2" by (rule frame_set) (simp add: pp_have_def k1_def)
    then show ?thesis by (rule frame_trans [rotated]) (simp add: k1_def)
  qed
  ultimately show "\<exists>k2. update_full i k1 = Some k2 \<and> pk_inv k2 \<and> blocks_at k2 = blocks_at k1 \<and>
      pk_downloads k2 = pk_downloads k1 \<and> frame k k2"
    by (intro exI [of _ ?k2]) (simp add: k1_def picker_simps)
qed

lemma inv_keeps:
  assumes "pk_inv k" "keeps k k'" "picker_ok k'"
  shows "pk_inv k'" "blocks_at k' = blocks_at k"
proof -
  have "list_all (\<lambda>p. piece_prio p < 8) (pk_map k')"
    using pk_invD(3) [OF assms(1)] assms(2)
    by (auto simp: keeps_def list_all2_conv_all_nth list_all_length keeps_piece_def)
  with downloads_keeps [OF pk_invD(2) [OF assms(1)] assms(2)] assms(2,3)
  show "pk_inv k'" "blocks_at k' = blocks_at k" by (auto simp: pk_inv_def keeps_def intro: blocks_at_same)
qed

subsection \<open>A download starts\<close>

lemma insert_at_nth: "i \<le> length xs \<Longrightarrow> insert_at i y xs ! i = y"
  by (simp add: insert_at_def nth_append)

lemma picker_ok_frame:
  "picker_ok (k\<lparr>pk_downloads := ds, pk_block_info := bs\<rparr>) = picker_ok k"
  by (simp add: picker_ok_def named_def buckets_ok_def filed_def bounds_ok_def counters_ok_def)

lemma no_block_simps [simp]: "bi_state no_block = StateNone" "bi_num_peers no_block = 0"
  by (simp_all add: no_block_def)

lemma start_download_ok:
  assumes k: "pk_inv k" and x: "x < length (pk_map k)" "\<not> downloading (pk_map k ! x)" "\<not> pp_have (pk_map k ! x)"
  obtains i k1 where "start_download random x k = Some (i, k1)" "i < length (pk_downloads k1)"
    "dp_index (pk_downloads k1 ! i) = x" "dp_finished (pk_downloads k1 ! i) = 0"
    "dp_writing (pk_downloads k1 ! i) = 0" "dp_requested (pk_downloads k1 ! i) = 0"
    "dp_state (pk_downloads k1 ! i) = NoSpeed"
    "pk_inv (set_piece x ((pk_map k1 ! x)\<lparr>full := False\<rparr>) k1)" "blocks_at k1 = blocks_at k"
    "length (pk_map k1) = length (pk_map k)" "full (pk_map k1 ! x) = full (pk_map k ! x)"
    "pk_blocks_per_piece k1 = pk_blocks_per_piece k" "pk_blocks_in_last_piece k1 = pk_blocks_in_last_piece k"
    "blocks_at k x = replicate (pk_blocks_per_piece k) no_block" "storage_ok k1" "snd (view k1 ! i) = blocks_at k x" "frame k k1"
proof -
  note kd = pk_invD [OF k]
  let ?p = "(pk_map k ! x)\<lparr>downloading := True\<rparr>"
  let ?k1 = "set_piece x ?p k"
  have same: "pp_have ?p = pp_have (pk_map k ! x)" "filtered ?p = filtered (pk_map k ! x)"
    by (simp_all add: pp_have_def filtered_def)
  note sp = set_piece_settled [OF kd(1) x(1) same]
  have "\<exists>k2. (case prio_of k x of None \<Rightarrow> Some ?k1
        | Some q \<Rightarrow> if pk_dirty ?k1 then Some ?k1 else pk_update random q (pos_index (pk_map k ! x)) ?k1) = Some k2 \<and>
      picker_ok k2 \<and> reindexed ?k1 k2"
  proof (cases "pk_dirty k")
    case True
    with sp kd(1) have "picker_ok ?k1" by (simp add: picker_ok_def picker_simps)
    with True show ?thesis by (auto simp: picker_simps split: option.split)
  next
    case False
    note b = picker_ok_simps(1) [OF kd(1) False]
    show ?thesis
    proof (cases "prio_of k x")
      case None
      then have "priority (pk_seeds k) ?p = None" by (auto simp: priority_def filtered_def pp_have_def Let_def split: if_splits prod.splits)
      from none_changed [OF b sp(1) None this] sp(2,3) kd(1) have "picker_ok ?k1"
        by (simp add: picker_ok_def picker_simps)
      with None show ?thesis by auto
    next
      case (Some q)
      from update_changed [OF b sp(1) Some, of random] obtain k2 where
        "pk_update random q (pos_index ?p) ?k1 = Some k2" "buckets_ok k2" "reindexed ?k1 k2" by auto
      with Some False picker_ok_reindexed sp(2,3) show ?thesis by (auto simp: picker_simps)
    qed
  qed
  then obtain k2 where k2: "(case prio_of k x of None \<Rightarrow> Some ?k1
        | Some q \<Rightarrow> if pk_dirty ?k1 then Some ?k1 else pk_update random q (pos_index (pk_map k ! x)) ?k1) = Some k2"
    "picker_ok k2" "reindexed ?k1 k2" by blast
  have r: "view k2 = view k" "storage_ok k2" "pk_downloads k2 = pk_downloads k"
    "pk_blocks_per_piece k2 = pk_blocks_per_piece k" "pk_blocks_in_last_piece k2 = pk_blocks_in_last_piece k"
    using reindexed_keeps(6-9) [OF k2(3)] downloadsD(1) [OF kd(2)]
    by (simp_all add: view_def blocks_of_def storage_ok_def set_piece_def)
  obtain i k3 where k3: "add_download_piece x k2 = (i, k3)" by fastforce
  note ad = add_download_view [OF r(2) k3]
  have k3r: "pk_map k3 = pk_map k2" "pk_blocks_per_piece k3 = pk_blocks_per_piece k"
    "pk_blocks_in_last_piece k3 = pk_blocks_in_last_piece k"
    by (subst ad(4), simp add: r)+
  have p3: "picker_ok k3" by (subst ad(4)) (simp add: picker_ok_frame k2(2))
  have lm: "length (pk_map k2) = length (pk_map k)"
    using k2(3) by (auto simp: reindexed_def picker_simps dest: list_all2_lengthD)
  have sm: "same_piece ((pk_map k)[x := ?p] ! y) (pk_map k2 ! y)" if "y < length (pk_map k)" for y
    using k2(3) that by (auto simp: reindexed_def picker_simps list_all2_conv_all_nth)
  have smx: "same_piece ?p (pk_map k2 ! x)" using sm [OF x(1)] x(1) by simp
  then have px: "downloading (pk_map k2 ! x)" "full (pk_map k2 ! x) = full (pk_map k ! x)"
    "\<not> pp_have (pk_map k2 ! x)" "piece_prio (pk_map k2 ! x) < 8"
    using same_piece_keeps [OF smx] x(3) same kd(4) [OF x(1)] by (auto simp: keeps_piece_def)
  have "frame k ?k1" by (rule frame_set) (simp add: pp_have_def)
  then have "frame k k2" by (rule frame_trans [OF _ frame_reindexed [OF k2(3)]])
  then have fr: "frame k k3" using k3r r by (simp add: frame_def)
  have le: "i \<le> length (view k)" using ad(3) lower_bound_le [of x "pk_downloads k2"] r(3) by simp
  have v3: "view k3 = insert_at i (fresh_entry (pk_blocks_per_piece k) x) (view k)"
    using ad(1) r by (simp add: fresh_entry_def)
  then have "view k3 ! i = fresh_entry (pk_blocks_per_piece k) x" "i < length (view k3)"
    using le insert_at_nth [OF le] by simp_all
  then have nth: "i < length (pk_downloads k3)"
    "(pk_downloads k3 ! i)\<lparr>dp_info := 0\<rparr> = fst (fresh_entry (pk_blocks_per_piece k) x)"
    "snd (view k3 ! i) = replicate (pk_blocks_per_piece k) no_block"
    by (simp_all add: view_nth fresh_entry_def)
  from arg_cong [OF nth(2), of dp_index] arg_cong [OF nth(2), of dp_finished] arg_cong [OF nth(2), of dp_writing]
    arg_cong [OF nth(2), of dp_requested] arg_cong [OF nth(2), of dp_state]
  have en: "dp_index (pk_downloads k3 ! i) = x" "dp_finished (pk_downloads k3 ! i) = 0"
    "dp_writing (pk_downloads k3 ! i) = 0" "dp_requested (pk_downloads k3 ! i) = 0"
    "dp_state (pk_downloads k3 ! i) = NoSpeed" by (simp_all add: fresh_entry_def)
  let ?k4 = "set_piece x ((pk_map k3 ! x)\<lparr>full := False\<rparr>) k3"
  have "downloads_ok ?k4"
  proof (rule entry_added [OF kd(2) x(1,2)])
    show "view ?k4 = insert_at (lower_bound x (pk_downloads k)) (fresh_entry (pk_blocks_per_piece k) x) (view k)"
      using v3 ad(3) r by simp
    show "like_piece (pk_map k ! y) (pk_map ?k4 ! y)" if "y < length (pk_map k)" "y \<noteq> x" for y
      using sm [OF that(1)] that k3r by (simp add: picker_simps keeps_like same_piece_keeps)
  qed (use ad(2) k3r lm x px in \<open>simp_all add: picker_simps pp_have_def\<close>)
  moreover have "picker_ok ?k4" by (rule set_full_ok [OF p3]) (simp add: k3r lm x)
  moreover have "list_all (\<lambda>p. piece_prio p < 8) (pk_map ?k4)"
  proof -
    have "piece_prio (pk_map k2 ! y) < 8" if "y < length (pk_map k)" for y
      using sm [OF that] that kd(4) [OF that] px(4) same_piece_keeps
      by (cases "y = x") (auto simp: keeps_piece_def)
    then have "list_all (\<lambda>p. piece_prio p < 8) (pk_map k2)" using lm by (simp add: list_all_length)
    then show ?thesis using k3r px(4) by (simp add: picker_simps prio_set)
  qed
  ultimately have "pk_inv ?k4" by (simp add: pk_inv_def)
  moreover have "blocks_at k3 = blocks_at k"
    by (rule blocks_at_inserted [OF kd(2) x(1,2) v3]) (simp add: k3r)
  moreover have "start_download random x k = Some (i, k3)"
    using x(1) k2(1) k3 by (simp add: start_download_def Let_def)
  moreover note blocks_at_none [OF kd(2) x(1,2)]
  ultimately show thesis using that [of i k3] nth en k3r lm px ad(2) fr by metis
qed

text \<open>What holds of the first block of a piece, whatever is written of it next.\<close>

definition ready :: "picker \<Rightarrow> nat \<Rightarrow> nat \<Rightarrow> nat \<Rightarrow> picker \<Rightarrow> bool" where
  "ready k x j i k1 \<longleftrightarrow> (\<forall>b d'.
     (0 < bi_num_peers b \<longleftrightarrow> bi_state b = StateRequested) \<longrightarrow> dp_info d' = dp_info (pk_downloads k1 ! i) \<longrightarrow>
     dp_index d' = x \<longrightarrow>
     dp_requested d' = (if bi_state b = StateRequested then 1 else 0) \<longrightarrow>
     dp_writing d' = (if bi_state b = StateWriting then 1 else 0) \<longrightarrow>
     dp_finished d' = (if bi_state b = StateFinished then 1 else 0) \<longrightarrow>
     (dp_state d' \<noteq> NoSpeed \<longleftrightarrow> dp_requested d' \<noteq> 0) \<longrightarrow>
       (\<exists>k2. update_full i (set_dl i d' (set_block i j b k1)) = Some k2 \<and> pk_inv k2 \<and> frame k k2 \<and>
            blocks_at k2 = (blocks_at k)(x := (blocks_at k x)[j := b])) \<and>
       (\<not> full (pk_map k ! x) \<longrightarrow> frame k (set_dl i d' (set_block i j b k1)) \<and> pk_inv (set_dl i d' (set_block i j b k1)) \<and>
            blocks_at (set_dl i d' (set_block i j b k1)) = (blocks_at k)(x := (blocks_at k x)[j := b])))"

lemma readyD:
  assumes "ready k x j i k1" "0 < bi_num_peers b \<longleftrightarrow> bi_state b = StateRequested"
    "dp_info d' = dp_info (pk_downloads k1 ! i)" "dp_index d' = x"
    "dp_requested d' = (if bi_state b = StateRequested then 1 else 0)"
    "dp_writing d' = (if bi_state b = StateWriting then 1 else 0)"
    "dp_finished d' = (if bi_state b = StateFinished then 1 else 0)"
    "dp_state d' \<noteq> NoSpeed \<longleftrightarrow> dp_requested d' \<noteq> 0"
  shows "\<exists>k2. update_full i (set_dl i d' (set_block i j b k1)) = Some k2 \<and> pk_inv k2 \<and> frame k k2 \<and>
      blocks_at k2 = (blocks_at k)(x := (blocks_at k x)[j := b])"
    "\<not> full (pk_map k ! x) \<Longrightarrow> frame k (set_dl i d' (set_block i j b k1))"
    "\<not> full (pk_map k ! x) \<Longrightarrow> pk_inv (set_dl i d' (set_block i j b k1))"
    "\<not> full (pk_map k ! x) \<Longrightarrow>
      blocks_at (set_dl i d' (set_block i j b k1)) = (blocks_at k)(x := (blocks_at k x)[j := b])"
proof -
  note h = assms(1) [unfolded ready_def, rule_format, OF assms(2-8)]
  show "\<exists>k2. update_full i (set_dl i d' (set_block i j b k1)) = Some k2 \<and> pk_inv k2 \<and> frame k k2 \<and>
      blocks_at k2 = (blocks_at k)(x := (blocks_at k x)[j := b])" using h by blast
  show "frame k (set_dl i d' (set_block i j b k1))" if "\<not> full (pk_map k ! x)" using h that by blast
  show "pk_inv (set_dl i d' (set_block i j b k1))" if "\<not> full (pk_map k ! x)" using h that by blast
  show "blocks_at (set_dl i d' (set_block i j b k1)) = (blocks_at k)(x := (blocks_at k x)[j := b])"
    if "\<not> full (pk_map k ! x)" using h that by blast
qed

lemma new_block:
  assumes k: "pk_inv k" "x < length (pk_map k)" "\<not> downloading (pk_map k ! x)" "\<not> pp_have (pk_map k ! x)"
    and j: "j < blocks_in_piece x k"
  obtains i k1 where "start_download random x k = Some (i, k1)" "vec_at (pk_downloads k1) i = Some (pk_downloads k1 ! i)"
    "block_at i j k1 = Some no_block" "state_at k x j = StateNone" "blocks_at k x ! j = no_block"
    "dp_index (pk_downloads k1 ! i) = x"
    "dp_finished (pk_downloads k1 ! i) = 0" "dp_writing (pk_downloads k1 ! i) = 0" "dp_requested (pk_downloads k1 ! i) = 0"
    "ready k x j i k1"
proof (rule start_download_ok [OF k, of random])
  fix i k1
  assume s: "start_download random x k = Some (i, k1)" "i < length (pk_downloads k1)"
    "dp_index (pk_downloads k1 ! i) = x" "dp_finished (pk_downloads k1 ! i) = 0"
    "dp_writing (pk_downloads k1 ! i) = 0" "dp_requested (pk_downloads k1 ! i) = 0"
    "dp_state (pk_downloads k1 ! i) = NoSpeed"
    "pk_inv (set_piece x ((pk_map k1 ! x)\<lparr>full := False\<rparr>) k1)" "blocks_at k1 = blocks_at k"
    "length (pk_map k1) = length (pk_map k)" "full (pk_map k1 ! x) = full (pk_map k ! x)"
    "pk_blocks_per_piece k1 = pk_blocks_per_piece k" "pk_blocks_in_last_piece k1 = pk_blocks_in_last_piece k"
    "blocks_at k x = replicate (pk_blocks_per_piece k) no_block" "storage_ok k1" "snd (view k1 ! i) = blocks_at k x" "frame k k1"
  let ?k1 = "set_piece x ((pk_map k1 ! x)\<lparr>full := False\<rparr>) k1"
  have jn: "j < pk_blocks_per_piece k" using j blocks_in_piece_bounds(2) [OF pk_invD(2) [OF k(1)]] by (rule less_le_trans)
  have ba: "block_at i j k1 = Some no_block" using block_at_view [OF s(15,2)] s jn by simp
  have st: "state_at k x j = StateNone" using s(14) jn by (simp add: state_at_def)
  have f: "blocks_at ?k1 = blocks_at k" using s(9) blocks_at_same [of ?k1 k1] by simp
  then have st1: "state_at ?k1 x j = StateNone" using jn by (simp add: state_at_def s(14))
  have ds: "pk_downloads ?k1 = pk_downloads k1" by (simp add: picker_simps)
  have bp: "blocks_in_piece x ?k1 = blocks_in_piece x k" using s by (simp add: blocks_in_piece_def picker_simps)
  have "frame k1 ?k1" by (rule frame_set) (simp add: pp_have_def)
  then have fk: "frame k ?k1" by (rule frame_trans [OF s(17)])
  have main: "(\<exists>k2. update_full i (set_dl i d' (set_block i j b k1)) = Some k2 \<and> pk_inv k2 \<and> frame k k2 \<and>
            blocks_at k2 = (blocks_at k)(x := (blocks_at k x)[j := b])) \<and>
         (\<not> full (pk_map k ! x) \<longrightarrow> frame k (set_dl i d' (set_block i j b k1)) \<and> pk_inv (set_dl i d' (set_block i j b k1)) \<and>
            blocks_at (set_dl i d' (set_block i j b k1)) = (blocks_at k)(x := (blocks_at k x)[j := b]))"
    if h: "0 < bi_num_peers b \<longleftrightarrow> bi_state b = StateRequested" "dp_info d' = dp_info (pk_downloads k1 ! i)" "dp_index d' = x"
      "dp_requested d' = (if bi_state b = StateRequested then 1 else 0)"
      "dp_writing d' = (if bi_state b = StateWriting then 1 else 0)"
      "dp_finished d' = (if bi_state b = StateFinished then 1 else 0)"
      "dp_state d' \<noteq> NoSpeed \<longleftrightarrow> dp_requested d' \<noteq> 0" for b d'
  proof -
    let ?k2 = "set_dl i d' (set_block i j b ?k1)"
    have st: "?k2 = set_piece x ((pk_map k1 ! x)\<lparr>full := False\<rparr>) (set_dl i d' (set_block i j b k1))"
      by (simp add: set_dl_def set_block_def set_piece_def)
    have h': "dp_requested d' = dp_requested (pk_downloads ?k1 ! i) + (if bi_state b = StateRequested then 1 else 0) -
        (if StateNone = StateRequested then 1 else 0)"
      "dp_writing d' = dp_writing (pk_downloads ?k1 ! i) + (if bi_state b = StateWriting then 1 else 0) -
        (if StateNone = StateWriting then 1 else 0)"
      "dp_finished d' = dp_finished (pk_downloads ?k1 ! i) + (if bi_state b = StateFinished then 1 else 0) -
        (if StateNone = StateFinished then 1 else 0)"
      using h s by (simp_all add: picker_simps)
    note bl = block_step [OF s(8), unfolded ds, OF s(2,3), unfolded bp, OF j h(2,3,1) st1 [symmetric] refl
        h'(1) [unfolded ds] h'(2) [unfolded ds] h'(3) [unfolded ds] h(7)]
    have "update_full i ?k2 = update_full i (set_dl i d' (set_block i j b k1))"
    proof -
      have "x < length (pk_map k1)" "dp_index ((pk_downloads k1)[i := d'] ! i) = x" using s k h by simp_all
      then show ?thesis unfolding st
        using s(2) h(3) by (simp add: update_full_def picker_simps blocks_in_piece_def set_piece_def set_dl_def set_block_def)
    qed
    with bl(2,3) f frame_trans [OF fk]
    have "\<exists>k2. update_full i (set_dl i d' (set_block i j b k1)) = Some k2 \<and> pk_inv k2 \<and> frame k k2 \<and>
            blocks_at k2 = (blocks_at k)(x := (blocks_at k x)[j := b])" by auto
    moreover have "frame k (set_dl i d' (set_block i j b k1)) \<and> pk_inv (set_dl i d' (set_block i j b k1)) \<and>
            blocks_at (set_dl i d' (set_block i j b k1)) = (blocks_at k)(x := (blocks_at k x)[j := b])"
      if nf: "\<not> full (pk_map k ! x)"
    proof -
      have "\<not> full (pk_map k1 ! x)" using nf s(11) by simp
      then have "(pk_map k1 ! x)\<lparr>full := False\<rparr> = pk_map k1 ! x" by (cases "pk_map k1 ! x") simp
      then have "?k1 = k1" by (simp add: set_piece_def)
      with bl(1,3) f fk show ?thesis by auto
    qed
    ultimately show ?thesis by blast
  qed
  show thesis
    by (rule that [OF s(1) _ ba st _ s(3-6)]) (use s(2,14) jn main in \<open>simp_all add: ready_def\<close>)
qed

subsection \<open>A download ends\<close>

lemma drop_empty_ok:
  assumes k: "pk_inv k" and i: "i < length (pk_downloads k)" "dp_index (pk_downloads k ! i) = x"
  shows "\<exists>k'. drop_empty random x i k = Some k' \<and> pk_inv k' \<and>
    blocks_at k' = (blocks_at k)(x := replicate (pk_blocks_per_piece k) no_block) \<and> frame k k'"
proof -
  note kd = pk_invD [OF k]
  have xl: "x < length (pk_map k)" using view_entry(1) [OF kd(2) i(1)] i(2) by simp
  let ?p = "(pk_map k ! x)\<lparr>downloading := False\<rparr>"
  from erase_download_view [OF downloadsD(1) [OF kd(2)] i(1)] xl i(2) obtain k1 where
    e: "erase_download_piece i k = Some k1" "view k1 = erase_at i (view k)" "storage_ok k1"
    "k1 = (set_piece x ?p k)\<lparr>pk_downloads := pk_downloads k1, pk_block_info := pk_block_info k1\<rparr>" by auto
  have same: "pp_have ?p = pp_have (pk_map k ! x)" "filtered ?p = filtered (pk_map k ! x)"
    by (simp_all add: pp_have_def filtered_def)
  note sp = set_piece_settled [OF kd(1) xl same]
  have m1: "pk_map k1 = (pk_map k)[x := ?p]" "pk_seeds k1 = pk_seeds k" "pk_dirty k1 = pk_dirty k"
    "pk_blocks_per_piece k1 = pk_blocks_per_piece k" "pk_blocks_in_last_piece k1 = pk_blocks_in_last_piece k"
    by (subst e(4), simp add: picker_simps)+
  have ch: "piece_changed x ?p k k1" using sp(1) by (subst e(4)) (simp add: piece_changed_def)
  have cu: "cursors_ok (pk_map k1) (pk_cursor k1) (pk_reverse_cursor k1)" using sp(2) by (subst (1 2 3) e(4)) simp
  have co: "counters_ok k1" using sp(3) by (subst e(4)) (simp add: counters_ok_def)
  have "\<exists>k'. (if (prio_of k x = priority (pk_seeds k) ?p) \<or> pk_dirty k1 then Some k1
      else resort random x (prio_of k x) k1) = Some k' \<and> picker_ok k' \<and> reindexed k1 k'"
    by (rule settle_ok [OF kd(1) ch _ cu co refl refl]) simp
  then obtain k' where k': "(if (prio_of k x = priority (pk_seeds k) ?p) \<or> pk_dirty k1 then Some k1
      else resort random x (prio_of k x) k1) = Some k'" "picker_ok k'" "reindexed k1 k'" by blast
  have "drop_empty random x i k = (if (prio_of k x = priority (pk_seeds k) ?p) \<or> pk_dirty k1 then Some k1
      else resort random x (prio_of k x) k1)"
    using xl e(1) m1 by (auto simp: drop_empty_def Let_def)
  then have d: "drop_empty random x i k = Some k'" using k'(1) by simp
  have "downloads_ok k1"
    by (rule entry_erased [OF kd(2) i(1) i(2) [symmetric] e(2,3)]) (use i m1 xl in \<open>simp_all add: like_piece_def\<close>)
  moreover have "keeps k1 k'" by (rule keeps_reindexed [OF keeps_refl k'(3)])
  ultimately have dk: "downloads_ok k'" "view k' = view k1" using downloads_keeps by blast+
  have bp: "pk_blocks_per_piece k' = pk_blocks_per_piece k" using reindexed_keeps(8) [OF k'(3)] m1 by simp
  have "list_all (\<lambda>p. piece_prio p < 8) (pk_map k1)" using prio_set [OF kd(3), of ?p x] kd(4) [OF xl] m1 by simp
  then have "list_all (\<lambda>p. piece_prio p < 8) (pk_map k')"
    using \<open>keeps k1 k'\<close> by (auto simp: keeps_def list_all2_conv_all_nth list_all_length keeps_piece_def)
  with dk k'(2) have "pk_inv k'" by (simp add: pk_inv_def)
  moreover have "blocks_at k' = (blocks_at k)(x := replicate (pk_blocks_per_piece k) no_block)"
    by (rule blocks_at_erased [OF kd(2) i _ bp]) (simp add: dk(2) e(2))
  moreover have "frame k k'"
  proof -
    have "frame k (set_piece x ?p k)" by (rule frame_set [OF same(1)])
    then have "frame k k1" by (subst e(4)) (simp add: frame_def)
    with frame_reindexed [OF k'(3)] frame_trans show ?thesis by blast
  qed
  ultimately show ?thesis using d by blast
qed

text \<open>The speed of an entry does not matter when it is erased.\<close>

lemma erase_at_update [simp]: "erase_at i (xs[i := y]) = erase_at i xs"
  by (simp add: erase_at_def)

lemma first_update:
  assumes "f d = f (xs ! i)" "i < length xs"
  shows "takeWhile (\<lambda>e. f e \<noteq> v) (xs[i := d]) = (takeWhile (\<lambda>e. f e \<noteq> v) xs)[i := d]"
  using assms
proof (induction xs arbitrary: i)
  case (Cons a xs)
  then show ?case by (cases i) auto
qed simp

lemma drop_empty_speed:
  assumes "i < length (pk_downloads k)" "dp_info d = dp_info (pk_downloads k ! i)"
    "dp_index d = dp_index (pk_downloads k ! i)"
  shows "drop_empty random x i (set_dl i d k) = drop_empty random x i k"
proof -
  let ?n = "pk_blocks_per_piece k" and ?ds = "pk_downloads k"
  let ?o = "length (takeWhile (\<lambda>e. dp_info e \<noteq> (length ?ds - 1) * ?n) ?ds)"
  have o: "length (takeWhile (\<lambda>e. dp_info e \<noteq> (length ?ds - 1) * ?n) (?ds[i := d])) = ?o"
    using first_update [of dp_info d ?ds i] assms by simp
  have u: "erase_at i ((?ds[i := d])[l := e]) = erase_at i (?ds[l := e])" if "i \<noteq> l" for l e
    using that by (simp add: list_update_swap [of i l])
  have "erase_download_piece i (set_dl i d k) = erase_download_piece i k"
    using assms o u
    by (cases "?o = i") (auto simp: erase_download_piece_def set_dl_def vec_at_def Let_def split: bind_splits)
  then show ?thesis by (simp add: drop_empty_def set_dl_def)
qed

lemma restore_drop: "find_dl_piece x k = Some i \<Longrightarrow> restore_piece random x k = drop_empty random x i k"
  unfolding restore_piece_def drop_empty_def
  by (cases "vec_at (pk_map k) x") (auto simp: Let_def disj_commute split: bind_splits)

lemma entry_facts:
  assumes k: "pk_inv k" and i: "i < length (pk_downloads k)" "dp_index (pk_downloads k ! i) = x"
    and j: "j < blocks_in_piece x k"
  shows "block_at i j k = Some (blocks_at k x ! j)" "state_at k x j = bi_state (blocks_at k x ! j)"
    "peers_at k x j = bi_num_peers (blocks_at k x ! j)"
    "0 < bi_num_peers (blocks_at k x ! j) \<longleftrightarrow> bi_state (blocks_at k x ! j) = StateRequested"
    "dp_state (pk_downloads k ! i) \<noteq> NoSpeed \<longleftrightarrow> dp_requested (pk_downloads k ! i) \<noteq> 0"
    "0 \<le> dp_requested (pk_downloads k ! i)"
    "bi_state (blocks_at k x ! j) = StateRequested \<Longrightarrow> 0 < dp_requested (pk_downloads k ! i)"
    "j < pk_blocks_per_piece k"
proof -
  note kd = pk_invD [OF k]
  let ?n = "blocks_in_piece x k" and ?bs = "snd (view k ! i)" and ?d = "pk_downloads k ! i"
  show jn: "j < pk_blocks_per_piece k" using j blocks_in_piece_bounds(2) [OF kd(2)] by (rule less_le_trans)
  have bs: "blocks_at k x = ?bs" by (rule blocks_at_nth [OF kd(2) i])
  have l: "j < length (blocks_at k x)" using blocks_at_length [OF kd(2)] jn by simp
  show "block_at i j k = Some (blocks_at k x ! j)" using block_at_view [OF downloadsD(1) [OF kd(2)] i(1) jn] bs by simp
  show "state_at k x j = bi_state (blocks_at k x ! j)" "peers_at k x j = bi_num_peers (blocks_at k x ! j)"
    using l by (simp_all add: state_at_def peers_at_def)
  have e: "entry_ok ?n (full (pk_map k ! x)) (view k ! i)" using view_entry(3) [OF kd(2) i(1)] i(2) by simp
  have tn: "take ?n ?bs ! j = ?bs ! j" "j < length (take ?n ?bs)" using j l bs by simp_all
  then have "?bs ! j \<in> set (take ?n ?bs)" by (metis nth_mem)
  with e bs show "0 < bi_num_peers (blocks_at k x ! j) \<longleftrightarrow> bi_state (blocks_at k x ! j) = StateRequested"
    by (simp add: entry_ok_def Let_def)
  have f: "fst (view k ! i) = ?d\<lparr>dp_info := 0\<rparr>" using i(1) by (simp add: view_nth)
  show "dp_state ?d \<noteq> NoSpeed \<longleftrightarrow> dp_requested ?d \<noteq> 0" "0 \<le> dp_requested ?d"
    using e in_state_nonneg f by (simp_all add: entry_ok_def Let_def)
  show "bi_state (blocks_at k x ! j) = StateRequested \<Longrightarrow> 0 < dp_requested ?d"
    using e f in_state_pos [OF tn(2)] tn(1) bs by (simp add: entry_ok_def Let_def)
qed

end
