(* ===== verification/PickerOps.thy ===== *)
theory PickerOps
  imports PickerMap
begin

section \<open>Every operation of the piece picker on blocks is one update of the map\<close>

text \<open>
  The theorems of the operations: under the assertions the source makes at its start, an operation ends
  without reading outside a vector, keeps the invariant \<open>pk_inv\<close>, and changes the state of one block
  (or, when a download is thrown away or complete, the blocks of one piece).
\<close>

lemma existing_entry:
  assumes "pk_inv k" "x < length (pk_map k)" "downloading (pk_map k ! x)"
  obtains i where "find_dl_piece x k = Some i" "i < length (pk_downloads k)" "dp_index (pk_downloads k ! i) = x"
    "vec_at (pk_downloads k) i = Some (pk_downloads k ! i)" "vec_at (pk_map k) x = Some (pk_map k ! x)"
  using find_dl_some(1) [OF pk_invD(2) [OF assms(1)] assms(2,3)] assms(2) by auto

lemma state_step:
  assumes "pk_inv k" "j < blocks_in_piece x k" "blocks_at k' = (blocks_at k)(x := (blocks_at k x)[j := b])"
  shows "state_at k' = (state_at k)(x := (state_at k x)(j := bi_state b))"
  using state_at_updated [OF pk_invD(2) [OF assms(1)] assms(3)] assms(2)
    blocks_in_piece_bounds(2) [OF pk_invD(2) [OF assms(1)], of x] by simp

lemma peers_step:
  assumes "pk_inv k" "j < blocks_in_piece x k" "blocks_at k' = (blocks_at k)(x := (blocks_at k x)[j := b])"
  shows "peers_at k' = (peers_at k)(x := (peers_at k x)(j := bi_num_peers b))"
  using peers_at_updated [OF pk_invD(2) [OF assms(1)] assms(3)] assms(2)
    blocks_in_piece_bounds(2) [OF pk_invD(2) [OF assms(1)], of x] by simp

lemma peers_same: "peers_at k x j = n \<Longrightarrow> (peers_at k)(x := (peers_at k x)(j := n)) = peers_at k"
  by auto

lemma peers_unrequested:
  assumes "pk_inv k" "i < length (pk_downloads k)" "dp_index (pk_downloads k ! i) = x" "j < blocks_in_piece x k"
    "state_at k x j \<noteq> StateRequested"
  shows "peers_at k x j = 0"
  using entry_facts(2-4) [OF assms(1-4)] assms(5) by simp

lemma state_same: "(state_at k)(x := (state_at k x)(j := state_at k x j)) = state_at k"
  by simp

lemma set_dl_id: "i < length (pk_downloads k) \<Longrightarrow> set_dl i (pk_downloads k ! i) (set_block i j b k) = set_block i j b k"
  by (simp add: set_dl_def set_block_def)

text \<open>Only the peer of a block and the number of peers that have requested it change.\<close>

lemma peer_step:
  assumes k: "pk_inv k" and i: "i < length (pk_downloads k)" "dp_index (pk_downloads k ! i) = x"
    and j: "j < blocks_in_piece x k" and b: "bi_state b = state_at k x j" "0 < bi_num_peers b \<longleftrightarrow> bi_state b = StateRequested"
  shows "pk_inv (set_block i j b k)" "state_at (set_block i j b k) = state_at k"
    "blocks_at (set_block i j b k) = (blocks_at k)(x := (blocks_at k x)[j := b])"
proof -
  note ef = entry_facts [OF k i j]
  have f: "full (pk_map k ! x) \<longrightarrow> bi_state b \<noteq> StateNone \<or> state_at k x j = StateNone"
    using b(1) by simp
  have c: "pk_inv (set_dl i (pk_downloads k ! i) (set_block i j b k))"
    "blocks_at (set_dl i (pk_downloads k ! i) (set_block i j b k)) = (blocks_at k)(x := (blocks_at k x)[j := b])"
    using block_step(1,3) [OF k i j refl i(2) b(2) refl refl _ _ _ ef(5)] f b(1) by simp_all
  then show "pk_inv (set_block i j b k)" "blocks_at (set_block i j b k) = (blocks_at k)(x := (blocks_at k x)[j := b])"
    unfolding set_dl_id [OF i(1)] by simp_all
  from state_step [OF k j this(2)] b(1) show "state_at (set_block i j b k) = state_at k" by simp
qed


lemma same_after_full:
  assumes "update_full i (set_dl i d1 k) = Some k1" "i < length (pk_downloads k)"
    "dp_index d2 = dp_index d1" "dp_requested d2 = dp_requested d1" "dp_finished d2 = dp_finished d1"
    "dp_writing d2 = dp_writing d1"
  shows "update_full i (set_dl i d2 k) = Some (set_dl i d2 k1)" "pk_downloads k1 ! i = d1" "i < length (pk_downloads k1)"
  using assms by (auto simp: update_full_def set_dl_def set_piece_def vec_at_def blocks_in_piece_def split: if_splits)

theorem mark_as_downloading_peers:
  assumes k: "pk_inv k" and x: "x < length (pk_map k)" "\<not> pp_have (pk_map k ! x)" and j: "j < blocks_in_piece x k"
    and st: "st \<noteq> NoSpeed" and np: "peers_at k x j < 16383"
  shows "\<exists>r k'. mark_as_downloading random x j peer st k = Some (r, k') \<and> pk_inv k' \<and>
    frame k k' \<and> (r \<longleftrightarrow> state_at k x j \<noteq> StateWriting \<and> state_at k x j \<noteq> StateFinished) \<and>
    state_at k' = (if r then (state_at k)(x := (state_at k x)(j := StateRequested)) else state_at k) \<and>
    peers_at k' = (if r then (peers_at k)(x := (peers_at k x)(j := peers_at k x j + 1)) else peers_at k)"
proof (cases "downloading (pk_map k ! x)")
  case False
  obtain i k1 where s: "start_download random x k = Some (i, k1)"
    "vec_at (pk_downloads k1) i = Some (pk_downloads k1 ! i)" "block_at i j k1 = Some no_block"
    "state_at k x j = StateNone" "dp_index (pk_downloads k1 ! i) = x" "dp_finished (pk_downloads k1 ! i) = 0"
    "dp_writing (pk_downloads k1 ! i) = 0" "dp_requested (pk_downloads k1 ! i) = 0" "ready k x j i k1"
    by (rule new_block [OF k x(1) False x(2) j, of random])
  let ?b = "no_block\<lparr>bi_state := StateRequested, bi_peer := peer, bi_num_peers := 1\<rparr>"
  let ?d = "(pk_downloads k1 ! i)\<lparr>dp_state := st, dp_requested := dp_requested (pk_downloads k1 ! i) + 1\<rparr>"
  obtain k2 where k2: "update_full i (set_dl i ?d (set_block i j ?b k1)) = Some k2" "pk_inv k2" "frame k k2"
    "blocks_at k2 = (blocks_at k)(x := (blocks_at k x)[j := ?b])"
    using readyD(1) [OF s(9), of ?b ?d] s st by auto
  have "peers_at k x j = 0" using blocks_at_none [OF pk_invD(2) [OF k] x(1) False] by (simp add: peers_at_def)
  with state_step [OF k j k2(4)] peers_step [OF k j k2(4)] k2 False x s show ?thesis
    by (intro exI [of _ True] exI [of _ k2]) (simp add: mark_as_downloading_def Let_def)
next
  case True
  obtain i where i: "find_dl_piece x k = Some i" "i < length (pk_downloads k)" "dp_index (pk_downloads k ! i) = x"
    "vec_at (pk_downloads k) i = Some (pk_downloads k ! i)" "vec_at (pk_map k) x = Some (pk_map k ! x)"
    by (rule existing_entry [OF k x(1) True])
  note ef = entry_facts [OF k i(2,3) j]
  let ?d = "pk_downloads k ! i" and ?b = "blocks_at k x ! j"
  let ?b1 = "?b\<lparr>bi_peer := peer, bi_state := StateRequested, bi_num_peers := (bi_num_peers ?b + 1) mod 16384\<rparr>"
  have np1: "0 < bi_num_peers ?b1" using np ef(3) by simp
  consider (late) "state_at k x j = StateWriting \<or> state_at k x j = StateFinished"
    | (again) "state_at k x j = StateRequested" | (first) "state_at k x j = StateNone"
    by (cases "state_at k x j") auto
  then show ?thesis
  proof cases
    case late
    with i ef True k show ?thesis
      by (intro exI [of _ False] exI [of _ k]) (auto simp: mark_as_downloading_def)
  next
    case again
    note ps = peer_step [OF k i(2,3) j, of ?b1]
    have nd: "dp_state ?d \<noteq> NoSpeed" using ef(5,7) again ef(2) by auto
    have "mark_as_downloading random x j peer st k = Some (True, set_block i j ?b1 k)"
      using i ef(1,2) True again nd by (simp add: mark_as_downloading_def Let_def)
    moreover have "bi_num_peers ?b1 = peers_at k x j + 1" using np ef(3) by simp
    ultimately show ?thesis using ps again np1 state_same [of k x j] peers_step [OF k j, of "set_block i j ?b1 k" ?b1]
      by (intro exI [of _ True] exI [of _ "set_block i j ?b1 k"]) (simp only: again, simp)
  next
    case first
    define b1 where "b1 = ?b1"
    define d1 where "d1 = ?d\<lparr>dp_requested := dp_requested ?d + 1\<rparr>"
    define d2 where "d2 = (if dp_state d1 = NoSpeed then d1\<lparr>dp_state := st\<rparr> else d1)"
    have b1: "bi_state b1 = StateRequested" "0 < bi_num_peers b1 \<longleftrightarrow> bi_state b1 = StateRequested"
      using np1 by (simp_all add: b1_def)
    have d2: "dp_info d2 = dp_info ?d" "dp_index d2 = x" "dp_state d2 \<noteq> NoSpeed \<longleftrightarrow> dp_requested d2 \<noteq> 0"
      "dp_requested d2 = dp_requested ?d + (if bi_state b1 = StateRequested then 1 else 0) -
        (if state_at k x j = StateRequested then 1 else 0)"
      "dp_writing d2 = dp_writing ?d + (if bi_state b1 = StateWriting then 1 else 0) -
        (if state_at k x j = StateWriting then 1 else 0)"
      "dp_finished d2 = dp_finished ?d + (if bi_state b1 = StateFinished then 1 else 0) -
        (if state_at k x j = StateFinished then 1 else 0)"
      using st i(3) b1 ef(6) first by (auto simp: d2_def d1_def)
    note step = block_step(2,3) [OF k i(2,3) j d2(1,2) b1(2) refl refl d2(4,5,6,3)]
    have "x < length (pk_map k)" by (rule x(1))
    then obtain k2 where k2: "update_full i (set_dl i d1 (set_block i j b1 k)) = Some k2"
      using update_full_eq [of i "set_dl i d1 (set_block i j b1 k)" x] i by (simp add: d1_def)
    have same: "dp_index d2 = dp_index d1" "dp_requested d2 = dp_requested d1" "dp_finished d2 = dp_finished d1"
      "dp_writing d2 = dp_writing d1" by (simp_all add: d2_def)
    have sa: "update_full i (set_dl i d2 (set_block i j b1 k)) = Some (set_dl i d2 k2)"
      "pk_downloads k2 ! i = d1" "i < length (pk_downloads k2)"
      using same_after_full [OF k2 _ same] i(2) by simp_all
    have "mark_as_downloading random x j peer st k = Some (True, set_dl i d2 k2)"
    proof -
      have id: "set_dl i d1 k2 = k2" using sa(2,3) by (auto simp: set_dl_def)
      have "mark_as_downloading random x j peer st k =
          Some (True, if dp_state d1 = NoSpeed then set_dl i (d1\<lparr>dp_state := st\<rparr>) k2 else k2)"
        using i ef(1,2) True first k2 sa(2,3) by (simp add: mark_as_downloading_def Let_def d1_def b1_def)
      then show ?thesis using id by (simp add: d2_def)
    qed
    moreover have k': "pk_inv (set_dl i d2 k2)" "frame k (set_dl i d2 k2)" "blocks_at (set_dl i d2 k2) = (blocks_at k)(x := (blocks_at k x)[j := b1])"
      using step sa(1) by auto
    moreover have "state_at (set_dl i d2 k2) = (state_at k)(x := (state_at k x)(j := StateRequested))"
      using state_step [OF k j k'(3)] b1(1) by simp
    moreover have "peers_at (set_dl i d2 k2) = (peers_at k)(x := (peers_at k x)(j := peers_at k x j + 1))"
      using peers_step [OF k j k'(3)] np ef(3) by (simp add: b1_def)
    ultimately show ?thesis using first by (intro exI [of _ True] exI [of _ "set_dl i d2 k2"]) simp
  qed
qed

theorem mark_as_downloading_ok:
  assumes "pk_inv k" "x < length (pk_map k)" "\<not> pp_have (pk_map k ! x)" "j < blocks_in_piece x k"
    "st \<noteq> NoSpeed" "peers_at k x j < 16383"
  shows "\<exists>r k'. mark_as_downloading random x j peer st k = Some (r, k') \<and> pk_inv k' \<and>
    frame k k' \<and> (r \<longleftrightarrow> state_at k x j \<noteq> StateWriting \<and> state_at k x j \<noteq> StateFinished) \<and>
    state_at k' = (if r then (state_at k)(x := (state_at k x)(j := StateRequested)) else state_at k)"
  using mark_as_downloading_peers [OF assms, of random peer] by blast

theorem mark_as_writing_peers:
  assumes k: "pk_inv k" and x: "x < length (pk_map k)" and j: "j < blocks_in_piece x k"
  shows "\<exists>r k'. mark_as_writing random x j peer k = Some (r, k') \<and> pk_inv k' \<and>
    frame k k' \<and> (r \<longleftrightarrow> \<not> pp_have (pk_map k ! x) \<and> state_at k x j \<noteq> StateWriting \<and> state_at k x j \<noteq> StateFinished) \<and>
    state_at k' = (if r then (state_at k)(x := (state_at k x)(j := StateWriting)) else state_at k) \<and>
    peers_at k' = (peers_at k)(x := (peers_at k x)(j := 0))"
proof (cases "downloading (pk_map k ! x)")
  case False
  have p0: "(peers_at k)(x := (peers_at k x)(j := 0)) = peers_at k"
    using blocks_at_none [OF pk_invD(2) [OF k] x False] by (intro peers_same) (simp add: peers_at_def)
  show ?thesis
  proof (cases "pp_have (pk_map k ! x)")
    case True
    with False x k p0 show ?thesis by (intro exI [of _ False] exI [of _ k]) (simp add: mark_as_writing_def)
  next
    case h: False
    obtain i k1 where s: "start_download random x k = Some (i, k1)"
      "vec_at (pk_downloads k1) i = Some (pk_downloads k1 ! i)" "block_at i j k1 = Some no_block"
      "state_at k x j = StateNone" "dp_index (pk_downloads k1 ! i) = x" "dp_finished (pk_downloads k1 ! i) = 0"
      "dp_writing (pk_downloads k1 ! i) = 0" "dp_requested (pk_downloads k1 ! i) = 0" "ready k x j i k1"
      by (rule new_block [OF k x False h j, of random])
    let ?b = "no_block\<lparr>bi_state := StateWriting, bi_peer := peer, bi_num_peers := 0\<rparr>"
    let ?d = "(pk_downloads k1 ! i)\<lparr>dp_state := NoSpeed, dp_writing := 1\<rparr>"
    obtain k2 where k2: "update_full i (set_dl i ?d (set_block i j ?b k1)) = Some k2" "pk_inv k2" "frame k k2"
      "blocks_at k2 = (blocks_at k)(x := (blocks_at k x)[j := ?b])"
      using readyD(1) [OF s(9), of ?b ?d] s by auto
    with state_step [OF k j k2(4)] peers_step [OF k j k2(4)] False h x s show ?thesis
      by (intro exI [of _ True] exI [of _ k2]) (simp add: mark_as_writing_def Let_def)
  qed
next
  case True
  obtain i where i: "find_dl_piece x k = Some i" "i < length (pk_downloads k)" "dp_index (pk_downloads k ! i) = x"
    "vec_at (pk_downloads k) i = Some (pk_downloads k ! i)" "vec_at (pk_map k) x = Some (pk_map k ! x)"
    by (rule existing_entry [OF k x True])
  note ef = entry_facts [OF k i(2,3) j]
  have h: "\<not> pp_have (pk_map k ! x)" using view_entry(2) [OF pk_invD(2) [OF k] i(2)] i(3) by simp
  let ?d = "pk_downloads k ! i" and ?b = "blocks_at k x ! j"
  show ?thesis
  proof (cases "state_at k x j = StateWriting \<or> state_at k x j = StateFinished")
    case late: True
    let ?b1 = "?b\<lparr>bi_peer := peer\<rparr>"
    have "mark_as_writing random x j peer k = Some (False, set_block i j ?b1 k)"
      using i ef(1,2) True late by (simp add: mark_as_writing_def Let_def)
    moreover have "bi_num_peers ?b1 = 0" using ef(2,4) late by auto
    moreover note ps = peer_step [OF k i(2,3) j, of ?b1] peers_step [OF k j, of "set_block i j ?b1 k" ?b1]
    ultimately show ?thesis using ef(2,4) late h
      by (intro exI [of _ False] exI [of _ "set_block i j ?b1 k"]) auto
  next
    case False
    define b1 where "b1 = ?b\<lparr>bi_peer := peer, bi_state := StateWriting, bi_num_peers := 0\<rparr>"
    define d1 where "d1 = (if state_at k x j = StateRequested then ?d\<lparr>dp_requested := dp_requested ?d - 1\<rparr> else ?d)"
    define d2 where "d2 = d1\<lparr>dp_writing := dp_writing d1 + 1\<rparr>"
    define d3 where "d3 = (if dp_requested d2 = 0 then d2\<lparr>dp_state := NoSpeed\<rparr> else d2)"
    have b1: "bi_state b1 = StateWriting" "0 < bi_num_peers b1 \<longleftrightarrow> bi_state b1 = StateRequested"
      by (simp_all add: b1_def)
    have d3: "dp_info d3 = dp_info ?d" "dp_index d3 = x" "dp_state d3 \<noteq> NoSpeed \<longleftrightarrow> dp_requested d3 \<noteq> 0"
      "dp_requested d3 = dp_requested ?d + (if bi_state b1 = StateRequested then 1 else 0) -
        (if state_at k x j = StateRequested then 1 else 0)"
      "dp_writing d3 = dp_writing ?d + (if bi_state b1 = StateWriting then 1 else 0) -
        (if state_at k x j = StateWriting then 1 else 0)"
      "dp_finished d3 = dp_finished ?d + (if bi_state b1 = StateFinished then 1 else 0) -
        (if state_at k x j = StateFinished then 1 else 0)"
      using i(3) b1 ef(2,5,7) False by (auto simp: d3_def d2_def d1_def)
    note step = block_step(1,3) [OF k i(2,3) j d3(1,2) b1(2) refl refl d3(4,5,6,3)]
    let ?k' = "set_dl i d3 (set_block i j b1 k)"
    have "mark_as_writing random x j peer k = Some (True, ?k')"
      using i ef(1,2) True False by (simp add: mark_as_writing_def Let_def b1_def d1_def d2_def d3_def)
    moreover have "bi_num_peers b1 = 0" by (simp add: b1_def)
    ultimately show ?thesis using step b1(1) state_step [OF k j step(2)] peers_step [OF k j step(2)] False h
      by (intro exI [of _ True] exI [of _ ?k']) simp
  qed
qed

theorem mark_as_writing_ok:
  assumes "pk_inv k" "x < length (pk_map k)" "j < blocks_in_piece x k"
  shows "\<exists>r k'. mark_as_writing random x j peer k = Some (r, k') \<and> pk_inv k' \<and>
    frame k k' \<and> (r \<longleftrightarrow> \<not> pp_have (pk_map k ! x) \<and> state_at k x j \<noteq> StateWriting \<and> state_at k x j \<noteq> StateFinished) \<and>
    state_at k' = (if r then (state_at k)(x := (state_at k x)(j := StateWriting)) else state_at k)"
  using mark_as_writing_peers [OF assms, of random peer] by blast

text \<open>
  \<^verbatim>\<open>mark_as_finished\<close> does not call \<^verbatim>\<open>update_full\<close>: on a new entry the flag of the piece must not be set
  already; and a block that peers are asked for must first be written.
\<close>

theorem mark_as_finished_peers:
  assumes k: "pk_inv k" and x: "x < length (pk_map k)" and j: "j < blocks_in_piece x k"
    and req: "state_at k x j \<noteq> StateRequested" and fl: "downloading (pk_map k ! x) \<or> \<not> full (pk_map k ! x)"
  shows "\<exists>k'. mark_as_finished random x j peer k = Some k' \<and> pk_inv k' \<and> frame k k' \<and>
    state_at k' = (if pp_have (pk_map k ! x) then state_at k else (state_at k)(x := (state_at k x)(j := StateFinished))) \<and>
    peers_at k' = peers_at k"
proof (cases "downloading (pk_map k ! x)")
  case False
  show ?thesis
  proof (cases "pp_have (pk_map k ! x)")
    case True
    with False x k show ?thesis by (simp add: mark_as_finished_def)
  next
    case h: False
    obtain i k1 where s: "start_download random x k = Some (i, k1)"
      "vec_at (pk_downloads k1) i = Some (pk_downloads k1 ! i)" "block_at i j k1 = Some no_block"
      "state_at k x j = StateNone" "dp_index (pk_downloads k1 ! i) = x" "dp_finished (pk_downloads k1 ! i) = 0"
      "dp_writing (pk_downloads k1 ! i) = 0" "dp_requested (pk_downloads k1 ! i) = 0" "ready k x j i k1"
      by (rule new_block [OF k x False h j, of random])
    define b where "b = no_block\<lparr>bi_peer := peer, bi_state := StateFinished\<rparr>"
    define d where "d = (pk_downloads k1 ! i)\<lparr>dp_state := NoSpeed, dp_finished := dp_finished (pk_downloads k1 ! i) + 1\<rparr>"
    let ?k' = "set_dl i d (set_block i j b k1)"
    have nf: "\<not> full (pk_map k ! x)" using fl False by simp
    have k': "frame k ?k'" "pk_inv ?k'" "blocks_at ?k' = (blocks_at k)(x := (blocks_at k x)[j := b])"
      using readyD(2,3,4) [OF s(9) _ _ _ _ _ _ _ nf, of b d] s by (simp_all add: b_def d_def)
    have "mark_as_finished random x j peer k = Some ?k'"
      using False h x s by (simp add: mark_as_finished_def Let_def b_def d_def)
    moreover have "peers_at k x j = 0" using blocks_at_none [OF pk_invD(2) [OF k] x False] by (simp add: peers_at_def)
    ultimately show ?thesis using k' state_step [OF k j k'(3)] peers_step [OF k j k'(3)] peers_same [of k x j 0] h
      by (simp add: b_def)
  qed
next
  case True
  obtain i where i: "find_dl_piece x k = Some i" "i < length (pk_downloads k)" "dp_index (pk_downloads k ! i) = x"
    "vec_at (pk_downloads k) i = Some (pk_downloads k ! i)" "vec_at (pk_map k) x = Some (pk_map k ! x)"
    by (rule existing_entry [OF k x True])
  note ef = entry_facts [OF k i(2,3) j]
  have h: "\<not> pp_have (pk_map k ! x)" using view_entry(2) [OF pk_invD(2) [OF k] i(2)] i(3) by simp
  let ?d = "pk_downloads k ! i" and ?b = "blocks_at k x ! j"
  show ?thesis
  proof (cases "state_at k x j = StateFinished")
    case fin: True
    with i ef True k h show ?thesis by (auto simp: mark_as_finished_def fun_eq_iff)
  next
    case False
    define b1 where "b1 = ?b\<lparr>bi_peer := (if bi_state ?b \<noteq> StateWriting \<or> peer \<noteq> None then peer else bi_peer ?b),
      bi_state := StateFinished\<rparr>"
    define d1 where "d1 = ?d\<lparr>dp_finished := dp_finished ?d + 1,
      dp_writing := dp_writing ?d - (if bi_state ?b = StateWriting then 1 else 0)\<rparr>"
    have b1: "bi_state b1 = StateFinished" "0 < bi_num_peers b1 \<longleftrightarrow> bi_state b1 = StateRequested"
      using ef(2,4) req by (simp_all add: b1_def)
    have d1: "dp_info d1 = dp_info ?d" "dp_index d1 = x" "dp_state d1 \<noteq> NoSpeed \<longleftrightarrow> dp_requested d1 \<noteq> 0"
      "dp_requested d1 = dp_requested ?d + (if bi_state b1 = StateRequested then 1 else 0) -
        (if state_at k x j = StateRequested then 1 else 0)"
      "dp_writing d1 = dp_writing ?d + (if bi_state b1 = StateWriting then 1 else 0) -
        (if state_at k x j = StateWriting then 1 else 0)"
      "dp_finished d1 = dp_finished ?d + (if bi_state b1 = StateFinished then 1 else 0) -
        (if state_at k x j = StateFinished then 1 else 0)"
      using i(3) b1 ef(2,5) False req by (auto simp: d1_def)
    note step = block_step(1,3) [OF k i(2,3) j d1(1,2) b1(2) refl refl d1(4,5,6,3)]
    let ?k' = "set_dl i d1 (set_block i j b1 k)"
    have "mark_as_finished random x j peer k = Some ?k'"
      using i ef(1,2) True False by (simp add: mark_as_finished_def Let_def b1_def d1_def)
    moreover have "bi_num_peers b1 = peers_at k x j" using ef(3) by (simp add: b1_def)
    ultimately show ?thesis using step b1(1) state_step [OF k j step(2)] peers_step [OF k j step(2)] h by simp
  qed
qed

theorem mark_as_finished_ok:
  assumes "pk_inv k" "x < length (pk_map k)" "j < blocks_in_piece x k"
    "state_at k x j \<noteq> StateRequested" "downloading (pk_map k ! x) \<or> \<not> full (pk_map k ! x)"
  shows "\<exists>k'. mark_as_finished random x j peer k = Some k' \<and> pk_inv k' \<and> frame k k' \<and>
    state_at k' = (if pp_have (pk_map k ! x) then state_at k else (state_at k)(x := (state_at k x)(j := StateFinished)))"
  using mark_as_finished_peers [OF assms, of random peer] by blast

lemma no_blocks_left:
  assumes k: "pk_inv k" and i: "i < length (pk_downloads k)" "dp_index (pk_downloads k ! i) = x"
    and z: "dp_finished (pk_downloads k ! i) + dp_writing (pk_downloads k ! i) + dp_requested (pk_downloads k ! i) = 0"
  shows "state_at k x = (\<lambda>_. StateNone)"
proof
  fix l
  note kd = pk_invD [OF k]
  let ?n = "blocks_in_piece x k" and ?bs = "snd (view k ! i)"
  have bs: "blocks_at k x = ?bs" by (rule blocks_at_nth [OF kd(2) i])
  have e: "entry_ok ?n (full (pk_map k ! x)) (view k ! i)" using view_entry(3) [OF kd(2) i(1)] i(2) by simp
  have f: "fst (view k ! i) = (pk_downloads k ! i)\<lparr>dp_info := 0\<rparr>" using i(1) by (simp add: view_nth)
  have c: "in_state s (take ?n ?bs) = 0" if "s \<noteq> StateNone" for s
    using e z f that in_state_nonneg [of _ "take ?n ?bs"]
    by (cases s) (auto simp: entry_ok_def Let_def add_nonneg_eq_0_iff)
  show "state_at k x l = StateNone"
  proof (cases "l < length ?bs")
    case True
    have "bi_state (?bs ! l) = StateNone"
    proof (cases "l < ?n")
      case ln: True
      then have "0 < in_state (bi_state (?bs ! l)) (take ?n ?bs)" using in_state_pos [of l "take ?n ?bs"] True by simp
      with c show ?thesis by fastforce
    next
      case False
      then have "?bs ! l = drop ?n ?bs ! (l - ?n)" "l - ?n < length (drop ?n ?bs)" using True by simp_all
      then have "?bs ! l \<in> set (drop ?n ?bs)" by (metis nth_mem)
      with e show ?thesis by (simp add: entry_ok_def Let_def)
    qed
    with bs True show ?thesis by (simp add: state_at_def)
  qed (simp add: state_at_def bs)
qed

definition peers_become :: "picker \<Rightarrow> picker \<Rightarrow> (nat \<Rightarrow> nat \<Rightarrow> nat) \<Rightarrow> bool" where
  "peers_become k k' f \<longleftrightarrow> (\<forall>x j. j < blocks_in_piece x k \<longrightarrow> peers_at k' x j = f x j)"

text \<open>A block goes back to none; its entry goes with it when it was the last.\<close>

lemma block_back:
  assumes k: "pk_inv k" and i: "i < length (pk_downloads k)" "dp_index (pk_downloads k ! i) = x"
    and j: "j < blocks_in_piece x k"
    and b: "bi_state b = StateNone" "bi_num_peers b = 0"
    and d: "dp_info d = dp_info (pk_downloads k ! i)" "dp_index d = x" "dp_state d \<noteq> NoSpeed \<longleftrightarrow> dp_requested d \<noteq> 0"
      "dp_requested d = dp_requested (pk_downloads k ! i) - (if state_at k x j = StateRequested then 1 else 0)"
      "dp_writing d = dp_writing (pk_downloads k ! i) - (if state_at k x j = StateWriting then 1 else 0)"
      "dp_finished d = dp_finished (pk_downloads k ! i) - (if state_at k x j = StateFinished then 1 else 0)"
  shows "\<exists>k1 k'. update_full i (set_dl i d (set_block i j b k)) = Some k1 \<and>
    (if dp_finished d + dp_writing d + dp_requested d = 0 then drop_empty random x i k1 else Some k1) = Some k' \<and>
    pk_inv k' \<and> state_at k' = (state_at k)(x := (state_at k x)(j := StateNone)) \<and>
    pk_downloads k1 = (pk_downloads k)[i := d] \<and> frame k k' \<and>
    peers_become k k' ((peers_at k)(x := (peers_at k x)(j := 0)))"
proof -
  have c: "dp_requested d = dp_requested (pk_downloads k ! i) + (if bi_state b = StateRequested then 1 else 0) -
        (if state_at k x j = StateRequested then 1 else 0)"
      "dp_writing d = dp_writing (pk_downloads k ! i) + (if bi_state b = StateWriting then 1 else 0) -
        (if state_at k x j = StateWriting then 1 else 0)"
      "dp_finished d = dp_finished (pk_downloads k ! i) + (if bi_state b = StateFinished then 1 else 0) -
        (if state_at k x j = StateFinished then 1 else 0)"
      "0 < bi_num_peers b \<longleftrightarrow> bi_state b = StateRequested"
    using b d by simp_all
  note step = block_step(2,3) [OF k i j d(1,2) c(4) refl refl c(1-3) d(3)]
  then obtain k1 where k1: "update_full i (set_dl i d (set_block i j b k)) = Some k1" "pk_inv k1"
    "blocks_at k1 = (blocks_at k)(x := (blocks_at k x)[j := b])" "pk_downloads k1 = (pk_downloads k)[i := d]" "frame k k1"
    by auto
  have st: "state_at k1 = (state_at k)(x := (state_at k x)(j := StateNone))"
    using state_step [OF k j k1(3)] b(1) by simp
  have pe: "peers_at k1 = (peers_at k)(x := (peers_at k x)(j := 0))"
    using peers_step [OF k j k1(3)] b(2) by simp
  show ?thesis
  proof (cases "dp_finished d + dp_writing d + dp_requested d = 0")
    case False
    moreover have "peers_become k k1 ((peers_at k)(x := (peers_at k x)(j := 0)))" using pe by (simp add: peers_become_def)
    ultimately show ?thesis using k1 st by auto
  next
    case True
    have i1: "i < length (pk_downloads k1)" "dp_index (pk_downloads k1 ! i) = x" "pk_downloads k1 ! i = d"
      using k1(4) i d(2) by simp_all
    from drop_empty_ok [OF k1(2) i1(1,2), of random] obtain k' where
      k': "drop_empty random x i k1 = Some k'" "pk_inv k'"
      "blocks_at k' = (blocks_at k1)(x := replicate (pk_blocks_per_piece k1) no_block)" "frame k1 k'" by blast
    have "state_at k1 x = (\<lambda>_. StateNone)" by (rule no_blocks_left [OF k1(2) i1(1,2)]) (use True i1(3) in simp)
    note n = this
    have "state_at k' = state_at k1" using state_at_erased [OF k'(3)] n by (metis fun_upd_triv)
    moreover have "frame k k'" using frame_trans [OF k1(5) k'(4)] .
    moreover have "peers_become k k' ((peers_at k)(x := (peers_at k x)(j := 0)))"
      unfolding peers_become_def pe [symmetric]
    proof (intro allI impI)
      fix y l
      assume l: "l < blocks_in_piece y k"
      have "peers_at k1 x l = 0" if "y = x"
        using peers_unrequested [OF k1(2) i1(1,2), of l] l that n frameD(2) [OF k1(5)] by simp
      then show "peers_at k' y l = peers_at k1 y l" unfolding peers_at_erased [OF k'(3)] by simp
    qed
    ultimately show ?thesis using k1 k' st True by auto
  qed
qed

theorem write_failed_peers:
  assumes k: "pk_inv k" and x: "x < length (pk_map k)" and j: "j < blocks_in_piece x k"
    and req: "state_at k x j \<noteq> StateRequested"
  shows "\<exists>k'. write_failed random x j k = Some k' \<and> pk_inv k' \<and> frame k k' \<and>
    state_at k' = (if state_at k x j = StateFinished then state_at k
                   else (state_at k)(x := (state_at k x)(j := StateNone))) \<and>
    (state_at k x j = StateFinished \<or> peers_become k k' ((peers_at k)(x := (peers_at k x)(j := 0))))"
proof (cases "downloading (pk_map k ! x)")
  case False
  have "state_at k x j = StateNone" using blocks_at_none [OF pk_invD(2) [OF k] x False] by (simp add: state_at_def)
  then have "(state_at k)(x := (state_at k x)(j := StateNone)) = state_at k" by (metis fun_upd_triv)
  moreover have "peers_become k k ((peers_at k)(x := (peers_at k x)(j := 0)))"
    using blocks_at_none [OF pk_invD(2) [OF k] x False] by (simp add: peers_become_def peers_at_def)
  ultimately show ?thesis using find_dl_some(2) [OF pk_invD(2) [OF k] x False] k by (simp add: write_failed_def)
next
  case True
  obtain i where i: "find_dl_piece x k = Some i" "i < length (pk_downloads k)" "dp_index (pk_downloads k ! i) = x"
    "vec_at (pk_downloads k) i = Some (pk_downloads k ! i)" "vec_at (pk_map k) x = Some (pk_map k ! x)"
    by (rule existing_entry [OF k x True])
  note ef = entry_facts [OF k i(2,3) j]
  show ?thesis
  proof (cases "state_at k x j = StateFinished")
    case fin: True
    with i ef k show ?thesis by (simp add: write_failed_def)
  next
    case False
    define b1 where "b1 = (blocks_at k x ! j)\<lparr>bi_peer := None, bi_state := StateNone\<rparr>"
    define d1 where "d1 = (if state_at k x j = StateWriting
      then (pk_downloads k ! i)\<lparr>dp_writing := dp_writing (pk_downloads k ! i) - 1\<rparr> else pk_downloads k ! i)"
    have b1: "bi_state b1 = StateNone" "bi_num_peers b1 = 0" using ef(2,4) req by (simp_all add: b1_def)
    have d1: "dp_info d1 = dp_info (pk_downloads k ! i)" "dp_index d1 = x" "dp_state d1 \<noteq> NoSpeed \<longleftrightarrow> dp_requested d1 \<noteq> 0"
      "dp_requested d1 = dp_requested (pk_downloads k ! i) - (if state_at k x j = StateRequested then 1 else 0)"
      "dp_writing d1 = dp_writing (pk_downloads k ! i) - (if state_at k x j = StateWriting then 1 else 0)"
      "dp_finished d1 = dp_finished (pk_downloads k ! i) - (if state_at k x j = StateFinished then 1 else 0)"
      using i(3) ef(5) False req by (auto simp: d1_def)
    from block_back [OF k i(2,3) j b1 d1, of random] obtain k1 k' where
      k1: "update_full i (set_dl i d1 (set_block i j b1 k)) = Some k1"
      "(if dp_finished d1 + dp_writing d1 + dp_requested d1 = 0 then drop_empty random x i k1 else Some k1) = Some k'"
      "pk_inv k'" "state_at k' = (state_at k)(x := (state_at k x)(j := StateNone))" "frame k k'"
      "peers_become k k' ((peers_at k)(x := (peers_at k x)(j := 0)))" by blast
    have "write_failed random x j k = Some k'"
      using i ef(1,2) False k1(1,2) by (simp add: write_failed_def Let_def b1_def d1_def)
    with k1(3-6) False show ?thesis by simp
  qed
qed

theorem write_failed_ok:
  assumes "pk_inv k" "x < length (pk_map k)" "j < blocks_in_piece x k" "state_at k x j \<noteq> StateRequested"
  shows "\<exists>k'. write_failed random x j k = Some k' \<and> pk_inv k' \<and> frame k k' \<and>
    state_at k' = (if state_at k x j = StateFinished then state_at k
                   else (state_at k)(x := (state_at k x)(j := StateNone)))"
  using write_failed_peers [OF assms, of random] by blast

text \<open>
  A request is aborted: the block stays requested while another peer is asked for it.
\<close>

theorem abort_download_peers:
  assumes k: "pk_inv k" and x: "x < length (pk_map k)" and j: "j < blocks_in_piece x k"
  shows "\<exists>k'. abort_download random x j peer k = Some k' \<and> pk_inv k' \<and>
    state_at k' = (if state_at k x j = StateRequested \<and> peers_at k x j = 1
                   then (state_at k)(x := (state_at k x)(j := StateNone)) else state_at k) \<and> frame k k' \<and>
    peers_become k k' ((peers_at k)(x := (peers_at k x)(j := peers_at k x j - 1)))"
proof (cases "downloading (pk_map k ! x)")
  case False
  have "state_at k x j = StateNone" using blocks_at_none [OF pk_invD(2) [OF k] x False] by (simp add: state_at_def)
  moreover have "peers_at k x j = 0" using blocks_at_none [OF pk_invD(2) [OF k] x False] by (simp add: peers_at_def)
  ultimately show ?thesis using False x k peers_same [of k x j 0] by (simp add: abort_download_def peers_become_def)
next
  case True
  obtain i where i: "find_dl_piece x k = Some i" "i < length (pk_downloads k)" "dp_index (pk_downloads k ! i) = x"
    "vec_at (pk_downloads k) i = Some (pk_downloads k ! i)" "vec_at (pk_map k) x = Some (pk_map k ! x)"
    by (rule existing_entry [OF k x True])
  note ef = entry_facts [OF k i(2,3) j]
  let ?b = "blocks_at k x ! j" and ?d = "pk_downloads k ! i"
  define b1 where "b1 = ?b\<lparr>bi_num_peers := bi_num_peers ?b - 1, bi_peer := (if bi_peer ?b = peer then None else bi_peer ?b)\<rparr>"
  show ?thesis
  proof (cases "state_at k x j = StateRequested")
    case no: False
    have "peers_at k x j = 0" by (rule peers_unrequested [OF k i(2,3) j no])
    with no i True ef k peers_same [of k x j 0] show ?thesis by (simp add: abort_download_def peers_become_def)
  next
    case req: True
    show ?thesis
    proof (cases "0 < bi_num_peers b1")
      case more: True
      have "abort_download random x j peer k = Some (set_block i j b1 k)"
        using i True ef req more by (simp add: abort_download_def Let_def b1_def)
      moreover have "bi_state b1 = state_at k x j" "0 < bi_num_peers b1 \<longleftrightarrow> bi_state b1 = StateRequested"
        using ef(2) more req by (simp_all add: b1_def)
      moreover have "peers_at k x j \<noteq> 1" using more ef(3) by (simp add: b1_def)
      moreover have "bi_num_peers b1 = peers_at k x j - 1" using ef(3) by (simp add: b1_def)
      ultimately show ?thesis
        using peer_step [OF k i(2,3) j, of b1] peers_step [OF k j, of "set_block i j b1 k" b1] by (simp add: peers_become_def)
    next
      case last: False
      have one: "peers_at k x j = 1" using last ef(2-4) req by (simp add: b1_def)
      define b2 where "b2 = b1\<lparr>bi_peer := None, bi_state := StateNone\<rparr>"
      define d1 where "d1 = ?d\<lparr>dp_requested := dp_requested ?d - 1\<rparr>"
      define d2 where "d2 = (if dp_requested d1 = 0 then d1\<lparr>dp_state := NoSpeed\<rparr> else d1)"
      have b2: "bi_state b2 = StateNone" "bi_num_peers b2 = 0" using last by (simp_all add: b2_def)
      have rq: "0 < dp_requested ?d" using ef(2,7) req by simp
      have d2: "dp_info d2 = dp_info ?d" "dp_index d2 = x" "dp_state d2 \<noteq> NoSpeed \<longleftrightarrow> dp_requested d2 \<noteq> 0"
        "dp_requested d2 = dp_requested ?d - (if state_at k x j = StateRequested then 1 else 0)"
        "dp_writing d2 = dp_writing ?d - (if state_at k x j = StateWriting then 1 else 0)"
        "dp_finished d2 = dp_finished ?d - (if state_at k x j = StateFinished then 1 else 0)"
        using i(3) ef(5) req rq by (auto simp: d1_def d2_def)
      from block_back [OF k i(2,3) j b2 d2, of random] obtain k2 k' where
        k2: "update_full i (set_dl i d2 (set_block i j b2 k)) = Some k2"
        "(if dp_finished d2 + dp_writing d2 + dp_requested d2 = 0 then drop_empty random x i k2 else Some k2) = Some k'"
        "pk_inv k'" "state_at k' = (state_at k)(x := (state_at k x)(j := StateNone))"
        "pk_downloads k2 = (pk_downloads k)[i := d2]" "frame k k'"
        "peers_become k k' ((peers_at k)(x := (peers_at k x)(j := 0)))" by blast
      obtain k1 where k1: "update_full i (set_dl i d1 (set_block i j b2 k)) = Some k1"
        using update_full_eq [of i "set_dl i d1 (set_block i j b2 k)" x] i x by (simp add: d1_def)
      have same: "dp_index d2 = dp_index d1" "dp_requested d2 = dp_requested d1" "dp_finished d2 = dp_finished d1"
        "dp_writing d2 = dp_writing d1" "dp_info d2 = dp_info d1" by (simp_all add: d2_def)
      have sa: "update_full i (set_dl i d2 (set_block i j b2 k)) = Some (set_dl i d2 k1)"
        "pk_downloads k1 ! i = d1" "i < length (pk_downloads k1)"
        using same_after_full [OF k1 _ same(1-4)] i(2) by simp_all
      have k21: "k2 = set_dl i d2 k1" using k2(1) sa(1) by simp
      have "abort_download random x j peer k = (if dp_requested d1 + dp_finished d1 + dp_writing d1 = 0
          then drop_empty random x i k1 else Some (if dp_requested d1 = 0 then set_dl i (d1\<lparr>dp_state := NoSpeed\<rparr>) k1 else k1))"
        using i True ef(1,2) req last k1 by (simp add: abort_download_def Let_def b1_def b2_def d1_def)
      also have "\<dots> = Some k'"
      proof (cases "dp_finished d2 + dp_writing d2 + dp_requested d2 = 0")
        case True
        then have "drop_empty random x i k2 = Some k'" "dp_requested d1 + dp_finished d1 + dp_writing d1 = 0"
          using k2(2) same by simp_all
        with drop_empty_speed [OF sa(3), of d2 random x] sa(2) same k21 show ?thesis by simp
      next
        case False
        moreover have "set_dl i d1 k1 = k1" using sa(2,3) by (auto simp: set_dl_def)
        ultimately show ?thesis using k2(2) k21 same by (simp add: d2_def split: if_splits)
      qed
      finally show ?thesis using k2(3,4,6,7) req one by simp
    qed
  qed
qed

theorem abort_download_ok:
  assumes "pk_inv k" "x < length (pk_map k)" "j < blocks_in_piece x k"
  shows "\<exists>k'. abort_download random x j peer k = Some k' \<and> pk_inv k' \<and>
    state_at k' = (if state_at k x j = StateRequested \<and> peers_at k x j = 1
                   then (state_at k)(x := (state_at k x)(j := StateNone)) else state_at k)"
  using abort_download_peers [OF assms, of random peer] by blast

theorem restore_piece_ok:
  assumes k: "pk_inv k" and x: "x < length (pk_map k)" "downloading (pk_map k ! x)"
  shows "\<exists>k'. restore_piece random x k = Some k' \<and> pk_inv k' \<and> state_at k' = (state_at k)(x := (\<lambda>_. StateNone)) \<and>
    frame k k' \<and> peers_at k' = (peers_at k)(x := (\<lambda>_. 0))"
proof -
  obtain i where i: "find_dl_piece x k = Some i" "i < length (pk_downloads k)" "dp_index (pk_downloads k ! i) = x"
    by (rule existing_entry [OF k x])
  from drop_empty_ok [OF k i(2,3), of random] restore_drop [OF i(1)] show ?thesis
    by (auto dest: state_at_erased peers_at_erased)
qed

subsection \<open>A piece is complete\<close>

lemma downloads_elsewhere:
  assumes k: "downloads_ok k" and x: "x < length (pk_map k)" "\<not> downloading (pk_map k ! x)" "\<not> downloading p"
    and m: "pk_map k' = (pk_map k)[x := p]" "pk_downloads k' = pk_downloads k" "pk_block_info k' = pk_block_info k"
      "pk_blocks_per_piece k' = pk_blocks_per_piece k" "pk_blocks_in_last_piece k' = pk_blocks_in_last_piece k"
  shows "downloads_ok k'" "view k' = view k"
proof -
  show v: "view k' = view k" using m by (simp add: view_def blocks_of_def)
  have s: "storage_ok k'" using downloadsD(1) [OF k] m by (simp add: storage_ok_def)
  have nx: "x \<notin> dp_index ` set (pk_downloads k)" using downloadsD(5) [OF k x(1)] x(2) by simp
  have bp: "blocks_in_piece y k' = blocks_in_piece y k" for y using m by (simp add: blocks_in_piece_def)
  have "pk_map k' ! dp_index (fst e) = pk_map k ! dp_index (fst e)" if e: "e \<in> set (view k)" for e
  proof -
    have "dp_index (fst e) \<in> dp_index ` set (pk_downloads k)" using e by (auto simp: view_index_set)
    with nx have "x \<noteq> dp_index (fst e)" by auto
    then show ?thesis using m(1) by simp
  qed
  then have "entries_ok k'"
    using downloadsD(4) [OF k] m(1) by (simp add: entries_ok_def Let_def v bp)
  moreover have "downloading (pk_map k' ! y) \<longleftrightarrow> y \<in> dp_index ` set (pk_downloads k')" if "y < length (pk_map k')" for y
    using that downloadsD(5) [OF k, of y] nx x m by (cases "y = x") simp_all
  ultimately show "downloads_ok k'" using k s m by (simp add: downloads_ok_def)
qed

lemma cursors_out_unwanted:
  assumes "cursors_ok (pk_map k) (pk_cursor k) (pk_reverse_cursor k)" "x < length (pk_map k)" "unwanted (pk_map k ! x)"
    "pk_cursor k' = pk_cursor k" "pk_reverse_cursor k' = pk_reverse_cursor k"
  shows "cursors_out x k' = k'"
proof -
  have "pk_cursor k \<noteq> x" "pk_reverse_cursor k \<noteq> x + 1"
    using assms(1-3) by (auto simp: cursors_ok_def)
  with assms(4,5) show ?thesis by (simp add: cursors_out_def)
qed

lemma cursors_out_downloads [simp]:
  "pk_downloads (cursors_out x k) = pk_downloads k" "pk_block_info (cursors_out x k) = pk_block_info k"
  "pk_blocks_per_piece (cursors_out x k) = pk_blocks_per_piece k"
  "pk_blocks_in_last_piece (cursors_out x k) = pk_blocks_in_last_piece k"
  by (simp_all add: cursors_out_def)

text \<open>The first half of \<^verbatim>\<open>we_have\<close>: the entry goes, the buckets still stand.\<close>

definition released :: "picker \<Rightarrow> nat \<Rightarrow> picker \<Rightarrow> bool" where
  "released k x k1 \<longleftrightarrow> (\<forall>p k'.
     \<not> downloading p \<longrightarrow> pk_map k' = (pk_map k1)[x := p] \<longrightarrow> pk_downloads k' = pk_downloads k1 \<longrightarrow>
     pk_block_info k' = pk_block_info k1 \<longrightarrow> pk_blocks_per_piece k' = pk_blocks_per_piece k1 \<longrightarrow>
     pk_blocks_in_last_piece k' = pk_blocks_in_last_piece k1 \<longrightarrow>
       downloads_ok k' \<and> state_at k' = (state_at k)(x := (\<lambda>_. StateNone)) \<and>
       peers_at k' = (peers_at k)(x := (\<lambda>_. 0)))"

lemma we_have_start:
  assumes k: "pk_inv k" and x: "x < length (pk_map k)" "\<not> pp_have (pk_map k ! x)"
  obtains k1 where "(if downloading (pk_map k ! x) then do { i \<leftarrow> find_dl_piece x k; erase_download_piece i k } else Some k) = Some k1"
    "pk_map k1 = (pk_map k)[x := (pk_map k ! x)\<lparr>downloading := False\<rparr>]"
    "k1 = k\<lparr>pk_map := pk_map k1, pk_downloads := pk_downloads k1, pk_block_info := pk_block_info k1\<rparr>"
    "released k x k1"
proof (cases "downloading (pk_map k ! x)")
  case False
  have p: "(pk_map k ! x)\<lparr>downloading := False\<rparr> = pk_map k ! x" using False by (cases "pk_map k ! x") simp
  have "downloads_ok k' \<and> state_at k' = (state_at k)(x := (\<lambda>_. StateNone)) \<and> peers_at k' = (peers_at k)(x := (\<lambda>_. 0))"
    if h: "\<not> downloading p" "pk_map k' = (pk_map k)[x := p]" "pk_downloads k' = pk_downloads k"
       "pk_block_info k' = pk_block_info k" "pk_blocks_per_piece k' = pk_blocks_per_piece k"
       "pk_blocks_in_last_piece k' = pk_blocks_in_last_piece k" for p k'
  proof -
    note dk = downloads_elsewhere [OF pk_invD(2) [OF k] x(1) False h]
    have "blocks_at k' = blocks_at k" by (rule blocks_at_same [OF dk(2) h(5)])
    then have "state_at k' = state_at k" "peers_at k' = peers_at k" by (simp_all add: state_at_def peers_at_def fun_eq_iff)
    moreover have "state_at k x = (\<lambda>_. StateNone)" "peers_at k x = (\<lambda>_. 0)"
      using blocks_at_none [OF pk_invD(2) [OF k] x(1) False] by (auto simp: state_at_def peers_at_def fun_eq_iff)
    ultimately show ?thesis using dk(1) by (metis fun_upd_triv)
  qed
  then have "released k x k" by (simp add: released_def)
  moreover have "pk_map k = (pk_map k)[x := (pk_map k ! x)\<lparr>downloading := False\<rparr>]" by (simp only: p list_update_id)
  ultimately show thesis using False by (intro that [of k]) simp_all
next
  case True
  note kd = pk_invD [OF k]
  obtain i where i: "find_dl_piece x k = Some i" "i < length (pk_downloads k)" "dp_index (pk_downloads k ! i) = x"
    by (rule existing_entry [OF k x(1) True])
  from erase_download_view [OF downloadsD(1) [OF kd(2)] i(2)] x(1) i(3) obtain k1 where
    e: "erase_download_piece i k = Some k1" "view k1 = erase_at i (view k)" "storage_ok k1"
    "k1 = (set_piece x ((pk_map k ! x)\<lparr>downloading := False\<rparr>) k)
      \<lparr>pk_downloads := pk_downloads k1, pk_block_info := pk_block_info k1\<rparr>" by auto
  have m1: "pk_map k1 = (pk_map k)[x := (pk_map k ! x)\<lparr>downloading := False\<rparr>]"
    "pk_blocks_per_piece k1 = pk_blocks_per_piece k" "pk_blocks_in_last_piece k1 = pk_blocks_in_last_piece k"
    by (subst e(4), simp add: picker_simps)+
  have e4: "k1 = k\<lparr>pk_map := pk_map k1, pk_downloads := pk_downloads k1, pk_block_info := pk_block_info k1\<rparr>"
    by (subst e(4)) (simp add: set_piece_def m1(1))
  have "downloads_ok k' \<and> state_at k' = (state_at k)(x := (\<lambda>_. StateNone)) \<and> peers_at k' = (peers_at k)(x := (\<lambda>_. 0))"
    if h: "\<not> downloading p" "pk_map k' = (pk_map k1)[x := p]" "pk_downloads k' = pk_downloads k1"
       "pk_block_info k' = pk_block_info k1" "pk_blocks_per_piece k' = pk_blocks_per_piece k1"
       "pk_blocks_in_last_piece k' = pk_blocks_in_last_piece k1" for p k'
  proof -
    have v: "view k' = erase_at i (view k)" using h e(2) by (simp add: view_def blocks_of_def)
    have s: "storage_ok k'" using h e(3) by (simp add: storage_ok_def)
    have bp: "pk_blocks_per_piece k' = pk_blocks_per_piece k" using h m1 by simp
    have "downloads_ok k'"
      by (rule entry_erased [OF kd(2) i(2) i(3) [symmetric] v s]) (use h m1 x in \<open>simp_all add: like_piece_def\<close>)
    then show ?thesis
      using state_at_erased [OF blocks_at_erased [OF kd(2) i(2,3) v bp]]
        peers_at_erased [OF blocks_at_erased [OF kd(2) i(2,3) v bp]] by simp
  qed
  then have r: "released k x k1" by (simp add: released_def)
  have "(if downloading (pk_map k ! x) then do { i \<leftarrow> find_dl_piece x k; erase_download_piece i k } else Some k) = Some k1"
    using True i e(1) by simp
  then show thesis using m1(1) e4 r by (rule that)
qed

theorem we_have_peers:
  assumes k: "pk_inv k" and x: "x < length (pk_map k)"
  shows "\<exists>k'. we_have x k = Some k' \<and> pk_inv k' \<and>
    map pp_have (pk_map k') = (map pp_have (pk_map k))[x := True] \<and>
    pk_sparse_regions k' = pk_sparse_regions k + (if pp_have (pk_map k ! x) then 0 else sparse_change x (pk_map k)) \<and>
    state_at k' = (state_at k)(x := (\<lambda>_. StateNone)) \<and> peers_at k' = (peers_at k)(x := (\<lambda>_. 0)) \<and>
    (\<forall>y. blocks_in_piece y k' = blocks_in_piece y k)"
proof (cases "pp_have (pk_map k ! x)")
  case True
  note kd = pk_invD [OF k]
  have d: "\<not> downloading (pk_map k ! x)"
    using view_entry(2) [OF kd(2)] existing_entry [OF k x] True by metis
  have "state_at k x = (\<lambda>_. StateNone)"
    using blocks_at_none [OF kd(2) x d] by (auto simp: state_at_def fun_eq_iff)
  then have st: "state_at k = (state_at k)(x := (\<lambda>_. StateNone))" by (metis fun_upd_triv)
  have "peers_at k x = (\<lambda>_. 0)"
    using blocks_at_none [OF kd(2) x d] by (auto simp: peers_at_def fun_eq_iff)
  then have pe: "peers_at k = (peers_at k)(x := (\<lambda>_. 0))" by (metis fun_upd_triv)
  have e: "map pp_have (pk_map k) ! x = True" using True x by simp
  have h: "map pp_have (pk_map k) = (map pp_have (pk_map k))[x := True]"
    using list_update_id [of "map pp_have (pk_map k)" x] by (simp only: e)
  have sp: "pk_sparse_regions k = pk_sparse_regions k + (if pp_have (pk_map k ! x) then 0 else sparse_change x (pk_map k))"
    using True by simp
  have "we_have x k = Some k" using True d x by (simp add: we_have_def Let_def)
  with k h sp st pe show ?thesis by blast
next
  case False
  note kd = pk_invD [OF k]
  note ks = picker_ok_simps [OF kd(1)]
  let ?p = "pk_map k ! x"
  let ?p1 = "?p\<lparr>downloading := False\<rparr>"
  let ?p2 = "?p1\<lparr>pos_index := we_have_index\<rparr>"
  obtain k1 where k1: "(if downloading ?p then do { i \<leftarrow> find_dl_piece x k; erase_download_piece i k } else Some k) = Some k1"
    "pk_map k1 = (pk_map k)[x := ?p1]"
    "k1 = k\<lparr>pk_map := pk_map k1, pk_downloads := pk_downloads k1, pk_block_info := pk_block_info k1\<rparr>"
    and dk: "released k x k1"
    by (rule we_have_start [OF k x False])
  let ?f = "filtered ?p1"
  define k2 where "k2 = k1\<lparr>pk_sparse_regions := pk_sparse_regions k1 + sparse_change x (pk_map k1),
    pk_num_filtered := pk_num_filtered k1 - (if ?f then 1 else 0),
    pk_num_have_filtered := pk_num_have_filtered k1 + (if ?f then 1 else 0),
    pk_num_have := pk_num_have k1 + 1\<rparr>"
  define k3 where "k3 = cursors_out x (set_piece x ?p2 k2)"
  have f1: "pk_seeds k1 = pk_seeds k" "pk_dirty k1 = pk_dirty k" "pk_pieces k1 = pk_pieces k" "pk_bounds k1 = pk_bounds k"
    "pk_cursor k1 = pk_cursor k" "pk_reverse_cursor k1 = pk_reverse_cursor k" "pk_num_have k1 = pk_num_have k"
    "pk_num_filtered k1 = pk_num_filtered k" "pk_num_have_filtered k1 = pk_num_have_filtered k"
    by (subst k1(3), simp)+
  have h: "pp_have ?p2" "\<not> pp_have ?p1" "filtered ?p2 = filtered ?p" "filtered ?p1 = filtered ?p" "unwanted ?p2"
    using False by (simp_all add: pp_have_def filtered_def unwanted_def)
  have ch: "piece_changed x ?p2 k k3"
    using x f1 k1(2) by (simp add: piece_changed_def k3_def k2_def picker_simps)
  have cu: "cursors_ok (pk_map k3) (pk_cursor k3) (pk_reverse_cursor k3)"
  proof (cases "unwanted ?p")
    case True
    have "cursors_out x (set_piece x ?p2 k2) = set_piece x ?p2 k2"
      by (rule cursors_out_unwanted [OF ks(3) x True]) (simp_all add: k2_def f1 picker_simps)
    moreover have "unwanted ((pk_map k)[x := ?p2] ! i) = unwanted (pk_map k ! i)" for i
      using True h(5) x by (cases "i = x") simp_all
    ultimately show ?thesis using ks(3) k1(2) by (simp add: k3_def cursors_ok_def picker_simps k2_def f1)
  next
    case n: False
    have "cursors_ok (pk_map k) (pk_cursor (set_piece x ?p2 k2)) (pk_reverse_cursor (set_piece x ?p2 k2))"
      using ks(3) by (simp add: picker_simps k2_def f1)
    from cursors_out_ok [OF this x n _ h(5)] show ?thesis
      by (simp add: k3_def picker_simps k2_def k1(2))
  qed
  have co: "counters_ok k3"
    using ks(4) x False h k1(2) by (auto simp: counters_ok_def k3_def k2_def picker_simps f1 count_update)
  have none: "priority (pk_seeds k) ?p2 = None" using h(1) by (simp add: priority_def)
  have "\<exists>k'. (case prio_of k x of None \<Rightarrow> Some k3
        | Some q \<Rightarrow> if pk_dirty k3 then Some k3 else pk_remove q (pos_index ?p) k3) = Some k' \<and> picker_ok k' \<and> reindexed k3 k'"
  proof (cases "pk_dirty k3")
    case True
    with cu co ks(2,5) ch changed_named [OF ch] show ?thesis by (auto simp: picker_ok_def piece_changed_def split: option.split)
  next
    case d: False
    then have b: "buckets_ok k" using ks(1) ch by (simp add: piece_changed_def)
    show ?thesis
    proof (cases "prio_of k x")
      case None
      from none_changed [OF b ch None none] cu co ks(2,5) ch changed_named [OF ch] None show ?thesis
        by (simp add: picker_ok_def piece_changed_def)
    next
      case (Some q)
      from remove_changed [OF b ch Some none] obtain k' where
        "pk_remove q (pos_index ?p) k3 = Some k'" "buckets_ok k'" "reindexed k3 k'" by blast
      with Some d picker_ok_reindexed [OF _ _ co cu] show ?thesis by simp
    qed
  qed
  then obtain k' where k': "(case prio_of k x of None \<Rightarrow> Some k3
        | Some q \<Rightarrow> if pk_dirty k3 then Some k3 else pk_remove q (pos_index ?p) k3) = Some k'" "picker_ok k'" "reindexed k3 k'"
    by blast
  have d3: "downloads_ok k3 \<and> state_at k3 = (state_at k)(x := (\<lambda>_. StateNone)) \<and> peers_at k3 = (peers_at k)(x := (\<lambda>_. 0))"
    by (rule dk [unfolded released_def, rule_format, of ?p2]) (simp_all add: k3_def k2_def picker_simps)
  have ke: "keeps k3 k'" by (rule keeps_reindexed [OF keeps_refl k'(3)])
  from downloads_keeps [OF conjunct1 [OF d3] ke] have dk': "downloads_ok k'" "view k' = view k3" by blast+
  have "blocks_at k' = blocks_at k3" by (rule blocks_at_same [OF dk'(2)]) (use ke in \<open>simp add: keeps_def\<close>)
  then have "state_at k' = state_at k3" "peers_at k' = peers_at k3" by (simp_all add: state_at_def peers_at_def fun_eq_iff)
  then have st: "state_at k' = (state_at k)(x := (\<lambda>_. StateNone))" "peers_at k' = (peers_at k)(x := (\<lambda>_. 0))"
    using d3 by simp_all
  have "length (pk_map k') = length (pk_map k)" "pk_blocks_per_piece k1 = pk_blocks_per_piece k"
    "pk_blocks_in_last_piece k1 = pk_blocks_in_last_piece k"
    using ch ke by (auto simp: piece_changed_def keeps_def dest: list_all2_lengthD) (subst k1(3), simp)+
  then have bp: "\<forall>y. blocks_in_piece y k' = blocks_in_piece y k"
    using ke by (simp add: blocks_in_piece_def keeps_def k3_def k2_def set_piece_def)
  have "pk_map k3 = (pk_map k)[x := ?p2]" using ch by (simp add: piece_changed_def)
  then have pr: "list_all (\<lambda>p. piece_prio p < 8) (pk_map k3)" using prio_set [OF kd(3), of ?p2 x] kd(4) [OF x] by simp
  have "map pp_have (pk_map k') = (map pp_have (pk_map k))[x := True]"
    using frame_reindexed [OF k'(3)] ch h(1) by (simp add: frame_def piece_changed_def map_update)
  moreover have "pk_sparse_regions k' = pk_sparse_regions k + sparse_change x (pk_map k)"
  proof -
    have "pp_have ((pk_map k)[x := ?p1] ! y) = pp_have (pk_map k ! y)" for y
      using h(2) False x by (cases "y = x") simp_all
    then have "sparse_change x (pk_map k1) = sparse_change x (pk_map k)"
      by (simp add: sparse_change_def k1(2) Let_def)
    moreover have "pk_sparse_regions k1 = pk_sparse_regions k" by (subst k1(3)) simp
    ultimately show ?thesis using reindexed_keeps(5) [OF k'(3)] by (simp add: k3_def k2_def picker_simps)
  qed
  moreover have "we_have x k = Some k'"
  proof -
    have "vec_at (pk_map k1) x = Some ?p1" using k1(2) x by simp
    then show ?thesis
      unfolding we_have_def
      using k1(1) k'(1) [unfolded k3_def] x h(2) by (simp add: Let_def k2_def [symmetric])
  qed
  moreover have "list_all (\<lambda>p. piece_prio p < 8) (pk_map k')"
    using pr ke by (auto simp: keeps_def list_all2_conv_all_nth list_all_length keeps_piece_def)
  ultimately show ?thesis using k'(2) dk'(1) st bp False by (simp add: pk_inv_def)
qed

theorem we_have_ok:
  assumes "pk_inv k" "x < length (pk_map k)"
  shows "\<exists>k'. we_have x k = Some k' \<and> pk_inv k' \<and>
    map pp_have (pk_map k') = (map pp_have (pk_map k))[x := True] \<and>
    pk_sparse_regions k' = pk_sparse_regions k + (if pp_have (pk_map k ! x) then 0 else sparse_change x (pk_map k)) \<and>
    state_at k' = (state_at k)(x := (\<lambda>_. StateNone))"
  using we_have_peers [OF assms] by blast

end
