(* ===== verification/PickerSort.thy ===== *)
theory PickerSort
  imports PickerInv "HOL-Library.Multiset"
begin

section \<open>libtorrent/src/piece_picker.cpp: the buckets are built again\<close>

text \<open>
  \<^verbatim>\<open>update_pieces\<close> sorts the pieces into their buckets by counting and shuffles every bucket. The random
  numbers of \<^verbatim>\<open>std::random_shuffle\<close> are an argument, one per position.
\<close>

fun count_pieces :: "nat \<Rightarrow> piece_pos list \<Rightarrow> nat list \<Rightarrow> piece_pos list \<times> nat list" where
  "count_pieces seeds [] bs = ([], bs)"
| "count_pieces seeds (p # ps) bs =
     (case priority seeds p of
        None \<Rightarrow> (let (ps1, bs1) = count_pieces seeds ps bs in (p # ps1, bs1))
      | Some q \<Rightarrow>
          (let bs0 = bs @ replicate (Suc q - length bs) 0;
               (ps1, bs1) = count_pieces seeds ps (bs0[q := bs0 ! q + 1])
           in (p\<lparr>pos_index := bs0 ! q\<rparr> # ps1, bs1)))"

fun sums :: "nat \<Rightarrow> nat list \<Rightarrow> nat list" where
  "sums a [] = []"
| "sums a (b # bs) = (a + b) # sums (a + b) bs"

fun fill_pieces :: "nat \<Rightarrow> nat list \<Rightarrow> nat \<Rightarrow> piece_pos list \<Rightarrow> nat option list \<Rightarrow> nat option list option" where
  "fill_pieces seeds bs x [] ms = Some ms"
| "fill_pieces seeds bs x (p # ps) ms =
     (case priority seeds p of
        None \<Rightarrow> fill_pieces seeds bs (x + 1) ps ms
      | Some q \<Rightarrow>
          if q < length bs \<and> range_start bs q + pos_index p < length ms
          then fill_pieces seeds bs (x + 1) ps (ms[range_start bs q + pos_index p := Some x])
          else None)"

definition swap_at :: "nat \<Rightarrow> nat \<Rightarrow> 'a list \<Rightarrow> 'a list" where
  "swap_at i j xs = xs[i := xs ! j, j := xs ! i]"

definition random_shuffle :: "(nat \<Rightarrow> nat) \<Rightarrow> nat \<Rightarrow> nat \<Rightarrow> 'a list \<Rightarrow> 'a list" where
  "random_shuffle rnd start stop xs =
     foldl (\<lambda>xs i. swap_at i (start + rnd i mod (i - start + 1)) xs) xs [start + 1..<stop]"

fun shuffle_buckets :: "(nat \<Rightarrow> nat) \<Rightarrow> nat \<Rightarrow> nat list \<Rightarrow> 'a list \<Rightarrow> 'a list" where
  "shuffle_buckets rnd start [] ms = ms"
| "shuffle_buckets rnd start (b # bs) ms =
     (if start = b then shuffle_buckets rnd start bs ms
      else shuffle_buckets rnd b bs (random_shuffle rnd start b ms))"

fun index_pieces :: "nat \<Rightarrow> nat option list \<Rightarrow> piece_pos list \<Rightarrow> piece_pos list option" where
  "index_pieces i [] ps = Some ps"
| "index_pieces i (m # ms) ps =
     (case m of
        None \<Rightarrow> None
      | Some x \<Rightarrow> if x < length ps then index_pieces (i + 1) ms (ps[x := (ps ! x)\<lparr>pos_index := i\<rparr>]) else None)"

definition update_pieces :: "(nat \<Rightarrow> nat) \<Rightarrow> picker \<Rightarrow> picker option" where
  "update_pieces rnd k =
     (let bs0 = replicate (if pk_bounds k = [] then 1 else length (pk_bounds k)) 0;
          (ps, counts) = count_pieces (pk_seeds k) (pk_map k) bs0;
          bs = sums 0 counts;
          total = last bs;
          ms0 = take total (pk_pieces k) @ replicate (total - length (pk_pieces k)) (Some 0)
      in do {
        ms \<leftarrow> fill_pieces (pk_seeds k) bs 0 ps ms0;
        let ms1 = shuffle_buckets rnd 0 bs ms;
        ps1 \<leftarrow> index_pieces 0 ms1 ps;
        Some (k\<lparr>pk_bounds := bs, pk_pieces := ms1, pk_map := ps1, pk_dirty := False\<rparr>)
      })"

subsection \<open>Counting\<close>

definition nth0 :: "nat list \<Rightarrow> nat \<Rightarrow> nat" where
  "nth0 bs q = (if q < length bs then bs ! q else 0)"

definition cnt :: "nat \<Rightarrow> piece_pos list \<Rightarrow> nat \<Rightarrow> nat" where
  "cnt seeds ps q = length (filter (\<lambda>p. priority seeds p = Some q) ps)"

lemma cnt_simps [simp]:
  "cnt seeds [] q = 0"
  "cnt seeds (p # ps) q = (if priority seeds p = Some q then 1 else 0) + cnt seeds ps q"
  by (simp_all add: cnt_def)

lemma nth0_grow: "nth0 (bs @ replicate n 0) q = nth0 bs q"
  by (auto simp: nth0_def nth_append)

lemma nth0_update: "q < length bs \<Longrightarrow> nth0 (bs[q := e]) r = (if r = q then e else nth0 bs r)"
  by (auto simp: nth0_def)

lemma count_pieces_ok:
  assumes "count_pieces seeds ps bs = (ps1, bs1)"
  shows "length ps1 = length ps \<and> length bs \<le> length bs1 \<and>
    (\<forall>q. nth0 bs1 q = nth0 bs q + cnt seeds ps q) \<and>
    (\<forall>x < length ps. case priority seeds (ps ! x) of
        None \<Rightarrow> ps1 ! x = ps ! x
      | Some q \<Rightarrow> q < length bs1 \<and> ps1 ! x = (ps ! x)\<lparr>pos_index := nth0 bs q + cnt seeds (take x ps) q\<rparr>)"
  using assms
proof (induction ps arbitrary: bs ps1 bs1)
  case (Cons p ps)
  show ?case
  proof (cases "priority seeds p")
    case None
    with Cons.prems obtain ps2 where p2: "count_pieces seeds ps bs = (ps2, bs1)" "ps1 = p # ps2"
      by (auto split: prod.splits)
    note ih = Cons.IH [OF p2(1)]
    have "case priority seeds ((p # ps) ! x) of
        None \<Rightarrow> ps1 ! x = (p # ps) ! x
      | Some r \<Rightarrow> r < length bs1 \<and>
          ps1 ! x = ((p # ps) ! x)\<lparr>pos_index := nth0 bs r + cnt seeds (take x (p # ps)) r\<rparr>"
      if "x < length (p # ps)" for x
      using ih None p2(2) that by (cases x) (auto split: option.splits)
    with ih None p2(2) show ?thesis by simp
  next
    case (Some q)
    let ?b = "bs @ replicate (Suc q - length bs) 0"
    from Some Cons.prems obtain ps2 where p2: "count_pieces seeds ps (?b[q := ?b ! q + 1]) = (ps2, bs1)"
      "ps1 = p\<lparr>pos_index := ?b ! q\<rparr> # ps2" by (auto simp: Let_def split: prod.splits)
    have q: "q < length ?b" by simp
    have bq: "?b ! q = nth0 bs q" using nth0_grow [of bs "Suc q - length bs" q] q by (simp add: nth0_def)
    have n: "nth0 (?b[q := ?b ! q + 1]) r = (if r = q then nth0 bs q + 1 else nth0 bs r)" for r
      unfolding nth0_update [OF q] bq nth0_grow by simp
    note ih = Cons.IH [OF p2(1)]
    have l: "length bs \<le> length bs1" "q < length bs1" using ih by auto
    have "\<forall>x < length (p # ps). case priority seeds ((p # ps) ! x) of
        None \<Rightarrow> ps1 ! x = (p # ps) ! x
      | Some r \<Rightarrow> r < length bs1 \<and>
          ps1 ! x = ((p # ps) ! x)\<lparr>pos_index := nth0 bs r + cnt seeds (take x (p # ps)) r\<rparr>"
    proof (intro allI impI)
      fix x assume x: "x < length (p # ps)"
      show "case priority seeds ((p # ps) ! x) of
        None \<Rightarrow> ps1 ! x = (p # ps) ! x
      | Some r \<Rightarrow> r < length bs1 \<and>
          ps1 ! x = ((p # ps) ! x)\<lparr>pos_index := nth0 bs r + cnt seeds (take x (p # ps)) r\<rparr>"
      proof (cases x)
        case 0
        with Some p2(2) bq l show ?thesis by simp
      next
        case (Suc y)
        with x have "y < length ps" by simp
        with ih n Some Suc p2(2) show ?thesis by (auto split: option.splits)
      qed
    qed
    with ih n Some l p2(2) show ?thesis by auto
  qed
qed simp

lemma sums_nth:
  "length (sums a bs) = length bs"
  "i < length bs \<Longrightarrow> sums a bs ! i = a + sum_list (take (Suc i) bs)"
proof -
  show "length (sums a bs) = length bs" by (induction bs arbitrary: a) auto
  show "i < length bs \<Longrightarrow> sums a bs ! i = a + sum_list (take (Suc i) bs)"
    by (induction bs arbitrary: a i) (auto simp: nth_Cons' take_Cons' split: if_splits)
qed

lemma sums_start: "i < length bs \<Longrightarrow> range_start (sums 0 bs) i = sum_list (take i bs)"
  by (auto simp: range_start_def sums_nth)

lemma sums_end: "i < length bs \<Longrightarrow> sums 0 bs ! i = range_start (sums 0 bs) i + bs ! i"
  by (simp add: sums_start sums_nth take_Suc_conv_app_nth)

lemma sums_sorted: "sorted (sums 0 bs)"
proof -
  have "sorted (sums a bs) \<and> (\<forall>x \<in> set (sums a bs). a \<le> x)" for a
    by (induction bs arbitrary: a) (auto, meson le_add1 le_trans)
  then show ?thesis by blast
qed

subsection \<open>Filling\<close>

definition slot :: "nat \<Rightarrow> nat list \<Rightarrow> piece_pos \<Rightarrow> nat option" where
  "slot seeds bs p = map_option (\<lambda>q. range_start bs q + pos_index p) (priority seeds p)"

lemma fill_pieces_ok:
  assumes "\<forall>j q. j < length ps \<longrightarrow> priority seeds (ps ! j) = Some q \<longrightarrow> q < length bs"
    and "\<forall>j i. j < length ps \<longrightarrow> slot seeds bs (ps ! j) = Some i \<longrightarrow> i < length ms"
    and "\<forall>j j' i. j < length ps \<longrightarrow> j' < length ps \<longrightarrow> slot seeds bs (ps ! j) = Some i \<longrightarrow>
      slot seeds bs (ps ! j') = Some i \<longrightarrow> j = j'"
  shows "\<exists>ms'. fill_pieces seeds bs x ps ms = Some ms' \<and> length ms' = length ms \<and>
    (\<forall>j < length ps. \<forall>i. slot seeds bs (ps ! j) = Some i \<longrightarrow> ms' ! i = Some (x + j)) \<and>
    (\<forall>i. (\<forall>j < length ps. slot seeds bs (ps ! j) \<noteq> Some i) \<longrightarrow> ms' ! i = ms ! i)"
  using assms
proof (induction ps arbitrary: x ms)
  case (Cons p ps)
  define ms1 where "ms1 = (case slot seeds bs p of None \<Rightarrow> ms | Some i \<Rightarrow> ms[i := Some x])"
  have l: "length ms1 = length ms" by (simp add: ms1_def split: option.split)
  have h: "priority seeds p = Some q \<Longrightarrow> q < length bs" "slot seeds bs p = Some i \<Longrightarrow> i < length ms" for q i
    using Cons.prems(1,2) by (metis length_greater_0_conv list.discI nth_Cons_0)+
  then have e: "fill_pieces seeds bs x (p # ps) ms = fill_pieces seeds bs (x + 1) ps ms1"
    by (auto simp: ms1_def slot_def split: option.splits)
  have p1: "\<forall>j q. j < length ps \<longrightarrow> priority seeds (ps ! j) = Some q \<longrightarrow> q < length bs"
    using Cons.prems(1) by (metis Suc_mono length_Cons nth_Cons_Suc)
  have p2: "\<forall>j i. j < length ps \<longrightarrow> slot seeds bs (ps ! j) = Some i \<longrightarrow> i < length ms1"
    using Cons.prems(2) l by (metis Suc_mono length_Cons nth_Cons_Suc)
  have p3: "\<forall>j j' i. j < length ps \<longrightarrow> j' < length ps \<longrightarrow> slot seeds bs (ps ! j) = Some i \<longrightarrow>
      slot seeds bs (ps ! j') = Some i \<longrightarrow> j = j'"
    using Cons.prems(3) by (metis Suc_mono length_Cons nth_Cons_Suc nat.inject)
  obtain ms' where m: "fill_pieces seeds bs (x + 1) ps ms1 = Some ms'" "length ms' = length ms1"
    "\<forall>j < length ps. \<forall>i. slot seeds bs (ps ! j) = Some i \<longrightarrow> ms' ! i = Some (x + 1 + j)"
    "\<forall>i. (\<forall>j < length ps. slot seeds bs (ps ! j) \<noteq> Some i) \<longrightarrow> ms' ! i = ms1 ! i"
    using Cons.IH [where x = "x + 1", OF p1 p2 p3] by blast
  have "ms' ! i = Some (x + j)" if "j < length (p # ps)" "slot seeds bs ((p # ps) ! j) = Some i" for j i
  proof (cases j)
    case 0
    then have "slot seeds bs p = Some i" using that by simp
    moreover from this have "slot seeds bs (ps ! j') \<noteq> Some i" if "j' < length ps" for j'
      using Cons.prems(3) [rule_format, of 0 "Suc j'" i] that by auto
    moreover have "i < length ms" using h(2) calculation(1) by simp
    ultimately show ?thesis using m(4) 0 by (simp add: ms1_def)
  next
    case (Suc j')
    with m(3) that show ?thesis by simp
  qed
  moreover have "ms' ! i = ms ! i" if "\<forall>j < length (p # ps). slot seeds bs ((p # ps) ! j) \<noteq> Some i" for i
  proof -
    have "slot seeds bs p \<noteq> Some i" using that by (metis length_greater_0_conv list.discI nth_Cons_0)
    moreover have "\<forall>j < length ps. slot seeds bs (ps ! j) \<noteq> Some i"
      using that by (metis Suc_mono length_Cons nth_Cons_Suc)
    ultimately show ?thesis using m(4) by (auto simp: ms1_def split: option.splits)
  qed
  ultimately show ?case using m(1,2) l e by auto
qed simp

subsection \<open>Shuffling\<close>

definition in_place :: "(nat \<Rightarrow> nat option) \<Rightarrow> nat list \<Rightarrow> nat option list \<Rightarrow> bool" where
  "in_place prio bs ms \<longleftrightarrow> (\<forall>i < length ms. \<exists>x q. ms ! i = Some x \<and> prio x = Some q \<and> in_bucket bs q i)"

lemma mset_swap_at: "i < length xs \<Longrightarrow> j < length xs \<Longrightarrow> mset (swap_at i j xs) = mset xs"
  by (simp add: swap_at_def mset_swap)

lemma swap_in_place:
  assumes "in_place prio bs ms" "in_bucket bs r i" "in_bucket bs r j" "i < length ms" "j < length ms" "sorted bs"
  shows "in_place prio bs (swap_at i j ms)"
  unfolding in_place_def
proof (intro allI impI)
  fix l assume l: "l < length (swap_at i j ms)"
  define l' where "l' = (if l = i then j else if l = j then i else l)"
  have l': "l' < length ms" "swap_at i j ms ! l = ms ! l'"
    using l assms(4,5) by (auto simp: l'_def swap_at_def nth_list_update)
  obtain x q where x: "ms ! l' = Some x" "prio x = Some q" "in_bucket bs q l'"
    using assms(1) l'(1) by (auto simp: in_place_def)
  have "in_bucket bs q l"
    using x(3) assms(2,3) bucket_unique [OF assms(6), of q l' r] by (auto simp: l'_def split: if_splits)
  with x l' show "\<exists>x q. swap_at i j ms ! l = Some x \<and> prio x = Some q \<and> in_bucket bs q l" by auto
qed

lemma foldl_invariant:
  assumes "P s" "\<And>s x. x \<in> set xs \<Longrightarrow> P s \<Longrightarrow> P (f s x)"
  shows "P (foldl f s xs)"
  using assms by (induction xs arbitrary: s) auto

lemma random_shuffle_ok:
  assumes "in_place prio bs ms" "sorted bs" "r < length bs" "bs ! r \<le> length ms"
  shows "in_place prio bs (random_shuffle rnd (range_start bs r) (bs ! r) ms) \<and>
    mset (random_shuffle rnd (range_start bs r) (bs ! r) ms) = mset ms"
proof -
  let ?P = "\<lambda>xs. in_place prio bs xs \<and> mset xs = mset ms"
  show ?thesis
    unfolding random_shuffle_def
  proof (rule foldl_invariant [where P = ?P])
    fix xs i assume i: "i \<in> set [range_start bs r + 1..<bs ! r]" and xs: "?P xs"
    let ?j = "range_start bs r + rnd i mod (i - range_start bs r + 1)"
    have len: "length xs = length ms" using xs by (metis size_mset)
    have shift: "a + m \<le> i" if "m < i - a + 1" "a + 1 \<le> i" for a m using that by simp
    have "?j \<le> i" by (rule shift [OF mod_less_divisor]) (use i in auto)
    then have b: "in_bucket bs r i" "in_bucket bs r ?j" and l: "i < length xs" "?j < length xs"
      using i assms(3,4) len by (auto simp: in_bucket_def)
    show "?P (swap_at i ?j xs)"
      using swap_in_place [OF _ b l assms(2)] mset_swap_at [OF l] xs by simp
  qed (use assms(1) in simp)
qed

lemma shuffle_buckets_ok:
  assumes "in_place prio bs ms" "sorted bs" "drop r bs = rest" "start = range_start bs r" "r \<le> length bs"
    "\<forall>b \<in> set bs. b \<le> length ms"
  shows "in_place prio bs (shuffle_buckets rnd start rest ms) \<and> mset (shuffle_buckets rnd start rest ms) = mset ms"
  using assms
proof (induction rest arbitrary: r start ms)
  case (Cons b rest)
  then have r: "r < length bs" by (metis drop_all list.distinct(1) not_le)
  then have b: "bs ! r = b" "drop (Suc r) bs = rest"
    using Cons.prems(3) by (simp_all add: Cons_nth_drop_Suc [symmetric])
  have nb: "b = range_start bs (Suc r)" using b by (simp add: range_start_def)
  show ?case
  proof (cases "start = b")
    case True
    with Cons.IH [OF Cons.prems(1,2) b(2)] Cons.prems r nb show ?thesis by simp
  next
    case False
    let ?m = "random_shuffle rnd start b ms"
    have m: "in_place prio bs ?m" "mset ?m = mset ms"
      using random_shuffle_ok [OF Cons.prems(1,2) r, of rnd] Cons.prems(4,6) b(1) r by auto
    then have "length ?m = length ms" by (metis size_mset)
    with Cons.IH [OF m(1) Cons.prems(2) b(2) nb] m Cons.prems(6) r False show ?thesis by simp
  qed
qed simp

subsection \<open>Indexing\<close>

lemma index_pieces_ok:
  assumes "\<And>j. j < length ms \<Longrightarrow> \<exists>x. ms ! j = Some x \<and> x < length ps" "distinct ms"
  shows "\<exists>ps'. index_pieces i ms ps = Some ps' \<and> length ps' = length ps \<and>
    (\<forall>j < length ms. ps' ! the (ms ! j) = (ps ! the (ms ! j))\<lparr>pos_index := i + j\<rparr>) \<and>
    (\<forall>x. Some x \<notin> set ms \<longrightarrow> ps' ! x = ps ! x)"
  using assms
proof (induction ms arbitrary: i ps)
  case (Cons m ms)
  obtain x where x: "m = Some x" "x < length ps" using Cons.prems(1) [of 0] by auto
  let ?ps = "ps[x := (ps ! x)\<lparr>pos_index := i\<rparr>]"
  have "\<exists>y. ms ! j = Some y \<and> y < length ?ps" if "j < length ms" for j
    using Cons.prems(1) [of "Suc j"] that by simp
  moreover have d: "distinct ms" "Some x \<notin> set ms" using Cons.prems(2) x(1) by simp_all
  ultimately obtain ps' where p: "index_pieces (i + 1) ms ?ps = Some ps'" "length ps' = length ?ps"
    "\<forall>j < length ms. ps' ! the (ms ! j) = (?ps ! the (ms ! j))\<lparr>pos_index := i + 1 + j\<rparr>"
    "\<forall>y. Some y \<notin> set ms \<longrightarrow> ps' ! y = ?ps ! y"
    using Cons.IH [of ?ps "i + 1"] by blast
  have "ps' ! the ((m # ms) ! j) = (ps ! the ((m # ms) ! j))\<lparr>pos_index := i + j\<rparr>" if "j < length (m # ms)" for j
  proof (cases j)
    case 0
    with p(4) d x show ?thesis by simp
  next
    case (Suc j')
    then have j': "j' < length ms" using that by simp
    obtain y where "ms ! j' = Some y" using Cons.prems(1) [of "Suc j'"] j' by auto
    with nth_mem [OF j'] d(2) have "the (ms ! j') \<noteq> x" by (cases "y = x") auto
    with p(3) j' Suc show ?thesis by simp
  qed
  moreover have "ps' ! y = ps ! y" if "Some y \<notin> set (m # ms)" for y
    using p(4) that x by auto
  ultimately show ?case using p(1,2) x by simp
qed simp

subsection \<open>The result\<close>

lemma cnt_take:
  assumes "x < length ps" "priority seeds (ps ! x) = Some q"
  shows "cnt seeds (take (Suc x) ps) q = cnt seeds (take x ps) q + 1"
  using assms by (simp add: cnt_def take_Suc_conv_app_nth)

lemma cnt_mono: "x \<le> y \<Longrightarrow> cnt seeds (take x ps) q \<le> cnt seeds (take y ps) q"
proof -
  assume "x \<le> y"
  then have "take y ps = take x ps @ take (y - x) (drop x ps)" by (metis le_add_diff_inverse take_add)
  then show ?thesis by (simp add: cnt_def)
qed

lemma cnt_total: "sum_list bs = card {x. x < length ps \<and> priority seeds (ps ! x) \<noteq> None}"
  if "\<forall>q < length bs. bs ! q = cnt seeds ps q" "\<forall>x q. x < length ps \<longrightarrow> priority seeds (ps ! x) = Some q \<longrightarrow> q < length bs"
proof -
  let ?S = "\<lambda>q. {x. x < length ps \<and> priority seeds (ps ! x) = Some q}"
  have "sum_list bs = (\<Sum>q < length bs. card (?S q))"
    using that(1) by (simp add: sum_list_sum_nth cnt_def length_filter_conv_card atLeast0LessThan)
  also have "\<dots> = card (\<Union>q < length bs. ?S q)" by (rule card_UN_disjoint [symmetric]) auto
  also have "(\<Union>q < length bs. ?S q) = {x. x < length ps \<and> priority seeds (ps ! x) \<noteq> None}"
    using that(2) by auto
  finally show ?thesis .
qed

lemma sums_Nil [simp]: "sums a bs = [] \<longleftrightarrow> bs = []"
  by (cases bs) simp_all

lemma last_sums: "bs \<noteq> [] \<Longrightarrow> last (sums a bs) = a + sum_list bs"
  by (induction bs arbitrary: a) auto

text \<open>The positions the counts give: each in its bucket, no two the same, none left over.\<close>

lemma slots_ok:
  fixes ps :: "piece_pos list" and seeds :: nat and counts bs :: "nat list" and pos :: "nat \<Rightarrow> nat option"
  assumes c: "\<forall>q < length counts. counts ! q = cnt seeds ps q"
    and l: "\<forall>x q. x < length ps \<longrightarrow> priority seeds (ps ! x) = Some q \<longrightarrow> q < length counts"
  defines "bs \<equiv> sums 0 counts"
    and "pos \<equiv> \<lambda>x. map_option (\<lambda>q. range_start bs q + cnt seeds (take x ps) q) (priority seeds (ps ! x))"
  shows "\<And>x q. x < length ps \<Longrightarrow> priority seeds (ps ! x) = Some q \<Longrightarrow> in_bucket bs q (the (pos x))"
    "\<And>x y i. x < length ps \<Longrightarrow> y < length ps \<Longrightarrow> pos x = Some i \<Longrightarrow> pos y = Some i \<Longrightarrow> x = y"
    "\<And>i. i < sum_list counts \<Longrightarrow> \<exists>x < length ps. pos x = Some i"
proof -
  have s: "sorted bs" by (simp add: bs_def sums_sorted)
  have lb: "length bs = length counts" by (simp add: bs_def sums_nth)
  show b: "in_bucket bs q (the (pos x))" if "x < length ps" "priority seeds (ps ! x) = Some q" for x q
  proof -
    have q: "q < length counts" using l that by blast
    have "cnt seeds (take (Suc x) ps) q \<le> cnt seeds (take (length ps) ps) q" by (rule cnt_mono) (use that in simp)
    then have "cnt seeds (take x ps) q < counts ! q" using cnt_take [OF that] c q by simp
    moreover have "bs ! q = range_start bs q + counts ! q" using sums_end [OF q] by (simp add: bs_def)
    ultimately show ?thesis using that(2) q lb by (simp add: in_bucket_def pos_def)
  qed
  have lt: "pos x \<noteq> pos y" if less: "x < y" "y < length ps" and px: "pos x = Some i" for x y i
  proof
    assume e: "pos x = pos y"
    obtain q where q: "priority seeds (ps ! x) = Some q" using px by (auto simp: pos_def)
    have "pos y = Some i" using px e by simp
    then obtain r where r: "priority seeds (ps ! y) = Some r" by (auto simp: pos_def)
    have "in_bucket bs q i" "in_bucket bs r i"
      using b [OF _ q] b [OF less(2) r] less px e by simp_all
    then have qr: "q = r" by (rule bucket_unique [OF s])
    have "cnt seeds (take (Suc x) ps) q \<le> cnt seeds (take y ps) q" by (rule cnt_mono) (use less in simp)
    with cnt_take [of x ps seeds q] q less have "cnt seeds (take x ps) q < cnt seeds (take y ps) q" by simp
    with e q r qr show False by (simp add: pos_def)
  qed
  show inj: "x = y" if "x < length ps" "y < length ps" "pos x = Some i" "pos y = Some i" for x y i
    using lt [of x y i] lt [of y x i] that by (metis linorder_neqE_nat)
  let ?D = "{x. x < length ps \<and> priority seeds (ps ! x) \<noteq> None}"
  have "inj_on (\<lambda>x. the (pos x)) ?D"
    by (rule inj_onI) (use inj in \<open>auto simp: pos_def\<close>)
  then have ci: "card ((\<lambda>x. the (pos x)) ` ?D) = sum_list counts"
    using cnt_total [OF c l] by (simp add: card_image)
  have "(\<lambda>x. the (pos x)) ` ?D \<subseteq> {..<sum_list counts}"
  proof
    fix i assume "i \<in> (\<lambda>x. the (pos x)) ` ?D"
    then obtain x q where "x < length ps" "priority seeds (ps ! x) = Some q" "i = the (pos x)" by auto
    with b [of x q] have i: "in_bucket bs q i" by simp
    then have "i < last bs" by (rule bucket_below_last [OF s])
    moreover have "bs \<noteq> []" using i by (auto simp: in_bucket_def)
    ultimately show "i \<in> {..<sum_list counts}"
      using last_sums [of counts 0] by (simp add: bs_def)
  qed
  then have "(\<lambda>x. the (pos x)) ` ?D = {..<sum_list counts}"
    using ci by (intro card_subset_eq) simp_all
  then show "\<exists>x < length ps. pos x = Some i" if "i < sum_list counts" for i
  proof -
    have "i \<in> (\<lambda>x. the (pos x)) ` ?D" using that \<open>(\<lambda>x. the (pos x)) ` ?D = {..<sum_list counts}\<close> by simp
    then show ?thesis by (auto simp: pos_def)
  qed
qed

lemma priority_reindex:
  "\<not> pp_have p \<Longrightarrow> i \<noteq> we_have_index \<Longrightarrow> priority s (p\<lparr>pos_index := i\<rparr>) = priority s p"
  by (rule prio_of_place)

theorem update_pieces_ok:
  assumes l: "length (pk_map k) < we_have_index"
  shows "\<exists>k'. update_pieces rnd k = Some k' \<and> buckets_ok k' \<and> \<not> pk_dirty k' \<and> reindexed (k\<lparr>pk_dirty := False\<rparr>) k'"
proof -
  let ?s = "pk_seeds k" and ?m = "pk_map k"
  let ?b0 = "replicate (if pk_bounds k = [] then 1 else length (pk_bounds k)) (0::nat)"
  obtain ps counts where pc: "count_pieces ?s ?m ?b0 = (ps, counts)" by fastforce
  have z: "nth0 ?b0 q = 0" for q by (simp add: nth0_def)
  note cp = count_pieces_ok [OF pc, unfolded z]
  have lp: "length ps = length ?m" and lc: "0 < length counts" using cp by (auto split: if_splits)
  have "nth0 counts q = cnt ?s ?m q" for q using cp by simp
  then have c: "\<forall>q < length counts. counts ! q = cnt ?s ?m q" by (metis nth0_def)
  have ql: "\<forall>x q. x < length ?m \<longrightarrow> priority ?s (?m ! x) = Some q \<longrightarrow> q < length counts"
  proof (intro allI impI)
    fix x q assume x: "x < length ?m" "priority ?s (?m ! x) = Some q"
    from cp x(1) have "case priority ?s (?m ! x) of None \<Rightarrow> ps ! x = ?m ! x
      | Some q \<Rightarrow> q < length counts \<and> ps ! x = (?m ! x)\<lparr>pos_index := 0 + cnt ?s (take x ?m) q\<rparr>" by blast
    with x(2) show "q < length counts" by simp
  qed
  define bs where "bs = sums 0 counts"
  note so = slots_ok [OF c ql, folded bs_def]
  have sb: "sorted bs" "bs \<noteq> []" "length bs = length counts"
    using lc sums_nth(1) [of 0 counts] by (auto simp: bs_def sums_sorted)
  have total: "last bs = sum_list counts" using sb(2) last_sums [of counts 0] by (simp add: bs_def)
  have cntl: "cnt ?s (take x ?m) q \<le> length ?m" for x q
    using length_filter_le [of _ "take x ?m"] by (simp add: cnt_def)
  have p: "ps ! x = (case priority ?s (?m ! x) of None \<Rightarrow> ?m ! x
      | Some q \<Rightarrow> (?m ! x)\<lparr>pos_index := cnt ?s (take x ?m) q\<rparr>)" if "x < length ?m" for x
    using cp that by (auto split: option.splits)
  have sp: "same_piece (?m ! x) (ps ! x)" if "x < length ?m" for x
  proof (cases "priority ?s (?m ! x)")
    case (Some q)
    then show ?thesis
      using p [OF that] cntl [of x q] l priority_have [OF Some] by (auto simp: same_piece_def pp_have_def)
  qed (use p [OF that] in simp)
  have pr: "priority ?s (ps ! x) = priority ?s (?m ! x)" if "x < length ?m" for x
    by (rule same_piece_priority [OF sp [OF that]])
  have slot: "slot ?s bs (ps ! x) =
      map_option (\<lambda>q. range_start bs q + cnt ?s (take x ?m) q) (priority ?s (?m ! x))" if "x < length ?m" for x
    using p [OF that] pr [OF that] by (cases "priority ?s (?m ! x)") (simp_all add: slot_def)
  define ms0 where "ms0 = take (last bs) (pk_pieces k) @ replicate (last bs - length (pk_pieces k)) (Some 0)"
  have l0: "length ms0 = last bs" by (simp add: ms0_def)
  have bk: "in_bucket bs q i" if "x < length ?m" "priority ?s (?m ! x) = Some q" "slot ?s bs (ps ! x) = Some i" for x q i
    using so(1) [OF that(1,2)] slot [OF that(1)] that by simp
  have f1: "\<forall>j q. j < length ps \<longrightarrow> priority ?s (ps ! j) = Some q \<longrightarrow> q < length bs"
    using ql pr sb(3) lp by auto
  have f2: "\<forall>j i. j < length ps \<longrightarrow> slot ?s bs (ps ! j) = Some i \<longrightarrow> i < length ms0"
  proof (intro allI impI)
    fix j i assume j: "j < length ps" "slot ?s bs (ps ! j) = Some i"
    then obtain q where "priority ?s (?m ! j) = Some q" using slot [of j] lp by auto
    from bucket_below_last [OF sb(1) bk [OF _ this j(2)]] j l0 lp show "i < length ms0" by simp
  qed
  have f3: "\<forall>j j' i. j < length ps \<longrightarrow> j' < length ps \<longrightarrow> slot ?s bs (ps ! j) = Some i \<longrightarrow>
      slot ?s bs (ps ! j') = Some i \<longrightarrow> j = j'"
    using so(2) slot lp by simp
  obtain ms where ms: "fill_pieces ?s bs 0 ps ms0 = Some ms" "length ms = length ms0"
    "\<forall>j < length ps. \<forall>i. slot ?s bs (ps ! j) = Some i \<longrightarrow> ms ! i = Some (0 + j)"
    using fill_pieces_ok [OF f1 f2 f3, of 0] by blast
  let ?prio = "\<lambda>x. if x < length ?m then priority ?s (?m ! x) else None"
  have at: "\<exists>x < length ?m. slot ?s bs (ps ! x) = Some i \<and> ms ! i = Some x" if i: "i < length ms" for i
  proof -
    have "i < sum_list counts" using i ms(2) l0 total by simp
    from so(3) [OF this] obtain x where x: "x < length ?m"
      "map_option (\<lambda>q. range_start bs q + cnt ?s (take x ?m) q) (priority ?s (?m ! x)) = Some i" by auto
    then have "slot ?s bs (ps ! x) = Some i" using slot [OF x(1)] by simp
    with ms(3) x(1) lp show ?thesis by auto
  qed
  have ip: "in_place ?prio bs ms"
    unfolding in_place_def
  proof (intro allI impI)
    fix i assume "i < length ms"
    from at [OF this] obtain x where x: "x < length ?m" "slot ?s bs (ps ! x) = Some i" "ms ! i = Some x" by blast
    moreover obtain q where "priority ?s (?m ! x) = Some q" using x slot [OF x(1)] by auto
    ultimately show "\<exists>x q. ms ! i = Some x \<and> ?prio x = Some q \<and> in_bucket bs q i" using bk by auto
  qed
  have dm: "distinct ms"
    unfolding distinct_conv_nth
  proof (intro allI impI notI)
    fix i j assume ij: "i < length ms" "j < length ms" "i \<noteq> j" "ms ! i = ms ! j"
    from at [OF ij(1)] at [OF ij(2)] ij(4) obtain x where
      "slot ?s bs (ps ! x) = Some i" "slot ?s bs (ps ! x) = Some j" by auto
    with ij(3) show False by simp
  qed
  let ?ms = "shuffle_buckets rnd 0 bs ms"
  have ble: "\<forall>b \<in> set bs. b \<le> length ms"
  proof
    fix b assume "b \<in> set bs"
    then obtain j where "j < length bs" "b = bs ! j" by (auto simp: in_set_conv_nth)
    then show "b \<le> length ms"
      using sorted_nth_mono [OF sb(1), of j "length bs - 1"] sb(2) l0 ms(2) by (simp add: last_conv_nth)
  qed
  have sh: "in_place ?prio bs ?ms" "mset ?ms = mset ms"
    using shuffle_buckets_ok [OF ip sb(1), of 0 bs 0 rnd] ble by (auto simp: range_start_def)
  have lm: "length ?ms = last bs" using sh(2) ms(2) l0 by (metis size_mset)
  have ds: "distinct ?ms" "set ?ms = set ms" using sh(2) dm by (metis mset_eq_imp_distinct_iff, metis set_mset_mset)
  obtain ps' where ps': "index_pieces 0 ?ms ps = Some ps'" "length ps' = length ps"
    "\<forall>j < length ?ms. ps' ! the (?ms ! j) = (ps ! the (?ms ! j))\<lparr>pos_index := 0 + j\<rparr>"
    "\<forall>x. Some x \<notin> set ?ms \<longrightarrow> ps' ! x = ps ! x"
  proof (rule exE [OF index_pieces_ok [of ?ms ps 0]])
    show "\<exists>x. ?ms ! j = Some x \<and> x < length ps" if "j < length ?ms" for j
      using sh(1) that lp by (auto simp: in_place_def split: if_splits)
  qed (use ds(1) in auto)
  let ?k = "k\<lparr>pk_bounds := bs, pk_pieces := ?ms, pk_map := ps', pk_dirty := False\<rparr>"
  have up: "update_pieces rnd k = Some ?k"
    using pc ms(1) ps'(1) by (simp add: update_pieces_def Let_def bs_def [symmetric] ms0_def [symmetric])
  have "length ms \<le> length ?m"
  proof -
    have "inj_on (\<lambda>i. the (ms ! i)) {..<length ms}"
    proof (rule inj_onI)
      fix i j assume ij: "i \<in> {..<length ms}" "j \<in> {..<length ms}" "the (ms ! i) = the (ms ! j)"
      then obtain x y where "ms ! i = Some x" "ms ! j = Some y" using at [of i] at [of j] by auto
      with ij dm show "i = j" by (auto simp: nth_eq_iff_index_eq [symmetric])
    qed
    moreover have "(\<lambda>i. the (ms ! i)) ` {..<length ms} \<subseteq> {..<length ?m}" using at by fastforce
    ultimately have "card {..<length ms} \<le> card {..<length ?m}" by (rule card_inj_on_le) simp
    then show ?thesis by simp
  qed
  then have nw: "j \<noteq> we_have_index" if "j < length ?ms" for j using that lm ms(2) l0 l by simp
  have sp': "same_piece (?m ! x) (ps' ! x)" if x: "x < length ?m" for x
  proof (cases "Some x \<in> set ?ms")
    case False
    with ps'(4) sp [OF x] show ?thesis by simp
  next
    case True
    then obtain j where j: "j < length ?ms" "?ms ! j = Some x" by (auto simp: in_set_conv_nth)
    with sh(1) x obtain q where "priority ?s (?m ! x) = Some q" by (auto simp: in_place_def)
    then have "\<not> pp_have (?m ! x)" by (rule priority_have)
    moreover have "ps' ! x = (ps ! x)\<lparr>pos_index := j\<rparr>" using ps'(3) j by force
    ultimately show ?thesis using sp [OF x] nw [OF j(1)] by (auto simp: same_piece_def pp_have_def)
  qed
  have "filed {} {} ?k"
    unfolding filed_def
  proof (intro conjI allI impI)
    fix i assume "i < length (pk_pieces ?k)" "i \<notin> {}"
    then have i: "i < length ?ms" by simp
    from sh(1) i obtain x q where x: "?ms ! i = Some x" "x < length ?m" "priority ?s (?m ! x) = Some q" "in_bucket bs q i"
      by (fastforce simp: in_place_def split: if_splits)
    moreover have "pos_index (ps' ! x) = i" using ps'(3) i x(1) by force
    ultimately show "\<exists>x q. pk_pieces ?k ! i = Some x \<and> x < length (pk_map ?k) \<and> x \<notin> {} \<and>
        pos_index (pk_map ?k ! x) = i \<and> prio_of ?k x = Some q \<and> in_bucket (pk_bounds ?k) q i"
      using ps'(2) lp same_piece_priority [OF sp' [OF x(2)]] by simp
  next
    fix x assume "x < length (pk_map ?k)" "x \<notin> {} \<and> prio_of ?k x \<noteq> None"
    then have x: "x < length ?m" "priority ?s (?m ! x) \<noteq> None"
      using ps'(2) lp same_piece_priority [OF sp', of x ?s] by auto
    then obtain q where q: "priority ?s (?m ! x) = Some q" by auto
    obtain i where i: "slot ?s bs (ps ! x) = Some i" using slot [OF x(1)] q by simp
    have "Some x \<in> set ms" using ms(3) i x(1) lp f2 ms(2) by (metis add_0 nth_mem)
    then obtain j where j: "j < length ?ms" "?ms ! j = Some x" using ds(2) by (metis in_set_conv_nth)
    have "pos_index (ps' ! x) = j" using ps'(3) j by force
    with j show "pos_index (pk_map ?k ! x) < length (pk_pieces ?k)" "pos_index (pk_map ?k ! x) \<notin> {}"
      "pk_pieces ?k ! pos_index (pk_map ?k ! x) = Some x" by simp_all
  qed
  then have "buckets_ok ?k" using sb(1,2) lm l ps'(2) lp by (simp add: buckets_ok_def bounds_ok_def)
  moreover have "reindexed (k\<lparr>pk_dirty := False\<rparr>) ?k"
    using sp' ps'(2) lp by (simp add: reindexed_def list_all2_conv_all_nth)
  ultimately show ?thesis using up by auto
qed

corollary update_pieces_picker_ok:
  assumes "picker_ok k"
  shows "\<exists>k'. update_pieces rnd k = Some k' \<and> picker_ok k' \<and> \<not> pk_dirty k'"
proof -
  obtain k' where k': "update_pieces rnd k = Some k'" "buckets_ok k'" "\<not> pk_dirty k'"
    "reindexed (k\<lparr>pk_dirty := False\<rparr>) k'"
    using update_pieces_ok [OF picker_ok_simps(2) [OF assms]] by blast
  with picker_ok_reindexed [OF k'(4,2)] picker_ok_simps [OF assms] show ?thesis
    by (auto simp: counters_ok_def)
qed

end
