(* ===== verification/PickPieces.thy ===== *)
theory PickPieces
  imports PickerOps PickerSort
begin

section \<open>libtorrent/src/piece_picker.cpp: picking blocks for a peer\<close>

text \<open>
  \<^verbatim>\<open>pick_pieces\<close> fills a list with blocks to request from a peer. The arguments that do not change are the
  record \<open>pick_call\<close>, with the bits of \<^verbatim>\<open>options\<close> as booleans; the lists and the number of blocks still
  wanted are the record \<open>pick\<close>. A loop of the source that returns as soon as no more blocks are wanted gives
  \<open>True\<close> for having returned. The bits and the blocks of an entry are read only where the assertions of the
  source put them inside their vectors. The method is \<^verbatim>\<open>const\<close>, but rebuilds dirty buckets and, for the reverse
  order, appends empty buckets. \<^verbatim>\<open>random()\<close> is an argument, as in the other operations.
\<close>

type_synonym piece_block = "nat \<times> nat"

record pick_call =
  pc_pieces :: "bool list"
  pc_whole :: nat
  pc_peer :: "nat option"
  pc_speed :: piece_state
  pc_rarest_first :: bool
  pc_reverse :: bool
  pc_on_parole :: bool
  pc_partials :: bool
  pc_sequential :: bool
  pc_affinity :: bool
  pc_ignore_whole :: bool
  pc_critical :: bool

record pick =
  pi_blocks :: "piece_block list"
  pi_backup :: "piece_block list"
  pi_backup2 :: "piece_block list"
  pi_num :: int

subsection \<open>Pieces of a peer\<close>

definition is_piece_free :: "nat \<Rightarrow> bool list \<Rightarrow> picker \<Rightarrow> bool" where
  "is_piece_free x bits k \<longleftrightarrow> bits ! x \<and> \<not> pp_have (pk_map k ! x) \<and> \<not> filtered (pk_map k ! x)"

definition can_pick :: "nat \<Rightarrow> bool list \<Rightarrow> picker \<Rightarrow> bool" where
  "can_pick x bits k \<longleftrightarrow>
     bits ! x \<and> \<not> pp_have (pk_map k ! x) \<and> \<not> downloading (pk_map k ! x) \<and> \<not> filtered (pk_map k ! x)"

definition dl_blocks :: "downloading_piece \<Rightarrow> picker \<Rightarrow> block_info list" where
  "dl_blocks d k = take (blocks_in_piece (dp_index d) k) (drop (dp_info d) (pk_block_info k))"

text \<open>Whether the peer alone has requested or downloaded blocks, and whether it alone is active.\<close>

fun requested_from :: "nat option \<Rightarrow> block_info list \<Rightarrow> bool \<Rightarrow> bool \<times> bool" where
  "requested_from peer [] exclusive = (exclusive, True)"
| "requested_from peer (b # bs) exclusive =
     (if bi_state b \<noteq> StateNone \<and> bi_peer b \<noteq> peer
      then if bi_state b = StateRequested \<and> bi_peer b \<noteq> None then (False, False)
           else requested_from peer bs False
      else requested_from peer bs exclusive)"

fun speed_rank :: "piece_state \<Rightarrow> int" where
  "speed_rank NoSpeed = 0"
| "speed_rank Slow = 1"
| "speed_rank Medium = 2"
| "speed_rank Fast = 3"

fun add_free_blocks ::
    "pick_call \<Rightarrow> downloading_piece \<Rightarrow> bool \<Rightarrow> nat \<Rightarrow> block_info list \<Rightarrow> pick \<Rightarrow> bool \<times> pick" where
  "add_free_blocks c d active j [] s = (False, s)"
| "add_free_blocks c d active j (b # bs) s =
     (if bi_state b \<noteq> StateNone then add_free_blocks c d active (j + 1) bs s
      else if dp_state d \<noteq> NoSpeed \<and> dp_state d \<noteq> pc_speed c \<and> \<not> active \<and> pc_affinity c then
        if \<bar>speed_rank (dp_state d) - speed_rank (pc_speed c)\<bar> = 1 then
          if pi_num s \<le> int (length (pi_backup s)) then (True, s)
          else add_free_blocks c d active (j + 1) bs (s\<lparr>pi_backup := pi_backup s @ [(dp_index d, j)]\<rparr>)
        else
          if pi_num s \<le> int (length (pi_backup2 s)) then (True, s)
          else add_free_blocks c d active (j + 1) bs (s\<lparr>pi_backup2 := pi_backup2 s @ [(dp_index d, j)]\<rparr>)
      else
        (let s1 = s\<lparr>pi_blocks := pi_blocks s @ [(dp_index d, j)], pi_num := pi_num s - 1\<rparr>
         in if 0 < pc_whole c then add_free_blocks c d active (j + 1) bs s1
            else if pi_num s1 \<le> 0 then (True, s1)
            else add_free_blocks c d active (j + 1) bs s1))"

definition add_blocks_downloading :: "pick_call \<Rightarrow> downloading_piece \<Rightarrow> picker \<Rightarrow> pick \<Rightarrow> pick" where
  "add_blocks_downloading c d k s =
     (if \<not> pc_pieces c ! dp_index d then s
      else if filtered (pk_map k ! dp_index d) then s
      else
        (let bs = dl_blocks d k; (exclusive, active) = requested_from (pc_peer c) bs True
         in if pc_on_parole c \<and> \<not> exclusive then s
            else if 0 < pc_whole c \<and> \<not> active then
              (if pi_num s \<le> int (length (pi_backup2 s)) then s
               else s\<lparr>pi_backup2 := pi_backup2 s @
                        map (Pair (dp_index d)) (filter (\<lambda>j. bi_state (bs ! j) = StateNone) [0..<length bs])\<rparr>)
            else
              (let (ret, s1) = add_free_blocks c d active 0 bs s
               in if \<not> ret \<and> pi_num s1 \<le> 0 then s1\<lparr>pi_num := 0\<rparr> else s1)))"

text \<open>The range of free pieces around a piece, at most \<open>whole\<close> long.\<close>

fun expand_down :: "(nat \<Rightarrow> bool) \<Rightarrow> nat \<Rightarrow> nat \<Rightarrow> nat" where
  "expand_down free 0 s = s"
| "expand_down free (Suc n) s = (if 0 < s \<and> free (s - 1) then expand_down free n (s - 1) else s)"

function expand_up :: "(nat \<Rightarrow> bool) \<Rightarrow> nat \<Rightarrow> nat \<Rightarrow> nat" where
  "expand_up free limit e = (if e < limit \<and> free e then expand_up free limit (e + 1) else e)"
  by pat_completeness auto
termination
  by (relation "measure (\<lambda>(free, limit, e). limit - e)") auto

declare expand_up.simps [simp del]

definition expand_piece :: "nat \<Rightarrow> nat \<Rightarrow> bool list \<Rightarrow> picker \<Rightarrow> nat \<times> nat" where
  "expand_piece x whole bits k =
     (if whole = 0 then (x, x + 1)
      else
        (let start = expand_down (\<lambda>y. can_pick y bits k) (whole - 1) x
         in (start, expand_up (\<lambda>y. can_pick y bits k) (min (start + whole) (length (pk_map k))) (x + 1))))"

text \<open>\<^verbatim>\<open>verify_pick\<close>, the check of the debug build.\<close>

definition verify_pick :: "piece_block list \<Rightarrow> bool list \<Rightarrow> picker \<Rightarrow> bool" where
  "verify_pick picked bits k \<longleftrightarrow> length bits = length (pk_map k) \<and>
     list_all (\<lambda>b. fst b < length bits \<and> bits ! fst b \<and> \<not> pp_have (pk_map k ! fst b) \<and> \<not> filtered (pk_map k ! fst b)) picked"

text \<open>All the blocks of pieces.\<close>

definition whole_blocks :: "nat list \<Rightarrow> picker \<Rightarrow> piece_block list" where
  "whole_blocks xs k = concat (map (\<lambda>x. map (Pair x) [0..<blocks_in_piece x k]) xs)"

definition add_blocks :: "pick_call \<Rightarrow> nat list \<Rightarrow> picker \<Rightarrow> nat \<Rightarrow> pick \<Rightarrow> pick option" where
  "add_blocks c ignore k x s =
     (if x \<in> set ignore then Some s
      else do {
        p \<leftarrow> vec_at (pk_map k) x;
        if downloading p then
          if full p then Some s
          else if pc_partials c then Some s
          else do {
            i \<leftarrow> find_dl_piece x k;
            d \<leftarrow> vec_at (pk_downloads k) i;
            Some (add_blocks_downloading c d k s)
          }
        else
          let new = (if pc_whole c = 0
                     then map (Pair x) [0..<nat (min (int (blocks_in_piece x k)) (pi_num s))]
                     else (let (start, past) = expand_piece x (pc_whole c) (pc_pieces c) k
                           in whole_blocks [start..<past] k));
              num = pi_num s - int (length new)
          in Some (s\<lparr>pi_blocks := pi_blocks s @ new, pi_num := (if num \<le> 0 then 0 else num)\<rparr>)
      })"

subsection \<open>The passes over the pieces\<close>

text \<open>\<^verbatim>\<open>append_blocks\<close> from either list of backups.\<close>

definition append_backup :: "pick \<Rightarrow> pick" where
  "append_backup s =
     (if pi_backup s = [] then s
      else let n = min (int (length (pi_backup s))) (pi_num s)
           in s\<lparr>pi_blocks := pi_blocks s @ take (nat n) (pi_backup s), pi_backup := [], pi_num := pi_num s - n\<rparr>)"

definition append_backup2 :: "pick \<Rightarrow> pick" where
  "append_backup2 s =
     (if pi_backup2 s = [] then s
      else let n = min (int (length (pi_backup2 s))) (pi_num s)
           in s\<lparr>pi_blocks := pi_blocks s @ take (nat n) (pi_backup2 s), pi_backup2 := [], pi_num := pi_num s - n\<rparr>)"

text \<open>A loop over pieces: \<open>stop\<close> breaks it, \<open>skip\<close> goes on with the next.\<close>

fun pick_each :: "('a \<Rightarrow> bool) \<Rightarrow> ('a \<Rightarrow> pick \<Rightarrow> bool) \<Rightarrow> ('a \<Rightarrow> pick \<Rightarrow> pick option) \<Rightarrow> 'a list \<Rightarrow> pick \<Rightarrow>
    (bool \<times> pick) option" where
  "pick_each stop skip add [] s = Some (False, s)"
| "pick_each stop skip add (x # xs) s =
     (if stop x then Some (False, s)
      else if skip x s then pick_each stop skip add xs s
      else do {
        s1 \<leftarrow> add x s;
        if pi_num s1 \<le> 0 then Some (True, s1) else pick_each stop skip add xs s1
      })"

text \<open>What follows a loop unless it returned.\<close>

definition and_then :: "(bool \<times> pick) option \<Rightarrow> (pick \<Rightarrow> (bool \<times> pick) option) \<Rightarrow> (bool \<times> pick) option" where
  "and_then r f = do { (ret, s) \<leftarrow> r; if ret then Some (True, s) else f s }"

definition not_critical :: "pick_call \<Rightarrow> picker \<Rightarrow> nat \<Rightarrow> bool" where
  "not_critical c k x \<longleftrightarrow> pc_critical c \<and> piece_prio (pk_map k ! x) \<noteq> 7"

definition pick_partials :: "pick_call \<Rightarrow> picker \<Rightarrow> pick \<Rightarrow> (bool \<times> pick) option" where
  "pick_partials c k s =
     and_then
       (pick_each (\<lambda>_. False)
          (\<lambda>d s. not_critical c k (dp_index d) \<or> \<not> is_piece_free (dp_index d) (pc_pieces c) k \<or>
             (full (pk_map k ! dp_index d) \<and> pi_num s \<le> int (length (pi_backup s)) \<and>
              pi_num s \<le> int (length (pi_backup2 s))))
          (\<lambda>d s. Some (add_blocks_downloading c d k s)) (pk_downloads k) s)
       (\<lambda>s. let s1 = append_backup s in
          if pi_num s1 \<le> 0 then Some (True, s1)
          else let s2 = append_backup2 s1 in Some (pi_num s2 \<le> 0, s2))"

definition pick_suggested :: "pick_call \<Rightarrow> nat list \<Rightarrow> picker \<Rightarrow> pick \<Rightarrow> (bool \<times> pick) option" where
  "pick_suggested c suggested k s =
     pick_each (\<lambda>_. False) (\<lambda>x _. not_critical c k x \<or> \<not> is_piece_free x (pc_pieces c) k) (add_blocks c [] k) suggested s"

definition pick_sequential :: "pick_call \<Rightarrow> nat list \<Rightarrow> picker \<Rightarrow> pick \<Rightarrow> (bool \<times> pick) option" where
  "pick_sequential c suggested k s = do {
     ms \<leftarrow> those (pk_pieces k);
     and_then
       (pick_each (\<lambda>x. piece_prio (pk_map k ! x) \<noteq> 7) (\<lambda>x _. \<not> is_piece_free x (pc_pieces c) k)
          (add_blocks c suggested k) ms s)
       (\<lambda>s. if pc_critical c then Some (False, s)
            else pick_each (\<lambda>_. False)
              (\<lambda>x _. \<not> is_piece_free x (pc_pieces c) k \<or> piece_prio (pk_map k ! x) = 7) (add_blocks c suggested k)
              (let r = [pk_cursor k..<pk_reverse_cursor k] in if pc_reverse c then rev r else r) s)
   }"

text \<open>The order of the pieces when the most common go first: chunks of four buckets, the last first.\<close>

definition round_up :: "nat list \<Rightarrow> nat list" where
  "round_up b = b @ replicate ((length b + 3) div 4 * 4 - length b) (last b)"

definition reverse_order :: "nat list \<Rightarrow> nat option list \<Rightarrow> nat option list" where
  "reverse_order b ms = concat (map (\<lambda>i. let prio = i div 4 * 4 + 3 - i mod 4; start = range_start b prio
      in take (b ! prio - start) (drop start ms)) (rev [0..<length b]))"

definition pick_rarest :: "pick_call \<Rightarrow> nat list \<Rightarrow> picker \<Rightarrow> pick \<Rightarrow> (bool \<times> pick) option" where
  "pick_rarest c suggested k s =
     (if pc_reverse c \<and> \<not> pc_critical c then do {
        ms \<leftarrow> those (reverse_order (pk_bounds k) (pk_pieces k));
        pick_each (\<lambda>_. False) (\<lambda>x _. \<not> is_piece_free x (pc_pieces c) k) (add_blocks c suggested k) ms s
      } else do {
        ms \<leftarrow> those (pk_pieces k);
        pick_each (not_critical c k) (\<lambda>x _. \<not> is_piece_free x (pc_pieces c) k) (add_blocks c suggested k) ms s
      })"

definition pick_critical :: "pick_call \<Rightarrow> nat list \<Rightarrow> picker \<Rightarrow> pick \<Rightarrow> (bool \<times> pick) option" where
  "pick_critical c suggested k s = do {
     ms \<leftarrow> those (pk_pieces k);
     pick_each (\<lambda>x. piece_prio (pk_map k ! x) \<noteq> 7) (\<lambda>x _. \<not> is_piece_free x (pc_pieces c) k)
       (add_blocks c suggested k) ms s
   }"

text \<open>
  Neither order: free pieces from a random start on, round the end. The outer loop asks for at least one block
  in each turn, so as many turns as blocks are wanted, and one, are enough.
\<close>

function seek_free :: "(nat \<Rightarrow> bool) \<Rightarrow> nat \<Rightarrow> nat \<Rightarrow> nat \<Rightarrow> nat option" where
  "seek_free free n start x =
     (if n \<le> x \<or> n \<le> start then None
      else if free x then Some x
      else let y = (if x + 1 = n then 0 else x + 1) in if y = start then None else seek_free free n start y)"
  by pat_completeness auto
termination
  by (relation "measure (\<lambda>(free, n, start, x). if x < start then start - x else n - x + start)")
    (auto split: if_splits)

declare seek_free.simps [simp del]

fun pick_random :: "nat \<Rightarrow> pick_call \<Rightarrow> nat list \<Rightarrow> picker \<Rightarrow> nat \<Rightarrow> nat \<Rightarrow> pick \<Rightarrow> pick option" where
  "pick_random 0 c suggested k start x s = None"
| "pick_random (Suc fuel) c suggested k start x s =
     (if pi_num s \<le> 0 then Some s
      else case seek_free (\<lambda>y. can_pick y (pc_pieces c) k \<and> y \<notin> set suggested) (length (pk_map k)) start x of
             None \<Rightarrow> Some s
           | Some y \<Rightarrow>
               (let (first, past) = expand_piece y (pc_whole c) (pc_pieces c) k;
                    new = (if pc_whole c = 0
                           then map (Pair y) [0..<nat (min (int (blocks_in_piece y k)) (pi_num s))]
                           else whole_blocks [first..<past] k);
                    s1 = s\<lparr>pi_blocks := pi_blocks s @ new, pi_num := pi_num s - int (length new)\<rparr>;
                    z = (if past = length (pk_map k) then 0 else past)
                in if z = start then Some s1 else pick_random fuel c suggested k start z s1))"

subsection \<open>The last blocks\<close>

definition full_backup :: "pick_call \<Rightarrow> picker \<Rightarrow> downloading_piece \<Rightarrow> pick \<Rightarrow> pick" where
  "full_backup c k d s =
     (if \<not> pc_pieces c ! dp_index d \<or> \<not> full (pk_map k ! dp_index d) then s
      else let t = add_blocks_downloading c d k (s\<lparr>pi_blocks := []\<rparr>)
           in s\<lparr>pi_backup := pi_backup t, pi_backup2 := pi_backup2 t\<rparr>)"

definition busy_blocks :: "pick_call \<Rightarrow> picker \<Rightarrow> downloading_piece \<Rightarrow> piece_block list" where
  "busy_blocks c k d =
     (let bs = dl_blocks d k
      in map (Pair (dp_index d))
           (filter (\<lambda>j. bi_state (bs ! j) = StateRequested \<and> bi_peer (bs ! j) \<noteq> pc_peer c) [0..<length bs]))"

fun first_busy :: "pick_call \<Rightarrow> picker \<Rightarrow> downloading_piece list \<Rightarrow> piece_block list" where
  "first_busy c k [] = []"
| "first_busy c k (d # ds) =
     (if \<not> pc_pieces c ! dp_index d \<or> piece_prio (pk_map k ! dp_index d) = 0 then first_busy c k ds
      else let t = busy_blocks c k d in if t = [] then first_busy c k ds else t)"

definition pick_finish :: "pick_call \<Rightarrow> nat \<Rightarrow> picker \<Rightarrow> pick \<Rightarrow> pick" where
  "pick_finish c random k s =
     (let s1 = fold (full_backup c k) (pk_downloads k) s;
          temp = first_busy c k (pk_downloads k);
          s2 = append_backup s1
      in if pi_num s2 \<le> 0 then s2
         else let s3 = append_backup2 s2
              in if pi_num s3 \<le> 0 then s3
                 else if pc_on_parole c \<or> temp = [] then s3
                 else s3\<lparr>pi_blocks := pi_blocks s3 @ [temp ! (random mod length temp)]\<rparr>)"

definition pick_main ::
    "pick_call \<Rightarrow> nat list \<Rightarrow> nat \<Rightarrow> picker \<Rightarrow> pick \<Rightarrow> (bool \<times> pick) option" where
  "pick_main c suggested random k s =
     (if pc_sequential c then pick_sequential c suggested k s
      else if pc_rarest_first c then pick_rarest c suggested k s
      else if pc_critical c then pick_critical c suggested k s
      else if pk_map k = [] then None
      else
        (let start = random mod length (pk_map k)
         in map_option (Pair False) (pick_random (nat (pi_num s) + 1) c suggested k start start s)))"

text \<open>The buckets the pass works on.\<close>

definition pick_buckets :: "pick_call \<Rightarrow> (nat \<Rightarrow> nat) \<Rightarrow> picker \<Rightarrow> picker option" where
  "pick_buckets c rnd k = do {
     k1 \<leftarrow> (if (pc_sequential c \<or> pc_rarest_first c) \<and> pk_dirty k then update_pieces rnd k else Some k);
     Some (if \<not> pc_sequential c \<and> pc_rarest_first c \<and> pc_reverse c \<and> \<not> pc_critical c
           then k1\<lparr>pk_bounds := round_up (pk_bounds k1)\<rparr> else k1)
   }"

definition pick_call_of :: "pick_call \<Rightarrow> nat \<Rightarrow> nat \<Rightarrow> picker \<Rightarrow> pick_call" where
  "pick_call_of c pad_files peers k =
     (let c1 = c\<lparr>pc_partials := (pc_partials c \<or> pad_files + peers * 3 div 2 < length (pk_downloads k))\<rparr>
      in if pc_ignore_whole c then c1\<lparr>pc_whole := 0\<rparr> else c1)"

definition pick_pieces ::
    "pick_call \<Rightarrow> nat \<Rightarrow> nat \<Rightarrow> nat list \<Rightarrow> nat \<Rightarrow> (nat \<Rightarrow> nat) \<Rightarrow> nat \<Rightarrow> nat \<Rightarrow> picker \<Rightarrow> (piece_block list \<times> picker) option" where
  "pick_pieces c0 pad_files peers suggested num rnd random random2 k =
     (let c = pick_call_of c0 pad_files peers k;
          s0 = \<lparr>pi_blocks = [], pi_backup = [], pi_backup2 = [], pi_num = int num\<rparr>
      in do {
        (ret, s1) \<leftarrow> and_then (if pc_partials c then pick_partials c k s0 else Some (False, s0))
                      (pick_suggested c suggested k);
        if ret then Some (pi_blocks s1, k)
        else do {
          k1 \<leftarrow> pick_buckets c rnd k;
          (ret2, s2) \<leftarrow> pick_main c suggested random k1 s1;
          Some (if ret2 \<or> pi_num s2 \<le> 0 then pi_blocks s2 else pi_blocks (pick_finish c random2 k1 s2), k1)
        }
      })"

end
