(* ===== verification/PickSafe.thy ===== *)
theory PickSafe
  imports PickPieces
begin

section \<open>What pick_pieces picks\<close>

text \<open>
  Under the invariant of the picker \<^verbatim>\<open>pick_pieces\<close> picks blocks that nobody has been asked for, of pieces the
  peer has, which we do not have and want; only the last block may be one requested from another peer.
  \<open>picks_ok\<close> says so of the three lists and counts the blocks when whole pieces are not preferred. Every pass
  keeps it.
\<close>

definition pickable :: "pick_call \<Rightarrow> picker \<Rightarrow> piece_block \<Rightarrow> bool" where
  "pickable c k b \<longleftrightarrow>
     fst b < length (pk_map k) \<and> is_piece_free (fst b) (pc_pieces c) k \<and> snd b < blocks_in_piece (fst b) k"

definition free_block :: "pick_call \<Rightarrow> picker \<Rightarrow> piece_block \<Rightarrow> bool" where
  "free_block c k b \<longleftrightarrow> pickable c k b \<and> state_at k (fst b) (snd b) = StateNone"

definition busy_block :: "pick_call \<Rightarrow> picker \<Rightarrow> piece_block \<Rightarrow> bool" where
  "busy_block c k b \<longleftrightarrow> pickable c k b \<and> state_at k (fst b) (snd b) = StateRequested"

definition picks_ok :: "pick_call \<Rightarrow> picker \<Rightarrow> int \<Rightarrow> pick \<Rightarrow> bool" where
  "picks_ok c k n s \<longleftrightarrow>
     (\<forall>b \<in> set (pi_blocks s) \<union> set (pi_backup s) \<union> set (pi_backup2 s). free_block c k b) \<and>
     (pc_whole c = 0 \<longrightarrow> 0 \<le> pi_num s \<and> int (length (pi_blocks s)) + pi_num s = n)"

subsection \<open>Downloading pieces\<close>

lemma dl_blocks_at:
  assumes k: "pk_inv k" and d: "d \<in> set (pk_downloads k)"
  shows "dl_blocks d k = take (blocks_in_piece (dp_index d) k) (blocks_at k (dp_index d))"
    "length (dl_blocks d k) = blocks_in_piece (dp_index d) k" "dp_index d < length (pk_map k)"
    "\<not> pp_have (pk_map k ! dp_index d)"
    "j < blocks_in_piece (dp_index d) k \<Longrightarrow> bi_state (dl_blocks d k ! j) = state_at k (dp_index d) j"
proof -
  note kd = pk_invD [OF k]
  obtain i where i: "i < length (pk_downloads k)" "pk_downloads k ! i = d" using d by (auto simp: in_set_conv_nth)
  have n: "blocks_in_piece (dp_index d) k \<le> pk_blocks_per_piece k" by (rule blocks_in_piece_bounds(2) [OF kd(2)])
  have v: "blocks_at k (dp_index d) = blocks_of k d"
    using blocks_at_nth [OF kd(2) i(1)] i by (simp add: view_nth)
  show t: "dl_blocks d k = take (blocks_in_piece (dp_index d) k) (blocks_at k (dp_index d))"
    using n by (simp add: dl_blocks_def v blocks_of_def min_def)
  show "length (dl_blocks d k) = blocks_in_piece (dp_index d) k"
    using n blocks_at_length [OF kd(2)] by (simp add: t)
  show "dp_index d < length (pk_map k)" "\<not> pp_have (pk_map k ! dp_index d)"
    using view_entry(1,2) [OF kd(2) i(1)] i(2) by simp_all
  show "bi_state (dl_blocks d k ! j) = state_at k (dp_index d) j" if "j < blocks_in_piece (dp_index d) k"
    using entry_facts(2) [OF k i(1) _ that] i(2) that t by simp
qed

lemma add_free_blocks_ok:
  assumes "\<And>i. i < length bs \<Longrightarrow> bi_state (bs ! i) = StateNone \<Longrightarrow> free_block c k (dp_index d, j + i)"
    "picks_ok c k n s" "pc_whole c = 0 \<longrightarrow> 0 < pi_num s"
  shows "picks_ok c k n (snd (add_free_blocks c d active j bs s))"
  using assms
proof (induction bs arbitrary: j s)
  case (Cons b bs)
  have f: "free_block c k (dp_index d, j + 1 + i)" if "i < length bs" "bi_state (bs ! i) = StateNone" for i
    using Cons.prems(1) [of "Suc i"] that by simp
  have IH: "picks_ok c k n (snd (add_free_blocks c d active (j + 1) bs t))"
    if "picks_ok c k n t" "pc_whole c = 0 \<longrightarrow> 0 < pi_num t" for t
    using Cons.IH [of "j + 1" t] f that by blast
  show ?case
  proof (cases "bi_state b = StateNone")
    case False
    with IH Cons.prems(2,3) show ?thesis by simp
  next
    case True
    then have b: "free_block c k (dp_index d, j)" using Cons.prems(1) [of 0] by simp
    have p: "picks_ok c k n (s\<lparr>pi_backup := pi_backup s @ [(dp_index d, j)]\<rparr>)"
      "picks_ok c k n (s\<lparr>pi_backup2 := pi_backup2 s @ [(dp_index d, j)]\<rparr>)"
      using b Cons.prems(2,3) by (auto simp: picks_ok_def)
    let ?s1 = "s\<lparr>pi_blocks := pi_blocks s @ [(dp_index d, j)], pi_num := pi_num s - 1\<rparr>"
    have s1: "picks_ok c k n ?s1" using b Cons.prems(2,3) by (auto simp: picks_ok_def)
    have step: "picks_ok c k n (snd (if 0 < pc_whole c then add_free_blocks c d active (j + 1) bs ?s1
        else if pi_num ?s1 \<le> 0 then (True, ?s1) else add_free_blocks c d active (j + 1) bs ?s1))"
      using IH [OF s1] s1 by simp
    let ?slow = "dp_state d \<noteq> NoSpeed \<and> dp_state d \<noteq> pc_speed c \<and> \<not> active \<and> pc_affinity c"
    show ?thesis
    proof (cases ?slow)
      case slow: True
      show ?thesis using True slow IH [OF p(1)] IH [OF p(2)] Cons.prems(2,3) by auto
    next
      case fast: False
      have "add_free_blocks c d active j (b # bs) s = (if 0 < pc_whole c then add_free_blocks c d active (j + 1) bs ?s1
        else if pi_num ?s1 \<le> 0 then (True, ?s1) else add_free_blocks c d active (j + 1) bs ?s1)"
        using True by (simp only: add_free_blocks.simps fast if_False Let_def not_True_eq_False simp_thms)
      with step show ?thesis by (simp only:)
    qed
  qed
qed simp

lemma requested_from_any: "\<exists>e a. requested_from peer bs ex = (e, a)"
  by fastforce

lemma add_blocks_downloading_ok:
  assumes k: "pk_inv k" and d: "d \<in> set (pk_downloads k)" and s: "picks_ok c k n s" "0 < pi_num s"
  shows "picks_ok c k n (add_blocks_downloading c d k s)"
proof (cases "pc_pieces c ! dp_index d \<and> \<not> filtered (pk_map k ! dp_index d)")
  case False
  with s show ?thesis by (auto simp: add_blocks_downloading_def)
next
  case True
  note dl = dl_blocks_at [OF k d]
  have f: "free_block c k (dp_index d, i)" if "i < length (dl_blocks d k)" "bi_state (dl_blocks d k ! i) = StateNone" for i
    using that dl True by (simp add: free_block_def pickable_def is_piece_free_def)
  obtain e a where ea: "requested_from (pc_peer c) (dl_blocks d k) True = (e, a)" by fastforce
  obtain ret s1 where r: "add_free_blocks c d a 0 (dl_blocks d k) s = (ret, s1)" by fastforce
  have s1: "picks_ok c k n s1" using add_free_blocks_ok [of "dl_blocks d k" c k d 0 n s a] f s r by simp
  then have z: "picks_ok c k n (s1\<lparr>pi_num := 0\<rparr>)" if "pi_num s1 \<le> 0"
    using that by (auto simp: picks_ok_def)
  have w: "picks_ok c k n (s\<lparr>pi_backup2 := pi_backup2 s @
      map (Pair (dp_index d)) (filter (\<lambda>j. bi_state (dl_blocks d k ! j) = StateNone) [0..<length (dl_blocks d k)])\<rparr>)"
    using s(1) f by (auto simp: picks_ok_def)
  show ?thesis
    unfolding add_blocks_downloading_def Let_def ea
    using True r s(1) s1 z w by (auto simp: case_prod_unfold)
qed

subsection \<open>New pieces\<close>

lemma expand_down_le:
  "expand_down free n s \<le> s \<and> (\<forall>y. expand_down free n s \<le> y \<longrightarrow> y < s \<longrightarrow> free y)"
proof (induction free n s rule: expand_down.induct)
  case (2 free n s)
  show ?case
  proof (cases "0 < s \<and> free (s - 1)")
    case True
    have "free y" if "expand_down free n (s - 1) \<le> y" "y < s" for y
      using 2 [OF True] that True by (cases "y = s - 1") auto
    with 2 [OF True] True show ?thesis by auto
  next
    case False
    then show ?thesis by auto
  qed
qed simp

lemma expand_up_ok:
  "e \<le> expand_up free limit e \<and> (\<forall>y. e \<le> y \<longrightarrow> y < expand_up free limit e \<longrightarrow> free y \<and> y < limit)"
proof (induction free limit e rule: expand_up.induct)
  case (1 free limit e)
  show ?case
  proof (cases "e < limit \<and> free e")
    case True
    have "free y \<and> y < limit" if "e \<le> y" "y < expand_up free limit (e + 1)" for y
      using 1 [OF True] that True by (cases "y = e") auto
    moreover have "expand_up free limit e = expand_up free limit (e + 1)" using True by (simp add: expand_up.simps)
    ultimately show ?thesis using 1 [OF True] by auto
  next
    case False
    then show ?thesis by (subst (1 2) expand_up.simps) auto
  qed
qed

lemma expand_piece_ok:
  assumes "expand_piece x whole bits k = (a, e)" "x < length (pk_map k)"
  shows "a \<le> x" "x < e" "\<And>y. a \<le> y \<Longrightarrow> y < e \<Longrightarrow> y = x \<or> (can_pick y bits k \<and> y < length (pk_map k))"
proof -
  let ?f = "\<lambda>y. can_pick y bits k"
  have c: "(whole = 0 \<and> a = x \<and> e = x + 1) \<or> (a = expand_down ?f (whole - 1) x \<and>
      e = expand_up ?f (min (a + whole) (length (pk_map k))) (x + 1))"
    using assms(1) by (auto simp: expand_piece_def Let_def split: if_splits)
  note d = expand_down_le [of ?f "whole - 1" x]
  note u = expand_up_ok [of "x + 1" ?f "min (a + whole) (length (pk_map k))"]
  show "a \<le> x" "x < e" using c d u by auto
  show "y = x \<or> (can_pick y bits k \<and> y < length (pk_map k))" if "a \<le> y" "y < e" for y
  proof (cases "y < x")
    case True
    with c d that assms(2) show ?thesis by auto
  next
    case False
    with c u that show ?thesis by (cases "y = x") auto
  qed
qed

lemma new_block_free:
  assumes k: "pk_inv k" and y: "y < length (pk_map k)" "can_pick y (pc_pieces c) k" "j < blocks_in_piece y k"
  shows "free_block c k (y, j)"
proof -
  have "state_at k y j = StateNone"
    using blocks_at_none [OF pk_invD(2) [OF k] y(1)] y(2) by (simp add: can_pick_def state_at_def)
  with y show ?thesis by (simp add: free_block_def pickable_def is_piece_free_def can_pick_def)
qed

lemma whole_blocks_free:
  assumes "pk_inv k" "\<And>y. y \<in> set xs \<Longrightarrow> y < length (pk_map k) \<and> can_pick y (pc_pieces c) k" "b \<in> set (whole_blocks xs k)"
  shows "free_block c k b"
  using assms new_block_free by (auto simp: whole_blocks_def)

lemma picks_ok_new:
  assumes "picks_ok c k n s" "\<And>b. b \<in> set new \<Longrightarrow> free_block c k b" "pc_whole c = 0 \<Longrightarrow> int (length new) \<le> pi_num s"
  shows "picks_ok c k n (s\<lparr>pi_blocks := pi_blocks s @ new, pi_num := pi_num s - int (length new)\<rparr>)"
    "picks_ok c k n (s\<lparr>pi_blocks := pi_blocks s @ new,
       pi_num := (if pi_num s - int (length new) \<le> 0 then 0 else pi_num s - int (length new))\<rparr>)"
  using assms by (auto simp: picks_ok_def)

text \<open>The new blocks of one piece, or of the range around it.\<close>

definition new_blocks :: "pick_call \<Rightarrow> picker \<Rightarrow> nat \<Rightarrow> int \<Rightarrow> piece_block list" where
  "new_blocks c k x num =
     (if pc_whole c = 0 then map (Pair x) [0..<nat (min (int (blocks_in_piece x k)) num)]
      else let (start, past) = expand_piece x (pc_whole c) (pc_pieces c) k in whole_blocks [start..<past] k)"

lemma new_blocks_ok:
  assumes k: "pk_inv k" and x: "x < length (pk_map k)" "can_pick x (pc_pieces c) k"
  shows "b \<in> set (new_blocks c k x num) \<Longrightarrow> free_block c k b"
    "pc_whole c = 0 \<Longrightarrow> 0 \<le> num \<Longrightarrow> int (length (new_blocks c k x num)) \<le> num"
    "0 < num \<Longrightarrow> new_blocks c k x num \<noteq> []"
proof -
  note n = blocks_in_piece_bounds(1) [OF pk_invD(2) [OF k]]
  obtain a e where e: "expand_piece x (pc_whole c) (pc_pieces c) k = (a, e)" by fastforce
  note ex = expand_piece_ok [OF e x(1)]
  show "free_block c k b" if "b \<in> set (new_blocks c k x num)"
  proof (cases "pc_whole c = 0")
    case True
    with that new_block_free [OF k x] show ?thesis by (auto simp: new_blocks_def)
  next
    case False
    have "b \<in> set (whole_blocks [a..<e] k)" using that False e by (simp add: new_blocks_def)
    moreover have "y < length (pk_map k) \<and> can_pick y (pc_pieces c) k" if "y \<in> set [a..<e]" for y
      using ex(3) [of y] that x by auto
    ultimately show ?thesis using whole_blocks_free [OF k, of "[a..<e]" c b] by blast
  qed
  show "int (length (new_blocks c k x num)) \<le> num" if "pc_whole c = 0" "0 \<le> num"
    using that by (simp add: new_blocks_def)
  show "new_blocks c k x num \<noteq> []" if "0 < num"
  proof (cases "pc_whole c = 0")
    case True
    with that n [of x] show ?thesis by (simp add: new_blocks_def)
  next
    case False
    have "x \<in> set [a..<e]" using ex(1,2) by simp
    then have "(x, 0) \<in> set (whole_blocks [a..<e] k)" using n [of x] by (force simp: whole_blocks_def)
    then have "whole_blocks [a..<e] k \<noteq> []" by auto
    with False e show ?thesis by (simp add: new_blocks_def)
  qed
qed

lemma add_blocks_ok:
  assumes k: "pk_inv k" and x: "x < length (pk_map k)" "is_piece_free x (pc_pieces c) k"
    and s: "picks_ok c k n s" "0 < pi_num s"
  shows "\<exists>s'. add_blocks c ignore k x s = Some s' \<and> picks_ok c k n s'"
proof (cases "x \<in> set ignore")
  case True
  with s show ?thesis by (simp add: add_blocks_def)
next
  case ni: False
  show ?thesis
  proof (cases "downloading (pk_map k ! x)")
    case True
    obtain i where i: "find_dl_piece x k = Some i" "i < length (pk_downloads k)" "dp_index (pk_downloads k ! i) = x"
      by (rule existing_entry [OF k x(1) True])
    have "picks_ok c k n (add_blocks_downloading c (pk_downloads k ! i) k s)"
      by (rule add_blocks_downloading_ok [OF k _ s]) (use i(2) in simp)
    with True ni i x(1) s show ?thesis by (simp add: add_blocks_def)
  next
    case False
    with x(2) have cp: "can_pick x (pc_pieces c) k" by (simp add: is_piece_free_def can_pick_def)
    let ?new = "new_blocks c k x (pi_num s)"
    have "add_blocks c ignore k x s = Some (s\<lparr>pi_blocks := pi_blocks s @ ?new,
        pi_num := (if pi_num s - int (length ?new) \<le> 0 then 0 else pi_num s - int (length ?new))\<rparr>)"
      using ni False x(1) by (simp add: add_blocks_def new_blocks_def Let_def)
    with picks_ok_new(2) [OF s(1), of ?new] new_blocks_ok(1,2) [OF k x(1) cp] s(2) show ?thesis by simp
  qed
qed

subsection \<open>The passes\<close>

lemma pick_each_ok:
  assumes "\<And>x s. x \<in> set xs \<Longrightarrow> \<not> skip x s \<Longrightarrow> P s \<Longrightarrow> 0 < pi_num s \<Longrightarrow> \<exists>s'. add x s = Some s' \<and> P s'"
    "P s" "0 < pi_num s"
  shows "\<exists>s'. pick_each stop skip add xs s = Some (pi_num s' \<le> 0, s') \<and> P s'"
  using assms
proof (induction xs arbitrary: s)
  case Nil
  then show ?case by (intro exI [of _ s]) simp
next
  case (Cons x xs)
  have IH: "\<exists>s'. pick_each stop skip add xs t = Some (pi_num s' \<le> 0, s') \<and> P s'" if "P t" "0 < pi_num t" for t
    by (rule Cons.IH [OF _ that]) (use Cons.prems(1) in simp)
  consider "stop x" | "\<not> stop x" "skip x s" | "\<not> stop x" "\<not> skip x s" by blast
  then show ?case
  proof cases
    case 1
    with Cons.prems(2,3) show ?thesis by (intro exI [of _ s]) simp
  next
    case 2
    with IH [OF Cons.prems(2,3)] show ?thesis by simp
  next
    case 3
    obtain t where t: "add x s = Some t" "P t" using Cons.prems(1) [of x s] 3(2) Cons.prems(2,3) by auto
    show ?thesis
    proof (cases "pi_num t \<le> 0")
      case True
      with 3 t show ?thesis by (intro exI [of _ t]) simp
    next
      case False
      with 3 t IH [of t] show ?thesis by simp
    qed
  qed
qed

lemma picks_ok_backup:
  assumes "picks_ok c k n s" "0 \<le> pi_num s" "set bs \<subseteq> set (pi_backup s) \<union> set (pi_backup2 s)"
    "m = min (int (length bs)) (pi_num s)"
  shows "picks_ok c k n (s\<lparr>pi_blocks := pi_blocks s @ take (nat m) bs, pi_backup := [], pi_num := pi_num s - m\<rparr>)"
    "picks_ok c k n (s\<lparr>pi_blocks := pi_blocks s @ take (nat m) bs, pi_backup2 := [], pi_num := pi_num s - m\<rparr>)"
proof -
  have m: "0 \<le> m" "m \<le> pi_num s" "m \<le> int (length bs)" using assms(2,4) by auto
  have "set (take (nat m) bs) \<subseteq> set (pi_backup s) \<union> set (pi_backup2 s)"
    using set_take_subset [of "nat m" bs] assms(3) by blast
  moreover have "int (length (take (nat m) bs)) = m" using m by simp
  ultimately show
    "picks_ok c k n (s\<lparr>pi_blocks := pi_blocks s @ take (nat m) bs, pi_backup := [], pi_num := pi_num s - m\<rparr>)"
    "picks_ok c k n (s\<lparr>pi_blocks := pi_blocks s @ take (nat m) bs, pi_backup2 := [], pi_num := pi_num s - m\<rparr>)"
    using assms(1) m(2) unfolding picks_ok_def by (auto simp del: length_take)
qed

lemma append_backup_ok:
  assumes "picks_ok c k n s" "0 < pi_num s"
  shows "picks_ok c k n (append_backup s)" "picks_ok c k n (append_backup2 s)"
  using picks_ok_backup(1) [OF assms(1), of "pi_backup s"] picks_ok_backup(2) [OF assms(1), of "pi_backup2 s"] assms
  by (simp_all add: append_backup_def append_backup2_def Let_def)

lemma pick_partials_ok:
  assumes k: "pk_inv k" and s: "picks_ok c k n s" "0 < pi_num s"
  shows "\<exists>s'. pick_partials c k s = Some (pi_num s' \<le> 0, s') \<and> picks_ok c k n s'"
proof -
  let ?skip = "\<lambda>d s. not_critical c k (dp_index d) \<or> \<not> is_piece_free (dp_index d) (pc_pieces c) k \<or>
     (full (pk_map k ! dp_index d) \<and> pi_num s \<le> int (length (pi_backup s)) \<and> pi_num s \<le> int (length (pi_backup2 s)))"
  obtain s1 where s1: "pick_each (\<lambda>_. False) ?skip (\<lambda>d s. Some (add_blocks_downloading c d k s)) (pk_downloads k) s =
      Some (pi_num s1 \<le> 0, s1)" "picks_ok c k n s1"
    using pick_each_ok [where P = "picks_ok c k n" and xs = "pk_downloads k" and s = s and stop = "\<lambda>_. False" and
        skip = ?skip and add = "\<lambda>d s. Some (add_blocks_downloading c d k s)"] add_blocks_downloading_ok [OF k] s by auto
  show ?thesis
  proof (cases "pi_num s1 \<le> 0")
    case True
    with s1 show ?thesis by (intro exI [of _ s1]) (simp add: pick_partials_def and_then_def)
  next
    case False
    then have a1: "picks_ok c k n (append_backup s1)" using append_backup_ok(1) [OF s1(2)] by simp
    show ?thesis
    proof (cases "pi_num (append_backup s1) \<le> 0")
      case True
      with s1 False a1 show ?thesis
        by (intro exI [of _ "append_backup s1"]) (simp add: pick_partials_def and_then_def Let_def)
    next
      case f: False
      with s1 False append_backup_ok(2) [OF a1] show ?thesis
        by (intro exI [of _ "append_backup2 (append_backup s1)"]) (simp add: pick_partials_def and_then_def Let_def)
    qed
  qed
qed

lemma add_each_ok:
  assumes k: "pk_inv k" and xs: "\<And>x. x \<in> set xs \<Longrightarrow> x < length (pk_map k)"
    and sk: "\<And>x s. \<not> skip x s \<Longrightarrow> is_piece_free x (pc_pieces c) k" and s: "picks_ok c k n s" "0 < pi_num s"
  shows "\<exists>s'. pick_each stop skip (add_blocks c ignore k) xs s = Some (pi_num s' \<le> 0, s') \<and> picks_ok c k n s'"
proof (rule pick_each_ok [where P = "picks_ok c k n"])
  fix x s assume "x \<in> set xs" "\<not> skip x s" "picks_ok c k n s" "0 < pi_num s"
  then show "\<exists>s'. add_blocks c ignore k x s = Some s' \<and> picks_ok c k n s'"
    by (intro add_blocks_ok [OF k] xs sk [of x s])
qed (use s in simp_all)

lemma those_some: "(\<And>p. p \<in> set ms \<Longrightarrow> p \<noteq> None) \<Longrightarrow> those ms = Some (map the ms)"
  by (induction ms) (auto split: option.splits)

lemma pieces_held:
  assumes "buckets_ok k" "p \<in> set (pk_pieces k)"
  shows "p \<noteq> None" "the p < length (pk_map k)"
proof -
  obtain i where i: "i < length (pk_pieces k)" "pk_pieces k ! i = p" using assms(2) by (auto simp: in_set_conv_nth)
  obtain x where "pk_pieces k ! i = Some x" "x < length (pk_map k)" by (rule buckets_slot [OF assms(1) i(1)])
  with i(2) show "p \<noteq> None" "the p < length (pk_map k)" by auto
qed

lemma those_pieces: "buckets_ok k \<Longrightarrow> those (pk_pieces k) = Some (map the (pk_pieces k))"
  by (rule those_some) (rule pieces_held(1))

lemma pick_suggested_ok:
  assumes k: "pk_inv k" and sg: "\<And>x. x \<in> set suggested \<Longrightarrow> x < length (pk_map k)" and s: "picks_ok c k n s" "0 < pi_num s"
  shows "\<exists>s'. pick_suggested c suggested k s = Some (pi_num s' \<le> 0, s') \<and> picks_ok c k n s'"
  unfolding pick_suggested_def by (rule add_each_ok [OF k sg _ s]) simp_all

lemma pick_sequential_ok:
  assumes k: "pk_inv k" "\<not> pk_dirty k" and s: "picks_ok c k n s" "0 < pi_num s"
  shows "\<exists>s'. pick_sequential c suggested k s = Some (pi_num s' \<le> 0, s') \<and> picks_ok c k n s'"
proof -
  note b = picker_ok_simps(1,3) [OF pk_invD(1) [OF k(1)]]
  let ?ms = "map the (pk_pieces k)"
  let ?free = "\<lambda>x (_::pick). \<not> is_piece_free x (pc_pieces c) k"
  have ms: "x < length (pk_map k)" if "x \<in> set ?ms" for x using that pieces_held(2) [OF b(1) [OF k(2)]] by auto
  have "\<exists>s1. pick_each (\<lambda>x. piece_prio (pk_map k ! x) \<noteq> 7) ?free (add_blocks c suggested k) ?ms s =
      Some (pi_num s1 \<le> 0, s1) \<and> picks_ok c k n s1"
    by (rule add_each_ok [OF k(1) ms _ s]) simp_all
  then obtain s1 where s1: "pick_each (\<lambda>x. piece_prio (pk_map k ! x) \<noteq> 7) ?free (add_blocks c suggested k) ?ms s =
      Some (pi_num s1 \<le> 0, s1)" "picks_ok c k n s1" by blast
  let ?r = "let r = [pk_cursor k..<pk_reverse_cursor k] in if pc_reverse c then rev r else r"
  have r: "x < length (pk_map k)" if "x \<in> set ?r" for x
    using that b(2) by (auto simp: cursors_ok_def Let_def split: if_splits)
  let ?skip = "\<lambda>x (_::pick). \<not> is_piece_free x (pc_pieces c) k \<or> piece_prio (pk_map k ! x) = 7"
  have s2: "\<exists>s'. pick_each (\<lambda>_. False) ?skip (add_blocks c suggested k) ?r s1 = Some (pi_num s' \<le> 0, s') \<and> picks_ok c k n s'"
    if "0 < pi_num s1"
    by (rule add_each_ok [OF k(1) r _ s1(2) that]) simp_all
  note e = pick_sequential_def and_then_def those_pieces [OF b(1) [OF k(2)]] s1(1)
  consider "pi_num s1 \<le> 0" | "0 < pi_num s1" "pc_critical c" | "0 < pi_num s1" "\<not> pc_critical c" by linarith
  then show ?thesis
  proof cases
    case 3
    with s2 show ?thesis by (auto simp: e)
  qed (use s1(2) in \<open>intro exI [of _ s1]; simp add: e\<close>)+
qed

lemma reverse_order_held:
  assumes "p \<in> set (reverse_order b ms)"
  shows "p \<in> set ms"
  using assms by (auto simp: reverse_order_def Let_def dest!: in_set_takeD in_set_dropD)

lemma pick_rarest_ok:
  assumes k: "pk_inv k" "\<not> pk_dirty k" and s: "picks_ok c k n s" "0 < pi_num s"
  shows "\<exists>s'. pick_rarest c suggested k s = Some (pi_num s' \<le> 0, s') \<and> picks_ok c k n s'"
proof -
  note b = picker_ok_simps(1) [OF pk_invD(1) [OF k(1)] k(2)]
  let ?ro = "reverse_order (pk_bounds k) (pk_pieces k)"
  let ?free = "\<lambda>x (_::pick). \<not> is_piece_free x (pc_pieces c) k"
  have t: "those ?ro = Some (map the ?ro)"
    by (rule those_some) (use pieces_held(1) [OF b] reverse_order_held in blast)
  have i: "x < length (pk_map k)" if "x \<in> set (map the ?ro) \<or> x \<in> set (map the (pk_pieces k))" for x
    using that pieces_held(2) [OF b] reverse_order_held by auto
  have "\<exists>s'. pick_each (\<lambda>_. False) ?free (add_blocks c suggested k) (map the ?ro) s = Some (pi_num s' \<le> 0, s') \<and> picks_ok c k n s'"
    by (rule add_each_ok [OF k(1) i _ s]) simp_all
  moreover have "\<exists>s'. pick_each (not_critical c k) ?free (add_blocks c suggested k) (map the (pk_pieces k)) s =
      Some (pi_num s' \<le> 0, s') \<and> picks_ok c k n s'"
    by (rule add_each_ok [OF k(1) i _ s]) simp_all
  ultimately show ?thesis using t those_pieces [OF b] by (simp add: pick_rarest_def)
qed

text \<open>
  In time-critical mode without an order the buckets may be dirty: then they are not sorted, but what is in them are
  pieces of the map.
\<close>

lemma pick_critical_ok:
  assumes k: "pk_inv k" and s: "picks_ok c k n s" "0 < pi_num s"
  shows "\<exists>s'. pick_critical c suggested k s = Some (pi_num s' \<le> 0, s') \<and> picks_ok c k n s'"
proof -
  have b: "\<exists>x < length (pk_map k). p = Some x" if "p \<in> set (pk_pieces k)" for p
    using picker_ok_simps(5) [OF pk_invD(1) [OF k]] that by (auto simp: named_def)
  have i: "x < length (pk_map k)" if "x \<in> set (map the (pk_pieces k))" for x
    using that b by fastforce
  have "\<exists>s'. pick_each (\<lambda>x. piece_prio (pk_map k ! x) \<noteq> 7) (\<lambda>x _. \<not> is_piece_free x (pc_pieces c) k)
      (add_blocks c suggested k) (map the (pk_pieces k)) s = Some (pi_num s' \<le> 0, s') \<and> picks_ok c k n s'"
    by (rule add_each_ok [OF k i _ s]) simp_all
  moreover have "those (pk_pieces k) = Some (map the (pk_pieces k))" by (rule those_some) (use b in auto)
  ultimately show ?thesis by (simp add: pick_critical_def)
qed

subsection \<open>Neither order\<close>

lemma seek_free_ok: "seek_free free n start x = Some y \<Longrightarrow> y < n \<and> free y"
proof (induction free n start x rule: seek_free.induct)
  case (1 free n start x)
  from 1(2) have nx: "\<not> (n \<le> x \<or> n \<le> start)" by (subst (asm) seek_free.simps) (auto split: if_splits)
  show ?case
  proof (cases "free x")
    case True
    with 1(2) nx show ?thesis by (subst (asm) seek_free.simps) auto
  next
    case False
    let ?y = "if x + 1 = n then 0 else x + 1"
    have "?y \<noteq> start \<and> seek_free free n start ?y = Some y"
      using 1(2) nx False by (subst (asm) seek_free.simps) (simp add: Let_def split: if_splits)
    then show ?thesis using 1(1) [OF nx False refl] by blast
  qed
qed

lemma pick_random_ok:
  assumes k: "pk_inv k" and s: "picks_ok c k n s" "nat (pi_num s) < fuel"
  shows "\<exists>s'. pick_random fuel c suggested k start x s = Some s' \<and> picks_ok c k n s'"
  using s
proof (induction fuel arbitrary: x s)
  case (Suc fuel)
  let ?seek_free = "seek_free (\<lambda>y. can_pick y (pc_pieces c) k \<and> y \<notin> set suggested) (length (pk_map k)) start x"
  show ?case
  proof (cases "pi_num s \<le> 0 \<or> ?seek_free = None")
    case True
    with Suc.prems(1) show ?thesis by (intro exI [of _ s]) auto
  next
    case False
    then obtain y where y: "?seek_free = Some y" and num: "0 < pi_num s" by auto
    from seek_free_ok [OF y] have cy: "y < length (pk_map k)" "can_pick y (pc_pieces c) k" by auto
    obtain a e where e: "expand_piece y (pc_whole c) (pc_pieces c) k = (a, e)" by fastforce
    let ?new = "new_blocks c k y (pi_num s)"
    let ?s1 = "s\<lparr>pi_blocks := pi_blocks s @ ?new, pi_num := pi_num s - int (length ?new)\<rparr>"
    let ?z = "if e = length (pk_map k) then 0 else e"
    have s1: "picks_ok c k n ?s1"
      using picks_ok_new(1) [OF Suc.prems(1), of ?new] new_blocks_ok(1,2) [OF k cy] num by simp
    have "0 < length ?new" using new_blocks_ok(3) [OF k cy num] by simp
    then have "nat (pi_num s - int (length ?new)) < fuel" using Suc.prems(2) num by linarith
    then have "nat (pi_num ?s1) < fuel" by simp
    from Suc.IH [OF s1 this, of ?z] obtain s' where
      "pick_random fuel c suggested k start ?z ?s1 = Some s'" "picks_ok c k n s'" by blast
    moreover have "pick_random (Suc fuel) c suggested k start x s =
        (if ?z = start then Some ?s1 else pick_random fuel c suggested k start ?z ?s1)"
      using y num e by (simp add: new_blocks_def Let_def)
    ultimately show ?thesis using s1 by (cases "?z = start") simp_all
  qed
qed simp

subsection \<open>The end\<close>

lemma full_backup_ok:
  assumes k: "pk_inv k" and d: "d \<in> set (pk_downloads k)" and s: "picks_ok c k n s" "0 < pi_num s"
  shows "picks_ok c k n (full_backup c k d s)" "pi_num (full_backup c k d s) = pi_num s"
proof -
  have "picks_ok c k (pi_num s) (s\<lparr>pi_blocks := []\<rparr>)" using s by (simp add: picks_ok_def)
  from add_blocks_downloading_ok [OF k d this] s(2)
  have "picks_ok c k (pi_num s) (add_blocks_downloading c d k (s\<lparr>pi_blocks := []\<rparr>))" by simp
  with s(1) show "picks_ok c k n (full_backup c k d s)" by (auto simp: full_backup_def picks_ok_def Let_def)
  show "pi_num (full_backup c k d s) = pi_num s" by (simp add: full_backup_def Let_def)
qed

lemma full_backups_ok:
  assumes "pk_inv k" "set ds \<subseteq> set (pk_downloads k)" "picks_ok c k n s" "0 < pi_num s"
  shows "picks_ok c k n (fold (full_backup c k) ds s) \<and> pi_num (fold (full_backup c k) ds s) = pi_num s"
  using assms(2-4) by (induction ds arbitrary: s) (auto simp: full_backup_ok [OF assms(1)])

lemma first_busy_ok:
  assumes k: "pk_inv k" and ds: "set ds \<subseteq> set (pk_downloads k)" and b: "b \<in> set (first_busy c k ds)"
  shows "busy_block c k b"
  using ds b
proof (induction ds)
  case (Cons d ds)
  then have d: "d \<in> set (pk_downloads k)" by simp
  show ?case
  proof (cases "b \<in> set (first_busy c k ds)")
    case True
    with Cons show ?thesis by simp
  next
    case False
    with Cons.prems(2) have c: "pc_pieces c ! dp_index d" "piece_prio (pk_map k ! dp_index d) \<noteq> 0" "b \<in> set (busy_blocks c k d)"
      by (auto simp: Let_def split: if_splits)
    then obtain j where j: "b = (dp_index d, j)" "j < blocks_in_piece (dp_index d) k" "bi_state (dl_blocks d k ! j) = StateRequested"
      using dl_blocks_at(2) [OF k d] by (auto simp: busy_blocks_def Let_def)
    with c dl_blocks_at(3-5) [OF k d] show ?thesis
      by (simp add: busy_block_def pickable_def is_piece_free_def filtered_def)
  qed
qed simp

lemma pick_finish_ok:
  assumes k: "pk_inv k" and s: "picks_ok c k n s" "0 < pi_num s"
  shows "\<exists>bs busy. pi_blocks (pick_finish c random k s) = bs @ busy \<and> list_all (free_block c k) bs \<and>
    list_all (busy_block c k) busy \<and> length busy \<le> 1 \<and> (pc_whole c = 0 \<longrightarrow> int (length (bs @ busy)) \<le> n)"
proof -
  let ?s1 = "fold (full_backup c k) (pk_downloads k) s"
  let ?temp = "first_busy c k (pk_downloads k)"
  let ?s2 = "append_backup ?s1"
  let ?s3 = "append_backup2 ?s2"
  have s1: "picks_ok c k n ?s1" "0 < pi_num ?s1" using full_backups_ok [OF k order_refl s] s(2) by simp_all
  note s2 = append_backup_ok(1) [OF s1]
  have free: "list_all (free_block c k) (pi_blocks t)" "pc_whole c = 0 \<Longrightarrow> int (length (pi_blocks t)) \<le> n"
    if "picks_ok c k n t" for t
    using that by (auto simp: picks_ok_def list_all_iff)
  have fin: ?thesis if "pick_finish c random k s = t" "picks_ok c k n t" for t
    by (intro exI [of _ "pi_blocks t"] exI [of _ "[]"]) (use that free in simp)
  show ?thesis
  proof (cases "pi_num ?s2 \<le> 0")
    case True
    with s2 show ?thesis by (intro fin [of ?s2]) (simp_all add: pick_finish_def Let_def)
  next
    case n2: False
    with append_backup_ok(2) [OF s2] have s3: "picks_ok c k n ?s3" by simp
    show ?thesis
    proof (cases "pi_num ?s3 \<le> 0 \<or> pc_on_parole c \<or> ?temp = []")
      case True
      with s3 n2 show ?thesis by (intro fin [of ?s3]) (auto simp: pick_finish_def Let_def)
    next
      case False
      let ?b = "?temp ! (random mod length ?temp)"
      have "?b \<in> set ?temp" using False by simp
      then have b: "busy_block c k ?b" by (rule first_busy_ok [OF k order_refl])
      have p: "pi_blocks (pick_finish c random k s) = pi_blocks ?s3 @ [?b]"
        using False n2 by (simp add: pick_finish_def Let_def)
      have l: "pc_whole c = 0 \<Longrightarrow> int (length (pi_blocks ?s3 @ [?b])) \<le> n"
        using s3 False by (auto simp: picks_ok_def)
      show ?thesis by (intro exI [of _ "pi_blocks ?s3"] exI [of _ "[?b]"]) (use p b l free(1) [OF s3] in simp)
    qed
  qed
qed

subsection \<open>The buckets\<close>

lemma step_keeps: "pk_inv k \<Longrightarrow> keeps k k' \<Longrightarrow> picker_ok k' \<Longrightarrow> pk_inv k' \<and> state_at k' = state_at k"
  using inv_keeps by (simp add: state_at_def fun_eq_iff)

lemma pickable_reindexed:
  assumes "reindexed (k\<lparr>pk_dirty := d\<rparr>) k1"
  shows "pickable c k1 = pickable c k" "frame k k1"
proof -
  note r = reindexed_keeps [OF assms]
  have l: "length (pk_map k1) = length (pk_map k)" "\<And>x. x < length (pk_map k) \<Longrightarrow> same_piece (pk_map k ! x) (pk_map k1 ! x)"
    using assms by (auto simp: reindexed_def list_all2_conv_all_nth)
  from frame_reindexed [OF assms] show f: "frame k k1" by (simp add: frame_def)
  show "pickable c k1 = pickable c k"
  proof
    fix b :: piece_block
    have "pp_have (pk_map k1 ! fst b) = pp_have (pk_map k ! fst b) \<and> filtered (pk_map k1 ! fst b) = filtered (pk_map k ! fst b)"
      if "fst b < length (pk_map k)"
      using same_piece_unwanted [OF l(2) [OF that]] by simp
    with l(1) frameD(2) [OF f] show "pickable c k1 b = pickable c k b" by (auto simp: pickable_def is_piece_free_def)
  qed
qed

lemma update_pieces_steps:
  assumes "pk_inv k"
  shows "\<exists>k'. update_pieces rnd k = Some k' \<and> pk_inv k' \<and> \<not> pk_dirty k' \<and> state_at k' = state_at k \<and>
    reindexed (k\<lparr>pk_dirty := False\<rparr>) k'"
proof -
  note k = pk_invD(1) [OF assms]
  obtain k' where k': "update_pieces rnd k = Some k'" "buckets_ok k'" "\<not> pk_dirty k'" "reindexed (k\<lparr>pk_dirty := False\<rparr>) k'"
    using update_pieces_ok [OF picker_ok_simps(2) [OF k]] by blast
  have "keeps k (k\<lparr>pk_dirty := False\<rparr>)" by (simp add: keeps_def list_all2_refl)
  from keeps_reindexed [OF this k'(4)] have ke: "keeps k k'" .
  have "picker_ok k'" using update_pieces_picker_ok [OF k, of rnd] k'(1) by auto
  with step_keeps [OF assms ke] k' show ?thesis by blast
qed

lemma update_pieces_inv:
  "pk_inv k \<Longrightarrow> \<exists>k'. update_pieces rnd k = Some k' \<and> pk_inv k' \<and> \<not> pk_dirty k' \<and> state_at k' = state_at k"
  using update_pieces_steps by blast

lemma round_up_grow:
  assumes "buckets_ok k"
  shows "k\<lparr>pk_bounds := round_up (pk_bounds k)\<rparr> = grow_bounds ((length (pk_bounds k) + 3) div 4 * 4 - 1) k"
proof -
  let ?n = "(length (pk_bounds k) + 3) div 4 * 4"
  have b: "last (pk_bounds k) = length (pk_pieces k)" "pk_bounds k \<noteq> []" using assms by (auto simp: buckets_ok_def bounds_ok_def)
  then have "4 \<le> length (pk_bounds k) + 3" by (cases "pk_bounds k") simp_all
  then have "0 < (length (pk_bounds k) + 3) div 4" by (simp only: div_greater_zero_iff) simp
  then have "Suc (?n - 1) = ?n" by linarith
  with b(1) show ?thesis by (simp add: round_up_def grow_bounds_def)
qed

lemma pick_buckets_ok:
  assumes k: "pk_inv k"
  shows "\<exists>k1. pick_buckets c rnd k = Some k1 \<and> pk_inv k1 \<and> state_at k1 = state_at k \<and> frame k k1 \<and>
    pickable c' k1 = pickable c' k \<and> (pk_dirty k1 \<longrightarrow> pk_dirty k \<and> \<not> pc_sequential c \<and> \<not> pc_rarest_first c)"
proof -
  let ?u = "(pc_sequential c \<or> pc_rarest_first c) \<and> pk_dirty k"
  obtain k1 where k1: "(if ?u then update_pieces rnd k else Some k) = Some k1" "pk_inv k1" "state_at k1 = state_at k"
    "frame k k1" "pickable c' k1 = pickable c' k" "pk_dirty k1 \<longrightarrow> pk_dirty k \<and> \<not> pc_sequential c \<and> \<not> pc_rarest_first c"
  proof (cases ?u)
    case True
    obtain k1 where u: "update_pieces rnd k = Some k1" "pk_inv k1" "\<not> pk_dirty k1" "state_at k1 = state_at k"
      "reindexed (k\<lparr>pk_dirty := False\<rparr>) k1" using update_pieces_steps [OF k] by blast
    with True pickable_reindexed [OF u(5)] that show ?thesis by simp
  next
    case False
    with k that [of k] show ?thesis by auto
  qed
  show ?thesis
  proof (cases "\<not> pc_sequential c \<and> pc_rarest_first c \<and> pc_reverse c \<and> \<not> pc_critical c")
    case False
    then have "pick_buckets c rnd k = Some k1" using k1(1) by (simp only: pick_buckets_def bind.bind_lunit if_False)
    with k1 show ?thesis by blast
  next
    case True
    let ?k2 = "k1\<lparr>pk_bounds := round_up (pk_bounds k1)\<rparr>"
    have b: "buckets_ok k1" using picker_ok_simps(1) [OF pk_invD(1) [OF k1(2)]] k1(6) True by blast
    then have "buckets_ok ?k2"
      unfolding round_up_grow [OF b] using grow_bounds_ok [of "{}" "{}" k1] by (simp add: buckets_ok_def)
    moreover have v: "view ?k2 = view k1" "storage_ok ?k2 = storage_ok k1" "\<And>y. blocks_in_piece y ?k2 = blocks_in_piece y k1"
      by (simp_all add: view_def blocks_of_def storage_ok_def blocks_in_piece_def)
    then have "downloads_ok ?k2" using pk_invD(2) [OF k1(2)] by (simp add: downloads_ok_def entries_ok_def)
    ultimately have "pk_inv ?k2" using pk_invD(1,3) [OF k1(2)] by (simp add: pk_inv_def picker_ok_def named_def counters_ok_def)
    moreover have "state_at ?k2 = state_at k1" using blocks_at_same [OF v(1)] by (simp add: state_at_def fun_eq_iff)
    moreover have "frame k1 ?k2" "pickable c' ?k2 = pickable c' k1"
      using v(3) by (simp_all add: frame_def pickable_def is_piece_free_def fun_eq_iff)
    moreover have "pick_buckets c rnd k = Some ?k2" using True k1(1) by (simp add: pick_buckets_def)
    ultimately show ?thesis using k1 frame_trans by fastforce
  qed
qed

subsection \<open>The whole call\<close>

lemma pick_main_ok:
  assumes k: "pk_inv k" and s: "picks_ok c k n s" "0 < pi_num s"
    and o: "pc_sequential c \<or> pc_rarest_first c \<longrightarrow> \<not> pk_dirty k" "pk_map k \<noteq> []"
  shows "\<exists>ret s'. pick_main c suggested random k s = Some (ret, s') \<and> picks_ok c k n s'"
proof -
  consider "pc_sequential c" | "\<not> pc_sequential c" "pc_rarest_first c" | "\<not> pc_sequential c" "\<not> pc_rarest_first c" "pc_critical c"
    | "\<not> pc_sequential c" "\<not> pc_rarest_first c" "\<not> pc_critical c" by blast
  then show ?thesis
  proof cases
    case 1
    with pick_sequential_ok [OF k _ s, of suggested] o(1) show ?thesis by (auto simp: pick_main_def)
  next
    case 2
    with pick_rarest_ok [OF k _ s, of suggested] o(1) show ?thesis by (auto simp: pick_main_def)
  next
    case 3
    with pick_critical_ok [OF k s, of suggested] show ?thesis by (auto simp: pick_main_def)
  next
    case 4
    let ?start = "random mod length (pk_map k)"
    obtain s' where "pick_random (nat (pi_num s) + 1) c suggested k ?start ?start s = Some s'" "picks_ok c k n s'"
      using pick_random_ok [OF k s(1), of "nat (pi_num s) + 1" suggested ?start ?start] by auto
    with 4 o(2) show ?thesis by (auto simp: pick_main_def Let_def)
  qed
qed

lemma picks_ok_cong:
  assumes "pickable c k1 = pickable c k" "state_at k1 = state_at k"
  shows "free_block c k1 = free_block c k" "busy_block c k1 = busy_block c k" "picks_ok c k1 = picks_ok c k"
proof -
  have "\<And>b. pickable c k1 b = pickable c k b" "\<And>x j. state_at k1 x j = state_at k x j" using assms by simp_all
  then show f: "free_block c k1 = free_block c k" and "busy_block c k1 = busy_block c k"
    by (simp_all only: free_block_def busy_block_def fun_eq_iff simp_thms)
  then show "picks_ok c k1 = picks_ok c k" by (simp only: picks_ok_def fun_eq_iff simp_thms)
qed

lemma pick_call_simps:
  "pc_pieces (pick_call_of c pad peers k) = pc_pieces c" "pc_sequential (pick_call_of c pad peers k) = pc_sequential c"
  "pc_rarest_first (pick_call_of c pad peers k) = pc_rarest_first c" "pc_critical (pick_call_of c pad peers k) = pc_critical c"
  "pc_whole (pick_call_of c pad peers k) = (if pc_ignore_whole c then 0 else pc_whole c)"
  by (simp_all add: pick_call_of_def Let_def)

lemma pick_call_blocks: "free_block (pick_call_of c pad peers k) = free_block c" "busy_block (pick_call_of c pad peers k) = busy_block c"
  by (simp_all add: free_block_def busy_block_def pickable_def pick_call_simps fun_eq_iff)

text \<open>
  The call returns: first the free blocks, no more than were asked for unless whole pieces are preferred, then at
  most one that others have been asked for.
\<close>

definition picked_ok :: "pick_call \<Rightarrow> nat \<Rightarrow> picker \<Rightarrow> piece_block list \<Rightarrow> bool" where
  "picked_ok c num k picks \<longleftrightarrow>
     (\<exists>bs busy. picks = bs @ busy \<and> list_all (free_block c k) bs \<and> list_all (busy_block c k) busy \<and> length busy \<le> 1 \<and>
        (pc_whole c = 0 \<or> pc_ignore_whole c \<longrightarrow> length picks \<le> num))"

lemma picked_ok_free:
  assumes "picks_ok (pick_call_of c pad peers k) k (int num) s"
  shows "picked_ok c num k (pi_blocks s)"
proof -
  have "list_all (free_block c k) (pi_blocks s)" "pc_whole c = 0 \<or> pc_ignore_whole c \<longrightarrow> length (pi_blocks s) \<le> num"
    using assms unfolding picks_ok_def pick_call_blocks pick_call_simps
    by (auto simp: list_all_iff split: if_splits)
  then show ?thesis unfolding picked_ok_def by (intro exI [of _ "pi_blocks s"] exI [of _ "[]"]) simp
qed

lemma picked_ok_block:
  assumes "picked_ok c num k picks" "b \<in> set picks"
  shows "pickable c k b" "state_at k (fst b) (snd b) = StateNone \<or> state_at k (fst b) (snd b) = StateRequested"
proof -
  have "free_block c k b \<or> busy_block c k b" using assms by (auto simp: picked_ok_def list_all_iff simp del: split_paired_All)
  then show "pickable c k b" "state_at k (fst b) (snd b) = StateNone \<or> state_at k (fst b) (snd b) = StateRequested"
    unfolding free_block_def busy_block_def by blast+
qed

lemma picked_ok_verify:
  assumes "picked_ok c num k picks" "length (pc_pieces c) = length (pk_map k)"
  shows "verify_pick picks (pc_pieces c) k"
  using picked_ok_block(1) [OF assms(1)] assms(2) by (simp add: verify_pick_def list_all_iff pickable_def is_piece_free_def)

lemma pick_pieces_ok:
  assumes k: "pk_inv k" "pk_map k \<noteq> []" and num: "0 < num"
    and sg: "\<And>x. x \<in> set suggested \<Longrightarrow> x < length (pk_map k)"
  shows "\<exists>picks k'. pick_pieces c pad peers suggested num rnd random random2 k = Some (picks, k') \<and>
    pk_inv k' \<and> state_at k' = state_at k \<and> frame k k' \<and> pickable c k' = pickable c k \<and> picked_ok c num k picks"
proof -
  let ?c = "pick_call_of c pad peers k"
  let ?s0 = "\<lparr>pi_blocks = [], pi_backup = [], pi_backup2 = [], pi_num = int num\<rparr>"
  have s0: "picks_ok ?c k (int num) ?s0" "0 < pi_num ?s0" using num by (simp_all add: picks_ok_def)
  obtain s1 where s1: "and_then (if pc_partials ?c then pick_partials ?c k ?s0 else Some (False, ?s0))
      (pick_suggested ?c suggested k) = Some (pi_num s1 \<le> 0, s1)" "picks_ok ?c k (int num) s1"
  proof -
    obtain s where s: "(if pc_partials ?c then pick_partials ?c k ?s0 else Some (False, ?s0)) = Some (pi_num s \<le> 0, s)"
      "picks_ok ?c k (int num) s"
      using pick_partials_ok [OF k(1) s0] s0 num by (cases "pc_partials ?c") force+
    show thesis
    proof (cases "pi_num s \<le> 0")
      case True
      with s that show thesis by (simp add: and_then_def)
    next
      case False
      with s that pick_suggested_ok [OF k(1) sg s(2)] show thesis by (auto simp: and_then_def)
    qed
  qed
  show ?thesis
  proof (cases "pi_num s1 \<le> 0")
    case True
    then have "pick_pieces c pad peers suggested num rnd random random2 k = Some (pi_blocks s1, k)"
      using s1(1) by (simp add: pick_pieces_def Let_def)
    with picked_ok_free [OF s1(2)] k(1) show ?thesis by simp
  next
    case False
    obtain k1 where k1: "pick_buckets ?c rnd k = Some k1" "pk_inv k1" "state_at k1 = state_at k" "frame k k1"
      "pickable ?c k1 = pickable ?c k" "pk_dirty k1 \<longrightarrow> pk_dirty k \<and> \<not> pc_sequential ?c \<and> \<not> pc_rarest_first ?c"
      using pick_buckets_ok [OF k(1), of ?c rnd ?c] by blast
    note same = picks_ok_cong [OF k1(5,3)]
    have d: "pc_sequential ?c \<or> pc_rarest_first ?c \<longrightarrow> \<not> pk_dirty k1" using k1(6) by auto
    have m: "pk_map k1 \<noteq> []" using frameD(1) [OF k1(4)] k(2) by auto
    have p1: "picks_ok ?c k1 (int num) s1" "0 < pi_num s1" using s1(2) False by (simp_all only: same not_le)
    obtain ret s2 where s2: "pick_main ?c suggested random k1 s1 = Some (ret, s2)" "picks_ok ?c k1 (int num) s2"
      using pick_main_ok [OF k1(2) p1 d m] by blast
    let ?picks = "if ret \<or> pi_num s2 \<le> 0 then pi_blocks s2 else pi_blocks (pick_finish ?c random2 k1 s2)"
    have "pick_pieces c pad peers suggested num rnd random random2 k = Some (?picks, k1)"
      using s1(1) False k1(1) s2(1) by (simp add: pick_pieces_def Let_def)
    moreover have "picked_ok c num k ?picks"
    proof (cases "ret \<or> pi_num s2 \<le> 0")
      case True
      with picked_ok_free [of c pad peers k num s2] s2(2) same(3) show ?thesis by simp
    next
      case f: False
      then obtain bs busy where b: "pi_blocks (pick_finish ?c random2 k1 s2) = bs @ busy" "list_all (free_block ?c k1) bs"
        "list_all (busy_block ?c k1) busy" "length busy \<le> 1" "pc_whole ?c = 0 \<longrightarrow> int (length (bs @ busy)) \<le> int num"
        using pick_finish_ok [OF k1(2) s2(2), of random2] by auto
      have "list_all (free_block c k) bs" "list_all (busy_block c k) busy" using b(2,3) by (simp_all only: pick_call_blocks same(1,2) [unfolded pick_call_blocks])
      moreover have "pc_whole c = 0 \<or> pc_ignore_whole c \<longrightarrow> length (bs @ busy) \<le> num"
        using b(5) unfolding pick_call_simps by (auto split: if_splits)
      ultimately have "picked_ok c num k (bs @ busy)" using b(4) unfolding picked_ok_def by blast
      with b(1) f show ?thesis by simp
    qed
    moreover have "pickable c k1 = pickable c k" using k1(5) by (simp add: pickable_def pick_call_simps fun_eq_iff)
    ultimately show ?thesis using k1(2-4) by blast
  qed
qed

end
