(* ===== verification/PickerCheck.thy ===== *)
theory PickerCheck
  imports PickSafe
begin

section \<open>The picker's own check never fails\<close>

text \<open>
  \<^verbatim>\<open>piece_picker::check_invariant\<close> asserts what the members should satisfy after every operation. Here it is a
  function that says whether all its assertions hold, and it holds in every state that the operations reach
  from \<^verbatim>\<open>init\<close>, when they are called as their own assertions demand. The checks of \<^verbatim>\<open>in_use\<close> peers, of
  \<^verbatim>\<open>block_info::piece_index\<close> and of the torrent are left out: those members are not modelled.
\<close>

subsection \<open>check_invariant\<close>

fun ascending :: "nat list \<Rightarrow> bool" where
  "ascending (a # b # xs) = (a < b \<and> ascending (b # xs))"
| "ascending _ = True"

definition check_entry :: "picker \<Rightarrow> downloading_piece \<Rightarrow> bool" where
  "check_entry k d =
     (let num_blocks = blocks_in_piece (dp_index d) k;
          bs = take num_blocks (drop (dp_info d) (pk_block_info k));
          num_finished = int (length (filter (\<lambda>b. bi_state b = StateFinished) bs));
          num_requested = int (length (filter (\<lambda>b. bi_state b = StateRequested) bs));
          num_writing = int (length (filter (\<lambda>b. bi_state b = StateWriting) bs))
      in dp_index d < length (pk_map k) \<and> dp_info d + num_blocks \<le> length (pk_block_info k) \<and>
         list_all (\<lambda>b. case bi_state b of
             StateFinished \<Rightarrow> bi_num_peers b = 0
           | StateRequested \<Rightarrow> 0 < bi_num_peers b
           | StateWriting \<Rightarrow> bi_num_peers b = 0
           | StateNone \<Rightarrow> True) bs \<and>
         (list_ex (\<lambda>b. bi_state b = StateRequested) bs = (dp_state d \<noteq> NoSpeed)) \<and>
         num_requested = dp_requested d \<and> num_writing = dp_writing d \<and> num_finished = dp_finished d \<and>
         (full (pk_map k ! dp_index d) \<longrightarrow> num_finished + num_writing + num_requested = int num_blocks))"

definition check_cursors :: "picker \<Rightarrow> bool" where
  "check_cursors k =
     (let num_pieces = length (pk_map k)
      in pk_cursor k \<le> num_pieces \<and> pk_reverse_cursor k \<le> num_pieces \<and>
         (pk_cursor k < pk_reverse_cursor k \<or> (pk_cursor k = num_pieces \<and> pk_reverse_cursor k = 0)) \<and>
         pk_cursor k = skip_up (pk_map k) 0 \<and>
         (let index = skip_down (pk_map k) num_pieces
          in (index = num_pieces \<or> unwanted (pk_map k ! index)) \<and> pk_reverse_cursor k = index))"

text \<open>\<^verbatim>\<open>verify_priority\<close> on each bucket.\<close>

definition verify_priority :: "nat \<Rightarrow> nat \<Rightarrow> nat \<Rightarrow> picker \<Rightarrow> bool" where
  "verify_priority first past prio k =
     (first \<le> past \<and> past \<le> length (pk_pieces k) \<and>
      list_all (\<lambda>p. case p of None \<Rightarrow> False
                    | Some x \<Rightarrow> x < length (pk_map k) \<and> prio_of k x = Some prio)
        (take (past - first) (drop first (pk_pieces k))))"

fun verify_buckets :: "nat \<Rightarrow> nat \<Rightarrow> nat list \<Rightarrow> picker \<Rightarrow> bool" where
  "verify_buckets prio start [] k = True"
| "verify_buckets prio start (e # b) k = (verify_priority start e prio k \<and> verify_buckets (prio + 1) e b k)"

definition check_piece :: "picker \<Rightarrow> nat \<Rightarrow> bool" where
  "check_piece k x =
     (let p = pk_map k ! x; prio = priority (pk_seeds k) p;
          num = length (filter (\<lambda>d. dp_index d = x) (pk_downloads k))
      in (pp_have p \<longrightarrow> \<not> downloading p) \<and>
         (case prio of None \<Rightarrow> True | Some q \<Rightarrow> downloading p = (q mod 4 = 0)) \<and>
         (\<not> pk_dirty k \<longrightarrow>
            (case prio of
               Some q \<Rightarrow> q < length (pk_bounds k) \<and> pos_index p < length (pk_pieces k) \<and>
                 pk_pieces k ! pos_index p = Some x
             | None \<Rightarrow> \<not> list_ex (\<lambda>y. y = Some x) (pk_pieces k))) \<and>
         num = (if downloading p then 1 else 0))"

definition check_counters :: "picker \<Rightarrow> bool" where
  "check_counters k =
     (pk_num_have k = int (length (filter pp_have (pk_map k))) \<and>
      pk_num_filtered k = int (length (filter (\<lambda>p. filtered p \<and> \<not> pp_have p) (pk_map k))) \<and>
      pk_num_have_filtered k = int (length (filter (\<lambda>p. filtered p \<and> pp_have p) (pk_map k))) \<and>
      0 \<le> pk_num_have k \<and> 0 \<le> pk_num_filtered k \<and> 0 \<le> pk_num_have_filtered k)"

definition check_invariant :: "picker \<Rightarrow> bool" where
  "check_invariant k =
     (ascending (map dp_index (pk_downloads k)) \<and> list_all (check_entry k) (pk_downloads k) \<and>
      check_cursors k \<and>
      (\<not> pk_dirty k \<longrightarrow> pk_bounds k \<noteq> [] \<and> verify_buckets 0 0 (pk_bounds k) k \<and>
         last (pk_bounds k) = length (pk_pieces k)) \<and>
      list_all (check_piece k) [0..<length (pk_map k)] \<and> check_counters k \<and>
      (\<not> pk_dirty k \<longrightarrow> list_all (\<lambda>p. case p of None \<Rightarrow> False
           | Some x \<Rightarrow> x < length (pk_map k) \<and> prio_of k x \<noteq> None) (pk_pieces k)))"

subsection \<open>The invariant implies the check\<close>

lemma ascending_iff: "ascending xs \<longleftrightarrow> sorted_wrt (<) xs"
proof (induction xs rule: ascending.induct)
  case (1 a b xs)
  then show ?case by (auto intro: less_trans)
qed simp_all

lemma check_entry_ok:
  assumes k: "downloads_ok k" and d: "d \<in> set (pk_downloads k)"
  shows "check_entry k d"
proof -
  obtain i where i: "i < length (pk_downloads k)" "pk_downloads k ! i = d" using d by (auto simp: in_set_conv_nth)
  let ?n = "blocks_in_piece (dp_index d) k"
  note ve = view_entry [OF k i(1)]
  have n: "?n \<le> pk_blocks_per_piece k" by (rule blocks_in_piece_bounds(2) [OF k])
  have le: "dp_info d + pk_blocks_per_piece k \<le> length (pk_block_info k)"
    using storageD [OF downloadsD(1) [OF k] i(1)] i(2) by metis
  have t: "take ?n (drop (dp_info d) (pk_block_info k)) = take ?n (snd (view k ! i))"
    using n i by (simp add: view_nth blocks_of_def min_def)
  have e: "entry_ok ?n (full (pk_map k ! dp_index d)) (d, snd (view k ! i))"
    using ve(3) i by (auto simp: view_nth entry_ok_def Let_def)
  let ?bs = "take ?n (snd (view k ! i))"
  have np: "0 < bi_num_peers b \<longleftrightarrow> bi_state b = StateRequested" if "b \<in> set ?bs" for b
    using e that by (simp add: entry_ok_def Let_def)
  have ex: "list_ex (\<lambda>b. bi_state b = StateRequested) ?bs \<longleftrightarrow> in_state StateRequested ?bs \<noteq> 0"
    by (simp add: in_state_def tally_def list_ex_iff filter_empty_conv)
  have al: "list_all (\<lambda>b. case bi_state b of StateFinished \<Rightarrow> bi_num_peers b = 0 | StateRequested \<Rightarrow> 0 < bi_num_peers b
      | StateWriting \<Rightarrow> bi_num_peers b = 0 | StateNone \<Rightarrow> True) ?bs"
    unfolding list_all_iff
  proof
    fix b assume "b \<in> set ?bs"
    from np [OF this] show "case bi_state b of StateFinished \<Rightarrow> bi_num_peers b = 0
      | StateRequested \<Rightarrow> 0 < bi_num_peers b | StateWriting \<Rightarrow> bi_num_peers b = 0 | StateNone \<Rightarrow> True"
      by (cases "bi_state b") auto
  qed
  have c: "dp_requested d = in_state StateRequested ?bs" "dp_writing d = in_state StateWriting ?bs"
    "dp_finished d = in_state StateFinished ?bs" "dp_state d \<noteq> NoSpeed \<longleftrightarrow> dp_requested d \<noteq> 0"
    "full (pk_map k ! dp_index d) \<longrightarrow> dp_finished d + dp_writing d + dp_requested d = int ?n"
    using e unfolding entry_ok_def Let_def fst_conv snd_conv by blast+
  show ?thesis
    unfolding check_entry_def Let_def t
  proof (intro conjI)
    show "list_ex (\<lambda>b. bi_state b = StateRequested) ?bs = (dp_state d \<noteq> NoSpeed)" using ex c(1,4) by simp
  qed (use ve(1) i(2) le n al c in \<open>simp_all add: in_state_def tally_def\<close>)
qed

lemma check_cursors_ok:
  assumes "cursors_ok (pk_map k) (pk_cursor k) (pk_reverse_cursor k)"
  shows "check_cursors k"
proof -
  let ?ps = "pk_map k" and ?c = "pk_cursor k" and ?r = "pk_reverse_cursor k"
  note u = skip_up_ok [of 0 ?ps] and d = skip_down_ok [of "length ?ps" ?ps]
  have c: "?c = skip_up ?ps 0"
    using assms u by (auto simp: cursors_ok_def not_less intro!: order.antisym)
  have r: "?r = skip_down ?ps (length ?ps)"
  proof (rule linorder_cases [of ?r "skip_down ?ps (length ?ps)"])
    assume l: "?r < skip_down ?ps (length ?ps)"
    then have "?r \<le> skip_down ?ps (length ?ps) - 1" "skip_down ?ps (length ?ps) - 1 < length ?ps" using d by auto
    with d have "unwanted (?ps ! (skip_down ?ps (length ?ps) - 1)) = False" using l by auto
    moreover have "unwanted (?ps ! (skip_down ?ps (length ?ps) - 1))"
      using assms \<open>?r \<le> _ - 1\<close> \<open>_ - 1 < length ?ps\<close> by (simp add: cursors_ok_def)
    ultimately show ?thesis by simp
  next
    assume l: "skip_down ?ps (length ?ps) < ?r"
    then have "skip_down ?ps (length ?ps) \<le> ?r - 1" "?r - 1 < length ?ps" using assms by (auto simp: cursors_ok_def)
    then have "unwanted (?ps ! (?r - 1))" using d by simp
    moreover have "\<not> unwanted (?ps ! (?r - 1))" using assms l by (simp add: cursors_ok_def)
    ultimately show ?thesis by simp
  qed
  have le: "?c \<le> length ?ps" "?r \<le> length ?ps" using assms by (simp_all add: cursors_ok_def)
  have "unwanted (?ps ! ?r)" if "?r \<noteq> length ?ps" using that le(2) assms by (simp add: cursors_ok_def)
  then have "?r = length ?ps \<or> unwanted (?ps ! ?r)" by blast
  moreover note le
  moreover have "?c < ?r \<or> (?c = length ?ps \<and> ?r = 0)"
  proof (cases "?c < length ?ps")
    case True
    then have "\<not> ?r \<le> ?c" using assms by (auto simp: cursors_ok_def)
    then show ?thesis by simp
  next
    case False
    then have e: "?c = length ?ps" using assms by (simp add: cursors_ok_def)
    have "?r = 0"
    proof (rule ccontr)
      assume "?r \<noteq> 0"
      then have "?r - 1 < ?c" "\<not> unwanted (?ps ! (?r - 1))" using assms e by (auto simp: cursors_ok_def)
      then show False using assms by (auto simp: cursors_ok_def)
    qed
    with e show ?thesis by simp
  qed
  ultimately show ?thesis
    unfolding check_cursors_def Let_def r [symmetric] c [symmetric] by blast
qed

lemma verify_priority_ok:
  assumes "buckets_ok k" "q < length (pk_bounds k)"
  shows "verify_priority (range_start (pk_bounds k) q) (pk_bounds k ! q) q k"
proof -
  let ?b = "pk_bounds k"
  have so: "sorted ?b" "?b \<noteq> []" "last ?b = length (pk_pieces k)" using assms(1) by (simp_all add: buckets_ok_def bounds_ok_def)
  have "?b ! q \<le> ?b ! (length ?b - 1)" using sorted_nth_mono [OF so(1), of q "length ?b - 1"] assms(2) by simp
  then have le: "?b ! q \<le> length (pk_pieces k)" using so(2,3) by (simp add: last_conv_nth)
  have "case pk_pieces k ! i of None \<Rightarrow> False | Some x \<Rightarrow> x < length (pk_map k) \<and> prio_of k x = Some q"
    if i: "range_start ?b q \<le> i" "i < ?b ! q" for i
  proof -
    have "i < length (pk_pieces k)" using i le by simp
    from buckets_slot [OF assms(1) this] obtain x r where x: "pk_pieces k ! i = Some x" "x < length (pk_map k)"
      "prio_of k x = Some r" "in_bucket ?b r i" by blast
    have "in_bucket ?b q i" using i assms(2) by (simp add: in_bucket_def)
    with bucket_unique [OF so(1) x(4)] have "r = q" by blast
    with x show ?thesis by simp
  qed
  moreover have "list_all P (take (e - f) (drop f xs))"
    if "\<And>i. f \<le> i \<Longrightarrow> i < e \<Longrightarrow> P (xs ! i)" "e \<le> length xs" for P f e and xs :: "nat option list"
    using that by (simp add: list_all_length nth_drop)
  ultimately show ?thesis
    unfolding verify_priority_def using range_start_le [OF so(1) assms(2)] le by blast
qed

lemma verify_buckets_ok:
  assumes "buckets_ok k" "q \<le> length (pk_bounds k)"
  shows "verify_buckets q (range_start (pk_bounds k) q) (drop q (pk_bounds k)) k"
  using assms(2)
proof (induction "length (pk_bounds k) - q" arbitrary: q)
  case (Suc n)
  then have q: "q < length (pk_bounds k)" by simp
  have "verify_buckets (Suc q) (range_start (pk_bounds k) (Suc q)) (drop (Suc q) (pk_bounds k)) k"
    using Suc by simp
  moreover have "drop q (pk_bounds k) = pk_bounds k ! q # drop (Suc q) (pk_bounds k)"
    using q by (rule Cons_nth_drop_Suc [symmetric])
  moreover have "range_start (pk_bounds k) (Suc q) = pk_bounds k ! q" by (simp add: range_start_def)
  ultimately show ?case using verify_priority_ok [OF assms(1) q] by simp
qed simp

lemma priority_mod:
  assumes "priority s p = Some q" "piece_prio p < 8"
  shows "downloading p \<longleftrightarrow> q mod 4 = 0"
proof -
  have "piece_prio p \<in> {0,1,2,3,4,5,6,7}" using assms(2) by auto
  then show ?thesis using assms(1) by (auto simp: priority_def filtered_def Let_def split: if_splits; presburger)
qed

lemma count_distinct: "distinct xs \<Longrightarrow> count_list xs x = (if x \<in> set xs then 1 else 0)"
  by (induction xs) auto

lemma check_piece_ok:
  assumes k: "pk_inv k" and x: "x < length (pk_map k)"
  shows "check_piece k x"
proof -
  note kd = pk_invD [OF k]
  let ?p = "pk_map k ! x"
  have di: "distinct (map dp_index (pk_downloads k))" using downloadsD(3) [OF kd(2)] strict_sorted_iff by blast
  have num: "length (filter (\<lambda>d. dp_index d = x) (pk_downloads k)) = (if downloading ?p then 1 else 0)"
  proof -
    have "length (filter (\<lambda>d. dp_index d = x) (pk_downloads k)) = count_list (map dp_index (pk_downloads k)) x"
      by (simp add: count_list_eq_length_filter filter_map comp_def eq_commute [of x])
    also have "\<dots> = (if x \<in> set (map dp_index (pk_downloads k)) then 1 else 0)"
      by (rule count_distinct [OF di])
    finally show ?thesis using downloadsD(5) [OF kd(2) x] by simp
  qed
  have h: "\<not> (pp_have ?p \<and> downloading ?p)"
    using existing_entry [OF k x] view_entry(2) [OF kd(2)] by metis
  have b: "case prio_of k x of
      Some q \<Rightarrow> q < length (pk_bounds k) \<and> pos_index ?p < length (pk_pieces k) \<and> pk_pieces k ! pos_index ?p = Some x
    | None \<Rightarrow> \<not> list_ex (\<lambda>y. y = Some x) (pk_pieces k)" if "\<not> pk_dirty k"
  proof -
    note b = picker_ok_simps(1) [OF kd(1) that]
    show ?thesis
    proof (cases "prio_of k x")
      case None
      have "pk_pieces k ! i \<noteq> Some x" if i: "i < length (pk_pieces k)" for i
        using buckets_slot [OF b i] None by fastforce
      then have "\<not> list_ex (\<lambda>y. y = Some x) (pk_pieces k)" by (auto simp: list_ex_length)
      with None show ?thesis by simp
    next
      case (Some q)
      from buckets_position [OF b x Some] Some show ?thesis by (simp add: in_bucket_def)
    qed
  qed
  have m: "case prio_of k x of None \<Rightarrow> True | Some q \<Rightarrow> downloading ?p = (q mod 4 = 0)"
    using priority_mod [OF _ kd(4) [OF x]] by (auto split: option.split)
  show ?thesis unfolding check_piece_def Let_def using h b m num by blast
qed

theorem check_invariant_ok:
  assumes "pk_inv k"
  shows "check_invariant k"
proof -
  note kd = pk_invD [OF assms]
  note ks = picker_ok_simps [OF kd(1)]
  have pieces: "list_all (\<lambda>p. case p of None \<Rightarrow> False | Some x \<Rightarrow> x < length (pk_map k) \<and> prio_of k x \<noteq> None) (pk_pieces k)"
    if d: "\<not> pk_dirty k"
    unfolding list_all_length
  proof (intro allI impI)
    fix i assume "i < length (pk_pieces k)"
    from buckets_slot [OF ks(1) [OF d] this] obtain x q where
      "pk_pieces k ! i = Some x" "x < length (pk_map k)" "prio_of k x = Some q" by blast
    then show "case pk_pieces k ! i of None \<Rightarrow> False | Some x \<Rightarrow> x < length (pk_map k) \<and> prio_of k x \<noteq> None" by simp
  qed
  have buckets: "pk_bounds k \<noteq> [] \<and> verify_buckets 0 0 (pk_bounds k) k \<and> last (pk_bounds k) = length (pk_pieces k)"
    if d: "\<not> pk_dirty k"
  proof -
    have "verify_buckets 0 (range_start (pk_bounds k) 0) (drop 0 (pk_bounds k)) k"
      by (rule verify_buckets_ok [OF ks(1) [OF d]]) simp
    moreover have "pk_bounds k \<noteq> []" "last (pk_bounds k) = length (pk_pieces k)"
      using ks(1) [OF d] by (auto simp: buckets_ok_def bounds_ok_def)
    ultimately show ?thesis by (simp only: range_start_def drop_0 if_True refl) simp
  qed
  show ?thesis
    unfolding check_invariant_def
  proof (intro conjI)
    show "ascending (map dp_index (pk_downloads k))" using downloadsD(3) [OF kd(2)] by (simp add: ascending_iff)
    show "list_all (check_entry k) (pk_downloads k)" using check_entry_ok [OF kd(2)] by (simp add: list_all_iff)
    show "check_cursors k" by (rule check_cursors_ok [OF ks(3)])
    show "list_all (check_piece k) [0..<length (pk_map k)]" using check_piece_ok [OF assms] by (simp add: list_all_iff)
    show "check_counters k" using ks(4) by (simp add: check_counters_def counters_ok_def tally_def)
  qed (use buckets pieces in blast)+
qed

subsection \<open>The operations on pieces keep the whole invariant\<close>

lemma inc_refcount_inv: "pk_inv k \<Longrightarrow> x < length (pk_map k) \<Longrightarrow>
    \<exists>k'. inc_refcount random x k = Some k' \<and> pk_inv k' \<and> state_at k' = state_at k"
  using inc_refcount_ok [OF pk_invD(1)] step_keeps by blast

lemma dec_refcount_inv: "pk_inv k \<Longrightarrow> x < length (pk_map k) \<Longrightarrow> 0 < peer_count (pk_map k ! x) \<or> 0 < pk_seeds k \<Longrightarrow>
    \<exists>k'. dec_refcount random x k = Some k' \<and> pk_inv k' \<and> state_at k' = state_at k"
  using dec_refcount_ok [OF pk_invD(1)] step_keeps by blast

lemma inc_refcount_bits_inv: "pk_inv k \<Longrightarrow> length bs = length (pk_map k) \<Longrightarrow>
    \<exists>k'. inc_refcount_bits bs k = Some k' \<and> pk_inv k' \<and> state_at k' = state_at k"
  using inc_refcount_bits_ok [OF pk_invD(1)] step_keeps by blast

lemma set_piece_priority_inv: "pk_inv k \<Longrightarrow> x < length (pk_map k) \<Longrightarrow> n \<le> 7 \<Longrightarrow>
    \<exists>ret k'. set_piece_priority random x n k = Some (ret, k') \<and> pk_inv k' \<and> state_at k' = state_at k"
  using set_piece_priority_ok [OF pk_invD(1)] step_keeps by metis

lemma we_dont_have_inv: "pk_inv k \<Longrightarrow> x < length (pk_map k) \<Longrightarrow>
    \<exists>k'. we_dont_have random x k = Some k' \<and> pk_inv k' \<and> state_at k' = state_at k"
  using we_dont_have_ok [OF pk_invD(1)] step_keeps by blast

lemma refcount_all_inv: "pk_inv k \<Longrightarrow> pk_inv (inc_refcount_all k)" "pk_inv k \<Longrightarrow> pk_inv (dec_refcount_all k)"
proof -
  have "keeps k (inc_refcount_all k)" "keeps k (dec_refcount_all k)"
    by (auto simp: keeps_def inc_refcount_all_def dec_refcount_all_def list_all2_conv_all_nth)
  then show "pk_inv k \<Longrightarrow> pk_inv (inc_refcount_all k)" "pk_inv k \<Longrightarrow> pk_inv (dec_refcount_all k)"
    using step_keeps inc_refcount_all_ok dec_refcount_all_ok pk_invD(1) by blast+
qed

text \<open>\<^verbatim>\<open>clear_peer\<close> forgets a peer in all the blocks and changes nothing else.\<close>

lemma clear_peer_inv:
  assumes "pk_inv k"
  shows "pk_inv (clear_peer peer k)" "state_at (clear_peer peer k) = state_at k"
proof -
  let ?f = "\<lambda>b. if bi_peer b = Some peer then b\<lparr>bi_peer := None\<rparr> else b" and ?k = "clear_peer peer k"
  note kd = pk_invD [OF assms]
  have fs [simp]: "bi_state (?f b) = bi_state b" "bi_num_peers (?f b) = bi_num_peers b" for b by simp_all
  have v: "view ?k = map (\<lambda>e. (fst e, map ?f (snd e))) (view k)"
    by (simp add: view_def clear_peer_def blocks_of_def take_map drop_map)
  have i: "in_state s (map ?f bs) = in_state s bs" for s bs
    by (induction bs) (simp_all add: in_state_def tally_def)
  have fr: "pk_map ?k = pk_map k" "pk_downloads ?k = pk_downloads k" "pk_blocks_per_piece ?k = pk_blocks_per_piece k"
    "pk_blocks_in_last_piece ?k = pk_blocks_in_last_piece k" by (simp_all add: clear_peer_def)
  have bp: "blocks_in_piece y ?k = blocks_in_piece y k" for y by (simp add: blocks_in_piece_def fr)
  have e: "entry_ok n fl (d, map ?f bs)" if "entry_ok n fl (d, bs)" for n fl d bs
    using that unfolding entry_ok_def Let_def fst_conv snd_conv take_map drop_map i by auto
  have "entries_ok ?k"
    unfolding entries_ok_def Let_def v
  proof
    fix e' assume "e' \<in> set (map (\<lambda>e. (fst e, map ?f (snd e))) (view k))"
    then obtain d bs where d: "(d, bs) \<in> set (view k)" "e' = (d, map ?f bs)" by auto
    with downloadsD(4) [OF kd(2)] have "dp_index d < length (pk_map k)" "\<not> pp_have (pk_map k ! dp_index d)"
      "entry_ok (blocks_in_piece (dp_index d) k) (full (pk_map k ! dp_index d)) (d, bs)"
      by (auto simp: entries_ok_def Let_def)
    with e d(2) show "dp_index (fst e') < length (pk_map ?k) \<and> \<not> pp_have (pk_map ?k ! dp_index (fst e')) \<and>
        entry_ok (blocks_in_piece (dp_index (fst e')) ?k) (full (pk_map ?k ! dp_index (fst e'))) e'"
      by (simp add: fr bp)
  qed
  moreover have "storage_ok ?k" using downloadsD(1) [OF kd(2)] by (simp add: storage_ok_def clear_peer_def)
  ultimately have "downloads_ok ?k" using kd(2) by (simp add: downloads_ok_def fr)
  moreover have "picker_ok ?k"
    using kd(1) by (simp add: clear_peer_def picker_ok_def named_def buckets_ok_def filed_def bounds_ok_def counters_ok_def)
  ultimately show "pk_inv ?k" using kd(3) by (simp add: pk_inv_def fr)
  have m: "map_of (map (\<lambda>e. (dp_index (fst e), g (snd e))) xs) x =
      map_option g (map_of (map (\<lambda>e. (dp_index (fst e), snd e)) xs) x)"
    for g :: "block_info list \<Rightarrow> block_info list" and xs :: "(downloading_piece \<times> block_info list) list" and x
    by (induction xs) auto
  have "block_map ?k x = map_option (map ?f) (block_map k x)" for x
    using m [of "map ?f" "view k" x] by (simp add: block_map_def v comp_def)
  moreover have "?f no_block = no_block" by (simp add: no_block_def)
  ultimately have "blocks_at ?k x = map ?f (blocks_at k x)" for x
    by (simp add: blocks_at_def fr split: option.split)
  then show "state_at ?k = state_at k" by (simp add: state_at_def fun_eq_iff)
qed

subsection \<open>Reachable states\<close>

text \<open>
  One call of an operation, as its own assertions allow it. The piece exists and the block is one of the piece;
  a peer is told to go only when one is there; the states of the blocks are those that
  \<^verbatim>\<open>peer_connection\<close> and the disk thread go through. A pick gets the bits of all pieces. The counters of a download have 16 bits and a sign, which
  is enough for pieces of less than \<open>2 ^ 15\<close> blocks (\<open>counters_in_range\<close>); they are integers here.
\<close>

definition pick_allowed :: "pick_call \<Rightarrow> nat \<Rightarrow> nat list \<Rightarrow> picker \<Rightarrow> bool" where
  "pick_allowed c num suggested k \<longleftrightarrow>
     pk_map k \<noteq> [] \<and> 0 < num \<and> length (pc_pieces c) = length (pk_map k) \<and>
     list_all (\<lambda>x. x < length (pk_map k)) suggested"

inductive pk_step :: "picker \<Rightarrow> picker \<Rightarrow> bool" where
  seed_in: "pk_step k (inc_refcount_all k)"
| seed_out: "pk_step k (dec_refcount_all k)"
| peer_in: "x < length (pk_map k) \<Longrightarrow> inc_refcount r x k = Some k' \<Longrightarrow> pk_step k k'"
| peer_bits: "length bs = length (pk_map k) \<Longrightarrow> inc_refcount_bits bs k = Some k' \<Longrightarrow> pk_step k k'"
| peer_out: "x < length (pk_map k) \<Longrightarrow> 0 < peer_count (pk_map k ! x) \<or> 0 < pk_seeds k \<Longrightarrow>
    dec_refcount r x k = Some k' \<Longrightarrow> pk_step k k'"
| prio: "x < length (pk_map k) \<Longrightarrow> n \<le> 7 \<Longrightarrow> set_piece_priority r x n k = Some (b, k') \<Longrightarrow> pk_step k k'"
| got: "x < length (pk_map k) \<Longrightarrow> we_have x k = Some k' \<Longrightarrow> pk_step k k'"
| lost: "x < length (pk_map k) \<Longrightarrow> we_dont_have r x k = Some k' \<Longrightarrow> pk_step k k'"
| restored: "x < length (pk_map k) \<Longrightarrow> downloading (pk_map k ! x) \<Longrightarrow> restore_piece r x k = Some k' \<Longrightarrow> pk_step k k'"
| requested: "x < length (pk_map k) \<Longrightarrow> \<not> pp_have (pk_map k ! x) \<Longrightarrow> j < blocks_in_piece x k \<Longrightarrow> st \<noteq> NoSpeed \<Longrightarrow>
    peers_at k x j < 16383 \<Longrightarrow> mark_as_downloading r x j peer st k = Some (b, k') \<Longrightarrow> pk_step k k'"
| written: "x < length (pk_map k) \<Longrightarrow> j < blocks_in_piece x k \<Longrightarrow>
    mark_as_writing r x j peer k = Some (b, k') \<Longrightarrow> pk_step k k'"
| finished: "x < length (pk_map k) \<Longrightarrow> j < blocks_in_piece x k \<Longrightarrow> state_at k x j \<noteq> StateRequested \<Longrightarrow>
    downloading (pk_map k ! x) \<or> \<not> full (pk_map k ! x) \<Longrightarrow> mark_as_finished r x j peer k = Some k' \<Longrightarrow> pk_step k k'"
| failed: "x < length (pk_map k) \<Longrightarrow> j < blocks_in_piece x k \<Longrightarrow> state_at k x j \<noteq> StateRequested \<Longrightarrow>
    write_failed r x j k = Some k' \<Longrightarrow> pk_step k k'"
| aborted: "x < length (pk_map k) \<Longrightarrow> j < blocks_in_piece x k \<Longrightarrow> abort_download r x j peer k = Some k' \<Longrightarrow> pk_step k k'"
| cleared: "pk_step k (clear_peer p k)"
| sorted: "update_pieces rnd k = Some k' \<Longrightarrow> pk_step k k'"
| picked: "pick_allowed c num suggested k \<Longrightarrow>
    pick_pieces c pad peers suggested num rnd r r2 k = Some (picks, k') \<Longrightarrow> pk_step k k'"

inductive pk_reach :: "picker \<Rightarrow> bool" where
  init: "0 < blocks \<Longrightarrow> blocks < 32768 \<Longrightarrow> 0 < blocks_in_last \<Longrightarrow> blocks_in_last \<le> blocks \<Longrightarrow> n < we_have_index \<Longrightarrow>
    pk_reach (pk_init blocks blocks_in_last n picker_ctor)"
| step: "pk_reach k \<Longrightarrow> pk_step k k' \<Longrightarrow> pk_reach k'"

lemma pick_allowed_ok:
  assumes "pk_inv k" "pick_allowed c num suggested k"
  shows "\<exists>picks k'. pick_pieces c pad peers suggested num rnd random random2 k = Some (picks, k') \<and>
    pk_inv k' \<and> state_at k' = state_at k \<and> frame k k' \<and> pickable c k' = pickable c k \<and> picked_ok c num k picks"
  by (rule pick_pieces_ok [OF assms(1)]) (use assms(2) in \<open>auto simp: pick_allowed_def list_all_iff\<close>)

lemma pk_step_inv: "pk_step k k' \<Longrightarrow> pk_inv k \<Longrightarrow> pk_inv k'"
proof (induction rule: pk_step.induct)
  case (seed_in k)
  then show ?case by (rule refcount_all_inv)
next
  case (seed_out k)
  then show ?case by (rule refcount_all_inv)
next
  case (peer_in x k r k')
  then show ?case using inc_refcount_inv [of k x r] by auto
next
  case (peer_bits bs k k')
  then show ?case using inc_refcount_bits_inv [of k bs] by auto
next
  case (peer_out x k r k')
  then show ?case using dec_refcount_inv [of k x r] by fastforce
next
  case (prio x k n r b k')
  then show ?case using set_piece_priority_inv [of k x n r] by auto
next
  case (got x k k')
  then show ?case using we_have_ok [of k x] by auto
next
  case (lost x k r k')
  then show ?case using we_dont_have_inv [of k x r] by auto
next
  case (restored x k r k')
  then show ?case using restore_piece_ok [of k x r] by auto
next
  case (requested x k j st r peer b k')
  then show ?case using mark_as_downloading_ok [of k x j st r peer] by auto
next
  case (written x k j r peer b k')
  then show ?case using mark_as_writing_ok [of k x j r peer] by auto
next
  case (finished x k j r peer k')
  then show ?case using mark_as_finished_ok [of k x j r peer] by fastforce
next
  case (failed x k j r k')
  then show ?case using write_failed_ok [of k x j r] by auto
next
  case (aborted x k j r peer k')
  then show ?case using abort_download_ok [of k x j r peer] by auto
next
  case (cleared k p)
  then show ?case by (rule clear_peer_inv)
next
  case (sorted rnd k k')
  then show ?case using update_pieces_inv [of k rnd] by auto
next
  case (picked c num suggested k pad peers rnd r r2 picks k')
  then show ?case using pick_allowed_ok [of k c num suggested pad peers rnd r r2] by auto
qed

lemma pk_init_inv:
  assumes "0 < blocks" "blocks < 32768" "0 < blocks_in_last" "blocks_in_last \<le> blocks" "n < we_have_index"
  shows "pk_inv (pk_init blocks blocks_in_last n picker_ctor)"
proof -
  let ?k = "pk_init blocks blocks_in_last n picker_ctor"
  have c: "counters_ok picker_ctor" using picker_ok_simps(4) [OF picker_ctor_ok] .
  have "picker_ok ?k" by (rule pk_init_ok [OF assms(5) _ c]) (simp_all add: picker_ctor_def named_def)
  moreover have "downloads_ok ?k"
    using assms by (auto simp: pk_init_def Let_def picker_ctor_def downloads_ok_def storage_ok_def entries_ok_def view_def)
  moreover have "list_all (\<lambda>p. piece_prio p < 8) (pk_map ?k)"
    by (simp add: pk_init_def Let_def picker_ctor_def list_all_iff fresh_piece_def)
  ultimately show ?thesis by (simp add: pk_inv_def)
qed

lemma pk_reach_inv: "pk_reach k \<Longrightarrow> pk_inv k"
proof (induction rule: pk_reach.induct)
  case (init blocks blocks_in_last n)
  then show ?case by (rule pk_init_inv)
next
  case (step k k')
  then show ?case using pk_step_inv by blast
qed

end
