(* ===== verification/PickerClient.thy ===== *)
theory PickerClient
  imports PickerCheck
begin

section \<open>What the torrent relies on in its piece picker\<close>

text \<open>
  \<open>block_store\<close> is the interface that \<^verbatim>\<open>peer_connection\<close> and the disk use: a block is requested, written and
  finished, and each call changes that block only. The picker is an instance; a schedule that takes every block of a
  piece through these steps, mixed in any way, ends with the piece finished. The queries read the map of blocks.
\<close>

subsection \<open>Queries\<close>

theorem block_queries:
  assumes k: "pk_inv k" and x: "x < length (pk_map k)" and j: "j < blocks_in_piece x k"
  shows "is_requested x j k = Some (state_at k x j = StateRequested) \<and>
    is_downloaded x j k = Some (pp_have (pk_map k ! x) \<or> state_at k x j = StateFinished \<or> state_at k x j = StateWriting) \<and>
    is_finished x j k = Some (pp_have (pk_map k ! x) \<or> state_at k x j = StateFinished) \<and>
    num_peers x j k = Some (peers_at k x j)"
proof (cases "downloading (pk_map k ! x)")
  case True
  obtain i where i: "find_dl_piece x k = Some i" "i < length (pk_downloads k)" "dp_index (pk_downloads k ! i) = x"
    by (rule existing_entry [OF k x True])
  have h: "\<not> pp_have (pk_map k ! x)" using view_entry(2) [OF pk_invD(2) [OF k] i(2)] i(3) by simp
  show ?thesis
    using entry_facts(1-3) [OF k i(2,3) j] i(1) True x h
    by (auto simp: is_requested_def is_downloaded_def is_finished_def block_query_def num_peers_def)
next
  case False
  have "blocks_at k x = replicate (pk_blocks_per_piece k) no_block" by (rule blocks_at_none [OF pk_invD(2) [OF k] x False])
  then have "state_at k x j = StateNone" "peers_at k x j = 0" by (simp_all add: state_at_def peers_at_def)
  with False x show ?thesis
    by (simp add: is_requested_def is_downloaded_def is_finished_def block_query_def num_peers_def)
qed

lemma in_state_0: "in_state s bs = 0 \<longleftrightarrow> (\<forall>b \<in> set bs. bi_state b \<noteq> s)"
  by (auto simp: in_state_def tally_def filter_empty_conv)

theorem piece_finished_iff:
  assumes k: "pk_inv k" and x: "x < length (pk_map k)"
  shows "is_piece_finished x k =
    Some (list_all (\<lambda>j. state_at k x j = StateFinished \<or> state_at k x j = StateWriting) [0..<blocks_in_piece x k])"
proof (cases "downloading (pk_map k ! x)")
  case False
  have "state_at k x 0 = StateNone"
    using blocks_at_none [OF pk_invD(2) [OF k] x False] by (simp add: state_at_def)
  moreover have "0 < blocks_in_piece x k" by (rule blocks_in_piece_bounds(1) [OF pk_invD(2) [OF k]])
  ultimately have "\<not> list_all (\<lambda>j. state_at k x j = StateFinished \<or> state_at k x j = StateWriting) [0..<blocks_in_piece x k]"
    by (auto simp: list_all_iff intro!: bexI [of _ 0])
  with False x show ?thesis by (simp add: is_piece_finished_def)
next
  case True
  obtain i where i: "find_dl_piece x k = Some i" "i < length (pk_downloads k)" "dp_index (pk_downloads k ! i) = x"
    by (rule existing_entry [OF k x True])
  note kd = pk_invD [OF k]
  let ?n = "blocks_in_piece x k" and ?d = "pk_downloads k ! i"
  let ?bs = "take ?n (blocks_at k x)"
  have bs: "blocks_at k x = snd (view k ! i)" by (rule blocks_at_nth [OF kd(2) i(2,3)])
  have l: "length ?bs = ?n" using blocks_at_length [OF kd(2)] blocks_in_piece_bounds(2) [OF kd(2)] by simp
  have "entry_ok ?n (full (pk_map k ! x)) (?d\<lparr>dp_info := 0\<rparr>, blocks_at k x)"
    using view_entry(3) [OF kd(2) i(2)] i(2,3) bs by (simp add: view_nth)
  then have c: "dp_writing ?d = in_state StateWriting ?bs" "dp_finished ?d = in_state StateFinished ?bs"
    by (simp_all add: entry_ok_def Let_def)
  have "\<not> dp_finished ?d + dp_writing ?d < int ?n \<longleftrightarrow> in_state StateNone ?bs = 0 \<and> in_state StateRequested ?bs = 0"
    using states_total [of ?bs] l c in_state_nonneg [of StateNone ?bs] in_state_nonneg [of StateRequested ?bs] by auto
  also have "\<dots> \<longleftrightarrow> (\<forall>b \<in> set ?bs. bi_state b = StateFinished \<or> bi_state b = StateWriting)"
    unfolding in_state_0 by (metis block_state.exhaust block_state.distinct)
  also have "\<dots> \<longleftrightarrow> (\<forall>j < ?n. bi_state (?bs ! j) = StateFinished \<or> bi_state (?bs ! j) = StateWriting)"
    using l by (metis in_set_conv_nth)
  also have "\<dots> \<longleftrightarrow> (\<forall>j < ?n. state_at k x j = StateFinished \<or> state_at k x j = StateWriting)"
    using entry_facts(2) [OF k i(2,3)] by simp
  finally show ?thesis using i x True by (simp add: is_piece_finished_def list_all_iff Ball_def)
qed

lemma piece_info_ok:
  assumes k: "pk_inv k" and x: "x < length (pk_map k)"
  shows "\<exists>d. piece_info x st k = Some d \<and> dp_index d = x \<and> dp_finished d =
    (if pp_have (pk_map k ! x) then int (blocks_in_piece x k)
     else in_state StateFinished (take (blocks_in_piece x k) (blocks_at k x)))"
proof (cases "downloading (pk_map k ! x)")
  case True
  obtain i where i: "find_dl_piece x k = Some i" "i < length (pk_downloads k)" "dp_index (pk_downloads k ! i) = x"
    by (rule existing_entry [OF k x True])
  note kd = pk_invD [OF k]
  have bs: "blocks_at k x = snd (view k ! i)" by (rule blocks_at_nth [OF kd(2) i(2,3)])
  have "entry_ok (blocks_in_piece x k) (full (pk_map k ! x)) ((pk_downloads k ! i)\<lparr>dp_info := 0\<rparr>, blocks_at k x)"
    using view_entry(3) [OF kd(2) i(2)] i(2,3) bs by (simp add: view_nth)
  moreover have "\<not> pp_have (pk_map k ! x)" using view_entry(2) [OF kd(2) i(2)] i(3) by simp
  ultimately show ?thesis using i x True by (simp add: piece_info_def entry_ok_def Let_def)
next
  case False
  have "in_state StateFinished (take n (blocks_at k x)) = 0" for n
    unfolding in_state_0 blocks_at_none [OF pk_invD(2) [OF k] x False] by (auto dest!: in_set_takeD)
  with False x show ?thesis by (simp add: piece_info_def)
qed

subsection \<open>The interface\<close>

text \<open>
  What a peer or the disk does with a block, and the states a block goes through. A schedule is a list of such steps on
  the blocks of a piece, by any peers, those of different blocks in any order.
\<close>

datatype block_step = Request | Store | Finish

fun step_state :: "block_step \<Rightarrow> block_state \<Rightarrow> block_state option" where
  "step_state Request s = (if s = StateNone then Some StateRequested else None)"
| "step_state Store s = (if s = StateNone \<or> s = StateRequested then Some StateWriting else None)"
| "step_state Finish s = (if s = StateWriting then Some StateFinished else None)"

fun steps_state :: "block_step list \<Rightarrow> block_state \<Rightarrow> block_state option" where
  "steps_state [] s = Some s"
| "steps_state (t # ts) s = do { s1 \<leftarrow> step_state t s; steps_state ts s1 }"

text \<open>A step is the block, what is done with it, and what the call takes beside: a peer and a random number.\<close>

type_synonym 'a schedule = "(nat \<times> block_step \<times> 'a) list"

definition steps_of :: "nat \<Rightarrow> 'a schedule \<Rightarrow> block_step list" where
  "steps_of j ss = map (\<lambda>(_, t, _). t) (filter (\<lambda>(i, _, _). i = j) ss)"

lemma steps_of_simps [simp]: "steps_of j [] = []" "steps_of j ((i, t, a) # ss) = (if i = j then t # steps_of j ss else steps_of j ss)"
  by (simp_all add: steps_of_def)

fun run_schedule :: "(block_step \<Rightarrow> 'a \<Rightarrow> nat \<Rightarrow> 'k \<Rightarrow> 'k option) \<Rightarrow> 'a schedule \<Rightarrow> 'k \<Rightarrow> 'k option" where
  "run_schedule f [] k = Some k"
| "run_schedule f ((j, t, a) # ss) k = do { k1 \<leftarrow> f t a j k; run_schedule f ss k1 }"

fun each_block :: "(nat \<Rightarrow> 'k \<Rightarrow> 'k option) \<Rightarrow> nat list \<Rightarrow> 'k \<Rightarrow> 'k option" where
  "each_block f [] k = Some k"
| "each_block f (j # js) k = do { k1 \<leftarrow> f j k; each_block f js k1 }"

locale block_store =
  fixes inv :: "'k \<Rightarrow> bool" and state :: "'k \<Rightarrow> nat \<Rightarrow> nat \<Rightarrow> block_state" and wanted :: "'k \<Rightarrow> nat \<Rightarrow> nat \<Rightarrow> bool"
    and act :: "nat \<Rightarrow> block_step \<Rightarrow> 'a \<Rightarrow> nat \<Rightarrow> 'k \<Rightarrow> 'k option"
  assumes act: "inv k \<Longrightarrow> wanted k x j \<Longrightarrow> step_state t (state k x j) = Some s' \<Longrightarrow>
      \<exists>k'. act x t a j k = Some k' \<and> inv k' \<and> wanted k' = wanted k \<and> state k' = (state k)(x := (state k x)(j := s'))"
begin

text \<open>Every block ends in the state its own steps lead to.\<close>

lemma schedule_states:
  assumes "inv k" "\<And>j. wanted k x j \<Longrightarrow> \<exists>s. steps_state (steps_of j ss) (state k x j) = Some s"
    "\<And>j t a. (j, t, a) \<in> set ss \<Longrightarrow> wanted k x j"
  shows "\<exists>k'. run_schedule (act x) ss k = Some k' \<and> inv k' \<and> wanted k' = wanted k \<and>
    (\<forall>j. wanted k x j \<longrightarrow> steps_state (steps_of j ss) (state k x j) = Some (state k' x j))"
  using assms
proof (induction ss arbitrary: k)
  case Nil
  then show ?case by simp
next
  case (Cons e ss)
  obtain j t a where e: "e = (j, t, a)" by (cases e)
  have w: "wanted k x j" using Cons.prems(3) [of j t a] e by simp
  obtain s' where s': "step_state t (state k x j) = Some s'" using Cons.prems(2) [OF w] e by (auto split: bind_splits)
  from act [OF Cons.prems(1) w s'] obtain k1 where k1: "act x t a j k = Some k1" "inv k1" "wanted k1 = wanted k"
    "state k1 = (state k)(x := (state k x)(j := s'))" by blast
  have st: "steps_state (steps_of i (e # ss)) (state k x i) = steps_state (steps_of i ss) (state k1 x i)" for i
    using s' k1(4) e by auto
  have "\<exists>k'. run_schedule (act x) ss k1 = Some k' \<and> inv k' \<and> wanted k' = wanted k1 \<and>
      (\<forall>j. wanted k1 x j \<longrightarrow> steps_state (steps_of j ss) (state k1 x j) = Some (state k' x j))"
    by (rule Cons.IH [OF k1(2)]) (use Cons.prems(2,3) k1(3) st in auto)
  with k1(1,3) st e show ?case by simp
qed

end

subsection \<open>The picker is a block store\<close>

definition block_wanted :: "picker \<Rightarrow> nat \<Rightarrow> nat \<Rightarrow> bool" where
  "block_wanted k x j \<longleftrightarrow> x < length (pk_map k) \<and> \<not> pp_have (pk_map k ! x) \<and> j < blocks_in_piece x k"

lemma frame_wanted: "frame k k' \<Longrightarrow> block_wanted k' = block_wanted k"
  using frameD [of k k'] by (auto simp: block_wanted_def fun_eq_iff)

lemma no_peers:
  assumes "pk_inv k" "block_wanted k x j" "state_at k x j \<noteq> StateRequested"
  shows "peers_at k x j = 0"
proof (cases "downloading (pk_map k ! x)")
  case True
  have x: "x < length (pk_map k)" "j < blocks_in_piece x k" using assms(2) by (simp_all add: block_wanted_def)
  obtain i where i: "find_dl_piece x k = Some i" "i < length (pk_downloads k)" "dp_index (pk_downloads k ! i) = x"
    by (rule existing_entry [OF assms(1) x(1) True])
  show ?thesis using entry_facts(2-4) [OF assms(1) i(2,3) x(2)] assms(3) by simp
next
  case False
  with blocks_at_none [OF pk_invD(2) [OF assms(1)]] assms(2) show ?thesis by (simp add: peers_at_def block_wanted_def)
qed

text \<open>The calls of the picker behind the steps.\<close>

fun block_call :: "nat \<Rightarrow> block_step \<Rightarrow> nat \<times> nat option \<Rightarrow> nat \<Rightarrow> picker \<Rightarrow> picker option" where
  "block_call x Request (random, peer) j k = map_option snd (mark_as_downloading random x j peer Fast k)"
| "block_call x Store (random, peer) j k = map_option snd (mark_as_writing random x j peer k)"
| "block_call x Finish (random, peer) j k = mark_as_finished random x j peer k"

lemma writing_downloads:
  assumes "pk_inv k" "x < length (pk_map k)" "state_at k x j \<noteq> StateNone"
  shows "downloading (pk_map k ! x)"
  using blocks_at_none [OF pk_invD(2) [OF assms(1)] assms(2)] assms(3)
  by (cases "downloading (pk_map k ! x)") (simp_all add: state_at_def split: if_splits)

interpretation bs: block_store pk_inv state_at block_wanted block_call
proof
  fix k x j t s' and a :: "nat \<times> nat option"
  assume k: "pk_inv k" and w: "block_wanted k x j" and s: "step_state t (state_at k x j) = Some s'"
  obtain random peer where a: "a = (random, peer)" by (cases a)
  have x: "x < length (pk_map k)" "\<not> pp_have (pk_map k ! x)" "j < blocks_in_piece x k"
    using w by (simp_all add: block_wanted_def)
  show "\<exists>k'. block_call x t a j k = Some k' \<and> pk_inv k' \<and> block_wanted k' = block_wanted k \<and>
      state_at k' = (state_at k)(x := (state_at k x)(j := s'))"
  proof (cases t)
    case Request
    with mark_as_downloading_ok [OF k x, of Fast random peer] no_peers [OF k w] s frame_wanted a show ?thesis
      by (fastforce split: if_splits)
  next
    case Store
    with mark_as_writing_ok [OF k x(1,3), of random peer] s x(2) frame_wanted a show ?thesis by (fastforce split: if_splits)
  next
    case Finish
    then have "state_at k x j = StateWriting" "s' = StateFinished" using s by (simp_all split: if_splits)
    with mark_as_finished_ok [OF k x(1,3), of random peer] writing_downloads [OF k x(1), of j] x(2) frame_wanted a Finish
    show ?thesis by fastforce
  qed
qed

theorem scheduled_piece_finished:
  assumes k: "pk_inv k" and x: "x < length (pk_map k)" "\<not> pp_have (pk_map k ! x)"
    and ss: "list_all (\<lambda>(j, _, _). j < blocks_in_piece x k) ss"
      "\<And>j. j < blocks_in_piece x k \<Longrightarrow> steps_state (steps_of j ss) (state_at k x j) = Some StateFinished"
  shows "\<exists>k'. run_schedule (block_call x) ss k = Some k' \<and> pk_inv k' \<and> x < length (pk_map k') \<and>
    is_piece_finished x k' = Some True"
proof -
  have w: "block_wanted k x j \<longleftrightarrow> j < blocks_in_piece x k" for j using x by (simp add: block_wanted_def)
  have "\<exists>k'. run_schedule (block_call x) ss k = Some k' \<and> pk_inv k' \<and> block_wanted k' = block_wanted k \<and>
      (\<forall>j. block_wanted k x j \<longrightarrow> steps_state (steps_of j ss) (state_at k x j) = Some (state_at k' x j))"
    by (rule bs.schedule_states [OF k]) (use ss w in \<open>auto simp: list_all_iff\<close>)
  then obtain k' where k': "run_schedule (block_call x) ss k = Some k'" "pk_inv k'" "block_wanted k' = block_wanted k"
    "\<And>j. j < blocks_in_piece x k \<Longrightarrow> state_at k' x j = StateFinished" using ss(2) w by fastforce
  have w': "block_wanted k' x j \<longleftrightarrow> j < blocks_in_piece x k" for j using k'(3) w by simp
  have "0 < blocks_in_piece x k" by (rule blocks_in_piece_bounds(1) [OF pk_invD(2) [OF k]])
  then have x': "x < length (pk_map k')" "j < blocks_in_piece x k' \<Longrightarrow> j < blocks_in_piece x k" for j
    using w' [of 0] w' [of j] by (simp_all add: block_wanted_def)
  then have "list_all (\<lambda>j. state_at k' x j = StateFinished \<or> state_at k' x j = StateWriting) [0..<blocks_in_piece x k']"
    using k'(4) by (simp add: list_all_iff)
  with piece_finished_iff [OF k'(2) x'(1)] k'(1,2) x'(1) show ?thesis by simp
qed

end
