(* ===== verification/PickerRegions.thy ===== *)
theory PickerRegions
  imports PickerClient
begin

section \<open>The regions of missing pieces, and states the picker can reach\<close>

text \<open>
  \<^verbatim>\<open>m_sparse_regions\<close> is documented as the number of regions of pieces we do not have. \<^verbatim>\<open>we_have\<close> keeps it so;
  \<^verbatim>\<open>we_dont_have\<close> does not. And two reachable states on which operations go wrong that look harmless.
\<close>

fun missing_runs :: "bool \<Rightarrow> bool list \<Rightarrow> int" where
  "missing_runs prev [] = 0"
| "missing_runs prev (h # hs) = (if prev \<and> \<not> h then 1 else 0) + missing_runs h hs"

definition regions :: "picker \<Rightarrow> int" where
  "regions k = missing_runs True (map pp_have (pk_map k))"

lemma missing_append: "missing_runs b (xs @ ys) = missing_runs b xs + missing_runs (last (b # xs)) ys"
  by (induction xs arbitrary: b) auto

lemma missing_start: "missing_runs True ys - missing_runs False ys = (if ys \<noteq> [] \<and> \<not> hd ys then 1 else 0)"
  by (cases ys) auto

lemma missing_update:
  assumes "x < length hs" "\<not> hs ! x"
  shows "missing_runs True (hs[x := True]) = missing_runs True hs +
    (if x + 1 < length hs \<and> \<not> hs ! (x + 1) then 1 else 0) - (if x = 0 \<or> hs ! (x - 1) then 1 else 0)"
proof -
  let ?a = "take x hs" and ?c = "drop (Suc x) hs"
  have old: "hs = ?a @ False # ?c" using id_take_nth_drop [OF assms(1)] assms(2) by simp
  have new: "hs[x := True] = ?a @ True # ?c" by (rule upd_conv_take_nth_drop [OF assms(1)])
  have q: "last (True # ?a) \<longleftrightarrow> x = 0 \<or> hs ! (x - 1)"
    using assms(1) by (cases x) (auto simp: take_Suc_conv_app_nth)
  have c: "?c \<noteq> [] \<and> \<not> hd ?c \<longleftrightarrow> x + 1 < length hs \<and> \<not> hs ! (x + 1)"
    by (auto simp: hd_drop_conv_nth)
  have "missing_runs True hs = missing_runs True ?a + (if last (True # ?a) then 1 else 0) + missing_runs False ?c"
    by (subst old) (simp add: missing_append)
  moreover have "missing_runs True (hs[x := True]) = missing_runs True ?a + missing_runs True ?c"
    unfolding new by (simp add: missing_append)
  ultimately show ?thesis using missing_start [of ?c] q c by simp
qed

lemma sparse_change_runs:
  assumes "x < length ps" "\<not> pp_have (ps ! x)"
  shows "missing_runs True ((map pp_have ps)[x := True]) = missing_runs True (map pp_have ps) + sparse_change x ps"
proof -
  have n: "\<not> x + 1 < length ps \<longleftrightarrow> x + 1 = length ps" using assms(1) by auto
  have p: "x - 1 < length ps" using assms(1) by simp
  have "missing_runs True ((map pp_have ps)[x := True]) = missing_runs True (map pp_have ps) +
      (if x + 1 < length ps \<and> \<not> map pp_have ps ! (x + 1) then 1 else 0) - (if x = 0 \<or> map pp_have ps ! (x - 1) then 1 else 0)"
    using missing_update [of x "map pp_have ps"] assms by simp
  then show ?thesis using n p by (auto simp: sparse_change_def Let_def)
qed

text \<open>C21: \<^verbatim>\<open>we_have\<close> keeps \<^verbatim>\<open>m_sparse_regions\<close> the number of regions of pieces we do not have.\<close>

theorem we_have_regions:
  assumes "pk_inv k" "x < length (pk_map k)" "pk_sparse_regions k = regions k"
  shows "\<exists>k'. we_have x k = Some k' \<and> pk_sparse_regions k' = regions k'"
proof -
  obtain k' where k': "we_have x k = Some k'" "map pp_have (pk_map k') = (map pp_have (pk_map k))[x := True]"
    "pk_sparse_regions k' = pk_sparse_regions k + (if pp_have (pk_map k ! x) then 0 else sparse_change x (pk_map k))"
    using we_have_ok [OF assms(1,2)] by blast
  have "(map pp_have (pk_map k))[x := True] = map pp_have (pk_map k)" if "pp_have (pk_map k ! x)"
    using list_update_id [of "map pp_have (pk_map k)" x] that assms(2) by simp
  then show ?thesis
    using k' assms(3) sparse_change_runs [OF assms(2)] by (auto simp: regions_def)
qed

subsection \<open>A small picker\<close>

definition demo :: picker where
  "demo = \<lparr>pk_seeds = 1, pk_pieces = [], pk_bounds = [0], pk_map = replicate 3 fresh_piece,
     pk_downloads = [], pk_block_info = [], pk_blocks_per_piece = 2, pk_blocks_in_last_piece = 2,
     pk_num_filtered = 0, pk_num_have_filtered = 0, pk_num_have = 0, pk_cursor = 0, pk_reverse_cursor = 3,
     pk_sparse_regions = 1, pk_dirty = True\<rparr>"

lemma demo_reach: "pk_reach demo"
proof -
  have u: "\<not> unwanted fresh_piece" by (simp add: unwanted_def pp_have_def filtered_def fresh_piece_def we_have_index_def)
  have f: "fresh_piece\<lparr>peer_count := 0, downloading := False, pos_index := 0\<rparr> = fresh_piece" by (simp add: fresh_piece_def)
  have e: "demo = inc_refcount_all (pk_init 2 2 3 picker_ctor)"
    using u by (simp add: demo_def inc_refcount_all_def pk_init_def picker_ctor_def Let_def f skip_up.simps numeral_3_eq_3)
  have "pk_reach (pk_init 2 2 3 picker_ctor)" by (rule pk_reach.init) (simp_all add: we_have_index_def)
  then show ?thesis unfolding e by (rule pk_reach.step) (rule pk_step.seed_in)
qed

lemmas picker_eval = mark_as_downloading_def start_download_def set_piece_def add_download_piece_def Let_def
  lower_bound_def insert_at_def erase_at_def memcpy_at_def block_at_def set_block_def set_dl_def update_full_def
  blocks_in_piece_def no_block_def numeral_3_eq_3 numeral_2_eq_2 fresh_piece_def priority_def pp_have_def
  we_have_index_def filtered_def find_dl_piece_def restore_piece_def erase_download_piece_def mark_as_finished_def
  mark_as_writing_def we_have_def we_dont_have_def sparse_change_def cursors_out_def cursors_in_def

lemma demo_simps:
  "length (pk_map demo) = 3" "\<not> pp_have (pk_map demo ! 0)" "\<not> pp_have (pk_map demo ! 1)" "blocks_in_piece 0 demo = 2"
  "\<not> downloading (pk_map demo ! 0)" "\<not> full (pk_map demo ! 0)" "blocks_at demo 0 = [no_block, no_block]"
  "pk_sparse_regions demo = regions demo"
  by (simp_all add: demo_def picker_eval blocks_at_def block_map_def view_def regions_def)

subsection \<open>A flag that is not reset\<close>

definition asked :: "nat \<Rightarrow> picker" where
  "asked n = demo\<lparr>pk_map := [fresh_piece\<lparr>downloading := True, full := (n = 2)\<rparr>, fresh_piece, fresh_piece],
     pk_downloads := [\<lparr>dp_info = 0, dp_index = 0, dp_finished = 0, dp_writing = 0, dp_requested = int n, dp_state = Fast\<rparr>],
     pk_block_info := [\<lparr>bi_peer = None, bi_num_peers = 1, bi_state = StateRequested\<rparr>,
       (if n = 2 then \<lparr>bi_peer = None, bi_num_peers = 1, bi_state = StateRequested\<rparr> else no_block)]\<rparr>"

definition stale :: picker where
  "stale = demo\<lparr>pk_map := [fresh_piece\<lparr>full := True\<rparr>, fresh_piece, fresh_piece],
     pk_block_info := replicate 2 \<lparr>bi_peer = None, bi_num_peers = 1, bi_state = StateRequested\<rparr>\<rparr>"

lemma asked_1: "mark_as_downloading 0 0 0 None Fast demo = Some (True, asked 1)"
  by (simp add: demo_def asked_def picker_eval)

lemma asked_2: "mark_as_downloading 0 0 1 None Fast (asked 1) = Some (True, asked 2)"
  by (simp add: demo_def asked_def picker_eval)

lemma stale_restored: "restore_piece 0 0 (asked 2) = Some stale"
  by (simp add: demo_def asked_def stale_def picker_eval)

lemma asked_simps:
  "length (pk_map (asked n)) = 3" "\<not> pp_have (pk_map (asked n) ! 0)" "blocks_in_piece 0 (asked n) = 2"
  "downloading (pk_map (asked n) ! 0)"
  by (simp_all add: demo_def asked_def picker_eval)

lemma asked_peers: "peers_at (asked 1) 0 1 = 0" "peers_at demo 0 0 = 0"
  by (simp_all add: demo_def asked_def picker_eval peers_at_def blocks_at_def block_map_def view_def blocks_of_def)

lemma stale_reach: "pk_reach stale"
proof -
  have "pk_reach (asked 1)"
    by (rule pk_reach.step [OF demo_reach pk_step.requested [OF _ _ _ _ _ asked_1]])
      (simp_all add: demo_simps asked_peers)
  then have "pk_reach (asked 2)"
    by (rule pk_reach.step [OF _ pk_step.requested [OF _ _ _ _ _ asked_2]])
      (simp_all add: asked_simps asked_peers [unfolded One_nat_def])
  then show ?thesis
    by (rule pk_reach.step [OF _ pk_step.restored [OF _ _ stale_restored]])
      (simp_all add: asked_simps)
qed

lemma stale_simps:
  "0 < length (pk_map stale)" "\<not> downloading (pk_map stale ! 0)" "\<not> pp_have (pk_map stale ! 0)" "full (pk_map stale ! 0)"
  "blocks_in_piece 0 stale = 2"
  by (simp_all add: stale_def demo_def picker_eval)

text \<open>
  C23: \<^verbatim>\<open>restore_piece\<close> leaves the \<open>full\<close> flag of a piece as it is. When a block of a piece with this flag and two
  blocks or more, which is not in progress any more, comes from the disk, \<^verbatim>\<open>mark_as_finished\<close> starts the piece again
  with the flag, and the debug check of the source fails: the piece counts as full with one block.
\<close>

theorem finished_with_stale_full:
  assumes k: "pk_reach k" and x: "x < length (pk_map k)" "\<not> downloading (pk_map k ! x)" "\<not> pp_have (pk_map k ! x)"
    and f: "full (pk_map k ! x)" and j: "2 \<le> blocks_in_piece x k" "j < blocks_in_piece x k"
  shows "\<exists>k'. mark_as_finished random x j peer k = Some k' \<and> \<not> check_invariant k'"
proof -
  note inv = pk_reach_inv [OF k]
  obtain i k1 where s: "start_download random x k = Some (i, k1)" "i < length (pk_downloads k1)" "dp_index (pk_downloads k1 ! i) = x"
    "dp_finished (pk_downloads k1 ! i) = 0" "dp_writing (pk_downloads k1 ! i) = 0" "dp_requested (pk_downloads k1 ! i) = 0"
    "full (pk_map k1 ! x) = full (pk_map k ! x)" "frame k k1"
    by (rule start_download_ok [OF inv x, of random])
  obtain b where b: "block_at i j k1 = Some b" "bi_state b \<noteq> StateFinished"
    by (rule new_block [OF inv x j(2), of random]) (use s(1) in auto)
  define d where "d = (pk_downloads k1 ! i)\<lparr>dp_state := NoSpeed, dp_finished := 1\<rparr>"
  let ?k' = "set_dl i d (set_block i j (b\<lparr>bi_peer := peer, bi_state := StateFinished\<rparr>) k1)"
  have m: "mark_as_finished random x j peer k = Some ?k'"
    using x s b by (simp add: mark_as_finished_def Let_def d_def)
  have "frame k ?k'" using s(8) by simp
  from frameD(2) [OF this, of x] j(1) have n: "2 \<le> blocks_in_piece x ?k'" by simp
  have "d \<in> set (pk_downloads ?k')" using s(2) by (simp add: set_update_memI)
  moreover have "\<not> check_entry ?k' d"
    using n f s(3,5-7) by (auto simp: check_entry_def Let_def d_def)
  ultimately have "\<not> check_invariant ?k'" by (auto simp: check_invariant_def list_all_iff)
  with m show ?thesis by blast
qed

lemma finished_with_stale_full_witness: "pk_reach stale \<and> (\<exists>k'. mark_as_finished 0 0 0 None stale = Some k' \<and> \<not> check_invariant k')"
  using finished_with_stale_full [OF stale_reach stale_simps(1-4)] stale_simps(5) stale_reach by simp

subsection \<open>A counter that is not restored\<close>

definition got :: picker where
  "got = demo\<lparr>pk_map := [fresh_piece, fresh_piece\<lparr>pos_index := we_have_index\<rparr>, fresh_piece],
     pk_num_have := 1, pk_sparse_regions := 2\<rparr>"

lemma got_step: "we_have 1 demo = Some got"
  by (simp add: demo_def got_def picker_eval)

lemma lost_step: "we_dont_have 0 1 got = Some (demo\<lparr>pk_sparse_regions := 2\<rparr>)"
  by (simp add: demo_def got_def picker_eval)

text \<open>
  \<^verbatim>\<open>we_dont_have\<close> does not undo the count of the regions of missing pieces: after a piece is had and lost again
  the map is the same and the count is one too high.
\<close>

theorem regions_not_restored:
  "pk_reach demo \<and> pk_sparse_regions demo = regions demo \<and> we_have 1 demo = Some got \<and>
   pk_sparse_regions got = regions got \<and>
   (\<exists>k'. we_dont_have 0 1 got = Some k' \<and> pk_map k' = pk_map demo \<and> pk_sparse_regions k' = regions k' + 1)"
proof -
  have "pk_sparse_regions got = regions got" by (simp add: got_def demo_def regions_def picker_eval)
  moreover have "regions (demo\<lparr>pk_sparse_regions := 2\<rparr>) = 1" by (simp add: demo_def regions_def picker_eval)
  ultimately show ?thesis using demo_reach demo_simps(8) got_step lost_step by simp
qed

end
