(* ===== verification/PickerClaims.thy ===== *)
theory PickerClaims
  imports PickerRegions
begin

section \<open>What holds of a piece picker in every state it can reach\<close>

text \<open>
  The theorems on single operations, put together over the reachable states: the check the source makes in its
  debug build never fails, the vector of pieces is the priority queue it stands for, no operation reads
  outside its arrays, what is picked can be requested, and the blocks refine a map from blocks to states.
\<close>

lemma buckets_list:
  assumes "buckets_ok k"
  obtains xs where "pk_pieces k = map Some xs" "distinct xs"
    "set xs = {x. x < length (pk_map k) \<and> prio_of k x \<noteq> None}"
    "sorted_wrt (\<lambda>x y. the (prio_of k x) \<le> the (prio_of k y)) xs"
proof -
  have f: "filed {} {} k" and b: "sorted (pk_bounds k)" using assms by (auto simp: buckets_ok_def bounds_ok_def)
  let ?xs = "map the (pk_pieces k)"
  have slot: "\<exists>x q. pk_pieces k ! i = Some x \<and> x < length (pk_map k) \<and> pos_index (pk_map k ! x) = i \<and>
      prio_of k x = Some q \<and> in_bucket (pk_bounds k) q i" if "i < length (pk_pieces k)" for i
    using f that by (auto simp: filed_def)
  have 1: "pk_pieces k = map Some ?xs"
  proof (rule nth_equalityI)
    fix i assume "i < length (pk_pieces k)"
    with slot [OF this] show "pk_pieces k ! i = map Some ?xs ! i" by auto
  qed simp
  have 2: "distinct ?xs"
    unfolding distinct_conv_nth
  proof (intro allI impI)
    fix i j assume ij: "i < length ?xs" "j < length ?xs" "i \<noteq> j"
    then show "?xs ! i \<noteq> ?xs ! j" using slot [of i] slot [of j] by auto
  qed
  have 3: "set ?xs = {x. x < length (pk_map k) \<and> prio_of k x \<noteq> None}"
  proof (intro equalityI subsetI)
    fix x assume "x \<in> set ?xs"
    then obtain i where "i < length (pk_pieces k)" "x = the (pk_pieces k ! i)" by (auto simp: in_set_conv_nth)
    with slot [of i] show "x \<in> {x. x < length (pk_map k) \<and> prio_of k x \<noteq> None}" by auto
  next
    fix x assume "x \<in> {x. x < length (pk_map k) \<and> prio_of k x \<noteq> None}"
    then have "pos_index (pk_map k ! x) < length (pk_pieces k)" "pk_pieces k ! pos_index (pk_map k ! x) = Some x"
      using f by (auto simp: filed_def)
    then show "x \<in> set ?xs" by (force simp: in_set_conv_nth)
  qed
  have 4: "sorted_wrt (\<lambda>x y. the (prio_of k x) \<le> the (prio_of k y)) ?xs"
    unfolding sorted_wrt_iff_nth_less
  proof (intro allI impI)
    fix i j assume ij: "i < j" "j < length ?xs"
    obtain x q where x: "pk_pieces k ! i = Some x" "prio_of k x = Some q" "in_bucket (pk_bounds k) q i"
      using slot [of i] ij by auto
    obtain y r where y: "pk_pieces k ! j = Some y" "prio_of k y = Some r" "in_bucket (pk_bounds k) r j"
      using slot [of j] ij by auto
    have "q \<le> r"
    proof (rule ccontr)
      assume n: "\<not> q \<le> r"
      then have "pk_bounds k ! r \<le> pk_bounds k ! (q - 1)"
        using x(3) by (intro sorted_nth_mono [OF b]) (auto simp: in_bucket_def)
      with x(3) y(3) ij n show False by (auto simp: in_bucket_def range_start_def split: if_splits)
    qed
    with x y ij show "the (prio_of k (?xs ! i)) \<le> the (prio_of k (?xs ! j))" by simp
  qed
  show thesis by (rule that [OF 1 2 3 4])
qed

text \<open>
  C3: \<^verbatim>\<open>check_invariant\<close>, which the debug build runs after every operation, holds in every state that the operations
  reach within their own assertions (\<open>pk_step\<close>: the piece and the block exist, a peer goes only when one is there, a
  priority is at most 7, fewer than 16383 peers are asked for a block), if \<^verbatim>\<open>mark_as_finished\<close> is called only for a piece that is
  in progress or whose \<open>full\<close> flag is clear; without this condition, which no assertion states, the check can fail (C23).
\<close>

theorem reachable_checked: "pk_reach k \<Longrightarrow> check_invariant k"
  by (rule check_invariant_ok [OF pk_reach_inv])

lemma reachable_checked_witness: "check_invariant demo"
  by (rule reachable_checked [OF demo_reach])

text \<open>
  C18: \<^verbatim>\<open>m_pieces\<close> is the queue of the pieces that can be picked: while it is not marked dirty it holds each
  piece with a priority exactly once, in the order of the priorities.
\<close>

theorem pieces_in_order:
  assumes "pk_reach k" "\<not> pk_dirty k"
  shows "\<exists>xs. pk_pieces k = map Some xs \<and> distinct xs \<and> set xs = {x. x < length (pk_map k) \<and> prio_of k x \<noteq> None} \<and>
    sorted_wrt (\<lambda>x y. the (prio_of k x) \<le> the (prio_of k y)) xs"
proof -
  have "buckets_ok k"
    using pk_invD(1) [OF pk_reach_inv [OF assms(1)]] assms(2) by (simp add: picker_ok_def)
  then show ?thesis by (rule buckets_list) blast
qed

text \<open>
  C19: in a reachable state every operation on an existing piece or block returns: none of them reads or
  writes outside its arrays, whatever \<^verbatim>\<open>random()\<close> gives.
\<close>

theorem operations_return:
  assumes k: "pk_reach k" and x: "x < length (pk_map k)" and j: "j < blocks_in_piece x k" and n: "n \<le> 7"
    and st: "st \<noteq> NoSpeed" and np: "peers_at k x j < 16383"
  shows "update_pieces rnd k \<noteq> None \<and> inc_refcount r x k \<noteq> None \<and>
    (0 < peer_count (pk_map k ! x) \<or> 0 < pk_seeds k \<longrightarrow> dec_refcount r x k \<noteq> None) \<and>
    set_piece_priority r x n k \<noteq> None \<and> we_have x k \<noteq> None \<and> we_dont_have r x k \<noteq> None \<and>
    (downloading (pk_map k ! x) \<longrightarrow> restore_piece r x k \<noteq> None) \<and>
    (\<not> pp_have (pk_map k ! x) \<longrightarrow> mark_as_downloading r x j peer st k \<noteq> None) \<and>
    mark_as_writing r x j peer k \<noteq> None \<and> abort_download r x j peer k \<noteq> None \<and>
    (state_at k x j \<noteq> StateRequested \<longrightarrow> write_failed r x j k \<noteq> None \<and>
       (downloading (pk_map k ! x) \<or> \<not> full (pk_map k ! x) \<longrightarrow> mark_as_finished r x j peer k \<noteq> None)) \<and>
    is_requested x j k \<noteq> None \<and> is_downloaded x j k \<noteq> None \<and> is_finished x j k \<noteq> None \<and>
    is_piece_finished x k \<noteq> None \<and> num_peers x j k \<noteq> None"
proof -
  note k' = pk_reach_inv [OF k]
  have q: "is_requested x j k \<noteq> None" "is_downloaded x j k \<noteq> None" "is_finished x j k \<noteq> None" "num_peers x j k \<noteq> None"
    using block_queries [OF k' x j] by simp_all
  have p: "is_piece_finished x k \<noteq> None" using piece_finished_iff [OF k' x] by simp
  have "update_pieces rnd k \<noteq> None" using update_pieces_inv [OF k', of rnd] by auto
  moreover have "inc_refcount r x k \<noteq> None" using inc_refcount_inv [OF k' x, of r] by auto
  moreover have "0 < peer_count (pk_map k ! x) \<or> 0 < pk_seeds k \<longrightarrow> dec_refcount r x k \<noteq> None"
    using dec_refcount_inv [OF k' x, of r] by auto
  moreover have "set_piece_priority r x n k \<noteq> None" using set_piece_priority_inv [OF k' x n, of r] by auto
  moreover have "we_have x k \<noteq> None" using we_have_ok [OF k' x] by auto
  moreover have "we_dont_have r x k \<noteq> None" using we_dont_have_inv [OF k' x, of r] by auto
  moreover have "downloading (pk_map k ! x) \<longrightarrow> restore_piece r x k \<noteq> None" using restore_piece_ok [OF k' x, of r] by auto
  moreover have "\<not> pp_have (pk_map k ! x) \<longrightarrow> mark_as_downloading r x j peer st k \<noteq> None"
    using mark_as_downloading_ok [OF k' x _ j st np, of r peer] by auto
  moreover have "mark_as_writing r x j peer k \<noteq> None" using mark_as_writing_ok [OF k' x j, of r peer] by auto
  moreover have "abort_download r x j peer k \<noteq> None" using abort_download_ok [OF k' x j, of r peer] by auto
  moreover have "state_at k x j \<noteq> StateRequested \<longrightarrow> write_failed r x j k \<noteq> None"
    using write_failed_ok [OF k' x j, of r] by auto
  moreover have "state_at k x j \<noteq> StateRequested \<longrightarrow> downloading (pk_map k ! x) \<or> \<not> full (pk_map k ! x) \<longrightarrow>
      mark_as_finished r x j peer k \<noteq> None"
    using mark_as_finished_ok [OF k' x j, of r peer] by auto
  ultimately show ?thesis using q p by blast
qed

lemma operations_return_witness: "we_have 0 demo \<noteq> None \<and> abort_download 5 0 1 None demo \<noteq> None"
  using operations_return [OF demo_reach, of 0 1 7 Fast "\<lambda>_. 5" 5 None] by (simp add: demo_simps asked_peers
      peers_at_def no_block_def)

subsection \<open>Picking\<close>

text \<open>
  C7: \<^verbatim>\<open>pick_pieces\<close> always returns. What it picks passes \<^verbatim>\<open>verify_pick\<close>: blocks of pieces the peer has and we
  want and do not have. First come blocks nobody has been asked for, then at most one that another peer has been
  asked for; they are no more than \<^verbatim>\<open>num_blocks\<close> unless whole pieces are preferred, no block changes its state,
  and each can be requested: \<^verbatim>\<open>mark_as_downloading\<close> answers true.
\<close>

theorem picks_can_be_requested:
  assumes k: "pk_reach k" and a: "pick_allowed c num suggested k"
  shows "\<exists>picks k'. pick_pieces c pad peers suggested num rnd r r2 k = Some (picks, k') \<and> pk_reach k' \<and>
    verify_pick picks (pc_pieces c) k' \<and> state_at k' = state_at k \<and>
    (\<exists>bs busy. picks = bs @ busy \<and> list_all (\<lambda>(x, j). state_at k x j = StateNone) bs \<and>
       list_all (\<lambda>(x, j). state_at k x j = StateRequested) busy \<and> length busy \<le> 1) \<and>
    (pc_whole c = 0 \<or> pc_ignore_whole c \<longrightarrow> length picks \<le> num) \<and>
    list_all (\<lambda>(x, j). peers_at k' x j < 16383 \<longrightarrow>
       (\<exists>k''. mark_as_downloading r3 x j peer Fast k' = Some (True, k''))) picks"
proof -
  obtain picks k' where p: "pick_pieces c pad peers suggested num rnd r r2 k = Some (picks, k')" "pk_inv k'"
    "state_at k' = state_at k" "frame k k'" "pickable c k' = pickable c k" "picked_ok c num k picks"
    using pick_allowed_ok [OF pk_reach_inv [OF k] a] by blast
  have p': "picked_ok c num k' picks" using p(6) unfolding picked_ok_def picks_ok_cong(1,2) [OF p(5,3)] .
  have "length (pc_pieces c) = length (pk_map k')" using a frameD(1) [OF p(4)] by (simp add: pick_allowed_def)
  from picked_ok_verify [OF p' this] have v: "verify_pick picks (pc_pieces c) k'" .
  have "\<exists>k''. mark_as_downloading r3 x j peer Fast k' = Some (True, k'')"
    if b: "(x, j) \<in> set picks" and n: "peers_at k' x j < 16383" for x j
    using mark_as_downloading_ok [OF p(2) _ _ _ _ n, of Fast r3 peer] picked_ok_block [OF p' b]
    by (auto simp: pickable_def is_piece_free_def)
  then have m: "list_all (\<lambda>(x, j). peers_at k' x j < 16383 \<longrightarrow>
       (\<exists>k''. mark_as_downloading r3 x j peer Fast k' = Some (True, k''))) picks"
    by (auto simp: list_all_iff)
  obtain bs busy where "picks = bs @ busy" "list_all (free_block c k) bs" "list_all (busy_block c k) busy" "length busy \<le> 1"
    and l: "pc_whole c = 0 \<or> pc_ignore_whole c \<longrightarrow> length picks \<le> num" using p(6) unfolding picked_ok_def by blast
  then have s: "\<exists>bs busy. picks = bs @ busy \<and> list_all (\<lambda>(x, j). state_at k x j = StateNone) bs \<and>
       list_all (\<lambda>(x, j). state_at k x j = StateRequested) busy \<and> length busy \<le> 1"
    by (intro exI [of _ bs] exI [of _ busy]) (auto simp: list_all_iff free_block_def busy_block_def)
  have "pk_reach k'" by (rule pk_reach.step [OF k pk_step.picked [OF a p(1)]])
  with p(1,3) v s l m show ?thesis by blast
qed

definition demo_call :: pick_call where
  "demo_call = \<lparr>pc_pieces = replicate 3 True, pc_whole = 0, pc_peer = Some 9, pc_speed = Fast, pc_rarest_first = True,
     pc_reverse = False, pc_on_parole = False, pc_partials = False, pc_sequential = False, pc_affinity = False,
     pc_ignore_whole = False, pc_critical = False\<rparr>"

lemma picks_can_be_requested_witness:
  "\<exists>picks k'. pick_pieces demo_call 0 10 [2] 4 (\<lambda>_. 7) 8 9 demo = Some (picks, k') \<and> verify_pick picks (replicate 3 True) k' \<and>
     length picks \<le> 4"
proof -
  have "pick_allowed demo_call 4 [2] demo" by (simp add: pick_allowed_def demo_call_def demo_def)
  from picks_can_be_requested [OF demo_reach this, of 0 10 "\<lambda>_. 7" 8 9] show ?thesis
    by (simp add: demo_call_def) blast
qed

subsection \<open>The life of a block\<close>

definition becomes :: "picker \<Rightarrow> nat \<Rightarrow> nat \<Rightarrow> block_state \<Rightarrow> nat \<Rightarrow> nat \<Rightarrow> block_state" where
  "becomes k x j t = (state_at k)(x := (state_at k x)(j := t))"

lemma becomes_same: "becomes k x j (state_at k x j) = state_at k"
  unfolding becomes_def by (rule state_same)

definition missing_block :: "picker \<Rightarrow> nat \<Rightarrow> nat \<Rightarrow> bool" where
  "missing_block k x j \<longleftrightarrow> pk_reach k \<and> x < length (pk_map k) \<and> \<not> pp_have (pk_map k ! x) \<and> j < blocks_in_piece x k"

lemma missing_blockD:
  assumes "missing_block k x j"
  shows "pk_reach k" "pk_inv k" "x < length (pk_map k)" "\<not> pp_have (pk_map k ! x)" "j < blocks_in_piece x k"
  using assms pk_reach_inv by (auto simp: missing_block_def)

lemma wanted_state: "s \<in> {StateNone, StateRequested} \<longleftrightarrow> s \<noteq> StateWriting \<and> s \<noteq> StateFinished"
  by (cases s) auto

lemma requested_reach:
  assumes w: "missing_block k x j" and np: "peers_at k x j < 16383"
  shows "\<exists>k'. mark_as_downloading r x j peer Fast k = Some (state_at k x j \<in> {StateNone, StateRequested}, k') \<and> pk_reach k' \<and>
      state_at k' = becomes k x j (if state_at k x j \<in> {StateNone, StateRequested} then StateRequested else state_at k x j)"
proof -
  note w = missing_blockD [OF w]
  obtain b k1 where b: "mark_as_downloading r x j peer Fast k = Some (b, k1)"
    "b \<longleftrightarrow> state_at k x j \<noteq> StateWriting \<and> state_at k x j \<noteq> StateFinished"
    "state_at k1 = (if b then becomes k x j StateRequested else state_at k)"
    using mark_as_downloading_ok [OF w(2-5) _ np, of Fast r peer] unfolding becomes_def by auto
  have "pk_reach k1" by (rule pk_reach.step [OF w(1) pk_step.requested [OF w(3-5) _ np b(1)]]) simp
  with b becomes_same wanted_state [of "state_at k x j"] show ?thesis by (cases b) auto
qed

lemma written_reach:
  assumes w: "missing_block k x j"
  shows "\<exists>k'. mark_as_writing r x j peer k = Some (state_at k x j \<in> {StateNone, StateRequested}, k') \<and> pk_reach k' \<and>
      state_at k' = becomes k x j (if state_at k x j \<in> {StateNone, StateRequested} then StateWriting else state_at k x j)"
proof -
  note w = missing_blockD [OF w]
  obtain b k1 where b: "mark_as_writing r x j peer k = Some (b, k1)"
    "b \<longleftrightarrow> state_at k x j \<noteq> StateWriting \<and> state_at k x j \<noteq> StateFinished"
    "state_at k1 = (if b then becomes k x j StateWriting else state_at k)"
    using mark_as_writing_ok [OF w(2,3,5), of r peer] w(4) unfolding becomes_def by auto
  have "pk_reach k1" by (rule pk_reach.step [OF w(1) pk_step.written [OF w(3,5) b(1)]])
  with b becomes_same wanted_state [of "state_at k x j"] show ?thesis by (cases b) auto
qed

lemma finished_reach:
  assumes w: "missing_block k x j" and t: "state_at k x j \<noteq> StateRequested"
    and f: "downloading (pk_map k ! x) \<or> \<not> full (pk_map k ! x)"
  shows "\<exists>k'. mark_as_finished r x j peer k = Some k' \<and> pk_reach k' \<and> state_at k' = becomes k x j StateFinished"
proof -
  note w = missing_blockD [OF w]
  obtain k1 where b: "mark_as_finished r x j peer k = Some k1" "state_at k1 = becomes k x j StateFinished"
    using mark_as_finished_ok [OF w(2,3,5) t f, of r peer] w(4) unfolding becomes_def by auto
  have "pk_reach k1" by (rule pk_reach.step [OF w(1) pk_step.finished [OF w(3,5) t f b(1)]])
  with b show ?thesis by blast
qed

lemma failed_reach:
  assumes w: "missing_block k x j" and t: "state_at k x j \<noteq> StateRequested"
  shows "\<exists>k'. write_failed r x j k = Some k' \<and> pk_reach k' \<and>
      state_at k' = becomes k x j (if state_at k x j = StateFinished then StateFinished else StateNone)"
proof -
  note w = missing_blockD [OF w]
  obtain k1 where b: "write_failed r x j k = Some k1"
    "state_at k1 = (if state_at k x j = StateFinished then state_at k else becomes k x j StateNone)"
    using write_failed_ok [OF w(2,3,5) t, of r] unfolding becomes_def by auto
  have "pk_reach k1" by (rule pk_reach.step [OF w(1) pk_step.failed [OF w(3,5) t b(1)]])
  with b becomes_same [of k x j] show ?thesis by (cases "state_at k x j = StateFinished") auto
qed

lemma aborted_reach:
  assumes w: "missing_block k x j"
  shows "\<exists>k'. abort_download r x j peer k = Some k' \<and> pk_reach k' \<and> state_at k' =
      becomes k x j (if state_at k x j = StateRequested \<and> peers_at k x j = 1 then StateNone else state_at k x j)"
proof -
  note w = missing_blockD [OF w]
  obtain k1 where b: "abort_download r x j peer k = Some k1" "state_at k1 =
      (if state_at k x j = StateRequested \<and> peers_at k x j = 1 then becomes k x j StateNone else state_at k)"
    using abort_download_ok [OF w(2,3,5), of r peer] unfolding becomes_def by auto
  have "pk_reach k1" by (rule pk_reach.step [OF w(1) pk_step.aborted [OF w(3,5) b(1)]])
  with b becomes_same [of k x j] show ?thesis
    by (cases "state_at k x j = StateRequested \<and> peers_at k x j = 1") auto
qed

text \<open>
  C13: the blocks refine a map from blocks to states. A request, a write and a finish each change the state of
  their block, whether or not they are the first for their piece, an abort by the last peer and a failed write free
  it, and no call touches another block; a block that is being written or is finished is never given out again. The
  first finish of a piece must not find its \<open>full\<close> flag set (C23). (\<open>becomes k x j t\<close> is the map of \<open>k\<close> with the
  block \<open>j\<close> of the piece \<open>x\<close> in the state \<open>t\<close>, \<open>missing_block\<close> says that the block is one of a reachable picker and of
  a piece that we do not have.)
\<close>

theorem blocks_refine:
  assumes "missing_block k x j" "peers_at k x j < 16383"
  shows "let s = state_at k x j; free = s \<in> {StateNone, StateRequested} in
    (\<exists>k'. mark_as_downloading r x j peer Fast k = Some (free, k') \<and> pk_reach k' \<and>
      state_at k' = becomes k x j (if free then StateRequested else s)) \<and>
    (\<exists>k'. mark_as_writing r x j peer k = Some (free, k') \<and> pk_reach k' \<and>
      state_at k' = becomes k x j (if free then StateWriting else s)) \<and>
    (s \<noteq> StateRequested \<longrightarrow>
      (downloading (pk_map k ! x) \<or> \<not> full (pk_map k ! x) \<longrightarrow>
        (\<exists>k'. mark_as_finished r x j peer k = Some k' \<and> pk_reach k' \<and> state_at k' = becomes k x j StateFinished)) \<and>
      (\<exists>k'. write_failed r x j k = Some k' \<and> pk_reach k' \<and>
        state_at k' = becomes k x j (if s = StateFinished then StateFinished else StateNone))) \<and>
    (\<exists>k'. abort_download r x j peer k = Some k' \<and> pk_reach k' \<and>
      state_at k' = becomes k x j (if s = StateRequested \<and> peers_at k x j = 1 then StateNone else s))"
  unfolding Let_def
  using requested_reach [OF assms, of r peer] written_reach [OF assms(1), of r peer] finished_reach [OF assms(1), of r peer]
    failed_reach [OF assms(1), of r] aborted_reach [OF assms(1), of r peer] by blast

lemma asked_work: "missing_block (asked 1) 0 0" "peers_at (asked 1) 0 0 = 1" "state_at (asked 1) 0 0 = StateRequested"
proof -
  have "pk_reach (asked 1)"
    by (rule pk_reach.step [OF demo_reach pk_step.requested [OF _ _ _ _ _ asked_1]]) (simp_all add: demo_simps asked_peers)
  then show "missing_block (asked 1) 0 0" by (simp add: missing_block_def asked_simps)
  show "peers_at (asked 1) 0 0 = 1" "state_at (asked 1) 0 0 = StateRequested"
    by (simp_all add: demo_def asked_def picker_eval peers_at_def state_at_def blocks_at_def block_map_def view_def blocks_of_def)
qed

lemma blocks_refine_witness:
  "(\<exists>k'. abort_download 3 0 0 None (asked 1) = Some k' \<and> pk_reach k' \<and> state_at k' = becomes (asked 1) 0 0 StateNone) \<and>
   (\<exists>k'. mark_as_downloading 3 0 1 None Fast demo = Some (True, k') \<and> pk_reach k' \<and>
     state_at k' = becomes demo 0 1 StateRequested)"
proof -
  have "peers_at (asked 1) 0 0 < 16383" by (simp only: asked_work)
  from blocks_refine [OF asked_work(1) this, of 3 None]
  have 1: "\<exists>k'. abort_download 3 0 0 None (asked 1) = Some k' \<and> pk_reach k' \<and> state_at k' = becomes (asked 1) 0 0 StateNone"
    unfolding Let_def by (simp del: One_nat_def add: asked_work)
  have d: "missing_block demo 0 1" "peers_at demo 0 1 < 16383" "state_at demo 0 1 = StateNone"
    by (simp_all add: missing_block_def demo_reach demo_simps peers_at_def state_at_def no_block_def)
  from blocks_refine [OF d(1,2), of 3 None] have "\<exists>k'. mark_as_downloading 3 0 1 None Fast demo = Some (True, k') \<and> pk_reach k' \<and>
     state_at k' = becomes demo 0 1 StateRequested"
    unfolding Let_def d(3) by simp
  with 1 show ?thesis by blast
qed

text \<open>
  C20: a piece is complete after the blocks it still needs have been requested, written and finished by any peers:
  the steps of one block in this order, those of different blocks mixed in any way, as \<^verbatim>\<open>peer_connection\<close> and the
  disk thread do with a pipeline of requests. \<^verbatim>\<open>we_have\<close> then gives us the piece, and the debug check holds before
  and after.
\<close>

theorem piece_completes:
  assumes k: "pk_reach k" and x: "x < length (pk_map k)" "\<not> pp_have (pk_map k ! x)"
    and ss: "list_all (\<lambda>(j, _, _). j < blocks_in_piece x k) ss"
      "list_all (\<lambda>j. steps_state (steps_of j ss) (state_at k x j) = Some StateFinished) [0..<blocks_in_piece x k]"
  shows "\<exists>k1 k2. run_schedule (block_call x) ss k = Some k1 \<and> is_piece_finished x k1 = Some True \<and>
    check_invariant k1 \<and> we_have x k1 = Some k2 \<and> pp_have (pk_map k2 ! x) \<and> \<not> downloading (pk_map k2 ! x) \<and>
    check_invariant k2"
proof -
  have "steps_state (steps_of j ss) (state_at k x j) = Some StateFinished" if "j < blocks_in_piece x k" for j
    using ss(2) that by (simp add: list_all_iff)
  then obtain k1 where k1: "run_schedule (block_call x) ss k = Some k1" "pk_inv k1" "x < length (pk_map k1)"
    "is_piece_finished x k1 = Some True"
    using scheduled_piece_finished [OF pk_reach_inv [OF k] x ss(1)] by blast
  obtain k2 where k2: "we_have x k1 = Some k2" "pk_inv k2" "map pp_have (pk_map k2) = (map pp_have (pk_map k1))[x := True]"
    using we_have_ok [OF k1(2,3)] by blast
  have l: "length (pk_map k2) = length (pk_map k1)" using arg_cong [OF k2(3), of length] by simp
  have h: "pp_have (pk_map k2 ! x)" using arg_cong [OF k2(3), of "\<lambda>bs. bs ! x"] k1(3) l by simp
  have c: "check_invariant k1" "check_invariant k2" by (rule check_invariant_ok [OF k1(2)], rule check_invariant_ok [OF k2(2)])
  have "list_all (check_piece k2) [0..<length (pk_map k2)]" using c(2) by (simp add: check_invariant_def)
  then have "check_piece k2 x" using k1(3) l by (simp add: list_all_iff)
  with h have "\<not> downloading (pk_map k2 ! x)" by (simp add: check_piece_def Let_def)
  with k1 k2 h c show ?thesis by blast
qed

text \<open>Two peers, both blocks asked for before either is written.\<close>

definition demo_schedule :: "(nat \<times> nat option) schedule" where
  "demo_schedule = [(1, Request, 4, Some 9), (0, Request, 4, Some 8), (0, Store, 4, Some 8), (1, Store, 4, Some 9),
     (1, Finish, 4, Some 9), (0, Finish, 4, Some 8)]"

lemma piece_completes_witness:
  "\<exists>k1 k2. run_schedule (block_call 0) demo_schedule demo = Some k1 \<and> we_have 0 k1 = Some k2 \<and> pp_have (pk_map k2 ! 0)"
proof -
  have st: "state_at demo 0 j = StateNone" if "j < 2" for j
    using that by (cases j) (simp_all add: state_at_def demo_simps no_block_def)
  have 1: "list_all (\<lambda>(j, _, _). j < blocks_in_piece 0 demo) demo_schedule" by (simp add: demo_schedule_def demo_simps)
  have 2: "list_all (\<lambda>j. steps_state (steps_of j demo_schedule) (state_at demo 0 j) = Some StateFinished) [0..<blocks_in_piece 0 demo]"
    using st by (simp add: demo_schedule_def demo_simps upt_rec)
  have 3: "0 < length (pk_map demo)" by (simp add: demo_simps)
  from piece_completes [OF demo_reach 3 demo_simps(2) 1 2] show ?thesis by blast
qed

lemma pieces_in_order_witness:
  "\<exists>k xs. update_pieces (\<lambda>_. 0) demo = Some k \<and> pk_pieces k = map Some xs \<and> distinct xs \<and>
     set xs = {x. x < length (pk_map k) \<and> prio_of k x \<noteq> None}"
proof -
  obtain k where k: "update_pieces (\<lambda>_. 0) demo = Some k" "\<not> pk_dirty k"
    using update_pieces_inv [OF pk_reach_inv [OF demo_reach], of "\<lambda>_. 0"] by blast
  from pieces_in_order [OF pk_reach.step [OF demo_reach pk_step.sorted [OF k(1)]] k(2)] k(1) show ?thesis by blast
qed

lemma we_have_regions_witness: "\<exists>k'. we_have 0 demo = Some k' \<and> pk_sparse_regions k' = regions k'"
  by (rule we_have_regions) (simp_all add: pk_reach_inv [OF demo_reach] demo_simps)

end
