(* ===== verification/PickerWidth.thy ===== *)
theory PickerWidth
  imports PickerClaims
begin

section \<open>The width of the counters of a download\<close>

text \<open>
  The number of blocks of a piece is set by \<^verbatim>\<open>init\<close> and no operation changes it; so the counters of a download
  stay in the 16 bits the source gives them.
\<close>

abbreviation bpp :: "picker \<Rightarrow> nat" where
  "bpp \<equiv> pk_blocks_per_piece"

lemma bpp_sets [simp]:
  "bpp (set_piece x p k) = bpp k" "bpp (set_block i j b k) = bpp k" "bpp (set_dl i d k) = bpp k" "bpp (set_bound q e k) = bpp k"
  "bpp (grow_bounds q k) = bpp k" "bpp (cursors_out x k) = bpp k" "bpp (cursors_in x k) = bpp k"
  by (simp_all add: set_piece_def set_block_def set_dl_def set_bound_def grow_bounds_def cursors_out_def cursors_in_def Let_def)

lemma bpp_reindexed: "reindexed k k' \<Longrightarrow> bpp k' = bpp k"
  by (metis picker.select_convs(7) picker.ext_inject reindexed_def picker.surjective picker.update_convs)

lemma bpp_erase: "erase_download_piece i k = Some k' \<Longrightarrow> bpp k' = bpp k"
  by (auto simp: erase_download_piece_def Let_def split: if_splits bind_splits)


lemma bpp_place: "place i x k = Some k' \<Longrightarrow> bpp k' = bpp k"
  by (auto simp: place_def split: if_splits)

lemma bpp_bump: "bump i q k = Some (t, q', k') \<Longrightarrow> bpp k' = bpp k"
proof (induction i q k rule: bump.induct)
  case (1 i q k)
  then show ?case by (auto simp: bump.simps [of i q k] Let_def split: if_splits)
qed

lemma bpp_add_loop: "add_loop i y q k = Some (d, t, k') \<Longrightarrow> bpp k' = bpp k"
proof (induction i y q k rule: add_loop.induct)
  case (1 i y q k)
  from 1(2) obtain x displaced k1 temp q1 k2 where s: "y = Some x" "vec_at (pk_pieces k) i = Some displaced"
    "place i x k = Some k1" "bump i q k1 = Some (temp, q1, k2)"
    by (auto simp: add_loop.simps [of i y q k] split: option.splits)
  then have b: "bpp k2 = bpp k" using bpp_place bpp_bump by metis
  show ?case
  proof (cases "length (pk_bounds k2) \<le> q1")
    case True
    then show ?thesis using 1(2) s b unfolding add_loop.simps [of i y q k] by simp
  next
    case False
    then have "add_loop temp displaced q1 k2 = Some (d, t, k')"
      using 1(2) s unfolding add_loop.simps [of i y q k] by simp
    with 1(1) [OF s refl refl False] b show ?thesis by simp
  qed
qed

lemma bpp_add: "pk_add r x k = Some k' \<Longrightarrow> bpp k' = bpp k"
  by (auto simp: pk_add_def add_at_def Let_def dest!: bpp_add_loop bpp_place split: option.splits prod.splits)

lemma bpp_shrink: "shrink i q k = Some (t, q', k') \<Longrightarrow> bpp k' = bpp k"
proof (induction i q k rule: shrink.induct)
  case (1 i q k)
  then show ?case by (auto simp: shrink.simps [of i q k] Let_def split: if_splits)
qed

lemma bpp_take_out: "take_out i j k = Some k' \<Longrightarrow> bpp k' = bpp k"
  by (auto simp: take_out_def dest: bpp_place split: option.splits)

lemma bpp_remove_loop: "remove_loop i q k = Some k' \<Longrightarrow> bpp k' = bpp k"
proof (induction i q k rule: remove_loop.induct)
  case (1 i q k)
  from 1(2) obtain temp q1 k1 where s: "shrink i q k = Some (temp, q1, k1)"
    by (auto simp: remove_loop.simps [of i q k] split: option.splits)
  note b = bpp_shrink [OF s]
  show ?case
  proof (cases "i = temp")
    case True
    then show ?thesis using 1(2) s b unfolding remove_loop.simps [of i q k] by simp
  next
    case False
    with 1(2) s obtain k2 where t: "take_out temp i k1 = Some k2"
      by (auto simp: remove_loop.simps [of i q k] split: option.splits)
    show ?thesis
    proof (cases "q1 = length (pk_bounds k2)")
      case True
      with 1(2) s t False b bpp_take_out [OF t] show ?thesis by (simp add: remove_loop.simps [of i q k])
    next
      case q: False
      with 1(2) s t False have "remove_loop temp q1 k2 = Some k'" by (simp add: remove_loop.simps [of i q k])
      with 1(1) [OF s refl refl False t q] b bpp_take_out [OF t] show ?thesis by simp
    qed
  qed
qed

lemma bpp_remove: "pk_remove q i k = Some k' \<Longrightarrow> bpp k' = bpp k"
  by (auto simp: pk_remove_def dest: bpp_remove_loop)

lemma bpp_move_if: "move_if t i j k = Some (t', k') \<Longrightarrow> bpp k' = bpp k"
  by (auto simp: move_if_def dest: bpp_place split: option.splits if_splits)

lemma bpp_down_loop: "down_loop n q t i k = Some (j, k') \<Longrightarrow> bpp k' = bpp k"
  by (induction n q t i k rule: down_loop.induct)
    (auto simp: Let_def dest!: bpp_move_if split: if_splits option.splits)

lemma bpp_up_loop: "up_loop n q t i k = Some (j, k') \<Longrightarrow> bpp k' = bpp k"
  by (induction n q t i k rule: up_loop.induct)
    (auto simp: Let_def dest!: bpp_move_if split: if_splits option.splits)

lemma bpp_shuffle: "pk_shuffle r q i k = Some k' \<Longrightarrow> bpp k' = bpp k"
  by (auto simp: pk_shuffle_def Let_def split: if_splits option.splits)

lemma bpp_update: "pk_update r q i k = Some k' \<Longrightarrow> bpp k' = bpp k"
  by (auto simp: pk_update_def Let_def dest!: bpp_down_loop bpp_up_loop bpp_remove bpp_place bpp_shuffle
      split: option.splits if_splits prod.splits)

lemma bpp_resort: "resort r x prev k = Some k' \<Longrightarrow> bpp k' = bpp k"
  by (auto simp: resort_def dest: bpp_add bpp_update split: option.splits bind_splits)

lemma bpp_drop_empty: "drop_empty r x i k = Some k' \<Longrightarrow> bpp k' = bpp k"
  by (auto simp: drop_empty_def Let_def dest!: bpp_erase bpp_resort split: if_splits bind_splits)

lemma bpp_update_full: "update_full i k = Some k' \<Longrightarrow> bpp k' = bpp k"
  by (auto simp: update_full_def split: bind_splits)

lemma bpp_released:
  "write_failed r x j k = Some k' \<Longrightarrow> bpp k' = bpp k" "abort_download r x j peer k = Some k' \<Longrightarrow> bpp k' = bpp k"
  "restore_piece r x k = Some k' \<Longrightarrow> bpp k' = bpp k"
  by (auto simp: write_failed_def abort_download_def restore_piece_def Let_def
      dest!: bpp_erase bpp_resort bpp_drop_empty bpp_update_full split: if_splits option.splits bind_splits)

lemma bpp_we_have: "we_have x k = Some k' \<Longrightarrow> bpp k' = bpp k"
  by (auto simp: we_have_def Let_def dest!: bpp_erase bpp_remove split: if_splits option.splits bind_splits)

lemma bpp_update_pieces: "update_pieces rnd k = Some k' \<Longrightarrow> bpp k' = bpp k"
  by (auto simp: update_pieces_def Let_def split: prod.splits bind_splits)


lemma keeps_bpp: "keeps k k' \<Longrightarrow> bpp k' = bpp k" and frame_bpp: "frame k k' \<Longrightarrow> bpp k' = bpp k"
  by (simp_all add: keeps_def frame_def)

lemma pk_step_bpp: "pk_step k k' \<Longrightarrow> pk_inv k \<Longrightarrow> bpp k' = bpp k"
proof (induction rule: pk_step.induct)
  case (peer_in x k r k')
  then show ?case using inc_refcount_ok [OF pk_invD(1), of k x r] keeps_bpp by fastforce
next
  case (peer_bits bs k k')
  then show ?case using inc_refcount_bits_ok [OF pk_invD(1), of k bs] keeps_bpp by fastforce
next
  case (peer_out x k r k')
  then show ?case using dec_refcount_ok [OF pk_invD(1), of k x r] keeps_bpp by fastforce
next
  case (prio x k n r b k')
  then show ?case using set_piece_priority_ok [OF pk_invD(1), of k x n r] keeps_bpp by fastforce
next
  case (lost x k r k')
  then show ?case using we_dont_have_ok [OF pk_invD(1), of k x r] keeps_bpp by fastforce
next
  case (requested x k j st r peer b k')
  then show ?case using mark_as_downloading_ok [of k x j st r peer] frame_bpp by fastforce
next
  case (written x k j r peer b k')
  then show ?case using mark_as_writing_ok [of k x j r peer] frame_bpp by fastforce
next
  case (finished x k j r peer k')
  then show ?case using mark_as_finished_ok [of k x j r peer] frame_bpp by fastforce
next
  case (picked c num suggested k pad peers rnd r r2 picks k')
  then show ?case using pick_allowed_ok [of k c num suggested pad peers rnd r r2] frame_bpp by fastforce
qed (auto simp: inc_refcount_all_def dec_refcount_all_def clear_peer_def dest: bpp_we_have bpp_released bpp_update_pieces)

lemma pk_reach_bpp: "pk_reach k \<Longrightarrow> bpp k < 32768"
proof (induction rule: pk_reach.induct)
  case (init blocks blocks_in_last n)
  then show ?case by (simp add: pk_init_def picker_ctor_def Let_def)
next
  case (step k k')
  then show ?case using pk_step_bpp pk_reach_inv by fastforce
qed

text \<open>
  C22: the counters of a download have 16 bits and a sign. They never overflow while a piece has less than
  \<open>2 ^ 15\<close> blocks: each is the number of blocks in its state, and together they are at most the blocks of the piece.
\<close>

theorem counters_in_range:
  assumes "pk_reach k" "d \<in> set (pk_downloads k)"
  shows "0 \<le> dp_requested d \<and> 0 \<le> dp_writing d \<and> 0 \<le> dp_finished d \<and>
    dp_requested d + dp_writing d + dp_finished d \<le> int (blocks_in_piece (dp_index d) k) \<and>
    int (blocks_in_piece (dp_index d) k) \<le> sint (0x7FFF :: 16 word)"
proof -
  note k = pk_invD(2) [OF pk_reach_inv [OF assms(1)]]
  obtain i where i: "i < length (pk_downloads k)" "pk_downloads k ! i = d"
    using assms(2) by (auto simp: in_set_conv_nth)
  let ?n = "blocks_in_piece (dp_index d) k"
  let ?bs = "take ?n (snd (view k ! i))"
  have "entry_ok ?n (full (pk_map k ! dp_index d)) (d\<lparr>dp_info := 0\<rparr>, snd (view k ! i))"
    using view_entry(3) [OF k i(1)] i by (simp add: view_nth)
  then have c: "dp_requested d = in_state StateRequested ?bs" "dp_writing d = in_state StateWriting ?bs"
    "dp_finished d = in_state StateFinished ?bs"
    by (simp_all add: entry_ok_def Let_def)
  have "int (length ?bs) \<le> int ?n" by simp
  then have "dp_requested d + dp_writing d + dp_finished d \<le> int ?n"
    using states_total [of ?bs] c in_state_nonneg [of StateNone ?bs] by linarith
  moreover have "?n \<le> 32767"
    using blocks_in_piece_bounds(2) [OF k, of "dp_index d"] pk_reach_bpp [OF assms(1)] by linarith
  ultimately show ?thesis using c by (simp add: in_state_nonneg)
qed

lemma counters_in_range_witness:
  "dp_requested (hd (pk_downloads (asked 1))) + dp_writing (hd (pk_downloads (asked 1))) + dp_finished (hd (pk_downloads (asked 1)))
     \<le> int (blocks_in_piece (dp_index (hd (pk_downloads (asked 1)))) (asked 1))"
  using counters_in_range [OF missing_blockD(1) [OF asked_work(1)], of "hd (pk_downloads (asked 1))"] by (simp add: asked_def)

end
