(* ===== verification/PeerQueue.thy ===== *)
theory PeerQueue
  imports PickerClient TorrentFiles
begin

section \<open>libtorrent: the request queues of a peer over the piece picker\<close>

text \<open>
  \<^verbatim>\<open>request_a_block\<close> of policy.cpp and the members of \<^verbatim>\<open>peer_connection\<close> that work on the two queues of a peer:
  \<^verbatim>\<open>m_request_queue\<close>, the blocks it will be asked for, and \<^verbatim>\<open>m_download_queue\<close>, the blocks it has been asked for.
  A method works on the peer and the picker; what it only reads of the torrent and its settings is the record
  \<open>btorrent\<close>. \<open>None\<close> is a read or write outside a vector of the picker, a division by zero or an end of the fuel.
  Alerts, statistics and timers are left out, and of a message only what is requested or cancelled is kept. A
  random number is \<open>rnd\<close> at the list of the places that lead to the call.
\<close>

type_synonym rand = "nat list \<Rightarrow> nat"

definition at_site :: "nat \<Rightarrow> rand \<Rightarrow> rand" where
  "at_site n rnd = (\<lambda>s. rnd (n # s))"

record pending_block =
  pb_block :: piece_block
  pb_skipped :: nat
  pb_not_wanted :: bool
  pb_timed_out :: bool
  pb_busy :: bool

definition pending :: "piece_block \<Rightarrow> pending_block" where
  "pending b = \<lparr>pb_block = b, pb_skipped = 0, pb_not_wanted = False, pb_timed_out = False, pb_busy = False\<rparr>"

definition has_block :: "piece_block \<Rightarrow> pending_block \<Rightarrow> bool" where
  "has_block b q \<longleftrightarrow> pb_block q = b"

text \<open>An entry of the download queue that the picker still counts.\<close>

definition live :: "pending_block \<Rightarrow> bool" where
  "live q \<longleftrightarrow> \<not> pb_timed_out q \<and> \<not> pb_not_wanted q"

text \<open>\<^verbatim>\<open>std::find_if\<close>: the position of the first element, or the length.\<close>

definition find_if :: "('a \<Rightarrow> bool) \<Rightarrow> 'a list \<Rightarrow> nat" where
  "find_if f xs = length (takeWhile (\<lambda>x. \<not> f x) xs)"

datatype message = SendRequest peer_request | SendCancel peer_request

datatype torrent_state =
  QueuedForChecking | CheckingFiles | DownloadingMetadata | Downloading | Finished | Seeding | Allocating | CheckingResumeData

record btorrent =
  bt_files :: file_storage
  bt_block_size :: int
  bt_state :: torrent_state
  bt_metadata :: bool
  bt_checked :: bool
  bt_upload_mode :: bool
  bt_graceful :: bool
  bt_sequential :: bool
  bt_deleted :: bool
  bt_critical :: "nat list"
  bt_rate :: int
  bt_pads :: nat
  bt_strict_endgame :: bool
  bt_partials :: bool
  bt_drop_skipped :: bool
  bt_whole_threshold :: int
  bt_initial_threshold :: int
  bt_queue_time :: int
  bt_use_parole :: bool

record peer_conn =
  pe_info :: "nat option"
  pe_on_parole :: bool
  pe_trust :: int
  pe_hashfails :: int
  pe_requests :: "pending_block list"
  pe_downloads :: "pending_block list"
  pe_time_critical :: nat
  pe_desired :: int
  pe_max_out :: int
  pe_outstanding :: int
  pe_choked :: bool
  pe_interesting :: bool
  pe_snubbed :: bool
  pe_endgame :: bool
  pe_disconnecting :: bool
  pe_no_download :: bool
  pe_fast :: bool
  pe_large :: bool
  pe_bits :: "bool list"
  pe_allowed_fast :: "nat list"
  pe_suggested :: "nat list"
  pe_speed :: piece_state
  pe_rate :: int
  pe_whole :: nat
  pe_receiving :: "piece_block option"
  pe_sent :: "message list"

subsection \<open>Small members\<close>

definition is_seed :: "btorrent \<Rightarrow> picker \<Rightarrow> bool" where
  "is_seed t k \<longleftrightarrow> bt_metadata t \<and> (bt_state t = Seeding \<or> pk_num_have k = int (length (pk_map k)))"

definition on_parole :: "peer_conn \<Rightarrow> bool" where
  "on_parole p \<longleftrightarrow> pe_info p \<noteq> None \<and> pe_on_parole p"

definition prefer_whole_pieces :: "peer_conn \<Rightarrow> nat" where
  "prefer_whole_pieces p = (if on_parole p then 1 else pe_whole p)"

definition desired_queue_size :: "peer_conn \<Rightarrow> int" where
  "desired_queue_size p = (if pe_endgame p then 1 else pe_desired p)"

text \<open>The desired size has eight bits.\<close>

definition update_desired_queue_size :: "btorrent \<Rightarrow> peer_conn \<Rightarrow> peer_conn" where
  "update_desired_queue_size t p =
     (if pe_snubbed p then p\<lparr>pe_desired := 1\<rparr>
      else
        (let q = ((bt_queue_time t * pe_rate p) sdiv bt_block_size t) mod 256;
             q1 = (if pe_max_out p < q then pe_max_out p mod 256 else q);
             q2 = (if q1 < 2 then 2 else q1)
         in p\<lparr>pe_desired := q2\<rparr>))"

definition peer_speed :: "btorrent \<Rightarrow> peer_conn \<Rightarrow> piece_state" where
  "peer_speed t p =
     (if 512 < pe_rate p \<and> bt_rate t sdiv 16 < pe_rate p then Fast
      else if 4096 < pe_rate p \<and> bt_rate t sdiv 64 < pe_rate p then Medium
      else if pe_rate p < bt_rate t sdiv 15 \<and> pe_speed p = Fast then Medium
      else Slow)"

text \<open>\<^verbatim>\<open>peer_speed\<close> keeps its answer.\<close>

definition update_speed :: "btorrent \<Rightarrow> peer_conn \<Rightarrow> peer_conn" where
  "update_speed t p = p\<lparr>pe_speed := peer_speed t p\<rparr>"

definition picker_options :: "btorrent \<Rightarrow> peer_conn \<Rightarrow> picker \<Rightarrow> bool list \<Rightarrow> nat \<Rightarrow> piece_state \<Rightarrow> pick_call" where
  "picker_options t p k bits whole speed =
     (let rare = \<not> bt_sequential t \<and> \<not> pk_num_have k < bt_initial_threshold t
      in \<lparr>pc_pieces = bits, pc_whole = whole, pc_peer = pe_info p, pc_speed = speed,
          pc_rarest_first = rare, pc_reverse = pe_snubbed p, pc_on_parole = on_parole p,
          pc_partials = (\<not> bt_sequential t \<and> \<not> rare \<or> bt_partials t \<or> on_parole p),
          pc_sequential = bt_sequential t, pc_affinity = rare, pc_ignore_whole = False,
          pc_critical = (bt_critical t \<noteq> [])\<rparr>)"

text \<open>\<^verbatim>\<open>torrent::to_req\<close>.\<close>

definition to_req :: "btorrent \<Rightarrow> piece_block \<Rightarrow> peer_request" where
  "to_req t b =
     (let offset = int (snd b) * bt_block_size t
      in \<lparr>pr_piece = int (fst b), pr_start = offset,
          pr_length = min (piece_size (bt_files t) (int (fst b)) - offset) (bt_block_size t)\<rparr>)"

definition verify_piece :: "btorrent \<Rightarrow> peer_request \<Rightarrow> bool" where
  "verify_piece t r \<longleftrightarrow>
     0 \<le> pr_piece r \<and> pr_piece r < m_num_pieces (bt_files t) \<and> 0 \<le> pr_start r \<and>
     pr_start r < m_piece_length (bt_files t) \<and>
     to_req t (nat (pr_piece r), nat (pr_start r sdiv bt_block_size t)) = r"

definition req_block :: "btorrent \<Rightarrow> peer_request \<Rightarrow> piece_block" where
  "req_block t r = (nat (pr_piece r), nat (pr_start r sdiv bt_block_size t))"

definition match_request :: "peer_request \<Rightarrow> int \<Rightarrow> piece_block \<Rightarrow> bool" where
  "match_request r block_size b \<longleftrightarrow>
     int (fst b) = pr_piece r \<and> int (snd b) = pr_start r sdiv block_size \<and> pr_start r smod block_size = 0"

subsection \<open>Requests go into the queue\<close>

definition add_request ::
    "nat \<Rightarrow> btorrent \<Rightarrow> piece_block \<Rightarrow> bool \<Rightarrow> bool \<Rightarrow> peer_conn \<Rightarrow> picker \<Rightarrow> (bool \<times> peer_conn \<times> picker) option" where
  "add_request random t b busy critical p k =
     (if bt_upload_mode t \<or> pe_disconnecting p then Some (False, p, k)
      else
        (let p1 = update_speed t p
         in if busy \<and> \<not> critical \<and> list_ex pb_busy (pe_downloads p @ pe_requests p) then Some (False, p1, k)
            else do {
              (marked, k1) \<leftarrow> mark_as_downloading random (fst b) (snd b) (pe_info p) (peer_speed t p) k;
              let q = (pending b)\<lparr>pb_busy := busy\<rparr>;
              Some (if \<not> marked then (False, p1, k1)
                    else if critical
                    then (True, p1\<lparr>pe_requests := insert_at (pe_time_critical p) q (pe_requests p),
                                   pe_time_critical := pe_time_critical p + 1\<rparr>, k1)
                    else (True, p1\<lparr>pe_requests := pe_requests p @ [q]\<rparr>, k1))
            }))"

definition make_time_critical :: "piece_block \<Rightarrow> peer_conn \<Rightarrow> bool \<times> peer_conn" where
  "make_time_critical b p =
     (let i = find_if (has_block b) (pe_requests p)
      in if i = length (pe_requests p) \<or> i < pe_time_critical p then (False, p)
         else (True, p\<lparr>pe_requests := insert_at (pe_time_critical p) (pe_requests p ! i) (erase_at i (pe_requests p)),
                       pe_time_critical := pe_time_critical p + 1\<rparr>))"

text \<open>The loop over the picked blocks: what is still wanted and the last busy block are its result.\<close>

fun request_picks ::
    "rand \<Rightarrow> btorrent \<Rightarrow> nat \<Rightarrow> bool \<Rightarrow> piece_block list \<Rightarrow> int \<Rightarrow> piece_block option \<Rightarrow> peer_conn \<Rightarrow> picker \<Rightarrow>
     (int \<times> piece_block option \<times> peer_conn \<times> picker) option" where
  "request_picks rnd t whole no_busy [] num busy p k = Some (num, busy, p, k)"
| "request_picks rnd t whole no_busy (b # bs) num busy p k =
     (if whole = 0 \<and> num \<le> 0 then Some (num, busy, p, k)
      else do {
        prio \<leftarrow> piece_priority (fst b) k;
        if bt_critical t \<noteq> [] \<and> prio \<noteq> 7 then Some (num, busy, p, k)
        else do {
          n \<leftarrow> num_peers (fst b) (snd b) k;
          if 0 < n then
            (if num \<le> 0 \<or> no_busy then Some (num, busy, p, k)
             else request_picks rnd t whole no_busy bs num (Some b) p k)
          else if list_ex (has_block b) (pe_downloads p @ pe_requests p)
          then request_picks rnd t whole no_busy bs num busy p k
          else do {
            (added, p1, k1) \<leftarrow> add_request (rnd [length bs]) t b False False p k;
            request_picks rnd t whole no_busy bs (if added then num - 1 else num) busy p1 k1
          }
        }
      })"

text \<open>The bits of the pieces the peer may be asked for.\<close>

definition request_bits :: "peer_conn \<Rightarrow> bool list" where
  "request_bits p =
     (if pe_choked p then map (\<lambda>x. x \<in> set (pe_allowed_fast p) \<and> pe_bits p ! x) [0..<length (pe_bits p)]
      else pe_bits p)"

definition request_a_block ::
    "rand \<Rightarrow> nat \<Rightarrow> btorrent \<Rightarrow> peer_conn \<Rightarrow> picker \<Rightarrow> (peer_conn \<times> picker) option" where
  "request_a_block rnd peers t p k =
     (if is_seed t k \<or> pe_no_download p \<or> bt_upload_mode t \<or> pe_disconnecting p \<or> \<not> bt_metadata t \<or> \<not> bt_checked t
      then Some (p, k)
      else
        (let critical = bt_critical t \<noteq> [];
             desired = (if critical then min 1 (desired_queue_size p) else desired_queue_size p);
             num = desired - int (length (pe_downloads p)) - int (length (pe_requests p))
         in if num \<le> 0 then Some (p, k)
            else do {
              let whole = (if prefer_whole_pieces p = 0 \<and> \<not> critical
                           then (if m_piece_length (bt_files t) < pe_rate p * bt_whole_threshold t then 1 else 0)
                           else prefer_whole_pieces p);
              let p1 = update_speed t p;
              (picks, k1) \<leftarrow> pick_pieces (picker_options t p1 k (request_bits p) whole (peer_speed t p)) (bt_pads t) peers
                 (pe_suggested p) (nat num) (\<lambda>i. rnd [0, i]) (rnd [1]) (rnd [2]) k;
              let no_busy = ((bt_strict_endgame t \<and>
                  int (length (pk_downloads k1)) < int (length (pk_map k1)) - pk_num_have k1 - pk_num_filtered k1 \<or>
                  pe_downloads p \<noteq> [] \<or> pe_requests p \<noteq> []) \<and> \<not> critical);
              (left, busy, p2, k2) \<leftarrow> request_picks (at_site 3 rnd) t whole no_busy picks num None p1 k1;
              if left \<le> 0 then Some (p2\<lparr>pe_endgame := False\<rparr>, k2)
              else
                let p3 = (if pe_choked p2 then p2 else p2\<lparr>pe_endgame := True\<rparr>)
                in case busy of
                     None \<Rightarrow> Some (p3, k2)
                   | Some b \<Rightarrow>
                       if pe_downloads p3 \<noteq> [] \<or> pe_requests p3 \<noteq> [] then Some (p3, k2)
                       else map_option snd (add_request (rnd [4]) t b True False p3 k2)
            }))"

subsection \<open>Requests leave the queues\<close>

fun abort_all :: "rand \<Rightarrow> nat option \<Rightarrow> pending_block list \<Rightarrow> picker \<Rightarrow> picker option" where
  "abort_all rnd peer [] k = Some k"
| "abort_all rnd peer (q # qs) k = do {
     k1 \<leftarrow> abort_download (rnd [length qs]) (fst (pb_block q)) (snd (pb_block q)) peer k;
     abort_all rnd peer qs k1
   }"

definition clear_request_queue :: "rand \<Rightarrow> btorrent \<Rightarrow> peer_conn \<Rightarrow> picker \<Rightarrow> (peer_conn \<times> picker) option" where
  "clear_request_queue rnd t p k =
     (if on_parole p then Some (p, k)
      else do {
        k1 \<leftarrow> (if is_seed t k then Some k else abort_all rnd (pe_info p) (pe_requests p) k);
        Some (p\<lparr>pe_requests := [], pe_time_critical := 0\<rparr>, k1)
      })"

text \<open>The part of \<^verbatim>\<open>disconnect\<close> that gives the requests back.\<close>

definition outstanding_after :: "btorrent \<Rightarrow> pending_block list \<Rightarrow> int \<Rightarrow> int" where
  "outstanding_after t qs n = foldl (\<lambda>m q. max 0 (m - pr_length (to_req t (pb_block q)))) n qs"

definition disconnect :: "rand \<Rightarrow> btorrent \<Rightarrow> peer_conn \<Rightarrow> picker \<Rightarrow> (peer_conn \<times> picker) option" where
  "disconnect rnd t p k =
     (if pe_disconnecting p then Some (p, k)
      else do {
        k1 \<leftarrow> abort_all (at_site 0 rnd) (pe_info p) (filter live (rev (pe_downloads p))) k;
        k2 \<leftarrow> abort_all (at_site 1 rnd) (pe_info p) (rev (pe_requests p)) k1;
        Some (p\<lparr>pe_downloads := [], pe_requests := [], pe_time_critical := 0, pe_disconnecting := True,
               pe_outstanding := outstanding_after t (rev (pe_downloads p)) (pe_outstanding p)\<rparr>, k2)
      })"

subsection \<open>Requests are sent\<close>

text \<open>The blocks of the piece that follow one another go into one large request.\<close>

fun merge_run :: "int \<Rightarrow> piece_block \<Rightarrow> pending_block list \<Rightarrow> pending_block list \<times> pending_block list" where
  "merge_run per_piece b [] = ([], [])"
| "merge_run per_piece b (q # qs) =
     (if int (fst (pb_block q)) * per_piece + int (snd (pb_block q)) \<noteq> int (fst b) * per_piece + int (snd b) + 1 then ([], q # qs)
      else let (run, rest) = merge_run per_piece (pb_block q) qs in (q # run, rest))"

lemma merge_run_append: "merge_run n b qs = (run, rest) \<Longrightarrow> qs = run @ rest"
  by (induction n b qs arbitrary: run rest rule: merge_run.induct) (auto split: if_splits prod.splits)

definition send_one :: "btorrent \<Rightarrow> pending_block list \<Rightarrow> peer_conn \<Rightarrow> peer_conn" where
  "send_one t qs p =
     (let bytes = sum_list (map (\<lambda>q. pr_length (to_req t (pb_block q))) qs)
      in p\<lparr>pe_downloads := pe_downloads p @ qs, pe_outstanding := pe_outstanding p + bytes,
           pe_time_critical := pe_time_critical p - length qs,
           pe_sent := pe_sent p @ [SendRequest ((to_req t (pb_block (hd qs)))\<lparr>pr_length := bytes\<rparr>)]\<rparr>)"

function send_requests :: "rand \<Rightarrow> btorrent \<Rightarrow> pending_block list \<Rightarrow> peer_conn \<Rightarrow> picker \<Rightarrow> (peer_conn \<times> picker) option" where
  "send_requests rnd t [] p k = Some (p\<lparr>pe_requests := []\<rparr>, k)"
| "send_requests rnd t (q # qs) p k =
     (if pe_desired p \<le> int (length (pe_downloads p)) \<and> pe_time_critical p = 0 then Some (p\<lparr>pe_requests := q # qs\<rparr>, k)
      else do {
        fin \<leftarrow> is_finished (fst (pb_block q)) (snd (pb_block q)) k;
        dl \<leftarrow> is_downloaded (fst (pb_block q)) (snd (pb_block q)) k;
        if fin \<or> dl then do {
          k1 \<leftarrow> abort_download (rnd [length qs]) (fst (pb_block q)) (snd (pb_block q)) (pe_info p) k;
          send_requests rnd t qs (p\<lparr>pe_time_critical := pe_time_critical p - 1\<rparr>) k1
        } else
          let (run, rest) = (if pe_large p then merge_run (m_piece_length (bt_files t) sdiv bt_block_size t) (pb_block q) qs
                             else ([], qs))
          in send_requests rnd t rest (send_one t (q # run) p) k
      })"
  by pat_completeness auto
termination
proof (relation "measure (\<lambda>(rnd, t, qs, p, k). length qs)", goal_cases)
  case (3 rnd t q qs p k fin dl pr run rest)
  then consider "rest = qs" | n where "merge_run n (pb_block q) qs = (run, rest)" by (auto split: if_splits)
  then have "length rest \<le> length qs" by cases (auto dest: merge_run_append)
  then show ?case by simp
qed simp_all

definition send_block_requests :: "rand \<Rightarrow> btorrent \<Rightarrow> peer_conn \<Rightarrow> picker \<Rightarrow> (peer_conn \<times> picker) option" where
  "send_block_requests rnd t p k =
     (if pe_disconnecting p then Some (p, k)
      else if bt_graceful t \<and> pe_outstanding p = 0 then disconnect (at_site 0 rnd) t p k
      else if bt_state t \<in> {CheckingFiles, CheckingResumeData, DownloadingMetadata, Allocating} then Some (p, k)
      else if pe_desired p \<le> int (length (pe_downloads p)) \<or> bt_upload_mode t then Some (p, k)
      else send_requests (at_site 1 rnd) t (pe_requests p) p k)"

definition request_and_send :: "rand \<Rightarrow> nat \<Rightarrow> btorrent \<Rightarrow> peer_conn \<Rightarrow> picker \<Rightarrow> (peer_conn \<times> picker) option" where
  "request_and_send rnd peers t p k = do {
     (p1, k1) \<leftarrow> request_a_block (at_site 0 rnd) peers t p k;
     send_block_requests (at_site 1 rnd) t p1 k1
   }"

end
