(* ===== verification/PeerEvents.thy ===== *)
theory PeerEvents
  imports PeerQueue
begin

section \<open>libtorrent: what happens to the requests of a peer\<close>

text \<open>
  The handlers of \<^verbatim>\<open>peer_connection\<close> that change the two queues: the messages choke, unchoke, reject and piece,
  the time-out of a peer and the cancelling of requests. A handler returns at once where the source does; after
  \<^verbatim>\<open>disconnect\<close> a peer has no torrent. The methods of the torrent that go over all its peers, \<^verbatim>\<open>cancel_block\<close>,
  \<^verbatim>\<open>cancel_non_critical\<close>, \<^verbatim>\<open>piece_finished\<close> and \<^verbatim>\<open>restore_piece_state\<close>, work on the record \<open>swarm\<close>.
\<close>

subsection \<open>Messages of the peer\<close>

definition remove_piece :: "int \<Rightarrow> nat list \<Rightarrow> nat list" where
  "remove_piece x xs = (if 0 \<le> x then remove1 (nat x) xs else xs)"

text \<open>The request that is rejected leaves the download queue. A peer on parole is to get it again.\<close>

definition reject_entry ::
    "rand \<Rightarrow> btorrent \<Rightarrow> peer_request \<Rightarrow> peer_conn \<Rightarrow> picker \<Rightarrow> (peer_conn \<times> picker) option" where
  "reject_entry rnd t r p k =
     (let i = find_if (\<lambda>q. match_request r (bt_block_size t) (pb_block q)) (pe_downloads p)
      in if i = length (pe_downloads p) then Some (p, k)
         else
           (let q = pe_downloads p ! i;
                p0 = p\<lparr>pe_downloads := erase_at i (pe_downloads p), pe_outstanding := max 0 (pe_outstanding p - pr_length r)\<rparr>
            in if on_parole p then Some (if live q then p0\<lparr>pe_requests := q # pe_requests p\<rparr> else p0, k)
               else if \<not> is_seed t k \<and> live q
               then map_option (Pair p0) (abort_download (rnd [0]) (fst (pb_block q)) (snd (pb_block q)) (pe_info p) k)
               else Some (p0, k)))"

definition incoming_reject_request ::
    "rand \<Rightarrow> nat \<Rightarrow> btorrent \<Rightarrow> peer_request \<Rightarrow> peer_conn \<Rightarrow> picker \<Rightarrow> (peer_conn \<times> picker) option" where
  "incoming_reject_request rnd peers t r p k =
     (if pe_disconnecting p then Some (p, k)
      else do {
        (p1, k1) \<leftarrow> reject_entry rnd t r p k;
        let p2 = (if pe_choked p1 then p1\<lparr>pe_allowed_fast := remove_piece (pr_piece r) (pe_allowed_fast p1)\<rparr>
                  else p1\<lparr>pe_suggested := remove_piece (pr_piece r) (pe_suggested p1)\<rparr>);
        if pe_requests p2 = [] \<and> length (pe_downloads p2) < 2 then request_and_send (at_site 1 rnd) peers t p2 k1
        else Some (p2, k1)
      })"

definition incoming_choke :: "rand \<Rightarrow> btorrent \<Rightarrow> peer_conn \<Rightarrow> picker \<Rightarrow> (peer_conn \<times> picker) option" where
  "incoming_choke rnd t p k =
     (if pe_disconnecting p then Some (p, k)
      else clear_request_queue rnd t (p\<lparr>pe_choked := True, pe_endgame := False\<rparr>) k)"

text \<open>
  \<^verbatim>\<open>bt_peer_connection::on_choke\<close>: a peer without the fast extension rejects all it was asked for. The loop runs
  while the download queue is not empty; its fuel is the length of the queue.
\<close>

definition rejected :: "btorrent \<Rightarrow> piece_block \<Rightarrow> peer_request" where
  "rejected t b =
     (let start = int (snd b) * bt_block_size t
      in \<lparr>pr_piece = int (fst b), pr_start = start,
          pr_length = (if int (fst b) = m_num_pieces (bt_files t) - 1
                       then min (piece_size (bt_files t) (int (fst b)) - start) (bt_block_size t) else bt_block_size t)\<rparr>)"

fun reject_all :: "nat \<Rightarrow> rand \<Rightarrow> nat \<Rightarrow> btorrent \<Rightarrow> peer_conn \<Rightarrow> picker \<Rightarrow> (peer_conn \<times> picker) option" where
  "reject_all n rnd peers t p k =
     (if pe_downloads p = [] then Some (p, k)
      else if n = 0 then None
      else do {
        (p1, k1) \<leftarrow> incoming_reject_request (at_site n rnd) peers t (rejected t (pb_block (hd (pe_downloads p)))) p k;
        reject_all (n - 1) rnd peers t p1 k1
      })"

declare reject_all.simps [simp del]

definition on_choke :: "rand \<Rightarrow> nat \<Rightarrow> btorrent \<Rightarrow> peer_conn \<Rightarrow> picker \<Rightarrow> (peer_conn \<times> picker) option" where
  "on_choke rnd peers t p k = do {
     (p1, k1) \<leftarrow> incoming_choke (at_site 0 rnd) t p k;
     if pe_disconnecting p1 \<or> pe_fast p1 then Some (p1, k1)
     else reject_all (length (pe_downloads p1)) (at_site 1 rnd) peers t p1 k1
   }"

definition incoming_unchoke :: "rand \<Rightarrow> nat \<Rightarrow> btorrent \<Rightarrow> peer_conn \<Rightarrow> picker \<Rightarrow> (peer_conn \<times> picker) option" where
  "incoming_unchoke rnd peers t p k =
     (let p1 = p\<lparr>pe_choked := False\<rparr>
      in if pe_disconnecting p \<or> \<not> pe_interesting p then Some (p1, k) else request_and_send rnd peers t p1 k)"

text \<open>\<^verbatim>\<open>policy::peer_is_interesting\<close>, after the handshake.\<close>

definition peer_is_interesting :: "rand \<Rightarrow> nat \<Rightarrow> btorrent \<Rightarrow> peer_conn \<Rightarrow> picker \<Rightarrow> (peer_conn \<times> picker) option" where
  "peer_is_interesting rnd peers t p k =
     (let p1 = p\<lparr>pe_interesting := True\<rparr>
      in if pe_choked p \<and> pe_allowed_fast p = [] then Some (p1, k) else request_and_send rnd peers t p1 k)"

text \<open>The retry of \<^verbatim>\<open>second_tick\<close> in end-game mode, five seconds after the last request.\<close>

definition endgame_tick :: "rand \<Rightarrow> nat \<Rightarrow> btorrent \<Rightarrow> peer_conn \<Rightarrow> picker \<Rightarrow> (peer_conn \<times> picker) option" where
  "endgame_tick rnd peers t p k =
     (if pe_endgame p \<and> pe_interesting p \<and> pe_downloads p = [] \<and> pe_requests p = [] then request_and_send rnd peers t p k
      else Some (p, k))"

definition start_receive_piece :: "rand \<Rightarrow> btorrent \<Rightarrow> peer_request \<Rightarrow> peer_conn \<Rightarrow> picker \<Rightarrow> (peer_conn \<times> picker) option" where
  "start_receive_piece rnd t r p k =
     (if \<not> verify_piece t r then disconnect rnd t p k
      else
        (let b = req_block t r; p1 = p\<lparr>pe_receiving := Some b\<rparr>
         in if list_ex (has_block b) (pe_downloads p) \<or> pe_disconnecting p then Some (p1, k)
            else
              (let i = find_if (has_block b) (pe_requests p);
                   queued = i < length (pe_requests p);
                   p2 = (if queued
                         then p1\<lparr>pe_time_critical := pe_time_critical p - (if i < pe_time_critical p then 1 else 0),
                                 pe_requests := erase_at i (pe_requests p)\<rparr>
                         else p1)
               in Some (p2\<lparr>pe_downloads := (pending b)\<lparr>pb_not_wanted := \<not> queued\<rparr> # pe_downloads p,
                           pe_outstanding := pe_outstanding p + pr_length r\<rparr>, k))))"

text \<open>The requests before the block that came: they were skipped, and one skipped too often is dropped.\<close>

fun skip_requests ::
    "rand \<Rightarrow> btorrent \<Rightarrow> peer_conn \<Rightarrow> pending_block list \<Rightarrow> int \<Rightarrow> picker \<Rightarrow> (pending_block list \<times> int \<times> picker) option" where
  "skip_requests rnd t p [] bytes k = Some ([], bytes, k)"
| "skip_requests rnd t p (q # qs) bytes k =
     (let q1 = q\<lparr>pb_skipped := (pb_skipped q + 1) mod 8192\<rparr>
      in if bt_drop_skipped t \<and> pe_desired p * 2 < int (pb_skipped q1) then do {
           k1 \<leftarrow> (if live q then abort_download (rnd [length qs]) (fst (pb_block q)) (snd (pb_block q)) (pe_info p) k else Some k);
           skip_requests rnd t p qs (max 0 (bytes - pr_length (to_req t (pb_block q)))) k1
         } else do {
           (kept, bytes1, k1) \<leftarrow> skip_requests rnd t p qs bytes k;
           Some (q1 # kept, bytes1, k1)
         })"

subsection \<open>A peer that does not send\<close>

definition snub_peer :: "rand \<Rightarrow> nat \<Rightarrow> btorrent \<Rightarrow> peer_conn \<Rightarrow> picker \<Rightarrow> (peer_conn \<times> picker) option" where
  "snub_peer rnd peers t p k =
     (let p0 = p\<lparr>pe_snubbed := True, pe_desired := 1\<rparr>
      in if on_parole p then Some (p0, k)
         else do {
           k1 \<leftarrow> abort_all (at_site 0 rnd) (pe_info p) (rev (pe_requests p)) k;
           (p2, k2) \<leftarrow> request_a_block (at_site 1 rnd) peers t (p0\<lparr>pe_requests := [], pe_time_critical := 0, pe_desired := 2\<rparr>) k1;
           let p3 = p2\<lparr>pe_desired := 1\<rparr>;
           let last = find_if live (rev (pe_downloads p3));
           if last = length (pe_downloads p3) then send_block_requests (at_site 2 rnd) t p3 k2
           else do {
             let i = length (pe_downloads p3) - 1 - last;
             let q = pe_downloads p3 ! i;
             d \<leftarrow> piece_info (fst (pb_block q)) \<lparr>dp_info = 0, dp_index = 0, dp_finished = 0, dp_writing = 0, dp_requested = 0, dp_state = NoSpeed\<rparr> k2;
             if 0 < int (blocks_in_piece (fst (pb_block q)) k2) - dp_finished d - dp_writing d - dp_requested d then Some (p3, k2)
             else do {
               k3 \<leftarrow> abort_download (rnd [3]) (fst (pb_block q)) (snd (pb_block q)) (pe_info p) k2;
               send_block_requests (at_site 4 rnd) t
                 (p3\<lparr>pe_downloads := (pe_downloads p3)[i := q\<lparr>pb_timed_out := True\<rparr>]\<rparr>) k3
             }
           }
         })"

subsection \<open>Cancelling\<close>

text \<open>\<^verbatim>\<open>bt_peer_connection::write_cancel\<close>: without the fast extension the peer sends no reject.\<close>

definition write_cancel ::
    "rand \<Rightarrow> nat \<Rightarrow> btorrent \<Rightarrow> peer_request \<Rightarrow> peer_conn \<Rightarrow> picker \<Rightarrow> (peer_conn \<times> picker) option" where
  "write_cancel rnd peers t r p k =
     (let p1 = p\<lparr>pe_sent := pe_sent p @ [SendCancel r]\<rparr>
      in if pe_fast p then Some (p1, k) else incoming_reject_request rnd peers t r p1 k)"

fun write_cancels ::
    "rand \<Rightarrow> nat \<Rightarrow> btorrent \<Rightarrow> pending_block list \<Rightarrow> peer_conn \<Rightarrow> picker \<Rightarrow> (peer_conn \<times> picker) option" where
  "write_cancels rnd peers t [] p k = Some (p, k)"
| "write_cancels rnd peers t (q # qs) p k =
     (if pe_receiving p = Some (pb_block q) then write_cancels rnd peers t qs p k
      else do {
        (p1, k1) \<leftarrow> write_cancel (at_site (length qs) rnd) peers t (to_req t (pb_block q)) p k;
        write_cancels rnd peers t qs p1 k1
      })"

definition cancel_all_requests :: "rand \<Rightarrow> nat \<Rightarrow> btorrent \<Rightarrow> peer_conn \<Rightarrow> picker \<Rightarrow> (peer_conn \<times> picker) option" where
  "cancel_all_requests rnd peers t p k =
     (if pe_disconnecting p then Some (p, k)
      else do {
        k1 \<leftarrow> abort_all (at_site 0 rnd) (pe_info p) (rev (pe_requests p)) k;
        write_cancels (at_site 1 rnd) peers t (pe_downloads p) (p\<lparr>pe_requests := [], pe_time_critical := 0\<rparr>) k1
      })"

definition cancel_request ::
    "rand \<Rightarrow> nat \<Rightarrow> btorrent \<Rightarrow> piece_block \<Rightarrow> bool \<Rightarrow> peer_conn \<Rightarrow> picker \<Rightarrow> (peer_conn \<times> picker) option" where
  "cancel_request rnd peers t b force p k =
     (if pe_disconnecting p then Some (p, k)
      else do {
        asked \<leftarrow> is_requested (fst b) (snd b) k;
        if \<not> asked then Some (p, k)
        else
          let i = find_if (has_block b) (pe_downloads p); l = find_if (has_block b) (pe_requests p)
          in if i = length (pe_downloads p) then
               if l = length (pe_requests p) then Some (p, k)
               else do {
                 k1 \<leftarrow> abort_download (rnd [0]) (fst b) (snd b) (pe_info p) k;
                 Some (p\<lparr>pe_time_critical := pe_time_critical p - (if l < pe_time_critical p then 1 else 0),
                        pe_requests := erase_at l (pe_requests p)\<rparr>, k1)
               }
             else do {
               let p1 = p\<lparr>pe_downloads := (pe_downloads p)[i := (pe_downloads p ! i)\<lparr>pb_not_wanted := True\<rparr>]\<rparr>;
               k1 \<leftarrow> (if force then abort_download (rnd [0]) (fst b) (snd b) (pe_info p) k else Some k);
               if pe_outstanding p < pr_length (to_req t b) then Some (p1, k1)
               else write_cancel (at_site 1 rnd) peers t (to_req t b) p1 k1
             }
      })"

text \<open>One peer in \<^verbatim>\<open>cancel_non_critical\<close>: its queues are copied, the second after the first has been worked off.\<close>

fun cancel_each ::
    "rand \<Rightarrow> nat \<Rightarrow> btorrent \<Rightarrow> pending_block list \<Rightarrow> peer_conn \<Rightarrow> picker \<Rightarrow> (peer_conn \<times> picker) option" where
  "cancel_each rnd peers t [] p k = Some (p, k)"
| "cancel_each rnd peers t (q # qs) p k =
     (if fst (pb_block q) \<in> set (bt_critical t) then cancel_each rnd peers t qs p k
      else do {
        (p1, k1) \<leftarrow> cancel_request (at_site (length qs) rnd) peers t (pb_block q) True p k;
        cancel_each rnd peers t qs p1 k1
      })"

definition cancel_queues :: "rand \<Rightarrow> nat \<Rightarrow> btorrent \<Rightarrow> peer_conn \<Rightarrow> picker \<Rightarrow> (peer_conn \<times> picker) option" where
  "cancel_queues rnd peers t p k = do {
     (p1, k1) \<leftarrow> cancel_each (at_site 0 rnd) peers t (filter live (pe_downloads p)) p k;
     cancel_each (at_site 1 rnd) peers t (pe_requests p1) p1 k1
   }"

end
