(* ===== verification/PeerSwarm.thy ===== *)
theory PeerSwarm
  imports PeerEvents
begin

section \<open>libtorrent: the peers of a torrent\<close>

text \<open>
  The record \<open>swarm\<close> is a torrent with its connections and its picker. \<open>sw_checks\<close> are the pieces given to the
  disk thread for their hash. A peer that has disconnected stays in the list, with empty queues; it is none of the
  connections. The entry \<^verbatim>\<open>policy::peer\<close> of a connection (parole, trust, failed hashes) is part of the connection.
\<close>

record swarm =
  sw_torrent :: btorrent
  sw_peers :: "peer_conn list"
  sw_picker :: picker
  sw_checks :: "nat list"

definition connections :: "swarm \<Rightarrow> nat" where
  "connections s = length (filter (\<lambda>p. \<not> pe_disconnecting p) (sw_peers s))"

definition on_peer ::
    "nat \<Rightarrow> (nat \<Rightarrow> btorrent \<Rightarrow> peer_conn \<Rightarrow> picker \<Rightarrow> (peer_conn \<times> picker) option) \<Rightarrow> swarm \<Rightarrow> swarm option" where
  "on_peer i f s = do {
     p \<leftarrow> vec_at (sw_peers s) i;
     (p1, k1) \<leftarrow> f (connections s) (sw_torrent s) p (sw_picker s);
     Some (s\<lparr>sw_peers := (sw_peers s)[i := p1], sw_picker := k1\<rparr>)
   }"

definition each_peer :: "(nat \<Rightarrow> swarm \<Rightarrow> swarm option) \<Rightarrow> swarm \<Rightarrow> swarm option" where
  "each_peer f s = each_block f [0..<length (sw_peers s)] s"

subsection \<open>A block arrives\<close>

definition cancel_block :: "rand \<Rightarrow> piece_block \<Rightarrow> swarm \<Rightarrow> swarm option" where
  "cancel_block rnd b = each_peer (\<lambda>i. on_peer i (\<lambda>n t. cancel_request (at_site i rnd) n t b False))"

text \<open>
  \<^verbatim>\<open>incoming_piece\<close> up to the picker. The result is the peer and the picker, and whether the block is to be
  written, after which the handler goes on. \<open>quick\<close> says that the reply came within the time-out.
\<close>

datatype received = AskMore | Ignored | ToWrite

definition take_block ::
    "rand \<Rightarrow> bool \<Rightarrow> nat \<Rightarrow> btorrent \<Rightarrow> peer_request \<Rightarrow> peer_conn \<Rightarrow> picker \<Rightarrow> (received \<times> peer_conn \<times> picker) option" where
  "take_block rnd quick peers t r p k =
     (if pe_disconnecting p then Some (Ignored, p\<lparr>pe_receiving := None\<rparr>, k)
      else
        (let p1 = update_desired_queue_size t (p\<lparr>pe_receiving := None\<rparr>);
             b = req_block t r; n = find_if (has_block b) (pe_downloads p1)
         in if pr_length r = 0 then map_option (Pair Ignored) (incoming_reject_request (at_site 0 rnd) peers t r p1 k)
            else if is_seed t k then Some (Ignored, p1\<lparr>pe_downloads := drop 1 (pe_downloads p1)\<rparr>, k)
            else if n = length (pe_downloads p1)
            then Some (Ignored, p1\<lparr>pe_outstanding := pe_outstanding p1 + pr_length r\<rparr>, k)
            else do {
              (kept, bytes, k1) \<leftarrow> skip_requests (at_site 1 rnd) t p1 (take n (pe_downloads p1)) (pe_outstanding p1) k;
              let p2 = p1\<lparr>pe_downloads := kept @ drop n (pe_downloads p1), pe_outstanding := bytes\<rparr>;
              let p3 = p2\<lparr>pe_downloads := kept @ drop (n + 1) (pe_downloads p1)\<rparr>;
              there \<leftarrow> is_downloaded (fst b) (snd b) k1;
              Some (if there then (AskMore, p3, k1)
                    else
                      let snub = pe_snubbed p2 \<and> \<not> quick
                      in if bt_deleted t then (Ignored, p2\<lparr>pe_snubbed := snub\<rparr>, k1)
                         else (ToWrite, p3\<lparr>pe_snubbed := snub\<rparr>, k1))
            }))"

definition incoming_piece :: "rand \<Rightarrow> bool \<Rightarrow> nat \<Rightarrow> peer_request \<Rightarrow> swarm \<Rightarrow> swarm option" where
  "incoming_piece rnd quick i r s = do {
     p \<leftarrow> vec_at (sw_peers s) i;
     (what, p1, k1) \<leftarrow> take_block (at_site 0 rnd) quick (connections s) (sw_torrent s) r p (sw_picker s);
     let s1 = s\<lparr>sw_peers := (sw_peers s)[i := p1], sw_picker := k1\<rparr>;
     let b = req_block (sw_torrent s) r;
     case what of
       Ignored \<Rightarrow> Some s1
     | AskMore \<Rightarrow> on_peer i (request_and_send (at_site 1 rnd)) s1
     | ToWrite \<Rightarrow> do {
         was_finished \<leftarrow> is_piece_finished (fst b) k1;
         asked \<leftarrow> num_peers (fst b) (snd b) k1;
         (_, k2) \<leftarrow> mark_as_writing (rnd [2]) (fst b) (snd b) (pe_info p) k1;
         let s2 = s1\<lparr>sw_picker := k2\<rparr>;
         s3 \<leftarrow> (if 1 < asked then cancel_block (at_site 3 rnd) b s2 else Some s2);
         now_finished \<leftarrow> is_piece_finished (fst b) (sw_picker s3);
         let s4 = (if now_finished \<and> \<not> was_finished then s3\<lparr>sw_checks := sw_checks s3 @ [fst b]\<rparr> else s3);
         on_peer i (request_and_send (at_site 4 rnd)) s4
       }
   }"

text \<open>\<^verbatim>\<open>on_disk_write_complete\<close>, when the block has been written and when it has not.\<close>

definition write_complete :: "rand \<Rightarrow> nat \<Rightarrow> piece_block \<Rightarrow> swarm \<Rightarrow> swarm option" where
  "write_complete rnd i b s = do {
     p \<leftarrow> vec_at (sw_peers s) i;
     k1 \<leftarrow> mark_as_finished (rnd []) (fst b) (snd b) (pe_info p) (sw_picker s);
     Some (s\<lparr>sw_picker := k1\<rparr>)
   }"

definition write_no_memory :: "rand \<Rightarrow> nat \<Rightarrow> piece_block \<Rightarrow> swarm \<Rightarrow> swarm option" where
  "write_no_memory rnd i b s = do {
     k1 \<leftarrow> write_failed (rnd []) (fst b) (snd b) (sw_picker s);
     on_peer i (\<lambda>_. disconnect (at_site 0 rnd)) (s\<lparr>sw_picker := k1\<rparr>)
   }"

definition set_upload_mode :: "rand \<Rightarrow> bool \<Rightarrow> swarm \<Rightarrow> swarm option" where
  "set_upload_mode rnd on s =
     (if on = bt_upload_mode (sw_torrent s) then Some s
      else
        (let s1 = s\<lparr>sw_torrent := (sw_torrent s)\<lparr>bt_upload_mode := on\<rparr>\<rparr>
         in if on then each_peer (\<lambda>i. on_peer i (cancel_all_requests (at_site i rnd))) s1
            else each_peer (\<lambda>i. on_peer i (\<lambda>_. send_block_requests (at_site i rnd))) s1))"

text \<open>
  \<^verbatim>\<open>pause\<close> closes all connections; the torrent stops without waiting for what is outstanding. (A torrent that is
  paused already has no connection that is open.) \<open>DiskFull\<close> stands for the five errors after which the torrent only
  uploads, \<open>DiskBroken\<close> for all others but the lack of memory.
\<close>

definition disconnect_all :: "rand \<Rightarrow> swarm \<Rightarrow> swarm option" where
  "disconnect_all rnd = each_peer (\<lambda>i. on_peer i (\<lambda>_. disconnect (at_site i rnd)))"

datatype disk_error = NoMemory | DiskFull | DiskBroken

definition handle_disk_error :: "rand \<Rightarrow> disk_error \<Rightarrow> nat \<Rightarrow> piece_block \<Rightarrow> swarm \<Rightarrow> swarm option" where
  "handle_disk_error rnd e i b s =
     (if e = NoMemory then write_no_memory rnd i b s
      else do {
        k1 \<leftarrow> write_failed (rnd []) (fst b) (snd b) (sw_picker s);
        let s1 = s\<lparr>sw_picker := k1\<rparr>;
        if e = DiskFull then set_upload_mode (at_site 0 rnd) True s1
        else disconnect_all (at_site 0 rnd) (s1\<lparr>sw_torrent := (sw_torrent s1)\<lparr>bt_graceful := False\<rparr>\<rparr>)
      })"

definition cancel_non_critical :: "rand \<Rightarrow> swarm \<Rightarrow> swarm option" where
  "cancel_non_critical rnd = each_peer (\<lambda>i. on_peer i (cancel_queues (at_site i rnd)))"

subsection \<open>The hash of a piece has been checked\<close>

text \<open>The points of trust have four bits and a sign.\<close>

definition trust_store :: "int \<Rightarrow> int" where
  "trust_store n = (n + 8) mod 16 - 8"

definition trust_more :: "peer_conn \<Rightarrow> peer_conn" where
  "trust_more p =
     (let n = pe_trust p + 1 in p\<lparr>pe_on_parole := False, pe_trust := trust_store (if 8 < n then 8 else n)\<rparr>)"

definition trust_less :: "bool \<Rightarrow> peer_conn \<Rightarrow> peer_conn" where
  "trust_less use_parole p =
     (let n = pe_trust p - 2
      in p\<lparr>pe_on_parole := (use_parole \<or> pe_on_parole p), pe_trust := trust_store (if n < -7 then -7 else n),
           pe_hashfails := min 255 (pe_hashfails p + 1)\<rparr>)"

definition took_part :: "nat option list \<Rightarrow> peer_conn \<Rightarrow> bool" where
  "took_part downloaders p \<longleftrightarrow> pe_info p \<noteq> None \<and> pe_info p \<in> set downloaders"

definition piece_passed :: "nat \<Rightarrow> swarm \<Rightarrow> swarm option" where
  "piece_passed x s = do {
     ds \<leftarrow> get_downloaders x (sw_picker s);
     k1 \<leftarrow> we_have x (sw_picker s);
     Some (s\<lparr>sw_torrent := (sw_torrent s)\<lparr>bt_critical := remove1 x (bt_critical (sw_torrent s))\<rparr>,
            sw_peers := map (\<lambda>p. if took_part ds p then trust_more p else p) (sw_peers s), sw_picker := k1\<rparr>)
   }"

definition blame :: "rand \<Rightarrow> nat option list \<Rightarrow> nat \<Rightarrow> btorrent \<Rightarrow> peer_conn \<Rightarrow> picker \<Rightarrow> (peer_conn \<times> picker) option" where
  "blame rnd ds peers t p k =
     (if took_part ds p then
        (let p1 = trust_less (bt_use_parole t) p
         in if pe_trust p1 \<le> -7 \<or> length (remdups ds) = 1 then disconnect rnd t p1 k else Some (p1, k))
      else Some (p, k))"

fun mark_queue :: "rand \<Rightarrow> nat \<Rightarrow> btorrent \<Rightarrow> pending_block list \<Rightarrow> peer_conn \<Rightarrow> picker \<Rightarrow> (peer_conn \<times> picker) option" where
  "mark_queue rnd x t [] p k = Some (p, k)"
| "mark_queue rnd x t (q # qs) p k =
     (if fst (pb_block q) \<noteq> x then mark_queue rnd x t qs p k
      else do {
        (_, k1) \<leftarrow> mark_as_downloading (rnd [length qs]) (fst (pb_block q)) (snd (pb_block q)) (pe_info p) (peer_speed t p) k;
        mark_queue rnd x t qs (update_speed t p) k1
      })"

definition restore_piece_state :: "rand \<Rightarrow> nat \<Rightarrow> swarm \<Rightarrow> swarm option" where
  "restore_piece_state rnd x = each_peer (\<lambda>i. on_peer i (\<lambda>_ t p k. do {
     (p1, k1) \<leftarrow> mark_queue (at_site i (at_site 0 rnd)) x t (filter live (pe_downloads p)) p k;
     mark_queue (at_site i (at_site 1 rnd)) x t (pe_requests p) p1 k1
   }))"

definition restore_requests :: "rand \<Rightarrow> nat \<Rightarrow> swarm \<Rightarrow> swarm option" where
  "restore_requests rnd x s = do {
     k1 \<leftarrow> restore_piece (rnd []) x (sw_picker s);
     restore_piece_state (at_site 0 rnd) x (s\<lparr>sw_picker := k1\<rparr>)
   }"

definition piece_failed :: "rand \<Rightarrow> nat \<Rightarrow> swarm \<Rightarrow> swarm option" where
  "piece_failed rnd x s = do {
     ds \<leftarrow> get_downloaders x (sw_picker s);
     s1 \<leftarrow> each_peer (\<lambda>i. on_peer i (blame (at_site i (at_site 0 rnd)) ds)) s;
     restore_requests (at_site 1 rnd) x s1
   }"

definition piece_finished :: "rand \<Rightarrow> nat \<Rightarrow> int \<Rightarrow> swarm \<Rightarrow> swarm option" where
  "piece_finished rnd x result s =
     (if is_seed (sw_torrent s) (sw_picker s) then Some s
      else do {
        fin \<leftarrow> is_piece_finished x (sw_picker s);
        if \<not> fin then Some s
        else if result = 0 then piece_passed x s
        else if result = -2 then piece_failed rnd x s
        else restore_requests rnd x s
      })"

subsection \<open>The check of the debug build\<close>

text \<open>The part of \<^verbatim>\<open>torrent::check_invariant\<close> that compares the requests of the peers with the picker.\<close>

definition num_requests :: "swarm \<Rightarrow> piece_block \<Rightarrow> nat" where
  "num_requests s b = sum_list (map (\<lambda>p. count_list (map pb_block (pe_requests p @ filter live (pe_downloads p))) b)
     (filter (\<lambda>p. \<not> pe_disconnecting p) (sw_peers s)))"

definition requested_blocks :: "swarm \<Rightarrow> piece_block list" where
  "requested_blocks s = concat (map (\<lambda>p. map pb_block (pe_requests p @ filter live (pe_downloads p)))
     (filter (\<lambda>p. \<not> pe_disconnecting p) (sw_peers s)))"

definition check_requests :: "swarm \<Rightarrow> bool" where
  "check_requests s \<longleftrightarrow> list_all (\<lambda>b.
     is_downloaded (fst b) (snd b) (sw_picker s) = Some False \<and> downloading (pk_map (sw_picker s) ! fst b) \<longrightarrow>
     num_peers (fst b) (snd b) (sw_picker s) = Some (num_requests s b)) (requested_blocks s)"

end
