(* ===== verification/PeerCount.thy ===== *)
theory PeerCount
  imports PeerEvents
begin

section \<open>The picker counts the peers that are asked for a block\<close>

text \<open>
  \<open>counted lossy k f\<close> says that the picker counts \<open>f b\<close> peers for every block \<open>b\<close> that we still want and that is
  not being written; after a write that failed for lack of memory, \<open>lossy\<close>, at most \<open>f b\<close>. \<open>request_book\<close> is the interface of the picker to the queues of a peer: a request is marked and is
  given back, one at a time, and the count follows; a list of requests can then be given back. The picker is an
  instance.
\<close>

declare split_paired_All [simp del] split_paired_Ex [simp del]

definition valid_block :: "picker \<Rightarrow> piece_block \<Rightarrow> bool" where
  "valid_block k b \<longleftrightarrow> fst b < length (pk_map k) \<and> snd b < blocks_in_piece (fst b) k"

definition open_block :: "picker \<Rightarrow> piece_block \<Rightarrow> bool" where
  "open_block k b \<longleftrightarrow> valid_block k b \<and> \<not> pp_have (pk_map k ! fst b) \<and>
     state_at k (fst b) (snd b) \<noteq> StateWriting \<and> state_at k (fst b) (snd b) \<noteq> StateFinished"

definition agrees :: "bool \<Rightarrow> nat \<Rightarrow> nat \<Rightarrow> bool" where
  "agrees lossy m n \<longleftrightarrow> (if lossy then m \<le> n else m = n)"

lemma agrees_simps [simp]: "agrees False m n = (m = n)" "agrees lossy n n" "agrees lossy 0 n = (lossy \<or> n = 0)"
  by (auto simp: agrees_def)

lemma agrees_steps: "agrees lossy m n \<Longrightarrow> m \<le> n" "agrees lossy m n \<Longrightarrow> agrees lossy (m + 1) (n + 1)"
    "agrees lossy m n \<Longrightarrow> agrees lossy (m - 1) (n - 1)"
  by (auto simp: agrees_def split: if_splits)

definition counted :: "bool \<Rightarrow> picker \<Rightarrow> (piece_block \<Rightarrow> nat) \<Rightarrow> bool" where
  "counted lossy k f \<longleftrightarrow> pk_inv k \<and> (\<forall>b. open_block k b \<longrightarrow> agrees lossy (peers_at k (fst b) (snd b)) (f b))"

lemma countedD: "counted lossy k f \<Longrightarrow> pk_inv k" "counted lossy k f \<Longrightarrow> open_block k b \<Longrightarrow> agrees lossy (peers_at k (fst b) (snd b)) (f b)"
  by (simp_all add: counted_def)

lemma counted_less:
  assumes "counted lossy k f" "\<And>b. f b \<le> g b"
  shows "counted True k g"
proof -
  have "peers_at k (fst b) (snd b) \<le> g b" if "open_block k b" for b
    using agrees_steps(1) [OF countedD(2) [OF assms(1) that]] assms(2) [of b] by linarith
  then show ?thesis using countedD(1) [OF assms(1)] by (simp add: counted_def agrees_def)
qed

lemma frame_valid: "frame k k' \<Longrightarrow> valid_block k' b = valid_block k b"
  using frameD [of k k'] by (simp add: valid_block_def)

lemma frame_have: "frame k k' \<Longrightarrow> valid_block k b \<Longrightarrow> pp_have (pk_map k' ! fst b) = pp_have (pk_map k ! fst b)"
  using frameD [of k k'] by (simp add: valid_block_def)

lemma open_elsewhere:
  assumes "frame k k'" "state_at k' = (state_at k)(x := (state_at k x)(j := s))" "b \<noteq> (x, j)"
  shows "open_block k' b = open_block k b"
proof -
  have "state_at k' (fst b) (snd b) = state_at k (fst b) (snd b)"
    using assms(2,3) by (cases b) auto
  with frame_valid [OF assms(1), of b] frame_have [OF assms(1), of b] show ?thesis unfolding open_block_def by metis
qed

lemma open_same: "frame k k' \<Longrightarrow> state_at k' = state_at k \<Longrightarrow> open_block k' b = open_block k b"
  using frame_valid [of k k' b] frame_have [of k k' b] unfolding open_block_def by metis

lemma counted_same:
  assumes "counted lossy k f" "frame k k'" "pk_inv k'" "state_at k' = state_at k"
    "\<And>b. open_block k b \<Longrightarrow> peers_at k' (fst b) (snd b) = peers_at k (fst b) (snd b)"
  shows "counted lossy k' f"
  using assms open_same [OF assms(2,4)] by (simp add: counted_def)

lemma closed_no_peers:
  assumes "pk_inv k" "valid_block k b" "\<not> open_block k b" "\<not> pp_have (pk_map k ! fst b)"
  shows "peers_at k (fst b) (snd b) = 0"
  using no_peers [OF assms(1), of "fst b" "snd b"] assms(2-4)
  by (auto simp: block_wanted_def valid_block_def open_block_def)

subsection \<open>The operations of the picker\<close>

lemma counted_request:
  assumes k: "counted lossy k f" and b: "valid_block k b" "\<not> pp_have (pk_map k ! fst b)" "f b < 16383" and st: "st \<noteq> NoSpeed"
  shows "\<exists>r k'. mark_as_downloading random (fst b) (snd b) peer st k = Some (r, k') \<and> frame k k' \<and>
    (r \<longleftrightarrow> open_block k b) \<and> counted lossy k' (if r then f(b := f b + 1) else f) \<and> open_block k' = open_block k"
proof -
  let ?x = "fst b" and ?j = "snd b"
  have bx: "?x < length (pk_map k)" "?j < blocks_in_piece ?x k" using b(1) by (simp_all add: valid_block_def)
  have "peers_at k ?x ?j < 16383"
    using agrees_steps(1) [OF countedD(2) [OF k], of b] closed_no_peers [OF countedD(1) [OF k] b(1) _ b(2)] b(3)
    by (cases "open_block k b") simp_all
  from mark_as_downloading_peers [OF countedD(1) [OF k] bx(1) b(2) bx(2) st this, of random peer]
  obtain r k' where m: "mark_as_downloading random ?x ?j peer st k = Some (r, k')" "pk_inv k'" "frame k k'"
    "r \<longleftrightarrow> state_at k ?x ?j \<noteq> StateWriting \<and> state_at k ?x ?j \<noteq> StateFinished"
    "state_at k' = (if r then (state_at k)(?x := (state_at k ?x)(?j := StateRequested)) else state_at k)"
    "peers_at k' = (if r then (peers_at k)(?x := (peers_at k ?x)(?j := peers_at k ?x ?j + 1)) else peers_at k)" by blast
  have o: "r \<longleftrightarrow> open_block k b" using m(4) b by (simp add: open_block_def)
  have "counted lossy k' (if r then f(b := f b + 1) else f)"
  proof (cases r)
    case False
    with m(2,3,5,6) show ?thesis by (simp add: counted_same [OF k])
  next
    case True
    have "agrees lossy (peers_at k' (fst c) (snd c)) ((f(b := f b + 1)) c)" if c: "open_block k' c" for c
    proof (cases "c = b")
      case True
      with m(6) \<open>r\<close> o agrees_steps(2) [OF countedD(2) [OF k]] show ?thesis by simp
    next
      case False
      then have "open_block k c" using open_elsewhere [OF m(3), of ?x ?j StateRequested c] m(5) \<open>r\<close> c by simp
      moreover have "peers_at k' (fst c) (snd c) = peers_at k (fst c) (snd c)"
        using m(6) \<open>r\<close> False by (cases c; cases b) auto
      ultimately show ?thesis using countedD(2) [OF k] False by simp
    qed
    with m(2) True show ?thesis by (simp add: counted_def)
  qed
  moreover have "open_block k' = open_block k"
  proof
    fix c
    show "open_block k' c = open_block k c"
    proof (cases "r \<and> c = b")
      case True
      then have "state_at k' ?x ?j = StateRequested" using m(5) by simp
      with True o frame_valid [OF m(3), of b] frame_have [OF m(3) b(1)] b show ?thesis by (simp add: open_block_def)
    next
      case False
      show ?thesis
      proof (cases r)
        case True
        with False m(5) open_elsewhere [OF m(3), of ?x ?j StateRequested c] show ?thesis by simp
      next
        case False
        with m(5) open_same [OF m(3), of c] show ?thesis by simp
      qed
    qed
  qed
  ultimately show ?thesis using m(1,3) o by blast
qed

lemma counted_abort:
  assumes k: "counted lossy k f" and b: "valid_block k b"
  shows "\<exists>k'. abort_download random (fst b) (snd b) peer k = Some k' \<and> frame k k' \<and> counted lossy k' (f(b := f b - 1))"
proof -
  let ?x = "fst b" and ?j = "snd b"
  have bx: "?x < length (pk_map k)" "?j < blocks_in_piece ?x k" using b(1) by (simp_all add: valid_block_def)
  from abort_download_peers [OF countedD(1) [OF k] bx, of random peer] obtain k' where
    m: "abort_download random ?x ?j peer k = Some k'" "pk_inv k'" "frame k k'"
    "state_at k' = (if state_at k ?x ?j = StateRequested \<and> peers_at k ?x ?j = 1
      then (state_at k)(?x := (state_at k ?x)(?j := StateNone)) else state_at k)"
    "peers_become k k' ((peers_at k)(?x := (peers_at k ?x)(?j := peers_at k ?x ?j - 1)))" by blast
  have st: "state_at k' = (state_at k)(?x := (state_at k ?x)(?j := state_at k' ?x ?j))"
    using m(4) by (auto simp: fun_eq_iff)
  have "agrees lossy (peers_at k' (fst c) (snd c)) ((f(b := f b - 1)) c)" if c: "open_block k' c" for c
  proof -
    have cv: "snd c < blocks_in_piece (fst c) k" using c frame_valid [OF m(3), of c] unfolding open_block_def valid_block_def by blast
    then have p: "peers_at k' (fst c) (snd c) = ((peers_at k)(?x := (peers_at k ?x)(?j := peers_at k ?x ?j - 1))) (fst c) (snd c)"
      using m(5) by (simp add: peers_become_def)
    show ?thesis
    proof (cases "c = b")
      case True
      have "open_block k b"
        using c True m(4) frame_valid [OF m(3)] frame_have [OF m(3) b]
        by (cases "state_at k ?x ?j = StateRequested \<and> peers_at k ?x ?j = 1") (auto simp: open_block_def)
      with True p agrees_steps(3) [OF countedD(2) [OF k]] show ?thesis by simp
    next
      case False
      then have "open_block k c" using open_elsewhere [OF m(3) st, of c] c by simp
      moreover have "peers_at k' (fst c) (snd c) = peers_at k (fst c) (snd c)"
        using p False by (cases c; cases b) auto
      ultimately show ?thesis using countedD(2) [OF k] False by simp
    qed
  qed
  with m(1-3) show ?thesis by (auto simp: counted_def)
qed

lemma counted_writing:
  assumes k: "counted lossy k f" and b: "valid_block k b"
  shows "\<exists>r k'. mark_as_writing random (fst b) (snd b) peer k = Some (r, k') \<and> frame k k' \<and> counted lossy k' f \<and> \<not> open_block k' b \<and>
    state_at k' (fst b) (snd b) \<noteq> StateRequested"
proof -
  let ?x = "fst b" and ?j = "snd b"
  have bx: "?x < length (pk_map k)" "?j < blocks_in_piece ?x k" using b(1) by (simp_all add: valid_block_def)
  from mark_as_writing_peers [OF countedD(1) [OF k] bx, of random peer] obtain r k' where
    m: "mark_as_writing random ?x ?j peer k = Some (r, k')" "pk_inv k'" "frame k k'"
    "r \<longleftrightarrow> \<not> pp_have (pk_map k ! ?x) \<and> state_at k ?x ?j \<noteq> StateWriting \<and> state_at k ?x ?j \<noteq> StateFinished"
    "state_at k' = (if r then (state_at k)(?x := (state_at k ?x)(?j := StateWriting)) else state_at k)"
    "peers_at k' = (peers_at k)(?x := (peers_at k ?x)(?j := 0))" by blast
  have st: "state_at k' = (state_at k)(?x := (state_at k ?x)(?j := state_at k' ?x ?j))"
    using m(5) by (auto simp: fun_eq_iff)
  have nb: "\<not> open_block k' b"
    using m(4,5) frame_have [OF m(3) b] by (auto simp: open_block_def)
  have "agrees lossy (peers_at k' (fst c) (snd c)) (f c)" if c: "open_block k' c" for c
  proof -
    have "c \<noteq> b" using c nb by auto
    then have "open_block k c" using open_elsewhere [OF m(3) st, of c] c by simp
    moreover have "peers_at k' (fst c) (snd c) = peers_at k (fst c) (snd c)"
      using m(6) \<open>c \<noteq> b\<close> by (cases c; cases b) auto
    ultimately show ?thesis using countedD(2) [OF k] by simp
  qed
  moreover have "state_at k' ?x ?j \<noteq> StateRequested"
  proof (cases "pp_have (pk_map k ! ?x)")
    case True
    have "\<not> downloading (pk_map k ! ?x)"
      using view_entry(2) [OF pk_invD(2) [OF countedD(1) [OF k]]] existing_entry [OF countedD(1) [OF k] bx(1)] True by metis
    from blocks_at_none [OF pk_invD(2) [OF countedD(1) [OF k]] bx(1) this] show ?thesis
      using m(4,5) True by (simp add: state_at_def)
  next
    case False
    with m(4,5) show ?thesis by auto
  qed
  ultimately show ?thesis using m(1-3) nb by (auto simp: counted_def)
qed

lemma pick_keeps_blocks:
  assumes k: "pk_inv k" and p: "pick_pieces c pad peers suggested num rnd r1 r2 k = Some (picks, k')"
  shows "blocks_at k' = blocks_at k"
proof -
  have b: "blocks_at k1 = blocks_at k" if q: "pick_buckets c' rnd k = Some k1" for c' k1
  proof -
    have u: "blocks_at k2 = blocks_at k" if "(if x then update_pieces rnd k else Some k) = Some k2" for x k2
    proof (cases x)
      case True
      obtain k3 where u: "update_pieces rnd k = Some k3" "reindexed (k\<lparr>pk_dirty := False\<rparr>) k3"
        using update_pieces_steps [OF k] by blast
      have "keeps k (k\<lparr>pk_dirty := False\<rparr>)" by (simp add: keeps_def list_all2_refl)
      from keeps_reindexed [OF this u(2)] have ke: "keeps k k3" .
      have "picker_ok k3" using update_pieces_picker_ok [OF pk_invD(1) [OF k], of rnd] u(1) by auto
      with inv_keeps(2) [OF k ke] u(1) that True show ?thesis by simp
    qed (use that in simp)
    have "blocks_at (k2\<lparr>pk_bounds := bs\<rparr>) = blocks_at k2" for k2 bs
      by (rule blocks_at_same) (simp_all add: view_def blocks_of_def)
    with q u show ?thesis by (auto simp: pick_buckets_def split: bind_splits)
  qed
  from p b show ?thesis by (auto simp: pick_pieces_def Let_def split: bind_splits prod.splits if_splits)
qed

subsection \<open>The interface\<close>

locale request_book =
  fixes counts :: "'k \<Rightarrow> ('b \<Rightarrow> nat) \<Rightarrow> bool" and same :: "'k \<Rightarrow> 'k \<Rightarrow> bool" and valid :: "'k \<Rightarrow> 'b \<Rightarrow> bool"
    and give_back :: "nat \<Rightarrow> 'b \<Rightarrow> 'k \<Rightarrow> 'k option"
  assumes same_refl: "same k k"
    and same_trans: "same k k1 \<Longrightarrow> same k1 k2 \<Longrightarrow> same k k2"
    and same_valid: "same k k' \<Longrightarrow> valid k' b = valid k b"
    and give_back: "counts k f \<Longrightarrow> valid k b \<Longrightarrow> \<exists>k'. give_back r b k = Some k' \<and> same k k' \<and> counts k' (f(b := f b - 1))"

fun give_all :: "(nat \<Rightarrow> 'b \<Rightarrow> 'k \<Rightarrow> 'k option) \<Rightarrow> (nat \<Rightarrow> nat) \<Rightarrow> 'b list \<Rightarrow> 'k \<Rightarrow> 'k option" where
  "give_all g rnd [] k = Some k"
| "give_all g rnd (b # bs) k = do { k1 \<leftarrow> g (rnd (length bs)) b k; give_all g rnd bs k1 }"

context request_book
begin

lemma give_all_back:
  "counts k f \<Longrightarrow> (\<And>b. b \<in> set bs \<Longrightarrow> valid k b) \<Longrightarrow>
     \<exists>k'. give_all give_back rnd bs k = Some k' \<and> same k k' \<and> counts k' (\<lambda>b. f b - count_list bs b)"
proof (induction bs arbitrary: k f)
  case Nil
  then show ?case using same_refl by simp
next
  case (Cons b bs)
  obtain k1 where k1: "give_back (rnd (length bs)) b k = Some k1" "same k k1" "counts k1 (f(b := f b - 1))"
    using give_back [OF Cons.prems(1), of b "rnd (length bs)"] Cons.prems(2) by auto
  have "\<And>c. c \<in> set bs \<Longrightarrow> valid k1 c" using Cons.prems(2) same_valid [OF k1(2)] by simp
  from Cons.IH [OF k1(3) this] obtain k' where
    k': "give_all give_back rnd bs k1 = Some k'" "same k1 k'" "counts k' (\<lambda>c. (f(b := f b - 1)) c - count_list bs c)" by blast
  have "(\<lambda>c. (f(b := f b - 1)) c - count_list bs c) = (\<lambda>c. f c - count_list (b # bs) c)" by auto
  with k1 k' same_trans [OF k1(2) k'(2)] show ?case by simp
qed

end

interpretation rb: request_book "counted lossy" frame valid_block "\<lambda>r b. abort_download r (fst b) (snd b) peer" for lossy peer
  by unfold_locales (use frame_trans frame_valid counted_abort in auto)

lemma abort_all_give: "abort_all rnd peer qs = give_all (\<lambda>r b. abort_download r (fst b) (snd b) peer) (\<lambda>n. rnd [n]) (map pb_block qs)"
proof
  show "abort_all rnd peer qs k = give_all (\<lambda>r b. abort_download r (fst b) (snd b) peer) (\<lambda>n. rnd [n]) (map pb_block qs) k" for k
    by (induction qs arbitrary: k) (simp_all cong: Option.bind_cong)
qed

lemma abort_all_ok:
  assumes "counted lossy k f" "\<And>q. q \<in> set qs \<Longrightarrow> valid_block k (pb_block q)"
  shows "\<exists>k'. abort_all rnd peer qs k = Some k' \<and> frame k k' \<and> counted lossy k' (\<lambda>b. f b - count_list (map pb_block qs) b)"
  unfolding abort_all_give by (rule rb.give_all_back [OF assms(1)]) (use assms(2) in auto)

end
