(* ===== verification/PeerQueueOk.thy ===== *)
theory PeerQueueOk
  imports PeerCount
begin

section \<open>The queues of a peer agree with the picker\<close>

text \<open>
  \<open>pq_ok t oth p k\<close>: the picker counts, for every open block, the requests of this peer and those of the others,
  \<open>oth\<close>. A block is at most once in the two queues of a peer; what is asked for exists. \<open>good t oth p k r\<close> says
  that the result \<open>r\<close> of an operation is one that keeps this; \<open>good_bind\<close> puts operations together.
\<close>

definition requests_of :: "peer_conn \<Rightarrow> piece_block list" where
  "requests_of p = map pb_block (filter live (pe_downloads p) @ pe_requests p)"

definition queued_blocks :: "peer_conn \<Rightarrow> piece_block list" where
  "queued_blocks p = map pb_block (pe_downloads p @ pe_requests p)"

definition dead :: "peer_conn \<Rightarrow> piece_block set" where
  "dead p = pb_block ` {q \<in> set (pe_downloads p). \<not> live q}"

definition peer_ok :: "picker \<Rightarrow> peer_conn \<Rightarrow> bool" where
  "peer_ok k p \<longleftrightarrow>
     distinct (queued_blocks p) \<and> (\<forall>b \<in> set (requests_of p). valid_block k b) \<and>
     length (pe_bits p) = length (pk_map k) \<and> (\<forall>x \<in> set (pe_suggested p). x < length (pk_map k)) \<and>
     list_all live (pe_requests p) \<and> (pe_disconnecting p \<longrightarrow> pe_downloads p = [] \<and> pe_requests p = [])"

text \<open>
  The picker has been made for the files of the torrent. A torrent that seeds has all the pieces.
\<close>

definition torrent_ok :: "btorrent \<Rightarrow> picker \<Rightarrow> bool" where
  "torrent_ok t k \<longleftrightarrow>
     pk_map k \<noteq> [] \<and> 0 < bt_block_size t \<and> m_num_pieces (bt_files t) = int (length (pk_map k)) \<and>
     (\<forall>x < length (pk_map k). int (blocks_in_piece x k) =
        (piece_size (bt_files t) (int x) + bt_block_size t - 1) div bt_block_size t) \<and>
     (bt_state t = Seeding \<longrightarrow> pk_num_have k = int (length (pk_map k)))"

definition pq_ok :: "bool \<Rightarrow> btorrent \<Rightarrow> (piece_block \<Rightarrow> nat) \<Rightarrow> peer_conn \<Rightarrow> picker \<Rightarrow> bool" where
  "pq_ok lossy t oth p k \<longleftrightarrow>
     counted lossy k (\<lambda>b. oth b + count_list (requests_of p) b) \<and> peer_ok k p \<and> torrent_ok t k \<and> (\<forall>b. oth b < 16382)"

definition good :: "bool \<Rightarrow> btorrent \<Rightarrow> (piece_block \<Rightarrow> nat) \<Rightarrow> peer_conn \<Rightarrow> picker \<Rightarrow> (peer_conn \<times> picker) option \<Rightarrow> bool" where
  "good lossy t oth p k r \<longleftrightarrow> (\<exists>p' k'. r = Some (p', k') \<and> pq_ok lossy t oth p' k' \<and> frame k k' \<and> dead p' \<subseteq> dead p)"

lemma pq_okD:
  assumes "pq_ok lossy t oth p k"
  shows "counted lossy k (\<lambda>b. oth b + count_list (requests_of p) b)" "peer_ok k p" "torrent_ok t k" "oth b < 16382"
    "distinct (queued_blocks p)" "b \<in> set (requests_of p) \<Longrightarrow> valid_block k b" "pk_inv k"
  using assms countedD(1) by (auto simp: pq_ok_def peer_ok_def)

lemma goodI: "pq_ok lossy t oth p' k' \<Longrightarrow> frame k k' \<Longrightarrow> dead p' \<subseteq> dead p \<Longrightarrow> good lossy t oth p k (Some (p', k'))"
  by (simp add: good_def)

lemma good_id: "pq_ok lossy t oth p k \<Longrightarrow> good lossy t oth p k (Some (p, k))"
  by (simp add: good_def)

lemma good_trans:
  assumes "good lossy t oth p1 k1 r" "frame k k1" "dead p1 \<subseteq> dead p"
  shows "good lossy t oth p k r"
proof -
  obtain p' k' where "r = Some (p', k')" "pq_ok lossy t oth p' k'" "frame k1 k'" "dead p' \<subseteq> dead p1"
    using assms(1) unfolding good_def by blast
  with frame_trans [OF assms(2), of k'] assms(3) show ?thesis unfolding good_def by blast
qed

lemma good_bind:
  assumes "good lossy t oth p k r"
    "\<And>p1 k1. r = Some (p1, k1) \<Longrightarrow> pq_ok lossy t oth p1 k1 \<Longrightarrow> frame k k1 \<Longrightarrow> dead p1 \<subseteq> dead p \<Longrightarrow> good lossy t oth p1 k1 (f p1 k1)"
  shows "good lossy t oth p k (do { (p1, k1) \<leftarrow> r; f p1 k1 })"
proof -
  obtain p1 k1 where r: "r = Some (p1, k1)" "pq_ok lossy t oth p1 k1" "frame k k1" "dead p1 \<subseteq> dead p"
    using assms(1) unfolding good_def by blast
  from good_trans [OF assms(2) [OF r] r(3,4)] r(1) show ?thesis by simp
qed

text \<open>Members that are no part of the queues do not matter.\<close>

definition same_queues :: "peer_conn \<Rightarrow> peer_conn \<Rightarrow> bool" where
  "same_queues p p' \<longleftrightarrow> pe_downloads p' = pe_downloads p \<and> pe_requests p' = pe_requests p \<and> pe_bits p' = pe_bits p \<and>
     set (pe_suggested p') \<subseteq> set (pe_suggested p) \<and> pe_disconnecting p' = pe_disconnecting p"

lemma pq_same:
  assumes "pq_ok lossy t oth p k" "same_queues p p'"
  shows "pq_ok lossy t oth p' k" "dead p' = dead p" "requests_of p' = requests_of p" "queued_blocks p' = queued_blocks p"
  using assms by (auto simp: pq_ok_def peer_ok_def same_queues_def requests_of_def queued_blocks_def dead_def)

lemma good_same:
  assumes "pq_ok lossy t oth p k" "same_queues p p'" "pq_ok lossy t oth p' k \<Longrightarrow> good lossy t oth p' k r"
  shows "good lossy t oth p k r"
  by (rule good_trans [OF assms(3) [OF pq_same(1) [OF assms(1,2)]]]) (use pq_same(2) [OF assms(1,2)] in simp_all)

lemma num_have_frame:
  assumes "pk_inv k" "pk_inv k'" "frame k k'"
  shows "pk_num_have k' = pk_num_have k"
proof -
  have c: "pk_num_have k1 = int (length (filter id (map pp_have (pk_map k1))))" if "pk_inv k1" for k1
    using picker_ok_simps(4) [OF pk_invD(1) [OF that]]
    by (simp add: counters_ok_def tally_def filter_map comp_def)
  have "map pp_have (pk_map k') = map pp_have (pk_map k)" using assms(3) by (simp add: frame_def)
  then show ?thesis using c [OF assms(1)] c [OF assms(2)] by simp
qed

lemma torrent_ok_frame:
  assumes "torrent_ok t k" "pk_inv k" "pk_inv k'" "frame k k'"
  shows "torrent_ok t k'"
proof -
  have "length (pk_map k') = length (pk_map k)" by (rule frameD(1) [OF assms(4)])
  then show ?thesis
    using assms(1) num_have_frame [OF assms(2-4)] frameD(2) [OF assms(4)] by (auto simp: torrent_ok_def)
qed

lemma seed_closed:
  assumes "pk_inv k" "torrent_ok t k" "is_seed t k"
  shows "\<not> open_block k b" "counted lossy k f"
proof -
  have "pk_num_have k = int (length (pk_map k))" using assms(2,3) by (auto simp: torrent_ok_def is_seed_def)
  moreover have "pk_num_have k = int (length (filter pp_have (pk_map k)))"
    using picker_ok_simps(4) [OF pk_invD(1) [OF assms(1)]] by (simp add: counters_ok_def tally_def)
  ultimately have "filter pp_have (pk_map k) = pk_map k" by (simp add: length_filter_conv_card filter_id_conv) (metis length_filter_less nat_neq_iff length_filter_conv_card)
  then have "\<forall>p \<in> set (pk_map k). pp_have p" by (simp add: filter_id_conv)
  then show "\<not> open_block k b" for b by (simp add: open_block_def valid_block_def)
  then show "counted lossy k f" using assms(1) by (simp add: counted_def)
qed

lemma peer_ok_frame:
  assumes "peer_ok k p" "frame k k'"
  shows "peer_ok k' p"
  using assms(1) frameD(1) [OF assms(2)] frame_valid [OF assms(2)] by (simp add: peer_ok_def)

text \<open>The picker moves on, the peer gets new queues.\<close>

lemma pq_move:
  assumes "pq_ok lossy t oth p k" "frame k k'" "counted lossy k' (\<lambda>b. oth b + count_list (requests_of p') b)" "peer_ok k p'"
  shows "pq_ok lossy t oth p' k'"
  using assms torrent_ok_frame [OF pq_okD(3) [OF assms(1)] _ _ assms(2)] pq_okD(4,7) [OF assms(1)]
    peer_ok_frame [OF assms(4,2)] countedD(1) [OF assms(3)] by (simp add: pq_ok_def)

lemma peer_speed_some: "peer_speed t p \<noteq> NoSpeed"
  by (simp add: peer_speed_def)

subsection \<open>A request\<close>

lemma update_speed_same: "same_queues p (update_speed t p)"
  by (simp add: same_queues_def update_speed_def)

lemma pending_simps [simp]: "pb_block (pending b) = b" "live (pending b)" "live ((pending b)\<lparr>pb_busy := x\<rparr>)"
  by (simp_all add: pending_def live_def)

lemma count_insert_at: "count_list (insert_at i x xs) y = count_list (x # xs) y"
  using mset_insert_at [of i x xs] by (metis count_mset)

lemma requests_insert:
  assumes "pe_downloads p' = pe_downloads p" "pe_requests p' = insert_at i q (pe_requests p)"
  shows "count_list (requests_of p') b = count_list (pb_block q # requests_of p) b"
    "mset (queued_blocks p') = mset (pb_block q # queued_blocks p)"
    "set (requests_of p') = insert (pb_block q) (set (requests_of p))"
  using assms by (simp_all add: requests_of_def queued_blocks_def map_insert_at count_insert_at mset_insert_at set_insert_at
      count_list_append)

lemma not_queued: "\<not> list_ex (has_block b) (pe_downloads p @ pe_requests p) \<longleftrightarrow> b \<notin> set (queued_blocks p)"
  by (auto simp: list_ex_iff has_block_def queued_blocks_def)

lemma requests_queued: "set (requests_of p) \<subseteq> set (queued_blocks p)"
  by (auto simp: requests_of_def queued_blocks_def)

lemma pq_insert:
  assumes pq: "pq_ok lossy t oth p k" and b: "valid_block k (pb_block q)" "pb_block q \<notin> set (queued_blocks p)" "live q"
    and k': "frame k k'" "counted lossy k' ((\<lambda>b. oth b + count_list (requests_of p) b)(pb_block q := oth (pb_block q) + 1))"
    and p': "pe_downloads p' = pe_downloads p" "pe_requests p' = insert_at i q (pe_requests p)" "pe_bits p' = pe_bits p"
      "set (pe_suggested p') \<subseteq> set (pe_suggested p)" "\<not> pe_disconnecting p'"
  shows "pq_ok lossy t oth p' k'"
proof (rule pq_move [OF pq k'(1)])
  note ri = requests_insert [OF p'(1,2)]
  have "count_list (requests_of p) (pb_block q) = 0" using b(2) requests_queued [of p] by (auto simp: count_list_0_iff)
  then have "(\<lambda>b. oth b + count_list (requests_of p) b)(pb_block q := oth (pb_block q) + 1) =
      (\<lambda>b. oth b + count_list (requests_of p') b)" unfolding ri(1) by (auto simp: fun_eq_iff)
  with k'(2) show "counted lossy k' (\<lambda>b. oth b + count_list (requests_of p') b)" by simp
  have "distinct (queued_blocks p')"
    using mset_eq_imp_distinct_iff [OF ri(2)] pq_okD(5) [OF pq] b(2) by simp
  then show "peer_ok k p'"
    using pq_okD(2) [OF pq] ri(3) b(1,3) p' by (auto simp: peer_ok_def list_all_iff set_insert_at)
qed

lemma add_request_ok:
  assumes pq: "pq_ok lossy t oth p k" and b: "valid_block k b" "\<not> pp_have (pk_map k ! fst b)" "b \<notin> set (queued_blocks p)"
  shows "\<exists>added p' k'. add_request random t b busy critical p k = Some (added, p', k') \<and> pq_ok lossy t oth p' k' \<and> frame k k' \<and>
    pe_downloads p' = pe_downloads p \<and> (\<not> added \<longrightarrow> pe_requests p' = pe_requests p) \<and>
    set (queued_blocks p') \<subseteq> insert b (set (queued_blocks p))"
proof (cases "bt_upload_mode t \<or> pe_disconnecting p")
  case True
  with pq show ?thesis by (auto simp: add_request_def)
next
  case False
  let ?p1 = "update_speed t p"
  note s = pq_same [OF pq update_speed_same [of p t]]
  have dq: "pe_downloads ?p1 = pe_downloads p" "pe_requests ?p1 = pe_requests p" "pe_suggested ?p1 = pe_suggested p"
    "pe_bits ?p1 = pe_bits p" "\<not> pe_disconnecting ?p1"
    using False by (simp_all add: update_speed_def)
  show ?thesis
  proof (cases "busy \<and> \<not> critical \<and> list_ex pb_busy (pe_downloads p @ pe_requests p)")
    case True
    with False s dq show ?thesis by (auto simp: add_request_def)
  next
    case nb: False
    have c0: "count_list (requests_of p) b = 0" using b(3) requests_queued [of p] by (auto simp: count_list_0_iff)
    have "oth b + count_list (requests_of p) b < 16383" using c0 pq_okD(4) [OF pq, of b] by simp
    from counted_request [OF pq_okD(1) [OF pq] b(1,2) this peer_speed_some [of t p], of random "pe_info p"]
    obtain r k' where m: "mark_as_downloading random (fst b) (snd b) (pe_info p) (peer_speed t p) k = Some (r, k')" "frame k k'"
      "counted lossy k' (if r then (\<lambda>b. oth b + count_list (requests_of p) b)(b := oth b + count_list (requests_of p) b + 1)
        else (\<lambda>b. oth b + count_list (requests_of p) b))" by blast
    define q where "q = (pending b)\<lparr>pb_busy := busy\<rparr>"
    have qb: "pb_block q = b" "live q" by (simp_all add: q_def)
    define p' where "p' = (if \<not> r then ?p1 else if critical
       then ?p1\<lparr>pe_requests := insert_at (pe_time_critical p) q (pe_requests p), pe_time_critical := pe_time_critical p + 1\<rparr>
       else ?p1\<lparr>pe_requests := pe_requests p @ [q]\<rparr>)"
    have "add_request random t b busy critical p k =
        Some (if \<not> r then (False, ?p1, k') else if critical
          then (True, ?p1\<lparr>pe_requests := insert_at (pe_time_critical p) q (pe_requests p),
                           pe_time_critical := pe_time_critical p + 1\<rparr>, k')
          else (True, ?p1\<lparr>pe_requests := pe_requests p @ [q]\<rparr>, k'))"
      unfolding add_request_def Let_def if_not_P [OF False] if_not_P [OF nb] m(1) q_def by simp
    then have a: "add_request random t b busy critical p k = Some (r, p', k')" by (simp add: p'_def)
    have d: "pe_downloads p' = pe_downloads p" "\<not> r \<longrightarrow> pe_requests p' = pe_requests p" using dq by (simp_all add: p'_def)
    show ?thesis
    proof (cases r)
      case False
      have "pq_ok lossy t oth p' k'"
        using pq_move [OF s(1) m(2), of p'] pq_okD(2) [OF s(1)] m(3) s(3) False by (simp add: p'_def)
      with False a m(2) d s(4) show ?thesis by (auto simp: p'_def)
    next
      case True
      obtain i where i: "pe_requests p' = insert_at i q (pe_requests p)"
      proof (cases critical)
        case False
        then have "pe_requests p' = insert_at (length (pe_requests p)) q (pe_requests p)"
          using True by (simp add: p'_def insert_at_def)
        then show thesis by (rule that)
      qed (use True that [of "pe_time_critical p"] in \<open>simp add: p'_def\<close>)
      have f: "pe_bits p' = pe_bits p" "pe_suggested p' = pe_suggested p" "\<not> pe_disconnecting p'"
        using dq by (simp_all add: p'_def)
      have "pq_ok lossy t oth p' k'"
        by (rule pq_insert [OF pq, of q k' p' i]) (use qb b m(2,3) True c0 d(1) i f in simp_all)
      moreover have "set (queued_blocks p') = insert b (set (queued_blocks p))"
        using requests_insert(2) [OF d(1) i] qb by (metis list.simps(15) mset_eq_setD)
      ultimately show ?thesis using a m(2) d by auto
    qed
  qed
qed

subsection \<open>request\_a\_block\<close>

definition wanted_block :: "picker \<Rightarrow> piece_block \<Rightarrow> bool" where
  "wanted_block k b \<longleftrightarrow> valid_block k b \<and> \<not> pp_have (pk_map k ! fst b)"

lemma wanted_frame: "frame k k' \<Longrightarrow> wanted_block k' b = wanted_block k b"
  using frame_valid [of k k' b] frame_have [of k k' b] unfolding wanted_block_def by metis

lemma valid_queries:
  assumes "pk_inv k" "valid_block k b"
  shows "num_peers (fst b) (snd b) k = Some (peers_at k (fst b) (snd b))"
    "is_requested (fst b) (snd b) k = Some (state_at k (fst b) (snd b) = StateRequested)"
    "is_downloaded (fst b) (snd b) k = Some (pp_have (pk_map k ! fst b) \<or> state_at k (fst b) (snd b) = StateFinished \<or>
       state_at k (fst b) (snd b) = StateWriting)"
    "is_finished (fst b) (snd b) k = Some (pp_have (pk_map k ! fst b) \<or> state_at k (fst b) (snd b) = StateFinished)"
    "piece_priority (fst b) k = Some (piece_prio (pk_map k ! fst b))"
  using block_queries [OF assms(1), of "fst b" "snd b"] assms(2) by (simp_all add: valid_block_def piece_priority_def)

lemma request_picks_ok:
  assumes "pq_ok lossy t oth p k" "\<And>b. b \<in> set bs \<or> busy = Some b \<Longrightarrow> wanted_block k b"
  shows "\<exists>left busy' p' k'. request_picks rnd t whole no_busy bs num busy p k = Some (left, busy', p', k') \<and>
    pq_ok lossy t oth p' k' \<and> frame k k' \<and> pe_downloads p' = pe_downloads p \<and> (\<forall>b. busy' = Some b \<longrightarrow> wanted_block k' b)"
  using assms
proof (induction bs arbitrary: num busy p k)
  case Nil
  then show ?case by simp
next
  case (Cons b bs)
  note pq = Cons.prems(1)
  have w: "wanted_block k b" "valid_block k b" "\<not> pp_have (pk_map k ! fst b)"
    using Cons.prems(2) [of b] by (simp_all add: wanted_block_def)
  have rest: "\<And>c. c \<in> set bs \<or> busy = Some c \<Longrightarrow> wanted_block k c" "\<And>c. c \<in> set bs \<or> Some b = Some c \<Longrightarrow> wanted_block k c"
    using Cons.prems(2) w(1) by auto
  note q = valid_queries [OF pq_okD(7) [OF pq] w(2)]
  let ?stop = "whole = 0 \<and> num \<le> 0 \<or> bt_critical t \<noteq> [] \<and> piece_prio (pk_map k ! fst b) \<noteq> 7 \<or>
    0 < peers_at k (fst b) (snd b) \<and> (num \<le> 0 \<or> no_busy)"
  consider (stop) ?stop | (busy) "\<not> ?stop" "0 < peers_at k (fst b) (snd b)"
    | (queued) "\<not> ?stop" "peers_at k (fst b) (snd b) = 0" "list_ex (has_block b) (pe_downloads p @ pe_requests p)"
    | (add) "\<not> ?stop" "peers_at k (fst b) (snd b) = 0" "\<not> list_ex (has_block b) (pe_downloads p @ pe_requests p)" by blast
  then show ?case
  proof cases
    case stop
    then have "request_picks rnd t whole no_busy (b # bs) num busy p k = Some (num, busy, p, k)" using q by auto
    with pq rest(1) show ?thesis by simp
  next
    case busy
    then have "request_picks rnd t whole no_busy (b # bs) num busy p k = request_picks rnd t whole no_busy bs num (Some b) p k"
      using q by auto
    then show ?thesis using Cons.IH [OF pq rest(2)] by (simp only:)
  next
    case queued
    then have "request_picks rnd t whole no_busy (b # bs) num busy p k = request_picks rnd t whole no_busy bs num busy p k"
      using q by auto
    then show ?thesis using Cons.IH [OF pq rest(1)] by (simp only:)
  next
    case add
    obtain added p1 k1 where a: "add_request (rnd [length bs]) t b False False p k = Some (added, p1, k1)" "pq_ok lossy t oth p1 k1"
      "frame k k1" "pe_downloads p1 = pe_downloads p"
      using add_request_ok [OF pq w(2,3), of "rnd [length bs]" False False] add(3) not_queued by blast
    have e: "request_picks rnd t whole no_busy (b # bs) num busy p k =
        request_picks rnd t whole no_busy bs (if added then num - 1 else num) busy p1 k1"
      using add q a(1) by auto
    have "\<And>c. c \<in> set bs \<or> busy = Some c \<Longrightarrow> wanted_block k1 c" using rest(1) wanted_frame [OF a(3)] by blast
    then obtain left busy' p' k' where "request_picks rnd t whole no_busy bs (if added then num - 1 else num) busy p1 k1 =
        Some (left, busy', p', k')" "pq_ok lossy t oth p' k'" "frame k1 k'" "pe_downloads p' = pe_downloads p1"
        "\<forall>b. busy' = Some b \<longrightarrow> wanted_block k' b" using Cons.IH [OF a(2)] by blast
    with frame_trans [OF a(3), of k'] a(4) e show ?thesis by simp
  qed
qed

lemma request_picks_none: "request_picks rnd t whole no_busy [] num busy p k = Some (num, busy, p, k)"
  by simp

lemma pick_for_peer:
  assumes pq: "pq_ok lossy t oth p k" and num: "0 < num"
  shows "\<exists>picks k'. pick_pieces (picker_options t p k bits whole speed) pad peers (pe_suggested p) num rnd r1 r2 k = Some (picks, k') \<and>
    pq_ok lossy t oth p k' \<and> frame k k' \<and> (\<forall>b \<in> set picks. wanted_block k b \<and> bits ! fst b)"
proof -
  let ?c = "picker_options t p k bits whole speed"
  have sg: "\<And>x. x \<in> set (pe_suggested p) \<Longrightarrow> x < length (pk_map k)" using pq_okD(2) [OF pq] by (simp add: peer_ok_def)
  have m: "pk_map k \<noteq> []" using pq_okD(3) [OF pq] by (simp add: torrent_ok_def)
  obtain picks k' where p: "pick_pieces ?c pad peers (pe_suggested p) num rnd r1 r2 k = Some (picks, k')" "pk_inv k'"
    "state_at k' = state_at k" "frame k k'" "picked_ok ?c num k picks"
    using pick_pieces_ok [OF pq_okD(7) [OF pq] m num sg] by blast
  have "peers_at k' = peers_at k" using pick_keeps_blocks [OF pq_okD(7) [OF pq] p(1)] by (simp add: peers_at_def fun_eq_iff)
  then have "counted lossy k' (\<lambda>b. oth b + count_list (requests_of p) b)"
    using counted_same [OF pq_okD(1) [OF pq] p(4,2,3)] by simp
  from pq_move [OF pq p(4) this pq_okD(2) [OF pq]] have "pq_ok lossy t oth p k'" .
  moreover have "wanted_block k b \<and> bits ! fst b" if "b \<in> set picks" for b
    using picked_ok_block(1) [OF p(5) that]
    by (simp add: pickable_def is_piece_free_def wanted_block_def valid_block_def picker_options_def Let_def)
  ultimately show ?thesis using p(1,4) by blast
qed

lemma dead_downloads: "pe_downloads p' = pe_downloads p \<Longrightarrow> dead p' = dead p"
  by (simp add: dead_def)

lemma request_a_block_good:
  assumes pq: "pq_ok lossy t oth p k"
  shows "good lossy t oth p k (request_a_block rnd peers t p k)"
proof (cases "is_seed t k \<or> pe_no_download p \<or> bt_upload_mode t \<or> pe_disconnecting p \<or> \<not> bt_metadata t \<or> \<not> bt_checked t")
  case True
  with good_id [OF pq] show ?thesis by (simp add: request_a_block_def)
next
  case idle: False
  let ?critical = "bt_critical t \<noteq> []"
  define num where "num = (if ?critical then min 1 (desired_queue_size p) else desired_queue_size p) -
    int (length (pe_downloads p)) - int (length (pe_requests p))"
  show ?thesis
  proof (cases "num \<le> 0")
    case True
    with idle good_id [OF pq] show ?thesis by (simp add: request_a_block_def Let_def num_def)
  next
    case n: False
    define whole where "whole = (if prefer_whole_pieces p = 0 \<and> \<not> ?critical
      then (if m_piece_length (bt_files t) < pe_rate p * bt_whole_threshold t then 1 else 0) else prefer_whole_pieces p)"
    let ?p1 = "update_speed t p"
    note s1 = pq_same [OF pq update_speed_same [of p t]]
    have sg: "pe_suggested ?p1 = pe_suggested p" "pe_downloads ?p1 = pe_downloads p" by (simp_all add: update_speed_def)
    obtain picks k1 where pk: "pick_pieces (picker_options t ?p1 k (request_bits p) whole (peer_speed t p)) (bt_pads t) peers
        (pe_suggested p) (nat num) (\<lambda>i. rnd [0, i]) (rnd [1]) (rnd [2]) k = Some (picks, k1)"
      "pq_ok lossy t oth ?p1 k1" "frame k k1" "\<forall>b \<in> set picks. wanted_block k b \<and> request_bits p ! fst b"
      using pick_for_peer [OF s1(1), where num = "nat num" and bits = "request_bits p" and whole = whole and speed = "peer_speed t p" and
          pad = "bt_pads t" and peers = peers and rnd = "\<lambda>i. rnd [0, i]" and ?r1.0 = "rnd [1]" and ?r2.0 = "rnd [2]"] n
      unfolding sg by (auto simp del: One_nat_def)
    define no_busy where "no_busy = ((bt_strict_endgame t \<and>
        int (length (pk_downloads k1)) < int (length (pk_map k1)) - pk_num_have k1 - pk_num_filtered k1 \<or>
        pe_downloads p \<noteq> [] \<or> pe_requests p \<noteq> []) \<and> \<not> ?critical)"
    have w: "wanted_block k1 b" if "b \<in> set picks \<or> None = Some b" for b
      using that pk(4) wanted_frame [OF pk(3)] by auto
    obtain left busy p2 k2 where rp: "request_picks (at_site 3 rnd) t whole no_busy picks num None ?p1 k1 = Some (left, busy, p2, k2)"
      "pq_ok lossy t oth p2 k2" "frame k1 k2" "pe_downloads p2 = pe_downloads ?p1" "\<And>b. busy = Some b \<Longrightarrow> wanted_block k2 b"
      using request_picks_ok [OF pk(2) w, where rnd = "at_site 3 rnd" and whole = whole and no_busy = no_busy and num = num] by blast
    have fr: "frame k k2" by (rule frame_trans [OF pk(3) rp(3)])
    define fin where "fin = (if left \<le> 0 then Some (p2\<lparr>pe_endgame := False\<rparr>, k2)
        else let p3 = (if pe_choked p2 then p2 else p2\<lparr>pe_endgame := True\<rparr>)
          in case busy of None \<Rightarrow> Some (p3, k2)
             | Some b \<Rightarrow> if pe_downloads p3 \<noteq> [] \<or> pe_requests p3 \<noteq> [] then Some (p3, k2)
                         else map_option snd (add_request (rnd [4]) t b True False p3 k2))"
    have "request_a_block rnd peers t p k = fin"
      unfolding request_a_block_def if_not_P [OF idle] Let_def num_def [symmetric] if_not_P [OF n] whole_def [symmetric] pk(1)
        bind.bind_lunit prod.case no_busy_def [symmetric] rp(1) fin_def by (rule refl)
    moreover have "good lossy t oth p2 k2 fin"
    proof -
      have e: "same_queues p2 (p2\<lparr>pe_endgame := x\<rparr>)" "same_queues p2 (if c then p2 else p2\<lparr>pe_endgame := x\<rparr>)" for x c
        by (simp_all add: same_queues_def)
      let ?p3 = "if pe_choked p2 then p2 else p2\<lparr>pe_endgame := True\<rparr>"
      have g: "good lossy t oth p2 k2 (Some (p2\<lparr>pe_endgame := False\<rparr>, k2))" "good lossy t oth p2 k2 (Some (?p3, k2))"
        using good_same [OF rp(2) e(1) good_id] good_same [OF rp(2) e(2) good_id] by blast+
      show ?thesis
      proof (cases "left \<le> 0 \<or> busy = None \<or> pe_downloads ?p3 \<noteq> [] \<or> pe_requests ?p3 \<noteq> []")
        case True
        with g show ?thesis by (auto simp: fin_def Let_def split: option.split)
      next
        case False
        then obtain b where b: "busy = Some b" by (cases busy) simp_all
        have "b \<notin> set (queued_blocks ?p3)" using False by (simp add: queued_blocks_def)
        with add_request_ok [OF pq_same(1) [OF rp(2) e(2)], where b = b and random = "rnd [4]" and busy = True and critical = False] rp(5) [OF b]
        obtain added p' k' where a: "add_request (rnd [4]) t b True False ?p3 k2 = Some (added, p', k')" "pq_ok lossy t oth p' k'"
          "frame k2 k'" "pe_downloads p' = pe_downloads ?p3" unfolding wanted_block_def by blast
        have "dead p' \<subseteq> dead p2" using dead_downloads [OF a(4)] by (simp add: dead_def)
        with goodI [OF a(2,3)] have "good lossy t oth p2 k2 (Some (p', k'))" .
        moreover have "fin = Some (p', k')" using False b a(1) by (simp add: fin_def Let_def)
        ultimately show ?thesis by simp
      qed
    qed
    ultimately show ?thesis
      using good_trans [OF _ fr, of lossy t oth p2 _ p] dead_downloads [OF rp(4)] dead_downloads [OF sg(2)] by simp
  qed
qed

subsection \<open>Requests leave the queues\<close>

lemma count_filter_split: "count_list (map f (filter P xs)) b + count_list (map f (filter (\<lambda>x. \<not> P x) xs)) b = count_list (map f xs) b"
  by (induction xs) auto

text \<open>Requests that are given back: the picker forgets them, the peer has the others.\<close>

lemma pq_given_back:
  assumes pq: "pq_ok lossy t oth p k" and qs: "set (map pb_block qs) \<subseteq> set (requests_of p)"
    and c: "\<And>b. count_list (requests_of p') b + count_list (map pb_block qs) b = count_list (requests_of p) b"
    and p': "\<And>k'. frame k k' \<Longrightarrow> peer_ok k' p'"
  shows "\<exists>k'. abort_all rnd peer qs k = Some k' \<and> pq_ok lossy t oth p' k' \<and> frame k k'"
proof -
  have "valid_block k (pb_block q)" if "q \<in> set qs" for q
    by (rule pq_okD(6) [OF pq]) (use qs that in auto)
  from abort_all_ok [OF pq_okD(1) [OF pq] this] obtain k' where k': "abort_all rnd peer qs k = Some k'" "frame k k'"
    "counted lossy k' (\<lambda>b. oth b + count_list (requests_of p) b - count_list (map pb_block qs) b)" by blast
  have "(\<lambda>b. oth b + count_list (requests_of p) b - count_list (map pb_block qs) b) = (\<lambda>b. oth b + count_list (requests_of p') b)"
    using c by (metis add.assoc add_diff_cancel_right')
  with pq_move [OF pq k'(2), of p'] k' p' [of k] show ?thesis by auto
qed

lemma mset_distinct_sub:
  assumes "distinct ys" "mset xs \<subseteq># mset ys"
  shows "distinct xs"
proof -
  obtain zs where "mset ys = mset xs + mset zs" using assms(2) by (metis ex_mset subset_mset.le_iff_add)
  then have "mset ys = mset (xs @ zs)" by simp
  with assms(1) have "distinct (xs @ zs)" using mset_eq_imp_distinct_iff by blast
  then show ?thesis by simp
qed

lemma peer_ok_less:
  assumes "peer_ok k p" "frame k k'" "mset (queued_blocks p') \<subseteq># mset (queued_blocks p)" "set (requests_of p') \<subseteq> set (requests_of p)"
    "set (pe_requests p') \<subseteq> set (pe_requests p)" "pe_bits p' = pe_bits p" "set (pe_suggested p') \<subseteq> set (pe_suggested p)"
    "pe_disconnecting p' \<Longrightarrow> pe_downloads p' = [] \<and> pe_requests p' = []"
  shows "peer_ok k' p'"
proof -
  have "distinct (queued_blocks p')"
    using assms(1,3) mset_distinct_sub unfolding peer_ok_def by blast
  then show ?thesis using peer_ok_frame [OF assms(1,2)] assms(4-8) by (auto simp: peer_ok_def list_all_iff)
qed

text \<open>All of the request queue goes.\<close>

lemma drop_requests:
  assumes pq: "pq_ok lossy t oth p k" and qs: "mset qs = mset (pe_requests p)"
    and p': "pe_requests p' = []" "pe_downloads p' = pe_downloads p" "pe_bits p' = pe_bits p" "pe_suggested p' = pe_suggested p"
      "pe_disconnecting p' = pe_disconnecting p"
  shows "\<exists>k'. abort_all rnd peer qs k = Some k' \<and> pq_ok lossy t oth p' k' \<and> frame k k'"
proof (rule pq_given_back [OF pq])
  have s: "set qs = set (pe_requests p)" using qs by (rule mset_eq_setD)
  then show "set (map pb_block qs) \<subseteq> set (requests_of p)" by (auto simp: requests_of_def)
  have "count_list (map pb_block qs) b = count_list (map pb_block (pe_requests p)) b" for b
    using qs by (metis count_mset mset_map)
  then show "count_list (requests_of p') b + count_list (map pb_block qs) b = count_list (requests_of p) b" for b
    using p' by (simp add: requests_of_def count_list_append)
  show "peer_ok k' p'" if "frame k k'" for k'
    by (rule peer_ok_less [OF pq_okD(2) [OF pq] that]) (use p' pq_okD(2) [OF pq] in \<open>auto simp: queued_blocks_def requests_of_def peer_ok_def\<close>)
qed

lemma clear_request_queue_good:
  assumes pq: "pq_ok lossy t oth p k"
  shows "good lossy t oth p k (clear_request_queue rnd t p k)"
proof (cases "on_parole p")
  case True
  with good_id [OF pq] show ?thesis by (simp add: clear_request_queue_def)
next
  case False
  let ?p' = "p\<lparr>pe_requests := [], pe_time_critical := 0\<rparr>"
  have d: "dead ?p' = dead p" by (rule dead_downloads) simp
  show ?thesis
  proof (cases "is_seed t k")
    case seed: True
    have "peer_ok k ?p'"
      by (rule peer_ok_less [OF pq_okD(2) [OF pq] frame_refl])
        (use pq_okD(2) [OF pq] in \<open>auto simp: queued_blocks_def requests_of_def peer_ok_def\<close>)
    from pq_move [OF pq frame_refl seed_closed(2) [OF pq_okD(7,3) [OF pq] seed] this] have "pq_ok lossy t oth ?p' k" .
    with seed False d goodI [OF this frame_refl, of p] show ?thesis by (simp add: clear_request_queue_def)
  next
    case False
    obtain k' where "abort_all rnd (pe_info p) (pe_requests p) k = Some k'" "pq_ok lossy t oth ?p' k'" "frame k k'"
      using drop_requests [OF pq refl, of ?p'] by auto
    with False \<open>\<not> on_parole p\<close> d goodI [of lossy t oth ?p' k' k p] show ?thesis by (simp add: clear_request_queue_def)
  qed
qed

lemma disconnect_good:
  assumes pq: "pq_ok lossy t oth p k"
  shows "good lossy t oth p k (disconnect rnd t p k)"
    "\<exists>p' k'. disconnect rnd t p k = Some (p', k') \<and> pe_disconnecting p' \<and> pe_downloads p' = [] \<and> pe_requests p' = []"
proof -
  have "good lossy t oth p k (disconnect rnd t p k) \<and>
    (\<exists>p' k'. disconnect rnd t p k = Some (p', k') \<and> pe_disconnecting p' \<and> pe_downloads p' = [] \<and> pe_requests p' = [])"
  proof (cases "pe_disconnecting p")
    case True
    with good_id [OF pq] pq_okD(2) [OF pq] show ?thesis by (simp add: disconnect_def peer_ok_def)
  next
    case False
    let ?p1 = "p\<lparr>pe_downloads := []\<rparr>" and ?p2 = "p\<lparr>pe_downloads := [], pe_requests := []\<rparr>"
    let ?qs = "filter live (rev (pe_downloads p))"
    have "count_list (requests_of ?p1) b + count_list (map pb_block ?qs) b = count_list (requests_of p) b" for b
      by (simp add: requests_of_def count_list_append rev_filter [symmetric] rev_map [symmetric] count_list_rev)
    moreover have "peer_ok k' ?p1" if "frame k k'" for k'
      by (rule peer_ok_less [OF pq_okD(2) [OF pq] that]) (use False in \<open>auto simp: queued_blocks_def requests_of_def\<close>)
    ultimately obtain k1 where k1: "abort_all (at_site 0 rnd) (pe_info p) ?qs k = Some k1" "pq_ok lossy t oth ?p1 k1" "frame k k1"
      using pq_given_back [OF pq, of ?qs ?p1 "at_site 0 rnd" "pe_info p"] by (auto simp: requests_of_def)
    obtain k2 where k2: "abort_all (at_site 1 rnd) (pe_info p) (rev (pe_requests p)) k1 = Some k2" "pq_ok lossy t oth ?p2 k2" "frame k1 k2"
      using drop_requests [OF k1(2), of "rev (pe_requests p)" ?p2 "at_site 1 rnd" "pe_info p"] by auto
    let ?p' = "p\<lparr>pe_downloads := [], pe_requests := [], pe_time_critical := 0, pe_disconnecting := True,
      pe_outstanding := outstanding_after t (rev (pe_downloads p)) (pe_outstanding p)\<rparr>"
    have "requests_of ?p' = requests_of ?p2" "dead ?p' = {}" "peer_ok k2 ?p'"
      using pq_okD(2) [OF k2(2)] by (auto simp: requests_of_def dead_def peer_ok_def queued_blocks_def)
    then have "pq_ok lossy t oth ?p' k2" using k2(2) by (simp add: pq_ok_def)
    then have "good lossy t oth p k (Some (?p', k2))" using goodI frame_trans [OF k1(3) k2(3)] \<open>dead ?p' = {}\<close> by blast
    moreover have "disconnect rnd t p k = Some (?p', k2)" using False k1(1) k2(1) by (simp add: disconnect_def)
    ultimately show ?thesis by simp
  qed
  then show "good lossy t oth p k (disconnect rnd t p k)"
    "\<exists>p' k'. disconnect rnd t p k = Some (p', k') \<and> pe_disconnecting p' \<and> pe_downloads p' = [] \<and> pe_requests p' = []"
    by blast+
qed

subsection \<open>Requests are sent\<close>

lemma abort_one:
  fixes q :: pending_block
  assumes pq: "pq_ok lossy t oth p k" and q: "pb_block q \<in> set (requests_of p)"
    and c: "\<And>b. count_list (requests_of p') b + count_list [pb_block q] b = count_list (requests_of p) b"
    and p': "\<And>k'. frame k k' \<Longrightarrow> peer_ok k' p'"
  shows "\<exists>k'. abort_download random (fst (pb_block q)) (snd (pb_block q)) peer k = Some k' \<and> pq_ok lossy t oth p' k' \<and> frame k k'"
proof -
  from pq_given_back [OF pq, of "[q]" p' "\<lambda>_. random" peer] q c p' obtain k' where
    "abort_all (\<lambda>_. random) peer [q] k = Some k'" "pq_ok lossy t oth p' k'" "frame k k'" by auto
  then show ?thesis by (auto split: bind_splits)
qed

lemma send_one_ok:
  assumes pq: "pq_ok lossy t oth (p\<lparr>pe_requests := qs @ rest\<rparr>) k"
  shows "pq_ok lossy t oth ((send_one t qs p)\<lparr>pe_requests := rest\<rparr>) k"
    "dead ((send_one t qs p)\<lparr>pe_requests := rest\<rparr>) \<subseteq> dead (p\<lparr>pe_requests := qs @ rest\<rparr>)"
proof -
  let ?p = "p\<lparr>pe_requests := qs @ rest\<rparr>" and ?p' = "(send_one t qs p)\<lparr>pe_requests := rest\<rparr>"
  have l: "list_all live qs" "list_all live rest" using pq_okD(2) [OF pq] by (simp_all add: peer_ok_def)
  then have f: "filter live qs = qs" by (simp add: list_all_iff filter_id_conv)
  have r: "requests_of ?p' = requests_of ?p" "queued_blocks ?p' = queued_blocks ?p"
    using f by (simp_all add: requests_of_def queued_blocks_def send_one_def Let_def)
  moreover have "pe_bits ?p' = pe_bits ?p" "pe_suggested ?p' = pe_suggested ?p" "pe_disconnecting ?p' = pe_disconnecting ?p"
    by (simp_all add: send_one_def Let_def)
  moreover have "pe_disconnecting ?p \<longrightarrow> pe_downloads ?p' = [] \<and> rest = []"
    using pq_okD(2) [OF pq] by (auto simp: peer_ok_def send_one_def Let_def)
  ultimately have "peer_ok k ?p'" using pq_okD(2) [OF pq] l(2) by (simp add: peer_ok_def)
  then show "pq_ok lossy t oth ?p' k" using pq r(1) by (simp add: pq_ok_def)
  show "dead ?p' \<subseteq> dead ?p" using l by (auto simp: dead_def send_one_def Let_def list_all_iff)
qed

lemma send_requests_good:
  "pq_ok lossy t oth (p\<lparr>pe_requests := qs\<rparr>) k \<Longrightarrow> good lossy t oth (p\<lparr>pe_requests := qs\<rparr>) k (send_requests rnd t qs p k)"
proof (induction rnd t qs p k rule: send_requests.induct)
  case (1 rnd t p k)
  then show ?case by (simp add: good_id)
next
  case (2 rnd t q qs p k)
  note pq = "2.prems"
  let ?p = "p\<lparr>pe_requests := q # qs\<rparr>" and ?b = "pb_block q"
  have br: "?b \<in> set (requests_of ?p)" by (simp add: requests_of_def)
  note qu = valid_queries [OF pq_okD(7) [OF pq] pq_okD(6) [OF pq br]]
  show ?case
  proof (cases "pe_desired p \<le> int (length (pe_downloads p)) \<and> pe_time_critical p = 0")
    case True
    with pq show ?thesis by (simp add: good_id)
  next
    case more: False
    show ?thesis
    proof (cases "pp_have (pk_map k ! fst ?b) \<or> state_at k (fst ?b) (snd ?b) = StateFinished \<or>
        state_at k (fst ?b) (snd ?b) = StateWriting")
      case True
      let ?p1 = "(p\<lparr>pe_time_critical := pe_time_critical p - 1\<rparr>)\<lparr>pe_requests := qs\<rparr>"
      have "count_list (requests_of ?p1) c + count_list [?b] c = count_list (requests_of ?p) c" for c
        by (simp add: requests_of_def)
      moreover have "peer_ok k' ?p1" if "frame k k'" for k'
        by (rule peer_ok_less [OF pq_okD(2) [OF pq] that]) (use pq_okD(2) [OF pq] in \<open>auto simp: queued_blocks_def requests_of_def peer_ok_def\<close>)
      ultimately obtain k1 where k1: "abort_download (rnd [length qs]) (fst ?b) (snd ?b) (pe_info p) k = Some k1"
        "pq_ok lossy t oth ?p1 k1" "frame k k1"
        using abort_one [OF pq br, of ?p1 "rnd [length qs]" "pe_info p"] by blast
      have e: "send_requests rnd t (q # qs) p k = send_requests rnd t qs (p\<lparr>pe_time_critical := pe_time_critical p - 1\<rparr>) k1"
        using more True qu(3,4) k1(1) by auto
      have "good lossy t oth ?p1 k1 (send_requests rnd t qs (p\<lparr>pe_time_critical := pe_time_critical p - 1\<rparr>) k1)"
        by (rule "2.IH"(1) [OF more qu(4,3) _ k1(1,2)]) (use True in auto)
      then show ?thesis unfolding e by (rule good_trans [OF _ k1(3)]) (simp add: dead_def)
    next
      case False
      obtain run rest where r: "(if pe_large p then merge_run (m_piece_length (bt_files t) sdiv bt_block_size t) ?b qs else ([], qs)) =
        (run, rest)" by fastforce
      then have qs: "q # qs = (q # run) @ rest" using merge_run_append by (auto split: if_splits)
      have e: "send_requests rnd t (q # qs) p k = send_requests rnd t rest (send_one t (q # run) p) k"
        using more False qu(3,4) r by (auto split: prod.splits if_splits)
      note so = send_one_ok [OF pq [unfolded qs]]
      have "good lossy t oth ((send_one t (q # run) p)\<lparr>pe_requests := rest\<rparr>) k (send_requests rnd t rest (send_one t (q # run) p) k)"
        by (rule "2.IH"(2) [OF more qu(4,3) _ r [symmetric] refl so(1)]) (use False in auto)
      from good_trans [OF this frame_refl so(2)] show ?thesis unfolding e qs [symmetric] .
    qed
  qed
qed

lemma send_block_requests_good:
  assumes pq: "pq_ok lossy t oth p k"
  shows "good lossy t oth p k (send_block_requests rnd t p k)"
proof -
  have "p\<lparr>pe_requests := pe_requests p\<rparr> = p" by simp
  then have "good lossy t oth p k (send_requests (at_site 1 rnd) t (pe_requests p) p k)"
    using send_requests_good [where p = p and qs = "pe_requests p" and rnd = "at_site 1 rnd"] pq by simp
  with good_id [OF pq] disconnect_good(1) [OF pq] show ?thesis by (simp add: send_block_requests_def)
qed

lemma request_and_send_good:
  assumes pq: "pq_ok lossy t oth p k"
  shows "good lossy t oth p k (request_and_send rnd peers t p k)"
  unfolding request_and_send_def by (rule good_bind [OF request_a_block_good [OF pq] send_block_requests_good])

end
