(* ===== verification/PeerEventsOk.thy ===== *)
theory PeerEventsOk
  imports PeerQueueOk
begin

section \<open>The handlers keep the queues and the picker together\<close>

text \<open>
  Every handler of a peer ends, reads nothing outside the picker and keeps \<open>pq_ok\<close>: \<open>keeps t oth k r\<close>. Those that
  are part of \<^verbatim>\<open>cancel_non_critical\<close> leave no block in the download queue that the picker does not count, but
  the one they cancel.
\<close>

definition keeps_pq :: "bool \<Rightarrow> btorrent \<Rightarrow> (piece_block \<Rightarrow> nat) \<Rightarrow> picker \<Rightarrow> (peer_conn \<times> picker) option \<Rightarrow> bool" where
  "keeps_pq lossy t oth k r \<longleftrightarrow> (\<exists>p' k'. r = Some (p', k') \<and> pq_ok lossy t oth p' k' \<and> frame k k')"

lemma good_keeps: "good lossy t oth p k r \<Longrightarrow> keeps_pq lossy t oth k r"
  unfolding good_def keeps_pq_def by blast

lemma keeps_pq_trans: "keeps_pq lossy t oth k1 r \<Longrightarrow> frame k k1 \<Longrightarrow> keeps_pq lossy t oth k r"
  unfolding keeps_pq_def using frame_trans by blast

lemma keeps_pq_bind:
  assumes "keeps_pq lossy t oth k r" "\<And>p1 k1. r = Some (p1, k1) \<Longrightarrow> pq_ok lossy t oth p1 k1 \<Longrightarrow> frame k k1 \<Longrightarrow> keeps_pq lossy t oth k1 (f p1 k1)"
  shows "keeps_pq lossy t oth k (do { (p1, k1) \<leftarrow> r; f p1 k1 })"
proof -
  obtain p1 k1 where r: "r = Some (p1, k1)" "pq_ok lossy t oth p1 k1" "frame k k1" using assms(1) unfolding keeps_pq_def by blast
  from keeps_pq_trans [OF assms(2) [OF r] r(3)] r(1) show ?thesis by simp
qed

lemma keepsI: "pq_ok lossy t oth p' k' \<Longrightarrow> frame k k' \<Longrightarrow> keeps_pq lossy t oth k (Some (p', k'))"
  by (simp add: keeps_pq_def)

subsection \<open>Rejected\<close>

lemma find_if_nth: "find_if f xs \<noteq> length xs \<Longrightarrow> find_if f xs < length xs \<and> f (xs ! find_if f xs)"
  unfolding find_if_def
  by (metis (mono_tags, lifting) le_neq_implies_less length_takeWhile_le nth_length_takeWhile)

lemma erase_mset: "i < length xs \<Longrightarrow> mset xs = add_mset (xs ! i) (mset (erase_at i xs))"
  by (simp add: mset_erase_at)

lemma erase_subset: "set (erase_at i xs) \<subseteq> set xs"
  by (auto simp: erase_at_def dest: in_set_takeD in_set_dropD)

lemma filter_erase:
  "i < length xs \<Longrightarrow> mset (filter P xs) = (if P (xs ! i) then {#xs ! i#} else {#}) + mset (filter P (erase_at i xs))"
  using arg_cong [OF erase_mset [of i xs], of "filter_mset P"] by simp

lemma count_mset_list: "count_list (map f xs) b = count (image_mset f (mset xs)) b"
  by (metis count_mset mset_map)

lemma erase_download_ok:
  assumes pq: "pq_ok lossy t oth p k" and i: "i < length (pe_downloads p)"
    and p': "pe_downloads p' = erase_at i (pe_downloads p)" "pe_requests p' = pe_requests p" "pe_bits p' = pe_bits p"
      "set (pe_suggested p') \<subseteq> set (pe_suggested p)" "pe_disconnecting p' = pe_disconnecting p"
  shows "count_list (requests_of p') b + (if live (pe_downloads p ! i) then count_list [pb_block (pe_downloads p ! i)] b else 0) =
      count_list (requests_of p) b" "peer_ok k p'" "dead p' \<subseteq> dead p"
proof -
  show c: "count_list (requests_of p') b + (if live (pe_downloads p ! i) then count_list [pb_block (pe_downloads p ! i)] b else 0) =
      count_list (requests_of p) b" for b
    using filter_erase [OF i, of live] by (simp add: requests_of_def p' count_list_append count_mset_list)
  have "set (requests_of p') \<subseteq> set (requests_of p)"
    using erase_subset [of i "pe_downloads p"] by (auto simp: requests_of_def p')
  moreover have "mset (queued_blocks p') \<subseteq># mset (queued_blocks p)"
    using erase_mset [OF i] by (simp add: queued_blocks_def p')
  ultimately show "peer_ok k p'"
    by (intro peer_ok_less [OF pq_okD(2) [OF pq] frame_refl]) (use p' pq_okD(2) [OF pq] i in \<open>auto simp: peer_ok_def\<close>)
  show "dead p' \<subseteq> dead p" using erase_subset [of i "pe_downloads p"] by (auto simp: dead_def p')
qed

lemma remove_piece_subset: "set (remove_piece x xs) \<subseteq> set xs"
  using set_remove1_subset [of "nat x" xs] by (simp add: remove_piece_def)

lemma reject_entry_good:
  assumes pq: "pq_ok lossy t oth p k" and con: "\<not> pe_disconnecting p"
  shows "good lossy t oth p k (reject_entry rnd t r p k)"
proof -
  define i where "i = find_if (\<lambda>q. match_request r (bt_block_size t) (pb_block q)) (pe_downloads p)"
  define q where "q = pe_downloads p ! i"
  define p0 where "p0 = p\<lparr>pe_downloads := erase_at i (pe_downloads p), pe_outstanding := max 0 (pe_outstanding p - pr_length r)\<rparr>"
  note first_def = reject_entry_def [of rnd t r p k, folded i_def, unfolded Let_def, folded i_def, folded q_def p0_def]
  show "good lossy t oth p k (reject_entry rnd t r p k)"
  proof (cases "i = length (pe_downloads p)")
    case True
    with good_id [OF pq] show ?thesis by (simp add: first_def)
  next
    case False
    then have i: "i < length (pe_downloads p)" using find_if_nth unfolding i_def by blast
    note er = erase_download_ok [OF pq i, of p0, folded q_def]
    have p0: "pe_downloads p0 = erase_at i (pe_downloads p)" "pe_requests p0 = pe_requests p" "pe_bits p0 = pe_bits p"
      "set (pe_suggested p0) \<subseteq> set (pe_suggested p)" "pe_disconnecting p0 = pe_disconnecting p" by (simp_all add: p0_def)
    note er = er [OF p0]
    have same: "pq_ok lossy t oth p0 k" if "\<not> live q \<or> (\<forall>b. \<not> open_block k b)"
    proof (rule pq_move [OF pq frame_refl _ er(2)])
      show "counted lossy k (\<lambda>b. oth b + count_list (requests_of p0) b)"
        using that er(1) pq_okD(1) [OF pq] by (auto simp: counted_def)
    qed
    consider (parole) "on_parole p" "live q" | (given) "\<not> on_parole p" "\<not> is_seed t k" "live q" | (other) "\<not> live q"
      | (seed) "\<not> on_parole p" "is_seed t k" by blast
    then show ?thesis
    proof cases
      case parole
      let ?p1 = "p0\<lparr>pe_requests := q # pe_requests p\<rparr>"
      have m: "mset (requests_of ?p1) = mset (requests_of p)" "mset (queued_blocks ?p1) = mset (queued_blocks p)"
        using parole(2) filter_erase [OF i, of live] erase_mset [OF i]
        by (simp_all add: requests_of_def queued_blocks_def p0(1) q_def)
      have "count_list (requests_of ?p1) b = count_list (requests_of p) b" for b using m(1) by (metis count_mset)
      then have "counted lossy k (\<lambda>b. oth b + count_list (requests_of ?p1) b)" using pq_okD(1) [OF pq] by simp
      moreover have "peer_ok k ?p1"
        using pq_okD(2) [OF pq] mset_eq_setD [OF m(1)] mset_eq_imp_distinct_iff [OF m(2)] parole(2) con p0 by (auto simp: peer_ok_def)
      ultimately have "pq_ok lossy t oth ?p1 k" by (rule pq_move [OF pq frame_refl])
      moreover have "dead ?p1 \<subseteq> dead p" using er(3) by (simp add: dead_def)
      ultimately show ?thesis using False parole goodI by (simp add: first_def)
    next
      case given
      have "pb_block q \<in> set (requests_of p)" using given(3) i by (auto simp: requests_of_def q_def)
      from abort_one [OF pq this, of p0 "rnd [0]" "pe_info p"] er(1,2) given(3) peer_ok_frame
      obtain k' where "abort_download (rnd [0]) (fst (pb_block q)) (snd (pb_block q)) (pe_info p) k = Some k'"
        "pq_ok lossy t oth p0 k'" "frame k k'" by auto
      with False given er(3) goodI show ?thesis by (simp add: first_def)
    next
      case other
      with False same er(3) goodI [of lossy t oth p0 k k p] show ?thesis by (simp add: first_def)
    next
      case seed
      with False same er(3) goodI [of lossy t oth p0 k k p] seed_closed(1) [OF pq_okD(7,3) [OF pq]] show ?thesis
        by (simp add: first_def)
    qed
  qed
qed

text \<open>What follows the entry: the lists of pieces, and a new request when the queues are short.\<close>

definition after_reject :: "peer_request \<Rightarrow> peer_conn \<Rightarrow> peer_conn" where
  "after_reject r p = (if pe_choked p then p\<lparr>pe_allowed_fast := remove_piece (pr_piece r) (pe_allowed_fast p)\<rparr>
     else p\<lparr>pe_suggested := remove_piece (pr_piece r) (pe_suggested p)\<rparr>)"

lemma after_reject_same: "same_queues p (after_reject r p)"
  using remove_piece_subset [of "pr_piece r"] by (simp add: same_queues_def after_reject_def)

lemma reject_split:
  "\<not> pe_disconnecting p \<Longrightarrow> incoming_reject_request rnd peers t r p k = do {
     (p1, k1) \<leftarrow> reject_entry rnd t r p k;
     if pe_requests (after_reject r p1) = [] \<and> length (pe_downloads (after_reject r p1)) < 2
     then request_and_send (at_site 1 rnd) peers t (after_reject r p1) k1
     else Some (after_reject r p1, k1)
   }"
  unfolding incoming_reject_request_def after_reject_def Let_def by (simp only: if_False)

lemma incoming_reject_request_good:
  assumes pq: "pq_ok lossy t oth p k"
  shows "good lossy t oth p k (incoming_reject_request rnd peers t r p k)"
proof (cases "pe_disconnecting p")
  case True
  with good_id [OF pq] show ?thesis by (simp add: incoming_reject_request_def)
next
  case False
  show ?thesis unfolding reject_split [OF False]
  proof (rule good_bind [OF reject_entry_good [OF pq False]])
    fix p1 k1 assume p1: "pq_ok lossy t oth p1 k1"
    show "good lossy t oth p1 k1 (if pe_requests (after_reject r p1) = [] \<and> length (pe_downloads (after_reject r p1)) < 2
      then request_and_send (at_site 1 rnd) peers t (after_reject r p1) k1 else Some (after_reject r p1, k1))"
      using good_same [OF p1 after_reject_same request_and_send_good] good_same [OF p1 after_reject_same good_id] by simp
  qed
qed

lemma incoming_choke_good:
  assumes pq: "pq_ok lossy t oth p k"
  shows "good lossy t oth p k (incoming_choke rnd t p k)"
proof -
  have "same_queues p (p\<lparr>pe_choked := True, pe_endgame := False\<rparr>)" by (simp add: same_queues_def)
  from good_same [OF pq this clear_request_queue_good] good_id [OF pq] show ?thesis by (simp add: incoming_choke_def)
qed

lemma asked_after:
  assumes pq: "pq_ok lossy t oth p k" and s: "same_queues p p1"
  shows "good lossy t oth p k (if c then Some (p1, k) else request_and_send rnd peers t p1 k)"
  using good_same [OF pq s request_and_send_good] good_same [OF pq s good_id] by simp

lemma incoming_unchoke_good: "pq_ok lossy t oth p k \<Longrightarrow> good lossy t oth p k (incoming_unchoke rnd peers t p k)"
  unfolding incoming_unchoke_def Let_def by (rule asked_after) (simp_all add: same_queues_def)

lemma peer_is_interesting_good: "pq_ok lossy t oth p k \<Longrightarrow> good lossy t oth p k (peer_is_interesting rnd peers t p k)"
  unfolding peer_is_interesting_def Let_def by (rule asked_after) (simp_all add: same_queues_def)

lemma endgame_tick_good: "pq_ok lossy t oth p k \<Longrightarrow> good lossy t oth p k (endgame_tick rnd peers t p k)"
  using request_and_send_good good_id by (simp add: endgame_tick_def)

subsection \<open>A block begins to come in\<close>

lemma takeWhile_all_length: "length (takeWhile P xs) = length xs \<longleftrightarrow> (\<forall>x \<in> set xs. P x)"
  by (induction xs) auto

lemma find_block:
  "find_if (has_block b) xs < length xs \<longleftrightarrow> b \<in> set (map pb_block xs)"
  "find_if (has_block b) xs < length xs \<Longrightarrow> pb_block (xs ! find_if (has_block b) xs) = b"
proof -
  have "find_if (has_block b) xs \<le> length xs" by (simp add: find_if_def length_takeWhile_le)
  moreover have "find_if (has_block b) xs = length xs \<longleftrightarrow> b \<notin> set (map pb_block xs)"
    by (auto simp: find_if_def has_block_def takeWhile_all_length)
  ultimately show "find_if (has_block b) xs < length xs \<longleftrightarrow> b \<in> set (map pb_block xs)" by linarith
  show "pb_block (xs ! find_if (has_block b) xs) = b" if "find_if (has_block b) xs < length xs"
    using find_if_nth [of "has_block b" xs] that by (simp add: has_block_def)
qed

lemma start_receive_piece_keeps:
  assumes pq: "pq_ok lossy t oth p k"
  shows "keeps_pq lossy t oth k (start_receive_piece rnd t r p k)"
proof (cases "verify_piece t r")
  case False
  with good_keeps [OF disconnect_good(1) [OF pq]] show ?thesis by (simp add: start_receive_piece_def)
next
  case v: True
  define b where "b = req_block t r"
  let ?p1 = "p\<lparr>pe_receiving := Some b\<rparr>"
  have s: "same_queues p ?p1" by (simp add: same_queues_def)
  show ?thesis
  proof (cases "list_ex (has_block b) (pe_downloads p) \<or> pe_disconnecting p")
    case True
    with v keepsI [OF pq_same(1) [OF pq s] frame_refl] show ?thesis by (simp add: start_receive_piece_def b_def)
  next
    case False
    define i where "i = find_if (has_block b) (pe_requests p)"
    have nd: "b \<notin> set (map pb_block (pe_downloads p))" using False by (auto simp: list_ex_iff has_block_def)
    define q where "q = (pending b)\<lparr>pb_not_wanted := \<not> i < length (pe_requests p)\<rparr>"
    define p2 where "p2 = (if i < length (pe_requests p)
      then ?p1\<lparr>pe_time_critical := pe_time_critical p - (if i < pe_time_critical p then 1 else 0),
               pe_requests := erase_at i (pe_requests p)\<rparr> else ?p1)"
    define p3 where "p3 = p2\<lparr>pe_downloads := q # pe_downloads p, pe_outstanding := pe_outstanding p + pr_length r\<rparr>"
    have qb: "pb_block q = b" "live q \<longleftrightarrow> i < length (pe_requests p)" by (simp_all add: q_def pending_def live_def)
    have e: "start_receive_piece rnd t r p k = Some (p3, k)"
      using v False unfolding start_receive_piece_def Let_def b_def [symmetric] i_def [symmetric] p3_def p2_def q_def by simp
    have f: "pe_downloads p3 = q # pe_downloads p" "pe_bits p3 = pe_bits p" "pe_suggested p3 = pe_suggested p"
      "pe_disconnecting p3 = pe_disconnecting p"
      "pe_requests p3 = (if i < length (pe_requests p) then erase_at i (pe_requests p) else pe_requests p)"
      by (simp_all add: p3_def p2_def)
    have "mset (requests_of p3) = mset (requests_of p) \<and> distinct (queued_blocks p3) \<and> set (pe_requests p3) \<subseteq> set (pe_requests p)"
    proof (cases "i < length (pe_requests p)")
      case True
      have "pb_block (pe_requests p ! i) = b" using find_block(2) [of b] True by (simp add: i_def)
      then have "mset (requests_of p3) = mset (requests_of p)" "mset (queued_blocks p3) = mset (queued_blocks p)"
        using True qb erase_mset [OF True] by (simp_all add: requests_of_def queued_blocks_def f)
      with mset_eq_imp_distinct_iff [OF this(2)] pq_okD(5) [OF pq] True erase_subset show ?thesis by (simp add: f)
    next
      case no: False
      then have "b \<notin> set (map pb_block (pe_requests p))" using find_block(1) [of b] by (simp add: i_def)
      with no nd qb pq_okD(5) [OF pq] show ?thesis by (auto simp: requests_of_def queued_blocks_def f)
    qed
    then have m: "mset (requests_of p3) = mset (requests_of p)" "distinct (queued_blocks p3)" "set (pe_requests p3) \<subseteq> set (pe_requests p)"
      by blast+
    have "count_list (requests_of p3) c = count_list (requests_of p) c" for c using m(1) by (metis count_mset)
    then have "counted lossy k (\<lambda>b. oth b + count_list (requests_of p3) b)" using pq_okD(1) [OF pq] by simp
    moreover have "peer_ok k p3"
      using pq_okD(2) [OF pq] mset_eq_setD [OF m(1)] m(2,3) False f(2-4) by (auto simp: peer_ok_def list_all_iff)
    ultimately have "pq_ok lossy t oth p3 k" by (rule pq_move [OF pq frame_refl])
    then show ?thesis unfolding e by (simp add: keepsI)
  qed
qed

text \<open>The requests that were skipped.\<close>

lemma change_entry:
  assumes "pq_ok lossy t oth (p\<lparr>pe_downloads := pre @ q # qs\<rparr>) k" "pb_block q' = pb_block q" "live q' = live q"
  shows "pq_ok lossy t oth (p\<lparr>pe_downloads := pre @ q' # qs\<rparr>) k"
proof -
  let ?p = "p\<lparr>pe_downloads := pre @ q # qs\<rparr>" and ?p' = "p\<lparr>pe_downloads := pre @ q' # qs\<rparr>"
  have "requests_of ?p' = requests_of ?p" "queued_blocks ?p' = queued_blocks ?p"
    using assms(2,3) by (simp_all add: requests_of_def queued_blocks_def)
  with assms(1) show ?thesis by (simp add: pq_ok_def peer_ok_def)
qed

lemma skip_requests_ok:
  "pq_ok lossy t oth (p\<lparr>pe_downloads := pre @ qs @ post\<rparr>) k \<Longrightarrow>
   \<exists>kept bytes' k'. skip_requests rnd t p0 qs bytes k = Some (kept, bytes', k') \<and>
     pq_ok lossy t oth (p\<lparr>pe_downloads := pre @ kept @ post\<rparr>) k' \<and> frame k k'"
proof (induction qs arbitrary: pre bytes k)
  case Nil
  then show ?case by simp
next
  case (Cons q qs)
  note pq = Cons.prems
  let ?q = "q\<lparr>pb_skipped := (pb_skipped q + 1) mod 8192\<rparr>"
  have lq: "live ?q = live q" "pb_block ?q = pb_block q" by (simp_all add: live_def)
  show ?case
  proof (cases "bt_drop_skipped t \<and> pe_desired p0 * 2 < int (pb_skipped ?q)")
    case keep: False
    have "pq_ok lossy t oth (p\<lparr>pe_downloads := (pre @ [?q]) @ qs @ post\<rparr>) k"
      using change_entry [OF pq [simplified] lq(2,1)] by simp
    from Cons.IH [OF this, of bytes] obtain kept bytes' k' where
      "skip_requests rnd t p0 qs bytes k = Some (kept, bytes', k')"
      "pq_ok lossy t oth (p\<lparr>pe_downloads := (pre @ [?q]) @ kept @ post\<rparr>) k'" "frame k k'" by blast
    with keep show ?thesis by (auto simp: Let_def)
  next
    case drop: True
    let ?p = "p\<lparr>pe_downloads := pre @ q # qs @ post\<rparr>" and ?p' = "p\<lparr>pe_downloads := pre @ qs @ post\<rparr>"
    have pq': "pq_ok lossy t oth ?p k" using pq by simp
    have nth: "pe_downloads ?p ! length pre = q" "pe_downloads ?p' = erase_at (length pre) (pe_downloads ?p)"
      "length pre < length (pe_downloads ?p)"
      by (simp_all add: erase_at_def)
    have er: "count_list (requests_of ?p') b + (if live q then count_list [pb_block q] b else 0) = count_list (requests_of ?p) b"
      "peer_ok k ?p'" for b
      using erase_download_ok [OF pq' nth(3,2)] unfolding nth(1) by simp_all
    obtain k1 where k1: "(if live q then abort_download (rnd [length qs]) (fst (pb_block q)) (snd (pb_block q)) (pe_info p0) k else Some k) = Some k1"
      "pq_ok lossy t oth ?p' k1" "frame k k1"
    proof (cases "live q")
      case True
      have "pb_block q \<in> set (requests_of ?p)" using True by (simp add: requests_of_def)
      from abort_one [OF pq' this, of ?p' "rnd [length qs]" "pe_info p0"] er peer_ok_frame [OF er(2)] True that show thesis by auto
    next
      case False
      have "pq_ok lossy t oth ?p' k"
        by (rule pq_move [OF pq' frame_refl _ er(2)]) (use pq_okD(1) [OF pq'] er(1) False in simp)
      with False that show thesis by simp
    qed
    from Cons.IH [OF k1(2), of "max 0 (bytes - pr_length (to_req t (pb_block q)))"] obtain kept bytes' k' where
      "skip_requests rnd t p0 qs (max 0 (bytes - pr_length (to_req t (pb_block q)))) k1 = Some (kept, bytes', k')"
      "pq_ok lossy t oth (p\<lparr>pe_downloads := pre @ kept @ post\<rparr>) k'" "frame k1 k'" by blast
    with drop k1(1) frame_trans [OF k1(3)] show ?thesis by (auto simp: Let_def)
  qed
qed

subsection \<open>Snubbed\<close>

text \<open>A block that the picker still counts is marked as one that it does not, and given back.\<close>

lemma give_up_entry:
  assumes pq: "pq_ok lossy t oth p k" and i: "i < length (pe_downloads p)" "live (pe_downloads p ! i)"
    and q': "pb_block q' = pb_block (pe_downloads p ! i)" "\<not> live q'"
    and p': "p' = p\<lparr>pe_downloads := (pe_downloads p)[i := q']\<rparr>"
  shows "\<exists>k'. abort_download random (fst (pb_block q')) (snd (pb_block q')) peer k = Some k' \<and> pq_ok lossy t oth p' k' \<and> frame k k' \<and>
    dead p' \<subseteq> insert (pb_block q') (dead p)"
proof -
  let ?q = "pe_downloads p ! i"
  have b: "pb_block ?q \<in> set (requests_of p)" using i by (auto simp: requests_of_def)
  have up: "mset ((pe_downloads p)[i := q']) = add_mset q' (mset (erase_at i (pe_downloads p)))"
    using erase_mset [of i "(pe_downloads p)[i := q']"] i(1) by simp
  have "mset (filter live ((pe_downloads p)[i := q'])) = mset (filter live (erase_at i (pe_downloads p)))"
    using arg_cong [OF up, of "filter_mset live"] q'(2) by simp
  then have "mset (filter live (pe_downloads p)) = add_mset ?q (mset (filter live ((pe_downloads p)[i := q'])))"
    using filter_erase [OF i(1), of live] i(2) by simp
  then have c: "count_list (requests_of p') c + count_list [pb_block ?q] c = count_list (requests_of p) c" for c
    by (simp add: requests_of_def p' count_list_append count_mset_list)
  have m: "map pb_block ((pe_downloads p)[i := q']) = map pb_block (pe_downloads p)"
    using q'(1) i(1) by (metis list_update_id map_update nth_map)
  have s: "set (requests_of p') \<subseteq> set (requests_of p)"
  proof
    fix x assume "x \<in> set (requests_of p')"
    then have "0 < count_list (requests_of p') x" by (metis count_list_0_iff gr0I)
    then show "x \<in> set (requests_of p)" using c [of x] by (metis add_is_0 count_list_0_iff neq0_conv)
  qed
  have "queued_blocks p' = queued_blocks p" using m by (simp add: queued_blocks_def p')
  then have "peer_ok k' p'" if "frame k k'" for k'
    by (intro peer_ok_less [OF pq_okD(2) [OF pq] that _ s]) (use pq_okD(2) [OF pq] i in \<open>auto simp: peer_ok_def p'\<close>)
  from abort_one [OF pq b c this, of random peer] obtain k' where
    "abort_download random (fst (pb_block ?q)) (snd (pb_block ?q)) peer k = Some k'" "pq_ok lossy t oth p' k'" "frame k k'" by blast
  moreover have "dead p' \<subseteq> insert (pb_block q') (dead p)"
    by (auto simp: dead_def p' dest!: set_update_subset_insert [THEN subsetD])
  ultimately show ?thesis using q'(1) by auto
qed

lemma last_live:
  assumes "find_if live (rev xs) \<noteq> length xs"
  shows "length xs - 1 - find_if live (rev xs) < length xs" "live (xs ! (length xs - 1 - find_if live (rev xs)))"
proof -
  have f: "find_if live (rev xs) < length xs" "live (rev xs ! find_if live (rev xs))"
    using find_if_nth [of live "rev xs"] assms by simp_all
  then show "length xs - 1 - find_if live (rev xs) < length xs" by simp
  show "live (xs ! (length xs - 1 - find_if live (rev xs)))" using f by (simp add: rev_nth)
qed

lemma snub_peer_keeps:
  assumes pq: "pq_ok lossy t oth p k"
  shows "keeps_pq lossy t oth k (snub_peer rnd peers t p k)"
proof (cases "on_parole p")
  case True
  let ?p0 = "p\<lparr>pe_snubbed := True, pe_desired := 1\<rparr>"
  have "same_queues p ?p0" by (simp add: same_queues_def)
  from keepsI [OF pq_same(1) [OF pq this] frame_refl] True show ?thesis by (simp add: snub_peer_def Let_def)
next
  case False
  let ?p1 = "(p\<lparr>pe_snubbed := True, pe_desired := 1\<rparr>)\<lparr>pe_requests := [], pe_time_critical := 0, pe_desired := 2\<rparr>"
  obtain k1 where k1: "abort_all (at_site 0 rnd) (pe_info p) (rev (pe_requests p)) k = Some k1" "pq_ok lossy t oth ?p1 k1" "frame k k1"
    using drop_requests [OF pq, of "rev (pe_requests p)" ?p1] by auto
  define tail where "tail = (\<lambda>p2 k2. let p3 = p2\<lparr>pe_desired := 1\<rparr>; last = find_if live (rev (pe_downloads p3))
    in if last = length (pe_downloads p3) then send_block_requests (at_site 2 rnd) t p3 k2
       else do {
         let i = length (pe_downloads p3) - 1 - last;
         let q = pe_downloads p3 ! i;
         d \<leftarrow> piece_info (fst (pb_block q)) \<lparr>dp_info = 0, dp_index = 0, dp_finished = 0, dp_writing = 0, dp_requested = 0, dp_state = NoSpeed\<rparr> k2;
         if 0 < int (blocks_in_piece (fst (pb_block q)) k2) - dp_finished d - dp_writing d - dp_requested d then Some (p3, k2)
         else do {
           k3 \<leftarrow> abort_download (rnd [3]) (fst (pb_block q)) (snd (pb_block q)) (pe_info p) k2;
           send_block_requests (at_site 4 rnd) t (p3\<lparr>pe_downloads := (pe_downloads p3)[i := q\<lparr>pb_timed_out := True\<rparr>]\<rparr>) k3
         }
       })"
  have "keeps_pq lossy t oth k2 (tail p2 k2)" if p2: "pq_ok lossy t oth p2 k2" for p2 k2
  proof -
    define p3 where "p3 = p2\<lparr>pe_desired := 1\<rparr>"
    have "same_queues p2 p3" by (simp add: same_queues_def p3_def)
    then have p3: "pq_ok lossy t oth p3 k2" by (rule pq_same(1) [OF p2])
    define l where "l = find_if live (rev (pe_downloads p3))"
    show ?thesis
    proof (cases "l = length (pe_downloads p3)")
      case True
      with good_keeps [OF send_block_requests_good [OF p3]] show ?thesis by (simp add: tail_def Let_def p3_def l_def)
    next
      case no: False
      define i where "i = length (pe_downloads p3) - 1 - l"
      define q where "q = pe_downloads p3 ! i"
      have i: "i < length (pe_downloads p3)" "live (pe_downloads p3 ! i)"
        using last_live [of "pe_downloads p3"] no unfolding i_def l_def by blast+
      have "pb_block q \<in> set (requests_of p3)" using i by (auto simp: requests_of_def q_def)
      then have "fst (pb_block q) < length (pk_map k2)" using pq_okD(6) [OF p3] by (simp add: valid_block_def)
      from piece_info_ok [OF pq_okD(7) [OF p3] this] obtain d where
        d: "piece_info (fst (pb_block q)) \<lparr>dp_info = 0, dp_index = 0, dp_finished = 0, dp_writing = 0, dp_requested = 0, dp_state = NoSpeed\<rparr> k2 = Some d"
        by blast
      let ?q' = "q\<lparr>pb_timed_out := True\<rparr>"
      have "pb_block ?q' = pb_block (pe_downloads p3 ! i)" "\<not> live ?q'" by (simp_all add: q_def live_def)
      from give_up_entry [OF p3 i this refl, of "rnd [3]" "pe_info p"] obtain k3 where
        k3: "abort_download (rnd [3]) (fst (pb_block q)) (snd (pb_block q)) (pe_info p) k2 = Some k3"
        "pq_ok lossy t oth (p3\<lparr>pe_downloads := (pe_downloads p3)[i := ?q']\<rparr>) k3" "frame k2 k3" by auto
      have "tail p2 k2 = (if 0 < int (blocks_in_piece (fst (pb_block q)) k2) - dp_finished d - dp_writing d - dp_requested d
          then Some (p3, k2) else send_block_requests (at_site 4 rnd) t (p3\<lparr>pe_downloads := (pe_downloads p3)[i := ?q']\<rparr>) k3)"
        unfolding tail_def Let_def p3_def [symmetric] l_def [symmetric] if_not_P [OF no] i_def [symmetric] q_def [symmetric] d
          bind.bind_lunit k3(1) ..
      then show ?thesis using keepsI [OF p3 frame_refl] keeps_pq_trans [OF good_keeps [OF send_block_requests_good [OF k3(2)]] k3(3)] by simp
    qed
  qed
  from keeps_pq_trans [OF keeps_pq_bind [OF good_keeps [OF request_a_block_good [OF k1(2)]] this] k1(3)]
  have "keeps_pq lossy t oth k (do { (p2, k2) \<leftarrow> request_a_block (at_site 1 rnd) peers t ?p1 k1; tail p2 k2 })" .
  moreover have "snub_peer rnd peers t p k = do { (p2, k2) \<leftarrow> request_a_block (at_site 1 rnd) peers t ?p1 k1; tail p2 k2 }"
    unfolding snub_peer_def tail_def Let_def if_not_P [OF False] k1(1) bind.bind_lunit ..
  ultimately show ?thesis by simp
qed

subsection \<open>Cancelled\<close>

lemma write_cancel_good:
  assumes pq: "pq_ok lossy t oth p k"
  shows "good lossy t oth p k (write_cancel rnd peers t r p k)"
proof -
  let ?p1 = "p\<lparr>pe_sent := pe_sent p @ [SendCancel r]\<rparr>"
  have s: "same_queues p ?p1" by (simp add: same_queues_def)
  from good_same [OF pq s incoming_reject_request_good] good_same [OF pq s good_id] show ?thesis
    by (simp add: write_cancel_def Let_def)
qed

lemma write_cancels_keeps: "pq_ok lossy t oth p k \<Longrightarrow> keeps_pq lossy t oth k (write_cancels rnd peers t qs p k)"
proof (induction qs arbitrary: p k)
  case Nil
  then show ?case by (simp add: keepsI)
next
  case (Cons q qs)
  have "keeps_pq lossy t oth k (do { (p1, k1) \<leftarrow> write_cancel (at_site (length qs) rnd) peers t (to_req t (pb_block q)) p k;
      write_cancels rnd peers t qs p1 k1 })"
    by (rule keeps_pq_bind [OF good_keeps [OF write_cancel_good [OF Cons.prems]] Cons.IH])
  with Cons show ?case by simp
qed

lemma cancel_all_requests_keeps:
  assumes pq: "pq_ok lossy t oth p k"
  shows "keeps_pq lossy t oth k (cancel_all_requests rnd peers t p k)"
proof (cases "pe_disconnecting p")
  case True
  with keepsI [OF pq] show ?thesis by (simp add: cancel_all_requests_def)
next
  case False
  let ?p1 = "p\<lparr>pe_requests := [], pe_time_critical := 0\<rparr>"
  obtain k1 where k1: "abort_all (at_site 0 rnd) (pe_info p) (rev (pe_requests p)) k = Some k1" "pq_ok lossy t oth ?p1 k1" "frame k k1"
    using drop_requests [OF pq, of "rev (pe_requests p)" ?p1] by auto
  from keeps_pq_trans [OF write_cancels_keeps [OF k1(2)] k1(3)] False k1(1) show ?thesis by (simp add: cancel_all_requests_def)
qed

lemma cancel_request_ok:
  assumes pq: "pq_ok lossy t oth p k" and b: "valid_block k b" "b \<notin> dead p"
  shows "\<exists>p' k'. cancel_request rnd peers t b True p k = Some (p', k') \<and> pq_ok lossy t oth p' k' \<and> frame k k' \<and>
    dead p' \<subseteq> insert b (dead p)"
proof -
  note qu = valid_queries(2) [OF pq_okD(7) [OF pq] b(1)]
  define i where "i = find_if (has_block b) (pe_downloads p)"
  define l where "l = find_if (has_block b) (pe_requests p)"
  have le: "i \<le> length (pe_downloads p)" "l \<le> length (pe_requests p)" by (simp_all add: i_def l_def find_if_def length_takeWhile_le)
  consider (none) "pe_disconnecting p \<or> state_at k (fst b) (snd b) \<noteq> StateRequested \<or>
      i = length (pe_downloads p) \<and> l = length (pe_requests p)"
    | (unsent) "\<not> pe_disconnecting p" "state_at k (fst b) (snd b) = StateRequested" "i = length (pe_downloads p)" "l < length (pe_requests p)"
    | (sent) "\<not> pe_disconnecting p" "state_at k (fst b) (snd b) = StateRequested" "i < length (pe_downloads p)"
    using le by linarith
  then show ?thesis
  proof cases
    case none
    then have "cancel_request rnd peers t b True p k = Some (p, k)"
      using qu unfolding cancel_request_def Let_def i_def [symmetric] l_def [symmetric] by auto
    with pq show ?thesis by auto
  next
    case unsent
    let ?p' = "p\<lparr>pe_time_critical := pe_time_critical p - (if l < pe_time_critical p then 1 else 0),
      pe_requests := erase_at l (pe_requests p)\<rparr>"
    have q: "pb_block (pe_requests p ! l) = b" using find_block(2) [of b "pe_requests p"] unsent(4) by (simp add: l_def)
    have m: "mset (pe_requests p) = add_mset (pe_requests p ! l) (mset (erase_at l (pe_requests p)))" by (rule erase_mset [OF unsent(4)])
    have "count_list (requests_of ?p') c + count_list [b] c = count_list (requests_of p) c" for c
      using m q by (simp add: requests_of_def count_list_append count_mset_list)
    moreover have "b \<in> set (requests_of p)" using q unsent(4) by (auto simp: requests_of_def)
    moreover have "peer_ok k' ?p'" if "frame k k'" for k'
    proof (rule peer_ok_less [OF pq_okD(2) [OF pq] that])
      show "mset (queued_blocks ?p') \<subseteq># mset (queued_blocks p)" using m by (simp add: queued_blocks_def)
    qed (use erase_subset [of l "pe_requests p"] unsent(1) in \<open>auto simp: requests_of_def\<close>)
    ultimately obtain k' where k': "abort_download (rnd [0]) (fst b) (snd b) (pe_info p) k = Some k'" "pq_ok lossy t oth ?p' k'" "frame k k'"
      using abort_one [OF pq, of "pending b" ?p' "rnd [0]" "pe_info p"] by auto
    have "cancel_request rnd peers t b True p k = Some (?p', k')"
      using qu unsent k'(1) unfolding cancel_request_def Let_def i_def [symmetric] l_def [symmetric] by auto
    with k' show ?thesis by (auto simp: dead_def)
  next
    case sent
    have q: "pb_block (pe_downloads p ! i) = b" using find_block(2) [of b "pe_downloads p"] sent(3) by (simp add: i_def)
    have lv: "live (pe_downloads p ! i)" using b(2) q sent(3) by (auto simp: dead_def)
    let ?q' = "(pe_downloads p ! i)\<lparr>pb_not_wanted := True\<rparr>"
    let ?p1 = "p\<lparr>pe_downloads := (pe_downloads p)[i := ?q']\<rparr>"
    obtain k1 where k1: "abort_download (rnd [0]) (fst b) (snd b) (pe_info p) k = Some k1" "pq_ok lossy t oth ?p1 k1" "frame k k1"
      "dead ?p1 \<subseteq> insert b (dead p)"
      using give_up_entry [OF pq sent(3) lv _ _ refl, of ?q' "rnd [0]" "pe_info p"] q by (auto simp: live_def)
    have e: "cancel_request rnd peers t b True p k = (if pe_outstanding p < pr_length (to_req t b) then Some (?p1, k1)
        else write_cancel (at_site 1 rnd) peers t (to_req t b) ?p1 k1)"
      using qu sent k1(1) unfolding cancel_request_def Let_def i_def [symmetric] l_def [symmetric] by simp
    have "good lossy t oth ?p1 k1 (cancel_request rnd peers t b True p k)"
      unfolding e using good_id [OF k1(2)] write_cancel_good [OF k1(2)] by simp
    then obtain p' k' where "cancel_request rnd peers t b True p k = Some (p', k')" "pq_ok lossy t oth p' k'" "frame k1 k'" "dead p' \<subseteq> dead ?p1"
      unfolding good_def by blast
    with frame_trans [OF k1(3)] k1(4) show ?thesis by blast
  qed
qed

lemma cancel_request_ignored:
  assumes "pk_inv k" "valid_block k b" "state_at k (fst b) (snd b) \<noteq> StateRequested"
  shows "cancel_request rnd peers t b force p k = Some (p, k)"
  using valid_queries(2) [OF assms(1,2)] assms(3) by (simp add: cancel_request_def)

lemma cancel_each_ok:
  assumes "pq_ok lossy t oth p k" "distinct (map pb_block qs)" "\<And>b. b \<in> set (map pb_block qs) \<Longrightarrow> valid_block k b \<and> b \<notin> dead p"
  shows "keeps_pq lossy t oth k (cancel_each rnd peers t qs p k)"
  using assms
proof (induction qs arbitrary: p k)
  case Nil
  then show ?case by (simp add: keepsI)
next
  case (Cons q qs)
  have rest: "distinct (map pb_block qs)" "pb_block q \<notin> set (map pb_block qs)" using Cons.prems(2) by auto
  show ?case
  proof (cases "fst (pb_block q) \<in> set (bt_critical t)")
    case True
    have "keeps_pq lossy t oth k (cancel_each rnd peers t qs p k)" by (rule Cons.IH [OF Cons.prems(1) rest(1)]) (use Cons.prems(3) in simp)
    with True show ?thesis by simp
  next
    case False
    obtain p1 k1 where c: "cancel_request (at_site (length qs) rnd) peers t (pb_block q) True p k = Some (p1, k1)" "pq_ok lossy t oth p1 k1"
      "frame k k1" "dead p1 \<subseteq> insert (pb_block q) (dead p)"
      using cancel_request_ok [OF Cons.prems(1), of "pb_block q" "at_site (length qs) rnd" peers] Cons.prems(3) by auto
    have "valid_block k1 b \<and> b \<notin> dead p1" if "b \<in> set (map pb_block qs)" for b
    proof -
      have "b \<noteq> pb_block q" using that rest(2) by blast
      with that Cons.prems(3) [of b] c(4) frame_valid [OF c(3), of b] show ?thesis by auto
    qed
    from keeps_pq_trans [OF Cons.IH [OF c(2) rest(1) this] c(3)] False c(1) show ?thesis by simp
  qed
qed

lemma cancel_queues_keeps:
  assumes pq: "pq_ok lossy t oth p k"
  shows "keeps_pq lossy t oth k (cancel_queues rnd peers t p k)"
  unfolding cancel_queues_def
proof (rule keeps_pq_bind)
  have d: "distinct (map pb_block (pe_downloads p))" using pq_okD(5) [OF pq] by (simp add: queued_blocks_def)
  show "keeps_pq lossy t oth k (cancel_each (at_site 0 rnd) peers t (filter live (pe_downloads p)) p k)"
  proof (rule cancel_each_ok [OF pq])
    show "distinct (map pb_block (filter live (pe_downloads p)))" using d by (rule distinct_map_filter)
    fix b assume "b \<in> set (map pb_block (filter live (pe_downloads p)))"
    then obtain q where q: "q \<in> set (pe_downloads p)" "live q" "pb_block q = b" by auto
    then have "b \<in> set (requests_of p)" by (auto simp: requests_of_def)
    moreover have "b \<notin> dead p" using q d by (auto simp: dead_def distinct_map inj_on_def)
    ultimately show "valid_block k b \<and> b \<notin> dead p" using pq_okD(6) [OF pq] by blast
  qed
  fix p1 k1
  assume p1: "pq_ok lossy t oth p1 k1"
  show "keeps_pq lossy t oth k1 (cancel_each (at_site 1 rnd) peers t (pe_requests p1) p1 k1)"
  proof (rule cancel_each_ok [OF p1])
    show "distinct (map pb_block (pe_requests p1))" using pq_okD(5) [OF p1] by (simp add: queued_blocks_def)
    fix b assume b: "b \<in> set (map pb_block (pe_requests p1))"
    then have "b \<in> set (requests_of p1)" by (simp add: requests_of_def)
    moreover have "b \<notin> dead p1" using b pq_okD(5) [OF p1] by (auto simp: dead_def queued_blocks_def)
    ultimately show "valid_block k1 b \<and> b \<notin> dead p1" using pq_okD(6) [OF p1] by blast
  qed
qed

subsection \<open>Choked\<close>

lemma reject_all_keeps:
  "pq_ok lossy t oth p k \<Longrightarrow> reject_all n rnd peers t p k = Some (p', k') \<Longrightarrow> pq_ok lossy t oth p' k' \<and> frame k k'"
proof (induction n arbitrary: p k)
  case 0
  then show ?case by (auto simp: reject_all.simps [of 0] split: if_splits)
next
  case (Suc n)
  show ?case
  proof (cases "pe_downloads p = []")
    case True
    with Suc.prems show ?thesis by (simp add: reject_all.simps [of "Suc n"])
  next
    case False
    let ?r = "rejected t (pb_block (hd (pe_downloads p)))"
    obtain p1 k1 where r: "incoming_reject_request (at_site (Suc n) rnd) peers t ?r p k = Some (p1, k1)" "pq_ok lossy t oth p1 k1" "frame k k1"
      using incoming_reject_request_good [OF Suc.prems(1)] unfolding good_def by blast
    have "reject_all n rnd peers t p1 k1 = Some (p', k')"
      using Suc.prems(2) False r(1) by (simp add: reject_all.simps [of "Suc n"])
    from Suc.IH [OF r(2) this] frame_trans [OF r(3)] show ?thesis by blast
  qed
qed

lemma on_choke_keeps:
  assumes pq: "pq_ok lossy t oth p k" and r: "on_choke rnd peers t p k = Some (p', k')"
  shows "keeps_pq lossy t oth k (Some (p', k'))"
proof -
  obtain p1 k1 where c: "incoming_choke (at_site 0 rnd) t p k = Some (p1, k1)" "pq_ok lossy t oth p1 k1" "frame k k1"
    using incoming_choke_good [OF pq] unfolding good_def by blast
  show ?thesis
  proof (cases "pe_disconnecting p1 \<or> pe_fast p1")
    case True
    with r c keepsI [OF c(2,3)] show ?thesis by (simp add: on_choke_def)
  next
    case False
    with r c(1) have "reject_all (length (pe_downloads p1)) (at_site 1 rnd) peers t p1 k1 = Some (p', k')"
      by (simp add: on_choke_def)
    from reject_all_keeps [OF c(2) this] frame_trans [OF c(3)] show ?thesis by (blast intro: keepsI)
  qed
qed

text \<open>A peer without the fast extension that has choked us is asked for nothing.\<close>

definition quiet :: "peer_conn \<Rightarrow> bool" where
  "quiet p \<longleftrightarrow> pe_choked p \<and> pe_allowed_fast p = []"

lemma request_nothing:
  assumes pq: "pq_ok lossy t oth p k" and q: "quiet p"
  shows "\<exists>p' k'. request_a_block rnd peers t p k = Some (p', k') \<and> pq_ok lossy t oth p' k' \<and> frame k k' \<and>
    (p' = p \<or> p' = update_speed t p)"
proof (cases "is_seed t k \<or> pe_no_download p \<or> bt_upload_mode t \<or> pe_disconnecting p \<or> \<not> bt_metadata t \<or> \<not> bt_checked t")
  case True
  with pq show ?thesis by (simp add: request_a_block_def)
next
  case idle: False
  let ?critical = "bt_critical t \<noteq> []"
  define num where "num = (if ?critical then min 1 (desired_queue_size p) else desired_queue_size p) -
    int (length (pe_downloads p)) - int (length (pe_requests p))"
  show ?thesis
  proof (cases "num \<le> 0")
    case True
    with idle pq show ?thesis by (simp add: request_a_block_def Let_def num_def)
  next
    case n: False
    define whole where "whole = (if prefer_whole_pieces p = 0 \<and> \<not> ?critical
      then (if m_piece_length (bt_files t) < pe_rate p * bt_whole_threshold t then 1 else 0) else prefer_whole_pieces p)"
    let ?p1 = "update_speed t p"
    have sg: "pe_suggested ?p1 = pe_suggested p" "pe_choked ?p1" using q by (simp_all add: update_speed_def quiet_def)
    obtain picks k1 where pk: "pick_pieces (picker_options t ?p1 k (request_bits p) whole (peer_speed t p)) (bt_pads t) peers
        (pe_suggested p) (nat num) (\<lambda>i. rnd [0, i]) (rnd [1]) (rnd [2]) k = Some (picks, k1)"
      "pq_ok lossy t oth ?p1 k1" "frame k k1" "\<forall>b \<in> set picks. wanted_block k b \<and> request_bits p ! fst b"
      using pick_for_peer [OF pq_same(1) [OF pq update_speed_same [of p t]], where num = "nat num" and bits = "request_bits p" and
          whole = whole and speed = "peer_speed t p" and pad = "bt_pads t" and peers = peers and rnd = "\<lambda>i. rnd [0, i]" and
          ?r1.0 = "rnd [1]" and ?r2.0 = "rnd [2]"] n
      unfolding sg(1) by (auto simp del: One_nat_def)
    have "\<not> request_bits p ! x" if "x < length (pk_map k)" for x
      using q that pq_okD(2) [OF pq] by (simp add: request_bits_def quiet_def peer_ok_def)
    then have picks: "picks = []" using pk(4) by (cases picks) (auto simp: wanted_block_def valid_block_def)
    have "request_a_block rnd peers t p k = Some (?p1, k1)"
      unfolding request_a_block_def if_not_P [OF idle] Let_def num_def [symmetric] if_not_P [OF n] whole_def [symmetric] pk(1)
        picks bind.bind_lunit prod.case request_picks.simps(1)
      using n sg(2) by simp
    with pk(2,3) show ?thesis by blast
  qed
qed

lemma quiet_asked:
  assumes pq: "pq_ok lossy t oth p k" and q: "quiet p" "pe_requests p = []"
  shows "\<exists>p' k'. request_and_send rnd peers t p k = Some (p', k') \<and> pq_ok lossy t oth p' k' \<and> quiet p' \<and> pe_requests p' = [] \<and>
    (pe_downloads p' = pe_downloads p \<or> pe_downloads p' = [])"
proof -
  obtain p1 k1 where r: "request_a_block (at_site 0 rnd) peers t p k = Some (p1, k1)" "pq_ok lossy t oth p1 k1"
    "p1 = p \<or> p1 = update_speed t p"
    using request_nothing [OF pq q(1), of "at_site 0 rnd" peers] by blast
  have p1: "quiet p1" "pe_requests p1 = []" "pe_downloads p1 = pe_downloads p" using r(3) q by (auto simp: update_speed_def quiet_def)
  have s: "same_queues p1 (p1\<lparr>pe_requests := []\<rparr>)" using p1(2) by (simp add: same_queues_def)
  obtain p2 k2 where d: "disconnect (at_site 0 (at_site 1 rnd)) t p1 k1 = Some (p2, k2)" "pe_downloads p2 = []" "pe_requests p2 = []"
    using disconnect_good(2) [OF r(2)] by blast
  have "pq_ok lossy t oth p2 k2" using disconnect_good(1) [OF r(2), of "at_site 0 (at_site 1 rnd)"] d(1) by (simp add: good_def)
  moreover have "quiet p2"
    using d(1) p1(1) by (auto simp: disconnect_def quiet_def split: if_splits bind_splits)
  ultimately show ?thesis
    using r(1,2) p1 d pq_same(1) [OF r(2) s] by (auto simp: request_and_send_def send_block_requests_def quiet_def)
qed

text \<open>The request that is made up for the first entry of the queue matches it, so the queue gets shorter.\<close>

lemma rejected_front:
  assumes "0 < bt_block_size t" "xs \<noteq> []"
  shows "find_if (\<lambda>q. match_request (rejected t (pb_block (hd xs))) (bt_block_size t) (pb_block q)) xs = 0"
proof -
  have "int j * bt_block_size t sdiv bt_block_size t = int j" "int j * bt_block_size t smod bt_block_size t = 0" for j
    using assms(1) by (auto simp: signed_divide_int_def signed_modulo_int_def sgn_mult)
  then have "match_request (rejected t (pb_block (hd xs))) (bt_block_size t) (pb_block (hd xs))"
    by (simp add: match_request_def rejected_def Let_def)
  with assms(2) show ?thesis by (cases xs) (simp_all add: find_if_def)
qed

lemma reject_front:
  assumes pq: "pq_ok lossy t oth p k" and q: "quiet p" "on_parole p \<or> pe_requests p = []" and d: "pe_downloads p \<noteq> []"
  shows "\<exists>p' k'. incoming_reject_request rnd peers t (rejected t (pb_block (hd (pe_downloads p)))) p k = Some (p', k') \<and>
    pq_ok lossy t oth p' k' \<and> frame k k' \<and> quiet p' \<and> (on_parole p' \<or> pe_requests p' = []) \<and> length (pe_downloads p') < length (pe_downloads p)"
proof -
  let ?r = "rejected t (pb_block (hd (pe_downloads p)))"
  have con: "\<not> pe_disconnecting p" using pq_okD(2) [OF pq] d by (auto simp: peer_ok_def)
  have i: "find_if (\<lambda>q. match_request ?r (bt_block_size t) (pb_block q)) (pe_downloads p) = 0"
    by (rule rejected_front) (use pq_okD(3) [OF pq] d in \<open>simp_all add: torrent_ok_def\<close>)
  obtain p1 k1 where e: "reject_entry rnd t ?r p k = Some (p1, k1)" "pq_ok lossy t oth p1 k1" "frame k k1"
    using reject_entry_good [OF pq con] unfolding good_def by blast
  have p1: "pe_downloads p1 = tl (pe_downloads p)" "pe_choked p1 = pe_choked p" "pe_allowed_fast p1 = pe_allowed_fast p"
    "on_parole p1 = on_parole p" "on_parole p \<or> pe_requests p1 = pe_requests p"
    using e(1) d unfolding reject_entry_def i
    by (auto simp: Let_def erase_at_def on_parole_def drop_Suc split: if_splits)
  let ?p2 = "after_reject ?r p1"
  have p2: "pe_downloads ?p2 = tl (pe_downloads p)" "quiet ?p2" "on_parole ?p2 \<or> pe_requests ?p2 = []"
    using p1 q by (auto simp: after_reject_def quiet_def on_parole_def remove_piece_def)
  note s = pq_same(1) [OF e(2) after_reject_same [of p1 ?r]]
  have less: "length (tl (pe_downloads p)) < length (pe_downloads p)" using d by simp
  show ?thesis
  proof (cases "pe_requests ?p2 = [] \<and> length (pe_downloads ?p2) < 2")
    case True
    obtain p' k' where r: "request_and_send (at_site 1 rnd) peers t ?p2 k1 = Some (p', k')" "pq_ok lossy t oth p' k'" "quiet p'"
      "pe_requests p' = []" "pe_downloads p' = pe_downloads ?p2 \<or> pe_downloads p' = []"
      using quiet_asked [OF s p2(2)] True by blast
    have "frame k1 k'" using request_and_send_good [OF s, of "at_site 1 rnd" peers] r(1) by (simp add: good_def)
    moreover have "length (pe_downloads p') < length (pe_downloads p)" using r(5) p2(1) less d by auto
    ultimately show ?thesis using e r True con frame_trans [OF e(3)] by (simp add: reject_split)
  next
    case False
    then have "incoming_reject_request rnd peers t ?r p k = Some (?p2, k1)" using e(1) con by (auto simp: reject_split)
    with s e(3) p2 less show ?thesis by simp
  qed
qed

lemma reject_all_ends:
  "pq_ok lossy t oth p k \<Longrightarrow> quiet p \<Longrightarrow> on_parole p \<or> pe_requests p = [] \<Longrightarrow> length (pe_downloads p) \<le> n \<Longrightarrow>
   \<exists>p' k'. reject_all n rnd peers t p k = Some (p', k') \<and> pe_downloads p' = []"
proof (induction n arbitrary: p k)
  case 0
  then show ?case by (simp add: reject_all.simps [of 0])
next
  case (Suc n)
  show ?case
  proof (cases "pe_downloads p = []")
    case True
    then show ?thesis by (simp add: reject_all.simps [of "Suc n"])
  next
    case False
    from reject_front [OF Suc.prems(1-3) False, of "at_site (Suc n) rnd" peers] obtain p1 k1 where
      r: "incoming_reject_request (at_site (Suc n) rnd) peers t (rejected t (pb_block (hd (pe_downloads p)))) p k = Some (p1, k1)"
        "pq_ok lossy t oth p1 k1" "quiet p1" "on_parole p1 \<or> pe_requests p1 = []" "length (pe_downloads p1) < length (pe_downloads p)" by blast
    have "length (pe_downloads p1) \<le> n" using r(5) Suc.prems(4) by linarith
    from Suc.IH [OF r(2-4) this] False r(1) show ?thesis by (simp add: reject_all.simps [of "Suc n"])
  qed
qed

lemma on_choke_ends:
  assumes pq: "pq_ok lossy t oth p k" and f: "pe_fast p \<or> pe_allowed_fast p = []"
  shows "keeps_pq lossy t oth k (on_choke rnd peers t p k)"
    "\<not> pe_fast p \<Longrightarrow> \<exists>p' k'. on_choke rnd peers t p k = Some (p', k') \<and> pe_downloads p' = []"
proof -
  obtain p1 k1 where c: "incoming_choke (at_site 0 rnd) t p k = Some (p1, k1)" "pq_ok lossy t oth p1 k1"
    using incoming_choke_good [OF pq] unfolding good_def by blast
  have p1: "pe_fast p1 = pe_fast p" "pe_disconnecting p1 = pe_disconnecting p" "pe_allowed_fast p1 = pe_allowed_fast p"
    "\<not> pe_disconnecting p \<Longrightarrow> pe_choked p1 \<and> (on_parole p1 \<or> pe_requests p1 = [])"
    using c(1) by (auto simp: incoming_choke_def clear_request_queue_def on_parole_def split: if_splits bind_splits)
  have e: "\<exists>p' k'. on_choke rnd peers t p k = Some (p', k') \<and> (\<not> pe_fast p \<longrightarrow> pe_downloads p' = [])"
  proof (cases "pe_disconnecting p1 \<or> pe_fast p1")
    case True
    with c p1(1) pq_okD(2) [OF c(2)] show ?thesis by (auto simp: on_choke_def peer_ok_def)
  next
    case False
    then have "quiet p1" "on_parole p1 \<or> pe_requests p1 = []" using p1 f by (auto simp: quiet_def)
    from reject_all_ends [OF c(2) this le_refl, of "at_site 1 rnd" peers] False c(1) show ?thesis
      by (auto simp: on_choke_def)
  qed
  then obtain p' k' where r: "on_choke rnd peers t p k = Some (p', k')" by blast
  from on_choke_keeps [OF pq r] r show "keeps_pq lossy t oth k (on_choke rnd peers t p k)" by simp
  show "\<exists>p' k'. on_choke rnd peers t p k = Some (p', k') \<and> pe_downloads p' = []" if "\<not> pe_fast p" using e that by blast
qed

end
