(* ===== verification/PeerSwarmOk.thy ===== *)
theory PeerSwarmOk
  imports PeerSwarm PeerEventsOk
begin

section \<open>All the peers of a torrent and the picker\<close>

text \<open>
  \<open>sw_ok\<close>: the picker counts the requests of all the peers together. An operation of one peer that keeps \<open>pq_ok\<close>
  keeps it (\<open>on_peer_ok\<close>), so does one that goes over all the peers (\<open>each_peer_ok\<close>). A block that arrives is
  taken from all of them, and after a piece has failed its requests are marked again.
\<close>

definition all_asked :: "peer_conn list \<Rightarrow> piece_block \<Rightarrow> nat" where
  "all_asked ps b = sum_list (map (\<lambda>p. count_list (requests_of p) b) ps)"

definition sw_ok :: "bool \<Rightarrow> swarm \<Rightarrow> bool" where
  "sw_ok lossy s \<longleftrightarrow> counted lossy (sw_picker s) (all_asked (sw_peers s)) \<and> list_all (peer_ok (sw_picker s)) (sw_peers s) \<and>
     torrent_ok (sw_torrent s) (sw_picker s) \<and> length (sw_peers s) \<le> 16382"

text \<open>Another state of the same torrent: what we have and the number of connections are unchanged.\<close>

definition sw_next :: "bool \<Rightarrow> swarm \<Rightarrow> swarm \<Rightarrow> bool" where
  "sw_next lossy s s' \<longleftrightarrow> sw_ok lossy s' \<and> frame (sw_picker s) (sw_picker s') \<and> sw_torrent s' = sw_torrent s \<and>
     length (sw_peers s') = length (sw_peers s)"

lemma sw_okD:
  assumes "sw_ok lossy s"
  shows "counted lossy (sw_picker s) (all_asked (sw_peers s))" "i < length (sw_peers s) \<Longrightarrow> peer_ok (sw_picker s) (sw_peers s ! i)"
    "torrent_ok (sw_torrent s) (sw_picker s)" "length (sw_peers s) \<le> 16382" "pk_inv (sw_picker s)"
  using assms countedD(1) by (auto simp: sw_ok_def list_all_length)

lemma sw_next_refl: "sw_ok lossy s \<Longrightarrow> sw_next lossy s s"
  by (simp add: sw_next_def)

lemma sw_next_trans: "sw_next lossy s s1 \<Longrightarrow> sw_next lossy s1 s2 \<Longrightarrow> sw_next lossy s s2"
  using frame_trans by (auto simp: sw_next_def)

lemma sw_next_checks: "sw_next lossy s (s'\<lparr>sw_checks := c\<rparr>) = sw_next lossy s s'"
  by (simp add: sw_next_def sw_ok_def)

lemma asked_mset: "all_asked ps b = sum_mset (image_mset (\<lambda>p. count_list (requests_of p) b) (mset ps))"
  by (simp add: all_asked_def sum_mset_sum_list [symmetric])

lemma asked_at:
  assumes "i < length ps"
  shows "all_asked ps b = all_asked (erase_at i ps) b + count_list (requests_of (ps ! i)) b"
    "all_asked (ps[i := p]) b = all_asked (erase_at i ps) b + count_list (requests_of p) b"
  using erase_mset [OF assms] erase_mset [of i "ps[i := p]"] assms by (simp_all add: asked_mset)

lemma request_once:
  assumes "peer_ok k p"
  shows "count_list (requests_of p) b \<le> 1"
proof -
  have "distinct (map pb_block (filter live (pe_downloads p) @ pe_requests p))"
    using assms by (auto simp: peer_ok_def queued_blocks_def distinct_map_filter)
  then have "count_list (requests_of p) b = (if b \<in> set (requests_of p) then 1 else 0)"
    unfolding requests_of_def by (metis count_mset distinct_count_atmost_1 set_mset_mset)
  then show ?thesis by simp
qed

lemma asked_bound: "(\<And>p. p \<in> set ps \<Longrightarrow> peer_ok k p) \<Longrightarrow> all_asked ps b \<le> length ps"
proof (induction ps)
  case (Cons p ps)
  then have "all_asked ps b \<le> length ps" by simp
  moreover have "count_list (requests_of p) b \<le> 1" by (rule request_once [of k]) (use Cons.prems in simp)
  ultimately show ?case by (simp add: all_asked_def)
qed (simp add: all_asked_def)

subsection \<open>One peer\<close>

lemma sw_peer:
  assumes s: "sw_ok lossy s" and i: "i < length (sw_peers s)"
  shows "pq_ok lossy (sw_torrent s) (all_asked (erase_at i (sw_peers s))) (sw_peers s ! i) (sw_picker s)"
proof -
  have "all_asked (erase_at i (sw_peers s)) b < 16382" for b
  proof -
    have "all_asked (erase_at i (sw_peers s)) b \<le> length (erase_at i (sw_peers s))"
      by (rule asked_bound [of _ "sw_picker s"]) (use s erase_subset [of i "sw_peers s"] in \<open>auto simp: sw_ok_def list_all_iff\<close>)
    with i sw_okD(4) [OF s] show ?thesis by simp
  qed
  moreover have "counted lossy (sw_picker s) (\<lambda>b. all_asked (erase_at i (sw_peers s)) b + count_list (requests_of (sw_peers s ! i)) b)"
    using sw_okD(1) [OF s] by (simp add: asked_at(1) [OF i, symmetric])
  ultimately show ?thesis using sw_okD(2,3) [OF s] i by (simp add: pq_ok_def)
qed

lemma sw_put:
  assumes s: "sw_ok lossy s" and i: "i < length (sw_peers s)" and f: "frame (sw_picker s) k'"
    and c: "counted lossy k' g" "\<And>b. open_block k' b \<Longrightarrow> g b = all_asked (erase_at i (sw_peers s)) b + count_list (requests_of p') b" and p: "peer_ok k' p'"
  shows "sw_next lossy s (s\<lparr>sw_peers := (sw_peers s)[i := p'], sw_picker := k'\<rparr>)"
proof -
  have "counted lossy k' (all_asked ((sw_peers s)[i := p']))"
    using c asked_at(2) [OF i, of p'] by (simp add: counted_def)
  moreover have "list_all (peer_ok k') ((sw_peers s)[i := p'])"
    using sw_okD(2) [OF s] p peer_ok_frame [OF _ f] i by (simp add: list_all_length nth_list_update)
  moreover have "torrent_ok (sw_torrent s) k'"
    using torrent_ok_frame [OF sw_okD(3,5) [OF s] countedD(1) [OF c(1)] f] .
  ultimately show ?thesis using sw_okD(4) [OF s] f by (simp add: sw_next_def sw_ok_def)
qed

lemma on_peer_ok:
  assumes s: "sw_ok lossy s" and i: "i < length (sw_peers s)"
    and f: "\<And>oth. pq_ok lossy (sw_torrent s) oth (sw_peers s ! i) (sw_picker s) \<Longrightarrow>
      keeps_pq lossy (sw_torrent s) oth (sw_picker s) (f (connections s) (sw_torrent s) (sw_peers s ! i) (sw_picker s))"
  shows "\<exists>s'. on_peer i f s = Some s' \<and> sw_next lossy s s'"
proof -
  obtain p' k' where r: "f (connections s) (sw_torrent s) (sw_peers s ! i) (sw_picker s) = Some (p', k')"
    "pq_ok lossy (sw_torrent s) (all_asked (erase_at i (sw_peers s))) p' k'" "frame (sw_picker s) k'"
    using f [OF sw_peer [OF s i]] unfolding keeps_pq_def by blast
  from sw_put [OF s i r(3) pq_okD(1) [OF r(2)] refl pq_okD(2) [OF r(2)]] r(1) i show ?thesis by (simp add: on_peer_def)
qed

text \<open>\<open>R s'\<close> is what is known after the first peers have been gone through.\<close>

lemma each_peer_rel:
  assumes "R s" "\<And>i s'. R s' \<Longrightarrow> i < length (sw_peers s) \<Longrightarrow> \<exists>s''. f i s' = Some s'' \<and> R s''"
  shows "\<exists>s'. each_peer f s = Some s' \<and> R s'"
proof -
  have "\<exists>s'. each_block f is s1 = Some s' \<and> R s'" if "R s1" "\<forall>i \<in> set is. i < length (sw_peers s)" for "is" s1
    using that
  proof (induction "is" arbitrary: s1)
    case (Cons i js)
    obtain s2 where s2: "f i s1 = Some s2" "R s2" using assms(2) [OF Cons.prems(1), of i] Cons.prems(2) by auto
    from Cons.IH [OF s2(2)] Cons.prems(2) s2(1) show ?case by simp
  qed simp
  from this [OF assms(1)] show ?thesis by (simp add: each_peer_def)
qed

lemma each_on_peer_ok:
  assumes s: "sw_ok lossy s"
    and f: "\<And>i n t oth p k. t = sw_torrent s \<Longrightarrow> pq_ok lossy t oth p k \<Longrightarrow> keeps_pq lossy t oth k (f i n t p k)"
  shows "\<exists>s'. each_peer (\<lambda>i. on_peer i (f i)) s = Some s' \<and> sw_next lossy s s'"
proof (rule each_peer_rel [where R = "sw_next lossy s"])
  show "sw_next lossy s s" by (rule sw_next_refl [OF s])
  fix i s'
  assume s': "sw_next lossy s s'" and "i < length (sw_peers s)"
  then have "sw_ok lossy s'" "i < length (sw_peers s')" "sw_torrent s' = sw_torrent s" by (simp_all add: sw_next_def)
  then have "\<exists>s''. on_peer i (f i) s' = Some s'' \<and> sw_next lossy s' s''" using on_peer_ok [of lossy s' i "f i"] f by blast
  with sw_next_trans [OF s'] show "\<exists>s''. on_peer i (f i) s' = Some s'' \<and> sw_next lossy s s''" by blast
qed

subsection \<open>A block arrives\<close>

lemma counted_but:
  assumes "counted lossy k f" "\<not> open_block k b" "\<And>c. c \<noteq> b \<Longrightarrow> g c = f c"
  shows "counted lossy k g"
proof -
  have "agrees lossy (peers_at k (fst c) (snd c)) (g c)" if "open_block k c" for c
    using that assms countedD(2) [OF assms(1)] by (metis (full_types))
  with countedD(1) [OF assms(1)] show ?thesis by (simp add: counted_def)
qed

lemma verified_block:
  assumes v: "verify_piece t r" and l: "0 < pr_length r" and t: "torrent_ok t k"
  shows "valid_block k (req_block t r)"
proof -
  let ?x = "nat (pr_piece r)" and ?j = "nat (pr_start r sdiv bt_block_size t)"
  have x: "?x < length (pk_map k)" using v t by (simp add: verify_piece_def torrent_ok_def nat_less_iff)
  have b: "0 < bt_block_size t" using t by (simp add: torrent_ok_def)
  have "pr_length r = min (piece_size (bt_files t) (int ?x) - int ?j * bt_block_size t) (bt_block_size t)"
    using v unfolding verify_piece_def to_req_def Let_def
    by (metis (no_types, lifting) fst_conv peer_request.select_convs(3) snd_conv)
  then have "int ?j * bt_block_size t < piece_size (bt_files t) (int ?x)" using l by linarith
  then have "int ?j * bt_block_size t + bt_block_size t \<le> piece_size (bt_files t) (int ?x) + bt_block_size t - 1" by simp
  then have "(int ?j + 1) * bt_block_size t \<le> piece_size (bt_files t) (int ?x) + bt_block_size t - 1"
    by (simp add: algebra_simps)
  then have "int ?j + 1 \<le> (piece_size (bt_files t) (int ?x) + bt_block_size t - 1) div bt_block_size t"
    using b by (metis nonzero_mult_div_cancel_right not_less_iff_gr_or_eq zdiv_mono1)
  moreover have "int (blocks_in_piece ?x k) = (piece_size (bt_files t) (int ?x) + bt_block_size t - 1) div bt_block_size t"
    using t x by (simp add: torrent_ok_def)
  ultimately have "?j < blocks_in_piece ?x k" by linarith
  with x show ?thesis by (simp add: valid_block_def req_block_def)
qed

text \<open>
  What has been taken: all but the block itself is still counted, and if the handler does not write it, that is, too.
\<close>

definition taken :: "bool \<Rightarrow> btorrent \<Rightarrow> (piece_block \<Rightarrow> nat) \<Rightarrow> piece_block \<Rightarrow> received \<Rightarrow> peer_conn \<Rightarrow> picker \<Rightarrow> bool" where
  "taken lossy t oth b what p k \<longleftrightarrow> (\<exists>f. counted lossy k f \<and> (\<forall>c. c \<noteq> b \<longrightarrow> f c = oth c + count_list (requests_of p) c)) \<and>
     peer_ok k p \<and> (what \<noteq> ToWrite \<longrightarrow> pq_ok lossy t oth p k)"

lemma takenI: "pq_ok lossy t oth p k \<Longrightarrow> taken lossy t oth b what p k"
  unfolding taken_def using pq_okD(1,2) [of lossy t oth p k] by blast

lemma update_desired_same: "same_queues p (update_desired_queue_size t (p\<lparr>pe_receiving := x\<rparr>))"
  by (simp add: same_queues_def update_desired_queue_size_def Let_def)

lemma take_block_ok:
  assumes pq: "pq_ok lossy t oth p k" and v: "verify_piece t r" "0 \<le> pr_length r"
  shows "\<exists>what p' k'. take_block rnd quick peers t r p k = Some (what, p', k') \<and> frame k k' \<and> taken lossy t oth (req_block t r) what p' k'"
proof (cases "pe_disconnecting p")
  case True
  have "same_queues p (p\<lparr>pe_receiving := None\<rparr>)" by (simp add: same_queues_def)
  from takenI [OF pq_same(1) [OF pq this]] True show ?thesis by (simp add: take_block_def)
next
  case con: False
  define p1 where "p1 = update_desired_queue_size t (p\<lparr>pe_receiving := None\<rparr>)"
  define b where "b = req_block t r"
  define n where "n = find_if (has_block b) (pe_downloads p1)"
  have pq1: "pq_ok lossy t oth p1 k" unfolding p1_def by (rule pq_same(1) [OF pq update_desired_same])
  note e = take_block_def [of rnd quick peers t r p k, folded p1_def, unfolded Let_def, folded p1_def b_def, folded n_def, unfolded if_not_P [OF con]]
  consider (empty) "pr_length r = 0" | (seed) "pr_length r \<noteq> 0" "is_seed t k"
    | (unknown) "pr_length r \<noteq> 0" "\<not> is_seed t k" "n = length (pe_downloads p1)"
    | (found) "pr_length r \<noteq> 0" "\<not> is_seed t k" "n \<noteq> length (pe_downloads p1)" by blast
  then show ?thesis
  proof cases
    case empty
    obtain p' k' where "incoming_reject_request (at_site 0 rnd) peers t r p1 k = Some (p', k')" "pq_ok lossy t oth p' k'" "frame k k'"
      using incoming_reject_request_good [OF pq1] unfolding good_def by blast
    with empty show ?thesis unfolding e by (auto intro: takenI)
  next
    case seed
    let ?p' = "p1\<lparr>pe_downloads := drop 1 (pe_downloads p1)\<rparr>"
    have "mset (queued_blocks ?p') \<subseteq># mset (queued_blocks p1)" by (cases "pe_downloads p1") (simp_all add: queued_blocks_def)
    then have "peer_ok k ?p'"
      by (rule peer_ok_less [OF pq_okD(2) [OF pq1] frame_refl])
        (use pq_okD(2) [OF pq1] in \<open>auto simp: requests_of_def peer_ok_def dest: in_set_dropD\<close>)
    from pq_move [OF pq1 frame_refl seed_closed(2) [OF pq_okD(7,3) [OF pq1] seed(2)] this] seed show ?thesis
      unfolding e by (auto intro: takenI)
  next
    case unknown
    have "same_queues p1 (p1\<lparr>pe_outstanding := pe_outstanding p1 + pr_length r\<rparr>)" by (simp add: same_queues_def)
    from takenI [OF pq_same(1) [OF pq1 this]] unknown show ?thesis unfolding e by simp
  next
    case found
    then have n: "n < length (pe_downloads p1)" using find_if_nth [of "has_block b" "pe_downloads p1"] by (simp add: n_def)
    let ?pre = "take n (pe_downloads p1)" and ?q = "pe_downloads p1 ! n" and ?post = "drop (n + 1) (pe_downloads p1)"
    have q: "pb_block ?q = b" using find_block(2) [of b "pe_downloads p1"] n by (simp add: n_def)
    have d: "drop n (pe_downloads p1) = ?q # ?post" using n by (simp add: Cons_nth_drop_Suc)
    have "p1\<lparr>pe_downloads := [] @ ?pre @ (?q # ?post)\<rparr> = p1" unfolding d [symmetric] by simp
    then have "pq_ok lossy t oth (p1\<lparr>pe_downloads := [] @ ?pre @ (?q # ?post)\<rparr>) k" using pq1 by simp
    from skip_requests_ok [OF this, of "at_site 1 rnd" p1 "pe_outstanding p1"] obtain kept bytes k1 where
      sk: "skip_requests (at_site 1 rnd) t p1 ?pre (pe_outstanding p1) k = Some (kept, bytes, k1)"
      "pq_ok lossy t oth (p1\<lparr>pe_downloads := kept @ ?q # ?post\<rparr>) k1" "frame k k1" by auto
    define p2 where "p2 = p1\<lparr>pe_downloads := kept @ ?q # ?post, pe_outstanding := bytes\<rparr>"
    define p3 where "p3 = p2\<lparr>pe_downloads := kept @ ?post\<rparr>"
    have "same_queues (p1\<lparr>pe_downloads := kept @ ?q # ?post\<rparr>) p2" by (simp add: same_queues_def p2_def)
    note pq2 = pq_same(1) [OF sk(2) this]
    have vb: "valid_block k1 b"
      unfolding b_def by (rule verified_block [OF v(1) _ pq_okD(3) [OF pq2]]) (use v(2) found(1) in simp)
    have nth: "pe_downloads p2 ! length kept = ?q" "length kept < length (pe_downloads p2)"
      "pe_downloads p3 = erase_at (length kept) (pe_downloads p2)" by (simp_all add: p2_def p3_def erase_at_def)
    have er: "count_list (requests_of p3) c + (if live ?q then count_list [b] c else 0) = count_list (requests_of p2) c" "peer_ok k1 p3" for c
      using erase_download_ok(1,2) [OF pq2 nth(2,3)] unfolding nth(1) q by (simp_all add: p3_def)
    have c3: "count_list (requests_of p3) c = count_list (requests_of p2) c" if "c \<noteq> b" for c
      using er(1) [of c] that by (auto split: if_splits)
    define there where "there \<longleftrightarrow> pp_have (pk_map k1 ! fst b) \<or> state_at k1 (fst b) (snd b) = StateFinished \<or> state_at k1 (fst b) (snd b) = StateWriting"
    have th: "is_downloaded (fst b) (snd b) k1 = Some there"
      using valid_queries(3) [OF pq_okD(7) [OF pq2] vb] by (simp add: there_def)
    define snub where "snub \<longleftrightarrow> pe_snubbed p2 \<and> \<not> quick"
    have e2: "take_block rnd quick peers t r p k = Some (if there then (AskMore, p3, k1)
        else if bt_deleted t then (Ignored, p2\<lparr>pe_snubbed := snub\<rparr>, k1) else (ToWrite, p3\<lparr>pe_snubbed := snub\<rparr>, k1))"
      unfolding e if_not_P [OF found(1)] if_not_P [OF found(2)] if_not_P [OF found(3)] sk(1) bind.bind_lunit prod.case d
        p2_def [symmetric] p3_def [symmetric] th snub_def ..
    have s: "same_queues p2 (p2\<lparr>pe_snubbed := snub\<rparr>)" "same_queues p3 (p3\<lparr>pe_snubbed := snub\<rparr>)" by (simp_all add: same_queues_def)
    have t2: "pq_ok lossy t oth (p2\<lparr>pe_snubbed := snub\<rparr>) k1" by (rule pq_same(1) [OF pq2 s(1)])
    have t3: "pq_ok lossy t oth p3 k1" if there
    proof (rule pq_move [OF pq2 frame_refl _ er(2)])
      have "\<not> open_block k1 b" using that by (auto simp: there_def open_block_def)
      from counted_but [OF pq_okD(1) [OF pq2] this] c3 show "counted lossy k1 (\<lambda>c. oth c + count_list (requests_of p3) c)" by simp
    qed
    have "peer_ok k1 (p3\<lparr>pe_snubbed := snub\<rparr>)" "requests_of (p3\<lparr>pe_snubbed := snub\<rparr>) = requests_of p3"
      using er(2) by (simp_all add: peer_ok_def requests_of_def queued_blocks_def)
    then have "\<not> there \<Longrightarrow> \<not> bt_deleted t \<Longrightarrow> taken lossy t oth b ToWrite (p3\<lparr>pe_snubbed := snub\<rparr>) k1"
      using pq_okD(1) [OF pq2] c3 by (auto simp: taken_def)
    with t2 t3 sk(3) e2 takenI show ?thesis unfolding b_def [symmetric] by (cases there; cases "bt_deleted t") auto
  qed
qed

text \<open>The block is being written when \<^verbatim>\<open>cancel_block\<close> is called, so no peer finds it requested.\<close>

lemma cancel_block_ignored:
  assumes k: "pk_inv (sw_picker s)" and b: "valid_block (sw_picker s) b" "state_at (sw_picker s) (fst b) (snd b) \<noteq> StateRequested"
  shows "cancel_block rnd b s = Some s"
proof -
  have "on_peer i (\<lambda>n t. cancel_request (at_site i rnd) n t b False) s = Some s" if "i < length (sw_peers s)" for i
    using that cancel_request_ignored [OF k b, of "at_site i rnd"] by (simp add: on_peer_def)
  then have "each_block (\<lambda>i. on_peer i (\<lambda>n t. cancel_request (at_site i rnd) n t b False)) is s = Some s"
    if "\<forall>i \<in> set is. i < length (sw_peers s)" for "is"
    using that by (induction "is") simp_all
  then show ?thesis by (simp add: cancel_block_def each_peer_def)
qed

lemma written_ok:
  assumes s: "sw_ok lossy s" and i: "i < length (sw_peers s)" and f: "frame (sw_picker s) k1"
    and t: "taken lossy (sw_torrent s) (all_asked (erase_at i (sw_peers s))) b what p1 k1" and b: "valid_block (sw_picker s) b"
  shows "\<exists>r k2. mark_as_writing random (fst b) (snd b) peer k1 = Some (r, k2) \<and>
    sw_next lossy s (s\<lparr>sw_peers := (sw_peers s)[i := p1], sw_picker := k2\<rparr>) \<and> \<not> open_block k2 b \<and>
    state_at k2 (fst b) (snd b) \<noteq> StateRequested"
proof -
  obtain g where g: "counted lossy k1 g" "\<forall>c. c \<noteq> b \<longrightarrow> g c = all_asked (erase_at i (sw_peers s)) c + count_list (requests_of p1) c"
    and p1: "peer_ok k1 p1" using t unfolding taken_def by blast
  have b1: "valid_block k1 b" using b frame_valid [OF f] by simp
  obtain r k2 where m: "mark_as_writing random (fst b) (snd b) peer k1 = Some (r, k2)" "frame k1 k2" "counted lossy k2 g"
    "\<not> open_block k2 b" "state_at k2 (fst b) (snd b) \<noteq> StateRequested"
    using counted_writing [OF g(1) b1] by blast
  have "sw_next lossy s (s\<lparr>sw_peers := (sw_peers s)[i := p1], sw_picker := k2\<rparr>)"
    by (rule sw_put [OF s i frame_trans [OF f m(2)] m(3)]) (use g(2) m(4) peer_ok_frame [OF p1 m(2)] in auto)
  with m show ?thesis by blast
qed

lemma on_peer_others: "on_peer i f s = Some s' \<Longrightarrow> j \<noteq> i \<Longrightarrow> sw_peers s' ! j = sw_peers s ! j"
  by (auto simp: on_peer_def split: bind_splits prod.splits)

lemma incoming_piece_ok:
  assumes s: "sw_ok lossy s" and i: "i < length (sw_peers s)" and v: "verify_piece (sw_torrent s) r" "0 \<le> pr_length r"
  shows "\<exists>s'. incoming_piece rnd quick i r s = Some s' \<and> sw_next lossy s s' \<and> (\<forall>j. j \<noteq> i \<longrightarrow> sw_peers s' ! j = sw_peers s ! j)"
proof -
  define t where "t = sw_torrent s"
  define p where "p = sw_peers s ! i"
  define b where "b = req_block t r"
  have at: "vec_at (sw_peers s) i = Some p" using i by (simp add: p_def)
  have ask: "\<exists>s'. on_peer i (request_and_send rnd') s1 = Some s' \<and> sw_next lossy s s' \<and> (\<forall>j. j \<noteq> i \<longrightarrow> sw_peers s' ! j = sw_peers s ! j)"
    if "sw_next lossy s s1" "\<forall>j. j \<noteq> i \<longrightarrow> sw_peers s1 ! j = sw_peers s ! j" for s1 rnd'
  proof -
    have "sw_ok lossy s1" "i < length (sw_peers s1)" using that(1) i by (simp_all add: sw_next_def)
    then have "\<exists>s'. on_peer i (request_and_send rnd') s1 = Some s' \<and> sw_next lossy s1 s'"
      by (rule on_peer_ok) (rule good_keeps [OF request_and_send_good])
    with sw_next_trans [OF that(1)] that(2) on_peer_others show ?thesis by metis
  qed
  obtain what p1 k1 where t: "take_block (at_site 0 rnd) quick (connections s) t r p (sw_picker s) = Some (what, p1, k1)"
    "frame (sw_picker s) k1" "taken lossy t (all_asked (erase_at i (sw_peers s))) b what p1 k1"
    using take_block_ok [OF sw_peer [OF s i] v] unfolding t_def b_def p_def by blast
  define s1 where "s1 = s\<lparr>sw_peers := (sw_peers s)[i := p1], sw_picker := k1\<rparr>"
  note e = incoming_piece_def [of rnd quick i r s, folded t_def, unfolded at bind.bind_lunit t(1) prod.case Let_def,
      folded s1_def b_def]
  show ?thesis
  proof (cases "what = ToWrite")
    case False
    then have pq: "pq_ok lossy t (all_asked (erase_at i (sw_peers s))) p1 k1" using t(3) by (simp add: taken_def)
    have "sw_next lossy s s1"
      unfolding s1_def by (rule sw_put [OF s i t(2) pq_okD(1) [OF pq] refl pq_okD(2) [OF pq]])
    moreover have "\<forall>j. j \<noteq> i \<longrightarrow> sw_peers s1 ! j = sw_peers s ! j" by (simp add: s1_def)
    ultimately show ?thesis using ask [of s1] False unfolding e by (cases what) simp_all
  next
    case True
    show ?thesis
    proof (cases "valid_block (sw_picker s) b")
      case vb: True
      have vb1: "valid_block k1 b" using vb frame_valid [OF t(2)] by simp
      have k1: "pk_inv k1" using t(3) countedD(1) by (auto simp: taken_def)
      obtain fin n where fn: "is_piece_finished (fst b) k1 = Some fin" "num_peers (fst b) (snd b) k1 = Some n"
        using piece_finished_iff [OF k1] valid_queries(1) [OF k1 vb1] vb1 by (simp add: valid_block_def)
      obtain r' k2 where w: "mark_as_writing (rnd [2]) (fst b) (snd b) (pe_info p) k1 = Some (r', k2)"
        "sw_next lossy s (s\<lparr>sw_peers := (sw_peers s)[i := p1], sw_picker := k2\<rparr>)" "state_at k2 (fst b) (snd b) \<noteq> StateRequested"
        using written_ok [OF s i t(2) t(3) [unfolded t_def] vb] by blast
      define s2 where "s2 = s1\<lparr>sw_picker := k2\<rparr>"
      have s2: "sw_next lossy s s2" using w(2) by (simp add: s2_def s1_def)
      have k2: "pk_inv (sw_picker s2)" "frame (sw_picker s) (sw_picker s2)" "sw_picker s2 = k2"
        using s2 sw_okD(5) [of lossy s2] by (simp_all add: sw_next_def s2_def)
      have vb2: "valid_block (sw_picker s2) b" using vb frame_valid [OF k2(2)] by simp
      have "cancel_block (at_site 3 rnd) b s2 = Some s2"
        by (rule cancel_block_ignored [OF k2(1) vb2]) (use w(3) k2(3) in simp)
      then have c: "(if 1 < n then cancel_block (at_site 3 rnd) b s2 else Some s2) = Some s2" by simp
      obtain fin2 where f2: "is_piece_finished (fst b) (sw_picker s2) = Some fin2"
        using piece_finished_iff [OF k2(1)] vb2 by (simp add: valid_block_def)
      let ?s4 = "if fin2 \<and> \<not> fin then s2\<lparr>sw_checks := sw_checks s2 @ [fst b]\<rparr> else s2"
      have "sw_next lossy s ?s4" using s2 sw_next_checks by simp
      moreover have "\<forall>j. j \<noteq> i \<longrightarrow> sw_peers ?s4 ! j = sw_peers s ! j" by (simp add: s1_def s2_def)
      moreover have "incoming_piece rnd quick i r s = on_peer i (request_and_send (at_site 4 rnd)) ?s4"
        unfolding e True received.case fn bind.bind_lunit w(1) prod.case s2_def [symmetric] c f2 ..
      ultimately show ?thesis using ask by simp
    next
      case False
      have "\<not> 0 < pr_length r"
      proof
        assume "0 < pr_length r"
        from verified_block [OF v(1) this sw_okD(3) [OF s]] False show False by (simp add: b_def t_def)
      qed
      then have "pr_length r = 0" using v(2) by simp
      with t(1) True show ?thesis by (auto simp: take_block_def Let_def split: if_splits)
    qed
  qed
qed

lemma writing_piece:
  assumes k: "pk_inv k" and b: "valid_block k b" and w: "state_at k (fst b) (snd b) = StateWriting"
  shows "downloading (pk_map k ! fst b)" "\<not> pp_have (pk_map k ! fst b)"
proof -
  have x: "fst b < length (pk_map k)" using b by (simp add: valid_block_def)
  show d: "downloading (pk_map k ! fst b)"
    using w blocks_at_none [OF pk_invD(2) [OF k] x] by (rule_tac ccontr) (simp add: state_at_def split: if_splits)
  obtain i where i: "i < length (pk_downloads k)" "dp_index (pk_downloads k ! i) = fst b" by (rule existing_entry [OF k x d])
  show "\<not> pp_have (pk_map k ! fst b)" using view_entry(2) [OF pk_invD(2) [OF k] i(1)] i(2) by simp
qed

lemma write_complete_ok:
  assumes s: "sw_ok lossy s" and i: "i < length (sw_peers s)" and b: "valid_block (sw_picker s) b"
    and w: "state_at (sw_picker s) (fst b) (snd b) = StateWriting"
  shows "\<exists>s'. write_complete rnd i b s = Some s' \<and> sw_next lossy s s'"
proof -
  let ?k = "sw_picker s" and ?x = "fst b" and ?j = "snd b"
  have bx: "?x < length (pk_map ?k)" "?j < blocks_in_piece ?x ?k" using b by (simp_all add: valid_block_def)
  note k = sw_okD(5) [OF s]
  note wp = writing_piece [OF k b w]
  obtain k' where m: "mark_as_finished (rnd []) ?x ?j (pe_info (sw_peers s ! i)) ?k = Some k'" "pk_inv k'" "frame ?k k'"
    "state_at k' = (state_at ?k)(?x := (state_at ?k ?x)(?j := StateFinished))" "peers_at k' = peers_at ?k"
    using mark_as_finished_peers [OF k bx, of "rnd []" "pe_info (sw_peers s ! i)"] w wp by auto
  have "counted lossy k' (all_asked (sw_peers s))"
  proof -
    have "agrees lossy (peers_at k' (fst c) (snd c)) (all_asked (sw_peers s) c)" if c: "open_block k' c" for c
    proof (cases "c = b")
      case True
      with c m(4) show ?thesis by (simp add: open_block_def)
    next
      case False
      with c open_elsewhere [OF m(3,4), of c] countedD(2) [OF sw_okD(1) [OF s]] m(5) show ?thesis by simp
    qed
    with m(2) show ?thesis by (simp add: counted_def)
  qed
  moreover have "torrent_ok (sw_torrent s) k'" by (rule torrent_ok_frame [OF sw_okD(3) [OF s] k m(2,3)])
  moreover have "list_all (peer_ok k') (sw_peers s)" using s peer_ok_frame [OF _ m(3)] by (auto simp: sw_ok_def list_all_iff)
  ultimately have "sw_next lossy s (s\<lparr>sw_picker := k'\<rparr>)" using s m(3) by (simp add: sw_next_def sw_ok_def)
  with m(1) i show ?thesis by (simp add: write_complete_def)
qed

subsection \<open>The requests of a piece are marked again\<close>

text \<open>The requests of \<open>qs\<close> for the piece \<open>x\<close>.\<close>

definition of_piece :: "nat \<Rightarrow> piece_block list \<Rightarrow> piece_block \<Rightarrow> nat" where
  "of_piece x bs b = (if fst b = x then count_list bs b else 0)"

definition speed_changed :: "peer_conn \<Rightarrow> peer_conn \<Rightarrow> bool" where
  "speed_changed p p' \<longleftrightarrow> (\<exists>v. p' = p\<lparr>pe_speed := v\<rparr>)"

lemma speed_trans: "speed_changed p p" "speed_changed p (update_speed t p)" "speed_changed p p1 \<Longrightarrow> speed_changed p1 p2 \<Longrightarrow> speed_changed p p2"
proof -
  have "p = p\<lparr>pe_speed := pe_speed p\<rparr>" by simp
  then show "speed_changed p p" unfolding speed_changed_def by blast
qed (auto simp: speed_changed_def update_speed_def)

lemma speed_same:
  assumes "speed_changed p p'"
  shows "requests_of p' = requests_of p" "peer_ok k p' = peer_ok k p" "pe_requests p' = pe_requests p" "pe_downloads p' = pe_downloads p"
proof -
  obtain v where "p' = p\<lparr>pe_speed := v\<rparr>" using assms unfolding speed_changed_def by blast
  then show "requests_of p' = requests_of p" "peer_ok k p' = peer_ok k p" "pe_requests p' = pe_requests p" "pe_downloads p' = pe_downloads p"
    by (simp_all add: requests_of_def peer_ok_def queued_blocks_def)
qed

lemma mark_queue_ok:
  assumes "counted lossy k f" "\<And>b. b \<in> set (map pb_block qs) \<Longrightarrow> valid_block k b" "x < length (pk_map k)" "\<not> pp_have (pk_map k ! x)"
    "\<And>b. fst b = x \<Longrightarrow> f b + count_list (map pb_block qs) b < 16383"
  shows "\<exists>p' k'. mark_queue rnd x t qs p k = Some (p', k') \<and> frame k k' \<and>
    counted lossy k' (\<lambda>b. f b + of_piece x (map pb_block qs) b) \<and> speed_changed p p'"
  using assms
proof (induction qs arbitrary: p k f)
  case Nil
  moreover have "of_piece x [] = (\<lambda>_. 0)" by (simp add: of_piece_def fun_eq_iff)
  ultimately show ?case using speed_trans(1) by simp
next
  case (Cons q qs)
  let ?b = "pb_block q"
  note IH = Cons.IH
  show ?case
  proof (cases "fst ?b = x")
    case False
    have "f b + count_list (map pb_block qs) b < 16383" if "fst b = x" for b
      using Cons.prems(5) [OF that] by (simp split: if_splits)
    moreover have "\<And>b. b \<in> set (map pb_block qs) \<Longrightarrow> valid_block k b" using Cons.prems(2) by simp
    ultimately obtain p' k' where "mark_queue rnd x t qs p k = Some (p', k')" "frame k k'"
      "counted lossy k' (\<lambda>b. f b + of_piece x (map pb_block qs) b)" "speed_changed p p'"
      using IH [OF Cons.prems(1) _ Cons.prems(3,4), where p = p] by blast
    moreover have "of_piece x (map pb_block (q # qs)) = of_piece x (map pb_block qs)"
      using False by (auto simp: of_piece_def fun_eq_iff)
    ultimately show ?thesis using False by simp
  next
    case True
    have b: "valid_block k ?b" "\<not> pp_have (pk_map k ! fst ?b)" "f ?b < 16383"
      using Cons.prems(2,4) Cons.prems(5) [of ?b] True by simp_all
    obtain r k1 where m: "mark_as_downloading (rnd [length qs]) (fst ?b) (snd ?b) (pe_info p) (peer_speed t p) k = Some (r, k1)"
      "frame k k1" "r \<longleftrightarrow> open_block k ?b" "counted lossy k1 (if r then f(?b := f ?b + 1) else f)" "open_block k1 = open_block k"
      using counted_request [OF Cons.prems(1) b peer_speed_some] by blast
    let ?f = "f(?b := f ?b + 1)"
    have c1: "counted lossy k1 ?f" using m(3,4,5) counted_but [of lossy k1 f ?b ?f] by (cases r) auto
    have c2: "?f b + count_list (map pb_block qs) b < 16383" if "fst b = x" for b
      using Cons.prems(5) [OF that] by (simp split: if_splits)
    have c3: "x < length (pk_map k1)" "\<not> pp_have (pk_map k1 ! x)" using Cons.prems(3,4) frameD(1,3) [OF m(2)] by simp_all
    have "valid_block k1 b" if "b \<in> set (map pb_block qs)" for b
      using Cons.prems(2) [of b] that frame_valid [OF m(2)] by simp
    then obtain p' k' where r: "mark_queue rnd x t qs (update_speed t p) k1 = Some (p', k')" "frame k1 k'"
      "counted lossy k' (\<lambda>b. ?f b + of_piece x (map pb_block qs) b)" "speed_changed (update_speed t p) p'"
      using IH [OF c1 _ c3 c2, where p = "update_speed t p"] by blast
    have "(\<lambda>b. ?f b + of_piece x (map pb_block qs) b) = (\<lambda>b. f b + of_piece x (map pb_block (q # qs)) b)"
      using True by (intro ext) (simp add: of_piece_def)
    with r m(1) True frame_trans [OF m(2)] speed_trans(3) [OF speed_trans(2) r(4)] show ?thesis by simp
  qed
qed

text \<open>Half way through the peers: of the piece, the requests of the peers before have been marked.\<close>

definition remarked :: "bool \<Rightarrow> nat \<Rightarrow> nat \<Rightarrow> swarm \<Rightarrow> bool" where
  "remarked lossy x i s \<longleftrightarrow>
     counted lossy (sw_picker s) (\<lambda>b. if fst b = x then all_asked (take i (sw_peers s)) b else all_asked (sw_peers s) b) \<and>
     list_all (peer_ok (sw_picker s)) (sw_peers s) \<and> torrent_ok (sw_torrent s) (sw_picker s) \<and> length (sw_peers s) \<le> 16382 \<and>
     x < length (pk_map (sw_picker s)) \<and> \<not> pp_have (pk_map (sw_picker s) ! x)"

lemma asked_append: "all_asked (ps @ qs) b = all_asked ps b + all_asked qs b"
  by (simp add: all_asked_def)

lemma asked_take: "i < length ps \<Longrightarrow> all_asked (take (Suc i) ps) b = all_asked (take i ps) b + count_list (requests_of (ps ! i)) b"
  by (simp add: take_Suc_conv_app_nth asked_append all_asked_def)

lemma asked_same: "requests_of p' = requests_of (ps ! i) \<Longrightarrow> all_asked (ps[i := p']) = all_asked ps"
  by (metis (no_types, lifting) all_asked_def list_update_id map_update fun_eq_iff)

lemma remark_peer:
  assumes s: "remarked lossy x i s" and i: "i < length (sw_peers s)"
  shows "\<exists>s'. on_peer i (\<lambda>_ t p k. do {
       (p1, k1) \<leftarrow> mark_queue r1 x t (filter live (pe_downloads p)) p k; mark_queue r2 x t (pe_requests p) p1 k1 }) s = Some s' \<and>
     remarked lossy x (Suc i) s' \<and> frame (sw_picker s) (sw_picker s') \<and> sw_torrent s' = sw_torrent s \<and> length (sw_peers s') = length (sw_peers s)"
proof -
  let ?ps = "sw_peers s" and ?k = "sw_picker s" and ?t = "sw_torrent s"
  define p where "p = ?ps ! i"
  define f where "f = (\<lambda>b. if fst b = x then all_asked (take i ?ps) b else all_asked ?ps b)"
  let ?d = "map pb_block (filter live (pe_downloads p))" and ?q = "map pb_block (pe_requests p)"
  have s': "counted lossy ?k f" "\<And>p. p \<in> set ?ps \<Longrightarrow> peer_ok ?k p" "x < length (pk_map ?k)" "\<not> pp_have (pk_map ?k ! x)"
    "torrent_ok ?t ?k" "length ?ps \<le> 16382"
    using s by (simp_all add: remarked_def f_def list_all_iff)
  have p: "peer_ok ?k p" using s'(2) i by (simp add: p_def)
  have dq: "count_list ?d b + count_list ?q b = count_list (requests_of p) b" for b by (simp add: requests_of_def count_list_append)
  have "set ?d \<union> set ?q = set (requests_of p)" by (simp add: requests_of_def image_Un)
  then have v: "\<And>b. b \<in> set ?d \<Longrightarrow> valid_block ?k b" "\<And>b. b \<in> set ?q \<Longrightarrow> valid_block ?k b"
    using p unfolding peer_ok_def by blast+
  have f1: "f b + count_list (requests_of p) b < 16383" if "fst b = x" for b
  proof -
    have "all_asked (take (Suc i) ?ps) b \<le> length (take (Suc i) ?ps)"
      by (rule asked_bound [of _ ?k]) (use s'(2) in \<open>auto dest: in_set_takeD\<close>)
    with that s'(6) asked_take [OF i, of b] show ?thesis by (simp add: f_def p_def)
  qed
  have "f b + count_list ?d b < 16383" if "fst b = x" for b using f1 [OF that] dq [of b] by linarith
  then obtain p1 k1 where m1: "mark_queue r1 x ?t (filter live (pe_downloads p)) p ?k = Some (p1, k1)" "frame ?k k1"
    "counted lossy k1 (\<lambda>b. f b + of_piece x ?d b)" "speed_changed p p1"
    using mark_queue_ok [OF s'(1) v(1) s'(3,4), where rnd = r1 and t = ?t and p = p] by blast
  have vq: "valid_block k1 b" if "b \<in> set ?q" for b using v(2) [OF that] frame_valid [OF m1(2)] by simp
  have xk: "x < length (pk_map k1)" "\<not> pp_have (pk_map k1 ! x)" using s'(3,4) frameD(1,3) [OF m1(2)] by simp_all
  have "(f b + of_piece x ?d b) + count_list ?q b < 16383" if "fst b = x" for b
    using f1 [OF that] dq [of b] that unfolding of_piece_def by simp
  then obtain p2 k2 where m2: "mark_queue r2 x ?t (pe_requests p) p1 k1 = Some (p2, k2)" "frame k1 k2"
    "counted lossy k2 (\<lambda>b. (f b + of_piece x ?d b) + of_piece x ?q b)" "speed_changed p1 p2"
    using mark_queue_ok [OF m1(3) vq xk, where rnd = r2 and t = ?t and p = p1] by blast
  have fr: "frame ?k k2" by (rule frame_trans [OF m1(2) m2(2)])
  note sp = speed_same [OF speed_trans(3) [OF m1(4) m2(4)]]
  let ?s' = "s\<lparr>sw_peers := ?ps[i := p2], sw_picker := k2\<rparr>"
  have "(\<lambda>b. if fst b = x then all_asked (take (Suc i) (?ps[i := p2])) b else all_asked (?ps[i := p2]) b) =
      (\<lambda>b. (f b + of_piece x ?d b) + of_piece x ?q b)"
  proof
    fix b
    have t: "all_asked (take (Suc i) (?ps[i := p2])) b = all_asked (take i ?ps) b + count_list (requests_of p) b"
      using asked_take [of i "?ps[i := p2]" b] i sp(1) by simp
    show "(if fst b = x then all_asked (take (Suc i) (?ps[i := p2])) b else all_asked (?ps[i := p2]) b) =
      (f b + of_piece x ?d b) + of_piece x ?q b"
      unfolding t asked_same [OF sp(1) [unfolded p_def]] using dq [of b] by (simp add: f_def of_piece_def)
  qed
  then have "counted lossy k2 (\<lambda>b. if fst b = x then all_asked (take (Suc i) (?ps[i := p2])) b else all_asked (?ps[i := p2]) b)"
    using m2(3) by simp
  moreover have "peer_ok k2 p2" using p sp(2) peer_ok_frame [OF _ fr] by simp
  then have "list_all (peer_ok k2) (?ps[i := p2])"
    using s'(2) peer_ok_frame [OF _ fr] i by (auto simp: list_all_iff dest!: set_update_subset_insert [THEN subsetD])
  moreover have "torrent_ok ?t k2" by (rule torrent_ok_frame [OF s'(5) countedD(1) [OF s'(1)] countedD(1) [OF m2(3)] fr])
  ultimately have "remarked lossy x (Suc i) ?s'" using s'(3,4,6) frameD(1,3) [OF fr] by (simp add: remarked_def cong: if_cong)
  moreover have "on_peer i (\<lambda>_ t p k. do {
       (p1, k1) \<leftarrow> mark_queue r1 x t (filter live (pe_downloads p)) p k; mark_queue r2 x t (pe_requests p) p1 k1 }) s = Some ?s'"
    using m1(1) m2(1) i by (simp add: on_peer_def p_def)
  ultimately show ?thesis using fr by auto
qed

lemma restore_piece_state_ok:
  assumes s: "remarked lossy x 0 s"
  shows "\<exists>s'. restore_piece_state rnd x s = Some s' \<and> sw_next lossy s s'"
proof -
  let ?f = "\<lambda>i. on_peer i (\<lambda>_ t p k. do {
     (p1, k1) \<leftarrow> mark_queue (at_site i (at_site 0 rnd)) x t (filter live (pe_downloads p)) p k;
     mark_queue (at_site i (at_site 1 rnd)) x t (pe_requests p) p1 k1 })"
  have "\<exists>s'. each_block ?f [i..<i + n] s1 = Some s' \<and> remarked lossy x (i + n) s' \<and> frame (sw_picker s1) (sw_picker s') \<and>
      sw_torrent s' = sw_torrent s1 \<and> length (sw_peers s') = length (sw_peers s1)"
    if "remarked lossy x i s1" "i + n \<le> length (sw_peers s1)" for i n s1
    using that
  proof (induction n arbitrary: i s1)
    case 0
    then show ?case by simp
  next
    case (Suc n)
    obtain s2 where s2: "?f i s1 = Some s2" "remarked lossy x (Suc i) s2" "frame (sw_picker s1) (sw_picker s2)"
      "sw_torrent s2 = sw_torrent s1" "length (sw_peers s2) = length (sw_peers s1)"
      using remark_peer [OF Suc.prems(1)] Suc.prems(2) by auto
    obtain s' where "each_block ?f [Suc i..<Suc i + n] s2 = Some s'" "remarked lossy x (Suc i + n) s'" "frame (sw_picker s2) (sw_picker s')"
      "sw_torrent s' = sw_torrent s2" "length (sw_peers s') = length (sw_peers s2)"
      using Suc.IH [OF s2(2)] Suc.prems(2) s2(5) by auto
    moreover have "[i..<i + Suc n] = i # [Suc i..<Suc i + n]" by (simp add: upt_conv_Cons del: upt_Suc)
    ultimately have "each_block ?f [i..<i + Suc n] s1 = Some s' \<and> remarked lossy x (i + Suc n) s' \<and> frame (sw_picker s1) (sw_picker s') \<and>
      sw_torrent s' = sw_torrent s1 \<and> length (sw_peers s') = length (sw_peers s1)"
      using s2 frame_trans [OF s2(3)] by (simp only: each_block.simps bind.bind_lunit add_Suc_right add_Suc)
    then show ?case by blast
  qed
  from this [OF s, of "length (sw_peers s)"] obtain s' where
    r: "each_block ?f [0..<length (sw_peers s)] s = Some s'" "remarked lossy x (length (sw_peers s)) s'"
    "frame (sw_picker s) (sw_picker s')" "sw_torrent s' = sw_torrent s" "length (sw_peers s') = length (sw_peers s)" by auto
  have "counted lossy (sw_picker s') (all_asked (sw_peers s'))"
    using r(2) unfolding remarked_def r(5) [symmetric] by (simp cong: if_cong)
  then have "sw_next lossy s s'" using r by (simp add: sw_next_def sw_ok_def remarked_def)
  with r(1) show ?thesis by (simp add: restore_piece_state_def each_peer_def)
qed

lemma restore_requests_ok:
  assumes s: "sw_ok lossy s" and x: "x < length (pk_map (sw_picker s))" "downloading (pk_map (sw_picker s) ! x)"
    "\<not> pp_have (pk_map (sw_picker s) ! x)"
  shows "\<exists>s'. restore_requests rnd x s = Some s' \<and> sw_next lossy s s'"
proof -
  let ?k = "sw_picker s"
  note k = sw_okD(5) [OF s]
  obtain k1 where r: "restore_piece (rnd []) x ?k = Some k1" "pk_inv k1" "state_at k1 = (state_at ?k)(x := (\<lambda>_. StateNone))"
    "frame ?k k1" "peers_at k1 = (peers_at ?k)(x := (\<lambda>_. 0))"
    using restore_piece_ok [OF k x(1,2)] by blast
  let ?s1 = "s\<lparr>sw_picker := k1\<rparr>"
  have "agrees lossy (peers_at k1 (fst b) (snd b)) (if fst b = x then all_asked (take 0 (sw_peers s)) b else all_asked (sw_peers s) b)"
    if o: "open_block k1 b" for b
  proof (cases "fst b = x")
    case True
    then show ?thesis by (simp add: r(5) all_asked_def)
  next
    case False
    then have "state_at k1 (fst b) (snd b) = state_at ?k (fst b) (snd b)" by (simp add: r(3))
    then have "open_block ?k b"
      using o frame_valid [OF r(4), of b] frame_have [OF r(4), of b] unfolding open_block_def by metis
    with False countedD(2) [OF sw_okD(1) [OF s]] show ?thesis by (simp add: r(5))
  qed
  then have "counted lossy k1 (\<lambda>b. if fst b = x then all_asked (take 0 (sw_peers s)) b else all_asked (sw_peers s) b)"
    using r(2) by (simp add: counted_def)
  moreover have "list_all (peer_ok k1) (sw_peers s)" using s peer_ok_frame [OF _ r(4)] by (auto simp: sw_ok_def list_all_iff)
  moreover have "torrent_ok (sw_torrent s) k1" by (rule torrent_ok_frame [OF sw_okD(3) [OF s] k r(2,4)])
  ultimately have "remarked lossy x 0 ?s1"
    using s x frameD(1,3) [OF r(4)] by (simp add: remarked_def sw_ok_def cong: if_cong)
  from restore_piece_state_ok [OF this] obtain s' where "restore_piece_state (at_site 0 rnd) x ?s1 = Some s'" "sw_next lossy ?s1 s'" by blast
  moreover from this(2) have "sw_next lossy s s'" using frame_trans [OF r(4)] by (simp add: sw_next_def)
  ultimately show ?thesis using r(1) by (simp add: restore_requests_def)
qed

subsection \<open>The hash of a piece has been checked\<close>

lemma finished_piece:
  assumes k: "pk_inv k" and x: "x < length (pk_map k)" "is_piece_finished x k = Some True"
  shows "downloading (pk_map k ! x)" "\<not> pp_have (pk_map k ! x)" "\<exists>ds. get_downloaders x k = Some ds"
proof -
  note kd = pk_invD(2) [OF k]
  have "0 < blocks_in_piece x k" by (rule blocks_in_piece_bounds(1) [OF kd])
  then have "state_at k x 0 = StateFinished \<or> state_at k x 0 = StateWriting"
    using piece_finished_iff [OF k x(1)] x(2) by (simp add: list_all_iff)
  moreover have "state_at k x 0 = StateNone" if "\<not> downloading (pk_map k ! x)"
    using blocks_at_none [OF kd x(1) that] by (simp add: state_at_def)
  ultimately show d: "downloading (pk_map k ! x)" by (cases "downloading (pk_map k ! x)") simp_all
  obtain i where i: "find_dl_piece x k = Some i" "i < length (pk_downloads k)" "dp_index (pk_downloads k ! i) = x"
    by (rule existing_entry [OF k x(1) d])
  show "\<not> pp_have (pk_map k ! x)" using view_entry(2) [OF kd i(2)] i(3) by simp
  obtain m where m: "m < length (pk_downloads k)" "dp_info (pk_downloads k ! i) = m * pk_blocks_per_piece k"
    by (rule storageD [OF downloadsD(1) [OF kd] i(2)])
  have "dp_info (pk_downloads k ! i) + blocks_in_piece x k \<le> (m + 1) * pk_blocks_per_piece k"
    using m(2) blocks_in_piece_bounds(2) [OF kd, of x] by simp
  also have "\<dots> \<le> length (pk_downloads k) * pk_blocks_per_piece k" using m(1) by (intro mult_le_mono1) simp
  also have "\<dots> \<le> length (pk_block_info k)" using downloadsD(1) [OF kd] by (simp add: storage_ok_def)
  finally show "\<exists>ds. get_downloaders x k = Some ds" using i(1,2) by (simp add: get_downloaders_def)
qed

lemma piece_passed_ok:
  assumes s: "sw_ok lossy s" and x: "x < length (pk_map (sw_picker s))" "is_piece_finished x (sw_picker s) = Some True"
    and st: "bt_state (sw_torrent s) \<noteq> Seeding"
  shows "\<exists>s'. piece_passed x s = Some s' \<and> sw_ok lossy s' \<and> length (sw_peers s') = length (sw_peers s)"
proof -
  let ?k = "sw_picker s" and ?t = "sw_torrent s"
  note k = sw_okD(5) [OF s] and fp = finished_piece [OF sw_okD(5) [OF s] x]
  obtain ds where ds: "get_downloaders x ?k = Some ds" using fp(3) by blast
  obtain k' where w: "we_have x ?k = Some k'" "pk_inv k'" "map pp_have (pk_map k') = (map pp_have (pk_map ?k))[x := True]"
    "state_at k' = (state_at ?k)(x := (\<lambda>_. StateNone))" "peers_at k' = (peers_at ?k)(x := (\<lambda>_. 0))"
    "\<And>y. blocks_in_piece y k' = blocks_in_piece y ?k"
    using we_have_peers [OF k x(1)] by blast
  have l: "length (pk_map k') = length (pk_map ?k)" using arg_cong [OF w(3), of length] by simp
  have h: "pp_have (pk_map k' ! y) = (y = x \<or> pp_have (pk_map ?k ! y))" if "y < length (pk_map ?k)" for y
    using that l x(1) arg_cong [OF w(3), of "\<lambda>xs. xs ! y"] by (simp add: nth_list_update split: if_splits)
  have vb: "valid_block k' = valid_block ?k" by (simp add: fun_eq_iff valid_block_def l w(6))
  let ?f = "\<lambda>p. if took_part ds p then trust_more p else p"
  have q: "requests_of (?f p) = requests_of p" "peer_ok k' (?f p) = peer_ok ?k p" for p
    using l by (simp_all add: trust_more_def Let_def requests_of_def peer_ok_def queued_blocks_def vb)
  have c: "counted lossy k' (all_asked (map ?f (sw_peers s)))"
  proof -
    have "agrees lossy (peers_at k' (fst b) (snd b)) (all_asked (sw_peers s) b)" if o: "open_block k' b" for b
    proof -
      have "fst b < length (pk_map ?k)" using o l by (simp add: open_block_def valid_block_def)
      then have "fst b \<noteq> x" "open_block ?k b" using o h [of "fst b"] vb w(4) by (auto simp: open_block_def)
      with countedD(2) [OF sw_okD(1) [OF s]] w(5) show ?thesis by simp
    qed
    moreover have "all_asked (map ?f (sw_peers s)) = all_asked (sw_peers s)" by (simp add: all_asked_def fun_eq_iff comp_def q(1))
    ultimately show ?thesis using w(2) by (simp add: counted_def)
  qed
  have num: "pk_num_have k1 = int (length (filter id (map pp_have (pk_map k1))))" if "pk_inv k1" for k1
    using picker_ok_simps(4) [OF pk_invD(1) [OF that]] by (simp add: counters_ok_def tally_def filter_map comp_def)
  have "length (filter id (map pp_have (pk_map ?k))) \<le> length (filter id ((map pp_have (pk_map ?k))[x := True]))"
    by (simp add: length_filter_conv_card) (rule card_mono, use x(1) in \<open>auto simp: nth_list_update\<close>)
  then have "pk_num_have ?k \<le> pk_num_have k'" using num [OF k] num [OF w(2)] w(3) by simp
  moreover have "pk_map k' \<noteq> []" using l x(1) by auto
  ultimately have "torrent_ok (?t\<lparr>bt_critical := remove1 x (bt_critical ?t)\<rparr>) k'"
    using sw_okD(3) [OF s] st l w(6) by (auto simp: torrent_ok_def)
  moreover have "list_all (peer_ok k') (map ?f (sw_peers s))"
    using s by (simp add: sw_ok_def list.pred_map comp_def q(2))
  ultimately show ?thesis using c s ds w(1) by (simp add: piece_passed_def sw_ok_def)
qed

text \<open>The blocks that have come in stay as they are when requests are given back.\<close>

definition same_done :: "picker \<Rightarrow> picker \<Rightarrow> bool" where
  "same_done k k' \<longleftrightarrow> (\<forall>x j. state_at k' x j = state_at k x j \<or> state_at k x j = StateRequested \<and> state_at k' x j = StateNone)"

lemma same_done_trans: "same_done k k" "same_done k k1 \<Longrightarrow> same_done k1 k2 \<Longrightarrow> same_done k k2"
proof -
  show "same_done k k" by (simp add: same_done_def)
  show "same_done k k2" if "same_done k k1" "same_done k1 k2"
    using that unfolding same_done_def by (metis block_state.distinct(1))
qed

lemma abort_all_done:
  "counted lossy k f \<Longrightarrow> (\<And>q. q \<in> set qs \<Longrightarrow> valid_block k (pb_block q)) \<Longrightarrow> abort_all rnd peer qs k = Some k' \<Longrightarrow> same_done k k'"
proof (induction qs arbitrary: k f)
  case Nil
  then show ?case by (simp add: same_done_trans)
next
  case (Cons q qs)
  let ?b = "pb_block q"
  have b: "valid_block k ?b" using Cons.prems(2) by simp
  obtain k1 where k1: "abort_download (rnd [length qs]) (fst ?b) (snd ?b) peer k = Some k1" "frame k k1" "counted lossy k1 (f(?b := f ?b - 1))"
    using counted_abort [OF Cons.prems(1) b] by blast
  have "same_done k k1"
    using abort_download_ok [OF countedD(1) [OF Cons.prems(1)], of "fst ?b" "snd ?b" "rnd [length qs]" peer] b k1(1)
    by (auto simp: valid_block_def same_done_def)
  moreover have "same_done k1 k'"
  proof (rule Cons.IH [OF k1(3)])
    show "valid_block k1 (pb_block q')" if "q' \<in> set qs" for q'
      using Cons.prems(2) [of q'] that frame_valid [OF k1(2)] by simp
    show "abort_all rnd peer qs k1 = Some k'" using Cons.prems(3) k1(1) by simp
  qed
  ultimately show ?case by (rule same_done_trans(2))
qed

lemma disconnect_done:
  assumes pq: "pq_ok lossy t oth p k" and d: "disconnect rnd t p k = Some (p', k')"
  shows "same_done k k'"
proof (cases "pe_disconnecting p")
  case True
  with d show ?thesis by (simp add: disconnect_def same_done_trans)
next
  case False
  obtain k1 where k1: "abort_all (at_site 0 rnd) (pe_info p) (filter live (rev (pe_downloads p))) k = Some k1"
    "abort_all (at_site 1 rnd) (pe_info p) (rev (pe_requests p)) k1 = Some k'"
    using d False by (auto simp: disconnect_def split: bind_splits)
  have v: "valid_block k (pb_block q)" if "q \<in> set (filter live (rev (pe_downloads p))) \<or> q \<in> set (rev (pe_requests p))" for q
    by (rule pq_okD(6) [OF pq]) (use that in \<open>auto simp: requests_of_def\<close>)
  have "\<exists>k2. abort_all (at_site 0 rnd) (pe_info p) (filter live (rev (pe_downloads p))) k = Some k2 \<and> frame k k2 \<and> (\<exists>g. counted lossy k2 g)"
    using abort_all_ok [OF pq_okD(1) [OF pq] v] by blast
  then obtain g where g: "counted lossy k1 g" "frame k k1" using k1(1) by auto
  have "same_done k k1" using abort_all_done [OF pq_okD(1) [OF pq] v k1(1)] by blast
  moreover have "same_done k1 k'"
    by (rule abort_all_done [OF g(1) _ k1(2)]) (use v frame_valid [OF g(2)] in auto)
  ultimately show ?thesis by (rule same_done_trans(2))
qed

lemma blame_keeps:
  assumes pq: "pq_ok lossy t oth p k"
  shows "\<exists>p' k'. blame rnd ds n t p k = Some (p', k') \<and> pq_ok lossy t oth p' k' \<and> frame k k' \<and> same_done k k'"
proof -
  have "same_queues p (trust_less u p)" for u by (simp add: same_queues_def trust_less_def Let_def)
  note q = pq_same(1) [OF pq this]
  obtain p' k' where d: "disconnect rnd t (trust_less (bt_use_parole t) p) k = Some (p', k')" "pq_ok lossy t oth p' k'" "frame k k'"
    using disconnect_good(1) [OF q] unfolding good_def by blast
  with disconnect_done [OF q d(1)] q pq show ?thesis by (simp add: blame_def Let_def same_done_trans)
qed

lemma same_done_finished:
  assumes k: "pk_inv k" "pk_inv k'" and f: "frame k k'" and d: "same_done k k'" and x: "x < length (pk_map k)"
    "is_piece_finished x k = Some True"
  shows "is_piece_finished x k' = Some True"
proof -
  have "list_all (\<lambda>j. state_at k x j = StateFinished \<or> state_at k x j = StateWriting) [0..<blocks_in_piece x k]"
    using x piece_finished_iff [OF k(1) x(1)] by simp
  then have "list_all (\<lambda>j. state_at k' x j = StateFinished \<or> state_at k' x j = StateWriting) [0..<blocks_in_piece x k']"
    using d frameD(2) [OF f] unfolding list_all_iff same_done_def by (metis block_state.distinct(7,9))
  with piece_finished_iff [OF k(2)] frameD(1) [OF f] x(1) show ?thesis by simp
qed

lemma piece_failed_ok:
  assumes s: "sw_ok lossy s" and x: "x < length (pk_map (sw_picker s))" "is_piece_finished x (sw_picker s) = Some True"
  shows "\<exists>s'. piece_failed rnd x s = Some s' \<and> sw_next lossy s s'"
proof -
  obtain ds where ds: "get_downloaders x (sw_picker s) = Some ds" using finished_piece(3) [OF sw_okD(5) [OF s] x] by blast
  let ?R = "\<lambda>s'. sw_next lossy s s' \<and> same_done (sw_picker s) (sw_picker s')"
  have "\<exists>s'. each_peer (\<lambda>i. on_peer i (blame (at_site i (at_site 0 rnd)) ds)) s = Some s' \<and> ?R s'"
  proof (rule each_peer_rel)
    show "?R s" using sw_next_refl [OF s] by (simp add: same_done_trans)
    fix i s1
    assume R: "?R s1" and i: "i < length (sw_peers s)"
    then have s1: "sw_ok lossy s1" "i < length (sw_peers s1)" by (simp_all add: sw_next_def)
    obtain p' k' where b: "blame (at_site i (at_site 0 rnd)) ds (connections s1) (sw_torrent s1) (sw_peers s1 ! i) (sw_picker s1) = Some (p', k')"
      "pq_ok lossy (sw_torrent s1) (all_asked (erase_at i (sw_peers s1))) p' k'" "frame (sw_picker s1) k'" "same_done (sw_picker s1) k'"
      using blame_keeps [OF sw_peer [OF s1]] by blast
    let ?s2 = "s1\<lparr>sw_peers := (sw_peers s1)[i := p'], sw_picker := k'\<rparr>"
    have "sw_next lossy s1 ?s2" by (rule sw_put [OF s1 b(3) pq_okD(1) [OF b(2)] refl pq_okD(2) [OF b(2)]])
    then have "?R ?s2" using R sw_next_trans [of lossy s s1 ?s2] same_done_trans(2) [OF _ b(4), of "sw_picker s"] by simp
    moreover have "on_peer i (blame (at_site i (at_site 0 rnd)) ds) s1 = Some ?s2" using b(1) s1(2) by (simp add: on_peer_def)
    ultimately show "\<exists>s''. on_peer i (blame (at_site i (at_site 0 rnd)) ds) s1 = Some s'' \<and> ?R s''" by blast
  qed
  then obtain s1 where s1: "each_peer (\<lambda>i. on_peer i (blame (at_site i (at_site 0 rnd)) ds)) s = Some s1" "sw_next lossy s s1"
    "same_done (sw_picker s) (sw_picker s1)" by blast
  have n: "sw_ok lossy s1" "frame (sw_picker s) (sw_picker s1)" using s1(2) by (simp_all add: sw_next_def)
  have x1: "x < length (pk_map (sw_picker s1))" using x(1) frameD(1) [OF n(2)] by simp
  have "is_piece_finished x (sw_picker s1) = Some True"
    by (rule same_done_finished [OF sw_okD(5) [OF s] sw_okD(5) [OF n(1)] n(2) s1(3) x])
  from finished_piece(1,2) [OF sw_okD(5) [OF n(1)] x1 this] restore_requests_ok [OF n(1) x1]
  obtain s' where "restore_requests (at_site 1 rnd) x s1 = Some s'" "sw_next lossy s1 s'" by blast
  with s1(1) ds sw_next_trans [OF s1(2)] show ?thesis by (simp add: piece_failed_def)
qed

lemma piece_finished_ok:
  assumes s: "sw_ok lossy s" and x: "x < length (pk_map (sw_picker s))" and m: "bt_metadata (sw_torrent s)"
  shows "\<exists>s'. piece_finished rnd x result s = Some s' \<and> sw_ok lossy s' \<and> length (sw_peers s') = length (sw_peers s)"
proof -
  obtain fin where f: "is_piece_finished x (sw_picker s) = Some fin" using piece_finished_iff [OF sw_okD(5) [OF s] x] by blast
  show ?thesis
  proof (cases "\<not> is_seed (sw_torrent s) (sw_picker s) \<and> fin")
    case False
    with s f show ?thesis by (auto simp: piece_finished_def)
  next
    case True
    then have fin: "is_piece_finished x (sw_picker s) = Some True" and st: "bt_state (sw_torrent s) \<noteq> Seeding"
      using f m by (auto simp: is_seed_def)
    from finished_piece(1,2) [OF sw_okD(5) [OF s] x fin] restore_requests_ok [OF s x]
    obtain s1 where "restore_requests rnd x s = Some s1" "sw_next lossy s s1" by blast
    with piece_passed_ok [OF s x fin st] piece_failed_ok [OF s x fin, of rnd] True f show ?thesis
      by (auto simp: piece_finished_def sw_next_def)
  qed
qed

subsection \<open>A write that fails\<close>

lemma failed_write:
  assumes s: "sw_ok lossy s" and b: "valid_block (sw_picker s) b" "state_at (sw_picker s) (fst b) (snd b) = StateWriting"
  shows "\<exists>k1. write_failed random (fst b) (snd b) (sw_picker s) = Some k1 \<and> frame (sw_picker s) k1 \<and>
    counted lossy k1 ((all_asked (sw_peers s))(b := 0)) \<and> state_at k1 (fst b) (snd b) = StateNone"
proof -
  let ?k = "sw_picker s" and ?x = "fst b" and ?j = "snd b"
  have bx: "?x < length (pk_map ?k)" "?j < blocks_in_piece ?x ?k" using b(1) by (simp_all add: valid_block_def)
  obtain k1 where w: "write_failed random ?x ?j ?k = Some k1" "pk_inv k1" "frame ?k k1"
    "state_at k1 = (state_at ?k)(?x := (state_at ?k ?x)(?j := StateNone))"
    "peers_become ?k k1 ((peers_at ?k)(?x := (peers_at ?k ?x)(?j := 0)))"
    using write_failed_peers [OF sw_okD(5) [OF s] bx, of random] b(2) by auto
  have "agrees lossy (peers_at k1 (fst c) (snd c)) (((all_asked (sw_peers s))(b := 0)) c)" if o: "open_block k1 c" for c
  proof -
    have "snd c < blocks_in_piece (fst c) ?k" using o frameD(2) [OF w(3)] by (simp add: open_block_def valid_block_def)
    then have p: "peers_at k1 (fst c) (snd c) = ((peers_at ?k)(?x := (peers_at ?k ?x)(?j := 0))) (fst c) (snd c)"
      using w(5) by (simp add: peers_become_def)
    show ?thesis
    proof (cases "c = b")
      case False
      then have "open_block ?k c" using open_elsewhere [OF w(3,4), of c] o by simp
      moreover have "((peers_at ?k)(?x := (peers_at ?k ?x)(?j := 0))) (fst c) (snd c) = peers_at ?k (fst c) (snd c)"
        using False by (cases c; cases b) auto
      ultimately show ?thesis using p countedD(2) [OF sw_okD(1) [OF s]] False by simp
    qed (use p in simp)
  qed
  then have "counted lossy k1 ((all_asked (sw_peers s))(b := 0))" using w(2) by (simp add: counted_def)
  moreover have "state_at k1 ?x ?j = StateNone" by (simp add: w(4))
  ultimately show ?thesis using w(1,3) by blast
qed

lemma unwritten_ok:
  assumes s: "sw_ok lossy s" and b: "valid_block (sw_picker s) b" "state_at (sw_picker s) (fst b) (snd b) = StateWriting"
  shows "\<exists>k1. write_failed random (fst b) (snd b) (sw_picker s) = Some k1 \<and> sw_next True s (s\<lparr>sw_picker := k1\<rparr>)"
proof -
  obtain k1 where k1: "write_failed random (fst b) (snd b) (sw_picker s) = Some k1" "frame (sw_picker s) k1"
    "counted lossy k1 ((all_asked (sw_peers s))(b := 0))" using failed_write [OF s b] by blast
  have "counted True k1 (all_asked (sw_peers s))" by (rule counted_less [OF k1(3)]) simp
  moreover have "list_all (peer_ok k1) (sw_peers s)" using s peer_ok_frame [OF _ k1(2)] by (auto simp: sw_ok_def list_all_iff)
  moreover have "torrent_ok (sw_torrent s) k1"
    by (rule torrent_ok_frame [OF sw_okD(3,5) [OF s] countedD(1) [OF k1(3)] k1(2)])
  ultimately show ?thesis using k1(1,2) sw_okD(4) [OF s] by (simp add: sw_next_def sw_ok_def)
qed

end
