(* ===== verification/PeerRuns.thy ===== *)
theory PeerRuns
  imports PeerSwarmOk PickerClaims
begin

section \<open>libtorrent: the runs of a torrent\<close>

text \<open>
  \<open>handle\<close> is one event at a peer or of the torrent, \<open>possible\<close> the events there can be in a state: messages without
  the fast extension for peers without it, blocks that have passed \<^verbatim>\<open>start_receive_piece\<close>, writes of blocks that are
  being written. \<open>swarm_reach lossy\<close> are the states after any number of events; peers may connect, and what the queues
  do not depend on may change in any way. Writes fail in the runs with \<open>lossy\<close> only.
\<close>

datatype event =
    Choke nat | Unchoke nat | Interesting nat | Tick nat | Ask nat | Reject nat peer_request | Begin nat peer_request
  | Arrive bool nat peer_request | Written nat piece_block | Failed disk_error nat piece_block
  | Snub nat | Leave nat | Checked nat int | UploadMode bool | Urgent

fun handle :: "rand \<Rightarrow> event \<Rightarrow> swarm \<Rightarrow> swarm option" where
  "handle rnd (Choke i) = on_peer i (on_choke rnd)"
| "handle rnd (Unchoke i) = on_peer i (incoming_unchoke rnd)"
| "handle rnd (Interesting i) = on_peer i (peer_is_interesting rnd)"
| "handle rnd (Tick i) = on_peer i (endgame_tick rnd)"
| "handle rnd (Ask i) = on_peer i (request_and_send rnd)"
| "handle rnd (Reject i r) = on_peer i (\<lambda>n t. incoming_reject_request rnd n t r)"
| "handle rnd (Begin i r) = on_peer i (\<lambda>_ t. start_receive_piece rnd t r)"
| "handle rnd (Arrive quick i r) = incoming_piece rnd quick i r"
| "handle rnd (Written i b) = write_complete rnd i b"
| "handle rnd (Failed e i b) = handle_disk_error rnd e i b"
| "handle rnd (Snub i) = on_peer i (snub_peer rnd)"
| "handle rnd (Leave i) = on_peer i (\<lambda>_. disconnect rnd)"
| "handle rnd (Checked x result) = piece_finished rnd x result"
| "handle rnd (UploadMode on) = set_upload_mode rnd on"
| "handle rnd Urgent = cancel_non_critical rnd"

fun possible :: "event \<Rightarrow> swarm \<Rightarrow> bool" where
  "possible (Choke i) s \<longleftrightarrow> i < length (sw_peers s) \<and> (pe_fast (sw_peers s ! i) \<or> pe_allowed_fast (sw_peers s ! i) = [])"
| "possible (Unchoke i) s \<longleftrightarrow> i < length (sw_peers s)"
| "possible (Interesting i) s \<longleftrightarrow> i < length (sw_peers s)"
| "possible (Tick i) s \<longleftrightarrow> i < length (sw_peers s)"
| "possible (Ask i) s \<longleftrightarrow> i < length (sw_peers s)"
| "possible (Reject i r) s \<longleftrightarrow> i < length (sw_peers s)"
| "possible (Begin i r) s \<longleftrightarrow> i < length (sw_peers s)"
| "possible (Arrive quick i r) s \<longleftrightarrow> i < length (sw_peers s) \<and> verify_piece (sw_torrent s) r \<and> 0 \<le> pr_length r"
| "possible (Written i b) s \<longleftrightarrow> i < length (sw_peers s) \<and> valid_block (sw_picker s) b \<and>
     state_at (sw_picker s) (fst b) (snd b) = StateWriting"
| "possible (Failed e i b) s \<longleftrightarrow> i < length (sw_peers s) \<and> valid_block (sw_picker s) b \<and>
     state_at (sw_picker s) (fst b) (snd b) = StateWriting"
| "possible (Snub i) s \<longleftrightarrow> i < length (sw_peers s)"
| "possible (Leave i) s \<longleftrightarrow> i < length (sw_peers s)"
| "possible (Checked x result) s \<longleftrightarrow> x < length (pk_map (sw_picker s)) \<and> bt_metadata (sw_torrent s)"
| "possible (UploadMode on) s \<longleftrightarrow> True"
| "possible Urgent s \<longleftrightarrow> True"

definition write_fails :: "event \<Rightarrow> bool" where
  "write_fails e \<longleftrightarrow> (case e of Failed _ _ _ \<Rightarrow> True | _ \<Rightarrow> False)"

text \<open>What a peer that has just connected, or the other members of one, can be.\<close>

definition new_peer :: "picker \<Rightarrow> peer_conn \<Rightarrow> bool" where
  "new_peer k p \<longleftrightarrow> pe_downloads p = [] \<and> pe_requests p = [] \<and> length (pe_bits p) = length (pk_map k) \<and>
     list_all (\<lambda>x. x < length (pk_map k)) (pe_suggested p)"

definition other_members :: "picker \<Rightarrow> peer_conn \<Rightarrow> peer_conn \<Rightarrow> bool" where
  "other_members k p p' \<longleftrightarrow> pe_downloads p' = pe_downloads p \<and> pe_requests p' = pe_requests p \<and>
     pe_disconnecting p' = pe_disconnecting p \<and> length (pe_bits p') = length (pk_map k) \<and>
     list_all (\<lambda>x. x < length (pk_map k)) (pe_suggested p')"

definition other_pieces :: "picker \<Rightarrow> picker \<Rightarrow> bool" where
  "other_pieces k k' \<longleftrightarrow> pk_inv k' \<and> frame k k' \<and> state_at k' = state_at k \<and> peers_at k' = peers_at k"

inductive swarm_reach :: "bool \<Rightarrow> swarm \<Rightarrow> bool" for lossy where
  start: "pk_reach k \<Longrightarrow> pk_downloads k = [] \<Longrightarrow> torrent_ok t k \<Longrightarrow>
    swarm_reach lossy \<lparr>sw_torrent = t, sw_peers = [], sw_picker = k, sw_checks = []\<rparr>"
| event: "swarm_reach lossy s \<Longrightarrow> possible e s \<Longrightarrow> \<not> write_fails e \<or> lossy \<Longrightarrow> handle rnd e s = Some s' \<Longrightarrow>
    swarm_reach lossy s'"
| join: "swarm_reach lossy s \<Longrightarrow> new_peer (sw_picker s) p \<Longrightarrow> length (sw_peers s) < 16382 \<Longrightarrow>
    swarm_reach lossy (s\<lparr>sw_peers := sw_peers s @ [p]\<rparr>)"
| peer: "swarm_reach lossy s \<Longrightarrow> i < length (sw_peers s) \<Longrightarrow> other_members (sw_picker s) (sw_peers s ! i) p' \<Longrightarrow>
    swarm_reach lossy (s\<lparr>sw_peers := (sw_peers s)[i := p']\<rparr>)"
| pieces: "swarm_reach lossy s \<Longrightarrow> other_pieces (sw_picker s) k' \<Longrightarrow> swarm_reach lossy (s\<lparr>sw_picker := k'\<rparr>)"
| torrent: "swarm_reach lossy s \<Longrightarrow> torrent_ok t' (sw_picker s) \<Longrightarrow> swarm_reach lossy (s\<lparr>sw_torrent := t'\<rparr>)"

lemma swarm_reach_lossy: "swarm_reach lossy s \<Longrightarrow> swarm_reach True s"
  by (induction rule: swarm_reach.induct) (blast intro: swarm_reach.intros)+

subsection \<open>Every event keeps the count\<close>

lemma upload_mode_ok:
  assumes s: "sw_ok lossy s"
  shows "\<exists>s'. set_upload_mode rnd on s = Some s' \<and> sw_ok lossy s'"
proof (cases "on = bt_upload_mode (sw_torrent s)")
  case True
  with s show ?thesis by (simp add: set_upload_mode_def)
next
  case False
  let ?s1 = "s\<lparr>sw_torrent := (sw_torrent s)\<lparr>bt_upload_mode := on\<rparr>\<rparr>"
  have s1: "sw_ok lossy ?s1" using s by (simp add: sw_ok_def torrent_ok_def)
  have "\<exists>s'. each_peer (\<lambda>i. on_peer i (cancel_all_requests (at_site i rnd))) ?s1 = Some s' \<and> sw_next lossy ?s1 s'"
    by (rule each_on_peer_ok [OF s1 cancel_all_requests_keeps])
  moreover have "\<exists>s'. each_peer (\<lambda>i. on_peer i (\<lambda>_. send_block_requests (at_site i rnd))) ?s1 = Some s' \<and> sw_next lossy ?s1 s'"
    by (rule each_on_peer_ok [OF s1 good_keeps [OF send_block_requests_good]])
  ultimately show ?thesis using False by (cases on) (auto simp: set_upload_mode_def sw_next_def)
qed

lemma disk_error_ok:
  assumes s: "sw_ok lossy s" and b: "valid_block (sw_picker s) b" "state_at (sw_picker s) (fst b) (snd b) = StateWriting"
    and i: "i < length (sw_peers s)"
  shows "\<exists>s'. handle_disk_error rnd e i b s = Some s' \<and> sw_ok True s'"
proof -
  obtain k1 where k1: "write_failed (rnd []) (fst b) (snd b) (sw_picker s) = Some k1" "sw_next True s (s\<lparr>sw_picker := k1\<rparr>)"
    using unwritten_ok [OF s b] by blast
  let ?s1 = "s\<lparr>sw_picker := k1\<rparr>" and ?s2 = "s\<lparr>sw_picker := k1, sw_torrent := (sw_torrent s)\<lparr>bt_graceful := False\<rparr>\<rparr>"
  have s1: "sw_ok True ?s1" using k1(2) by (simp add: sw_next_def)
  then have s2: "sw_ok True ?s2" by (simp add: sw_ok_def torrent_ok_def)
  have "\<exists>s'. on_peer i (\<lambda>_. disconnect (at_site 0 rnd)) ?s1 = Some s' \<and> sw_next True ?s1 s'"
    by (rule on_peer_ok [OF s1]) (use i good_keeps [OF disconnect_good(1)] in simp_all)
  moreover have "\<exists>s'. each_peer (\<lambda>j. on_peer j (\<lambda>_. disconnect (at_site j (at_site 0 rnd)))) ?s2 = Some s' \<and> sw_next True ?s2 s'"
    by (rule each_on_peer_ok [OF s2 good_keeps [OF disconnect_good(1)]])
  ultimately show ?thesis using k1(1) upload_mode_ok [OF s1, of "at_site 0 rnd" True]
    by (cases e) (auto simp: handle_disk_error_def write_no_memory_def disconnect_all_def sw_next_def)
qed

lemma handle_ok:
  assumes s: "sw_ok lossy s" and e: "possible e s" and w: "\<not> write_fails e \<or> lossy"
  shows "\<exists>s'. handle rnd e s = Some s' \<and> sw_ok lossy s'"
proof -
  have one: "\<exists>s'. on_peer i f s = Some s' \<and> sw_ok lossy s'"
    if "i < length (sw_peers s)" "\<And>oth t p k n. p = sw_peers s ! i \<Longrightarrow> pq_ok lossy t oth p k \<Longrightarrow> keeps_pq lossy t oth k (f n t p k)" for i f
    using on_peer_ok [OF s that(1), of f] that(2) by (auto simp: sw_next_def)
  show ?thesis
  proof (cases e)
    case (Choke i)
    with e one [of i "on_choke rnd"] on_choke_ends(1) show ?thesis by simp
  next
    case (Unchoke i)
    with e one [of i "incoming_unchoke rnd"] good_keeps [OF incoming_unchoke_good] show ?thesis by simp
  next
    case (Interesting i)
    with e one [of i "peer_is_interesting rnd"] good_keeps [OF peer_is_interesting_good] show ?thesis by simp
  next
    case (Tick i)
    with e one [of i "endgame_tick rnd"] good_keeps [OF endgame_tick_good] show ?thesis by simp
  next
    case (Ask i)
    with e one [of i "request_and_send rnd"] good_keeps [OF request_and_send_good] show ?thesis by simp
  next
    case (Reject i r)
    with e one [of i "\<lambda>n t. incoming_reject_request rnd n t r"] good_keeps [OF incoming_reject_request_good] show ?thesis by simp
  next
    case (Begin i r)
    with e one [of i "\<lambda>_ t. start_receive_piece rnd t r"] start_receive_piece_keeps show ?thesis by simp
  next
    case (Arrive quick i r)
    with e incoming_piece_ok [OF s, of i r rnd quick] show ?thesis by (auto simp: sw_next_def)
  next
    case (Written i b)
    with e write_complete_ok [OF s, of i b rnd] show ?thesis by (auto simp: sw_next_def)
  next
    case (Failed d i b)
    with w have "lossy" by (simp add: write_fails_def)
    with Failed e disk_error_ok [OF s, of b i rnd d] show ?thesis by simp
  next
    case (Snub i)
    with e one [of i "snub_peer rnd"] snub_peer_keeps show ?thesis by simp
  next
    case (Leave i)
    with e one [of i "\<lambda>_. disconnect rnd"] good_keeps [OF disconnect_good(1)] show ?thesis by simp
  next
    case (Checked x result)
    with e piece_finished_ok [OF s, of x rnd result] show ?thesis by auto
  next
    case (UploadMode on)
    with upload_mode_ok [OF s, of rnd on] show ?thesis by simp
  next
    case Urgent
    have "\<exists>s'. each_peer (\<lambda>i. on_peer i (cancel_queues (at_site i rnd))) s = Some s' \<and> sw_next lossy s s'"
      by (rule each_on_peer_ok [OF s cancel_queues_keeps])
    with Urgent show ?thesis by (auto simp: cancel_non_critical_def sw_next_def)
  qed
qed

lemma no_downloads_no_peers:
  assumes "pk_inv k" "pk_downloads k = []" "x < length (pk_map k)"
  shows "peers_at k x j = 0"
proof -
  have "\<not> downloading (pk_map k ! x)" using downloadsD(5) [OF pk_invD(2) [OF assms(1)] assms(3)] assms(2) by simp
  from blocks_at_none [OF pk_invD(2) [OF assms(1)] assms(3) this] show ?thesis by (simp add: peers_at_def)
qed

lemma swarm_reach_ok: "swarm_reach lossy s \<Longrightarrow> sw_ok lossy s"
proof (induction rule: swarm_reach.induct)
  case (start k t)
  note k = pk_reach_inv [OF start(1)]
  have "counted lossy k (all_asked [])"
    using k no_downloads_no_peers [OF k start(2)] by (simp add: counted_def open_block_def valid_block_def all_asked_def)
  with start(3) show ?case by (simp add: sw_ok_def)
next
  case (event s e rnd s')
  from handle_ok [OF event(5,2,3), of rnd] event(4) show ?case by auto
next
  case (join s p)
  have p: "peer_ok (sw_picker s) p" "requests_of p = []"
    using join(2) by (simp_all add: new_peer_def peer_ok_def queued_blocks_def requests_of_def list_all_iff)
  have "all_asked (sw_peers s @ [p]) = all_asked (sw_peers s)" using p(2) by (simp add: fun_eq_iff all_asked_def)
  with join(3,4) p(1) show ?case by (simp add: sw_ok_def)
next
  case (peer s i p')
  have q: "requests_of p' = requests_of (sw_peers s ! i)" "peer_ok (sw_picker s) p'"
    using peer(3) sw_okD(2) [OF peer(4,2)]
    by (simp_all add: other_members_def peer_ok_def queued_blocks_def requests_of_def list_all_iff)
  have "list_all (peer_ok (sw_picker s)) ((sw_peers s)[i := p'])"
    using sw_okD(2) [OF peer(4)] q(2) peer(2) by (simp add: list_all_length nth_list_update)
  with peer(4) asked_same [OF q(1)] show ?case by (simp add: sw_ok_def)
next
  case (pieces s k')
  have p: "pk_inv k'" "frame (sw_picker s) k'" "state_at k' = state_at (sw_picker s)" "peers_at k' = peers_at (sw_picker s)"
    using pieces(2) by (simp_all add: other_pieces_def)
  have "counted lossy k' (all_asked (sw_peers s))" by (rule counted_same [OF sw_okD(1) [OF pieces(3)] p(2,1,3)]) (simp add: p(4))
  moreover have "list_all (peer_ok k') (sw_peers s)" using pieces(3) peer_ok_frame [OF _ p(2)] by (auto simp: sw_ok_def list_all_iff)
  moreover have "torrent_ok (sw_torrent s) k'" by (rule torrent_ok_frame [OF sw_okD(3,5) [OF pieces(3)] p(1,2)])
  ultimately show ?case using pieces(3) by (simp add: sw_ok_def)
next
  case (torrent s t')
  then show ?case by (simp add: sw_ok_def)
qed

lemma num_requests_asked: "sw_ok lossy s \<Longrightarrow> num_requests s b = all_asked (sw_peers s) b"
proof -
  assume s: "sw_ok lossy s"
  have "num_requests s b = sum_list (map (\<lambda>p. count_list (requests_of p) b) (filter (\<lambda>p. \<not> pe_disconnecting p) (sw_peers s)))"
    by (simp add: num_requests_def requests_of_def count_list_append add.commute)
  also have "\<dots> = all_asked (sw_peers s) b"
    unfolding all_asked_def
    by (rule sum_list_map_filter) (use s in \<open>auto simp: sw_ok_def list_all_iff peer_ok_def requests_of_def\<close>)
  finally show ?thesis .
qed

lemma requested_valid:
  assumes s: "sw_ok lossy s" and b: "b \<in> set (requested_blocks s)"
  shows "valid_block (sw_picker s) b"
proof -
  obtain p where "p \<in> set (sw_peers s)" "b \<in> set (requests_of p)"
    using b by (auto simp: requested_blocks_def requests_of_def)
  then show ?thesis using s by (auto simp: sw_ok_def list_all_iff peer_ok_def)
qed

lemma requests_agree:
  assumes s: "sw_ok lossy s" and b: "valid_block (sw_picker s) b" "is_downloaded (fst b) (snd b) (sw_picker s) = Some False"
  shows "\<exists>n. num_peers (fst b) (snd b) (sw_picker s) = Some n \<and> agrees lossy n (num_requests s b)"
proof -
  note q = valid_queries [OF sw_okD(5) [OF s] b(1)]
  have "open_block (sw_picker s) b" using b(2) q(3) b(1) by (simp add: open_block_def)
  with q(1) countedD(2) [OF sw_okD(1) [OF s]] num_requests_asked [OF s] show ?thesis by simp
qed

lemma sw_ok_checks:
  assumes "sw_ok False s"
  shows "check_requests s"
  using requests_agree [OF assms requested_valid [OF assms]] by (auto simp: check_requests_def list_all_iff)

end
