(* ===== verification/PickFaults.thy ===== *)
theory PickFaults
  imports PickerClaims
begin

section \<open>Picks that are not what the options ask for\<close>

text \<open>
  Three pieces that only a seed has, of the priorities 6, 7 and 1. A piece of priority 6 without peers shares
  the bucket of priority 7, and the loops of \<^verbatim>\<open>pick_pieces\<close> take the pieces of priority 7 for the front of the
  vector.
\<close>

definition mixed :: picker where
  "mixed = demo\<lparr>pk_map := [fresh_piece\<lparr>piece_prio := 6\<rparr>, fresh_piece\<lparr>piece_prio := 7\<rparr>, fresh_piece]\<rparr>"

definition mixed_sorted :: picker where
  "mixed_sorted = mixed\<lparr>pk_pieces := [Some 0, Some 1, Some 2], pk_bounds := [0, 2, 2, 3],
     pk_map := [fresh_piece\<lparr>piece_prio := 6\<rparr>, fresh_piece\<lparr>piece_prio := 7, pos_index := 1\<rparr>, fresh_piece\<lparr>pos_index := 2\<rparr>],
     pk_dirty := False\<rparr>"

lemma mixed_reach: "pk_reach mixed"
proof -
  have 1: "set_piece_priority 0 0 6 demo = Some (False, demo\<lparr>pk_map := [fresh_piece\<lparr>piece_prio := 6\<rparr>, fresh_piece, fresh_piece]\<rparr>)"
    by (simp add: demo_def set_piece_priority_def picker_eval)
  have "pk_reach (demo\<lparr>pk_map := [fresh_piece\<lparr>piece_prio := 6\<rparr>, fresh_piece, fresh_piece]\<rparr>)"
    by (rule pk_reach.step [OF demo_reach pk_step.prio [OF _ _ 1]]) (simp_all add: demo_simps)
  moreover have 2: "set_piece_priority 0 1 7 (demo\<lparr>pk_map := [fresh_piece\<lparr>piece_prio := 6\<rparr>, fresh_piece, fresh_piece]\<rparr>) = Some (False, mixed)"
    by (simp add: demo_def mixed_def set_piece_priority_def picker_eval)
  ultimately show ?thesis using pk_reach.step [OF _ pk_step.prio [OF _ _ 2]] by simp
qed

lemmas sort_eval = update_pieces_def random_shuffle_def swap_at_def range_start_def

lemma mixed_sort: "update_pieces (\<lambda>_. 1) mixed = Some mixed_sorted"
  by (simp add: mixed_def mixed_sorted_def demo_def picker_eval sort_eval)


lemma mixed_buckets:
  "pc_sequential c \<or> pc_rarest_first c \<Longrightarrow> \<not> pc_reverse c \<Longrightarrow> pick_buckets c (\<lambda>_. 1) mixed = Some mixed_sorted"
proof -
  have "pk_dirty mixed" by (simp add: mixed_def demo_def)
  then show "pc_sequential c \<or> pc_rarest_first c \<Longrightarrow> \<not> pc_reverse c \<Longrightarrow> pick_buckets c (\<lambda>_. 1) mixed = Some mixed_sorted"
    by (simp add: pick_buckets_def mixed_sort del: One_nat_def)
qed

lemma mixed_downloads: "pk_downloads mixed = []" "pk_downloads mixed_sorted = []"
  by (simp_all add: mixed_def mixed_sorted_def demo_def)

lemmas pick_eval = pick_main_def pick_sequential_def pick_rarest_def and_then_def add_blocks_def is_piece_free_def can_pick_def
  not_critical_def whole_blocks_def expand_piece_def expand_up.simps mixed_def mixed_sorted_def demo_def picker_eval

lemma pick_none_left:
  assumes "pk_downloads k = []" "pick_call_of c pad peers k = c'" "\<not> pc_partials c'" "pick_buckets c' rnd k = Some k1"
    "pick_main c' [] r k1 \<lparr>pi_blocks = [], pi_backup = [], pi_backup2 = [], pi_num = int num\<rparr> = Some (ret, s)"
    "pk_downloads k1 = []" "pi_backup s = []" "pi_backup2 s = []" "0 < num"
  shows "pick_pieces c pad peers [] num rnd r r2 k = Some (pi_blocks s, k1)"
  using assms by (simp add: pick_pieces_def pick_suggested_def and_then_def pick_finish_def append_backup_def append_backup2_def)

lemma mixed_call: "pc_partials c = False \<Longrightarrow> pc_ignore_whole c = False \<Longrightarrow> pick_call_of c 0 10 mixed = c"
  by (simp add: pick_call_of_def mixed_downloads)



lemma whole_picks:
  "pick_pieces (demo_call\<lparr>pc_whole := 2\<rparr>) 0 10 [] 10 (\<lambda>_. 1) 0 0 mixed =
    Some ([(0, 0), (0, 1), (1, 0), (1, 1), (0, 0), (0, 1), (1, 0), (1, 1), (1, 0), (1, 1), (2, 0), (2, 1)], mixed_sorted)"
proof -
  let ?c = "demo_call\<lparr>pc_whole := 2\<rparr>"
  have m: "pick_main ?c [] 0 mixed_sorted \<lparr>pi_blocks = [], pi_backup = [], pi_backup2 = [], pi_num = int 10\<rparr> =
      Some (True, \<lparr>pi_blocks = [(0, 0), (0, 1), (1, 0), (1, 1), (0, 0), (0, 1), (1, 0), (1, 1), (1, 0), (1, 1), (2, 0), (2, 1)],
        pi_backup = [], pi_backup2 = [], pi_num = 0\<rparr>)"
    by (simp add: demo_call_def pick_eval)
  have b: "pick_buckets ?c (\<lambda>_. 1) mixed = Some mixed_sorted"
    by (rule mixed_buckets) (simp_all add: demo_call_def)
  have c: "pick_call_of ?c 0 10 mixed = ?c" "\<not> pc_partials ?c"
    by (simp_all add: mixed_call demo_call_def)
  from pick_none_left [OF mixed_downloads(1) c b m mixed_downloads(2)] show ?thesis by simp
qed



text \<open>
  C9: a peer that prefers whole pieces can be given the same block twice: a range of pieces added around one
  piece is added again around the next.
\<close>

theorem whole_pieces_repeat:
  "pk_reach mixed \<and> (\<exists>picks k. pick_pieces (demo_call\<lparr>pc_whole := 2\<rparr>) 0 10 [] 10 (\<lambda>_. 1) 0 0 mixed = Some (picks, k) \<and>
     \<not> distinct picks)"
  unfolding whole_picks using mixed_reach by simp

end
