(* ===== verification/PeerDemo.thy ===== *)
theory PeerDemo
  imports PeerRuns PickFaults
begin

section \<open>A small torrent\<close>

text \<open>
  One piece of one block and two peers that have it. The first is asked for the block; the second finds nothing free
  and is asked for it, too; then it arrives from the first. The four states are reachable; the lemmas evaluate the
  handlers.
\<close>

definition tiny_torrent :: btorrent where
  "tiny_torrent = \<lparr>bt_files = \<lparr>m_files = [], m_total_size = 16, m_num_pieces = 1, m_piece_length = 16\<rparr>,
     bt_block_size = 16, bt_state = Downloading, bt_metadata = True, bt_checked = True, bt_upload_mode = False,
     bt_graceful = False, bt_sequential = True, bt_deleted = False, bt_critical = [], bt_rate = 0, bt_pads = 0,
     bt_strict_endgame = False, bt_partials = False, bt_drop_skipped = False, bt_whole_threshold = 0,
     bt_initial_threshold = 0, bt_queue_time = 3, bt_use_parole = True\<rparr>"

definition tiny_peer :: "nat \<Rightarrow> peer_conn" where
  "tiny_peer n = \<lparr>pe_info = Some n, pe_on_parole = False, pe_trust = 0, pe_hashfails = 0, pe_requests = [],
     pe_downloads = [], pe_time_critical = 0, pe_desired = 1, pe_max_out = 100, pe_outstanding = 0, pe_choked = False,
     pe_interesting = True, pe_snubbed = False, pe_endgame = False, pe_disconnecting = False, pe_no_download = False,
     pe_fast = False, pe_large = False, pe_bits = [True], pe_allowed_fast = [], pe_suggested = [],
     pe_speed = Slow, pe_rate = 0, pe_whole = 0, pe_receiving = None, pe_sent = []\<rparr>"

definition tiny :: picker where
  "tiny = \<lparr>pk_seeds = 1, pk_pieces = [], pk_bounds = [0], pk_map = [fresh_piece],
     pk_downloads = [], pk_block_info = [], pk_blocks_per_piece = 1, pk_blocks_in_last_piece = 1,
     pk_num_filtered = 0, pk_num_have_filtered = 0, pk_num_have = 0, pk_cursor = 0, pk_reverse_cursor = 1,
     pk_sparse_regions = 1, pk_dirty = True\<rparr>"

definition tiny_sorted :: picker where
  "tiny_sorted = tiny\<lparr>pk_pieces := [Some 0], pk_bounds := [0, 0, 0, 1], pk_dirty := False\<rparr>"

definition tiny_asked :: "nat \<Rightarrow> nat \<Rightarrow> picker" where
  "tiny_asked n p = tiny\<lparr>pk_pieces := [Some 0], pk_bounds := [1, 1, 1, 1], pk_dirty := False,
     pk_map := [fresh_piece\<lparr>downloading := True, full := True\<rparr>],
     pk_downloads := [\<lparr>dp_info = 0, dp_index = 0, dp_finished = 0, dp_writing = 0, dp_requested = 1, dp_state = Slow\<rparr>],
     pk_block_info := [\<lparr>bi_peer = Some p, bi_num_peers = n, bi_state = StateRequested\<rparr>]\<rparr>"

definition tiny_swarm :: swarm where
  "tiny_swarm = \<lparr>sw_torrent = tiny_torrent, sw_peers = [tiny_peer 0, tiny_peer 1], sw_picker = tiny, sw_checks = []\<rparr>"

definition no_rand :: rand where "no_rand = (\<lambda>_. 0)"

definition tiny_call :: "nat \<Rightarrow> pick_call" where
  "tiny_call n = \<lparr>pc_pieces = [True], pc_whole = 0, pc_peer = Some n, pc_speed = Slow, pc_rarest_first = False,
     pc_reverse = False, pc_on_parole = False, pc_partials = False, pc_sequential = True, pc_affinity = False,
     pc_ignore_whole = False, pc_critical = False\<rparr>"

lemma tiny_options: "picker_options tiny_torrent (update_speed tiny_torrent (tiny_peer n)) k [True] 0 Slow = (tiny_call n)"
  by (simp add: picker_options_def tiny_torrent_def tiny_peer_def tiny_call_def on_parole_def update_speed_def)

lemma tiny_speed: "peer_speed tiny_torrent (tiny_peer n) = Slow"
  by (simp add: peer_speed_def tiny_torrent_def tiny_peer_def)

lemma tiny_buckets: "pick_buckets (tiny_call n) (\<lambda>_. 0) tiny = Some tiny_sorted"
  by (simp add: pick_buckets_def tiny_call_def tiny_def tiny_sorted_def picker_eval sort_eval)

lemma tiny_main: "pick_main (tiny_call n) [] 0 tiny_sorted \<lparr>pi_blocks = [], pi_backup = [], pi_backup2 = [], pi_num = int 1\<rparr> =
   Some (True, \<lparr>pi_blocks = [(0, 0)], pi_backup = [], pi_backup2 = [], pi_num = 0\<rparr>)"
  by (simp add: pick_eval tiny_call_def tiny_sorted_def tiny_def)

lemma tiny_picks: "pick_pieces (tiny_call n) 0 2 [] 1 (\<lambda>_. 0) 0 0 tiny = Some ([(0, 0)], tiny_sorted)"
proof -
  have c: "pick_call_of (tiny_call n) 0 2 tiny = tiny_call n" by (simp add: pick_call_of_def tiny_call_def tiny_def)
  have d: "pk_downloads tiny = []" "pk_downloads tiny_sorted = []" by (simp_all add: tiny_def tiny_sorted_def)
  have p: "\<not> pc_partials (tiny_call n)" by (simp add: tiny_call_def)
  have m: "pick_main (tiny_call n) [] 0 tiny_sorted \<lparr>pi_blocks = [], pi_backup = [], pi_backup2 = [], pi_num = int 1\<rparr> =
     Some (True, \<lparr>pi_blocks = [(0, 0)], pi_backup = [], pi_backup2 = [], pi_num = 0\<rparr>)"
    by (simp add: pick_eval tiny_call_def tiny_sorted_def tiny_def)
  from pick_none_left [OF d(1) c p tiny_buckets m d(2)] show ?thesis by simp
qed

lemma tiny_update: "pk_update 0 3 0 (tiny_sorted\<lparr>pk_map := [fresh_piece\<lparr>downloading := True\<rparr>]\<rparr>) =
  Some (tiny_sorted\<lparr>pk_map := [fresh_piece\<lparr>downloading := True\<rparr>], pk_bounds := [1, 1, 1, 1]\<rparr>)"
  by (simp add: tiny_sorted_def tiny_def fresh_piece_def pk_update_def priority_def pp_have_def we_have_index_def filtered_def
      grow_bounds_def down_loop.simps set_bound_def move_if_def place_def pk_shuffle_def priority_range_def range_start_def Let_def
      numeral_3_eq_3)

lemma tiny_mark: "mark_as_downloading 0 0 0 (Some n) Slow tiny_sorted = Some (True, tiny_asked 1 n)"
proof -
  have p: "priority 1 fresh_piece = Some 3" "pos_index fresh_piece = 0"
    by (simp_all add: priority_def fresh_piece_def pp_have_def we_have_index_def filtered_def)
  have "start_download 0 0 tiny_sorted = Some (0, tiny_sorted\<lparr>pk_map := [fresh_piece\<lparr>downloading := True\<rparr>], pk_bounds := [1, 1, 1, 1],
     pk_downloads := [\<lparr>dp_info = 0, dp_index = 0, dp_finished = 0, dp_writing = 0, dp_requested = 0, dp_state = NoSpeed\<rparr>],
     pk_block_info := [no_block]\<rparr>)"
    using tiny_update p
    by (simp add: start_download_def Let_def set_piece_def tiny_sorted_def tiny_def add_download_piece_def lower_bound_def
        insert_at_def memcpy_at_def)
  then show ?thesis
    by (simp add: mark_as_downloading_def tiny_sorted_def tiny_def tiny_asked_def fresh_piece_def Let_def block_at_def set_block_def set_dl_def
        update_full_def set_piece_def blocks_in_piece_def no_block_def)
qed

lemma tiny_mark2: "mark_as_downloading 0 0 0 (Some n) Slow (tiny_asked 1 p) = Some (True, tiny_asked 2 n)"
  by (simp add: tiny_asked_def tiny_def picker_eval)

definition tiny_request :: peer_request where
  "tiny_request = \<lparr>pr_piece = 0, pr_start = 0, pr_length = 16\<rparr>"

definition busy_peer :: "bool \<Rightarrow> nat \<Rightarrow> peer_conn" where
  "busy_peer busy n = (tiny_peer n)\<lparr>pe_downloads := [(pending (0, 0))\<lparr>pb_busy := busy\<rparr>], pe_outstanding := 16, pe_endgame := busy,
     pe_sent := [SendRequest tiny_request]\<rparr>"

definition asked_swarm :: swarm where
  "asked_swarm = tiny_swarm\<lparr>sw_peers := [busy_peer False 0, tiny_peer 1], sw_picker := tiny_asked 1 0\<rparr>"

definition shared_swarm :: swarm where
  "shared_swarm = tiny_swarm\<lparr>sw_peers := [busy_peer False 0, busy_peer True 1], sw_picker := tiny_asked 2 1\<rparr>"

lemma tiny_queries:
  "\<not> is_seed tiny_torrent tiny" "num_peers 0 0 tiny_sorted = Some 0" "piece_priority 0 tiny_sorted = Some 1"
  "\<not> is_seed tiny_torrent (tiny_asked n p)" "num_peers 0 0 (tiny_asked n p) = Some n" "piece_priority 0 (tiny_asked n p) = Some 1"
  "is_finished 0 0 (tiny_asked n p) = Some False" "is_downloaded 0 0 (tiny_asked n p) = Some False"
  by (simp_all add: is_seed_def tiny_torrent_def tiny_def tiny_asked_def num_peers_def piece_priority_def tiny_sorted_def fresh_piece_def
      find_dl_piece_def lower_bound_def block_at_def is_finished_def is_downloaded_def block_query_def pp_have_def we_have_index_def)

lemma tiny_idle: "\<not> pe_no_download (tiny_peer n)" "\<not> bt_upload_mode tiny_torrent" "\<not> pe_disconnecting (tiny_peer n)"
  "bt_metadata tiny_torrent" "bt_checked tiny_torrent" "bt_critical tiny_torrent = []" "desired_queue_size (tiny_peer n) = 1"
  "pe_downloads (tiny_peer n) = []" "pe_requests (tiny_peer n) = []" "prefer_whole_pieces (tiny_peer n) = 0" "bt_pads tiny_torrent = 0"
  "m_piece_length (bt_files tiny_torrent) = 16" "bt_whole_threshold tiny_torrent = 0" "request_bits (tiny_peer n) = [True]"
  "pe_suggested (tiny_peer n) = []" "pe_info (tiny_peer n) = Some n" "update_speed tiny_torrent (tiny_peer n) = tiny_peer n"
  "\<not> pe_choked (tiny_peer n)" "\<not> bt_strict_endgame tiny_torrent"
  by (simp_all add: tiny_peer_def tiny_torrent_def desired_queue_size_def prefer_whole_pieces_def on_parole_def request_bits_def
      update_speed_def peer_speed_def)

lemma tiny_request_picks:
  "request_picks no_rand tiny_torrent 0 False [(0, 0)] 1 None (tiny_peer 0) tiny_sorted =
     Some (0, None, (tiny_peer 0)\<lparr>pe_requests := [pending (0, 0)]\<rparr>, tiny_asked 1 0)"
proof -
  have "pending b\<lparr>pb_busy := False\<rparr> = pending b" for b by (simp add: pending_def)
  then show ?thesis using tiny_mark [of 0]
    by (simp add: tiny_queries tiny_idle add_request_def tiny_speed no_rand_def)
qed

lemma tiny_ask: "request_a_block no_rand 2 tiny_torrent (tiny_peer 0) tiny =
  Some ((tiny_peer 0)\<lparr>pe_requests := [pending (0, 0)]\<rparr>, tiny_asked 1 0)"
proof -
  have o: "picker_options tiny_torrent (tiny_peer 0) tiny [True] 0 Slow = tiny_call 0"
    using tiny_options [of 0 tiny] by (simp add: tiny_idle)
  have e: "(tiny_peer 0)\<lparr>pe_requests := x, pe_endgame := False\<rparr> = (tiny_peer 0)\<lparr>pe_requests := x\<rparr>" for x by (simp add: tiny_peer_def)
  have z: "at_site 3 no_rand = no_rand" "(\<lambda>i. no_rand [0, i]) = (\<lambda>_. 0)" "no_rand [1] = 0" "no_rand [2] = 0"
    by (simp_all add: at_site_def no_rand_def)
  show ?thesis
    by (simp add: request_a_block_def tiny_idle tiny_queries tiny_speed o z e Let_def tiny_picks [of 0, unfolded One_nat_def]
        tiny_request_picks del: One_nat_def request_picks.simps)
qed

lemma tiny_send: "send_block_requests rnd tiny_torrent ((tiny_peer n)\<lparr>pe_requests := [(pending (0, 0))\<lparr>pb_busy := busy\<rparr>], pe_endgame := busy\<rparr>) (tiny_asked m q) =
  Some (busy_peer busy n, tiny_asked m q)"
proof -
  have i: "pe_desired (tiny_peer n) = 1" "pe_outstanding (tiny_peer n) = 0" "bt_graceful tiny_torrent = False" "bt_state tiny_torrent = Downloading"
    "\<not> pe_large (tiny_peer n)" "pe_sent (tiny_peer n) = []" "pe_time_critical (tiny_peer n) = 0"
    by (simp_all add: tiny_peer_def tiny_torrent_def)
  have r: "to_req tiny_torrent (0, 0) = tiny_request" "pr_length tiny_request = 16" "tiny_request\<lparr>pr_length := 16\<rparr> = tiny_request"
    by (simp_all add: to_req_def tiny_torrent_def tiny_request_def piece_size_def to_int32_def)
  show ?thesis
    by (simp add: send_block_requests_def tiny_idle tiny_queries i r send_one_def busy_peer_def Let_def)
qed

lemma tiny_asked_for: "handle no_rand (Ask 0) tiny_swarm = Some asked_swarm"
proof -
  have z: "at_site n no_rand = no_rand" for n by (simp add: at_site_def no_rand_def)
  have e: "(tiny_peer 0)\<lparr>pe_requests := [pending (0, 0)]\<rparr> = (tiny_peer 0)\<lparr>pe_requests := [(pending (0, 0))\<lparr>pb_busy := False\<rparr>], pe_endgame := False\<rparr>"
    by (simp add: tiny_peer_def pending_def)
  have c: "connections tiny_swarm = 2" by (simp add: connections_def tiny_swarm_def tiny_idle)
  show ?thesis
    unfolding handle.simps on_peer_def c
    by (simp add: tiny_swarm_def request_and_send_def z tiny_ask e tiny_send asked_swarm_def)
qed

lemma tiny_picks2: "pick_pieces (tiny_call 1) 0 2 [] 1 (\<lambda>_. 0) 0 0 (tiny_asked 1 0) = Some ([(0, 0)], tiny_asked 1 0)"
proof -
  let ?s = "\<lparr>pi_blocks = [], pi_backup = [], pi_backup2 = [], pi_num = int 1\<rparr>"
  have c: "pick_call_of (tiny_call 1) 0 2 (tiny_asked 1 0) = tiny_call 1" by (simp add: pick_call_of_def tiny_call_def tiny_def tiny_asked_def)
  have b: "pick_buckets (tiny_call 1) (\<lambda>_. 0) (tiny_asked 1 0) = Some (tiny_asked 1 0)"
    by (simp add: pick_buckets_def tiny_call_def tiny_def tiny_asked_def)
  have m: "pick_main (tiny_call 1) [] 0 (tiny_asked 1 0) ?s = Some (False, ?s)"
    by (simp add: pick_eval tiny_call_def tiny_asked_def tiny_def)
  have f: "pi_blocks (pick_finish (tiny_call 1) 0 (tiny_asked 1 0) ?s) = [(0, 0)]"
    by (simp add: pick_finish_def tiny_call_def tiny_asked_def tiny_def append_backup_def append_backup2_def full_backup_def
        add_blocks_downloading_def dl_blocks_def blocks_in_piece_def fresh_piece_def filtered_def busy_blocks_def Let_def)
  have p: "\<not> pc_partials (tiny_call 1)" by (simp add: tiny_call_def)
  show ?thesis using b m f by (simp add: pick_pieces_def c p pick_suggested_def and_then_def Let_def del: One_nat_def)
qed

lemma tiny_ask2: "request_a_block no_rand 2 tiny_torrent (tiny_peer 1) (tiny_asked 1 0) =
  Some ((tiny_peer 1)\<lparr>pe_requests := [(pending (0, 0))\<lparr>pb_busy := True\<rparr>], pe_endgame := True\<rparr>, tiny_asked 2 1)"
proof -
  have o: "picker_options tiny_torrent (tiny_peer 1) (tiny_asked 1 0) [True] 0 Slow = tiny_call 1"
    using tiny_options [of 1 "tiny_asked 1 0"] by (simp add: tiny_idle)
  have z: "at_site 3 no_rand = no_rand" "(\<lambda>i. no_rand [0, i]) = (\<lambda>_. 0)" "no_rand s = 0" for s
    by (simp_all add: at_site_def no_rand_def)
  have e: "update_speed tiny_torrent (tiny_peer 1\<lparr>pe_endgame := True\<rparr>) = tiny_peer 1\<lparr>pe_endgame := True\<rparr>"
    "peer_speed tiny_torrent (tiny_peer 1\<lparr>pe_endgame := True\<rparr>) = Slow"
    by (simp_all add: update_speed_def peer_speed_def tiny_peer_def tiny_torrent_def)
  have p: "pick_pieces (tiny_call 1) 0 2 [] (Suc 0) (\<lambda>_. 0) 0 0 (tiny_asked 1 0) = Some ([(0, 0)], tiny_asked 1 0)"
    by (metis One_nat_def tiny_picks2)
  show ?thesis
    by (simp add: request_a_block_def add_request_def tiny_idle tiny_queries tiny_speed o z e Let_def p
        tiny_mark2 del: One_nat_def)
qed

lemma tiny_shared: "handle no_rand (Ask 1) asked_swarm = Some shared_swarm"
proof -
  have z: "at_site n no_rand = no_rand" for n by (simp add: at_site_def no_rand_def)
  have u: "[a, b][1 := x] = [a, x]" for a b x :: peer_conn by simp
  have c: "connections asked_swarm = 2" by (simp add: connections_def asked_swarm_def busy_peer_def tiny_idle)
  show ?thesis
    unfolding handle.simps on_peer_def c
    by (simp add: asked_swarm_def tiny_swarm_def request_and_send_def z tiny_ask2 tiny_send shared_swarm_def u del: One_nat_def list_update.simps)
qed

lemma tiny_reach: "swarm_reach lossy tiny_swarm"
proof -
  have e: "tiny = inc_refcount_all (pk_init 1 1 1 picker_ctor)"
  proof -
    have u: "\<not> unwanted fresh_piece" by (simp add: unwanted_def pp_have_def filtered_def fresh_piece_def we_have_index_def)
    have f: "fresh_piece\<lparr>peer_count := 0, downloading := False, pos_index := 0\<rparr> = fresh_piece" by (simp add: fresh_piece_def)
    show ?thesis
      using u by (simp add: tiny_def inc_refcount_all_def pk_init_def picker_ctor_def Let_def f skip_up.simps)
  qed
  have "pk_reach (pk_init 1 1 1 picker_ctor)" by (rule pk_reach.init) (simp_all add: we_have_index_def)
  then have k: "pk_reach tiny" unfolding e by (rule pk_reach.step) (rule pk_step.seed_in)
  have t: "torrent_ok tiny_torrent tiny"
    by (simp add: torrent_ok_def tiny_torrent_def tiny_def piece_size_def to_int32_def blocks_in_piece_def)
  let ?s = "\<lparr>sw_torrent = tiny_torrent, sw_peers = [], sw_picker = tiny, sw_checks = []\<rparr>"
  have n: "new_peer tiny (tiny_peer n)" for n by (simp add: new_peer_def tiny_peer_def tiny_def)
  have "swarm_reach lossy ?s" by (rule swarm_reach.start [OF k _ t]) (simp add: tiny_def)
  from swarm_reach.join [OF this, of "tiny_peer 0"] n have "swarm_reach lossy (?s\<lparr>sw_peers := [tiny_peer 0]\<rparr>)" by simp
  from swarm_reach.join [OF this, of "tiny_peer 1"] n show ?thesis by (simp add: tiny_swarm_def)
qed

lemma shared_reach: "swarm_reach lossy asked_swarm" "swarm_reach lossy shared_swarm"
proof -
  show a: "swarm_reach lossy asked_swarm"
    by (rule swarm_reach.event [OF tiny_reach _ _ tiny_asked_for]) (simp_all add: tiny_swarm_def write_fails_def)
  show "swarm_reach lossy shared_swarm"
    by (rule swarm_reach.event [OF a _ _ tiny_shared]) (simp_all add: asked_swarm_def write_fails_def)
qed

definition tiny_written :: picker where
  "tiny_written = tiny\<lparr>pk_pieces := [Some 0], pk_bounds := [1, 1, 1, 1], pk_dirty := False,
     pk_map := [fresh_piece\<lparr>downloading := True, full := True\<rparr>],
     pk_downloads := [\<lparr>dp_info = 0, dp_index = 0, dp_finished = 0, dp_writing = 1, dp_requested = 0, dp_state = NoSpeed\<rparr>],
     pk_block_info := [\<lparr>bi_peer = Some 0, bi_num_peers = 0, bi_state = StateWriting\<rparr>]\<rparr>"

definition served_peer :: peer_conn where
  "served_peer = (tiny_peer 0)\<lparr>pe_desired := 2, pe_outstanding := 16, pe_sent := [SendRequest tiny_request]\<rparr>"

definition got_swarm :: swarm where
  "got_swarm = tiny_swarm\<lparr>sw_peers := [served_peer\<lparr>pe_endgame := True\<rparr>, busy_peer True 1], sw_picker := tiny_written, sw_checks := [0]\<rparr>"

lemma tiny_block: "req_block tiny_torrent tiny_request = (0, 0)"
  by (simp add: req_block_def tiny_request_def)

lemma tiny_take: "take_block rnd True 2 tiny_torrent tiny_request (busy_peer False 0) (tiny_asked 2 1) =
  Some (ToWrite, served_peer, tiny_asked 2 1)"
proof -
  have b: "busy_peer False 0 = (tiny_peer 0)\<lparr>pe_downloads := [pending (0, 0)], pe_outstanding := 16, pe_sent := [SendRequest tiny_request]\<rparr>"
    by (simp add: busy_peer_def pending_def tiny_peer_def)
  have u: "update_desired_queue_size tiny_torrent (busy_peer False 0\<lparr>pe_receiving := None\<rparr>) = busy_peer False 0\<lparr>pe_desired := 2\<rparr>"
    by (simp add: update_desired_queue_size_def busy_peer_def tiny_peer_def tiny_torrent_def)
  have f: "find_if (has_block (0, 0)) [pending (0, 0)] = 0" by (simp add: find_if_def has_block_def)
  have d: "\<not> pe_disconnecting (busy_peer False 0)" "pr_length tiny_request = 16" "\<not> bt_deleted tiny_torrent"
    by (simp_all add: busy_peer_def tiny_idle tiny_request_def) (simp add: tiny_torrent_def)
  show ?thesis
    unfolding take_block_def Let_def u tiny_block
    by (simp add: d b f tiny_queries served_peer_def) (simp add: tiny_peer_def)
qed

lemma tiny_writing: "mark_as_writing 0 0 0 (Some 0) (tiny_asked 2 1) = Some (True, tiny_written)"
  by (simp add: mark_as_writing_def tiny_asked_def tiny_written_def tiny_def fresh_piece_def find_dl_piece_def lower_bound_def block_at_def set_block_def
      set_dl_def update_full_def set_piece_def blocks_in_piece_def pp_have_def we_have_index_def Let_def)

lemma written_queries:
  "is_piece_finished 0 (tiny_asked n p) = Some False" "is_piece_finished 0 tiny_written = Some True"
  "is_requested 0 0 tiny_written = Some False" "\<not> is_seed tiny_torrent tiny_written"
  by (simp_all add: is_piece_finished_def is_requested_def block_query_def tiny_asked_def tiny_written_def tiny_def fresh_piece_def
      find_dl_piece_def lower_bound_def block_at_def blocks_in_piece_def is_seed_def tiny_torrent_def)

lemma tiny_picks3: "pick_pieces (tiny_call 0) 0 2 [] 2 (\<lambda>_. 0) 0 0 tiny_written = Some ([], tiny_written)"
proof -
  let ?s = "\<lparr>pi_blocks = [], pi_backup = [], pi_backup2 = [], pi_num = int 2\<rparr>"
  have c: "pick_call_of (tiny_call 0) 0 2 tiny_written = tiny_call 0" by (simp add: pick_call_of_def tiny_call_def tiny_def tiny_written_def)
  have b: "pick_buckets (tiny_call 0) (\<lambda>_. 0) tiny_written = Some tiny_written"
    by (simp add: pick_buckets_def tiny_call_def tiny_def tiny_written_def)
  have m: "pick_main (tiny_call 0) [] 0 tiny_written ?s = Some (False, ?s)"
    by (simp add: pick_eval tiny_call_def tiny_written_def tiny_def)
  have f: "pi_blocks (pick_finish (tiny_call 0) 0 tiny_written ?s) = []"
    by (simp add: pick_finish_def tiny_call_def tiny_written_def tiny_def append_backup_def append_backup2_def full_backup_def
        add_blocks_downloading_def dl_blocks_def blocks_in_piece_def fresh_piece_def filtered_def busy_blocks_def Let_def)
  have p: "\<not> pc_partials (tiny_call 0)" by (simp add: tiny_call_def)
  show ?thesis using b m f by (simp add: pick_pieces_def c p pick_suggested_def and_then_def Let_def)
qed

lemma tiny_ask3: "request_and_send no_rand 2 tiny_torrent served_peer tiny_written = Some (served_peer\<lparr>pe_endgame := True\<rparr>, tiny_written)"
proof -
  have i: "\<not> pe_no_download served_peer" "\<not> pe_disconnecting served_peer" "desired_queue_size served_peer = 2"
    "pe_downloads served_peer = []" "pe_requests served_peer = []" "prefer_whole_pieces served_peer = 0" "request_bits served_peer = [True]"
    "pe_suggested served_peer = []" "pe_info served_peer = Some 0" "update_speed tiny_torrent served_peer = served_peer" "\<not> pe_choked served_peer"
    "peer_speed tiny_torrent served_peer = Slow" "pe_outstanding served_peer = 16" "\<not> bt_graceful tiny_torrent" "bt_state tiny_torrent = Downloading"
    "pe_desired served_peer = 2"
    by (simp_all add: served_peer_def tiny_peer_def tiny_torrent_def desired_queue_size_def prefer_whole_pieces_def on_parole_def request_bits_def
        update_speed_def peer_speed_def)
  have o: "picker_options tiny_torrent served_peer tiny_written [True] 0 Slow = tiny_call 0"
    by (simp add: picker_options_def tiny_torrent_def served_peer_def tiny_peer_def tiny_call_def on_parole_def)
  have z: "at_site n no_rand = no_rand" "(\<lambda>i. no_rand [0, i]) = (\<lambda>_. 0)" "no_rand s = 0" for n s
    by (simp_all add: at_site_def no_rand_def)
  have e: "served_peer\<lparr>pe_endgame := True, pe_requests := []\<rparr> = served_peer\<lparr>pe_endgame := True\<rparr>"
    by (simp add: served_peer_def tiny_peer_def)
  have "request_a_block no_rand 2 tiny_torrent served_peer tiny_written = Some (served_peer\<lparr>pe_endgame := True\<rparr>, tiny_written)"
    by (simp add: request_a_block_def i tiny_idle written_queries o z Let_def tiny_picks3)
  then show ?thesis by (simp add: request_and_send_def z send_block_requests_def i tiny_idle e)
qed

lemma tiny_arrive: "handle no_rand (Arrive True 0 tiny_request) shared_swarm = Some got_swarm"
proof -
  have z: "at_site n no_rand = no_rand" "no_rand s = 0" for n s by (simp_all add: at_site_def no_rand_def)
  have c: "connections shared_swarm = 2"
    by (simp add: connections_def shared_swarm_def busy_peer_def tiny_idle)
  let ?s2 = "shared_swarm\<lparr>sw_peers := [served_peer, busy_peer True 1], sw_picker := tiny_written\<rparr>"
  have c2: "connections (?s2\<lparr>sw_checks := [0]\<rparr>) = 2"
    by (simp add: connections_def busy_peer_def tiny_idle served_peer_def)
  have i: "sw_torrent shared_swarm = tiny_torrent" "sw_peers shared_swarm = [busy_peer False 0, busy_peer True 1]"
    "sw_picker shared_swarm = tiny_asked 2 1" "sw_checks shared_swarm = []" "pe_info (busy_peer False 0) = Some 0"
    by (simp_all add: shared_swarm_def tiny_swarm_def busy_peer_def tiny_idle)
  have k: "cancel_block rnd (0, 0) ?s2 = Some ?s2" for rnd
  proof (rule cancel_block_ignored)
    have "pk_inv (tiny_asked 2 1)" using sw_okD(5) [OF swarm_reach_ok [OF shared_reach(2)]] i(3) by simp
    moreover have "valid_block (tiny_asked 2 1) (0, 0)" by (simp add: valid_block_def tiny_asked_def tiny_def blocks_in_piece_def)
    ultimately show "pk_inv (sw_picker ?s2)"
      using mark_as_writing_ok [of "tiny_asked 2 1" 0 0 0 "Some 0"] tiny_writing by (auto simp: valid_block_def)
    show "valid_block (sw_picker ?s2) (0, 0)" by (simp add: valid_block_def tiny_written_def tiny_def blocks_in_piece_def)
    show "state_at (sw_picker ?s2) (fst (0, 0)) (snd (0, 0)) \<noteq> StateRequested"
      by (simp add: state_at_def tiny_written_def tiny_def blocks_at_def block_map_def view_def blocks_of_def)
  qed
  show ?thesis
    apply (simp add: incoming_piece_def i c z tiny_take tiny_block tiny_queries written_queries tiny_writing k del: One_nat_def)
    apply (simp add: on_peer_def c2 tiny_ask3 i del: One_nat_def)
    apply (simp add: got_swarm_def shared_swarm_def)
    done
qed

end
