(* ===== verification/PeerTrust.thy ===== *)
theory PeerTrust
  imports PeerRuns
begin

section \<open>The points of the peers that sent a piece\<close>

text \<open>
  What \<open>piece_passed\<close> and \<open>piece_failed\<close> do to each peer: \<open>each_block_at\<close> is a loop over the peers seen by one of
  them, \<open>blamed\<close> says whether a peer is disconnected for a failed piece. Marking the requests of the piece again
  changes no peer but for its speed.
\<close>

lemma on_peer_at:
  assumes "on_peer i f s = Some s'"
  shows "length (sw_peers s') = length (sw_peers s)" "sw_torrent s' = sw_torrent s" "j \<noteq> i \<Longrightarrow> sw_peers s' ! j = sw_peers s ! j"
    "\<exists>k'. f (connections s) (sw_torrent s) (sw_peers s ! i) (sw_picker s) = Some (sw_peers s' ! i, k')"
  using assms by (auto simp: on_peer_def vec_at_def split: bind_splits prod.splits if_splits)

lemma each_block_at:
  "each_block (\<lambda>i. on_peer i (f i)) is s = Some s' \<Longrightarrow> distinct is \<Longrightarrow>
     length (sw_peers s') = length (sw_peers s) \<and> (j \<notin> set is \<longrightarrow> sw_peers s' ! j = sw_peers s ! j) \<and>
     (j \<in> set is \<longrightarrow> (\<exists>n k k'. f j n (sw_torrent s) (sw_peers s ! j) k = Some (sw_peers s' ! j, k')))"
proof (induction "is" arbitrary: s)
  case Nil
  then show ?case by simp
next
  case (Cons i js)
  obtain s1 where s1: "on_peer i (f i) s = Some s1" "each_block (\<lambda>i. on_peer i (f i)) js s1 = Some s'"
    using Cons.prems(1) by (auto split: bind_splits)
  note at = on_peer_at [OF s1(1)] and IH = Cons.IH [OF s1(2)]
  have "distinct js" "i \<notin> set js" using Cons.prems(2) by simp_all
  with at IH show ?case by (cases "j = i") (auto simp: split_paired_Ex)
qed

lemma each_peer_at:
  assumes "each_peer (\<lambda>i. on_peer i (f i)) s = Some s'" "j < length (sw_peers s)"
  shows "\<exists>n k k'. f j n (sw_torrent s) (sw_peers s ! j) k = Some (sw_peers s' ! j, k')" "length (sw_peers s') = length (sw_peers s)"
  using each_block_at [of f "[0..<length (sw_peers s)]" s s' j] assms by (simp_all add: each_peer_def)

lemma disconnect_disconnects: "disconnect rnd t p k = Some (p', k') \<Longrightarrow> pe_disconnecting p'"
  by (auto simp: disconnect_def split: bind_splits if_splits)

definition blamed :: "nat option list \<Rightarrow> peer_conn \<Rightarrow> bool" where
  "blamed ds p \<longleftrightarrow> took_part ds p \<and> (pe_trust p \<le> -5 \<or> length (remdups ds) = 1)"

lemma trust_less_points: "-8 \<le> pe_trust p \<Longrightarrow> pe_trust p \<le> 7 \<Longrightarrow> (pe_trust (trust_less u p) \<le> -7) = (pe_trust p \<le> -5)"
  by (auto simp: trust_less_def trust_store_def Let_def)

lemma blame_blames:
  assumes "blame rnd ds n t p k = Some (p', k')" "-8 \<le> pe_trust p" "pe_trust p \<le> 7"
  shows "pe_disconnecting p' \<longleftrightarrow> pe_disconnecting p \<or> blamed ds p"
proof -
  have "pe_disconnecting (trust_less u p) = pe_disconnecting p" for u by (simp add: trust_less_def Let_def)
  with assms trust_less_points [OF assms(2,3)] show ?thesis
    by (auto simp: blame_def blamed_def Let_def dest: disconnect_disconnects split: if_splits)
qed

lemma mark_queue_speed: "mark_queue rnd x t qs p k = Some (p', k') \<Longrightarrow> speed_changed p p'"
proof (induction qs arbitrary: p k)
  case Nil
  then show ?case by (simp add: speed_trans(1))
next
  case (Cons q qs)
  show ?case
  proof (cases "fst (pb_block q) = x")
    case False
    with Cons show ?thesis by simp
  next
    case True
    then obtain k1 where "mark_queue rnd x t qs (update_speed t p) k1 = Some (p', k')"
      using Cons.prems by (auto split: bind_splits)
    from speed_trans(3) [OF speed_trans(2) Cons.IH [OF this]] show ?thesis .
  qed
qed

lemma restore_speed:
  assumes "restore_requests rnd x s = Some s'" "j < length (sw_peers s)"
  shows "speed_changed (sw_peers s ! j) (sw_peers s' ! j)" "length (sw_peers s') = length (sw_peers s)"
proof -
  obtain k1 where k1: "restore_piece_state (at_site 0 rnd) x (s\<lparr>sw_picker := k1\<rparr>) = Some s'"
    using assms(1) by (auto simp: restore_requests_def split: bind_splits)
  note at = each_peer_at [OF k1 [unfolded restore_piece_state_def]]
  obtain t k k' r1 r2 where "(do {
      (p1, k1) \<leftarrow> mark_queue r1 x t (filter live (pe_downloads (sw_peers s ! j))) (sw_peers s ! j) k;
      mark_queue r2 x t (pe_requests (sw_peers s ! j)) p1 k1 }) = Some (sw_peers s' ! j, k')"
    using at(1) [of j] assms(2) by auto
  then obtain p1 k1 where "mark_queue r1 x t (filter live (pe_downloads (sw_peers s ! j))) (sw_peers s ! j) k = Some (p1, k1)"
    "mark_queue r2 x t (pe_requests (sw_peers s ! j)) p1 k1 = Some (sw_peers s' ! j, k')" by (auto split: bind_splits)
  from speed_trans(3) [OF this [THEN mark_queue_speed]] show "speed_changed (sw_peers s ! j) (sw_peers s' ! j)" .
  show "length (sw_peers s') = length (sw_peers s)" using at(2) [of j] assms(2) by simp
qed

lemma piece_failed_blames:
  assumes "piece_failed rnd x s = Some s'" "get_downloaders x (sw_picker s) = Some ds" "j < length (sw_peers s)"
    "-8 \<le> pe_trust (sw_peers s ! j)" "pe_trust (sw_peers s ! j) \<le> 7"
  shows "pe_disconnecting (sw_peers s' ! j) \<longleftrightarrow> pe_disconnecting (sw_peers s ! j) \<or> blamed ds (sw_peers s ! j)"
proof -
  obtain s1 where s1: "each_peer (\<lambda>i. on_peer i (blame (at_site i (at_site 0 rnd)) ds)) s = Some s1"
    "restore_requests (at_site 1 rnd) x s1 = Some s'"
    using assms(1,2) by (auto simp: piece_failed_def split: bind_splits)
  note at = each_peer_at [OF s1(1) assms(3)]
  obtain v where "sw_peers s' ! j = (sw_peers s1 ! j)\<lparr>pe_speed := v\<rparr>"
    using restore_speed(1) [OF s1(2), of j] at(2) assms(3) by (auto simp: speed_changed_def)
  with at(1) blame_blames [OF _ assms(4,5)] show ?thesis by (auto simp: split_paired_Ex)
qed

lemma piece_passed_at:
  assumes "piece_passed x s = Some s'" "get_downloaders x (sw_picker s) = Some ds" "j < length (sw_peers s)"
  shows "sw_peers s' ! j = (if took_part ds (sw_peers s ! j) then trust_more (sw_peers s ! j) else sw_peers s ! j)"
  using assms by (auto simp: piece_passed_def split: bind_splits)

lemma trust_more_points:
  "-8 \<le> pe_trust p \<Longrightarrow> pe_trust p \<le> 7 \<Longrightarrow> pe_trust (trust_more p) = (if pe_trust p = 7 then -8 else pe_trust p + 1)"
  by (auto simp: trust_more_def trust_store_def Let_def)

end
