(* ===== verification/PeerClaims.thy ===== *)
theory PeerClaims
  imports PeerDemo PeerTrust
begin

section \<open>What holds of the requests of a torrent\<close>

text \<open>The properties of the request queues, over the states \<open>swarm_reach\<close> and the events \<open>handle\<close>.\<close>

text \<open>
  C2: in the runs of \<open>swarm_reach\<close> (blocks arrive, are written and checked, peers come, ask, are choked and go, at most
  16382 of them; the torrent and its files fit) the picker counts for each block that has not been downloaded at most
  the entries of the queues of all connected peers, and in the runs in which no write fails exactly these: then the
  comparison of \<^verbatim>\<open>torrent::check_invariant\<close> in a debug build holds. After a failed write it can be less (C10).
\<close>
theorem reachable_requests_counted:
  assumes "swarm_reach lossy s"
  shows "(lossy \<or> check_requests s) \<and>
    (\<forall>b. valid_block (sw_picker s) b \<and> is_downloaded (fst b) (snd b) (sw_picker s) = Some False \<longrightarrow>
      (\<exists>n \<le> num_requests s b. num_peers (fst b) (snd b) (sw_picker s) = Some n \<and> (lossy \<or> n = num_requests s b)))"
proof -
  note ok = swarm_reach_ok [OF assms]
  have "lossy \<or> check_requests s" using ok sw_ok_checks by (cases lossy) simp_all
  moreover have "\<exists>n \<le> num_requests s b. num_peers (fst b) (snd b) (sw_picker s) = Some n \<and> (lossy \<or> n = num_requests s b)"
    if "valid_block (sw_picker s) b" "is_downloaded (fst b) (snd b) (sw_picker s) = Some False" for b
    using requests_agree [OF ok that] agrees_steps(1) by (cases lossy) fastforce+
  ultimately show ?thesis by blast
qed

lemma reachable_requests_counted_witness: "requested_blocks shared_swarm = [(0, 0), (0, 0)] \<and> check_requests shared_swarm"
proof -
  have "requested_blocks shared_swarm = [(0, 0), (0, 0)]"
    by (simp add: requested_blocks_def shared_swarm_def busy_peer_def tiny_peer_def)
  with reachable_requests_counted [OF shared_reach(2) [of False]] show ?thesis by simp
qed

text \<open>
  C4: in the states of these runs, failed writes included, every handler returns for every event that is possible:
  nothing is read or written outside the vectors of the picker, and each loop ends. The state it returns is one of
  the runs.
\<close>
theorem events_return:
  assumes "swarm_reach lossy s" "possible e s"
  shows "\<exists>s'. handle rnd e s = Some s' \<and> swarm_reach (lossy \<or> write_fails e) s'"
proof -
  have r: "swarm_reach (lossy \<or> write_fails e) s"
    using assms(1) swarm_reach_lossy [OF assms(1)] by (cases lossy; cases "write_fails e") simp_all
  obtain s' where "handle rnd e s = Some s'" using handle_ok [OF swarm_reach_ok [OF r] assms(2)] by blast
  with swarm_reach.event [OF r assms(2)] show ?thesis by blast
qed

lemma shared_possible: "possible (Arrive True 0 tiny_request) shared_swarm"
  by (simp add: shared_swarm_def tiny_swarm_def verify_piece_def tiny_request_def tiny_torrent_def to_req_def piece_size_def to_int32_def)

lemma events_return_witness: "handle no_rand (Arrive True 0 tiny_request) shared_swarm = Some got_swarm \<and> swarm_reach False got_swarm"
  using events_return [OF shared_reach(2) [of False] shared_possible, of no_rand] tiny_arrive by (simp add: write_fails_def)

text \<open>
  C5: when a block arrives that other peers are asked for as well, no other peer changes: the block stays in their
  queues and no cancel message is sent, since it is being written when \<^verbatim>\<open>cancel_block\<close> is called and
  \<^verbatim>\<open>cancel_request\<close> leaves a block alone that is not requested.
\<close>
theorem duplicates_stay_requested:
  assumes "swarm_reach lossy s" "possible (Arrive quick i r) s"
  shows "\<exists>s'. handle rnd (Arrive quick i r) s = Some s' \<and> (\<forall>j. j \<noteq> i \<longrightarrow> sw_peers s' ! j = sw_peers s ! j)"
  using incoming_piece_ok [OF swarm_reach_ok [OF assms(1)], of i r rnd quick] assms(2) by auto

lemma duplicates_stay_requested_witness:
  "\<exists>s'. handle no_rand (Arrive True 0 tiny_request) shared_swarm = Some s' \<and> sw_peers s' ! 1 = busy_peer True 1 \<and>
     state_at (sw_picker s') 0 0 = StateWriting"
proof -
  obtain s' where s': "handle no_rand (Arrive True 0 tiny_request) shared_swarm = Some s'" "sw_peers s' ! 1 = sw_peers shared_swarm ! 1"
    using duplicates_stay_requested [OF shared_reach(2) shared_possible, of no_rand] by auto
  have "state_at (sw_picker got_swarm) 0 0 = StateWriting"
    by (simp add: got_swarm_def state_at_def tiny_written_def tiny_def blocks_at_def block_map_def view_def blocks_of_def)
  with s' tiny_arrive show ?thesis by (simp add: shared_swarm_def)
qed

text \<open>
  C6: a choke from a peer without the fast extension rejects all that it has been asked for: the loop of
  \<^verbatim>\<open>on_choke\<close>, which runs until the download queue is empty, ends, although each rejected request may ask for more.
\<close>
theorem choke_empties_queue:
  assumes s: "swarm_reach lossy s" "i < length (sw_peers s)" and f: "\<not> pe_fast (sw_peers s ! i)" "pe_allowed_fast (sw_peers s ! i) = []"
  shows "\<exists>s'. handle rnd (Choke i) s = Some s' \<and> pe_downloads (sw_peers s' ! i) = []"
proof -
  from on_choke_ends(2) [OF sw_peer [OF swarm_reach_ok [OF s(1)] s(2)] _ f(1), of rnd "connections s"] f(2) obtain p' k' where
    "on_choke rnd (connections s) (sw_torrent s) (sw_peers s ! i) (sw_picker s) = Some (p', k')" "pe_downloads p' = []" by auto
  with s(2) show ?thesis by (simp add: on_peer_def)
qed

lemma choke_empties_queue_witness:
  "length (pe_downloads (sw_peers shared_swarm ! 0)) = 1 \<and>
   (\<exists>s'. handle no_rand (Choke 0) shared_swarm = Some s' \<and> pe_downloads (sw_peers s' ! 0) = [])"
proof -
  have "\<exists>s'. handle no_rand (Choke 0) shared_swarm = Some s' \<and> pe_downloads (sw_peers s' ! 0) = []"
    by (rule choke_empties_queue [OF shared_reach(2)]) (simp_all add: shared_swarm_def busy_peer_def tiny_peer_def)
  then show ?thesis by (simp add: shared_swarm_def busy_peer_def)
qed

lemma got_reach: "swarm_reach lossy got_swarm"
  by (rule swarm_reach.event [OF shared_reach(2) shared_possible _ tiny_arrive]) (simp add: write_fails_def)

subsection \<open>A write that fails\<close>

text \<open>
  C10: when a block cannot be written for lack of memory while another peer is asked for it, too, the request of that
  peer is forgotten: the block goes back to the blocks nobody is asked for, with a count of zero, and the entry
  stays in the queue of the peer. \<^verbatim>\<open>restore_piece_state\<close>, which marks such entries again, is not called here.
\<close>
theorem write_failure_loses_requests:
  assumes s: "swarm_reach lossy s" and i: "i < length (sw_peers s)" "j < length (sw_peers s)" "i \<noteq> j"
    and b: "valid_block (sw_picker s) b" "state_at (sw_picker s) (fst b) (snd b) = StateWriting"
    and q: "b \<notin> set (requests_of (sw_peers s ! i))" "b \<in> set (requests_of (sw_peers s ! j))"
  shows "\<exists>s'. write_no_memory rnd i b s = Some s' \<and> num_peers (fst b) (snd b) (sw_picker s') = Some 0 \<and>
    is_requested (fst b) (snd b) (sw_picker s') = Some False \<and> b \<in> set (requests_of (sw_peers s' ! j))"
proof -
  note ok = swarm_reach_ok [OF s]
  let ?k = "sw_picker s" and ?p = "sw_peers s ! i"
  let ?oth = "(all_asked (erase_at i (sw_peers s)))(b := 0)"
  obtain k1 where w: "write_failed (rnd []) (fst b) (snd b) ?k = Some k1" "frame ?k k1" "counted lossy k1 ((all_asked (sw_peers s))(b := 0))"
    "state_at k1 (fst b) (snd b) = StateNone" using failed_write [OF ok b] by blast
  note pq0 = sw_peer [OF ok i(1)]
  have "count_list (requests_of ?p) b = 0" using q(1) by (simp add: count_list_0_iff)
  then have "(\<lambda>c. ?oth c + count_list (requests_of ?p) c) = (all_asked (sw_peers s))(b := 0)"
    using asked_at(1) [OF i(1)] by (auto simp: fun_eq_iff)
  moreover have "torrent_ok (sw_torrent s) k1" by (rule torrent_ok_frame [OF sw_okD(3,5) [OF ok] countedD(1) [OF w(3)] w(2)])
  ultimately have pq: "pq_ok lossy (sw_torrent s) ?oth ?p k1"
    using w(3) peer_ok_frame [OF sw_okD(2) [OF ok i(1)] w(2)] pq_okD(4) [OF pq0] by (simp add: pq_ok_def)
  obtain p' k' where d: "disconnect (at_site 0 rnd) (sw_torrent s) ?p k1 = Some (p', k')" "pq_ok lossy (sw_torrent s) ?oth p' k'" "frame k1 k'"
    "pe_downloads p' = []" "pe_requests p' = []"
    using disconnect_good [OF pq, of "at_site 0 rnd"] unfolding good_def by auto
  have k': "pk_inv k'" "valid_block k' b" using pq_okD(7) [OF d(2)] b(1) frame_valid [OF w(2)] frame_valid [OF d(3)] by simp_all
  have st: "state_at k' (fst b) (snd b) = StateNone"
    using disconnect_done [OF pq d(1)] w(4) unfolding same_done_def by metis
  have h: "\<not> pp_have (pk_map ?k ! fst b)" by (rule writing_piece(2) [OF sw_okD(5) [OF ok] b])
  then have "open_block k' b"
    using st k'(2) frame_have [OF frame_trans [OF w(2) d(3)] b(1)] by (simp add: open_block_def)
  then have "peers_at k' (fst b) (snd b) = 0"
    using agrees_steps(1) [OF countedD(2) [OF pq_okD(1) [OF d(2)] \<open>open_block k' b\<close>]] d(4,5) by (simp add: requests_of_def)
  then have "num_peers (fst b) (snd b) k' = Some 0" "is_requested (fst b) (snd b) k' = Some False"
    using valid_queries(1,2) [OF k'] st by simp_all
  then show ?thesis
    using w(1) d(1) i q(2) by (simp add: write_no_memory_def on_peer_def)
qed

lemma write_failure_loses_requests_witness:
  "\<exists>s'. write_no_memory no_rand 0 (0, 0) got_swarm = Some s' \<and> num_peers 0 0 (sw_picker s') = Some 0 \<and>
    is_requested 0 0 (sw_picker s') = Some False \<and> (0, 0) \<in> set (requests_of (sw_peers s' ! 1))"
proof -
  note g = got_reach [of False]
  have b: "valid_block (sw_picker got_swarm) (0, 0)" "state_at (sw_picker got_swarm) (fst (0, 0)) (snd (0, 0)) = StateWriting"
    by (simp_all add: got_swarm_def valid_block_def tiny_written_def tiny_def blocks_in_piece_def state_at_def blocks_at_def block_map_def
        view_def blocks_of_def)
  have q: "(0, 0) \<notin> set (requests_of (sw_peers got_swarm ! 0))" "(0, 0) \<in> set (requests_of (sw_peers got_swarm ! 1))"
    by (simp_all add: got_swarm_def requests_of_def served_peer_def busy_peer_def tiny_peer_def)
  have i: "0 < length (sw_peers got_swarm)" "1 < length (sw_peers got_swarm)" "(0::nat) \<noteq> 1" by (simp_all add: got_swarm_def)
  from write_failure_loses_requests [OF g i b q, of no_rand]
  show ?thesis by simp
qed

subsection \<open>Trust\<close>

definition trusted_swarm :: "int \<Rightarrow> swarm" where
  "trusted_swarm n = got_swarm\<lparr>sw_peers := (sw_peers got_swarm)[0 := (sw_peers got_swarm ! 0)\<lparr>pe_trust := n\<rparr>]\<rparr>"

lemma trusted_reach: "swarm_reach lossy (trusted_swarm n)"
  unfolding trusted_swarm_def
  by (rule swarm_reach.peer [OF got_reach])
    (simp_all add: got_swarm_def other_members_def served_peer_def tiny_peer_def tiny_written_def tiny_def)

lemma trusted_simps:
  "possible (Checked 0 result) (trusted_swarm n)" "is_piece_finished 0 (sw_picker (trusted_swarm n)) = Some True"
  "\<not> is_seed (sw_torrent (trusted_swarm n)) (sw_picker (trusted_swarm n))" "0 < length (sw_peers (trusted_swarm n))"
  "get_downloaders 0 (sw_picker (trusted_swarm n)) = Some [Some 0]" "took_part [Some 0] (sw_peers (trusted_swarm n) ! 0)"
  "pe_trust (sw_peers (trusted_swarm n) ! 0) = n" "sw_picker (trusted_swarm n) = tiny_written"
  by (simp_all add: trusted_swarm_def got_swarm_def tiny_swarm_def written_queries took_part_def served_peer_def tiny_peer_def)
    (simp_all add: tiny_torrent_def tiny_written_def tiny_def get_downloaders_def find_dl_piece_def lower_bound_def blocks_in_piece_def)

text \<open>
  C11: when a piece has passed its check, it is ours, and each peer that sent a block of it gets a point, up to 7,
  where the field of four bits turns it into -8, below the value of a ban; the points of the others stay as they are.
\<close>
theorem passed_piece_trust:
  assumes s: "swarm_reach lossy s" and x: "possible (Checked x 0) s" "is_piece_finished x (sw_picker s) = Some True"
    and n: "\<not> is_seed (sw_torrent s) (sw_picker s)" and ds: "get_downloaders x (sw_picker s) = Some ds"
    and j: "j < length (sw_peers s)" "-8 \<le> pe_trust (sw_peers s ! j)" "pe_trust (sw_peers s ! j) \<le> 7"
  shows "\<exists>s'. handle rnd (Checked x 0) s = Some s' \<and> is_downloaded x b (sw_picker s') = Some True \<and>
    pe_trust (sw_peers s' ! j) =
      (if \<not> took_part ds (sw_peers s ! j) then pe_trust (sw_peers s ! j)
       else if pe_trust (sw_peers s ! j) = 7 then -8 else pe_trust (sw_peers s ! j) + 1)"
proof -
  note ok = swarm_reach_ok [OF s]
  have st: "bt_state (sw_torrent s) \<noteq> Seeding" using n x(1) by (simp add: is_seed_def)
  have xl: "x < length (pk_map (sw_picker s))" using x(1) by simp
  obtain s' where s': "piece_passed x s = Some s'" using piece_passed_ok [OF ok xl x(2) st] by blast
  obtain k' where k': "we_have x (sw_picker s) = Some k'" "pk_inv k'"
    "map pp_have (pk_map k') = (map pp_have (pk_map (sw_picker s)))[x := True]"
    using we_have_peers [OF sw_okD(5) [OF ok] xl] by blast
  have l: "length (pk_map k') = length (pk_map (sw_picker s))" using arg_cong [OF k'(3), of length] by simp
  have "pp_have (pk_map k' ! x)" using xl l arg_cong [OF k'(3), of "\<lambda>xs. xs ! x"] by simp
  moreover have "sw_picker s' = k'" using s' k'(1) ds by (auto simp: piece_passed_def)
  ultimately have "is_downloaded x b (sw_picker s') = Some True" using xl l by (simp add: is_downloaded_def block_query_def)
  with s' piece_passed_at [OF s' ds j(1)] trust_more_points [OF j(2,3)] n x(2) show ?thesis by (simp add: piece_finished_def)
qed

lemma passed_piece_trust_witness:
  "\<exists>s'. handle no_rand (Checked 0 0) (trusted_swarm 7) = Some s' \<and> pe_trust (sw_peers s' ! 0) = -8"
  using passed_piece_trust [OF trusted_reach trusted_simps(1-3,5,4), of 7 no_rand 0] trusted_simps(6,7) by auto

text \<open>
  C39: when a piece has failed its check, exactly the peers that sent a block of it and had at most -5 points, or
  were the only one, are disconnected, beside those that were; a peer whose eighth good piece took it to -8 is one
  of them.
\<close>
theorem failed_piece_bans:
  assumes s: "swarm_reach lossy s" and x: "possible (Checked x (-2)) s" "is_piece_finished x (sw_picker s) = Some True"
    and n: "\<not> is_seed (sw_torrent s) (sw_picker s)" and ds: "get_downloaders x (sw_picker s) = Some ds"
    and j: "j < length (sw_peers s)" "-8 \<le> pe_trust (sw_peers s ! j)" "pe_trust (sw_peers s ! j) \<le> 7"
  shows "\<exists>s'. handle rnd (Checked x (-2)) s = Some s' \<and> swarm_reach lossy s' \<and>
    (pe_disconnecting (sw_peers s' ! j) \<longleftrightarrow> pe_disconnecting (sw_peers s ! j) \<or>
      took_part ds (sw_peers s ! j) \<and> (pe_trust (sw_peers s ! j) \<le> -5 \<or> length (remdups ds) = 1))"
proof -
  have xl: "x < length (pk_map (sw_picker s))" using x(1) by simp
  obtain s' where s': "piece_failed rnd x s = Some s'" using piece_failed_ok [OF swarm_reach_ok [OF s] xl x(2)] by blast
  have h: "handle rnd (Checked x (-2)) s = Some s'" using s' n x(2) by (simp add: piece_finished_def)
  have "swarm_reach lossy s'" by (rule swarm_reach.event [OF s x(1) _ h]) (simp add: write_fails_def)
  with h piece_failed_blames [OF s' ds j] show ?thesis by (simp add: blamed_def)
qed

lemma failed_piece_bans_witness:
  "\<exists>s'. handle no_rand (Checked 0 (-2)) (trusted_swarm 0) = Some s' \<and> pe_disconnecting (sw_peers s' ! 0)"
  using failed_piece_bans [OF trusted_reach [of False] trusted_simps(1-3,5,4), of 0 no_rand] trusted_simps(6,7) by auto

end
