(* ===== verification/Spec2Isabelle.thy ===== *)
theory Spec2Isabelle
  imports CommonUtil Md5 StreamLib NodeProcess Cast CommonTypes TorrentWrapper PlayIO
    TorDownload PlayerWindow PickerWidth PeerClaims
begin

text \<open>
  Verification of the first-party C++ core of the Popcorn Time desktop client
  (\<^verbatim>\<open>src/PopcornTime_Desktop-src\<close>) and of the parts of its torrent library that this core computes with.

  \<^bold>\<open>The program.\<close> A web page chooses a film; \<^verbatim>\<open>gui/hostApp.cpp\<close> answers its messages. The window
  (\<^verbatim>\<open>gui/FramelessMainWindow.cpp\<close>) asks the torrent engine (\<^verbatim>\<open>gui/TorHelpers.cpp\<close>,
  \<^verbatim>\<open>gui/TorrentWrapper.cpp\<close>) for a stream; the engine drives the streaming library (\<^verbatim>\<open>lib/lib.cpp\<close>,
  \<^verbatim>\<open>lib/streamerok.cpp\<close>), which keeps a window of download deadlines in front of the playing position of
  every streamed file and hands them to libtorrent. A local player reads the file through
  \<^verbatim>\<open>gui/TorrentIODevice.cpp\<close>, or a node script casts it (\<^verbatim>\<open>gui/ChromeCast.cpp\<close>,
  \<^verbatim>\<open>gui/NjsProcess.cpp\<close>). Subtitles are fetched, recoded and chosen by \<^verbatim>\<open>gui/Subtitle*.cpp\<close>; the bar of the
  player (\<^verbatim>\<open>gui/VideoControl.cpp\<close>, \<^verbatim>\<open>gui/SeekSlider.cpp\<close>) connects to whichever player is in use.

  \<^bold>\<open>Theories, bottom up.\<close>
  \<^item> \<open>Prelude\<close>: C++ integers, substrings, buffers, the handler combinators and the machine locales.
    \<open>Json\<close>: \<^verbatim>\<open>QJsonValue\<close>. \<open>Float24\<close>: single precision on scaled integers.
  \<^item> \<open>CommonUtil\<close>: \<^verbatim>\<open>Common/common.cpp\<close>, \<^verbatim>\<open>lib/urlencode.cpp\<close>. \<open>Md5Transform\<close>, \<open>Md5\<close>: \<^verbatim>\<open>Common/md5.cpp\<close>
    against the loop of RFC 1321.
  \<^item> \<open>TorrentFiles\<close>: \<^verbatim>\<open>file_storage\<close> and \<^verbatim>\<open>bitfield\<close> of libtorrent. \<open>StreamAux\<close>: the class \<^verbatim>\<open>tAux\<close>.
    \<open>Streamer\<close>: the class \<^verbatim>\<open>Streamerok\<close>; \<open>StreamerSpec\<close>: its specifications and invariant.
    \<open>StreamLib\<close>: \<^verbatim>\<open>lib/lib.cpp\<close>.
  \<^item> \<open>TorrentWrapper\<close>, \<open>TorDownload\<close>, \<open>PlayIO\<close>: the engine, the threads that fetch and report, the device
    the player reads. \<open>CommonTypes\<close>: \<^verbatim>\<open>gui/commontypes.cpp\<close>.
  \<^item> \<open>NodeProcess\<close>, \<open>Cast\<close>: the output of the node scripts and the casting machine.
  \<^item> \<open>SubtitleDecode\<close>, \<open>SubtitleFetch\<close>, \<open>Subtitles\<close>: \<^verbatim>\<open>SubtitleDecoder\<close>, \<^verbatim>\<open>SubtitleFetcher\<close>,
    \<^verbatim>\<open>Subtitler\<close> with its boxes.
  \<^item> \<open>SeekBar\<close>, \<open>Players\<close>, \<open>VideoPanel\<close>, \<open>WindowInput\<close>, \<open>HostBridge\<close>, \<open>PlayerWindow\<close>: \<^verbatim>\<open>SeekSlider\<close> and
    \<^verbatim>\<open>SeekControl\<close>; \<^verbatim>\<open>VideoPlayer\<close> and \<^verbatim>\<open>VMediaPlayer\<close>; \<^verbatim>\<open>VideoControl\<close>; \<^verbatim>\<open>ResizeDragEventHandler\<close> and
    \<^verbatim>\<open>ControlRevealer\<close>; \<^verbatim>\<open>HostApp\<close>, \<^verbatim>\<open>AppConfig\<close>, \<^verbatim>\<open>DropHandler\<close>, \<^verbatim>\<open>Zoom4k\<close>; \<^verbatim>\<open>FramelessMainWindow\<close>.
  \<^item> The piece picker of libtorrent (\<^verbatim>\<open>src/piece_picker.cpp\<close>), which turns the priorities of the streaming code
    into requests. \<open>PickerBuckets\<close>: the members and the moves between buckets; \<open>PickerSpec\<close>: the invariant of
    the buckets and the proof that the moves keep it. \<open>PiecePicker\<close>: the operations on pieces; \<open>PickerInv\<close>:
    they keep buckets, cursors and counters; \<open>PickerSort\<close>: \<^verbatim>\<open>update_pieces\<close>. \<open>PickerBlocks\<close>: the operations on
    blocks; \<open>PickerDownloads\<close>, \<open>PickerMap\<close>, \<open>PickerOps\<close>: their entries as a map from pieces to blocks and the
    theorem of each operation. \<open>PickPieces\<close>: \<^verbatim>\<open>pick_pieces\<close>; \<open>PickSafe\<close>: what it picks. \<open>PickerCheck\<close>: \<^verbatim>\<open>check_invariant\<close> and the reachable states. \<open>PickerClient\<close>: the
    queries and the interface \<open>block_store\<close>. \<open>PickerRegions\<close>: the sparse regions and two faults.
    \<open>PickerClaims\<close>, \<open>PickerWidth\<close>: what holds in every reachable state.
    \<open>PickFaults\<close>: picks that are not what the options ask for.
  \<^item> The requests of the peers (\<^verbatim>\<open>src/peer_connection.cpp\<close>, \<^verbatim>\<open>src/policy.cpp\<close>, \<^verbatim>\<open>src/torrent.cpp\<close>), which call the
    picker. \<open>PeerQueue\<close>: the two queues of a peer, what it is asked for and how; \<open>PeerEvents\<close>: its handlers.
    \<open>PeerCount\<close>: what the picker counts, with the interface \<open>request_book\<close>; \<open>PeerQueueOk\<close>, \<open>PeerEventsOk\<close>: the
    handlers keep that count. \<open>PeerSwarm\<close>: what goes over all peers of a torrent, from a block that arrives to the
    check of a piece and the errors of a write; \<open>PeerSwarmOk\<close>: it keeps the count. \<open>PeerRuns\<close>: the events and
    the states they reach, \<open>swarm_reach lossy\<close>; \<open>PeerTrust\<close>: the points of the peers; \<open>PeerDemo\<close>: a small run;
    \<open>PeerClaims\<close>: what holds in every run.
  \<^item> This theory composes them: the signals of one component are the events of the next.

  \<^bold>\<open>How state and operations correspond.\<close> A class is a \<open>record\<close> whose fields carry a prefix and the
  member's name, an enumeration a \<open>datatype\<close>. A slot or method is a function from the state to the new
  state and what it emits (\<open>('s, 'o) act\<close>); \<open>acts\<close> runs such handlers in the order of the source,
  \<open>with_state\<close> reads the state where the source does, \<open>when_act\<close> is a guard. The outputs are the signals,
  the calls of other objects and, for the streaming library, the calls of the torrent handle, so that
  theorems can speak of their order. Exceptions are values of \<open>outcome\<close>; a read outside an array, a null
  dereference or a signed overflow is \<open>None\<close>, and theorems say when it cannot happen. Where two threads
  share members (\<open>PlayIO\<close>) a step is one access and a run an interleaving.

  \<^bold>\<open>What is a parameter.\<close> Qt's widgets and network, QtAV, VLC, iconv, archives, the file system, the
  clock and \<^verbatim>\<open>random()\<close> are arguments of the definitions or fields of an environment record; what libtorrent
  reports to the streaming code is the record \<open>world\<close>; theorems that need them state \<open>torrents_ok\<close> (the files lie
  one after the other and none is empty) and \<open>fs_wf\<close>.

  \<^bold>\<open>Locales.\<close> \<open>machine\<close> is the contract of a component whose every event keeps an invariant,
  \<open>observed\<close> the same with an observer of the outputs (a \<open>machine\<close> is \<open>observed\<close> by one that sees
  nothing); they are interpreted on the casting machine, the engine, the players, the bar and the window, and
  their facts carry the theorems on whole runs. \<open>byte_map\<close> is the map from the bytes of a file to pieces,
  \<open>block_stream\<close> a digest fed in parts, \<open>block_store\<close> the life of a block as the clients of the picker see it: a
  schedule of requests, writes and finishes, mixed over the blocks, completes a piece. \<open>request_book\<close> is the count of the
  requests that the queues of the peers rely on: a request is marked and given back, and the count follows.

  \<^bold>\<open>What the lemmas show.\<close> Each component theory ends with its properties: invariants kept by every
  operation (the window of deadlines, the torrent table, the casting machine, the connections of the bar, the
  buckets of the piece picker), the result of each operation on every branch, equivalence with a reference
  (MD5, string replacement, the update of the buckets), round trips (percent encoding, the messages of the
  scripts, the numbers in the names of subtitle variants), termination of the loops that poll, bounds.
  The picker theories show its debug check in every state reached by its operations, the peer theories that the picker
  counts exactly the entries of all queues while no write fails and at most these after a failed write, that every handler
  ends, and what a checked piece does to the trust of the peers.
  Deviations of the code from what it means to do are theorems too and are listed as findings in the
  manifest.

  \<^bold>\<open>Bounds.\<close> Two definitions use fuel. In the random order of \<^verbatim>\<open>pick_pieces\<close> each turn adds a
  block, so one turn more than blocks are wanted is enough. In \<open>reject_all\<close>, the loop of \<^verbatim>\<open>on_choke\<close>, each turn takes
  an entry of the download queue, whose length is the fuel. Theorems on both show that they return. A torrent has at most
  16382 peers, so that the count of a block keeps its 14 bits. MD5 is proved for messages whose
  length leaves the 32-bit block counter in range; waiting for metadata is bounded by the source's 240
  polls; single precision is exact below \<open>2 ^ 24\<close>; the state machine of the controls keeps its 32-bit
  words. A picker has less than \<open>2 ^ 32 - 1\<close> pieces of less than \<open>2 ^ 15\<close> blocks, which keeps its counters in
  their 16 bits (\<open>counters_in_range\<close>); the counts of peers wrap at their 16 and 14 bits.

  \<^bold>\<open>Not modelled.\<close> \<^verbatim>\<open>lib/SocketHandler.cpp\<close> and mongoose (an HTTP server, built for Windows only);
  painting, styles, sizes and fonts of the widgets; \<^verbatim>\<open>main.cpp\<close>; the rest of libtorrent (trackers,
  the parsing of messages, uploads, the threads of the disk) and the other vendored libraries; the iOS and Android clients, which share no code
  with this core; the node scripts, which are not C++.
\<close>

section \<open>Components together\<close>

text \<open>The subtitle files among the signals of \<^verbatim>\<open>Subtitler\<close>, as the local player receives them.\<close>

definition subtitle_events :: "'n su_out list \<Rightarrow> vp_event list" where
  "subtitle_events os = List.map_filter (\<lambda>x. case x of HaveSubtitleFile f \<Rightarrow> Some (SubFile f) | _ \<Rightarrow> None) os"

lemma subtitle_events_provide:
  assumes "su_tempFile u = Some f"
  shows "\<forall>e \<in> set (subtitle_events (snd (provideTimer u))). e = SubFile f"
  using assms
  by (auto simp: provideTimer_def subtitle_events_def map_filter_def run_simps simp del: acts.simps(2)
      split: option.splits)

text \<open>
  A film that is closed and opened again has no subtitles: the timer of \<^verbatim>\<open>Subtitler\<close> sends the
  file that was in use, however often playing starts, and \<^verbatim>\<open>VideoPlayer\<close> ignores it.
\<close>

theorem resend_ignored:
  assumes "vp_player s \<noteq> None" "su_tempFile u = Some (vp_subFile s)"
    and "\<forall>e \<in> set es. \<forall>g. e \<noteq> SubFile g"
  shows "vp_filter (fst (acts (map (vp_handle ex co)
      (CloseFile # es @ concat (replicate n (subtitle_events (snd (provideTimer u)))))) s)) = NoFilter"
proof -
  define f where "f = vp_subFile s"
  let ?es = "es @ concat (replicate n (subtitle_events (snd (provideTimer u))))"
  have "list_all (\<lambda>e. \<forall>g. e = SubFile g \<longrightarrow> g = f) ?es"
    using assms(3) subtitle_events_provide [OF assms(2)] by (auto simp: list_all_iff f_def)
  moreover have "no_subtitles f (fst (closeFile s))"
    using assms(1) by (auto simp: no_subtitles_def f_def)
  ultimately have "no_subtitles f (fst (acts (map (vp_handle ex co) ?es) (fst (closeFile s))))"
    by (intro no_subs.keeps_run)
  then show ?thesis by (simp add: fst_acts no_subtitles_def del: acts.simps(2))
qed

lemma resend_ignored_witness:
  "vp_filter (fst (acts (map (vp_handle (\<lambda>f. True) (\<lambda>f. True))
     (CloseFile # [OpenFile ''a.mkv'', AvChange AvPlaying LoadedMedia] @
      concat (replicate 2 (subtitle_events (snd (provideTimer (demo_su\<lparr>su_tempFile := Some ''en.srt''\<rparr>)))))))
     (videoPlayer\<lparr>vp_player := Some 1, vp_subFile := ''en.srt'', vp_filter := FilterOf (Some ''en.srt'')\<rparr>))) =
   NoFilter"
  by (rule resend_ignored) simp_all

text \<open>The calls that reach the torrent engine from the bridge, and the bridge from the window.\<close>

definition engine_call :: "'n host_out \<Rightarrow> 'n tw_act" where
  "engine_call x = (case x of EngineGet t \<Rightarrow> tw_get t | EngineCancel i \<Rightarrow> tw_cancel i | _ \<Rightarrow> skip_act)"

definition window_call :: "host \<Rightarrow> mw_out \<Rightarrow> 'n tw_act" where
  "window_call h x =
     (case x of
        CancelActive \<Rightarrow> acts (map engine_call (snd (cancelTorrent_index (- 1) h)))
      | _ \<Rightarrow> skip_act)"

lemma cancel_active_outs:
  "filter (\<lambda>x. x = CancelActive) (snd (stopPlayback s)) = [CancelActive]"
proof -
  have r: "filter (\<lambda>x. x = CancelActive) (snd (revealing f s)) = []" for f s
  proof -
    have "filter (\<lambda>x. x = CancelActive) (snd (acts (map on_reveal xs) t)) = []" for xs t
    proof (induction xs arbitrary: t)
      case (Cons x xs)
      have "snd (on_reveal x t) = []"
        by (cases x) (simp_all add: on_reveal_def mw_uiShow_def mw_uiHide_def pop_cursor_def push_cursor_def
            run_simps del: acts.simps(2))
      with Cons show ?case by (simp add: snd_acts del: acts.simps(2))
    qed simp
    then show ?thesis by (simp add: revealing_def split_beta Let_def snd_acts del: acts.simps(2))
  qed
  have p: "filter (\<lambda>x. x = CancelActive) (snd (controlling f s)) = []" for f s
  proof -
    have "filter (\<lambda>x. x = CancelActive) (snd (acts (map on_panel_out xs) t)) = []" for xs t
    proof (induction xs arbitrary: t)
      case (Cons x xs)
      have "filter (\<lambda>x. x = CancelActive) (snd (on_panel_out x t)) = []"
        by (cases x) (simp_all add: on_panel_out_def r)
      with Cons show ?case by (simp add: snd_acts del: acts.simps(2))
    qed simp
    then show ?thesis by (simp add: controlling_def split_beta Let_def snd_acts del: acts.simps(2))
  qed
  show ?thesis
    by (simp add: stopPlayback_def playbackStopped_def pop_cursor_def run_simps r p del: acts.simps(2))
qed

lemma window_calls:
  "acts (map (window_call h) xs) = acts (map (window_call h) (filter (\<lambda>x. x = CancelActive) xs))"
proof (induction xs)
  case (Cons x xs)
  then show ?case by (cases x) (simp_all add: window_call_def fun_eq_iff split_beta)
qed simp

text \<open>
  C40: closing the player stops and deletes the active torrent in the library, once, leaves the engine
  without an active torrent and lets the machine sleep again when it was the last one.
\<close>

theorem closing_stops_torrent:
  fixes tw :: "'n tw"
  shows "let (t, outs) = acts (map (window_call h) (snd (stopPlayback s))) tw; i = ti_index (tw_active tw)
    in List.map_filter (\<lambda>x. case x of StopDelete j \<Rightarrow> Some j | _ \<Rightarrow> None) outs = [i] \<and>
       \<not> torrent_isValid (tw_active t) \<and> tw_notify t = None \<and> tw_ids t = remove1 i (tw_ids tw) \<and>
       (RestoreSleep \<in> set outs) = (remove1 i (tw_ids tw) = [])"
proof -
  have "i \<notin> set xs \<Longrightarrow> remove1 i xs = xs" for i :: int and xs by (rule remove1_idem)
  then show ?thesis
    unfolding window_calls [of h "snd (stopPlayback s)"] cancel_active_outs
    by (simp add: window_call_def cancelTorrent_index_def engine_call_def tw_cancel_def stopOnTorrent_def
        Let_def when_act_eq map_filter_def)
qed

end
